(* ===== verification/Prelude.thy ===== *)
theory Prelude
  imports Main "HOL-Library.Word" "HOL-Library.Sublist"
begin

text \<open>
  The prelude of the development: the outcome type every fallible C++ operation of the
  model returns, C++ integer conversions, checked reads and writes of C arrays, and the
  generic lemmas on lists the components share.

  A C++ exception, an assertion failure and an undefined behaviour are values: an operation
  that can end in one returns \<open>cxx_error + 'a\<close>. A loop that may run forever has the type
  \<open>'a option\<close> on top of that, \<open>None\<close> being "does not return".
\<close>

unbundle bit_operations_syntax

section \<open>Outcomes\<close>

datatype cxx_error =
    Out_Of_Range
  | Invalid_Argument
  | Runtime_Error string
  | Logic_Error string
  | UB_Bounds
  | UB_Div_Zero
  | UB_Overflow
  | UB_Null
  | UB_Args
  | Assert_Failed

type_synonym 'a res = "cxx_error + 'a"

definition res_bind :: "'a res \<Rightarrow> ('a \<Rightarrow> 'b res) \<Rightarrow> 'b res" where
  "res_bind m f = (case m of Inl e \<Rightarrow> Inl e | Inr x \<Rightarrow> f x)"

lemma res_bind_simps [simp]:
  "res_bind (Inl e) f = Inl e"
  "res_bind (Inr x) f = f x"
  by (simp_all add: res_bind_def)

lemma res_bind_Inr_iff [simp]:
  "res_bind m f = Inr y \<longleftrightarrow> (\<exists>x. m = Inr x \<and> f x = Inr y)"
  by (cases m) simp_all

section \<open>Integer conversions\<close>

text \<open>
  \<open>to_i32\<close> is the conversion of an integer value to a 32-bit \<open>int\<close> (modulo \<open>2 ^ 32\<close>, as
  C++20 defines it and every compiler did before); \<open>to_size\<close> the conversion to a 64-bit
  \<open>size_t\<close>.
\<close>

definition to_i32 :: "int \<Rightarrow> int" where
  "to_i32 x = (x + 2 ^ 31) mod 2 ^ 32 - 2 ^ 31"

definition to_size :: "int \<Rightarrow> nat" where
  "to_size x = nat (x mod 2 ^ 64)"

definition int_range :: "int \<Rightarrow> bool" where
  "int_range x \<longleftrightarrow> - (2 ^ 31) \<le> x \<and> x < 2 ^ 31"

text \<open>Signed arithmetic outside the range of \<open>int\<close> is undefined behaviour.\<close>

definition checked_int :: "int \<Rightarrow> int res" where
  "checked_int x = (if int_range x then Inr x else Inl UB_Overflow)"

lemma to_i32_id [simp]: "int_range x \<Longrightarrow> to_i32 x = x"
  by (simp add: to_i32_def int_range_def)

lemma to_i32_range: "int_range (to_i32 x)"
proof -
  have "0 \<le> (x + 2 ^ 31) mod 2 ^ 32" "(x + 2 ^ 31) mod 2 ^ 32 < 2 ^ 32"
    by simp_all
  then show ?thesis by (simp add: to_i32_def int_range_def)
qed

lemma to_size_id [simp]: "0 \<le> x \<Longrightarrow> x < 2 ^ 64 \<Longrightarrow> to_size x = nat x"
  by (simp add: to_size_def)

lemma checked_int_ok [simp]: "int_range x \<Longrightarrow> checked_int x = Inr x"
  by (simp add: checked_int_def)

lemma int_range_nat: "n < 2 ^ 31 \<Longrightarrow> int_range (int n)"
  by (simp add: int_range_def)

text \<open>C and C++ division truncates towards zero and traps on a zero divisor.\<close>

definition cxx_rem :: "int \<Rightarrow> int \<Rightarrow> int res" where
  "cxx_rem a b = (if b = 0 then Inl UB_Div_Zero else Inr (sgn a * (\<bar>a\<bar> mod \<bar>b\<bar>)))"

lemma cxx_rem_pos: "0 \<le> a \<Longrightarrow> 0 < b \<Longrightarrow> cxx_rem a b = Inr (a mod b)"
  by (cases "a = 0") (simp_all add: cxx_rem_def)

text \<open>\<open>x / 2\<close>, truncated towards zero.\<close>

definition cxx_half :: "int \<Rightarrow> int" where
  "cxx_half x = (if x < 0 then - ((- x) div 2) else x div 2)"

lemma cxx_half_nonneg [simp]: "0 \<le> x \<Longrightarrow> cxx_half x = x div 2"
  by (simp add: cxx_half_def)

section \<open>C arrays\<close>

definition arr_read :: "'a list \<Rightarrow> int \<Rightarrow> 'a res" where
  "arr_read xs i = (if 0 \<le> i \<and> i < int (length xs) then Inr (xs ! nat i) else Inl UB_Bounds)"

definition arr_write :: "'a list \<Rightarrow> int \<Rightarrow> 'a \<Rightarrow> 'a list res" where
  "arr_write xs i v =
     (if 0 \<le> i \<and> i < int (length xs) then Inr (xs[nat i := v]) else Inl UB_Bounds)"

lemma arr_read_ok: "i < length xs \<Longrightarrow> arr_read xs (int i) = Inr (xs ! i)"
  by (simp add: arr_read_def)

lemma arr_write_ok: "i < length xs \<Longrightarrow> arr_write xs (int i) v = Inr (xs[i := v])"
  by (simp add: arr_write_def)

lemma arr_write_out: "int (length xs) \<le> i \<Longrightarrow> arr_write xs i v = Inl UB_Bounds"
  by (simp add: arr_write_def)

lemma arr_write_length: "arr_write xs i v = Inr ys \<Longrightarrow> length ys = length xs"
  by (auto simp: arr_write_def split: if_splits)

text \<open>\<open>memcpy\<close> of \<open>n\<close> bytes of \<open>src\<close> to offset \<open>off\<close> of an array, and \<open>memset\<close>.\<close>

definition mem_copy :: "'a list \<Rightarrow> nat \<Rightarrow> 'a list \<Rightarrow> nat \<Rightarrow> 'a list res" where
  "mem_copy dst off src n =
     (if n \<le> length src \<and> off + n \<le> length dst
      then Inr (take off dst @ take n src @ drop (off + n) dst)
      else Inl UB_Bounds)"

definition mem_set :: "'a list \<Rightarrow> nat \<Rightarrow> 'a \<Rightarrow> nat \<Rightarrow> 'a list res" where
  "mem_set dst off v n = mem_copy dst off (replicate n v) n"

lemma mem_copy_ok:
  "n \<le> length src \<Longrightarrow> off + n \<le> length dst \<Longrightarrow>
   mem_copy dst off src n = Inr (take off dst @ take n src @ drop (off + n) dst)"
  by (simp add: mem_copy_def)

lemma mem_set_ok:
  "off + n \<le> length dst \<Longrightarrow>
   mem_set dst off v n = Inr (take off dst @ replicate n v @ drop (off + n) dst)"
  by (simp add: mem_set_def mem_copy_ok)

section \<open>Lists\<close>

lemma take_append_drop_at:
  assumes "prefix p (drop i s)"
  shows "s = take i s @ p @ drop (i + length p) s"
proof -
  from assms obtain r where r: "drop i s = p @ r" by (auto simp: prefix_def)
  then have "drop (length p) (drop i s) = r" by simp
  then have "drop (i + length p) s = r" by (simp add: add.commute)
  with r show ?thesis by (metis append_take_drop_id)
qed

lemma prefix_take_iff: "prefix p xs \<longleftrightarrow> take (length p) xs = p"
  by (metis append_eq_conv_conj append_take_drop_id prefix_def)

lemma prefix_nth: "prefix p xs \<Longrightarrow> k < length p \<Longrightarrow> p ! k = xs ! k"
  by (metis nth_take prefix_take_iff)

lemma prefix_drop_within:
  "prefix p (drop j (xs @ ys)) \<Longrightarrow> j + length p \<le> length xs \<Longrightarrow> prefix p (drop j xs)"
  by (simp add: prefix_take_iff)

lemma prefix_drop_sublist: "prefix p (drop j xs) \<Longrightarrow> sublist p xs"
  by (meson prefix_imp_sublist sublist_drop sublist_order.order_trans)

lemma list_update_append_at: "length xs = n \<Longrightarrow> (xs @ y # ys)[n := z] = xs @ z # ys"
  by (auto simp: list_update_append)

section \<open>Words\<close>

lemma unat_take_bit_word: "unat (take_bit n w) = unat w mod 2 ^ n"
  by (simp only: unsigned_take_bit_eq take_bit_eq_mod [where 'a = nat])

lemma unat_drop_bit_word: "unat (drop_bit n w) = unat w div 2 ^ n"
  for w :: "'a::len word"
proof -
  have "take_bit LENGTH('a) (unat w) = unat w" by (simp add: take_bit_nat_eq_self_iff)
  then show ?thesis by (simp add: unsigned_drop_bit_eq drop_bit_eq_div [where 'a = nat])
qed

lemma word_rotl_shifts:
  fixes x :: "32 word"
  assumes k: "0 < k" "k < 32"
  shows "push_bit k x OR drop_bit (32 - k) x = word_rotl k x"
proof (rule bit_word_eqI)
  fix n assume "n < LENGTH(32)"
  then have n: "n < 32" by simp
  have r: "bit (word_rotl k x) n = bit x ((n + (32 - k)) mod 32)"
    using k n by (simp add: bit_word_rotl_iff)
  show "bit (push_bit k x OR drop_bit (32 - k) x) n = bit (word_rotl k x) n"
  proof (cases "n < k")
    case True
    then have "(n + (32 - k)) mod 32 = 32 - k + n" using k by simp
    moreover have "bit (push_bit k x OR drop_bit (32 - k) x) n = bit x (32 - k + n)"
      using True by (simp add: bit_or_iff bit_push_bit_iff bit_drop_bit_eq)
    ultimately show ?thesis using r by (simp only:)
  next
    case False
    then have "n + (32 - k) = (n - k) + 32" using k by simp
    then have "(n + (32 - k)) mod 32 = n - k" using n by (simp only: mod_add_self2) simp
    moreover have "\<not> bit x (32 - k + n)" using False k by (auto dest: bit_imp_le_length)
    then have "bit (push_bit k x OR drop_bit (32 - k) x) n = bit x (n - k)"
      using False n by (simp add: bit_or_iff bit_push_bit_iff bit_drop_bit_eq)
    ultimately show ?thesis using r by (simp only:)
  qed
qed

section \<open>Interfaces shared by several components\<close>

text \<open>
  A codec: what \<open>enc\<close> writes, \<open>dec\<close> reads back. Hex strings and both base64 alphabets
  provide it.
\<close>

locale codec =
  fixes enc :: "'a list \<Rightarrow> 'b list"
    and dec :: "'b list \<Rightarrow> 'a list res"
  assumes dec_enc: "dec (enc xs) = Inr xs"
begin

lemma enc_inj: "enc xs = enc ys \<longleftrightarrow> xs = ys"
  by (metis dec_enc sum.inject(2))

lemma enc_determined: "dec s = Inr xs \<Longrightarrow> dec (enc xs) = dec s"
  by (simp add: dec_enc)

end

text \<open>
  A transition system with an inductive invariant: what every step keeps holds in every
  state a run reaches. The concurrent components provide it with their own step relation.
\<close>

locale inv_system =
  fixes step :: "'s \<Rightarrow> 's \<Rightarrow> bool"
    and inv :: "'s \<Rightarrow> bool"
  assumes inv_step: "inv s \<Longrightarrow> step s t \<Longrightarrow> inv t"
begin

lemma inv_run: "step\<^sup>*\<^sup>* s t \<Longrightarrow> inv s \<Longrightarrow> inv t"
  by (induction rule: rtranclp_induct) (blast intro: inv_step)+

end

lemma set_updateD: "w \<in> set (ws[i := v]) \<Longrightarrow> w = v \<or> w \<in> set ws"
  using set_update_subset_insert [of ws i v] by blast

end
