(* ===== verification/CxxString.thy ===== *)
theory CxxString
  imports Prelude
begin

text \<open>
  The operations of \<open>std::string\<close> the program uses, on Isabelle's \<open>string\<close> (a list of
  8-bit characters): \<open>find\<close>, \<open>substr\<close>, \<open>replace\<close>, \<open>insert\<close>, conversions between characters
  and integers, \<open>std::stoi\<close>. They model the C++ standard library as its documentation states
  it; nothing here has lines in the repository. The facts on \<open>find_sub\<close> are what the splitting,
  replacing and cutting functions of the program are proved with.
\<close>

section \<open>find, substr, replace, insert\<close>

text \<open>\<open>find_sub s p\<close> is the least position at which \<open>p\<close> occurs in \<open>s\<close>.\<close>

fun find_sub :: "'a list \<Rightarrow> 'a list \<Rightarrow> nat option" where
  "find_sub [] p = (if p = [] then Some 0 else None)"
| "find_sub (x # xs) p = (if prefix p (x # xs) then Some 0 else map_option Suc (find_sub xs p))"

text \<open>\<open>s.find(p, pos)\<close>; \<open>npos\<close> is \<open>None\<close>.\<close>

definition str_find :: "'a list \<Rightarrow> 'a list \<Rightarrow> nat \<Rightarrow> nat option" where
  "str_find s p pos =
     (if pos \<le> length s then map_option (\<lambda>k. pos + k) (find_sub (drop pos s) p) else None)"

text \<open>\<open>s.substr(pos, n)\<close> throws \<open>std::out_of_range\<close> past the end; \<open>n\<close> is cut to what is left.\<close>

definition str_substr :: "'a list \<Rightarrow> nat \<Rightarrow> nat \<Rightarrow> 'a list res" where
  "str_substr s pos n = (if pos \<le> length s then Inr (take n (drop pos s)) else Inl Out_Of_Range)"

definition str_substr_from :: "'a list \<Rightarrow> nat \<Rightarrow> 'a list res" where
  "str_substr_from s pos = (if pos \<le> length s then Inr (drop pos s) else Inl Out_Of_Range)"

definition str_replace :: "'a list \<Rightarrow> nat \<Rightarrow> nat \<Rightarrow> 'a list \<Rightarrow> 'a list res" where
  "str_replace s pos n r =
     (if pos \<le> length s then Inr (take pos s @ r @ drop (pos + n) s) else Inl Out_Of_Range)"

definition str_insert :: "'a list \<Rightarrow> nat \<Rightarrow> 'a list \<Rightarrow> 'a list res" where
  "str_insert s pos r =
     (if pos \<le> length s then Inr (take pos s @ r @ drop pos s) else Inl Out_Of_Range)"

text \<open>\<open>s.at(i)\<close>, the checked access.\<close>

definition str_at :: "'a list \<Rightarrow> nat \<Rightarrow> 'a res" where
  "str_at s i = (if i < length s then Inr (s ! i) else Inl Out_Of_Range)"

section \<open>Facts on find\<close>

lemma find_sub_SomeD:
  "find_sub s p = Some i \<Longrightarrow> prefix p (drop i s) \<and> i \<le> length s \<and> (\<forall>j < i. \<not> prefix p (drop j s))"
proof (induction s arbitrary: i)
  case Nil
  then show ?case by (simp split: if_splits)
next
  case (Cons x xs)
  show ?case
  proof (cases "prefix p (x # xs)")
    case True
    with Cons.prems show ?thesis by simp
  next
    case False
    with Cons.prems obtain k where k: "find_sub xs p = Some k" "i = Suc k" by auto
    from Cons.IH [OF k(1)] k(2) False show ?thesis
      by (auto simp: drop_Cons split: nat.splits)
  qed
qed

lemma find_sub_NoneD: "find_sub s p = None \<Longrightarrow> j \<le> length s \<Longrightarrow> \<not> prefix p (drop j s)"
proof (induction s arbitrary: j)
  case Nil
  then show ?case by (simp split: if_splits)
next
  case (Cons x xs)
  from Cons.prems(1) have "\<not> prefix p (x # xs)" "find_sub xs p = None"
    by (auto split: if_splits)
  with Cons.IH Cons.prems(2) show ?case by (cases j) auto
qed

lemma find_sub_None_iff: "find_sub s p = None \<longleftrightarrow> \<not> sublist p s"
proof
  assume none: "find_sub s p = None"
  show "\<not> sublist p s"
  proof
    assume "sublist p s"
    then obtain a b where s: "s = a @ p @ b" by (auto simp: sublist_def)
    then have "prefix p (drop (length a) s)" by simp
    with find_sub_NoneD [OF none, of "length a"] s show False by simp
  qed
next
  assume no: "\<not> sublist p s"
  show "find_sub s p = None"
  proof (cases "find_sub s p")
    case (Some i)
    then have "prefix p (drop i s)" by (simp add: find_sub_SomeD)
    then have "sublist p s" by (rule prefix_drop_sublist)
    with no show ?thesis by simp
  qed simp
qed

lemma find_sub_Some_bound: "find_sub s p = Some i \<Longrightarrow> i + length p \<le> length s"
proof -
  assume "find_sub s p = Some i"
  then have "prefix p (drop i s)" "i \<le> length s" by (simp_all add: find_sub_SomeD)
  then show ?thesis by (auto dest!: prefix_length_le)
qed

lemma find_sub_decomp:
  "find_sub s p = Some i \<Longrightarrow> s = take i s @ p @ drop (i + length p) s"
  by (meson find_sub_SomeD take_append_drop_at)

lemma find_sub_empty [simp]: "find_sub s [] = Some 0"
  by (cases s) auto

lemma prefix_drop_append_cases:
  "j \<le> length a \<Longrightarrow> prefix p (drop j a) \<Longrightarrow> prefix p (drop j (a @ b))"
  by (auto simp: prefix_def)

text \<open>Nothing before the found position holds the pattern.\<close>

lemma find_sub_first:
  assumes found: "find_sub s p = Some i" and ne: "p \<noteq> []"
  shows "\<not> sublist p (take i s)"
proof
  assume "sublist p (take i s)"
  then obtain a b where ab: "take i s = a @ p @ b" by (auto simp: sublist_def)
  then have la: "length a < i" using ne
    by (metis append_Nil2 find_sub_SomeD found length_append length_greater_0_conv
        length_take less_add_same_cancel1 min.absorb2 trans_less_add1 add.assoc)
  have "s = a @ p @ b @ drop i s" using ab by (metis append.assoc append_take_drop_id)
  then have "prefix p (drop (length a) s)" by (metis append_eq_conv_conj prefix_def)
  with la find_sub_SomeD [OF found] show False by blast
qed

text \<open>The least position is characterised by what it satisfies.\<close>

lemma find_sub_eqI:
  assumes "prefix p (drop i s)" "i \<le> length s" "\<And>j. j < i \<Longrightarrow> \<not> prefix p (drop j s)"
  shows "find_sub s p = Some i"
proof (cases "find_sub s p")
  case None
  from find_sub_NoneD [OF None assms(2)] assms(1) show ?thesis by simp
next
  case (Some k)
  from find_sub_SomeD [OF Some] assms have "k = i"
    by (metis linorder_neqE_nat)
  with Some show ?thesis by simp
qed

lemma str_find_zero [simp]: "str_find s p 0 = find_sub s p"
  by (cases "find_sub s p") (simp_all add: str_find_def)

lemma str_find_at: "pos \<le> length s \<Longrightarrow>
    str_find s p pos = map_option (\<lambda>k. pos + k) (find_sub (drop pos s) p)"
  by (simp add: str_find_def)

section \<open>Joining with a separator\<close>

fun join :: "'a list \<Rightarrow> 'a list list \<Rightarrow> 'a list" where
  "join sep [] = []"
| "join sep [x] = x"
| "join sep (x # y # ys) = x @ sep @ join sep (y # ys)"

lemma join_Cons: "xs \<noteq> [] \<Longrightarrow> join sep (x # xs) = x @ sep @ join sep xs"
  by (cases xs) simp_all

lemma join_snoc: "xs \<noteq> [] \<Longrightarrow> join sep (xs @ [y]) = join sep xs @ sep @ y"
  by (induction sep xs rule: join.induct) (simp_all add: join_Cons)

section \<open>Characters and numbers\<close>

definition char_nat :: "char \<Rightarrow> nat" where
  "char_nat c = of_char c"

text \<open>
  A plain \<open>char\<close> is signed or unsigned by platform (unsigned on ARM, signed on x86);
  \<open>sc\<close> says which, and conversions of a character to an integer depend on it.
\<close>

definition char_int :: "bool \<Rightarrow> char \<Rightarrow> int" where
  "char_int sc c = (let n = of_char c in if sc \<and> n \<ge> 128 then int n - 256 else int n)"

definition int_char :: "int \<Rightarrow> char" where
  "int_char x = char_of (nat (x mod 256))"

lemma char_nat_less [simp]: "char_nat c < 256"
  by (simp add: char_nat_def)

lemma int_char_char_int [simp]: "int_char (char_int sc c) = c"
proof -
  have "(of_char c :: nat) < 256" by simp
  moreover have "(int n - 256) mod 256 = int n mod 256" for n by (simp add: mod_diff_right_eq)
  ultimately show ?thesis
    by (simp add: int_char_def char_int_def Let_def)
qed

definition is_digit :: "char \<Rightarrow> bool" where
  "is_digit c \<longleftrightarrow> 48 \<le> char_nat c \<and> char_nat c \<le> 57"

definition is_space :: "char \<Rightarrow> bool" where
  "is_space c \<longleftrightarrow> char_nat c = 32 \<or> 9 \<le> char_nat c \<and> char_nat c \<le> 13"

fun digits_val :: "nat \<Rightarrow> string \<Rightarrow> nat" where
  "digits_val acc [] = acc"
| "digits_val acc (c # cs) =
     (if is_digit c then digits_val (acc * 10 + (char_nat c - 48)) cs else acc)"

text \<open>
  The decimal number at the front of a text, as \<open>strtol\<close> reads it: white space, an optional
  sign, digits. \<open>None\<close> where there is no digit.
\<close>

definition scan_int :: "string \<Rightarrow> int option" where
  "scan_int s =
     (let t = dropWhile is_space s;
          neg = (case t of c # _ \<Rightarrow> c = CHR ''-'' | [] \<Rightarrow> False);
          u = (case t of c # cs \<Rightarrow> if c = CHR ''-'' \<or> c = CHR ''+'' then cs else t | [] \<Rightarrow> [])
      in case u of
           [] \<Rightarrow> None
         | c # _ \<Rightarrow> if is_digit c
             then Some (if neg then - int (digits_val 0 u) else int (digits_val 0 u))
             else None)"

text \<open>\<open>std::stoi\<close>: \<open>std::invalid_argument\<close> without a number, \<open>std::out_of_range\<close> past \<open>int\<close>.\<close>

definition stoi :: "string \<Rightarrow> int res" where
  "stoi s = (case scan_int s of
       None \<Rightarrow> Inl Invalid_Argument
     | Some n \<Rightarrow> if int_range n then Inr n else Inl Out_Of_Range)"

lemma stoi_range: "stoi s = Inr n \<Longrightarrow> int_range n"
  by (auto simp: stoi_def split: option.splits if_splits)

end
