(* ===== verification/StringUtils.thy ===== *)
theory StringUtils
  imports CxxString
begin

text \<open>
  The string functions of \<open>third/utils/utils.cpp\<close>: \<open>mid_string\<close>, \<open>string_split\<close>,
  \<open>replace_all\<close>, \<open>to_lower\<close>, \<open>to_upper\<close>. The two loops may run forever, so they are
  \<open>partial_function (option)\<close>: \<open>None\<close> is "does not return". Positions are computed the way
  the code does, through its \<open>int\<close> variables; the theorems about them assume texts shorter than
  \<open>2 ^ 31\<close>, the range of those variables.
\<close>

section \<open>mid_string\<close>

text \<open>\<open>int p = src.find(x)\<close>: \<open>npos\<close> becomes \<open>-1\<close>.\<close>

definition find_int :: "nat option \<Rightarrow> int" where
  "find_int r = to_i32 (case r of None \<Rightarrow> - 1 | Some k \<Rightarrow> int k)"

definition mid_string :: "string \<Rightarrow> string \<Rightarrow> string \<Rightarrow> string res" where
  "mid_string src start stop =
     (let p = find_int (str_find src start 0) in
      if p = - 1 then Inr []
      else
        let pe = find_int (str_find src stop (to_size (p + int (length start)))) in
        if pe = - 1 then Inr []
        else str_substr src (to_size (p + int (length start)))
               (to_size (pe - p - int (length start))))"

lemma find_int_None [simp]: "find_int None = - 1"
  by (simp add: find_int_def int_range_def)

lemma find_int_Some [simp]: "k < 2 ^ 31 \<Longrightarrow> find_int (Some k) = int k"
  by (simp add: find_int_def int_range_def)

lemma mid_string_eval:
  assumes small: "length src < 2 ^ 31"
  shows "mid_string src start stop = Inr (case find_sub src start of
      None \<Rightarrow> []
    | Some i \<Rightarrow> (let rest = drop (i + length start) src in
        case find_sub rest stop of None \<Rightarrow> [] | Some j \<Rightarrow> take j rest))"
proof (cases "find_sub src start")
  case None
  then show ?thesis by (simp add: mid_string_def)
next
  case (Some i)
  then have b: "i + length start \<le> length src" by (rule find_sub_Some_bound)
  define rest where "rest = drop (i + length start) src"
  have fs: "str_find src stop (i + length start) =
      map_option (\<lambda>k. i + length start + k) (find_sub rest stop)"
    using b by (simp add: str_find_at rest_def)
  have sz: "to_size (int i + int (length start)) = i + length start"
    using b small by (simp add: nat_add_distrib)
  show ?thesis
  proof (cases "find_sub rest stop")
    case None
    with Some fs sz b small show ?thesis
      by (simp add: mid_string_def rest_def [symmetric])
  next
    case (Some j)
    from find_sub_Some_bound [OF this] have j: "i + length start + j \<le> length src"
      using b by (simp add: rest_def)
    have "to_size (int (i + length start + j) - int i - int (length start)) = j"
      using j small by simp
    with Some \<open>find_sub src start = Some i\<close> fs sz b small j show ?thesis
      by (simp add: mid_string_def rest_def [symmetric] str_substr_def)
  qed
qed

section \<open>string_split\<close>

partial_function (option) string_split_loop ::
  "string \<Rightarrow> string \<Rightarrow> int \<Rightarrow> int \<Rightarrow> string list \<Rightarrow> string list res option" where
  "string_split_loop str pattern n i result =
     (if i < n then
        (case str_find str pattern (to_size i) of
           None \<Rightarrow>
             (case str_substr_from str (to_size i) of
                Inl e \<Rightarrow> Some (Inl e)
              | Inr s \<Rightarrow> Some (Inr (result @ [s])))
         | Some pos \<Rightarrow>
             if pos < to_size n then
               (case str_substr str (to_size i) (to_size (int pos - i)) of
                  Inl e \<Rightarrow> Some (Inl e)
                | Inr s \<Rightarrow> string_split_loop str pattern n
                    (to_i32 (int pos + int (length pattern) - 1) + 1) (result @ [s]))
             else string_split_loop str pattern n (i + 1) result)
      else Some (Inr result))"

definition string_split :: "string \<Rightarrow> string \<Rightarrow> string list res option" where
  "string_split str pattern =
     string_split_loop str pattern (to_i32 (int (length str))) 0 []"

text \<open>What the loop computes, as a recursion on the text that is left.\<close>

function split_ref :: "'a list \<Rightarrow> 'a list \<Rightarrow> 'a list list" where
  "split_ref p s =
     (if s = [] \<or> p = [] then []
      else case find_sub s p of
        None \<Rightarrow> [s]
      | Some i \<Rightarrow> take i s # split_ref p (drop (i + length p) s))"
  by pat_completeness auto
termination
  by (relation "measure (\<lambda>(p, s). length s)") auto

declare split_ref.simps [simp del]

lemma string_split_loop_ref:
  assumes "p \<noteq> []" "length s < 2 ^ 31" "i \<le> length s"
  shows "string_split_loop s p (int (length s)) (int i) acc =
     Some (Inr (acc @ split_ref p (drop i s)))"
  using assms
proof (induction "length s - i" arbitrary: i acc rule: less_induct)
  case less
  show ?case
  proof (cases "i < length s")
    case False
    with less.prems show ?thesis
      by (simp add: string_split_loop.simps split_ref.simps)
  next
    case True
    have sz: "to_size (int i) = i" using less.prems by simp
    show ?thesis
    proof (cases "find_sub (drop i s) p")
      case None
      with True less.prems sz show ?thesis
        by (subst string_split_loop.simps)
          (simp add: str_find_at str_substr_from_def split_ref.simps [of p "drop i s"])
    next
      case (Some k)
      from find_sub_Some_bound [OF this] True
      have b: "i + k + length p \<le> length s" by simp
      have pos: "0 < length p" using less.prems(1) by simp
      have lt: "i + k < length s" using b pos by linarith
      have bi: "int i + int k + int (length p) \<le> int (length s)" using b by linarith
      have szk: "to_size (int (i + k) - int i) = k"
        using b less.prems by simp
      have ni: "to_i32 (int (i + k) + int (length p) - 1) + 1 = int (i + k + length p)"
        using bi less.prems by (subst to_i32_id) (simp_all add: int_range_def)
      have "string_split_loop s p (int (length s)) (int i) acc =
          string_split_loop s p (int (length s)) (int (i + k + length p))
            (acc @ [take k (drop i s)])"
        using True Some less.prems sz szk ni b lt
        by (subst string_split_loop.simps) (simp add: str_find_at str_substr_def)
      also have "\<dots> = Some (Inr ((acc @ [take k (drop i s)]) @ split_ref p (drop (i + k + length p) s)))"
        using b pos lt less.prems by (intro less.hyps) (linarith | simp)+
      also have "\<dots> = Some (Inr (acc @ split_ref p (drop i s)))"
        using Some True less.prems
        by (simp add: split_ref.simps [of p "drop i s"] add.commute add.left_commute)
      finally show ?thesis .
    qed
  qed
qed

lemma string_split_ref:
  "p \<noteq> [] \<Longrightarrow> length s < 2 ^ 31 \<Longrightarrow> string_split s p = Some (Inr (split_ref p s))"
  using string_split_loop_ref [of p s 0 "[]"] int_range_nat [of "length s"]
  by (simp add: string_split_def)

lemma split_ref_no_sep: "x \<in> set (split_ref p s) \<Longrightarrow> \<not> sublist p x"
proof (induction p s rule: split_ref.induct)
  case (1 p s)
  then show ?case
    by (subst (asm) (2) split_ref.simps)
      (auto split: if_splits option.splits simp: find_sub_None_iff dest: find_sub_first)
qed

text \<open>Putting the separator back between the parts gives the text, but for one at its end.\<close>

lemma split_ref_Nil_iff: "p \<noteq> [] \<Longrightarrow> split_ref p s = [] \<longleftrightarrow> s = []"
  by (subst split_ref.simps) (auto split: option.splits)

lemma split_ref_join:
  "p \<noteq> [] \<Longrightarrow> \<exists>trail. s = join p (split_ref p s) @ trail \<and> (trail = [] \<or> trail = p)"
proof (induction p s rule: split_ref.induct)
  case (1 p s)
  show ?case
  proof (cases "s = []")
    case True
    then show ?thesis by (simp add: split_ref.simps)
  next
    case ne: False
    show ?thesis
    proof (cases "find_sub s p")
      case None
      with ne "1.prems" show ?thesis by (simp add: split_ref.simps)
    next
      case (Some i)
      let ?r = "drop (i + length p) s"
      from find_sub_decomp [OF Some] have s: "s = take i s @ p @ ?r" .
      have sr: "split_ref p s = take i s # split_ref p ?r"
        using ne "1.prems" Some by (simp add: split_ref.simps [of p s])
      show ?thesis
      proof (cases "?r = []")
        case True
        with sr s have "join p (split_ref p s) = take i s" by (simp add: split_ref.simps)
        with s True show ?thesis by auto
      next
        case False
        from "1.IH" [of i] ne "1.prems" Some obtain trail
          where t: "?r = join p (split_ref p ?r) @ trail" "trail = [] \<or> trail = p" by auto
        have "split_ref p ?r \<noteq> []" using False "1.prems" by (simp add: split_ref_Nil_iff)
        with sr t(1) s have "s = join p (split_ref p s) @ trail"
          by (metis append.assoc join_Cons)
        with t(2) show ?thesis by blast
      qed
    qed
  qed
qed

text \<open>With an empty separator the position never advances.\<close>

lemma string_split_loop_empty:
  assumes "0 < length s" "length s < 2 ^ 31"
  shows "string_split_loop s [] (int (length s)) 0 acc = None"
proof -
  define P where "P = (\<lambda>(str::string) (pattern::string) (n::int) (i::int) (acc::string list) (r::string list res).
      pattern = [] \<longrightarrow> i = 0 \<longrightarrow> n = int (length str) \<longrightarrow> 0 < length str \<longrightarrow>
      \<not> length str < 2 ^ 31)"
  have step: "P str pattern n i result r"
    if IH: "\<And>str pattern n i acc r. f str pattern n i acc = Some r \<Longrightarrow> P str pattern n i acc r"
      and eq: "(if i < n then
        (case str_find str pattern (to_size i) of
           None \<Rightarrow>
             (case str_substr_from str (to_size i) of
                Inl e \<Rightarrow> Some (Inl e)
              | Inr s \<Rightarrow> Some (Inr (result @ [s])))
         | Some pos \<Rightarrow>
             if pos < to_size n then
               (case str_substr str (to_size i) (to_size (int pos - i)) of
                  Inl e \<Rightarrow> Some (Inl e)
                | Inr s \<Rightarrow> f str pattern n
                    (to_i32 (int pos + int (length pattern) - 1) + 1) (result @ [s]))
             else f str pattern n (i + 1) result)
      else Some (Inr result)) = Some r" for f str pattern n i result r
    unfolding P_def
  proof (intro impI notI)
    assume p: "pattern = []" "i = 0" "n = int (length str)" "0 < length str"
      "length str < 2 ^ 31"
    have m1: "to_i32 (- 1) = - 1" by (simp add: int_range_def)
    from eq p have "f str [] (int (length str)) 0 (result @ [[]]) = Some r"
      by (simp add: str_substr_def m1 str_find_def)
    from IH [OF this] p show False by (simp add: P_def)
  qed
  have "P s [] (int (length s)) 0 acc r"
    if "string_split_loop s [] (int (length s)) 0 acc = Some r" for r
    using string_split_loop.raw_induct [of P, OF step that] .
  with assms show ?thesis
    by (cases "string_split_loop s [] (int (length s)) 0 acc") (auto simp: P_def)
qed

section \<open>replace_all\<close>

text \<open>Each round searches from the start of the text again.\<close>

partial_function (option) replace_all_loop ::
  "string \<Rightarrow> string \<Rightarrow> string \<Rightarrow> string res option" where
  "replace_all_loop old_value new_value cp =
     (case str_find cp old_value 0 of
        Some pos \<Rightarrow>
          (case str_replace cp pos (length old_value) new_value of
             Inl e \<Rightarrow> Some (Inl e)
           | Inr cp' \<Rightarrow> replace_all_loop old_value new_value cp')
      | None \<Rightarrow> Some (Inr cp))"

definition replace_all :: "string \<Rightarrow> string \<Rightarrow> string \<Rightarrow> string res option" where
  "replace_all str old_value new_value = replace_all_loop old_value new_value str"

lemma replace_all_loop_unfold:
  "replace_all_loop old new cp =
     (case find_sub cp old of
        None \<Rightarrow> Some (Inr cp)
      | Some i \<Rightarrow> replace_all_loop old new (take i cp @ new @ drop (i + length old) cp))"
  by (subst replace_all_loop.simps)
    (auto simp: str_replace_def split: option.splits dest: find_sub_Some_bound)

lemma replace_all_loop_result:
  assumes "replace_all_loop old new cp = Some r"
  shows "\<exists>t. r = Inr t \<and> \<not> sublist old t"
proof -
  define P where "P = (\<lambda>(old::string) (new::string) (cp::string) (r::string res).
      \<exists>t. r = Inr t \<and> \<not> sublist old t)"
  have step: "P old new cp r"
    if IH: "\<And>old new cp r. f old new cp = Some r \<Longrightarrow> P old new cp r"
      and eq: "(case str_find cp old 0 of
          Some pos \<Rightarrow> (case str_replace cp pos (length old) new of
             Inl e \<Rightarrow> Some (Inl e) | Inr cp' \<Rightarrow> f old new cp')
        | None \<Rightarrow> Some (Inr cp)) = Some r" for f old new cp r
  proof (cases "find_sub cp old")
    case None
    with eq show ?thesis by (auto simp: P_def find_sub_None_iff)
  next
    case (Some i)
    with eq have "f old new (take i cp @ new @ drop (i + length old) cp) = Some r"
      by (auto simp: str_replace_def split: if_splits dest: find_sub_Some_bound)
    from IH [OF this] show ?thesis by (simp add: P_def)
  qed
  have "P old new cp r" using replace_all_loop.raw_induct [of P, OF step assms] .
  then show ?thesis by (simp add: P_def)
qed

lemma replace_all_loop_shrinks:
  "length new < length old \<Longrightarrow> \<exists>t. replace_all_loop old new cp = Some (Inr t)"
proof (induction "length cp" arbitrary: cp rule: less_induct)
  case less
  show ?case
  proof (cases "find_sub cp old")
    case None
    then show ?thesis by (simp add: replace_all_loop_unfold)
  next
    case (Some i)
    from find_sub_Some_bound [OF this] less.prems
    have "length (take i cp @ new @ drop (i + length old) cp) < length cp" by simp
    with less.hyps less.prems Some show ?thesis
      by (subst replace_all_loop_unfold) simp
  qed
qed

lemma replace_all_loop_grows:
  assumes sub: "sublist old new" and s: "sublist old cp"
  shows "replace_all_loop old new cp = None"
proof -
  define P where "P = (\<lambda>(old::string) (new::string) (cp::string) (r::string res).
      sublist old new \<longrightarrow> \<not> sublist old cp)"
  have step: "P old new cp r"
    if IH: "\<And>old new cp r. f old new cp = Some r \<Longrightarrow> P old new cp r"
      and eq: "(case str_find cp old 0 of
          Some pos \<Rightarrow> (case str_replace cp pos (length old) new of
             Inl e \<Rightarrow> Some (Inl e) | Inr cp' \<Rightarrow> f old new cp')
        | None \<Rightarrow> Some (Inr cp)) = Some r" for f old new cp r
    unfolding P_def
  proof (intro impI notI)
    assume a: "sublist old new" "sublist old cp"
    then obtain i where i: "find_sub cp old = Some i"
      by (metis find_sub_None_iff not_None_eq)
    let ?t = "take i cp @ new @ drop (i + length old) cp"
    from eq i have "f old new ?t = Some r"
      by (auto simp: str_replace_def split: if_splits dest: find_sub_Some_bound)
    from IH [OF this] a(1) have "\<not> sublist old ?t" by (simp add: P_def)
    moreover have "sublist new ?t" by (auto simp: sublist_def)
    ultimately show False using a(1) by (meson sublist_order.order_trans)
  qed
  have "P old new cp r" if "replace_all_loop old new cp = Some r" for r
    using replace_all_loop.raw_induct [of P, OF step that] .
  with assms show ?thesis by (cases "replace_all_loop old new cp") (auto simp: P_def)
qed

text \<open>The usual left-to-right replacement, which never looks at what it inserted.\<close>

function replace_ref :: "'a list \<Rightarrow> 'a list \<Rightarrow> 'a list \<Rightarrow> 'a list" where
  "replace_ref old new s =
     (if old = [] then s
      else case find_sub s old of
        None \<Rightarrow> s
      | Some i \<Rightarrow> take i s @ new @ replace_ref old new (drop (i + length old) s))"
  by pat_completeness auto
termination
proof (relation "measure (\<lambda>(old, new, s). length s)")
  fix old new s :: "'a list" and i
  assume "old \<noteq> []" "find_sub s old = Some i"
  with find_sub_Some_bound [of s old i]
  show "((old, new, drop (i + length old) s), old, new, s) \<in> measure (\<lambda>(old, new, s). length s)"
    by (cases old) auto
qed simp

declare replace_ref.simps [simp del]

lemma prefix_past_separator:
  assumes disj: "set new \<inter> set old = {}" and ne: "new \<noteq> []" "old \<noteq> []"
    and noA: "\<not> sublist old A" and j: "j < length A + length new"
  shows "\<not> prefix old (drop j (A @ new @ B))"
proof
  assume pre: "prefix old (drop j (A @ new @ B))"
  have nth: "old ! k = (A @ new @ B) ! (j + k)" if "k < length old" for k
    using prefix_nth [OF pre that] prefix_length_le [OF pre] that j by (simp del: drop_append)
  consider "j + length old \<le> length A" | "j \<le> length A" "length A < j + length old" | "length A < j"
    by linarith
  then show False
  proof cases
    case 1
    then have "prefix old (drop j A)" using prefix_drop_within [OF pre] by simp
    with noA show False by (blast dest: prefix_drop_sublist)
  next
    case 2
    then have "old ! (length A - j) = new ! 0"
      using nth [of "length A - j"] ne by (simp add: nth_append)
    moreover have "old ! (length A - j) \<in> set old" using 2 by simp
    moreover have "new ! 0 \<in> set new" using ne by simp
    ultimately show False using disj by auto
  next
    case 3
    have lt: "j - length A < length new" using 3 j by linarith
    with 3 have "old ! 0 = new ! (j - length A)"
      using nth [of 0] ne by (simp add: nth_append)
    moreover have "new ! (j - length A) \<in> set new" using lt by simp
    moreover have "old ! 0 \<in> set old" using ne by simp
    ultimately show False using disj by auto
  qed
qed

lemma find_sub_past_separator:
  assumes disj: "set new \<inter> set old = {}" and ne: "new \<noteq> []" "old \<noteq> []"
    and noA: "\<not> sublist old A"
  shows "find_sub (A @ new @ B) old = map_option (\<lambda>k. length A + length new + k) (find_sub B old)"
proof -
  note past = prefix_past_separator [OF disj ne noA]
  have beyond: "prefix old (drop (length A + length new + k) (A @ new @ B)) = prefix old (drop k B)" for k
    by simp
  show ?thesis
  proof (cases "find_sub B old")
    case None
    have "find_sub (A @ new @ B) old = None"
    proof (cases "find_sub (A @ new @ B) old")
      case (Some i)
      note i = find_sub_SomeD [OF Some]
      with past have "length A + length new \<le> i" by (meson linorder_not_le)
      then obtain k where k: "i = length A + length new + k" by (metis le_Suc_ex)
      with i have "prefix old (drop k B)" by (metis beyond)
      moreover have "k \<le> length B" using i k by simp
      ultimately show ?thesis using find_sub_NoneD [OF None] by blast
    qed
    with None show ?thesis by simp
  next
    case (Some k)
    note k = find_sub_SomeD [OF Some]
    have "find_sub (A @ new @ B) old = Some (length A + length new + k)"
    proof (rule find_sub_eqI)
      fix j assume j: "j < length A + length new + k"
      show "\<not> prefix old (drop j (A @ new @ B))"
      proof (cases "j < length A + length new")
        case False
        then obtain j' where "j = length A + length new + j'" by (metis le_Suc_ex not_less)
        with j k show ?thesis by (metis beyond add_less_cancel_left)
      qed (rule past)
    qed (use k in \<open>simp_all add: beyond\<close>)
    with Some show ?thesis by simp
  qed
qed

lemma replace_all_loop_ref:
  assumes "set new \<inter> set old = {}" "new \<noteq> []" "old \<noteq> []" "\<not> sublist old A"
  shows "replace_all_loop old new (A @ new @ s) = Some (Inr (A @ new @ replace_ref old new s))"
  using assms
proof (induction old new s arbitrary: A rule: replace_ref.induct)
  case (1 old new s)
  note find = find_sub_past_separator [OF "1.prems"]
  show ?case
  proof (cases "find_sub s old")
    case None
    with find "1.prems" show ?thesis
      by (subst replace_all_loop_unfold) (simp add: replace_ref.simps [of old new s])
  next
    case (Some k)
    let ?A = "A @ new @ take k s" and ?r = "drop (k + length old) s"
    have "\<not> sublist old (take k s)" using Some "1.prems" by (blast dest: find_sub_first)
    then have noA: "\<not> sublist old ?A"
      using find_sub_past_separator [OF "1.prems", of "take k s"]
      by (simp add: find_sub_None_iff [symmetric])
    have "replace_all_loop old new (A @ new @ s) = replace_all_loop old new (?A @ new @ ?r)"
      using find Some by (subst replace_all_loop_unfold) (simp add: add.assoc)
    also have "\<dots> = Some (Inr (?A @ new @ replace_ref old new ?r))"
      using "1.IH" [OF _ Some _ _ _ noA] "1.prems" by simp
    also have "\<dots> = Some (Inr (A @ new @ replace_ref old new s))"
      using Some "1.prems" by (simp add: replace_ref.simps [of old new s])
    finally show ?thesis .
  qed
qed

section \<open>to_lower, to_upper\<close>

text \<open>\<open>std::tolower\<close> and \<open>std::toupper\<close> in the C locale, on the bytes of the text.\<close>

definition c_tolower :: "char \<Rightarrow> char" where
  "c_tolower c = (let n = char_nat c in if 65 \<le> n \<and> n \<le> 90 then char_of (n + 32) else c)"

definition c_toupper :: "char \<Rightarrow> char" where
  "c_toupper c = (let n = char_nat c in if 97 \<le> n \<and> n \<le> 122 then char_of (n - 32) else c)"

definition to_lower :: "string \<Rightarrow> string" where
  "to_lower str = map c_tolower str"

definition to_upper :: "string \<Rightarrow> string" where
  "to_upper str = map c_toupper str"

lemma c_tolower_toupper: "c_tolower (c_toupper c) = c_tolower c"
  by (auto simp: c_tolower_def c_toupper_def char_nat_def Let_def of_char_of
      take_bit_eq_mod)

lemma c_toupper_tolower: "c_toupper (c_tolower c) = c_toupper c"
  by (auto simp: c_tolower_def c_toupper_def char_nat_def Let_def of_char_of
      take_bit_eq_mod)

section \<open>Properties\<close>

text \<open>\<open>mid_string\<close> never throws. When the two markers occur in order, its result is a text
  that stands between them, with no start marker before it and no stop marker inside it (it is
  the first such text); when they do not, its result is empty.\<close>

theorem mid_string_between:
  assumes "length src < 2 ^ 31" "start \<noteq> []" "stop \<noteq> []"
  shows "(\<exists>a m b. src = a @ start @ m @ stop @ b \<and> \<not> sublist start a \<and> \<not> sublist stop m \<and>
            mid_string src start stop = Inr m)
       \<or> (\<nexists>a m b. src = a @ start @ m @ stop @ b) \<and> mid_string src start stop = Inr []"
proof (cases "find_sub src start")
  case None
  then have "\<not> sublist start src" by (simp add: find_sub_None_iff)
  then have "\<nexists>a m b. src = a @ start @ m @ stop @ b" by (metis sublist_def)
  with None assms show ?thesis by (simp add: mid_string_eval)
next
  case (Some i)
  define rest where "rest = drop (i + length start) src"
  have src: "src = take i src @ start @ rest"
    using find_sub_decomp [OF Some] by (simp add: rest_def)
  have pre: "\<not> sublist start (take i src)" using find_sub_first [OF Some assms(2)] .
  show ?thesis
  proof (cases "find_sub rest stop")
    case None
    have "\<nexists>a m b. src = a @ start @ m @ stop @ b"
    proof
      assume "\<exists>a m b. src = a @ start @ m @ stop @ b"
      then obtain a m b where d: "src = a @ start @ m @ stop @ b" by blast
      then have "prefix start (drop (length a) src)" by simp
      then have "i \<le> length a" using find_sub_SomeD [OF Some] by (meson linorder_not_le)
      then have "sublist (stop @ b) rest"
        by (auto simp: rest_def d sublist_append)
      then have "sublist stop rest"
        by (meson sublist_append_rightI sublist_order.order_trans)
      with None show False by (simp add: find_sub_None_iff)
    qed
    with Some None assms show ?thesis by (simp add: mid_string_eval rest_def)
  next
    case (Some j)
    have "rest = take j rest @ stop @ drop (j + length stop) rest" using find_sub_decomp [OF Some] .
    with src have d: "src = take i src @ start @ take j rest @ stop @ drop (j + length stop) rest"
      by metis
    have "\<not> sublist stop (take j rest)" using find_sub_first [OF Some assms(3)] .
    moreover have "mid_string src start stop = Inr (take j rest)"
      using \<open>find_sub src start = Some i\<close> Some assms by (simp add: mid_string_eval rest_def)
    ultimately show ?thesis using d pre by blast
  qed
qed

theorem mid_string_between_witness:
  "mid_string ''uid=[10012] gid'' ''['' '']'' = Inr ''10012'' \<and>
   (\<exists>a m b. ''uid=[10012] gid'' = a @ ''['' @ m @ '']'' @ b \<and> \<not> sublist ''['' a \<and> \<not> sublist '']'' m)"
proof -
  have ev: "mid_string ''uid=[10012] gid'' ''['' '']'' = Inr ''10012''"
    by (simp add: mid_string_eval)
  have small: "length ''uid=[10012] gid'' < 2 ^ 31" by simp
  from mid_string_between [OF small, of "''[''" "'']''"] ev show ?thesis
    by (metis list.distinct(1) sum.inject(2))
qed

text \<open>\<open>string_split\<close> with a non-empty separator returns, without an exception; joining its
  parts with the separator gives the text back, but for one separator at the very end, which is
  dropped; and no part contains the separator.\<close>

theorem string_split_join:
  assumes "pattern \<noteq> []" "length str < 2 ^ 31"
  shows "\<exists>parts trail. string_split str pattern = Some (Inr parts) \<and>
           str = join pattern parts @ trail \<and> (trail = [] \<or> trail = pattern) \<and>
           (\<forall>x \<in> set parts. \<not> sublist pattern x) \<and> (parts = [] \<longleftrightarrow> str = [])"
proof -
  from split_ref_join [OF assms(1)] obtain trail
    where t: "str = join pattern (split_ref pattern str) @ trail" "trail = [] \<or> trail = pattern"
    by blast
  show ?thesis
    using string_split_ref [OF assms] t split_ref_no_sep split_ref_Nil_iff [OF assms(1)] by metis
qed

theorem string_split_join_witness:
  "string_split ''a,,b,'' '','' = Some (Inr [''a'', '''', ''b'']) \<and>
   (\<exists>trail. ''a,,b,'' = join '','' [''a'', '''', ''b''] @ trail)"
proof -
  have ev: "string_split ''a,,b,'' '','' = Some (Inr [''a'', '''', ''b''])"
    by (simp add: string_split_ref split_ref.simps)
  have h: "'','' \<noteq> ([] :: string)" "length ''a,,b,'' < 2 ^ 31" by simp_all
  from string_split_join [OF h] ev show ?thesis by auto
qed

text \<open>\<open>string_split\<close> with an empty separator never returns on a non-empty text: every round
  finds the separator where it stands and steps back by one.\<close>

theorem string_split_empty_pattern_diverges:
  assumes "str \<noteq> []" "length str < 2 ^ 31"
  shows "string_split str [] = None"
  using assms int_range_nat [of "length str"]
  by (simp add: string_split_def string_split_loop_empty)

theorem string_split_empty_pattern_diverges_witness: "string_split ''ab'' [] = None"
  by (rule string_split_empty_pattern_diverges) simp_all

text \<open>C37: where the inserted text is not empty and shares no character with the text it replaces,
  \<open>replace_all\<close> returns exactly the usual left-to-right replacement of all occurrences.\<close>

theorem replace_all_is_replacement:
  assumes "old_value \<noteq> []" "new_value \<noteq> []" "set new_value \<inter> set old_value = {}"
  shows "replace_all str old_value new_value = Some (Inr (replace_ref old_value new_value str))"
proof (cases "find_sub str old_value")
  case None
  with assms show ?thesis
    by (simp add: replace_all_def replace_all_loop_unfold replace_ref.simps)
next
  case (Some i)
  then have "\<not> sublist old_value (take i str)" using assms(1) by (rule find_sub_first)
  from replace_all_loop_ref [OF assms(3,2,1) this] Some assms show ?thesis
    by (simp add: replace_all_def replace_all_loop_unfold [of old_value new_value str]
        replace_ref.simps [of old_value new_value str])
qed

theorem replace_all_is_replacement_witness:
  "replace_all ''a/b//c'' ''/'' ''--'' = Some (Inr ''a--b----c'')"
  using replace_all_is_replacement [of "''/''" "''--''" "''a/b//c''"]
  by (simp add: replace_ref.simps)

text \<open>Whenever \<open>replace_all\<close> returns, no occurrence is left; and it returns whenever the new
  text is shorter than the old one.\<close>

theorem replace_all_shorter:
  assumes "length new_value < length old_value"
  shows "\<exists>t. replace_all str old_value new_value = Some (Inr t) \<and> \<not> sublist old_value t"
  using replace_all_loop_shrinks [OF assms, of str] replace_all_loop_result
  unfolding replace_all_def by blast

theorem replace_all_shorter_witness:
  "\<exists>t. replace_all ''aaabbb'' ''ab'' [] = Some (Inr t) \<and> \<not> sublist ''ab'' t"
  by (rule replace_all_shorter) simp

text \<open>Where the new text contains the old one (the empty one included), \<open>replace_all\<close> never
  returns on a text with an occurrence.\<close>

theorem replace_all_diverges:
  assumes "sublist old_value new_value" "sublist old_value str"
  shows "replace_all str old_value new_value = None"
  using replace_all_loop_grows [OF assms] by (simp add: replace_all_def)

theorem replace_all_diverges_witness: "replace_all ''it is'' ''is'' ''this'' = None"
  by (rule replace_all_diverges; code_simp)

end
