(* ===== verification/HexUtils.thy ===== *)
theory HexUtils
  imports CxxString
begin

text \<open>
  The hex conversions of \<open>third/utils/utils.cpp\<close>: \<open>hex2str\<close> (bytes to upper-case hex digits and
  a terminating NUL), \<open>hex2int\<close>, \<open>str2hex\<close> (hex digits to bytes). Both work on buffers the
  caller owns; a buffer is a list of its cells, and an access outside it is \<open>UB_Bounds\<close>. The
  flag \<open>sc\<close> says whether plain \<open>char\<close> is signed.
\<close>

section \<open>hex2str\<close>

definition cHex :: string where
  "cHex = ''0123456789ABCDEF''"

definition char_uint :: "bool \<Rightarrow> char \<Rightarrow> 32 word" where
  "char_uint sc c = word_of_int (char_int sc c)"

text \<open>\<open>(a & 0xf0) >> 4\<close> and \<open>a & 0x0f\<close>, as indices.\<close>

definition high_nibble :: "32 word \<Rightarrow> nat" where
  "high_nibble a = unat (drop_bit 4 (a AND 0xf0))"

definition low_nibble :: "32 word \<Rightarrow> nat" where
  "low_nibble a = unat (a AND 0x0f)"

fun hex2str_loop :: "bool \<Rightarrow> string \<Rightarrow> nat \<Rightarrow> int \<Rightarrow> int \<Rightarrow> string \<Rightarrow> (string \<times> int) res" where
  "hex2str_loop sc hex 0 j i str = Inr (str, i)"
| "hex2str_loop sc hex (Suc n) j i str =
     res_bind (arr_read hex j) (\<lambda>c.
       let a = char_uint sc c in
       res_bind (arr_write str i (cHex ! high_nibble a)) (\<lambda>str1.
       res_bind (arr_write str1 (i + 1) (cHex ! low_nibble a)) (\<lambda>str2.
         hex2str_loop sc hex n (j + 1) (i + 2) str2)))"

text \<open>The result is the buffer and whether the returned pointer is not null.\<close>

definition hex2str :: "bool \<Rightarrow> string \<Rightarrow> int \<Rightarrow> string \<Rightarrow> int \<Rightarrow> (string \<times> bool) res" where
  "hex2str sc hex hex_len str buf_len =
     res_bind (checked_int (hex_len * 2)) (\<lambda>twice.
       let hex_len = (if twice \<ge> buf_len then cxx_half buf_len - 1 else hex_len) in
       if hex_len \<le> 0 then res_bind (arr_write str 0 CHR 0x00) (\<lambda>str. Inr (str, False))
       else res_bind (hex2str_loop sc hex (nat hex_len) 0 0 str) (\<lambda>(str, i).
              res_bind (arr_write str i CHR 0x00) (\<lambda>str. Inr (str, True))))"

section \<open>str2hex\<close>

definition hex2int :: "bool \<Rightarrow> char \<Rightarrow> int" where
  "hex2int sc ch =
     (let c = char_int sc ch in
      if c \<ge> 48 \<and> c \<le> 57 then c - 48
      else if c \<ge> 65 \<and> c \<le> 70 then c - 65 + 10
      else if c \<ge> 97 \<and> c \<le> 102 then c - 97 + 10
      else - 1)"

text \<open>\<open>(high << 4) | low\<close> on \<open>int\<close>, stored into a \<open>char\<close>.\<close>

definition nibbles_char :: "int \<Rightarrow> int \<Rightarrow> char" where
  "nibbles_char high low =
     (let w = push_bit 4 (word_of_int high :: 32 word) OR word_of_int low
      in char_of (unat w mod 256))"

function str2hex_loop :: "bool \<Rightarrow> string \<Rightarrow> int \<Rightarrow> int \<Rightarrow> string \<Rightarrow> string res" where
  "str2hex_loop sc str str_len i hex =
     (if i < str_len then
        res_bind (arr_read str i) (\<lambda>c1.
        res_bind (arr_read str (i + 1)) (\<lambda>c2.
        res_bind (arr_write hex (cxx_half i) (nibbles_char (hex2int sc c1) (hex2int sc c2))) (\<lambda>hex.
          str2hex_loop sc str str_len (i + 2) hex)))
      else Inr hex)"
  by pat_completeness auto
termination
  by (relation "measure (\<lambda>(sc, str, str_len, i, hex). nat (str_len - i))") auto

declare str2hex_loop.simps [simp del]

definition str2hex :: "bool \<Rightarrow> string \<Rightarrow> int \<Rightarrow> string \<Rightarrow> int \<Rightarrow> string res" where
  "str2hex sc str str_len hex buf_len =
     res_bind (if cxx_half str_len > buf_len then checked_int (buf_len * 2) else Inr str_len)
       (\<lambda>str_len. str2hex_loop sc str str_len 0 hex)"

section \<open>The codec\<close>

definition hex_digit :: "nat \<Rightarrow> char" where
  "hex_digit n = cHex ! n"

definition hex_enc :: "string \<Rightarrow> string" where
  "hex_enc bs = concat (map (\<lambda>c. [hex_digit (char_nat c div 16), hex_digit (char_nat c mod 16)]) bs)"

lemma hex_enc_simps [simp]:
  "hex_enc [] = []"
  "hex_enc (c # cs) = hex_digit (char_nat c div 16) # hex_digit (char_nat c mod 16) # hex_enc cs"
  by (simp_all add: hex_enc_def)

lemma length_hex_enc [simp]: "length (hex_enc bs) = 2 * length bs"
  by (induction bs) simp_all

lemma char_int_mod: "char_int sc c mod 256 = int (char_nat c)"
proof -
  have "(of_char c :: nat) < 256" by simp
  moreover have "(int n - 256) mod 256 = int n mod 256" for n by (simp add: mod_diff_right_eq)
  ultimately show ?thesis by (simp add: char_int_def char_nat_def Let_def)
qed

lemma unat_char_uint_mod: "unat (char_uint sc c) mod 256 = char_nat c"
proof -
  have "int (unat (char_uint sc c) mod 256) = int (char_nat c)"
    by (simp add: char_uint_def zmod_int unsigned_of_int take_bit_eq_mod mod_mod_cancel char_int_mod)
  then show ?thesis by (simp only: of_nat_eq_iff)
qed

lemma div16_mod16: "n div 16 mod 16 = n mod 256 div 16" for n :: nat
  using mod_mult2_eq [of n 16 16] by simp

lemma high_nibble_char: "high_nibble (char_uint sc c) = char_nat c div 16"
proof -
  have "drop_bit 4 (w AND 0xf0) = take_bit 4 (drop_bit 4 w)" for w :: "32 word"
    by (simp add: drop_bit_and take_bit_eq_mask mask_eq_exp_minus_1)
  then have "high_nibble (char_uint sc c) = unat (char_uint sc c) div 16 mod 16"
    by (simp only: high_nibble_def unat_take_bit_word unat_drop_bit_word) simp
  also have "\<dots> = (unat (char_uint sc c) mod 256) div 16"
    using div16_mod16 .
  finally show ?thesis by (simp only: unat_char_uint_mod)
qed

lemma low_nibble_char: "low_nibble (char_uint sc c) = char_nat c mod 16"
proof -
  have "w AND 0x0f = take_bit 4 w" for w :: "32 word"
    by (simp add: take_bit_eq_mask mask_eq_exp_minus_1)
  then have "low_nibble (char_uint sc c) = unat (char_uint sc c) mod 16"
    by (simp only: low_nibble_def unat_take_bit_word) simp
  also have "\<dots> = (unat (char_uint sc c) mod 256) mod 16"
    by (simp add: mod_mod_cancel)
  finally show ?thesis by (simp only: unat_char_uint_mod)
qed

lemmas hex_digits_of_char = high_nibble_char low_nibble_char hex_digit_def

lemma arr_read_at: "i = int k \<Longrightarrow> k < length xs \<Longrightarrow> arr_read xs i = Inr (xs ! k)"
  by (simp add: arr_read_ok)

lemma arr_write_at: "i = int (length a) \<Longrightarrow> arr_write (a @ y # b) i v = Inr (a @ v # b)"
  by (simp add: arr_write_def)

text \<open>The loop writes the digits of the bytes from \<open>j\<close> on behind what is written already.\<close>

lemma hex2str_loop_spec:
  assumes "j + n \<le> length hex" "2 * n \<le> length rest"
  shows "hex2str_loop sc hex n (int j) (int (length pre)) (pre @ rest) =
     Inr (pre @ hex_enc (take n (drop j hex)) @ drop (2 * n) rest, int (length pre + 2 * n))"
  using assms
proof (induction n arbitrary: j pre rest)
  case 0
  then show ?case by simp
next
  case (Suc n)
  from Suc.prems(2) obtain x y rest' where rest: "rest = x # y # rest'"
    by (cases rest; cases "tl rest") auto
  define d1 d2 where "d1 = hex_digit (char_nat (hex ! j) div 16)"
    and "d2 = hex_digit (char_nat (hex ! j) mod 16)"
  have w1: "arr_write (pre @ x # y # rest') (int (length pre)) d1 = Inr (pre @ d1 # y # rest')"
    by (simp add: arr_write_at)
  have w2: "arr_write (pre @ d1 # y # rest') (int (length pre) + 1) d2 = Inr (pre @ d1 # d2 # rest')"
    using arr_write_at [of "int (length pre) + 1" "pre @ [d1]" y rest' d2] by simp
  have "hex2str_loop sc hex (Suc n) (int j) (int (length pre)) (pre @ rest) =
      hex2str_loop sc hex n (int (Suc j)) (int (length (pre @ [d1, d2]))) ((pre @ [d1, d2]) @ rest')"
    using Suc.prems w1 w2
    by (simp add: rest arr_read_at Let_def add.commute add.left_commute
        hex_digits_of_char d1_def d2_def)
  also have "\<dots> = Inr ((pre @ [d1, d2]) @ hex_enc (take n (drop (Suc j) hex)) @ drop (2 * n) rest',
      int (length (pre @ [d1, d2]) + 2 * n))"
    using Suc.prems rest by (intro Suc.IH) auto
  also have "take (Suc n) (drop j hex) = hex ! j # take n (drop (Suc j) hex)"
    using Suc.prems(1) by (simp add: Cons_nth_drop_Suc [symmetric])
  then have "Inr ((pre @ [d1, d2]) @ hex_enc (take n (drop (Suc j) hex)) @ drop (2 * n) rest',
      int (length (pre @ [d1, d2]) + 2 * n)) =
      (Inr (pre @ hex_enc (take (Suc n) (drop j hex)) @ drop (2 * Suc n) rest,
      int (length pre + 2 * Suc n)) :: (string \<times> int) res)"
    by (simp add: rest d1_def d2_def)
  finally show ?case .
qed

lemma hex2str_spec:
  assumes "0 \<le> hex_len" "int_range (hex_len * 2)" "hex_len \<le> int (length hex)"
    and "0 < buf_len" "buf_len \<le> int (length str)"
  shows "hex2str sc hex hex_len str buf_len =
    (let m = nat (if hex_len * 2 < buf_len then hex_len else buf_len div 2 - 1)
     in Inr (hex_enc (take m hex) @ CHR 0x00 # drop (2 * m + 1) str, 0 < m))"
proof -
  define m where "m = nat (if hex_len * 2 < buf_len then hex_len else buf_len div 2 - 1)"
  have mle: "m \<le> length hex" "2 * m < length str" using assms by (auto simp: m_def)
  show ?thesis
  proof (cases "0 < m")
    case False
    with assms obtain x str' where "str = x # str'" by (cases str) auto
    with False assms show ?thesis
      unfolding m_def [symmetric]
      by (auto simp: hex2str_def Let_def arr_write_def m_def split: if_splits)
  next
    case True
    have "hex2str_loop sc hex m 0 0 str = Inr (hex_enc (take m hex) @ drop (2 * m) str, int (2 * m))"
      using hex2str_loop_spec [of 0 m hex str sc "[]"] mle by simp
    moreover have "drop (2 * m) str = str ! (2 * m) # drop (2 * m + 1) str"
      using mle by (simp add: Cons_nth_drop_Suc)
    moreover have "length (hex_enc (take m hex)) = 2 * m" using mle by simp
    ultimately have "res_bind (hex2str_loop sc hex m 0 0 str)
        (\<lambda>(str, i). res_bind (arr_write str i CHR 0x00) (\<lambda>str. Inr (str, True))) =
        (Inr (hex_enc (take m hex) @ CHR 0x00 # drop (2 * m + 1) str, True) :: (string \<times> bool) res)"
      using arr_write_at [of "int (2 * m)" "hex_enc (take m hex)"] by simp
    with True assms show ?thesis
      unfolding m_def [symmetric]
      by (auto simp: hex2str_def Let_def m_def split: if_splits)
  qed
qed

lemma hex2int_digit: "d < 16 \<Longrightarrow> hex2int sc (hex_digit d) = int d"
proof -
  assume "d < 16"
  then have "d = 0 \<or> d = 1 \<or> d = 2 \<or> d = 3 \<or> d = 4 \<or> d = 5 \<or> d = 6 \<or> d = 7 \<or> d = 8 \<or>
    d = 9 \<or> d = 10 \<or> d = 11 \<or> d = 12 \<or> d = 13 \<or> d = 14 \<or> d = 15" by presburger
  then show ?thesis
    by (elim disjE) (simp_all add: hex_digit_def cHex_def hex2int_def char_int_def)
qed

lemma nibbles_char_digits:
  assumes "h < 16" "l < 16"
  shows "nibbles_char (int h) (int l) = char_of (16 * h + l)"
proof -
  let ?h = "word_of_int (int h) :: 32 word" and ?l = "word_of_int (int l) :: 32 word"
  have ul: "unat ?l = l" "unat ?h = h"
    using assms by (simp_all add: unsigned_of_nat take_bit_nat_eq_self_iff)
  have l: "?l = take_bit 4 ?l"
    using assms by (simp only: word_unat_eq_iff unat_take_bit_word ul) simp
  have "push_bit 4 ?h OR ?l = push_bit 4 ?h + ?l"
    by (subst l, subst (2) l, rule disjunctive_add [symmetric]) (auto simp: bit_simps)
  also have "unat (push_bit 4 ?h + ?l) = 16 * h + l"
  proof -
    have "push_bit 4 ?h = word_of_nat (16 * h)" by (simp add: push_bit_eq_mult)
    then have "push_bit 4 ?h + ?l = word_of_nat (16 * h + l)" by simp
    moreover have "16 * h + l < 2 ^ 32" using assms by simp
    ultimately show ?thesis
      by (simp only: unsigned_of_nat take_bit_nat_eq_self_iff) (simp add: take_bit_nat_eq_self_iff)
  qed
  finally show ?thesis using assms by (simp add: nibbles_char_def Let_def)
qed

fun hex_dec :: "bool \<Rightarrow> string \<Rightarrow> string" where
  "hex_dec sc (a # b # cs) = nibbles_char (hex2int sc a) (hex2int sc b) # hex_dec sc cs"
| "hex_dec sc cs = []"

lemma hex_dec_enc: "hex_dec sc (hex_enc bs) = bs"
proof (induction bs)
  case (Cons c cs)
  have "char_nat c div 16 < 16" 
    using char_nat_less [of c] by (intro less_mult_imp_div_less) simp
  with Cons show ?case
    by (simp add: hex2int_digit nibbles_char_digits) (simp add: char_nat_def)
qed simp

lemma str2hex_loop_spec:
  assumes "2 * (k + n) \<le> length str" "length pre = k" "n \<le> length rest"
  shows "str2hex_loop sc str (int (2 * (k + n))) (int (2 * k)) (pre @ rest) =
     Inr (pre @ hex_dec sc (take (2 * n) (drop (2 * k) str)) @ drop n rest)"
  using assms
proof (induction n arbitrary: k pre rest)
  case 0
  then show ?case by (simp add: str2hex_loop.simps)
next
  case (Suc n)
  from Suc.prems(3) obtain x rest' where rest: "rest = x # rest'" by (cases rest) auto
  let ?a = "str ! (2 * k)" and ?b = "str ! Suc (2 * k)"
  let ?v = "nibbles_char (hex2int sc ?a) (hex2int sc ?b)"
  have ra: "arr_read str (int (2 * k)) = Inr ?a" using Suc.prems by (intro arr_read_at) auto
  have rb: "arr_read str (int (2 * k) + 1) = Inr ?b" using Suc.prems by (intro arr_read_at) auto
  have w: "arr_write (pre @ x # rest') (cxx_half (int (2 * k))) v = Inr (pre @ v # rest')" for v
    using Suc.prems(2) by (intro arr_write_at) simp
  have ix: "int (2 * k) + 2 = int (2 * Suc k)" "k + Suc n = Suc k + n" by simp_all
  have lt: "int (2 * k) < int (2 * (Suc k + n))" by simp
  have "str2hex_loop sc str (int (2 * (k + Suc n))) (int (2 * k)) (pre @ rest) =
      str2hex_loop sc str (int (2 * (Suc k + n))) (int (2 * Suc k)) ((pre @ [?v]) @ rest')"
    unfolding rest
    by (subst str2hex_loop.simps) (simp only: lt ra rb w res_bind_simps if_True ix append.assoc append.simps)
  also have "\<dots> = Inr ((pre @ [?v]) @ hex_dec sc (take (2 * n) (drop (2 * Suc k) str)) @ drop n rest')"
    using Suc.prems rest by (intro Suc.IH) auto
  also have "take (2 * Suc n) (drop (2 * k) str) = ?a # ?b # take (2 * n) (drop (2 * Suc k) str)"
    using Suc.prems(1) by (simp add: Cons_nth_drop_Suc [symmetric])
  then have "(pre @ [?v]) @ hex_dec sc (take (2 * n) (drop (2 * Suc k) str)) @ drop n rest' =
      pre @ hex_dec sc (take (2 * Suc n) (drop (2 * k) str)) @ drop (Suc n) rest"
    by (simp add: rest)
  finally show ?case .
qed

lemma str2hex_even:
  assumes "2 * n \<le> length str" "n \<le> length hex" "n \<le> buf_len"
  shows "str2hex sc str (int (2 * n)) hex (int buf_len) =
     Inr (hex_dec sc (take (2 * n) str) @ drop n hex)"
  using str2hex_loop_spec [of 0 n str "[]" hex sc] assms by (simp add: str2hex_def)

text \<open>Both directions as one codec, at the buffer sizes a caller needs.\<close>

definition bytes_to_hex :: "bool \<Rightarrow> string \<Rightarrow> string" where
  "bytes_to_hex sc bs =
     (case hex2str sc bs (int (length bs)) (replicate (2 * length bs + 1) CHR 0x00)
             (int (2 * length bs + 1)) of
        Inl _ \<Rightarrow> [] | Inr (str, _) \<Rightarrow> butlast str)"

definition hex_to_bytes :: "bool \<Rightarrow> string \<Rightarrow> string res" where
  "hex_to_bytes sc s =
     str2hex sc s (int (length s)) (replicate (length s div 2) CHR 0x00) (int (length s div 2))"

lemma bytes_to_hex_enc: "length bs < 2 ^ 30 \<Longrightarrow> bytes_to_hex sc bs = hex_enc bs"
  using hex2str_spec [of "int (length bs)" bs "int (2 * length bs + 1)"
      "replicate (2 * length bs + 1) CHR 0x00" sc]
  by (simp add: bytes_to_hex_def Let_def int_range_def butlast_append)

interpretation hexc: codec hex_enc "hex_to_bytes sc" for sc
proof unfold_locales
  fix bs
  show "hex_to_bytes sc (hex_enc bs) = Inr bs"
    using str2hex_even [of "length bs" "hex_enc bs" "replicate (length bs) CHR 0x00" "length bs" sc]
    by (simp add: hex_to_bytes_def hex_dec_enc)
qed

section \<open>Properties\<close>

text \<open>What \<open>hex2str\<close> writes for up to \<open>2 ^ 30\<close> bytes into a buffer that holds all digits,
  \<open>str2hex\<close> reads back as the same bytes, whether plain \<open>char\<close> is signed or not.\<close>

theorem hex_roundtrip:
  assumes "length bs < 2 ^ 30"
  shows "hex_to_bytes sc (bytes_to_hex sc' bs) = Inr bs"
  by (simp only: bytes_to_hex_enc [OF assms] hexc.dec_enc)

theorem hex_roundtrip_witness:
  "hex_to_bytes True (bytes_to_hex False ''Hi!'') = Inr ''Hi!''"
  by (rule hex_roundtrip) simp

text \<open>For every byte count up to \<open>2 ^ 30\<close> and every buffer of at least one cell, \<open>hex2str\<close>
  stays inside the buffer and leaves it NUL-terminated behind the upper-case digits of the first
  \<open>m\<close> bytes, all of them when \<open>2 * hex_len < buf_len\<close> and \<open>buf_len / 2 - 1\<close> of them otherwise; it
  returns null exactly when \<open>m\<close> is 0.\<close>

theorem hex2str_in_bounds:
  assumes "0 \<le> hex_len" "hex_len < 2 ^ 30" "hex_len \<le> int (length hex)"
    and "0 < buf_len" "buf_len = int (length str)"
  shows "\<exists>m. hex2str sc hex hex_len str buf_len =
           Inr (hex_enc (take m hex) @ CHR 0x00 # drop (2 * m + 1) str, 0 < m) \<and>
         2 * m < length str \<and>
         m = nat (if hex_len * 2 < buf_len then hex_len else buf_len div 2 - 1)"
proof -
  let ?m = "nat (if hex_len * 2 < buf_len then hex_len else buf_len div 2 - 1)"
  have "int_range (hex_len * 2)" using assms by (simp add: int_range_def)
  with hex2str_spec [of hex_len hex buf_len str sc] assms
  have "hex2str sc hex hex_len str buf_len =
      Inr (hex_enc (take ?m hex) @ CHR 0x00 # drop (2 * ?m + 1) str, 0 < ?m)"
    by (simp add: Let_def)
  moreover have "2 * ?m < nat buf_len"
  proof (cases "hex_len * 2 < buf_len")
    case True
    then have "?m = nat hex_len" by simp
    with True assms(1) show ?thesis by linarith
  next
    case False
    then have "?m = nat (buf_len div 2 - 1)" by simp
    then show ?thesis using assms(4) by linarith
  qed
  ultimately show ?thesis using assms(5) by (metis nat_int)
qed

theorem hex2str_in_bounds_witness:
  "hex2str False ''abc'' 3 ''xxxxxx'' 6 = Inr (''6162'' @ CHR 0x00 # ''x'', True)"
proof -
  have h: "(0::int) \<le> 3" "(3::int) < 2 ^ 30" "3 \<le> int (length ''abc'')" "(0::int) < 6"
    "6 = int (length ''xxxxxx'')" by simp_all
  from hex2str_in_bounds [OF h, of False] obtain m
    where e: "hex2str False ''abc'' 3 ''xxxxxx'' 6 =
      Inr (hex_enc (take m ''abc'') @ CHR 0x00 # drop (2 * m + 1) ''xxxxxx'', 0 < m)" and m: "m = 2"
    by auto
  show ?thesis unfolding e m
    by (simp add: numeral_2_eq_2 hex_digit_def cHex_def char_nat_def)
qed

text \<open>\<open>str2hex\<close> with an odd digit count one above twice its buffer writes behind the buffer:
  the check \<open>str_len / 2 > buf_len\<close> rounds the odd digit away, the loop does not.\<close>

theorem str2hex_odd_overflow:
  assumes "length hex = n" "length str \<ge> 2 * n + 2" "n < 2 ^ 30"
  shows "str2hex sc str (int (2 * n + 1)) hex (int n) = Inl UB_Bounds"
proof -
  have "str2hex_loop sc str (int (2 * n + 1)) (int (2 * k)) hex = Inl UB_Bounds"
    if "length hex = n" "k \<le> n" for k hex
    using that
  proof (induction "n - k" arbitrary: k hex)
    case 0
    then have k: "k = n" by simp
    have r1: "arr_read str (int (2 * n)) = Inr (str ! (2 * n))"
      using assms(2) by (intro arr_read_at) auto
    have r2: "arr_read str (int (2 * n) + 1) = Inr (str ! Suc (2 * n))"
      using assms(2) by (intro arr_read_at) auto
    have w: "arr_write hex (cxx_half (int (2 * n))) v = Inl UB_Bounds" for v
      using 0 by (simp add: arr_write_def)
    have "int (2 * n) < int (2 * n + 1)" by simp
    then show ?case unfolding k
      by (subst str2hex_loop.simps) (simp only: r1 r2 w res_bind_simps if_True)
  next
    case (Suc d)
    then have lt: "k < n" by simp
    have r1: "arr_read str (int (2 * k)) = Inr (str ! (2 * k))"
      using assms(2) lt by (intro arr_read_at) auto
    have r2: "arr_read str (int (2 * k) + 1) = Inr (str ! Suc (2 * k))"
      using assms(2) lt by (intro arr_read_at) auto
    have w: "arr_write hex (cxx_half (int (2 * k))) v = Inr (hex[k := v])" for v
      using lt Suc.prems(1) by (simp add: arr_write_def)
    have ix: "int (2 * k) + 2 = int (2 * Suc k)" by simp
    have "int (2 * k) < int (2 * n + 1)" using lt by simp
    moreover have "str2hex_loop sc str (int (2 * n + 1)) (int (2 * Suc k)) (hex[k := v]) = Inl UB_Bounds" for v
      using Suc lt by (intro Suc.hyps(1)) auto
    ultimately show ?case
      by (subst str2hex_loop.simps) (simp only: r1 r2 w res_bind_simps if_True ix)
  qed
  from this [of hex 0] assms(1) show ?thesis by (simp add: str2hex_def)
qed

theorem str2hex_odd_overflow_witness:
  "str2hex False (''ABC'' @ [CHR 0x00]) 3 ''z'' 1 = Inl UB_Bounds"
  using str2hex_odd_overflow [of "''z''" 1 "''ABC'' @ [CHR 0x00]" False] by simp

end
