(* ===== verification/Base64.thy ===== *)
theory Base64
  imports CxxString
begin

text \<open>
  \<open>third/base64/base64.cpp\<close>: the encoder over both alphabets, the line-break inserting
  variants, and the decoder with its exceptions. A byte is a \<open>char\<close>; the index loops keep the
  code's positions. \<open>unsigned int pos\<close> of the encoder is a natural number here, which is what it
  holds for inputs below \<open>2 ^ 32 - 2\<close> bytes.
\<close>

section \<open>Alphabets\<close>

definition base64_chars :: "bool \<Rightarrow> string" where
  "base64_chars url =
     (if url
      then ''ABCDEFGHIJKLMNOPQRSTUVWXYZabcdefghijklmnopqrstuvwxyz0123456789-_''
      else ''ABCDEFGHIJKLMNOPQRSTUVWXYZabcdefghijklmnopqrstuvwxyz0123456789+/'')"

definition pos_of_char :: "char \<Rightarrow> nat res" where
  "pos_of_char ch =
     (let chr = char_nat ch in
      if chr \<ge> 65 \<and> chr \<le> 90 then Inr (chr - 65)
      else if chr \<ge> 97 \<and> chr \<le> 122 then Inr (chr - 97 + (90 - 65) + 1)
      else if chr \<ge> 48 \<and> chr \<le> 57 then Inr (chr - 48 + (90 - 65) + (122 - 97) + 2)
      else if ch = CHR ''+'' \<or> ch = CHR ''-'' then Inr 62
      else if ch = CHR ''/'' \<or> ch = CHR ''_'' then Inr 63
      else Inl (Runtime_Error ''Input is not valid base64-encoded data.''))"

section \<open>Encoding\<close>

function base64_encode_loop :: "bool \<Rightarrow> string \<Rightarrow> nat \<Rightarrow> string \<Rightarrow> string" where
  "base64_encode_loop url bytes pos ret =
     (let in_len = length bytes;
          chars = base64_chars url;
          trailing = (if url then CHR ''.'' else CHR ''='');
          b = (\<lambda>k. char_nat (bytes ! (pos + k))) in
      if pos < in_len then
        (let ret = ret @ [chars ! drop_bit 2 (b 0 AND 0xfc)] in
         base64_encode_loop url bytes (pos + 3)
           (if pos + 1 < in_len then
              (let ret = ret @ [chars ! (push_bit 4 (b 0 AND 0x03) + drop_bit 4 (b 1 AND 0xf0))] in
               if pos + 2 < in_len then
                 ret @ [chars ! (push_bit 2 (b 1 AND 0x0f) + drop_bit 6 (b 2 AND 0xc0)),
                        chars ! (b 2 AND 0x3f)]
               else ret @ [chars ! push_bit 2 (b 1 AND 0x0f), trailing])
            else ret @ [chars ! push_bit 4 (b 0 AND 0x03), trailing, trailing]))
      else ret)"
  by pat_completeness auto
termination
  by (relation "measure (\<lambda>(url, bytes, pos, ret). length bytes - pos)") auto

declare base64_encode_loop.simps [simp del]

definition base64_encode :: "string \<Rightarrow> bool \<Rightarrow> string" where
  "base64_encode s url = base64_encode_loop url s 0 []"

text \<open>With a distance of 0 the loop would never end; the program uses 64 and 76.\<close>

partial_function (option) insert_linebreaks_loop :: "nat \<Rightarrow> string \<Rightarrow> nat \<Rightarrow> string res option" where
  "insert_linebreaks_loop distance str pos =
     (if pos < length str then
        (case str_insert str pos [CHR 0x0A] of
           Inl e \<Rightarrow> Some (Inl e)
         | Inr str' \<Rightarrow> insert_linebreaks_loop distance str' (pos + (distance + 1)))
      else Some (Inr str))"

definition insert_linebreaks :: "string \<Rightarrow> nat \<Rightarrow> string res option" where
  "insert_linebreaks str distance =
     (if length str = 0 then Some (Inr []) else insert_linebreaks_loop distance str distance)"

definition encode_with_line_breaks :: "nat \<Rightarrow> string \<Rightarrow> string res option" where
  "encode_with_line_breaks line_length s = insert_linebreaks (base64_encode s False) line_length"

definition base64_encode_pem :: "string \<Rightarrow> string res option" where
  "base64_encode_pem s = encode_with_line_breaks 64 s"

definition base64_encode_mime :: "string \<Rightarrow> string res option" where
  "base64_encode_mime s = encode_with_line_breaks 76 s"

section \<open>Decoding\<close>

text \<open>A value pushed back as a \<open>char\<close> keeps its low eight bits.\<close>

definition low_char :: "nat \<Rightarrow> char" where
  "low_char n = char_of (n mod 256)"

definition is_pad :: "char \<Rightarrow> bool" where
  "is_pad c \<longleftrightarrow> c = CHR ''='' \<or> c = CHR ''.''"

function base64_decode_loop :: "string \<Rightarrow> nat \<Rightarrow> string \<Rightarrow> string res" where
  "base64_decode_loop s pos ret =
     (if pos < length s then
        res_bind (res_bind (str_at s (pos + 1)) pos_of_char) (\<lambda>p1.
        res_bind (res_bind (str_at s (pos + 0)) pos_of_char) (\<lambda>p0.
          let ret = ret @ [low_char (push_bit 2 p0 + drop_bit 4 (p1 AND 0x30))] in
          res_bind
            (if pos + 2 < length s \<and> \<not> is_pad (s ! (pos + 2)) then
               res_bind (res_bind (str_at s (pos + 2)) pos_of_char) (\<lambda>p2.
                 let ret = ret @ [low_char (push_bit 4 (p1 AND 0x0f) + drop_bit 2 (p2 AND 0x3c))] in
                 if pos + 3 < length s \<and> \<not> is_pad (s ! (pos + 3)) then
                   res_bind (res_bind (str_at s (pos + 3)) pos_of_char) (\<lambda>p3.
                     Inr (ret @ [low_char (push_bit 6 (p2 AND 0x03) + p3)]))
                 else Inr ret)
             else Inr ret)
            (\<lambda>ret. base64_decode_loop s (pos + 4) ret)))
      else Inr ret)"
  by pat_completeness auto
termination
  by (relation "measure (\<lambda>(s, pos, ret). length s - pos)") auto

declare base64_decode_loop.simps [simp del]

definition base64_decode :: "string \<Rightarrow> bool \<Rightarrow> string res" where
  "base64_decode s remove_linebreaks =
     (if s = [] then Inr []
      else if remove_linebreaks then
        (let copy = filter (\<lambda>c. c \<noteq> CHR 0x0A) s in
         if copy = [] then Inr [] else base64_decode_loop copy 0 [])
      else base64_decode_loop s 0 [])"

section \<open>Bits as arithmetic\<close>

lemma nat_mask_and:
  fixes n :: nat
  shows "n AND 3 = n mod 4" "n AND 15 = n mod 16" "n AND 63 = n mod 64"
  using take_bit_eq_mask [of 2 n] take_bit_eq_mask [of 4 n] take_bit_eq_mask [of 6 n]
  by (simp_all add: take_bit_eq_mod mask_eq_exp_minus_1)

lemma nat_field:
  fixes n :: nat
  shows "drop_bit 2 (n AND 252) = n div 4 mod 64" "drop_bit 4 (n AND 240) = n div 16 mod 16"
    "drop_bit 6 (n AND 192) = n div 64 mod 4" "drop_bit 4 (n AND 48) = n div 16 mod 4"
    "drop_bit 2 (n AND 60) = n div 4 mod 16"
  unfolding drop_bit_and by (simp_all add: drop_bit_eq_div nat_mask_and)

lemma nat_field_div:
  fixes n :: nat
  shows "(n AND 252) div 4 = n div 4 mod 64" "(n AND 240) div 16 = n div 16 mod 16"
    "(n AND 192) div 64 = n div 64 mod 4" "(n AND 48) div 16 = n div 16 mod 4"
    "(n AND 60) div 4 = n div 4 mod 16"
  using nat_field [of n] by (simp_all add: drop_bit_eq_div)

lemma nat_push: "push_bit k (n :: nat) = n * 2 ^ k"
  by (simp add: push_bit_eq_mult)

lemma nat_drop: "drop_bit k (n :: nat) = n div 2 ^ k"
  by (simp add: drop_bit_eq_div)

lemmas nat_bits = nat_mask_and nat_field nat_field_div nat_push nat_drop

lemma length_base64_chars [simp]: "length (base64_chars url) = 64"
  by (simp add: base64_chars_def)

lemma pos_of_base64_char: "k < 64 \<Longrightarrow> pos_of_char (base64_chars url ! k) = Inr k"
proof -
  assume k: "k < 64"
  have "map pos_of_char (base64_chars url) = map Inr [0..<64]"
    by (cases url) (simp_all add: base64_chars_def pos_of_char_def char_nat_def upt_conv_Cons)
  then have "map pos_of_char (base64_chars url) ! k = map Inr [0..<64] ! k" by simp
  with k show ?thesis by simp
qed

lemma base64_char_not_special: "k < 64 \<Longrightarrow>
    \<not> is_pad (base64_chars url ! k) \<and> base64_chars url ! k \<noteq> CHR 0x0A"
proof -
  assume k: "k < 64"
  have "list_all (\<lambda>c. \<not> is_pad c \<and> c \<noteq> CHR 0x0A) (base64_chars url)"
    by (simp add: base64_chars_def is_pad_def)
  with k show ?thesis by (simp add: list_all_length)
qed

section \<open>What the encoder produces\<close>

definition b64 :: "bool \<Rightarrow> nat \<Rightarrow> char" where
  "b64 url k = base64_chars url ! k"

definition pad_char :: "bool \<Rightarrow> char" where
  "pad_char url = (if url then CHR ''.'' else CHR ''='')"

fun enc_ref :: "bool \<Rightarrow> string \<Rightarrow> string" where
  "enc_ref url [] = []"
| "enc_ref url [a] =
     [b64 url (char_nat a div 4), b64 url (char_nat a mod 4 * 16), pad_char url, pad_char url]"
| "enc_ref url [a, b] =
     [b64 url (char_nat a div 4), b64 url (char_nat a mod 4 * 16 + char_nat b div 16),
      b64 url (char_nat b mod 16 * 4), pad_char url]"
| "enc_ref url (a # b # c # cs) =
     b64 url (char_nat a div 4) # b64 url (char_nat a mod 4 * 16 + char_nat b div 16) #
     b64 url (char_nat b mod 16 * 4 + char_nat c div 64) # b64 url (char_nat c mod 64) #
     enc_ref url cs"

lemma byte_div [simp]:
  "char_nat c div 4 mod 64 = char_nat c div 4"
  "char_nat c div 16 mod 16 = char_nat c div 16"
  "char_nat c div 64 mod 4 = char_nat c div 64"
  using char_nat_less [of c] by (simp_all add: less_mult_imp_div_less)

lemma base64_encode_loop_ref:
  "base64_encode_loop url (pre @ bs) (length pre) ret = ret @ enc_ref url bs"
proof (induction url bs arbitrary: pre ret rule: enc_ref.induct)
  case (1 url)
  then show ?case by (simp add: base64_encode_loop.simps)
next
  case (2 url a)
  have "base64_encode_loop url (pre @ [a]) (length pre + 3) r = r" for r
    by (simp add: base64_encode_loop.simps)
  then show ?case
    by (subst base64_encode_loop.simps)
      (simp add: Let_def nat_bits b64_def pad_char_def nth_append)
next
  case (3 url a b)
  have "base64_encode_loop url (pre @ [a, b]) (length pre + 3) r = r" for r
    by (simp add: base64_encode_loop.simps)
  then show ?case
    by (subst base64_encode_loop.simps)
      (simp add: Let_def nat_bits b64_def pad_char_def nth_append)
next
  case (4 url a b c cs)
  have "base64_encode_loop url (pre @ a # b # c # cs) (length pre + 3) r =
      r @ enc_ref url cs" for r
    using "4.IH" [of "pre @ [a, b, c]" r] by (simp add: numeral_3_eq_3)
  then show ?case
    by (subst base64_encode_loop.simps)
      (simp add: Let_def nat_bits b64_def pad_char_def nth_append)
qed

lemma base64_encode_ref: "base64_encode bs url = enc_ref url bs"
  using base64_encode_loop_ref [of url "[]" bs "[]"] by (simp add: base64_encode_def)

lemma length_enc_ref: "length (enc_ref url bs) = (length bs + 2) div 3 * 4"
  by (induction url bs rule: enc_ref.induct) (simp_all, presburger)

lemma b64_plain: "k < 64 \<Longrightarrow> b64 url k \<noteq> CHR 0x0A" "k < 64 \<Longrightarrow> \<not> is_pad (b64 url k)"
  "k < 64 \<Longrightarrow> pos_of_char (b64 url k) = Inr k"
  by (simp_all add: b64_def base64_char_not_special pos_of_base64_char)

lemma sextets:
  "char_nat a div 4 < 64" "char_nat a mod 4 * 16 < 64" "char_nat b mod 16 * 4 < 64"
  "char_nat a mod 4 * 16 + char_nat b div 16 < 64"
  "char_nat b mod 16 * 4 + char_nat c div 64 < 64" "char_nat c mod 64 < 64"
  using char_nat_less [of a] char_nat_less [of b] char_nat_less [of c] by linarith+

lemmas b64_sextets = sextets [THEN b64_plain(1)] sextets [THEN b64_plain(2)]
  sextets [THEN b64_plain(3)]

lemma enc_ref_no_newline: "CHR 0x0A \<notin> set (enc_ref url bs)"
  by (induction url bs rule: enc_ref.induct)
    (simp_all add: sextets [THEN b64_plain(1), THEN not_sym] pad_char_def)

section \<open>Decoding what was encoded\<close>

lemma str_at_append [simp]:
  "str_at (pre @ s) (length pre + k) = str_at s k"
  "str_at (pre @ s) (length pre) = str_at s 0"
  "str_at (pre @ s) (Suc (length pre)) = str_at s 1"
  by (simp_all add: str_at_def nth_append)

lemma low_char_parts:
  "low_char (char_nat a div 4 * 4 + (char_nat a mod 4 * 16 + char_nat b div 16) div 16 mod 4) = a"
  "low_char (char_nat a div 4 * 4 + char_nat a mod 4 * 16 div 16 mod 4) = a"
  "low_char ((char_nat a mod 4 * 16 + char_nat b div 16) mod 16 * 16 +
     (char_nat b mod 16 * 4 + char_nat c div 64) div 4 mod 16) = b"
  "low_char ((char_nat a mod 4 * 16 + char_nat b div 16) mod 16 * 16 +
     char_nat b mod 16 * 4 div 4 mod 16) = b"
  "low_char ((char_nat b mod 16 * 4 + char_nat c div 64) mod 4 * 64 + char_nat c mod 64) = c"
proof -
  have low: "low_char n = x" if "n = char_nat x" for n x
    using that char_nat_less [of x] by (simp add: low_char_def char_nat_def)
  note bounds = char_nat_less [of a] char_nat_less [of b] char_nat_less [of c]
  have d: "char_nat b div 16 < 16" "char_nat c div 64 < 4"
    using bounds by (simp_all add: less_mult_imp_div_less)
  show "low_char (char_nat a div 4 * 4 + (char_nat a mod 4 * 16 + char_nat b div 16) div 16 mod 4) = a"
    using d by (intro low) simp
  show "low_char (char_nat a div 4 * 4 + char_nat a mod 4 * 16 div 16 mod 4) = a"
    by (intro low) simp
  show "low_char ((char_nat a mod 4 * 16 + char_nat b div 16) mod 16 * 16 +
     (char_nat b mod 16 * 4 + char_nat c div 64) div 4 mod 16) = b"
    using d by (intro low) simp
  show "low_char ((char_nat a mod 4 * 16 + char_nat b div 16) mod 16 * 16 +
     char_nat b mod 16 * 4 div 4 mod 16) = b"
    using d by (intro low) simp
  show "low_char ((char_nat b mod 16 * 4 + char_nat c div 64) mod 4 * 64 + char_nat c mod 64) = c"
    using d by (intro low) simp
qed

lemma low_char_nat [simp]: "low_char (char_nat a) = a"
  using char_nat_less [of a] by (simp add: low_char_def char_nat_def)

text \<open>One round of the decoder on a whole, a two-character and a three-character group.\<close>

lemma decode_group4:
  assumes "pos_of_char c0 = Inr p0" "pos_of_char c1 = Inr p1" "pos_of_char c2 = Inr p2"
    "pos_of_char c3 = Inr p3" "\<not> is_pad c2" "\<not> is_pad c3"
  shows "base64_decode_loop (pre @ c0 # c1 # c2 # c3 # s) (length pre) ret =
    base64_decode_loop (pre @ c0 # c1 # c2 # c3 # s) (length pre + 4)
      (ret @ [low_char (p0 * 4 + p1 div 16 mod 4), low_char (p1 mod 16 * 16 + p2 div 4 mod 16),
              low_char (p2 mod 4 * 64 + p3)])"
  using assms
  by (subst base64_decode_loop.simps) (simp add: str_at_def nth_append Let_def nat_bits)

lemma decode_group3:
  assumes "pos_of_char c0 = Inr p0" "pos_of_char c1 = Inr p1" "pos_of_char c2 = Inr p2"
    "\<not> is_pad c2" "is_pad c3"
  shows "base64_decode_loop (pre @ c0 # c1 # c2 # c3 # s) (length pre) ret =
    base64_decode_loop (pre @ c0 # c1 # c2 # c3 # s) (length pre + 4)
      (ret @ [low_char (p0 * 4 + p1 div 16 mod 4), low_char (p1 mod 16 * 16 + p2 div 4 mod 16)])"
  using assms
  by (subst base64_decode_loop.simps) (simp add: str_at_def nth_append Let_def nat_bits)

lemma decode_group2:
  assumes "pos_of_char c0 = Inr p0" "pos_of_char c1 = Inr p1" "is_pad c2"
  shows "base64_decode_loop (pre @ c0 # c1 # c2 # s) (length pre) ret =
    base64_decode_loop (pre @ c0 # c1 # c2 # s) (length pre + 4)
      (ret @ [low_char (p0 * 4 + p1 div 16 mod 4)])"
  using assms
  by (subst base64_decode_loop.simps) (simp add: str_at_def nth_append Let_def nat_bits)

lemma decode_end: "length s \<le> pos \<Longrightarrow> base64_decode_loop s pos ret = Inr ret"
  by (simp add: base64_decode_loop.simps)

lemma is_pad_pad_char [simp]: "is_pad (pad_char url)"
  by (simp add: pad_char_def is_pad_def)

lemma base64_decode_loop_enc:
  "base64_decode_loop (pre @ enc_ref url bs) (length pre) ret = Inr (ret @ bs)"
proof (induction url bs arbitrary: pre ret rule: enc_ref.induct)
  case (1 url)
  then show ?case by (simp add: decode_end)
next
  case (2 url a)
  then show ?case by (simp add: decode_group2 b64_sextets decode_end low_char_parts)
next
  case (3 url a b)
  define x0 x1 x2 where x: "x0 = b64 url (char_nat a div 4)"
    "x1 = b64 url (char_nat a mod 4 * 16 + char_nat b div 16)"
    "x2 = b64 url (char_nat b mod 16 * 4)"
  have e: "enc_ref url [a, b] = x0 # x1 # x2 # pad_char url # []"
    by (simp add: x)
  show ?case unfolding e
    by (subst decode_group3 [where ?p0.0 = "char_nat a div 4"
          and ?p1.0 = "char_nat a mod 4 * 16 + char_nat b div 16"
          and ?p2.0 = "char_nat b mod 16 * 4"])
      (simp_all only: x b64_sextets low_char_parts is_pad_pad_char not_False_eq_True,
        simp add: decode_end)
next
  case (4 url a b c cs)
  define x0 x1 x2 x3 where x: "x0 = b64 url (char_nat a div 4)"
    "x1 = b64 url (char_nat a mod 4 * 16 + char_nat b div 16)"
    "x2 = b64 url (char_nat b mod 16 * 4 + char_nat c div 64)"
    "x3 = b64 url (char_nat c mod 64)"
  have e: "enc_ref url (a # b # c # cs) = x0 # x1 # x2 # x3 # enc_ref url cs"
    by (simp add: x)
  have "base64_decode_loop (pre @ enc_ref url (a # b # c # cs)) (length pre) ret =
      base64_decode_loop ((pre @ [x0, x1, x2, x3]) @ enc_ref url cs) (length (pre @ [x0, x1, x2, x3]))
        (ret @ [a, b, c])"
    unfolding e
    by (subst decode_group4 [where ?p0.0 = "char_nat a div 4"
          and ?p1.0 = "char_nat a mod 4 * 16 + char_nat b div 16"
          and ?p2.0 = "char_nat b mod 16 * 4 + char_nat c div 64" and ?p3.0 = "char_nat c mod 64"])
      (simp_all only: x b64_sextets low_char_parts low_char_nat not_False_eq_True,
        simp_all only: length_append list.size add_Suc_right add_0_right append.simps
          append_assoc numeral_nat add_0 One_nat_def add_Suc)
  also have "\<dots> = Inr ((ret @ [a, b, c]) @ cs)" by (rule "4.IH")
  finally show ?case by simp
qed

section \<open>Line breaks\<close>

function breaks :: "nat \<Rightarrow> string \<Rightarrow> string list" where
  "breaks d s = (if d = 0 \<or> length s \<le> d then [s] else take d s # breaks d (drop d s))"
  by pat_completeness auto
termination
  by (relation "measure (\<lambda>(d, s). length s)") auto

declare breaks.simps [simp del]

lemma breaks_nonempty [simp]: "breaks d s \<noteq> []"
  by (subst breaks.simps) simp

lemma concat_breaks: "concat (breaks d s) = s"
proof (induction d s rule: breaks.induct)
  case (1 d s)
  then show ?case by (subst breaks.simps) simp
qed

lemma breaks_short: "0 < d \<Longrightarrow> x \<in> set (breaks d s) \<Longrightarrow> length x \<le> d"
proof (induction d s rule: breaks.induct)
  case (1 d s)
  then show ?case by (subst (asm) (2) breaks.simps) (auto split: if_splits)
qed

lemma filter_join_breaks:
  "CHR 0x0A \<notin> set s \<Longrightarrow> filter (\<lambda>c. c \<noteq> CHR 0x0A) (join [CHR 0x0A] (breaks d s)) = s"
proof (induction d s rule: breaks.induct)
  case (1 d s)
  show ?case
  proof (cases "d = 0 \<or> length s \<le> d")
    case True
    with "1.prems" show ?thesis
      by (subst breaks.simps) (auto simp: filter_id_conv)
  next
    case False
    have t: "filter (\<lambda>c. c \<noteq> CHR 0x0A) (take d s) = take d s"
      using "1.prems" by (auto simp: filter_id_conv dest: in_set_takeD)
    have "CHR 0x0A \<notin> set (drop d s)" using "1.prems" by (auto dest: in_set_dropD)
    with "1.IH" False t show ?thesis
      by (subst breaks.simps) (simp add: join_Cons)
  qed
qed

lemma insert_linebreaks_loop_spec:
  "0 < d \<Longrightarrow> insert_linebreaks_loop d (pre @ s) (length pre + d) =
     Some (Inr (pre @ join [CHR 0x0A] (breaks d s)))"
proof (induction d s arbitrary: pre rule: breaks.induct)
  case (1 d s)
  show ?case
  proof (cases "length s \<le> d")
    case True
    then show ?thesis by (simp add: insert_linebreaks_loop.simps breaks.simps)
  next
    case False
    let ?pre = "pre @ take d s @ [CHR 0x0A]"
    have "insert_linebreaks_loop d (pre @ s) (length pre + d) =
        insert_linebreaks_loop d (?pre @ drop d s) (length ?pre + d)"
      using False by (subst insert_linebreaks_loop.simps) (simp add: str_insert_def)
    also have "\<dots> = Some (Inr (?pre @ join [CHR 0x0A] (breaks d (drop d s))))"
      using "1.IH" [of ?pre] "1.prems" False by simp
    finally show ?thesis using False "1.prems"
      by (simp add: breaks.simps [of d s] join_Cons)
  qed
qed

lemma insert_linebreaks_spec:
  "0 < d \<Longrightarrow> insert_linebreaks s d = Some (Inr (join [CHR 0x0A] (breaks d s)))"
  using insert_linebreaks_loop_spec [of d "[]" s]
  by (auto simp: insert_linebreaks_def breaks.simps [of d "[]"])

lemma base64_decode_enc: "base64_decode (base64_encode bs url) False = Inr bs"
  using base64_decode_loop_enc [of "[]" url bs "[]"]
  by (cases "enc_ref url bs = []")
    (auto simp: base64_decode_def base64_encode_ref decode_end)

interpretation b64c: codec "\<lambda>bs. base64_encode bs url" "\<lambda>s. base64_decode s False" for url
  by unfold_locales (rule base64_decode_enc)

section \<open>Properties\<close>


text \<open>The PEM and MIME encoders return, without an exception, the plain encoding cut into
  lines of at most 64 and 76 characters, and the decoder that removes line breaks reads the bytes
  back.\<close>

theorem base64_lines_roundtrip:
  "\<exists>pem mime.
     base64_encode_pem bs = Some (Inr (join [CHR 0x0A] pem)) \<and> concat pem = base64_encode bs False \<and>
     list_all (\<lambda>l. length l \<le> 64) pem \<and> base64_decode (join [CHR 0x0A] pem) True = Inr bs \<and>
     base64_encode_mime bs = Some (Inr (join [CHR 0x0A] mime)) \<and> concat mime = base64_encode bs False \<and>
     list_all (\<lambda>l. length l \<le> 76) mime \<and> base64_decode (join [CHR 0x0A] mime) True = Inr bs"
proof -
  let ?e = "base64_encode bs False"
  have dec: "base64_decode (join [CHR 0x0A] (breaks d ?e)) True = Inr bs" for d
  proof -
    have f: "filter (\<lambda>c. c \<noteq> CHR 0x0A) (join [CHR 0x0A] (breaks d ?e)) = ?e"
      by (simp add: filter_join_breaks base64_encode_ref enc_ref_no_newline)
    have "base64_decode ?e False = Inr bs" by (rule base64_decode_enc)
    with f show ?thesis by (auto simp: base64_decode_def Let_def split: if_splits)
  qed
  show ?thesis
    by (rule exI [of _ "breaks 64 ?e"], rule exI [of _ "breaks 76 ?e"])
      (auto simp: dec list_all_iff concat_breaks base64_encode_pem_def base64_encode_mime_def
        encode_with_line_breaks_def insert_linebreaks_spec dest!: breaks_short [rotated])
qed

lemma res_bind_InlI: "(\<And>x. m = Inr x \<Longrightarrow> \<exists>e. f x = Inl e) \<Longrightarrow> \<exists>e. res_bind m f = Inl e"
  by (cases m) simp_all

text \<open>A text whose length is one more than a multiple of four has no decoding: the decoder
  throws (the last group has no second character).\<close>

theorem base64_decode_lone_char:
  assumes "length s mod 4 = 1"
  shows "\<exists>e. base64_decode s False = Inl e"
proof -
  have "\<exists>e. base64_decode_loop s pos ret = Inl e" if "pos < length s" "(length s - pos) mod 4 = 1"
    for s pos ret
    using that
  proof (induction "length s - pos" arbitrary: pos ret rule: less_induct)
    case less
    show ?case
    proof (cases "length s - pos = 1")
      case True
      then have "length s = Suc pos" by linarith
      then show ?thesis
        by (subst base64_decode_loop.simps) (simp add: str_at_def)
    next
      case False
      have far: "5 \<le> length s - pos"
      proof (rule ccontr)
        assume "\<not> 5 \<le> length s - pos"
        then have "length s - pos \<in> {0, 1, 2, 3, 4}" by auto
        with False less.prems(2) show False by auto
      qed
      then have "pos + 4 < length s" by simp
      moreover have "(length s - (pos + 4)) mod 4 = 1"
        using less.prems(2) far le_mod_geq [of 4 "length s - pos"] by simp
      ultimately
      have "\<exists>e. base64_decode_loop s (pos + 4) r = Inl e" for r
        using less.hyps [of "pos + 4" r] less.prems by simp
      then show ?thesis using less.prems(1)
        by (subst base64_decode_loop.simps) (simp only: if_True Let_def, intro res_bind_InlI, simp)
    qed
  qed
  note lone = this
  have "0 < length s" using assms by (cases "length s") auto
  then have "\<exists>e. base64_decode_loop s 0 [] = Inl e"
    by (rule lone) (simp only: diff_zero assms)
  moreover from \<open>0 < length s\<close> have "s \<noteq> []" by simp
  ultimately show ?thesis unfolding base64_decode_def by simp
qed

theorem base64_decode_lone_char_witness: "\<exists>e. base64_decode ''QUJDR'' False = Inl e"
  by (rule base64_decode_lone_char) simp

end
