(* ===== verification/Md5.thy ===== *)
theory Md5
  imports CxxString
begin

text \<open>
  The MD5 implementation of \<open>third/md5/md5.cpp\<close> (the branch for processors other than x86,
  which is the one Android's arm64 build compiles; \<open>unsigned long\<close> has 64 bits there). The
  context is the C struct with its fields at their width; a pointer to data is the list of the
  bytes that can be read behind it, so that a read past its end is the outcome
  \<open>UB_Bounds\<close>. The specification is RFC 1321: the padded message, cut into blocks of 64 bytes,
  folded with the compression function given by its index and shift tables.
\<close>

section \<open>The compression function\<close>

type_synonym md5_regs = "32 word \<times> 32 word \<times> 32 word \<times> 32 word"

definition MD5_F :: "32 word \<Rightarrow> 32 word \<Rightarrow> 32 word \<Rightarrow> 32 word" where
  "MD5_F x y z = z XOR (x AND (y XOR z))"

definition MD5_G :: "32 word \<Rightarrow> 32 word \<Rightarrow> 32 word \<Rightarrow> 32 word" where
  "MD5_G x y z = y XOR (z AND (x XOR y))"

definition MD5_H :: "32 word \<Rightarrow> 32 word \<Rightarrow> 32 word \<Rightarrow> 32 word" where
  "MD5_H x y z = x XOR y XOR z"

definition MD5_I :: "32 word \<Rightarrow> 32 word \<Rightarrow> 32 word \<Rightarrow> 32 word" where
  "MD5_I x y z = y XOR (x OR NOT z)"

text \<open>
  \<open>MD5_STEP f a b c d x t s\<close> is the value the macro \<open>STEP\<close> leaves in its second argument;
  \<open>step_a\<close> to \<open>step_d\<close> are its four uses, which permute the registers.
\<close>

definition MD5_STEP ::
    "(32 word \<Rightarrow> 32 word \<Rightarrow> 32 word \<Rightarrow> 32 word) \<Rightarrow> 32 word \<Rightarrow> 32 word \<Rightarrow> 32 word \<Rightarrow> 32 word \<Rightarrow>
     32 word \<Rightarrow> 32 word \<Rightarrow> nat \<Rightarrow> 32 word" where
  "MD5_STEP f a b c d x t s =
     (let a = a + (f b c d + x + t);
          a = push_bit s a OR drop_bit (32 - s) (a AND 0xffffffff)
      in a + b)"

definition step_a ::
    "(32 word \<Rightarrow> 32 word \<Rightarrow> 32 word \<Rightarrow> 32 word) \<Rightarrow> 32 word \<Rightarrow> 32 word \<Rightarrow> nat \<Rightarrow> md5_regs \<Rightarrow> md5_regs" where
  "step_a f x t s = (\<lambda>(a, b, c, d). (MD5_STEP f a b c d x t s, b, c, d))"

definition step_d ::
    "(32 word \<Rightarrow> 32 word \<Rightarrow> 32 word \<Rightarrow> 32 word) \<Rightarrow> 32 word \<Rightarrow> 32 word \<Rightarrow> nat \<Rightarrow> md5_regs \<Rightarrow> md5_regs" where
  "step_d f x t s = (\<lambda>(a, b, c, d). (a, b, c, MD5_STEP f d a b c x t s))"

definition step_c ::
    "(32 word \<Rightarrow> 32 word \<Rightarrow> 32 word \<Rightarrow> 32 word) \<Rightarrow> 32 word \<Rightarrow> 32 word \<Rightarrow> nat \<Rightarrow> md5_regs \<Rightarrow> md5_regs" where
  "step_c f x t s = (\<lambda>(a, b, c, d). (a, b, MD5_STEP f c d a b x t s, d))"

definition step_b ::
    "(32 word \<Rightarrow> 32 word \<Rightarrow> 32 word \<Rightarrow> 32 word) \<Rightarrow> 32 word \<Rightarrow> 32 word \<Rightarrow> nat \<Rightarrow> md5_regs \<Rightarrow> md5_regs" where
  "step_b f x t s = (\<lambda>(a, b, c, d). (a, MD5_STEP f b c d a x t s, c, d))"

text \<open>
  \<open>SET(n)\<close> assembles the \<open>n\<close>-th little-endian word of the block and stores it in
  \<open>ctx->block[n]\<close>; \<open>GET(n)\<close> reads the stored word.
\<close>

definition md5_SET :: "8 word list \<Rightarrow> nat \<Rightarrow> 32 word" where
  "md5_SET ptr n =
     ucast (ptr ! (n * 4)) OR push_bit 8 (ucast (ptr ! (n * 4 + 1))) OR
     push_bit 16 (ucast (ptr ! (n * 4 + 2))) OR push_bit 24 (ucast (ptr ! (n * 4 + 3)))"

text \<open>The four rounds of \<open>body\<close>, unrolled as in the source.\<close>

definition md5_round1 :: "8 word list \<Rightarrow> md5_regs \<Rightarrow> md5_regs" where
  "md5_round1 ptr r =
    (let r = step_a MD5_F (md5_SET ptr 0) 0xd76aa478 7 r;
         r = step_d MD5_F (md5_SET ptr 1) 0xe8c7b756 12 r;
         r = step_c MD5_F (md5_SET ptr 2) 0x242070db 17 r;
         r = step_b MD5_F (md5_SET ptr 3) 0xc1bdceee 22 r;
         r = step_a MD5_F (md5_SET ptr 4) 0xf57c0faf 7 r;
         r = step_d MD5_F (md5_SET ptr 5) 0x4787c62a 12 r;
         r = step_c MD5_F (md5_SET ptr 6) 0xa8304613 17 r;
         r = step_b MD5_F (md5_SET ptr 7) 0xfd469501 22 r;
         r = step_a MD5_F (md5_SET ptr 8) 0x698098d8 7 r;
         r = step_d MD5_F (md5_SET ptr 9) 0x8b44f7af 12 r;
         r = step_c MD5_F (md5_SET ptr 10) 0xffff5bb1 17 r;
         r = step_b MD5_F (md5_SET ptr 11) 0x895cd7be 22 r;
         r = step_a MD5_F (md5_SET ptr 12) 0x6b901122 7 r;
         r = step_d MD5_F (md5_SET ptr 13) 0xfd987193 12 r;
         r = step_c MD5_F (md5_SET ptr 14) 0xa679438e 17 r;
         r = step_b MD5_F (md5_SET ptr 15) 0x49b40821 22 r
     in r)"

definition md5_round2 :: "32 word list \<Rightarrow> md5_regs \<Rightarrow> md5_regs" where
  "md5_round2 blk r =
    (let r = step_a MD5_G (blk ! 1) 0xf61e2562 5 r;
         r = step_d MD5_G (blk ! 6) 0xc040b340 9 r;
         r = step_c MD5_G (blk ! 11) 0x265e5a51 14 r;
         r = step_b MD5_G (blk ! 0) 0xe9b6c7aa 20 r;
         r = step_a MD5_G (blk ! 5) 0xd62f105d 5 r;
         r = step_d MD5_G (blk ! 10) 0x02441453 9 r;
         r = step_c MD5_G (blk ! 15) 0xd8a1e681 14 r;
         r = step_b MD5_G (blk ! 4) 0xe7d3fbc8 20 r;
         r = step_a MD5_G (blk ! 9) 0x21e1cde6 5 r;
         r = step_d MD5_G (blk ! 14) 0xc33707d6 9 r;
         r = step_c MD5_G (blk ! 3) 0xf4d50d87 14 r;
         r = step_b MD5_G (blk ! 8) 0x455a14ed 20 r;
         r = step_a MD5_G (blk ! 13) 0xa9e3e905 5 r;
         r = step_d MD5_G (blk ! 2) 0xfcefa3f8 9 r;
         r = step_c MD5_G (blk ! 7) 0x676f02d9 14 r;
         r = step_b MD5_G (blk ! 12) 0x8d2a4c8a 20 r
     in r)"

definition md5_round3 :: "32 word list \<Rightarrow> md5_regs \<Rightarrow> md5_regs" where
  "md5_round3 blk r =
    (let r = step_a MD5_H (blk ! 5) 0xfffa3942 4 r;
         r = step_d MD5_H (blk ! 8) 0x8771f681 11 r;
         r = step_c MD5_H (blk ! 11) 0x6d9d6122 16 r;
         r = step_b MD5_H (blk ! 14) 0xfde5380c 23 r;
         r = step_a MD5_H (blk ! 1) 0xa4beea44 4 r;
         r = step_d MD5_H (blk ! 4) 0x4bdecfa9 11 r;
         r = step_c MD5_H (blk ! 7) 0xf6bb4b60 16 r;
         r = step_b MD5_H (blk ! 10) 0xbebfbc70 23 r;
         r = step_a MD5_H (blk ! 13) 0x289b7ec6 4 r;
         r = step_d MD5_H (blk ! 0) 0xeaa127fa 11 r;
         r = step_c MD5_H (blk ! 3) 0xd4ef3085 16 r;
         r = step_b MD5_H (blk ! 6) 0x04881d05 23 r;
         r = step_a MD5_H (blk ! 9) 0xd9d4d039 4 r;
         r = step_d MD5_H (blk ! 12) 0xe6db99e5 11 r;
         r = step_c MD5_H (blk ! 15) 0x1fa27cf8 16 r;
         r = step_b MD5_H (blk ! 2) 0xc4ac5665 23 r
     in r)"

definition md5_round4 :: "32 word list \<Rightarrow> md5_regs \<Rightarrow> md5_regs" where
  "md5_round4 blk r =
    (let r = step_a MD5_I (blk ! 0) 0xf4292244 6 r;
         r = step_d MD5_I (blk ! 7) 0x432aff97 10 r;
         r = step_c MD5_I (blk ! 14) 0xab9423a7 15 r;
         r = step_b MD5_I (blk ! 5) 0xfc93a039 21 r;
         r = step_a MD5_I (blk ! 12) 0x655b59c3 6 r;
         r = step_d MD5_I (blk ! 3) 0x8f0ccc92 10 r;
         r = step_c MD5_I (blk ! 10) 0xffeff47d 15 r;
         r = step_b MD5_I (blk ! 1) 0x85845dd1 21 r;
         r = step_a MD5_I (blk ! 8) 0x6fa87e4f 6 r;
         r = step_d MD5_I (blk ! 15) 0xfe2ce6e0 10 r;
         r = step_c MD5_I (blk ! 6) 0xa3014314 15 r;
         r = step_b MD5_I (blk ! 13) 0x4e0811a1 21 r;
         r = step_a MD5_I (blk ! 4) 0xf7537e82 6 r;
         r = step_d MD5_I (blk ! 11) 0xbd3af235 10 r;
         r = step_c MD5_I (blk ! 2) 0x2ad7d2bb 15 r;
         r = step_b MD5_I (blk ! 9) 0xeb86d391 21 r
     in r)"


section \<open>The context and its operations\<close>

record md5_ctx =
  ctx_lo :: "32 word"
  ctx_hi :: "32 word"
  ctx_a :: "32 word"
  ctx_b :: "32 word"
  ctx_c :: "32 word"
  ctx_d :: "32 word"
  ctx_buffer :: "8 word list"
  ctx_block :: "32 word list"

text \<open>One round of the loop of \<open>body\<close>: sixteen \<open>SET\<close>s fill \<open>ctx->block\<close>, the rest reads it.\<close>

definition md5_body_round :: "8 word list \<Rightarrow> md5_regs \<Rightarrow> md5_regs" where
  "md5_body_round ptr saved =
     (let blk = map (md5_SET ptr) [0..<16];
          r = md5_round4 blk (md5_round3 blk (md5_round2 blk (md5_round1 ptr saved)))
      in case (r, saved) of ((a, b, c, d), (saved_a, saved_b, saved_c, saved_d)) \<Rightarrow>
           (a + saved_a, b + saved_b, c + saved_c, d + saved_d))"

text \<open>
  The loop \<open>do ... while (size -= 64)\<close>. Its counter wraps, so a size that is zero or not a
  multiple of 64 would run on until the data ends.
\<close>

function md5_body_loop ::
    "8 word list \<Rightarrow> 64 word \<Rightarrow> md5_regs \<Rightarrow> 32 word list \<Rightarrow> (md5_regs \<times> 32 word list \<times> 8 word list) res" where
  "md5_body_loop ptr sz r blk =
     (if length ptr < 64 then Inl UB_Bounds
      else
        let r = md5_body_round ptr r; blk = map (md5_SET ptr) [0..<16];
            ptr' = drop 64 ptr; sz = sz - 64
        in if sz \<noteq> 0 then md5_body_loop ptr' sz r blk else Inr (r, blk, ptr'))"
  by pat_completeness auto
termination
  by (relation "measure (\<lambda>(ptr, sz, r, blk). length ptr)") auto

declare md5_body_loop.simps [simp del]

definition md5_body :: "md5_ctx \<Rightarrow> 8 word list \<Rightarrow> 64 word \<Rightarrow> (md5_ctx \<times> 8 word list) res" where
  "md5_body ctx data sz =
     res_bind (md5_body_loop data sz (ctx_a ctx, ctx_b ctx, ctx_c ctx, ctx_d ctx) (ctx_block ctx))
       (\<lambda>((a, b, c, d), blk, ptr).
          Inr (ctx\<lparr>ctx_a := a, ctx_b := b, ctx_c := c, ctx_d := d, ctx_block := blk\<rparr>, ptr))"

definition MD5_Init :: "md5_ctx \<Rightarrow> md5_ctx" where
  "MD5_Init ctx =
     ctx\<lparr>ctx_a := 0x67452301, ctx_b := 0xefcdab89, ctx_c := 0x98badcfe, ctx_d := 0x10325476,
         ctx_lo := 0, ctx_hi := 0\<rparr>"

text \<open>The part of \<open>MD5_Update\<close> behind the completed buffer.\<close>

definition md5_update_blocks :: "md5_ctx \<Rightarrow> 8 word list \<Rightarrow> 64 word \<Rightarrow> md5_ctx res" where
  "md5_update_blocks ctx data sz =
     res_bind (if 64 \<le> sz then
                 res_bind (md5_body ctx data (sz AND NOT 0x3f))
                   (\<lambda>(ctx, data). Inr (ctx, data, sz AND 0x3f))
               else Inr (ctx, data, sz))
       (\<lambda>(ctx, data, sz).
          res_bind (mem_copy (ctx_buffer ctx) 0 data (unat sz))
            (\<lambda>buf. Inr (ctx\<lparr>ctx_buffer := buf\<rparr>)))"

definition MD5_Update :: "md5_ctx \<Rightarrow> 8 word list \<Rightarrow> 64 word \<Rightarrow> md5_ctx res" where
  "MD5_Update ctx data sz =
     (let saved_lo = ctx_lo ctx;
          ctx = ctx\<lparr>ctx_lo := ucast ((ucast saved_lo + sz) AND 0x1fffffff)\<rparr>;
          ctx = (if ctx_lo ctx < saved_lo then ctx\<lparr>ctx_hi := ctx_hi ctx + 1\<rparr> else ctx);
          ctx = ctx\<lparr>ctx_hi := ucast (ucast (ctx_hi ctx) + drop_bit 29 sz)\<rparr>;
          used = (ucast (saved_lo AND 0x3f) :: 64 word)
      in if used \<noteq> 0 then
           let free = 64 - used in
           if sz < free then
             res_bind (mem_copy (ctx_buffer ctx) (unat used) data (unat sz))
               (\<lambda>buf. Inr (ctx\<lparr>ctx_buffer := buf\<rparr>))
           else
             res_bind (mem_copy (ctx_buffer ctx) (unat used) data (unat free)) (\<lambda>buf.
               let ctx = ctx\<lparr>ctx_buffer := buf\<rparr> in
               res_bind (md5_body ctx (ctx_buffer ctx) 64) (\<lambda>(ctx, _).
                 md5_update_blocks ctx (drop (unat free) data) (sz - free)))
         else md5_update_blocks ctx data sz)"

definition word_bytes :: "32 word \<Rightarrow> 8 word list" where
  "word_bytes w = [ucast w, ucast (drop_bit 8 w), ucast (drop_bit 16 w), ucast (drop_bit 24 w)]"

text \<open>
  \<open>MD5_Final\<close> returns the digest and the context, which its last statement clears. The eight
  stores to \<open>buffer[56]\<close> to \<open>buffer[63]\<close> are one copy of their bytes.
\<close>

definition MD5_Final :: "md5_ctx \<Rightarrow> (8 word list \<times> md5_ctx) res" where
  "MD5_Final ctx =
     (let used = unat (ctx_lo ctx AND 0x3f) in
      res_bind (arr_write (ctx_buffer ctx) (int used) 0x80) (\<lambda>buf.
        let used = used + 1; free = 64 - used in
        res_bind
          (if free < 8 then
             res_bind (mem_set buf used 0 free) (\<lambda>buf.
             res_bind (md5_body (ctx\<lparr>ctx_buffer := buf\<rparr>) buf 64) (\<lambda>(ctx, _).
               Inr (ctx, 0, 64)))
           else Inr (ctx\<lparr>ctx_buffer := buf\<rparr>, used, free))
          (\<lambda>(ctx, used, free).
             res_bind (mem_set (ctx_buffer ctx) used 0 (free - 8)) (\<lambda>buf.
               let ctx = ctx\<lparr>ctx_lo := push_bit 3 (ctx_lo ctx)\<rparr> in
               res_bind (mem_copy buf 56 (word_bytes (ctx_lo ctx) @ word_bytes (ctx_hi ctx)) 8) (\<lambda>buf.
               res_bind (md5_body (ctx\<lparr>ctx_buffer := buf\<rparr>) buf 64) (\<lambda>(ctx, _).
                 Inr (word_bytes (ctx_a ctx) @ word_bytes (ctx_b ctx) @
                      word_bytes (ctx_c ctx) @ word_bytes (ctx_d ctx),
                      \<lparr>ctx_lo = 0, ctx_hi = 0, ctx_a = 0, ctx_b = 0, ctx_c = 0, ctx_d = 0,
                       ctx_buffer = replicate 64 0, ctx_block = replicate 16 0\<rparr>)))))))"

section \<open>The digests of the interface\<close>

text \<open>
  The uninitialised context on the stack is the argument \<open>c\<close> of the digests: they do not
  depend on it, provided its arrays have their declared sizes.
\<close>

definition md5bin :: "md5_ctx \<Rightarrow> 8 word list \<Rightarrow> 64 word \<Rightarrow> 8 word list res" where
  "md5bin c dat len =
     res_bind (MD5_Update (MD5_Init c) dat len) (\<lambda>c. res_bind (MD5_Final c) (\<lambda>(out, _). Inr out))"

definition hb2hex :: "8 word \<Rightarrow> char" where
  "hb2hex hb =
     (let hb = hb AND 0xF in
      if hb < 10 then char_of (48 + unat hb) else char_of (unat hb - 10 + 97))"

definition md5_hex :: "8 word list \<Rightarrow> string" where
  "md5_hex out = concat (map (\<lambda>i. [hb2hex (drop_bit 4 (out ! i)), hb2hex (out ! i)]) [0..<16])"

definition md5 :: "md5_ctx \<Rightarrow> 8 word list \<Rightarrow> 64 word \<Rightarrow> string res" where
  "md5 c dat len = res_bind (md5bin c dat len) (\<lambda>out. Inr (md5_hex out))"

text \<open>
  \<open>fread\<close> delivers the next bytes of the file, at most \<open>BUFSIZ\<close> of them, and none at its end.
\<close>

function md5file_loop :: "nat \<Rightarrow> md5_ctx \<Rightarrow> 8 word list \<Rightarrow> md5_ctx res" where
  "md5file_loop bufsiz c file =
     (let len = min bufsiz (length file) in
      if 0 < len then
        res_bind (MD5_Update c (take len file) (of_nat len)) (\<lambda>c. md5file_loop bufsiz c (drop len file))
      else Inr c)"
  by pat_completeness auto
termination
  by (relation "measure (\<lambda>(bufsiz, c, file). length file)") auto

declare md5file_loop.simps [simp del]

definition md5file :: "nat \<Rightarrow> md5_ctx \<Rightarrow> 8 word list \<Rightarrow> string res" where
  "md5file bufsiz c file =
     res_bind (md5file_loop bufsiz (MD5_Init c) file) (\<lambda>c.
     res_bind (MD5_Final c) (\<lambda>(out, _). Inr (md5_hex out)))"

text \<open>The overload with a file name passes the result of \<open>fopen\<close> on without a test.\<close>

definition md5file_name :: "nat \<Rightarrow> md5_ctx \<Rightarrow> (string \<Rightarrow> 8 word list option) \<Rightarrow> string \<Rightarrow> string res" where
  "md5file_name bufsiz c fopen filename =
     (case fopen filename of None \<Rightarrow> Inl UB_Null | Some file \<Rightarrow> md5file bufsiz c file)"

definition md5sum6_tbl :: string where
  "md5sum6_tbl = ''0123456789abcdefghijklmnopqrstuvwxyzABCDEFGHIJKLMNOPQRSTUVWXYZ''"

definition md5sum6 :: "md5_ctx \<Rightarrow> 8 word list \<Rightarrow> 64 word \<Rightarrow> string res" where
  "md5sum6 c dat len =
     res_bind (md5bin c dat len)
       (\<lambda>out. Inr (map (\<lambda>i. md5sum6_tbl ! (unat (out ! i) mod 62)) [0..<6]))"

text \<open>The overloads for \<open>std::string\<close>.\<close>

definition char_byte :: "char \<Rightarrow> 8 word" where
  "char_byte c = of_nat (char_nat c)"

definition md5_string :: "md5_ctx \<Rightarrow> string \<Rightarrow> string res" where
  "md5_string c dat = md5 c (map char_byte dat) (of_nat (length dat))"

definition md5sum6_string :: "md5_ctx \<Rightarrow> string \<Rightarrow> string res" where
  "md5sum6_string c dat = md5sum6 c (map char_byte dat) (of_nat (length dat))"

section \<open>The specification: RFC 1321\<close>

definition rfc_fun :: "nat \<Rightarrow> 32 word \<Rightarrow> 32 word \<Rightarrow> 32 word \<Rightarrow> 32 word" where
  "rfc_fun i x y z =
     (if i < 16 then (x AND y) OR (NOT x AND z)
      else if i < 32 then (x AND z) OR (y AND NOT z)
      else if i < 48 then x XOR y XOR z
      else y XOR (x OR NOT z))"

definition rfc_index :: "nat \<Rightarrow> nat" where
  "rfc_index i =
     (if i < 16 then i else if i < 32 then (5 * i + 1) mod 16
      else if i < 48 then (3 * i + 5) mod 16 else 7 * i mod 16)"

definition rfc_shift :: "nat \<Rightarrow> nat" where
  "rfc_shift i =
     [[7, 12, 17, 22], [5, 9, 14, 20], [4, 11, 16, 23], [6, 10, 15, 21]] ! (i div 16) ! (i mod 4)"

definition rfc_T :: "32 word list" where
  "rfc_T =
    [0xd76aa478, 0xe8c7b756, 0x242070db, 0xc1bdceee, 0xf57c0faf, 0x4787c62a, 0xa8304613, 0xfd469501,
     0x698098d8, 0x8b44f7af, 0xffff5bb1, 0x895cd7be, 0x6b901122, 0xfd987193, 0xa679438e, 0x49b40821,
     0xf61e2562, 0xc040b340, 0x265e5a51, 0xe9b6c7aa, 0xd62f105d, 0x02441453, 0xd8a1e681, 0xe7d3fbc8,
     0x21e1cde6, 0xc33707d6, 0xf4d50d87, 0x455a14ed, 0xa9e3e905, 0xfcefa3f8, 0x676f02d9, 0x8d2a4c8a,
     0xfffa3942, 0x8771f681, 0x6d9d6122, 0xfde5380c, 0xa4beea44, 0x4bdecfa9, 0xf6bb4b60, 0xbebfbc70,
     0x289b7ec6, 0xeaa127fa, 0xd4ef3085, 0x04881d05, 0xd9d4d039, 0xe6db99e5, 0x1fa27cf8, 0xc4ac5665,
     0xf4292244, 0x432aff97, 0xab9423a7, 0xfc93a039, 0x655b59c3, 0x8f0ccc92, 0xffeff47d, 0x85845dd1,
     0x6fa87e4f, 0xfe2ce6e0, 0xa3014314, 0x4e0811a1, 0xf7537e82, 0xbd3af235, 0x2ad7d2bb, 0xeb86d391]"

definition rfc_step :: "32 word list \<Rightarrow> nat \<Rightarrow> md5_regs \<Rightarrow> md5_regs" where
  "rfc_step blk i = (\<lambda>(a, b, c, d).
     (d, b + word_rotl (rfc_shift i) (a + rfc_fun i b c d + blk ! rfc_index i + rfc_T ! i), b, c))"

text \<open>The value of four bytes, the least significant one first.\<close>

definition le_word :: "8 word list \<Rightarrow> nat \<Rightarrow> 32 word" where
  "le_word p n = of_nat (unat (p ! (4 * n)) + 2 ^ 8 * unat (p ! (4 * n + 1)) +
     2 ^ 16 * unat (p ! (4 * n + 2)) + 2 ^ 24 * unat (p ! (4 * n + 3)))"

definition rfc_compress :: "8 word list \<Rightarrow> md5_regs \<Rightarrow> md5_regs" where
  "rfc_compress p st =
     (case (fold (rfc_step (map (le_word p) [0..<16])) [0..<64] st, st) of
        ((a, b, c, d), (a', b', c', d')) \<Rightarrow> (a + a', b + b', c + c', d + d'))"

fun rfc_blocks :: "md5_regs \<Rightarrow> 8 word list \<Rightarrow> md5_regs" where
  "rfc_blocks st m = (if length m < 64 then st else rfc_blocks (rfc_compress (take 64 m) st) (drop 64 m))"

declare rfc_blocks.simps [simp del]

definition rfc_iv :: md5_regs where
  "rfc_iv = (0x67452301, 0xefcdab89, 0x98badcfe, 0x10325476)"

text \<open>A one bit, zeros up to 56 modulo 64 bytes, and the number of bits modulo \<open>2 ^ 64\<close>.\<close>

definition rfc_pad :: "8 word list \<Rightarrow> 8 word list" where
  "rfc_pad m = m @ [0x80] @ replicate ((119 - length m mod 64) mod 64) 0 @
     map (\<lambda>i. of_nat (8 * length m div 256 ^ i)) [0..<8]"

definition rfc_md5 :: "8 word list \<Rightarrow> 8 word list" where
  "rfc_md5 m =
     (case rfc_blocks rfc_iv (rfc_pad m) of (a, b, c, d) \<Rightarrow>
        concat (map (\<lambda>w. map (\<lambda>i. of_nat (unat w div 256 ^ i)) [0..<4]) [a, b, c, d]))"

section \<open>The unrolled rounds are the RFC's\<close>

lemma rfc_fun_eq:
  "MD5_F x y z = (x AND y) OR (NOT x AND z)"
  "MD5_G x y z = (x AND z) OR (y AND NOT z)"
  "MD5_H x y z = x XOR y XOR z"
  "MD5_I x y z = y XOR (x OR NOT z)"
  unfolding MD5_F_def MD5_G_def MD5_H_def MD5_I_def
  by (auto intro!: bit_word_eqI simp: bit_simps)

lemma md5_rotation:
  fixes a :: "32 word"
  assumes "0 < s" "s < 32"
  shows "push_bit s a OR drop_bit (32 - s) (a AND 0xffffffff) = word_rotl s a"
proof -
  have "(0xffffffff :: 32 word) = - 1" by simp
  then have "(a AND 0xffffffff) = a" by (metis and.right_neutral)
  then show ?thesis using word_rotl_shifts [OF assms] by simp
qed

lemma MD5_STEP_rotl:
  "0 < s \<Longrightarrow> s < 32 \<Longrightarrow> MD5_STEP f a b c d x t s = b + word_rotl s (a + f b c d + x + t)"
  unfolding MD5_STEP_def Let_def by (simp only: md5_rotation ac_simps)

definition rfc_group :: "(nat \<Rightarrow> md5_regs \<Rightarrow> md5_regs) \<Rightarrow> nat \<Rightarrow> md5_regs \<Rightarrow> md5_regs" where
  "rfc_group f i st = f (i + 3) (f (i + 2) (f (i + 1) (f i st)))"

text \<open>Four steps on registers renamed in turn are four steps of the RFC.\<close>

lemma rfc_group_steps:
  assumes "f0 = rfc_fun i" "f1 = rfc_fun (i + 1)" "f2 = rfc_fun (i + 2)" "f3 = rfc_fun (i + 3)"
    and "s0 = rfc_shift i" "s1 = rfc_shift (i + 1)" "s2 = rfc_shift (i + 2)" "s3 = rfc_shift (i + 3)"
    and "x0 = blk ! rfc_index i" "x1 = blk ! rfc_index (i + 1)" "x2 = blk ! rfc_index (i + 2)"
      "x3 = blk ! rfc_index (i + 3)"
    and "t0 = rfc_T ! i" "t1 = rfc_T ! (i + 1)" "t2 = rfc_T ! (i + 2)" "t3 = rfc_T ! (i + 3)"
    and "s0 \<in> {1..31}" "s1 \<in> {1..31}" "s2 \<in> {1..31}" "s3 \<in> {1..31}"
  shows "step_b f3 x3 t3 s3 (step_c f2 x2 t2 s2 (step_d f1 x1 t1 s1 (step_a f0 x0 t0 s0 st))) =
    rfc_group (rfc_step blk) i st"
proof -
  obtain a b c d where st: "st = (a, b, c, d)" by (cases st)
  have pos: "0 < s0 \<and> s0 < 32" "0 < s1 \<and> s1 < 32" "0 < s2 \<and> s2 < 32" "0 < s3 \<and> s3 < 32"
    using assms(17-20) by auto
  show ?thesis
    unfolding st rfc_group_def rfc_step_def step_a_def step_b_def step_c_def step_d_def
      prod.case Let_def
    by (simp only: pos MD5_STEP_rotl assms(1-16) [symmetric])
qed

lemma rfc_funs:
  "i < 16 \<Longrightarrow> rfc_fun i = MD5_F" "16 \<le> i \<Longrightarrow> i < 32 \<Longrightarrow> rfc_fun i = MD5_G"
  "32 \<le> i \<Longrightarrow> i < 48 \<Longrightarrow> rfc_fun i = MD5_H" "48 \<le> i \<Longrightarrow> rfc_fun i = MD5_I"
  by (simp_all add: rfc_fun_def rfc_fun_eq fun_eq_iff)

lemma rfc_group_stepsI:
  assumes "f3 = rfc_fun (i + 3)" "f2 = rfc_fun (i + 2)" "f1 = rfc_fun (i + 1)" "f0 = rfc_fun i"
    and "s3 = rfc_shift (i + 3)" "s2 = rfc_shift (i + 2)" "s1 = rfc_shift (i + 1)" "s0 = rfc_shift i"
    and "x3 = blk ! rfc_index (i + 3)" "x2 = blk ! rfc_index (i + 2)" "x1 = blk ! rfc_index (i + 1)"
      "x0 = blk ! rfc_index i"
    and "t3 = rfc_T ! (i + 3)" "t2 = rfc_T ! (i + 2)" "t1 = rfc_T ! (i + 1)" "t0 = rfc_T ! i"
    and "s3 \<in> {1..31}" "s2 \<in> {1..31}" "s1 \<in> {1..31}" "s0 \<in> {1..31}"
    and "st = st'"
  shows "step_b f3 x3 t3 s3 (step_c f2 x2 t2 s2 (step_d f1 x1 t1 s1 (step_a f0 x0 t0 s0 st))) =
    rfc_group (rfc_step blk) i st'"
  using assms by (simp only: rfc_group_steps)

lemmas rfc_tables = rfc_funs rfc_index_def rfc_shift_def rfc_T_def

lemma md5_round1_rfc:
  "md5_round1 ptr st = (let f = rfc_step (map (md5_SET ptr) [0..<16]) in
     rfc_group f 12 (rfc_group f 8 (rfc_group f 4 (rfc_group f 0 st))))"
  unfolding md5_round1_def Let_def
  by (intro rfc_group_stepsI) (simp_all add: rfc_tables numeral_2_eq_2)

lemma md5_round2_rfc:
  "md5_round2 blk st = (let f = rfc_step blk in
     rfc_group f 28 (rfc_group f 24 (rfc_group f 20 (rfc_group f 16 st))))"
  unfolding md5_round2_def Let_def
  by (intro rfc_group_stepsI) (simp_all add: rfc_tables)

lemma md5_round3_rfc:
  "md5_round3 blk st = (let f = rfc_step blk in
     rfc_group f 44 (rfc_group f 40 (rfc_group f 36 (rfc_group f 32 st))))"
  unfolding md5_round3_def Let_def
  by (intro rfc_group_stepsI) (simp_all add: rfc_tables)

lemma md5_round4_rfc:
  "md5_round4 blk st = (let f = rfc_step blk in
     rfc_group f 60 (rfc_group f 56 (rfc_group f 52 (rfc_group f 48 st))))"
  unfolding md5_round4_def Let_def
  by (intro rfc_group_stepsI) (simp_all add: rfc_tables)

lemma fold_groups:
  "fold f [0..<64] st = rfc_group f 60 (rfc_group f 56 (rfc_group f 52 (rfc_group f 48
     (rfc_group f 44 (rfc_group f 40 (rfc_group f 36 (rfc_group f 32
     (rfc_group f 28 (rfc_group f 24 (rfc_group f 20 (rfc_group f 16
     (rfc_group f 12 (rfc_group f 8 (rfc_group f 4 (rfc_group f 0 st)))))))))))))))"
  by (simp add: rfc_group_def upt_rec eval_nat_numeral)

lemma md5_SET_le_word: "md5_SET p n = le_word p n"
proof -
  have shift: "push_bit k (ucast b :: 32 word) = of_nat (2 ^ k * unat b)" for k and b :: "8 word"
    by (simp add: push_bit_eq_mult unsigned_ucast_eq)
  have plus: "x OR y = x + y" if "\<And>n. \<not> bit x n \<or> \<not> bit y n" for x y :: "32 word"
    using disjunctive_add [of x y] that by simp
  have bits: "ucast a OR push_bit 8 (ucast b) OR push_bit 16 (ucast c) OR push_bit 24 (ucast d :: 32 word) =
      ucast a + (push_bit 8 (ucast b) + (push_bit 16 (ucast c) + push_bit 24 (ucast d)))"
    for a b c d :: "8 word"
  proof -
    have high: "bit x k \<Longrightarrow> k < 8" for x :: "8 word" and k using bit_imp_le_length [of x k] by simp
    show ?thesis
      by (subst plus [of "ucast a"], force simp: bit_simps dest: high,
          subst plus [of "push_bit 8 (ucast b)"], force simp: bit_simps dest: high,
          subst plus [of "push_bit 16 (ucast c)"], force simp: bit_simps dest: high) (rule refl)
  qed
  have "md5_SET p n = ucast (p ! (n * 4)) + (push_bit 8 (ucast (p ! (n * 4 + 1))) +
     (push_bit 16 (ucast (p ! (n * 4 + 2))) + push_bit 24 (ucast (p ! (n * 4 + 3)))))"
    unfolding md5_SET_def by (rule bits)
  then show ?thesis
    unfolding le_word_def shift by (simp add: mult.commute add.assoc)
qed

lemma md5_body_round_rfc: "md5_body_round p st = rfc_compress p st"
  by (simp add: md5_body_round_def rfc_compress_def md5_round1_rfc md5_round2_rfc md5_round3_rfc
      md5_round4_rfc Let_def fold_groups md5_SET_le_word [abs_def])

section \<open>The context refines the message\<close>

text \<open>The bytes behind the last whole block of a message.\<close>

fun md5_rest :: "8 word list \<Rightarrow> 8 word list" where
  "md5_rest m = (if length m < 64 then m else md5_rest (drop 64 m))"

declare md5_rest.simps [simp del]

lemma rfc_blocks_short [simp]: "length m < 64 \<Longrightarrow> rfc_blocks st m = st"
  by (simp add: rfc_blocks.simps)

lemma rfc_blocks_step:
  "length x = 64 \<Longrightarrow> rfc_blocks st (x @ y) = rfc_blocks (rfc_compress x st) y"
  by (subst rfc_blocks.simps) simp

lemma md5_rest_short [simp]: "length m < 64 \<Longrightarrow> md5_rest m = m"
  by (simp add: md5_rest.simps)

lemma md5_rest_step: "length x = 64 \<Longrightarrow> md5_rest (x @ y) = md5_rest y"
  by (subst md5_rest.simps) simp

lemma split64: "\<not> length m < 64 \<Longrightarrow> \<exists>x y. m = x @ y \<and> length x = 64"
  by (rule exI [of _ "take 64 m"], rule exI [of _ "drop 64 m"]) simp

lemma length_md5_rest: "length (md5_rest m) = length m mod 64"
proof (induction m rule: md5_rest.induct)
  case (1 m)
  show ?case
  proof (cases "length m < 64")
    case False
    then show ?thesis using "1.IH"
      by (subst md5_rest.simps) (simp add: le_mod_geq)
  qed simp
qed

lemma rfc_blocks_append: "rfc_blocks st (m @ d) = rfc_blocks (rfc_blocks st m) (md5_rest m @ d)"
proof (induction st m rule: rfc_blocks.induct)
  case (1 st m)
  show ?case
  proof (cases "length m < 64")
    case False
    then obtain x y where m: "m = x @ y" "length x = 64" using split64 by blast
    with "1.IH" False show ?thesis by (simp add: rfc_blocks_step md5_rest_step)
  qed simp
qed

lemma md5_rest_append: "md5_rest (m @ d) = md5_rest (md5_rest m @ d)"
proof (induction m rule: md5_rest.induct)
  case (1 m)
  show ?case
  proof (cases "length m < 64")
    case False
    then obtain x y where m: "m = x @ y" "length x = 64" using split64 by blast
    with "1.IH" False show ?thesis by (simp add: md5_rest_step)
  qed simp
qed

lemma md5_rest_whole: "length m mod 64 = 0 \<Longrightarrow> md5_rest m = []"
  by (simp add: length_md5_rest flip: length_0_conv)

lemma rfc_compress_prefix: "length x = 64 \<Longrightarrow> rfc_compress (x @ y) st = rfc_compress x st"
proof -
  assume x: "length x = 64"
  have "map (le_word (x @ y)) [0..<16] = map (le_word x) [0..<16]"
    using x by (simp add: le_word_def nth_append)
  then show ?thesis unfolding rfc_compress_def by (simp only:)
qed

lemma rfc_compress_take: "64 \<le> length m \<Longrightarrow> rfc_compress m st = rfc_compress (take 64 m) st"
  using rfc_compress_prefix [of "take 64 m" "drop 64 m" st] by simp

lemma md5_body_loop_rfc:
  assumes "0 < n" "64 * n \<le> length ptr" "64 * n < 2 ^ 64" "length blk = 16"
  shows "\<exists>blk'. length blk' = 16 \<and> md5_body_loop ptr (of_nat (64 * n)) r blk =
    Inr (rfc_blocks r (take (64 * n) ptr), blk', drop (64 * n) ptr)"
  using assms
proof (induction n arbitrary: ptr r blk rule: nat_induct_non_zero)
  case 1
  have "rfc_blocks r (take 64 ptr) = rfc_compress ptr r"
    using 1 rfc_blocks_step [of "take 64 ptr" r "[]"] rfc_compress_take [of ptr r] by simp
  with 1 show ?case
    by (subst md5_body_loop.simps) (simp add: Let_def md5_body_round_rfc)
next
  case (Suc n)
  obtain x y where p: "ptr = x @ y" "length x = 64"
    using split64 [of ptr] Suc.prems by auto
  have sz: "of_nat (64 * Suc n) - 64 = (of_nat (64 * n) :: 64 word)" by simp
  have nz: "(of_nat (64 * n) :: 64 word) \<noteq> 0"
    using Suc.prems Suc.hyps by (simp only: of_nat_eq_0_iff word_of_nat_eq_0_iff) auto
  let ?blk = "map (md5_SET ptr) [0..<16]"
  have r: "md5_body_round ptr r = rfc_compress x r"
    unfolding md5_body_round_rfc p(1) by (rule rfc_compress_prefix) (rule p)
  have "md5_body_loop ptr (of_nat (64 * Suc n)) r blk =
      md5_body_loop y (of_nat (64 * n)) (rfc_compress x r) ?blk"
    using p nz by (subst md5_body_loop.simps) (simp only: sz Let_def, simp add: r [unfolded p(1)])
  moreover obtain blk' where "length blk' = 16"
    "md5_body_loop y (of_nat (64 * n)) (rfc_compress x r) ?blk =
      Inr (rfc_blocks (rfc_compress x r) (take (64 * n) y), blk', drop (64 * n) y)"
    using Suc.IH [of y ?blk "rfc_compress x r"] Suc.prems p by auto
  ultimately show ?case using p by (auto simp: rfc_blocks_step)
qed
definition md5_regs_of :: "md5_ctx \<Rightarrow> md5_regs" where
  "md5_regs_of c = (ctx_a c, ctx_b c, ctx_c c, ctx_d c)"

definition md5_arrays :: "md5_ctx \<Rightarrow> bool" where
  "md5_arrays c \<longleftrightarrow> length (ctx_buffer c) = 64 \<and> length (ctx_block c) = 16"

text \<open>
  \<open>md5_inv c m\<close>: the context has consumed the message \<open>m\<close>. Its registers are those of the RFC
  after the whole blocks of \<open>m\<close>, its buffer starts with the rest, and \<open>lo\<close> and \<open>hi\<close> hold the
  length in 29 and 32 bits.
\<close>

definition md5_inv :: "md5_ctx \<Rightarrow> 8 word list \<Rightarrow> bool" where
  "md5_inv c m \<longleftrightarrow> md5_arrays c \<and> md5_regs_of c = rfc_blocks rfc_iv m \<and>
     take (length m mod 64) (ctx_buffer c) = md5_rest m \<and>
     ctx_lo c = of_nat (length m mod 2 ^ 29) \<and> ctx_hi c = of_nat (length m div 2 ^ 29)"

lemma md5_body_rfc:
  assumes "md5_arrays ctx" "0 < n" "64 * n \<le> length data" "64 * n < 2 ^ 64"
  shows "\<exists>ctx'. md5_body ctx data (of_nat (64 * n)) = Inr (ctx', drop (64 * n) data) \<and>
    md5_regs_of ctx' = rfc_blocks (md5_regs_of ctx) (take (64 * n) data) \<and> md5_arrays ctx' \<and>
    ctx_buffer ctx' = ctx_buffer ctx \<and> ctx_lo ctx' = ctx_lo ctx \<and> ctx_hi ctx' = ctx_hi ctx"
proof -
  obtain a b c d where r: "rfc_blocks (md5_regs_of ctx) (take (64 * n) data) = (a, b, c, d)"
    by (metis surj_pair)
  obtain blk where blk: "length blk = 16"
    "md5_body_loop data (of_nat (64 * n)) (md5_regs_of ctx) (ctx_block ctx) =
      Inr ((a, b, c, d), blk, drop (64 * n) data)"
    using md5_body_loop_rfc [of n data "ctx_block ctx" "md5_regs_of ctx"] assms r
    by (auto simp: md5_arrays_def)
  have "md5_body ctx data (of_nat (64 * n)) =
      Inr (ctx\<lparr>ctx_a := a, ctx_b := b, ctx_c := c, ctx_d := d, ctx_block := blk\<rparr>, drop (64 * n) data)"
    unfolding md5_body_def blk(2) [unfolded md5_regs_of_def] by simp
  with blk(1) assms(1) show ?thesis
    by - (intro exI conjI, assumption, simp_all add: r [unfolded md5_regs_of_def] md5_regs_of_def md5_arrays_def)
qed

text \<open>One whole buffer.\<close>

lemma md5_body_buffer:
  assumes "md5_arrays ctx"
  shows "\<exists>ctx' p. md5_body ctx (ctx_buffer ctx) 64 = Inr (ctx', p) \<and>
    md5_regs_of ctx' = rfc_blocks (md5_regs_of ctx) (ctx_buffer ctx) \<and> md5_arrays ctx' \<and>
    ctx_lo ctx' = ctx_lo ctx \<and> ctx_hi ctx' = ctx_hi ctx"
  using md5_body_rfc [OF assms, of 1 "ctx_buffer ctx"] assms
  by (auto simp: md5_arrays_def)

lemma unat_of_nat_eq: "n < 2 ^ LENGTH('a) \<Longrightarrow> unat (of_nat n :: 'a::len word) = n"
  by (simp add: unat_of_nat)

lemma word_and_63: "w AND 0x3f = of_nat (unat w mod 64)" for w :: "'a::len word"
proof -
  have "w AND mask 6 = take_bit 6 w" by (simp add: take_bit_eq_mask)
  also have "\<dots> = of_nat (unat w mod 2 ^ 6)"
    by (simp only: unat_take_bit_word [symmetric] of_nat_unat ucast_id)
  finally show ?thesis by (simp add: mask_eq_exp_minus_1)
qed

lemma word_and_not_63: "w AND NOT 0x3f = of_nat (64 * (unat w div 64))" for w :: "'a::len word"
proof -
  have "(w AND 0x3f) + (w AND NOT 0x3f) = (w AND 0x3f) OR (w AND NOT 0x3f)"
    by (rule disjunctive_add) (simp add: bit_simps)
  also have "\<dots> = w" by (simp flip: bit.conj_disj_distrib)
  finally have "(w AND 0x3f) + (w AND NOT 0x3f) = w" .
  then have "w AND NOT 0x3f = of_nat (unat w) - of_nat (unat w mod 64)"
    by (simp add: word_and_63 [symmetric] eq_diff_eq add.commute)
  also have "\<dots> = of_nat (unat w - unat w mod 64)" by (simp add: of_nat_diff)
  finally show ?thesis by (simp add: minus_mod_eq_mult_div)
qed

lemma whole_blocks:
  assumes "k = 64 * (length m div 64)"
  shows "rfc_blocks st m = rfc_blocks st (take k m)" "md5_rest m = drop k m"
proof -
  have k: "k \<le> length m" "length m - k < 64" using assms by (simp_all add: modulo_nat_def [symmetric] minus_mult_div_eq_mod)
  have "md5_rest (take k m) = []" using assms k by (intro md5_rest_whole) simp
  with k show "rfc_blocks st m = rfc_blocks st (take k m)" "md5_rest m = drop k m"
    using rfc_blocks_append [of st "take k m" "drop k m"] md5_rest_append [of "take k m" "drop k m"]
    by simp_all
qed

lemma md5_update_blocks_rfc:
  assumes "md5_arrays ctx" "length data < 2 ^ 64"
  shows "\<exists>ctx'. md5_update_blocks ctx data (of_nat (length data)) = Inr ctx' \<and> md5_arrays ctx' \<and>
    md5_regs_of ctx' = rfc_blocks (md5_regs_of ctx) data \<and>
    take (length data mod 64) (ctx_buffer ctx') = md5_rest data \<and>
    ctx_lo ctx' = ctx_lo ctx \<and> ctx_hi ctx' = ctx_hi ctx"
proof -
  let ?n = "length data" and ?sz = "of_nat (length data) :: 64 word"
  let ?k = "64 * (?n div 64)"
  have u: "unat ?sz = ?n" using assms(2) by (simp add: unat_of_nat_eq)
  have le: "64 \<le> ?sz \<longleftrightarrow> 64 \<le> ?n" by (simp add: word_le_nat_alt u)
  have um: "unat (of_nat (?n mod 64) :: 64 word) = ?n mod 64"
    by (simp add: unat_of_nat_eq)
  have copy: "mem_copy (ctx_buffer c) 0 rest (length rest) = Inr (rest @ drop (length rest) (ctx_buffer c))"
    if "md5_arrays c" "length rest < 64" for c rest
    using that by (simp add: mem_copy_ok md5_arrays_def)
  show ?thesis
  proof (cases "64 \<le> ?n")
    case True
    have k: "0 < ?n div 64" "?k \<le> ?n" using True by (simp_all add: div_greater_zero_iff)
    then have k2: "?k < 2 ^ 64" using assms(2) by linarith
    note whole = whole_blocks [OF refl, where m = data]
    obtain c where c: "md5_body ctx data (of_nat ?k) = Inr (c, md5_rest data)"
      "md5_regs_of c = rfc_blocks (md5_regs_of ctx) data" "md5_arrays c"
      "ctx_buffer c = ctx_buffer ctx" "ctx_lo c = ctx_lo ctx" "ctx_hi c = ctx_hi ctx"
      using md5_body_rfc [OF assms(1) k k2] unfolding whole [symmetric] by blast
    have "md5_update_blocks ctx data ?sz =
        Inr (c\<lparr>ctx_buffer := md5_rest data @ drop (length (md5_rest data)) (ctx_buffer c)\<rparr>)"
      using True c(1) copy [OF c(3), of "md5_rest data"]
      unfolding md5_update_blocks_def word_and_not_63 word_and_63 u
      by (simp add: le um length_md5_rest)
    with c show ?thesis
      by - (intro exI conjI, assumption, simp_all add: md5_arrays_def md5_regs_of_def length_md5_rest)
  next
    case False
    then have "md5_update_blocks ctx data ?sz =
        Inr (ctx\<lparr>ctx_buffer := data @ drop (length data) (ctx_buffer ctx)\<rparr>)"
      using copy [OF assms(1), of data] by (simp add: md5_update_blocks_def le u)
    with False assms show ?thesis
      by - (intro exI conjI, assumption, simp_all add: md5_arrays_def md5_regs_of_def)
  qed
qed

lemma ucast_of_nat_up:
  "a < 2 ^ LENGTH('a) \<Longrightarrow> (ucast (of_nat a :: 'a::len word) :: 'b::len word) = of_nat a"
  by (rule trans [OF of_nat_unat [symmetric]]) (simp only: unat_of_nat_eq)

lemma ucast_of_nat_down: "(ucast (of_nat a :: 64 word) :: 32 word) = of_nat a"
proof -
  have "(ucast (of_nat a :: 64 word) :: 32 word) = of_nat (a mod 2 ^ 64)"
    by (rule trans [OF of_nat_unat [symmetric]]) (simp add: unat_of_nat)
  also have "\<dots> = (of_nat a :: 32 word)"
    by (simp add: word_of_nat_eq_iff take_bit_eq_mod mod_mod_cancel)
  finally show ?thesis .
qed

text \<open>The length counter: 29 bits in \<open>lo\<close>, the carry and the rest in \<open>hi\<close>.\<close>

lemma md5_count:
  fixes l n :: nat and lo hi lo' hi' :: "32 word" and sz :: "64 word"
  assumes lo: "lo = of_nat (l mod 2 ^ 29)" and hi: "hi = of_nat (l div 2 ^ 29)"
    and sz: "sz = of_nat n" and n: "n < 2 ^ 64"
    and lo': "lo' = ucast ((ucast lo + sz) AND 0x1fffffff)"
    and hi': "hi' = ucast (ucast (if lo' < lo then hi + 1 else hi) + drop_bit 29 sz)"
  shows "lo' = of_nat ((l + n) mod 2 ^ 29)" "hi' = of_nat ((l + n) div 2 ^ 29)"
proof -
  have "ucast lo = (of_nat (l mod 2 ^ 29) :: 64 word)"
    unfolding lo by (rule ucast_of_nat_up) (simp add: less_le_trans [OF mod_less_divisor])
  then have "ucast lo + sz = of_nat (l mod 2 ^ 29 + n)" by (simp add: sz)
  moreover have mask: "w AND 0x1fffffff = of_nat (unat w mod 2 ^ 29)" for w :: "64 word"
  proof -
    have "w AND mask 29 = of_nat (unat w mod 2 ^ 29)"
      by (simp only: unat_take_bit_word [symmetric] of_nat_unat ucast_id take_bit_eq_mask)
    then show ?thesis by (simp add: mask_eq_exp_minus_1)
  qed
  ultimately have "(ucast lo + sz) AND 0x1fffffff = of_nat ((l mod 2 ^ 29 + n) mod 2 ^ 64 mod 2 ^ 29)"
    by (simp only: mask unat_of_nat) simp
  also have "(l mod 2 ^ 29 + n) mod 2 ^ 64 mod 2 ^ 29 = (l mod 2 ^ 29 + n) mod 2 ^ 29"
    by (rule mod_mod_cancel) (simp add: le_imp_power_dvd)
  also have "\<dots> = (l + n) mod 2 ^ 29" by (rule mod_add_left_eq)
  finally show lo1: "lo' = of_nat ((l + n) mod 2 ^ 29)"
    unfolding lo' by (simp only: ucast_of_nat_down)
  have "lo' < lo \<longleftrightarrow> (l + n) mod 2 ^ 29 < l mod 2 ^ 29"
    unfolding lo1 lo word_less_nat_alt by (simp add: unat_of_nat)
  moreover have "(l + n) mod 2 ^ 29 < l mod 2 ^ 29 \<longleftrightarrow> 2 ^ 29 \<le> l mod 2 ^ 29 + n mod 2 ^ 29"
  proof -
    have e: "(l + n) mod 2 ^ 29 = (l mod 2 ^ 29 + n mod 2 ^ 29) mod 2 ^ 29" by (simp add: mod_add_eq)
    have b: "l mod 2 ^ 29 < 2 ^ 29" "n mod 2 ^ 29 < 2 ^ 29" by simp_all
    then show ?thesis unfolding e by (cases "l mod 2 ^ 29 + n mod 2 ^ 29 < 2 ^ 29")
        (auto simp: le_mod_geq)
  qed
  ultimately have carry: "lo' < lo \<longleftrightarrow> 2 ^ 29 \<le> l mod 2 ^ 29 + n mod 2 ^ 29" by simp
  have d: "(l + n) div 2 ^ 29 = l div 2 ^ 29 + (if lo' < lo then 1 else 0) + n div 2 ^ 29"
  proof -
    have "(l mod 2 ^ 29 + n mod 2 ^ 29) div 2 ^ 29 = (if lo' < lo then 1 else 0)"
      unfolding carry by (simp add: div_eq_0_iff div_nat_eqI)
    then show ?thesis by (simp add: div_add1_eq [of l n])
  qed
  have sz': "drop_bit 29 sz = of_nat (n div 2 ^ 29)"
  proof -
    have "unat sz = n" unfolding sz by (rule unat_of_nat_eq) (use n in simp)
    then have "unat (drop_bit 29 sz) = n div 2 ^ 29" by (simp only: unat_drop_bit_word)
    then show ?thesis by (metis of_nat_unat ucast_id)
  qed
  let ?h = "if lo' < lo then hi + 1 else hi"
  have "hi' = (ucast (of_nat (unat ?h + n div 2 ^ 29) :: 64 word) :: 32 word)"
    unfolding hi' sz' by simp
  also have "\<dots> = ?h + of_nat (n div 2 ^ 29)"
    unfolding ucast_of_nat_down by simp
  also have "\<dots> = of_nat ((l + n) div 2 ^ 29)"
    unfolding d hi by simp
  finally show "hi' = of_nat ((l + n) div 2 ^ 29)" .
qed

lemma rfc_blocks_one: "length x = 64 \<Longrightarrow> rfc_blocks st x = rfc_compress x st"
  using rfc_blocks_step [of x st "[]"] by simp

lemma md5_inv_used:
  assumes "md5_inv c m"
  shows "ucast (ctx_lo c AND 0x3f) = (of_nat (length m mod 64) :: 64 word)"
    "unat (ctx_lo c AND 0x3f) = length m mod 64"
proof -
  have "length m mod 2 ^ 29 < 2 ^ 32" by (rule less_le_trans [OF mod_less_divisor]) simp_all
  then have "unat (ctx_lo c) = length m mod 2 ^ 29"
    using assms unfolding md5_inv_def by (simp add: unat_of_nat)
  then have "unat (ctx_lo c) mod 64 = length m mod 64" by (simp add: mod_mod_cancel)
  then have "ctx_lo c AND 0x3f = of_nat (length m mod 64)" by (simp add: word_and_63)
  then show "ucast (ctx_lo c AND 0x3f) = (of_nat (length m mod 64) :: 64 word)"
    "unat (ctx_lo c AND 0x3f) = length m mod 64"
    by (simp_all only:) (rule ucast_of_nat_up unat_of_nat_eq, simp add: less_le_trans [OF mod_less_divisor])+
qed

text \<open>What \<open>MD5_Update\<close> does behind the counters, on a context that holds \<open>l\<close> bytes.\<close>

lemma md5_update_inv:
  assumes inv: "md5_inv c m" and d: "length d < 2 ^ 64"
  shows "\<exists>c'. MD5_Update c d (of_nat (length d)) = Inr c' \<and> md5_inv c' (m @ d)"
proof -
  let ?n = "length d" and ?sz = "of_nat (length d) :: 64 word"
  define u where "u = length m mod 64"
  have u: "u < 64" "length (md5_rest m) = u" by (simp_all add: u_def length_md5_rest)
  have arr: "md5_arrays c" and regs: "md5_regs_of c = rfc_blocks rfc_iv m"
    and buf: "take u (ctx_buffer c) = md5_rest m"
    using inv by (auto simp: md5_inv_def u_def)
  have sz: "unat ?sz = ?n" by (rule unat_of_nat_eq) (use d in simp)
  define lo' where "lo' = (ucast ((ucast (ctx_lo c) + ?sz) AND 0x1fffffff) :: 32 word)"
  define hi' where "hi' =
    (ucast (ucast (if lo' < ctx_lo c then ctx_hi c + 1 else ctx_hi c) + drop_bit 29 ?sz) :: 32 word)"
  define c1 where "c1 = c\<lparr>ctx_lo := lo', ctx_hi := hi'\<rparr>"
  have cnt: "lo' = of_nat (length (m @ d) mod 2 ^ 29)" "hi' = of_nat (length (m @ d) div 2 ^ 29)"
    using md5_count [OF _ _ refl d lo'_def hi'_def, of "length m"] inv
    by (simp_all add: md5_inv_def)
  have c1: "md5_arrays c1" "md5_regs_of c1 = rfc_blocks rfc_iv m" "ctx_buffer c1 = ctx_buffer c"
    "ctx_lo c1 = lo'" "ctx_hi c1 = hi'"
    using arr regs by (simp_all add: c1_def md5_arrays_def md5_regs_of_def)
  have upd: "MD5_Update c d ?sz =
      (if of_nat u \<noteq> (0 :: 64 word) then
         if ?sz < 64 - of_nat u then
           res_bind (mem_copy (ctx_buffer c1) u d ?n) (\<lambda>buf. Inr (c1\<lparr>ctx_buffer := buf\<rparr>))
         else
           res_bind (mem_copy (ctx_buffer c1) u d (64 - u)) (\<lambda>buf.
             res_bind (md5_body (c1\<lparr>ctx_buffer := buf\<rparr>) buf 64) (\<lambda>(ctx, _).
               md5_update_blocks ctx (drop (64 - u) d) (?sz - (64 - of_nat u))))
       else md5_update_blocks c1 d ?sz)"
  proof -
    have "unat (64 - of_nat u :: 64 word) = 64 - u" "unat (of_nat u :: 64 word) = u"
      using u by (simp_all add: unat_sub_if_size unat_of_nat word_size)
    then show ?thesis
      unfolding MD5_Update_def md5_inv_used(1) [OF inv] Let_def u_def [symmetric]
      by (simp add: c1_def lo'_def hi'_def sz)
  qed
  have goal: "md5_inv c' (m @ d)"
    if "md5_arrays c'" "md5_regs_of c' = rfc_blocks rfc_iv (m @ d)"
      "take (length (m @ d) mod 64) (ctx_buffer c') = md5_rest (m @ d)"
      "ctx_lo c' = lo'" "ctx_hi c' = hi'" for c'
    using that cnt by (simp add: md5_inv_def)
  have nz: "of_nat u \<noteq> (0 :: 64 word) \<longleftrightarrow> u \<noteq> 0"
    using u by (auto simp: word_of_nat_eq_0_iff dest: dvd_imp_le)
  have lt: "?sz < 64 - of_nat u \<longleftrightarrow> ?n < 64 - u"
    using u d by (simp add: word_less_nat_alt sz unat_sub_if_size unat_of_nat word_size)
  consider "u = 0" | "u \<noteq> 0" "?n < 64 - u" | "u \<noteq> 0" "64 - u \<le> ?n" by linarith
  then show ?thesis
  proof cases
    case 1
    with u have rest: "md5_rest m = []" "length (m @ d) mod 64 = ?n mod 64"
      by (simp_all add: u_def mod_add_left_eq [of "length m", symmetric])
    from md5_update_blocks_rfc [OF c1(1) d] obtain c' where
      "md5_update_blocks c1 d ?sz = Inr c'" "md5_arrays c'"
      "md5_regs_of c' = rfc_blocks (md5_regs_of c1) d"
      "take (?n mod 64) (ctx_buffer c') = md5_rest d" "ctx_lo c' = lo'" "ctx_hi c' = hi'"
      using c1 by auto
    with upd 1 c1 rest show ?thesis
      by (intro exI [of _ c'] conjI goal)
        (simp_all add: rfc_blocks_append [of _ m d] md5_rest_append [of m d])
  next
    case 2
    define c' where "c' = c1\<lparr>ctx_buffer := take u (ctx_buffer c) @ d @ drop (u + ?n) (ctx_buffer c)\<rparr>"
    have "MD5_Update c d ?sz = Inr c'"
      using 2 arr by (simp add: upd nz lt c1 mem_copy_ok md5_arrays_def c'_def)
    moreover have "md5_inv c' (m @ d)"
    proof (rule goal)
      have "length (m @ d) mod 64 = u + ?n"
        using 2 by (simp add: u_def mod_add_left_eq [of "length m", symmetric] del: mod_add_left_eq)
      then show "take (length (m @ d) mod 64) (ctx_buffer c') = md5_rest (m @ d)"
        using 2 u arr by (simp add: c'_def buf md5_rest_append [of m d] md5_arrays_def)
    qed (use 2 u c1 arr in \<open>simp_all add: c'_def md5_arrays_def md5_regs_of_def rfc_blocks_append [of _ m d]\<close>)
    ultimately show ?thesis by blast
  next
    case 3
    define x where "x = md5_rest m @ take (64 - u) d"
    define y where "y = drop (64 - u) d"
    have x: "length x = 64" "md5_rest m @ d = x @ y" using 3 u by (simp_all add: x_def y_def)
    have cp: "mem_copy (ctx_buffer c1) u d (64 - u) = Inr x"
      using 3 u arr by (simp add: c1 mem_copy_ok buf x_def md5_arrays_def)
    obtain c2 p where c2: "md5_body (c1\<lparr>ctx_buffer := x\<rparr>) x 64 = Inr (c2, p)"
      "md5_regs_of c2 = rfc_blocks (md5_regs_of c1) x" "md5_arrays c2" "ctx_lo c2 = lo'" "ctx_hi c2 = hi'"
      using md5_body_buffer [of "c1\<lparr>ctx_buffer := x\<rparr>"] c1 x(1)
      by (auto simp: md5_arrays_def md5_regs_of_def)
    have szy: "?sz - (64 - of_nat u) = of_nat (length y)" "length y < 2 ^ 64"
      using 3 u d by (simp_all add: y_def of_nat_diff)
    obtain c' where c': "md5_update_blocks c2 y (of_nat (length y)) = Inr c'" "md5_arrays c'"
      "md5_regs_of c' = rfc_blocks (md5_regs_of c2) y"
      "take (length y mod 64) (ctx_buffer c') = md5_rest y" "ctx_lo c' = lo'" "ctx_hi c' = hi'"
      using md5_update_blocks_rfc [OF c2(3) szy(2)] c2 by auto
    have "MD5_Update c d ?sz = Inr c'"
      using 3 by (simp add: upd nz lt cp c2(1) szy(1) c'(1) flip: y_def)
    moreover have "md5_inv c' (m @ d)"
    proof (rule goal)
      have "length (m @ d) mod 64 = length (md5_rest m @ d) mod 64"
        by (simp add: length_md5_rest mod_add_left_eq)
      also have "\<dots> = length y mod 64" unfolding x(2) using x(1) by simp
      finally show "take (length (m @ d) mod 64) (ctx_buffer c') = md5_rest (m @ d)"
        using c' x by (simp add: md5_rest_append [of m d] md5_rest_step)
    qed (use c' c2 c1 x in \<open>simp_all add: rfc_blocks_append [of _ m d] rfc_blocks_step rfc_blocks_one\<close>)
    ultimately show ?thesis by blast
  qed
qed

section \<open>The digest\<close>

lemma ucast_drop_bit: "(ucast (drop_bit k w) :: 8 word) = of_nat (unat w div 2 ^ k)" for w :: "32 word"
  by (rule trans [OF of_nat_unat [symmetric]]) (simp only: unat_drop_bit_word)

lemma word_bytes_map: "word_bytes w = map (\<lambda>i. of_nat (unat w div 256 ^ i)) [0..<4]"
proof -
  have "[0..<4] = [0, 1, 2, 3 :: nat]" by (simp add: upt_rec)
  then show ?thesis
    using ucast_drop_bit [of 0 w] ucast_drop_bit [of 8 w] ucast_drop_bit [of 16 w]
      ucast_drop_bit [of 24 w]
    by (simp add: word_bytes_def)
qed

lemma low_byte: "k + 8 \<le> n \<Longrightarrow> (of_nat (x mod 2 ^ n div 2 ^ k) :: 8 word) = of_nat (x div 2 ^ k)"
  unfolding word_of_nat_eq_iff
  by (simp add: take_bit_take_bit drop_bit_take_bit flip: take_bit_eq_mod drop_bit_eq_div)

lemma length_bytes:
  assumes "md5_inv c m"
  shows "word_bytes (push_bit 3 (ctx_lo c)) @ word_bytes (ctx_hi c) =
    map (\<lambda>i. of_nat (8 * length m div 256 ^ i)) [0..<8]"
proof -
  let ?l = "length m"
  have "8 * (?l mod 2 ^ 29) = (8 * ?l) mod 2 ^ 32" by (simp add: mult_mod_right)
  moreover have "push_bit 3 (ctx_lo c) = of_nat (8 * (?l mod 2 ^ 29))"
    using assms by (simp add: md5_inv_def push_bit_eq_mult)
  ultimately have lo: "unat (push_bit 3 (ctx_lo c)) = 8 * ?l mod 2 ^ 32"
    by (simp add: unat_of_nat)
  have hi: "unat (ctx_hi c) = 8 * ?l div 2 ^ 32 mod 2 ^ 32"
  proof -
    have "8 * ?l div 2 ^ 32 = ?l div 2 ^ 29"
      using div_mult_mult1 [of "8 :: nat" ?l "2 ^ 29"] by simp
    then show ?thesis using assms by (simp add: md5_inv_def unat_of_nat)
  qed
  have "[0..<4] = [0, 1, 2, 3 :: nat]" "[0..<8] = [0, 1, 2, 3, 4, 5, 6, 7 :: nat]"
    by (simp_all add: upt_rec)
  then show ?thesis
    unfolding word_bytes_map lo hi
    using low_byte [of 0 32 "8 * ?l"] low_byte [of 8 32 "8 * ?l"] low_byte [of 16 32 "8 * ?l"]
      low_byte [of 24 32 "8 * ?l"] low_byte [of 0 32 "8 * ?l div 2 ^ 32"]
      low_byte [of 8 32 "8 * ?l div 2 ^ 32"] low_byte [of 16 32 "8 * ?l div 2 ^ 32"]
      low_byte [of 24 32 "8 * ?l div 2 ^ 32"]
    by (simp add: div_mult2_eq [symmetric])
qed

lemma length_word_bytes [simp]: "length (word_bytes w) = 4"
  by (simp add: word_bytes_def)

text \<open>The last block: the length behind 56 bytes of the buffer.\<close>

definition md5_last :: "md5_ctx \<Rightarrow> 8 word list \<Rightarrow> md5_ctx" where
  "md5_last c p = c\<lparr>ctx_lo := push_bit 3 (ctx_lo c), ctx_buffer :=
     p @ word_bytes (push_bit 3 (ctx_lo c)) @ word_bytes (ctx_hi c)\<rparr>"

definition md5_cleared :: md5_ctx where
  "md5_cleared = \<lparr>ctx_lo = 0, ctx_hi = 0, ctx_a = 0, ctx_b = 0, ctx_c = 0, ctx_d = 0,
     ctx_buffer = replicate 64 0, ctx_block = replicate 16 0\<rparr>"

lemma md5_final_last:
  assumes "md5_arrays c" "length p = 56"
  shows "\<exists>c2 q. md5_body (md5_last c p) (ctx_buffer (md5_last c p)) 64 = Inr (c2, q) \<and>
    md5_regs_of c2 = rfc_blocks (md5_regs_of c)
      (p @ word_bytes (push_bit 3 (ctx_lo c)) @ word_bytes (ctx_hi c))"
proof -
  have "md5_arrays (md5_last c p)" "md5_regs_of (md5_last c p) = md5_regs_of c"
    using assms by (simp_all add: md5_last_def md5_arrays_def md5_regs_of_def)
  with md5_body_buffer [of "md5_last c p"] show ?thesis
    by (auto simp: md5_last_def)
qed

definition md5_digest :: "md5_regs \<Rightarrow> 8 word list" where
  "md5_digest = (\<lambda>(a, b, c, d). word_bytes a @ word_bytes b @ word_bytes c @ word_bytes d)"

lemma md5_digest_regs:
  "word_bytes (ctx_a c) @ word_bytes (ctx_b c) @ word_bytes (ctx_c c) @ word_bytes (ctx_d c) =
   md5_digest (md5_regs_of c)"
  by (simp add: md5_digest_def md5_regs_of_def)

lemma rfc_md5_digest: "rfc_md5 m = md5_digest (rfc_blocks rfc_iv (rfc_pad m))"
  by (simp add: rfc_md5_def md5_digest_def word_bytes_map split: prod.split)

lemma md5_final_inv:
  assumes "md5_inv c m"
  shows "MD5_Final c = Inr (rfc_md5 m, md5_cleared)"
proof -
  define u where "u = length m mod 64"
  have u: "u < 64" "length (md5_rest m) = u" by (simp_all add: u_def length_md5_rest)
  have arr: "md5_arrays c" "length (ctx_buffer c) = 64" and regs: "md5_regs_of c = rfc_blocks rfc_iv m"
    and buf: "take u (ctx_buffer c) = md5_rest m"
    using assms by (auto simp: md5_inv_def u_def md5_arrays_def)
  define L where "L = word_bytes (push_bit 3 (ctx_lo c)) @ word_bytes (ctx_hi c)"
  have L: "length L = 8" by (simp add: L_def)
  define s where "s = md5_rest m @ [0x80]"
  have s: "length s = u + 1" using u by (simp add: s_def)
  have w: "arr_write (ctx_buffer c) (int u) 0x80 = Inr (s @ drop (u + 1) (ctx_buffer c))"
    using u arr by (simp add: arr_write_ok s_def upd_conv_take_nth_drop buf)
  have pad: "rfc_blocks rfc_iv (rfc_pad m) =
      rfc_blocks (md5_regs_of c) (s @ replicate ((119 - u) mod 64) 0 @ L)"
    using length_bytes [OF assms]
    by (simp add: rfc_pad_def rfc_blocks_append [of rfc_iv m] regs u_def L_def s_def)
  have fin: "MD5_Final c = Inr (md5_digest (rfc_blocks (md5_regs_of c1) (p @ L)), md5_cleared)"
    if c1: "md5_arrays c1" "ctx_lo c1 = ctx_lo c" "ctx_hi c1 = ctx_hi c" and p: "length p = 56"
      and eq: "MD5_Final c =
        res_bind (mem_copy (p @ q) 56 (word_bytes (push_bit 3 (ctx_lo c)) @ word_bytes (ctx_hi c)) 8) (\<lambda>buf.
        res_bind (md5_body (c1\<lparr>ctx_lo := push_bit 3 (ctx_lo c1), ctx_buffer := buf\<rparr>) buf 64) (\<lambda>(ctx, _).
          Inr (word_bytes (ctx_a ctx) @ word_bytes (ctx_b ctx) @
               word_bytes (ctx_c ctx) @ word_bytes (ctx_d ctx), md5_cleared)))"
      and q: "length q = 8" for c1 p q
  proof -
    have "mem_copy (p @ q) 56 L 8 = Inr (p @ L)" using p q L by (simp add: mem_copy_ok)
    moreover obtain c2 r where "md5_body (md5_last c1 p) (p @ L) 64 = Inr (c2, r)"
      "md5_regs_of c2 = rfc_blocks (md5_regs_of c1) (p @ L)"
      using md5_final_last [OF c1(1) p] c1 by (auto simp: L_def md5_last_def)
    ultimately show ?thesis
      using eq c1 by (simp add: md5_last_def md5_digest_regs flip: L_def)
  qed
  have shape: "MD5_Final c =
      res_bind
        (if 55 < u then
           res_bind (md5_body (c\<lparr>ctx_buffer := s @ replicate (63 - u) 0\<rparr>) (s @ replicate (63 - u) 0) 64)
             (\<lambda>(ctx, _). Inr (ctx, 0, 64))
         else Inr (c\<lparr>ctx_buffer := s @ drop (u + 1) (ctx_buffer c)\<rparr>, u + 1, 63 - u))
        (\<lambda>(ctx, used, free).
           res_bind (mem_set (ctx_buffer ctx) used 0 (free - 8)) (\<lambda>buf.
           res_bind (mem_copy buf 56 (word_bytes (push_bit 3 (ctx_lo ctx)) @ word_bytes (ctx_hi ctx)) 8) (\<lambda>buf.
           res_bind (md5_body (ctx\<lparr>ctx_lo := push_bit 3 (ctx_lo ctx), ctx_buffer := buf\<rparr>) buf 64) (\<lambda>(ctx, _).
             Inr (word_bytes (ctx_a ctx) @ word_bytes (ctx_b ctx) @
                  word_bytes (ctx_c ctx) @ word_bytes (ctx_d ctx), md5_cleared)))))"
  proof -
    have "63 - u < 8 \<longleftrightarrow> 55 < u" using u by auto
    moreover have "mem_set (s @ drop (u + 1) (ctx_buffer c)) (u + 1) 0 (63 - u) =
        Inr (s @ replicate (63 - u) 0)"
      using u s arr by (simp add: mem_set_ok)
    ultimately show ?thesis
      unfolding MD5_Final_def md5_inv_used(2) [OF assms] Let_def u_def [symmetric] w
      by (simp add: md5_cleared_def)
  qed
  show ?thesis
  proof (cases "55 < u")
    case True
    define x where "x = s @ replicate (63 - u) 0"
    have x: "length x = 64" using u s by (simp add: x_def)
    obtain c1 q where c1: "md5_body (c\<lparr>ctx_buffer := x\<rparr>) x 64 = Inr (c1, q)"
      "md5_regs_of c1 = rfc_blocks (md5_regs_of c) x" "md5_arrays c1"
      "ctx_lo c1 = ctx_lo c" "ctx_hi c1 = ctx_hi c"
      using md5_body_buffer [of "c\<lparr>ctx_buffer := x\<rparr>"] arr x
      by (auto simp: md5_arrays_def md5_regs_of_def)
    have set0: "mem_set (ctx_buffer c1) 0 0 56 = Inr (replicate 56 0 @ drop 56 (ctx_buffer c1))"
      using c1 by (simp add: mem_set_ok md5_arrays_def)
    have "(119 - u) mod 64 = 63 - u + 56" using True u by simp
    then have e: "s @ replicate ((119 - u) mod 64) 0 @ L = x @ replicate 56 0 @ L"
      by (simp only: replicate_add x_def append_assoc)
    have "rfc_blocks (md5_regs_of c) (s @ replicate ((119 - u) mod 64) 0 @ L) =
        rfc_blocks (md5_regs_of c1) (replicate 56 0 @ L)"
      unfolding e rfc_blocks_step [OF x] c1(2) rfc_blocks_one [OF x] ..
    then show ?thesis unfolding rfc_md5_digest pad
      using True c1 x set0
      by (subst fin [of c1 "replicate 56 0" "drop 56 (ctx_buffer c1)"])
        (simp_all add: shape md5_arrays_def flip: x_def)
  next
    case False
    define c1 where "c1 = c\<lparr>ctx_buffer := s @ drop (u + 1) (ctx_buffer c)\<rparr>"
    have c1: "md5_arrays c1" "ctx_lo c1 = ctx_lo c" "ctx_hi c1 = ctx_hi c" "md5_regs_of c1 = md5_regs_of c"
      using arr s u by (simp_all add: c1_def md5_arrays_def md5_regs_of_def)
    have set0: "mem_set (s @ drop (u + 1) (ctx_buffer c)) (u + 1) 0 (55 - u) =
        Inr ((s @ replicate (55 - u) 0) @ drop 56 (ctx_buffer c))"
      using False s arr by (simp add: mem_set_ok)
    have "(119 - u) mod 64 = 55 - u" using False by (simp add: mod_if)
    then show ?thesis unfolding rfc_md5_digest pad
      using False c1 s arr set0
      by (subst fin [of c1 "s @ replicate (55 - u) 0" "drop 56 (ctx_buffer c)"])
        (simp_all add: shape, simp_all add: c1_def)
  qed
qed
lemma md5_init_inv: "md5_arrays c \<Longrightarrow> md5_inv (MD5_Init c) []"
  by (simp add: md5_inv_def MD5_Init_def md5_arrays_def md5_regs_of_def rfc_iv_def)

lemma md5bin_rfc:
  "md5_arrays c \<Longrightarrow> length d < 2 ^ 64 \<Longrightarrow> md5bin c d (of_nat (length d)) = Inr (rfc_md5 d)"
  using md5_update_inv [OF md5_init_inv, of c d]
  by (auto simp: md5bin_def md5_final_inv)

lemma md5file_loop_inv:
  assumes "0 < bufsiz" "bufsiz < 2 ^ 64" "md5_inv c m"
  shows "\<exists>c'. md5file_loop bufsiz c bs = Inr c' \<and> md5_inv c' (m @ bs)"
  using assms
proof (induction bufsiz c bs arbitrary: m rule: md5file_loop.induct)
  case (1 bufsiz c bs)
  show ?case
  proof (cases "bs = []")
    case True
    with "1.prems" show ?thesis by (subst md5file_loop.simps) simp
  next
    case False
    let ?len = "min bufsiz (length bs)"
    have pos: "0 < ?len" and len: "length (take ?len bs) = ?len" "?len < 2 ^ 64"
      using False "1.prems" by auto
    obtain c1 where c1: "MD5_Update c (take ?len bs) (of_nat ?len) = Inr c1"
      "md5_inv c1 (m @ take ?len bs)"
      using md5_update_inv [OF "1.prems"(3), of "take ?len bs"] len by auto
    obtain c' where "md5file_loop bufsiz c1 (drop ?len bs) = Inr c'"
      "md5_inv c' ((m @ take ?len bs) @ drop ?len bs)"
      using "1.IH" [OF refl pos, of c1] "1.prems" c1(2) by blast
    with pos c1 show ?thesis by (subst md5file_loop.simps) (simp add: Let_def)
  qed
qed

lemma md5_updates_inv:
  assumes "md5_inv c m" "\<forall>p \<in> set ps. length p < 2 ^ 64"
  shows "\<exists>c'. foldl (\<lambda>r p. res_bind r (\<lambda>c. MD5_Update c p (of_nat (length p)))) (Inr c) ps = Inr c' \<and>
    md5_inv c' (m @ concat ps)"
  using assms
proof (induction ps arbitrary: c m)
  case (Cons p ps)
  obtain c1 where "MD5_Update c p (of_nat (length p)) = Inr c1" "md5_inv c1 (m @ p)"
    using md5_update_inv [OF Cons.prems(1), of p] Cons.prems(2) by auto
  with Cons.IH [of c1 "m @ p"] Cons.prems(2) show ?case by auto
qed simp

lemma length_rfc_md5 [simp]: "length (rfc_md5 m) = 16"
  by (simp add: rfc_md5_digest md5_digest_def split: prod.split)

lemma md5_cleared_sizes [simp]:
  "length (ctx_buffer md5_cleared) = 64" "length (ctx_block md5_cleared) = 16"
  by (simp_all add: md5_cleared_def)

section \<open>Properties\<close>

text \<open>The sixty-four unrolled steps of \<open>body\<close> on a block are the compression function of
  RFC 1321, given by its round functions, index, shift and constant tables.\<close>

theorem md5_compress_is_rfc: "md5_body_round p st = rfc_compress p st"
  by (rule md5_body_round_rfc)

text \<open>C17: \<open>md5bin\<close> computes the RFC 1321 digest of its input, whatever the uninitialised context
  on the stack holds: no copy leaves its buffer, and padding and length are right at every
  length a \<open>size_t\<close> can have.\<close>

theorem md5bin_is_rfc1321:
  assumes "length (ctx_buffer c) = 64" "length (ctx_block c) = 16" "length d < 2 ^ 64"
  shows "md5bin c d (of_nat (length d)) = Inr (rfc_md5 d)"
  using assms by (intro md5bin_rfc) (simp_all add: md5_arrays_def)

theorem md5bin_is_rfc1321_witness:
  "md5bin md5_cleared [0x61, 0x62, 0x63] 3 = Inr (rfc_md5 [0x61, 0x62, 0x63])"
  using md5bin_is_rfc1321 [of md5_cleared "[0x61, 0x62, 0x63]"] by simp

text \<open>Updates are incremental: fed with any sequence of pieces, the context ends with the
  digest of their concatenation, and it is cleared.\<close>

theorem md5_incremental:
  assumes "length (ctx_buffer c) = 64" "length (ctx_block c) = 16" "\<forall>p \<in> set ps. length p < 2 ^ 64"
  shows "res_bind (foldl (\<lambda>r p. res_bind r (\<lambda>c. MD5_Update c p (of_nat (length p)))) (Inr (MD5_Init c)) ps)
      MD5_Final = Inr (rfc_md5 (concat ps), md5_cleared)"
proof -
  have "md5_inv (MD5_Init c) []" using assms by (intro md5_init_inv) (simp add: md5_arrays_def)
  from md5_updates_inv [OF this assms(3)] show ?thesis by (auto simp: md5_final_inv)
qed

theorem md5_incremental_witness:
  "res_bind (foldl (\<lambda>r p. res_bind r (\<lambda>c. MD5_Update c p (of_nat (length p)))) (Inr (MD5_Init md5_cleared))
      [[0x61], [], [0x62, 0x63]]) MD5_Final = Inr (rfc_md5 [0x61, 0x62, 0x63], md5_cleared)"
  using md5_incremental [of md5_cleared "[[0x61], [], [0x62, 0x63]]"] by simp

text \<open>The digest of a file read in pieces of \<open>BUFSIZ\<close> bytes is the hexadecimal RFC digest of
  its content, hence the digest \<open>md5\<close> gives for the same bytes in memory.\<close>

theorem md5file_is_md5:
  assumes "length (ctx_buffer c) = 64" "length (ctx_block c) = 16" "0 < bufsiz" "bufsiz < 2 ^ 64"
    "length file < 2 ^ 64"
  shows "md5file bufsiz c file = Inr (md5_hex (rfc_md5 file)) \<and>
    md5file bufsiz c file = md5 c file (of_nat (length file))"
proof -
  have arr: "md5_arrays c" using assms by (simp add: md5_arrays_def)
  obtain c' where "md5file_loop bufsiz (MD5_Init c) file = Inr c'" "md5_inv c' file"
    using md5file_loop_inv [OF assms(3,4) md5_init_inv [OF arr]] by auto
  then show ?thesis using assms(5) arr
    by (simp add: md5file_def md5_final_inv md5_def md5bin_rfc)
qed

theorem md5file_is_md5_witness:
  "md5file 2 md5_cleared [1, 2, 3] = md5 md5_cleared [1, 2, 3] 3"
  using md5file_is_md5 [of md5_cleared 2 "[1, 2, 3]", THEN conjunct2] by simp

text \<open>The model's digest of the three bytes of "abc" is the one RFC 1321 lists in its test suite.\<close>

theorem md5_abc:
  "md5 md5_cleared [0x61, 0x62, 0x63] 3 = Inr ''900150983cd24fb0d6963f7d28e17f72''"
proof -
  let ?p = "[0x61, 0x62, 0x63, 0x80] @ replicate 52 0 @ [24, 0, 0, 0, 0, 0, 0, 0] :: 8 word list"
  let ?b = "[0x80636261, 0, 0, 0, 0, 0, 0, 0, 0, 0, 0, 0, 0, 0, 24, 0] :: 32 word list"
  note eval = step_a_def step_b_def step_c_def step_d_def MD5_STEP_def MD5_F_def MD5_G_def
    MD5_H_def MD5_I_def
  have b: "map (md5_SET ?p) [0..<16] = ?b" by (simp add: md5_SET_def upt_rec nth_append)
  have r1: "md5_round1 ?p rfc_iv = (0xdda9b9a6, 0x72aff2e0, 0xe396856b, 0xa1051895)"
    unfolding md5_round1_def Let_def rfc_iv_def by (simp add: eval md5_SET_def nth_append)
  have r2: "md5_round2 ?b (0xdda9b9a6, 0x72aff2e0, 0xe396856b, 0xa1051895) =
      (0x790a77fb, 0x726342d3, 0xa62884aa, 0x9f47e4f8)"
    unfolding md5_round2_def Let_def by (simp add: eval)
  have r3: "md5_round3 ?b (0x790a77fb, 0x726342d3, 0xa62884aa, 0x9f47e4f8) =
      (0x7f2e507b, 0x7beb9700, 0x8fae6399, 0x99d9679d)"
    unfolding md5_round3_def Let_def by (simp add: eval)
  have r4: "md5_round4 ?b (0x7f2e507b, 0x7beb9700, 0x8fae6399, 0x99d9679d) =
      (0x310ade8f, 0xc08226b3, 0xe484b9d8, 0x624d8cb2)"
    unfolding md5_round4_def Let_def by (simp add: eval)
  have "md5_body_round ?p rfc_iv = (0x98500190, 0xb04fd23c, 0x7d3f96d6, 0x727fe128)"
    unfolding md5_body_round_def Let_def b r1 r2 r3 r4 by (simp add: rfc_iv_def)
  moreover have "rfc_blocks rfc_iv (rfc_pad [0x61, 0x62, 0x63]) = md5_body_round ?p rfc_iv"
    by (simp add: rfc_pad_def upt_rec rfc_blocks.simps flip: md5_body_round_rfc)
  ultimately have "rfc_md5 [0x61, 0x62, 0x63] =
      [0x90, 0x01, 0x50, 0x98, 0x3c, 0xd2, 0x4f, 0xb0, 0xd6, 0x96, 0x3f, 0x7d, 0x28, 0xe1, 0x7f, 0x72]"
    by (simp add: rfc_md5_digest md5_digest_def word_bytes_def)
  then show ?thesis
    using md5bin_rfc [of md5_cleared "[0x61, 0x62, 0x63]"]
    by (simp add: md5_def md5_arrays_def md5_hex_def hb2hex_def upt_rec char_of_def bit_0)
qed

lemma hb2hex_digit: "hb2hex b \<in> set ''0123456789abcdef''"
  and hb2hex_value: "hb2hex b = hb2hex b' \<Longrightarrow> b AND 0xF = b' AND 0xF"
proof -
  have f: "b AND 0xF = of_nat (unat b mod 16)" for b :: "8 word"
  proof -
    have "b AND mask 4 = of_nat (unat b mod 2 ^ 4)"
      by (simp only: unat_take_bit_word [symmetric] of_nat_unat ucast_id take_bit_eq_mask)
    then show ?thesis by (simp add: mask_eq_exp_minus_1)
  qed
  have u: "unat (of_nat (unat b mod 16) :: 8 word) = unat b mod 16" for b :: "8 word"
    by (rule unat_of_nat_eq) (simp add: less_le_trans [OF mod_less_divisor])
  have h: "hb2hex b = ''0123456789abcdef'' ! (unat b mod 16)" for b
  proof -
    have small: "k < 16 \<Longrightarrow> k \<in> {0, 1, 2, 3, 4, 5, 6, 7, 8, 9, 10, 11, 12, 13, 14, 15}" for k :: nat
      by (simp, presburger)
    have "unat b mod 16 \<in> {0, 1, 2, 3, 4, 5, 6, 7, 8, 9, 10, 11, 12, 13, 14, 15}"
      by (rule small) simp
    then show ?thesis
      unfolding hb2hex_def Let_def f word_less_nat_alt u
      by (elim insertE emptyE) (simp_all add: char_of_def bit_0)
  qed
  show "hb2hex b \<in> set ''0123456789abcdef''" unfolding h by (rule nth_mem) simp
  have "distinct ''0123456789abcdef''" by simp
  then show "hb2hex b = hb2hex b' \<Longrightarrow> b AND 0xF = b' AND 0xF"
    unfolding h f by (simp add: nth_eq_iff_index_eq del: distinct.simps)
qed

lemma byte_nibbles:
  "drop_bit 4 b AND 0xF = drop_bit 4 b' AND 0xF \<Longrightarrow> b AND 0xF = b' AND 0xF \<Longrightarrow> b = b'" for b b' :: "8 word"
proof -
  assume h: "drop_bit 4 b AND 0xF = drop_bit 4 b' AND 0xF" and l: "b AND 0xF = b' AND 0xF"
  have m: "w AND 0xF = take_bit 4 w" for w :: "8 word"
    by (simp add: take_bit_eq_mask mask_eq_exp_minus_1)
  show ?thesis
  proof (rule bit_word_eqI)
    fix n assume "n < LENGTH(8)"
    then consider "n < 4" | "4 \<le> n" "n - 4 < 4" by fastforce
    then show "bit b n = bit b' n"
    proof cases
      case 1
      with l show ?thesis unfolding m by (metis bit_take_bit_iff)
    next
      case 2
      then have "bit (take_bit 4 (drop_bit 4 w)) (n - 4) = bit w n" for w :: "8 word"
        by (simp add: bit_take_bit_iff bit_drop_bit_eq)
      with h show ?thesis unfolding m by metis
    qed
  qed
qed

lemma concat_pairs_eq:
  "concat (map (\<lambda>i. [f i, g i]) js) = concat (map (\<lambda>i. [f' i, g' i]) js) \<Longrightarrow>
   \<forall>i \<in> set js. f i = f' i \<and> g i = g' i"
proof (induction js)
  case (Cons j js)
  have h: "f j = f' j" "g j = g' j"
    and t: "concat (map (\<lambda>i. [f i, g i]) js) = concat (map (\<lambda>i. [f' i, g' i]) js)"
    using Cons.prems by (simp_all only: list.map concat.simps append.simps list.inject)
  from Cons.IH [OF t] h show ?case by (simp only: list.set ball_simps simp_thms)
qed simp

lemma md5_hex_digits: "(\<And>b. hb2hex b \<in> S) \<Longrightarrow> set (md5_hex x) \<subseteq> S"
  by (auto simp: md5_hex_def)

text \<open>A digest is written as 32 lower-case hexadecimal digits, and two digests with the same
  text are equal.\<close>

theorem md5_hex_injective:
  assumes "length x = 16" "length y = 16"
  shows "length (md5_hex x) = 32 \<and> set (md5_hex x) \<subseteq> set ''0123456789abcdef'' \<and>
    (md5_hex x = md5_hex y \<longrightarrow> x = y)"
proof (intro conjI impI)
  show "length (md5_hex x) = 32" by (simp add: md5_hex_def upt_rec)
  show "set (md5_hex x) \<subseteq> set ''0123456789abcdef''"
    by (rule md5_hex_digits) (rule hb2hex_digit)
  assume e: "md5_hex x = md5_hex y"
  have all: "\<forall>i \<in> set [0..<16]. hb2hex (drop_bit 4 (x ! i)) = hb2hex (drop_bit 4 (y ! i)) \<and>
      hb2hex (x ! i) = hb2hex (y ! i)"
    using e unfolding md5_hex_def by (rule concat_pairs_eq)
  have "x ! i = y ! i" if "i < 16" for i
  proof -
    from that have "i \<in> set [0..<16]" by simp
    note both = bspec [OF all this]
    show ?thesis
      by (rule byte_nibbles [OF hb2hex_value [OF conjunct1 [OF both]] hb2hex_value [OF conjunct2 [OF both]]])
  qed
  with assms show "x = y" by (intro nth_equalityI) simp_all
qed

theorem md5_hex_injective_witness: "length (md5_hex (replicate 16 0x5a)) = 32"
  using md5_hex_injective [of "replicate 16 0x5a" "replicate 16 0x5a"] by simp

end
