(* ===== verification/Randomizer.thy ===== *)
theory Randomizer
  imports Prelude "HOL-Library.Multiset"
begin

text \<open>
  The random order in which \<open>third/utils/copper.hpp\<close> tries the operations of a select: the
  generator \<open>thread_local_randomizer\<close> (xoshiro128++, four 32-bit words) and the functor
  \<open>fill_with_random_indices_impl\<close>, whose switches for two to five operations list every
  permutation and whose general case calls \<open>std::shuffle\<close>.
\<close>

section \<open>The generator\<close>

type_synonym seed = "32 word \<times> 32 word \<times> 32 word \<times> 32 word"

definition xxrotl :: "32 word \<Rightarrow> nat \<Rightarrow> 32 word" where
  "xxrotl x k = push_bit k x OR drop_bit (32 - k) x"

definition next_seed :: "seed \<Rightarrow> 32 word \<times> seed" where
  "next_seed = (\<lambda>(s0, s1, s2, s3).
     let result = xxrotl (s0 + s3) 7 + s0;
         t = push_bit 9 s1;
         s2 = s2 XOR s0;
         s3 = s3 XOR s1;
         s1 = s1 XOR s2;
         s0 = s0 XOR s3;
         s2 = s2 XOR t;
         s3 = xxrotl s3 11
     in (result, (s0, s1, s2, s3)))"

definition seed_xor :: "seed \<Rightarrow> seed \<Rightarrow> seed" where
  "seed_xor = (\<lambda>(a0, a1, a2, a3) (b0, b1, b2, b3). (a0 XOR b0, a1 XOR b1, a2 XOR b2, a3 XOR b3))"

definition JUMP :: "32 word list" where
  "JUMP = [0x8764000b, 0xf542d2d3, 0x6fa035c3, 0x77f2db5b]"

text \<open>One round of the inner loop of \<open>_jump_seed\<close>, on the accumulators and the seed.\<close>

definition jump_bit :: "32 word \<Rightarrow> nat \<Rightarrow> seed \<times> seed \<Rightarrow> seed \<times> seed" where
  "jump_bit jump b = (\<lambda>(acc, s).
     (if jump AND push_bit b 1 \<noteq> 0 then seed_xor acc s else acc, snd (next_seed s)))"

definition jump_seed :: "seed \<Rightarrow> seed" where
  "jump_seed s =
     fst (fold (\<lambda>jump st. fold (jump_bit jump) [0..<32] st) JUMP ((0, 0, 0, 0), s))"

text \<open>\<open>create\<close> returns an engine with the global seed and jumps the global seed ahead.\<close>

definition create_randomizer :: "seed \<Rightarrow> seed \<times> seed" where
  "create_randomizer global_seed = (global_seed, jump_seed global_seed)"

definition engine :: "seed \<Rightarrow> 32 word \<Rightarrow> 32 word \<times> seed" where
  "engine s bound = (case next_seed s of (r, s') \<Rightarrow> (r mod bound, s'))"

section \<open>The tables\<close>

definition indices2 :: "nat list list" where
  "indices2 =
    [[0, 1], [1, 0]]"

definition indices3 :: "nat list list" where
  "indices3 =
    [[0, 1, 2], [0, 2, 1], [1, 0, 2], [1, 2, 0], [2, 0, 1], [2, 1, 0]]"

definition indices4 :: "nat list list" where
  "indices4 =
    [[0, 1, 2, 3], [0, 1, 3, 2], [0, 2, 1, 3], [0, 2, 3, 1], [0, 3, 1, 2], [0, 3, 2, 1],
     [1, 0, 2, 3], [1, 0, 3, 2], [1, 2, 0, 3], [1, 2, 3, 0], [1, 3, 0, 2], [1, 3, 2, 0],
     [2, 0, 1, 3], [2, 0, 3, 1], [2, 1, 0, 3], [2, 1, 3, 0], [2, 3, 0, 1], [2, 3, 1, 0],
     [3, 0, 1, 2], [3, 0, 2, 1], [3, 1, 0, 2], [3, 1, 2, 0], [3, 2, 0, 1], [3, 2, 1, 0]]"

definition indices5_0 :: "nat list list" where
  "indices5_0 =
    [[0, 1, 2, 3, 4], [0, 1, 2, 4, 3], [0, 1, 3, 2, 4], [0, 1, 3, 4, 2], [0, 1, 4, 2, 3], [0, 1, 4, 3, 2],
     [0, 2, 1, 3, 4], [0, 2, 1, 4, 3], [0, 2, 3, 1, 4], [0, 2, 3, 4, 1], [0, 2, 4, 1, 3], [0, 2, 4, 3, 1],
     [0, 3, 1, 2, 4], [0, 3, 1, 4, 2], [0, 3, 2, 1, 4], [0, 3, 2, 4, 1], [0, 3, 4, 1, 2], [0, 3, 4, 2, 1],
     [0, 4, 1, 2, 3], [0, 4, 1, 3, 2], [0, 4, 2, 1, 3], [0, 4, 2, 3, 1], [0, 4, 3, 1, 2], [0, 4, 3, 2, 1]]"

definition indices5_1 :: "nat list list" where
  "indices5_1 =
    [[1, 0, 2, 3, 4], [1, 0, 2, 4, 3], [1, 0, 3, 2, 4], [1, 0, 3, 4, 2], [1, 0, 4, 2, 3], [1, 0, 4, 3, 2],
     [1, 2, 0, 3, 4], [1, 2, 0, 4, 3], [1, 2, 3, 0, 4], [1, 2, 3, 4, 0], [1, 2, 4, 0, 3], [1, 2, 4, 3, 0],
     [1, 3, 0, 2, 4], [1, 3, 0, 4, 2], [1, 3, 2, 0, 4], [1, 3, 2, 4, 0], [1, 3, 4, 0, 2], [1, 3, 4, 2, 0],
     [1, 4, 0, 2, 3], [1, 4, 0, 3, 2], [1, 4, 2, 0, 3], [1, 4, 2, 3, 0], [1, 4, 3, 0, 2], [1, 4, 3, 2, 0]]"

definition indices5_2 :: "nat list list" where
  "indices5_2 =
    [[2, 0, 1, 3, 4], [2, 0, 1, 4, 3], [2, 0, 3, 1, 4], [2, 0, 3, 4, 1], [2, 0, 4, 1, 3], [2, 0, 4, 3, 1],
     [2, 1, 0, 3, 4], [2, 1, 0, 4, 3], [2, 1, 3, 0, 4], [2, 1, 3, 4, 0], [2, 1, 4, 0, 3], [2, 1, 4, 3, 0],
     [2, 3, 0, 1, 4], [2, 3, 0, 4, 1], [2, 3, 1, 0, 4], [2, 3, 1, 4, 0], [2, 3, 4, 0, 1], [2, 3, 4, 1, 0],
     [2, 4, 0, 1, 3], [2, 4, 0, 3, 1], [2, 4, 1, 0, 3], [2, 4, 1, 3, 0], [2, 4, 3, 0, 1], [2, 4, 3, 1, 0]]"

definition indices5_3 :: "nat list list" where
  "indices5_3 =
    [[3, 0, 1, 2, 4], [3, 0, 1, 4, 2], [3, 0, 2, 1, 4], [3, 0, 2, 4, 1], [3, 0, 4, 1, 2], [3, 0, 4, 2, 1],
     [3, 1, 0, 2, 4], [3, 1, 0, 4, 2], [3, 1, 2, 0, 4], [3, 1, 2, 4, 0], [3, 1, 4, 0, 2], [3, 1, 4, 2, 0],
     [3, 2, 0, 1, 4], [3, 2, 0, 4, 1], [3, 2, 1, 0, 4], [3, 2, 1, 4, 0], [3, 2, 4, 0, 1], [3, 2, 4, 1, 0],
     [3, 4, 0, 1, 2], [3, 4, 0, 2, 1], [3, 4, 1, 0, 2], [3, 4, 1, 2, 0], [3, 4, 2, 0, 1], [3, 4, 2, 1, 0]]"

definition indices5_4 :: "nat list list" where
  "indices5_4 =
    [[4, 0, 1, 2, 3], [4, 0, 1, 3, 2], [4, 0, 2, 1, 3], [4, 0, 2, 3, 1], [4, 0, 3, 1, 2], [4, 0, 3, 2, 1],
     [4, 1, 0, 2, 3], [4, 1, 0, 3, 2], [4, 1, 2, 0, 3], [4, 1, 2, 3, 0], [4, 1, 3, 0, 2], [4, 1, 3, 2, 0],
     [4, 2, 0, 1, 3], [4, 2, 0, 3, 1], [4, 2, 1, 0, 3], [4, 2, 1, 3, 0], [4, 2, 3, 0, 1], [4, 2, 3, 1, 0],
     [4, 3, 0, 1, 2], [4, 3, 0, 2, 1], [4, 3, 1, 0, 2], [4, 3, 1, 2, 0], [4, 3, 2, 0, 1], [4, 3, 2, 1, 0]]"


section \<open>Filling the index array\<close>

text \<open>
  \<open>std::shuffle\<close> swaps the element at each position with one at or behind it, chosen by a
  \<open>uniform_int_distribution\<close> over the engine; the distribution is the parameter \<open>uid\<close>:
  \<open>uid d s\<close> draws a number between \<open>0\<close> and \<open>d\<close>.
\<close>

definition swap_at :: "nat \<Rightarrow> nat \<Rightarrow> 'a list \<Rightarrow> 'a list" where
  "swap_at i j xs = xs[i := xs ! j, j := xs ! i]"

fun std_shuffle :: "(nat \<Rightarrow> seed \<Rightarrow> nat \<times> seed) \<Rightarrow> nat \<Rightarrow> nat \<Rightarrow> 'a list \<Rightarrow> seed \<Rightarrow> 'a list \<times> seed" where
  "std_shuffle uid first 0 xs s = (xs, s)"
| "std_shuffle uid first (Suc d) xs s =
     (case uid (Suc d) s of (i, s) \<Rightarrow>
        std_shuffle uid (Suc first) d (if i \<noteq> 0 then swap_at first (first + i) xs else xs) s)"

text \<open>A switch over a table: no case, no assignment.\<close>

definition switch_indices :: "nat list list \<Rightarrow> 32 word \<Rightarrow> nat list \<Rightarrow> nat list" where
  "switch_indices tbl k indices = (if unat k < length tbl then tbl ! unat k else indices)"

definition indices5 :: "nat list list" where
  "indices5 = indices5_0 @ indices5_1 @ indices5_2 @ indices5_3 @ indices5_4"

definition fill_with_random_indices ::
    "(nat \<Rightarrow> seed \<Rightarrow> nat \<times> seed) \<Rightarrow> seed \<Rightarrow> nat list \<Rightarrow> nat list \<times> seed" where
  "fill_with_random_indices uid s indices =
     (let n = length indices in
      if n = 1 then (indices[0 := 0], s)
      else if n = 2 then (case engine s 2 of (k, s) \<Rightarrow> (switch_indices indices2 k indices, s))
      else if n = 3 then (case engine s 6 of (k, s) \<Rightarrow> (switch_indices indices3 k indices, s))
      else if n = 4 then (case engine s 24 of (k, s) \<Rightarrow> (switch_indices indices4 k indices, s))
      else if n = 5 then (case engine s 120 of (k, s) \<Rightarrow> (switch_indices indices5 k indices, s))
      else std_shuffle uid 0 (n - 1) [0..<n] s)"

section \<open>The tables hold every permutation once\<close>

definition permutation_of :: "nat \<Rightarrow> nat list \<Rightarrow> bool" where
  "permutation_of n p \<longleftrightarrow> length p = n \<and> distinct p \<and> list_all (\<lambda>i. i < n) p"

lemma permutation_of_set: "permutation_of n p \<Longrightarrow> set p = {..<n}"
  unfolding permutation_of_def list_all_iff
  by (metis card_lessThan card_subset_eq distinct_card finite_lessThan lessThan_iff subsetI)

lemma permutations_card: "card {p. permutation_of n p} = fact n"
proof -
  have e: "{p. permutation_of n p} = {p. length p = n \<and> distinct p \<and> set p \<subseteq> {..<n}}"
    by (auto simp: permutation_of_def list_all_iff)
  have "card {p. length p = n \<and> distinct p \<and> set p \<subseteq> {..<n}} = \<Prod>{card {..<n} - n + 1..card {..<n}}"
    by (rule card_lists_distinct_length_eq) simp_all
  then show ?thesis unfolding e by (simp add: fact_prod)
qed

lemma table_complete:
  assumes "distinct tbl" "length tbl = fact n" "list_all (permutation_of n) tbl"
  shows "set tbl = {p. permutation_of n p}"
proof (rule card_subset_eq)
  have "{p. permutation_of n p} \<subseteq> {p. set p \<subseteq> {..<n} \<and> length p = n}"
    by (auto simp: permutation_of_def list_all_iff)
  then show "finite {p. permutation_of n p}" by (rule finite_subset) (simp add: finite_lists_length_eq)
  show "set tbl \<subseteq> {p. permutation_of n p}" using assms(3) by (auto simp: list_all_iff)
  show "card (set tbl) = card {p. permutation_of n p}"
    using assms by (simp add: distinct_card permutations_card)
qed

lemma indices_tables:
  "distinct indices2" "length indices2 = fact 2" "list_all (permutation_of 2) indices2"
  "distinct indices3" "length indices3 = fact 3" "list_all (permutation_of 3) indices3"
  "distinct indices4" "length indices4 = fact 4" "list_all (permutation_of 4) indices4"
  by (simp_all add: indices2_def indices3_def indices4_def permutation_of_def fact_numeral)

lemmas indices5_parts = indices5_0_def indices5_1_def indices5_2_def indices5_3_def indices5_4_def

lemma indices5_rows: "list_all (permutation_of 5) indices5" "length indices5 = fact 5"
  by (simp_all add: indices5_def indices5_parts permutation_of_def fact_numeral)

lemma indices5_distinct: "distinct indices5"
proof -
  have d: "distinct indices5_0" "distinct indices5_1" "distinct indices5_2" "distinct indices5_3"
    "distinct indices5_4"
    by (simp_all add: indices5_parts)
  have h: "hd ` set indices5_0 = {0}" "hd ` set indices5_1 = {1}" "hd ` set indices5_2 = {2}"
    "hd ` set indices5_3 = {3}" "hd ` set indices5_4 = {4}"
    by (simp_all add: indices5_parts)
  have disj: "hd ` A = {x} \<Longrightarrow> hd ` B = {y} \<Longrightarrow> x \<noteq> y \<Longrightarrow> A \<inter> B = {}"
    for A B :: "nat list set" and x y
  proof (rule equals0I)
    fix z assume "hd ` A = {x}" "hd ` B = {y}" "x \<noteq> y" "z \<in> A \<inter> B"
    then have "hd z \<in> {x}" "hd z \<in> {y}" by (metis IntD1 IntD2 imageI)+
    with \<open>x \<noteq> y\<close> show False by simp
  qed
  show ?thesis unfolding indices5_def
    using d disj [OF h(1) h(2)] disj [OF h(1) h(3)] disj [OF h(1) h(4)] disj [OF h(1) h(5)]
      disj [OF h(2) h(3)] disj [OF h(2) h(4)] disj [OF h(2) h(5)]
      disj [OF h(3) h(4)] disj [OF h(3) h(5)] disj [OF h(4) h(5)]
    by (simp add: Int_Un_distrib)
qed

section \<open>Filling\<close>

lemma engine_below:
  assumes "0 < n"
  shows "unat (fst (engine s n)) < unat n"
proof -
  have "unat (fst (engine s n)) = unat (fst (next_seed s)) mod unat n"
    by (simp add: engine_def unat_mod split: prod.split)
  with assms show ?thesis by (simp add: word_less_nat_alt)
qed

lemma swap_at_facts:
  assumes "i < length xs" "j < length xs"
  shows "mset (swap_at i j xs) = mset xs" "length (swap_at i j xs) = length xs"
  using assms mset_swap [of j xs i] by (simp_all add: swap_at_def)

lemma std_shuffle_mset:
  assumes "\<And>d s. fst (uid d s) \<le> d" "first + d < length xs \<or> d = 0"
  shows "mset (fst (std_shuffle uid first d xs s)) = mset xs"
  using assms
proof (induction uid first d xs s rule: std_shuffle.induct)
  case (2 uid first d xs s)
  obtain i s' where i: "uid (Suc d) s = (i, s')" by (cases "uid (Suc d) s")
  with "2.prems" have "first < length xs" "first + i < length xs"
    by (metis add_leD1 add_le_cancel_left fst_conv le_less_trans nat.distinct(1) not_less_eq_eq,
        metis add_le_cancel_left fst_conv le_less_trans nat.distinct(1))
  then have m: "mset (if i \<noteq> 0 then swap_at first (first + i) xs else xs) = mset xs"
    "length (if i \<noteq> 0 then swap_at first (first + i) xs else xs) = length xs"
    by (simp_all add: swap_at_facts)
  have "mset (fst (std_shuffle uid (Suc first) d
      (if i \<noteq> 0 then swap_at first (first + i) xs else xs) s')) = mset xs"
    unfolding m(1) [symmetric] using "2.prems"
    by (intro "2.IH" [OF i [symmetric]]) (simp_all only: m, auto)
  then show ?case by (simp add: i)
qed simp

lemma switch_indices_row:
  "unat k < length tbl \<Longrightarrow> list_all P tbl \<Longrightarrow> P (switch_indices tbl k xs)"
  by (simp add: switch_indices_def list_all_length)

lemma engine_switch:
  assumes "list_all P tbl" "unat n = length tbl" "0 < n"
  shows "P (fst (case engine s n of (k, s) \<Rightarrow> (switch_indices tbl k xs, s)))"
  using switch_indices_row [of "fst (engine s n)" tbl P xs] engine_below [of n s] assms
  by (simp add: split_beta)

definition indices_table :: "nat \<Rightarrow> nat list list" where
  "indices_table n = (if n = 2 then indices2 else if n = 3 then indices3
     else if n = 4 then indices4 else indices5)"

lemma indices_table_ok:
  assumes "n \<in> {2, 3, 4, 5}"
  shows "distinct (indices_table n)" "length (indices_table n) = fact n"
    "list_all (permutation_of n) (indices_table n)"
  using assms indices_tables indices5_rows indices5_distinct by (auto simp: indices_table_def)

section \<open>The generator is invertible and jumps commute with steps\<close>

lemma xxrotl_rotl: "0 < k \<Longrightarrow> k < 32 \<Longrightarrow> xxrotl x k = word_rotl k x"
  by (simp only: xxrotl_def word_rotl_shifts)

lemma xxrotl_inj: "xxrotl x 11 = xxrotl y 11 \<Longrightarrow> x = y"
  unfolding xxrotl_rotl [of 11, simplified] by (metis word_rot_gal)

lemma xor_shift_inj:
  fixes x y :: "32 word"
  assumes "x XOR push_bit 9 x = y XOR push_bit 9 y"
  shows "x = y"
proof (rule bit_word_eqI)
  fix n assume "n < LENGTH(32)"
  then show "bit x n = bit y n"
  proof (induction n rule: less_induct)
    case (less n)
    have "bit (x XOR push_bit 9 x) n = bit (y XOR push_bit 9 y) n" using assms by simp
    moreover have "9 \<le> n \<Longrightarrow> bit x (n - 9) = bit y (n - 9)"
      using less.prems by (intro less.IH) simp_all
    ultimately show ?case using less.prems
      by (simp add: bit_xor_iff bit_push_bit_iff) blast
  qed
qed

lemma next_seed_state:
  "snd (next_seed (s0, s1, s2, s3)) =
    (s0 XOR (s3 XOR s1), s1 XOR (s2 XOR s0), (s2 XOR s0) XOR push_bit 9 s1, xxrotl (s3 XOR s1) 11)"
  by (simp add: next_seed_def Let_def)

lemma xor_cancel [simp]:
  "x XOR z = y XOR z \<longleftrightarrow> x = y" "z XOR x = z XOR y \<longleftrightarrow> x = y" for x y z :: "'a::len word"
  by (metis xor.assoc xor.right_neutral xor_self_eq, metis xor.assoc xor.left_neutral xor_self_eq)

lemma next_seed_inj: "snd (next_seed s) = snd (next_seed t) \<Longrightarrow> s = t"
proof -
  assume e: "snd (next_seed s) = snd (next_seed t)"
  obtain s0 s1 s2 s3 where s: "s = (s0, s1, s2, s3)" by (cases s) auto
  obtain t0 t1 t2 t3 where t: "t = (t0, t1, t2, t3)" by (cases t) auto
  have u: "s3 XOR s1 = t3 XOR t1" and z0: "s0 XOR (s3 XOR s1) = t0 XOR (t3 XOR t1)"
    and z1: "s1 XOR (s2 XOR s0) = t1 XOR (t2 XOR t0)"
    and z2: "(s2 XOR s0) XOR push_bit 9 s1 = (t2 XOR t0) XOR push_bit 9 t1"
    using e by (auto simp: s t next_seed_state dest: xxrotl_inj)
  have "s0 = t0" using z0 unfolding u by simp
  have "s1 XOR push_bit 9 s1 = t1 XOR push_bit 9 t1"
  proof -
    have "(a XOR b) XOR (b XOR c) = a XOR c" for a b c :: "32 word"
      by (metis xor.assoc xor.left_neutral xor_self_eq)
    then show ?thesis using z1 z2 by metis
  qed
  then have "s1 = t1" by (rule xor_shift_inj)
  moreover have "s3 = t3" using u \<open>s1 = t1\<close> by simp
  moreover have "s2 = t2" using z1 \<open>s1 = t1\<close> \<open>s0 = t0\<close> by simp
  ultimately show ?thesis using \<open>s0 = t0\<close> by (simp add: s t)
qed

lemma next_seed_surj: "surj (\<lambda>s. snd (next_seed s))"
proof -
  have "inj (\<lambda>s. snd (next_seed s))" by (rule injI) (rule next_seed_inj)
  then show ?thesis by (rule finite_UNIV_inj_surj [OF finite])
qed

text \<open>The state transition is linear over bitwise exclusive or.\<close>

lemma xxrotl_xor: "xxrotl (x XOR y) k = xxrotl x k XOR xxrotl y k" if "0 < k" "k < 32"
  unfolding xxrotl_rotl [OF that] by (rule bit_word_eqI) (simp add: bit_word_rotl_iff bit_xor_iff)

lemma next_seed_linear:
  "snd (next_seed (seed_xor s t)) = seed_xor (snd (next_seed s)) (snd (next_seed t))"
proof -
  have p: "push_bit 9 (x XOR y) = push_bit 9 x XOR push_bit 9 y" for x y :: "32 word"
    by (rule bit_word_eqI) (auto simp: bit_simps)
  show ?thesis
    by (cases s, cases t) (simp add: next_seed_state seed_xor_def p xxrotl_xor xor.left_commute xor.commute xor.assoc)
qed

definition zero_seed :: seed where
  "zero_seed = (0, 0, 0, 0)"

lemma seed_xor_zero [simp]: "seed_xor zero_seed s = s" "seed_xor s zero_seed = s"
  by (cases s, simp add: seed_xor_def zero_seed_def)+

lemma seed_xor_ac:
  "seed_xor (seed_xor a b) c = seed_xor a (seed_xor b c)" "seed_xor a b = seed_xor b a"
  "seed_xor a (seed_xor b c) = seed_xor b (seed_xor a c)"
  by (cases a, cases b, cases c, simp add: seed_xor_def xor.assoc xor.commute xor.left_commute)+

lemma next_seed_zero [simp]: "snd (next_seed zero_seed) = zero_seed"
  by (simp add: zero_seed_def next_seed_state xxrotl_def)

lemma next_seed_zero_iff: "snd (next_seed s) = zero_seed \<longleftrightarrow> s = zero_seed"
  using next_seed_inj [of s zero_seed] by auto

text \<open>The pairs \<open>(jump word, bit)\<close> in the order of the two loops.\<close>

definition jump_bits :: "(32 word \<times> nat) list" where
  "jump_bits = concat (map (\<lambda>j. map (Pair j) [0..<32]) JUMP)"

lemma jump_seed_bits:
  "jump_seed s = fst (fold (\<lambda>(j, b). jump_bit j b) jump_bits (zero_seed, s))"
proof -
  have "fold (\<lambda>(j, b). jump_bit j b) (concat (map (\<lambda>j. map (Pair j) [0..<32]) js)) st =
      fold (\<lambda>j st. fold (jump_bit j) [0..<32] st) js st" for js st
    by (induction js arbitrary: st) (simp_all add: fold_map comp_def)
  then show ?thesis by (simp add: jump_seed_def jump_bits_def zero_seed_def)
qed

lemma jump_bit_step:
  "jump_bit j b (snd (next_seed acc), snd (next_seed s)) =
    map_prod (\<lambda>s. snd (next_seed s)) (\<lambda>s. snd (next_seed s)) (jump_bit j b (acc, s))"
  by (simp add: jump_bit_def next_seed_linear)

lemma jump_bits_step:
  "fold (\<lambda>(j, b). jump_bit j b) bs (snd (next_seed acc), snd (next_seed s)) =
    map_prod (\<lambda>s. snd (next_seed s)) (\<lambda>s. snd (next_seed s)) (fold (\<lambda>(j, b). jump_bit j b) bs (acc, s))"
proof (induction bs arbitrary: acc s)
  case (Cons p bs)
  obtain j b where p: "p = (j, b)" by (cases p)
  obtain acc' s' where e: "jump_bit j b (acc, s) = (acc', s')" by (cases "jump_bit j b (acc, s)")
  then have "jump_bit j b (snd (next_seed acc), snd (next_seed s)) = (snd (next_seed acc'), snd (next_seed s'))"
    by (simp add: jump_bit_step)
  with e Cons.IH [of acc' s'] show ?case by (simp add: p)
qed simp

definition pair_xor :: "seed \<times> seed \<Rightarrow> seed \<times> seed \<Rightarrow> seed \<times> seed" where
  "pair_xor p q = (seed_xor (fst p) (fst q), seed_xor (snd p) (snd q))"

lemma jump_bit_linear: "jump_bit j b (pair_xor p q) = pair_xor (jump_bit j b p) (jump_bit j b q)"
  by (cases p, cases q) (simp add: jump_bit_def pair_xor_def next_seed_linear seed_xor_ac)

lemma jump_bits_linear:
  "fold (\<lambda>(j, b). jump_bit j b) bs (pair_xor p q) =
    pair_xor (fold (\<lambda>(j, b). jump_bit j b) bs p) (fold (\<lambda>(j, b). jump_bit j b) bs q)"
proof (induction bs arbitrary: p q)
  case (Cons x bs)
  then show ?case by (cases x) (simp add: jump_bit_linear)
qed simp

section \<open>Properties\<close>

text \<open>C40: whatever the array held and whatever the seed, \<open>fill_with_random_indices\<close> leaves a
  permutation of the indices in it: a select tries each of its operations exactly once. The only
  assumption is that \<open>uniform_int_distribution\<close> stays in its range.\<close>

theorem fill_is_permutation:
  assumes "\<And>d s. fst (uid d s) \<le> d"
  shows "mset (fst (fill_with_random_indices uid s indices)) = mset [0..<length indices]"
proof -
  let ?n = "length indices"
  let ?r = "fst (fill_with_random_indices uid s indices)"
  have perm: "mset p = mset [0..<m]" if "permutation_of m p" for m p
    using permutation_of_set [OF that] that
    by (simp add: permutation_of_def atLeast0LessThan flip: mset_set_set)
  have sw: "permutation_of ?n ?r" if "?n \<in> {2, 3, 4, 5}"
    using that indices_tables indices5_rows
      engine_switch [of "permutation_of ?n" indices2 2 indices s]
      engine_switch [of "permutation_of ?n" indices3 6 indices s]
      engine_switch [of "permutation_of ?n" indices4 24 indices s]
      engine_switch [of "permutation_of ?n" indices5 120 indices s]
    by (auto simp: fill_with_random_indices_def fact_numeral)
  consider "?n = 1" | "?n \<in> {2, 3, 4, 5}" | "?n \<notin> {1, 2, 3, 4, 5}" by auto
  then show ?thesis
  proof cases
    case 1
    then obtain x where "indices = [x]" by (cases indices) auto
    then show ?thesis by (simp add: fill_with_random_indices_def)
  next
    case 2
    then show ?thesis by (intro perm sw)
  next
    case 3
    then have "?r = fst (std_shuffle uid 0 (?n - 1) [0..<?n] s)"
      by (simp add: fill_with_random_indices_def Let_def)
    moreover have "mset (fst (std_shuffle uid 0 (?n - 1) [0..<?n] s)) = mset [0..<?n]"
      by (rule std_shuffle_mset [OF assms]) auto
    ultimately show ?thesis by simp
  qed
qed

theorem fill_is_permutation_witness:
  "mset (fst (fill_with_random_indices (\<lambda>d s. (d div 2, s)) (1, 2, 3, 4) (replicate 7 9))) = mset [0..<7]"
  using fill_is_permutation [of "\<lambda>d s. (d div 2, s)" "(1, 2, 3, 4)" "replicate 7 9"] by simp

text \<open>The switches are complete and fair: for two to five operations each order is the row of
  exactly one number below the factorial the engine's draw is reduced by.\<close>

theorem switch_tables_complete:
  assumes "n \<in> {2, 3, 4, 5}" "permutation_of n p"
  shows "\<exists>!k. k < fact n \<and> switch_indices (indices_table n) (of_nat k) xs = p"
proof -
  let ?t = "indices_table n"
  note t = indices_table_ok [OF assms(1)]
  have small: "fact n \<le> (120 :: nat)" using assms(1) by (auto simp: fact_numeral)
  have row: "switch_indices ?t (of_nat k) xs = ?t ! k" if "k < fact n" for k
  proof -
    have "unat (of_nat k :: 32 word) = k"
      using that small by (simp add: unat_of_nat)
    with that t show ?thesis by (simp add: switch_indices_def)
  qed
  have "p \<in> set ?t" using table_complete [OF t] assms(2) by simp
  then obtain k where k: "k < fact n" "?t ! k = p" using t(2) by (metis in_set_conv_nth)
  show ?thesis
  proof (rule ex1I [of _ k])
    show "k < fact n \<and> switch_indices ?t (of_nat k) xs = p" using k row by simp
    show "j = k" if "j < fact n \<and> switch_indices ?t (of_nat j) xs = p" for j
      using that k row t by (metis nth_eq_iff_index_eq)
  qed
qed

theorem switch_tables_complete_witness:
  "\<exists>!k. k < fact 4 \<and> switch_indices (indices_table 4) (of_nat k) [] = [2, 0, 3, 1]"
  by (rule switch_tables_complete) (simp_all add: permutation_of_def)

text \<open>The state transition of the generator is a bijection that keeps the zero state apart, so a
  thread's engine started outside it never gets stuck there.\<close>

theorem next_seed_bijective:
  "bij (\<lambda>s. snd (next_seed s)) \<and> (snd (next_seed s) = zero_seed \<longleftrightarrow> s = zero_seed)"
  using next_seed_surj next_seed_zero_iff [of s]
  by (simp add: bij_def inj_def next_seed_inj)

text \<open>Jumping ahead commutes with stepping and is linear over exclusive or, so the engines
  \<open>create\<close> hands to the threads walk along one orbit of the generator's state transition.\<close>

theorem jump_commutes:
  "jump_seed (snd (next_seed s)) = snd (next_seed (jump_seed s)) \<and>
   jump_seed (seed_xor s t) = seed_xor (jump_seed s) (jump_seed t)"
  using jump_bits_step [of jump_bits zero_seed s] jump_bits_linear [of jump_bits "(zero_seed, s)" "(zero_seed, t)"]
  by (simp add: jump_seed_bits pair_xor_def)

end
