(* ===== verification/Channel.thy ===== *)
theory Channel
  imports Prelude
begin

text \<open>
  The channels of \<open>third/utils/copper.hpp\<close>: buffered, unbuffered and \<open>void\<close> channels, waiting
  pops and pushes, operation groups and \<open>select\<close>.

  A channel's state is guarded by its mutex and a group's by its own, so an operation is one
  atomic step per critical section of the channel mutex: an attempt together with the enqueueing
  of the operation when it has to wait (\<open>_pop_func_with_lock_general\<close>,
  \<open>_push_func_with_lock_general\<close>, \<open>_register_signals\<close>, which keeps every channel it has tried
  locked until the operations are enqueued), the end of a \<open>wait\<close>, each \<open>parent_destroyed\<close> of a
  group's destructor, \<open>close\<close> and \<open>clear\<close>. An unbuffered channel behaves as a buffered one of
  size 0, whose buffer is always both empty and full; a \<open>void\<close> channel carries units and differs
  only in \<open>clear\<close>. The operations' functors transfer the value. The lists \<open>ch_sent\<close> and
  \<open>ch_taken\<close> are ghosts: the values accepted from pushers and those that left the channel.
\<close>

section \<open>The state\<close>

datatype channel_op_status = success | unavailable | closed

datatype wait_type = forever | timed

text \<open>An operation of a select: a pop, or a push of a value.\<close>

datatype 'a op_kind = Pop | Push 'a

type_synonym op_ref = "nat \<times> nat"

record 'a chan =
  ch_open :: bool
  ch_max :: nat
  ch_buffer :: "'a list"
  ch_pops :: "op_ref list"
  ch_pushes :: "(op_ref \<times> 'a) list"
  ch_sent :: "'a list"
  ch_taken :: "'a list"

datatype group_phase =
    Idle
  | Waiting
  | Leaving channel_op_status "nat list"
  | Done channel_op_status

text \<open>
  A group (\<open>waiting_op_group\<close>): its operations with their channels, \<open>_match_found\<close>,
  \<open>open_op_channels\<close>, the waiting strategy of its caller, and the effect of the match: the operation that was executed and, for a
  pop, the value its functor was called with.
\<close>

record 'a group =
  gr_ops :: "(nat \<times> 'a op_kind) list"
  gr_match :: bool
  gr_open :: int
  gr_fired :: "(nat \<times> 'a option) option"
  gr_wait :: wait_type
  gr_phase :: group_phase

record 'a sys =
  chans :: "nat \<Rightarrow> 'a chan"
  groups :: "nat \<Rightarrow> 'a group"
  fresh :: nat

section \<open>The buffer\<close>

definition buffer_is_full :: "'a chan \<Rightarrow> bool" where
  "buffer_is_full ch \<longleftrightarrow> ch_max ch \<le> length (ch_buffer ch)"

definition buffer_is_empty :: "'a chan \<Rightarrow> bool" where
  "buffer_is_empty ch \<longleftrightarrow> ch_buffer ch = []"

definition buffer_push :: "'a \<Rightarrow> 'a chan \<Rightarrow> 'a chan" where
  "buffer_push v ch = ch\<lparr>ch_buffer := ch_buffer ch @ [v], ch_sent := ch_sent ch @ [v]\<rparr>"

definition buffer_pop :: "'a chan \<Rightarrow> 'a \<times> 'a chan" where
  "buffer_pop ch =
     (hd (ch_buffer ch),
      ch\<lparr>ch_buffer := tl (ch_buffer ch), ch_taken := ch_taken ch @ [hd (ch_buffer ch)]\<rparr>)"

definition buffer_clear :: "'a chan \<Rightarrow> nat \<times> 'a chan" where
  "buffer_clear ch =
     (length (ch_buffer ch), ch\<lparr>ch_buffer := [], ch_taken := ch_taken ch @ ch_buffer ch\<rparr>)"

text \<open>A value handed from a pusher to a popper without the buffer.\<close>

definition hand_over :: "'a \<Rightarrow> 'a chan \<Rightarrow> 'a chan" where
  "hand_over v ch = ch\<lparr>ch_sent := ch_sent ch @ [v], ch_taken := ch_taken ch @ [v]\<rparr>"

section \<open>Matching\<close>

text \<open>
  \<open>waiting_op_group_base::match\<close> on the group \<open>g\<close> of a waiting operation \<open>i\<close>; \<open>vo\<close> is the value
  its functor receives, if it is a pop.
\<close>

definition group_match :: "nat \<Rightarrow> nat \<Rightarrow> 'a option \<Rightarrow> (nat \<Rightarrow> 'a group) \<Rightarrow> (bool \<times> (nat \<Rightarrow> 'a group))" where
  "group_match g i vo gs =
     (if gr_match (gs g) then (False, gs)
      else (True, gs(g := (gs g)\<lparr>gr_match := True, gr_fired := Some (i, vo)\<rparr>)))"

text \<open>
  The loops \<open>while (!_waiting_pushes.empty())\<close> and \<open>while (!_waiting_pops.empty())\<close>: waiting
  operations are dequeued until one's group can still be matched.
\<close>

fun match_pushes ::
    "(op_ref \<times> 'a) list \<Rightarrow> (nat \<Rightarrow> 'a group) \<Rightarrow> 'a option \<times> (op_ref \<times> 'a) list \<times> (nat \<Rightarrow> 'a group)" where
  "match_pushes [] gs = (None, [], gs)"
| "match_pushes (((g, i), v) # ps) gs =
     (case group_match g i None gs of
        (True, gs) \<Rightarrow> (Some v, ps, gs)
      | (False, gs) \<Rightarrow> match_pushes ps gs)"

fun match_pops ::
    "'a \<Rightarrow> op_ref list \<Rightarrow> (nat \<Rightarrow> 'a group) \<Rightarrow> bool \<times> op_ref list \<times> (nat \<Rightarrow> 'a group)" where
  "match_pops v [] gs = (False, [], gs)"
| "match_pops v ((g, i) # ps) gs =
     (case group_match g i (Some v) gs of
        (True, gs) \<Rightarrow> (True, ps, gs)
      | (False, gs) \<Rightarrow> match_pops v ps gs)"

section \<open>The operations on a channel\<close>

definition set_chan :: "nat \<Rightarrow> 'a chan \<Rightarrow> (nat \<Rightarrow> 'a group) \<Rightarrow> 'a sys \<Rightarrow> 'a sys" where
  "set_chan c ch gs s = s\<lparr>chans := (chans s)(c := ch), groups := gs\<rparr>"

text \<open>
  \<open>_pop_func_with_lock_general\<close> up to its waiting part: the status, the value the functor is
  called with, and the state.
\<close>

definition pop_now :: "nat \<Rightarrow> 'a sys \<Rightarrow> channel_op_status \<times> 'a option \<times> 'a sys" where
  "pop_now c s =
     (let ch = chans s c in
      if \<not> ch_open ch \<and> buffer_is_empty ch then (closed, None, s)
      else if \<not> buffer_is_empty ch then
        (case buffer_pop ch of (v, ch) \<Rightarrow>
           if ch_open ch \<and> ch_pushes ch \<noteq> [] then
             (case match_pushes (ch_pushes ch) (groups s) of
                (None, ps, gs) \<Rightarrow> (success, Some v, set_chan c (ch\<lparr>ch_pushes := ps\<rparr>) gs s)
              | (Some w, ps, gs) \<Rightarrow>
                  (success, Some v, set_chan c (buffer_push w (ch\<lparr>ch_pushes := ps\<rparr>)) gs s))
           else (success, Some v, set_chan c ch (groups s) s))
      else
        (case match_pushes (ch_pushes ch) (groups s) of
           (Some v, ps, gs) \<Rightarrow> (success, Some v, set_chan c (hand_over v (ch\<lparr>ch_pushes := ps\<rparr>)) gs s)
         | (None, ps, gs) \<Rightarrow> (unavailable, None, set_chan c (ch\<lparr>ch_pushes := ps\<rparr>) gs s)))"

text \<open>\<open>_push_func_with_lock_general\<close> up to its waiting part.\<close>

definition push_now :: "nat \<Rightarrow> 'a \<Rightarrow> 'a sys \<Rightarrow> channel_op_status \<times> 'a sys" where
  "push_now c v s =
     (let ch = chans s c in
      if \<not> ch_open ch then (closed, s)
      else
        (case match_pops v (ch_pops ch) (groups s) of
           (True, ps, gs) \<Rightarrow> (success, set_chan c (hand_over v (ch\<lparr>ch_pops := ps\<rparr>)) gs s)
         | (False, ps, gs) \<Rightarrow>
             let ch = ch\<lparr>ch_pops := ps\<rparr> in
             if \<not> buffer_is_full ch then (success, set_chan c (buffer_push v ch) gs s)
             else (unavailable, set_chan c ch gs s)))"

definition op_now :: "nat \<times> 'a op_kind \<Rightarrow> 'a sys \<Rightarrow> channel_op_status \<times> 'a option \<times> 'a sys" where
  "op_now op s =
     (case op of
        (c, Pop) \<Rightarrow> pop_now c s
      | (c, Push v) \<Rightarrow> (case push_now c v s of (st, s) \<Rightarrow> (st, None, s)))"

text \<open>\<open>pop_wt\<close> and \<open>push_wt\<close> turn the status of an attempt into the caller's result.\<close>

definition try_pop :: "nat \<Rightarrow> 'a sys \<Rightarrow> 'a option \<times> 'a sys" where
  "try_pop c s = (case pop_now c s of (st, v, s) \<Rightarrow> (if st = success then v else None, s))"

definition try_push :: "nat \<Rightarrow> 'a \<Rightarrow> 'a sys \<Rightarrow> bool \<times> 'a sys" where
  "try_push c v s = (case push_now c v s of (st, s) \<Rightarrow> (st = success, s))"

text \<open>
  \<open>clear\<close>: the instance for \<open>void\<close> refills the buffer until it is full, the other one stops
  after the first match.
\<close>

fun clear_refill_void ::
    "nat \<Rightarrow> (op_ref \<times> 'a) list \<Rightarrow> 'a list \<Rightarrow> (nat \<Rightarrow> 'a group) \<Rightarrow>
     'a list \<times> (op_ref \<times> 'a) list \<times> (nat \<Rightarrow> 'a group)" where
  "clear_refill_void n [] buf gs = (buf, [], gs)"
| "clear_refill_void n (((g, i), v) # ps) buf gs =
     (if \<not> n \<le> length buf then
        (case group_match g i None gs of
           (True, gs) \<Rightarrow> clear_refill_void n ps (buf @ [v]) gs
         | (False, gs) \<Rightarrow> clear_refill_void n ps buf gs)
      else (buf, ((g, i), v) # ps, gs))"

definition channel_clear :: "bool \<Rightarrow> nat \<Rightarrow> 'a sys \<Rightarrow> nat \<times> 'a sys" where
  "channel_clear is_void c s =
     (case buffer_clear (chans s c) of (n, ch) \<Rightarrow>
        if ch_open ch \<and> ch_pushes ch \<noteq> [] then
          if is_void then
            (case clear_refill_void (ch_max ch) (ch_pushes ch) [] (groups s) of (buf, ps, gs) \<Rightarrow>
               (n, set_chan c (ch\<lparr>ch_buffer := buf, ch_sent := ch_sent ch @ buf, ch_pushes := ps\<rparr>) gs s))
          else if \<not> buffer_is_full ch then
            (case match_pushes (ch_pushes ch) (groups s) of
               (Some v, ps, gs) \<Rightarrow> (n, set_chan c (buffer_push v (ch\<lparr>ch_pushes := ps\<rparr>)) gs s)
             | (None, ps, gs) \<Rightarrow> (n, set_chan c (ch\<lparr>ch_pushes := ps\<rparr>) gs s))
          else (n, set_chan c ch (groups s) s)
        else (n, set_chan c ch (groups s) s))"

text \<open>\<open>channel_closed\<close> of a waiting operation, and \<open>close\<close>.\<close>

definition op_channel_closed :: "op_ref \<Rightarrow> (nat \<Rightarrow> 'a group) \<Rightarrow> (nat \<Rightarrow> 'a group)" where
  "op_channel_closed r gs = gs(fst r := (gs (fst r))\<lparr>gr_open := gr_open (gs (fst r)) - 1\<rparr>)"

definition channel_close :: "nat \<Rightarrow> 'a sys \<Rightarrow> 'a sys" where
  "channel_close c s =
     (let ch = chans s c in
      if ch_open ch then
        set_chan c (ch\<lparr>ch_open := False, ch_pops := [], ch_pushes := []\<rparr>)
          (fold op_channel_closed (map fst (ch_pushes ch)) (fold op_channel_closed (ch_pops ch) (groups s))) s
      else s)"

definition is_read_closed :: "nat \<Rightarrow> 'a sys \<Rightarrow> bool" where
  "is_read_closed c s \<longleftrightarrow> \<not> ch_open (chans s c) \<and> buffer_is_empty (chans s c)"

definition is_write_closed :: "nat \<Rightarrow> 'a sys \<Rightarrow> bool" where
  "is_write_closed c s \<longleftrightarrow> \<not> ch_open (chans s c)"

section \<open>Groups\<close>

text \<open>\<open>start_waiting\<close> appends an operation to its channel's queue.\<close>

definition start_waiting :: "op_ref \<Rightarrow> 'a op_kind \<Rightarrow> 'a chan \<Rightarrow> 'a chan" where
  "start_waiting r k ch =
     (case k of
        Pop \<Rightarrow> ch\<lparr>ch_pops := ch_pops ch @ [r]\<rparr>
      | Push v \<Rightarrow> ch\<lparr>ch_pushes := ch_pushes ch @ [(r, v)]\<rparr>)"

definition initialize_op :: "nat \<Rightarrow> nat \<Rightarrow> nat \<times> 'a op_kind \<Rightarrow> 'a sys \<Rightarrow> 'a sys" where
  "initialize_op g i op s =
     (if ch_open (chans s (fst op)) then
        s\<lparr>chans := (chans s)(fst op := start_waiting (g, i) (snd op) (chans s (fst op))),
          groups := (groups s)(g := (groups s g)\<lparr>gr_open := gr_open (groups s g) + 1\<rparr>)\<rparr>
      else s)"

fun activate_ops :: "nat \<Rightarrow> nat \<Rightarrow> (nat \<times> 'a op_kind) list \<Rightarrow> 'a sys \<Rightarrow> 'a sys" where
  "activate_ops g i [] s = s"
| "activate_ops g i (op # ops) s = activate_ops g (Suc i) ops (initialize_op g i op s)"

text \<open>The construction of a group and its \<open>activate\<close>; the caller waits from here on.\<close>

definition activate :: "wait_type \<Rightarrow> (nat \<times> 'a op_kind) list \<Rightarrow> 'a sys \<Rightarrow> 'a sys" where
  "activate w ops s =
     activate_ops (fresh s) 0 ops
       (s\<lparr>groups := (groups s)(fresh s := \<lparr>gr_ops = ops, gr_match = False, gr_open = 0,
            gr_fired = None, gr_wait = w, gr_phase = Waiting\<rparr>), fresh := Suc (fresh s)\<rparr>)"

text \<open>
  \<open>_register_signals\<close>, and for a single operation the general pop and push: each operation is
  attempted in turn; if none succeeds they are enqueued.
\<close>

fun attempt_all :: "(nat \<times> 'a op_kind) list \<Rightarrow> 'a sys \<Rightarrow> (nat \<times> 'a option) option \<times> 'a sys" where
  "attempt_all [] s = (None, s)"
| "attempt_all (op # ops) s =
     (case op_now op s of (st, v, s) \<Rightarrow>
        if st = success then (Some (0, v), s)
        else (case attempt_all ops s of
                (None, s) \<Rightarrow> (None, s)
              | (Some (i, v), s) \<Rightarrow> (Some (Suc i, v), s)))"

definition register_signals ::
    "wait_type \<Rightarrow> (nat \<times> 'a op_kind) list \<Rightarrow> 'a sys \<Rightarrow> (nat \<times> 'a option) option \<times> 'a sys" where
  "register_signals w ops s =
     (case attempt_all ops s of
        (Some r, s) \<Rightarrow> (Some r, s)
      | (None, s) \<Rightarrow> (None, activate w ops s))"

text \<open>
  The end of \<open>wait\<close>: its predicate holds, or the time is over. The status is returned and the
  group's destructor runs: \<open>parent_destroyed\<close> for one operation after the other.
\<close>

definition wait_status :: "'a group \<Rightarrow> channel_op_status" where
  "wait_status gr = (if gr_match gr then success else if gr_open gr = 0 then closed else unavailable)"

definition wait_returns :: "'a group \<Rightarrow> bool" where
  "wait_returns gr \<longleftrightarrow>
     gr_phase gr = Waiting \<and> (gr_match gr \<or> gr_open gr = 0 \<or> gr_wait gr = timed)"

definition end_wait :: "nat \<Rightarrow> 'a sys \<Rightarrow> 'a sys" where
  "end_wait g s =
     (let gr = groups s g in
      s\<lparr>groups := (groups s)(g := gr\<lparr>gr_phase := Leaving (wait_status gr) [0..<length (gr_ops gr)]\<rparr>)\<rparr>)"

definition parent_destroyed :: "op_ref \<Rightarrow> 'a op_kind \<Rightarrow> 'a chan \<Rightarrow> 'a chan" where
  "parent_destroyed r k ch =
     (case k of
        Pop \<Rightarrow> ch\<lparr>ch_pops := removeAll r (ch_pops ch)\<rparr>
      | Push v \<Rightarrow> ch\<lparr>ch_pushes := filter (\<lambda>p. fst p \<noteq> r) (ch_pushes ch)\<rparr>)"

definition leave_step :: "nat \<Rightarrow> 'a sys \<Rightarrow> 'a sys" where
  "leave_step g s =
     (let gr = groups s g in
      case gr_phase gr of
        Leaving st [] \<Rightarrow> s\<lparr>groups := (groups s)(g := gr\<lparr>gr_phase := Done st\<rparr>)\<rparr>
      | Leaving st (i # is) \<Rightarrow>
          let (c, k) = gr_ops gr ! i in
          s\<lparr>chans := (chans s)(c := parent_destroyed (g, i) k (chans s c)),
            groups := (groups s)(g := gr\<lparr>gr_phase := Leaving st is\<rparr>)\<rparr>
      | _ \<Rightarrow> s)"

section \<open>Runs\<close>

inductive chan_step :: "'a sys \<Rightarrow> 'a sys \<Rightarrow> bool" where
  try_op: "op_now op s = (st, v, t) \<Longrightarrow> chan_step s t"
| register: "register_signals w ops s = (r, t) \<Longrightarrow> chan_step s t"
| wait_ends: "wait_returns (groups s g) \<Longrightarrow> chan_step s (end_wait g s)"
| leave: "chan_step s (leave_step g s)"
| close: "chan_step s (channel_close c s)"
| clear: "chan_step s (snd (channel_clear is_void c s))"

definition init_sys :: "(nat \<Rightarrow> nat) \<Rightarrow> 'a sys" where
  "init_sys size_of =
     \<lparr>chans = (\<lambda>c. \<lparr>ch_open = True, ch_max = size_of c, ch_buffer = [], ch_pops = [], ch_pushes = [],
                     ch_sent = [], ch_taken = []\<rparr>),
      groups = (\<lambda>g. \<lparr>gr_ops = [], gr_match = False, gr_open = 0, gr_fired = None, gr_wait = forever, gr_phase = Idle\<rparr>),
      fresh = 0\<rparr>"

section \<open>The invariant\<close>

definition stale :: "'a sys \<Rightarrow> op_ref \<Rightarrow> bool" where
  "stale s r \<longleftrightarrow> gr_match (groups s (fst r))"

definition chan_ok :: "'a sys \<Rightarrow> nat \<Rightarrow> bool" where
  "chan_ok s c \<longleftrightarrow>
     (let ch = chans s c in
      length (ch_buffer ch) \<le> ch_max ch \<and> ch_sent ch = ch_taken ch @ ch_buffer ch \<and>
      (\<not> ch_open ch \<longrightarrow> ch_pops ch = [] \<and> ch_pushes ch = []) \<and>
      distinct (ch_pops ch) \<and> distinct (map fst (ch_pushes ch)))"

text \<open>No pop waits beside a stored value, no push beside an empty buffer of positive size, and a
  pop and a push that wait on one channel belong to one select.\<close>

definition waits_ok :: "'a sys \<Rightarrow> nat \<Rightarrow> bool" where
  "waits_ok s c \<longleftrightarrow>
     (let ch = chans s c in
      (\<forall>r \<in> set (ch_pops ch). \<not> stale s r \<longrightarrow> ch_buffer ch = []) \<and>
      (\<forall>p \<in> set (ch_pushes ch). \<not> stale s (fst p) \<longrightarrow> 0 < ch_max ch \<longrightarrow> ch_buffer ch \<noteq> []) \<and>
      (\<forall>r \<in> set (ch_pops ch). \<forall>p \<in> set (ch_pushes ch).
         \<not> stale s r \<longrightarrow> \<not> stale s (fst p) \<longrightarrow> fst r = fst (fst p)))"

definition entry_ok :: "'a sys \<Rightarrow> nat \<Rightarrow> op_ref \<Rightarrow> 'a op_kind \<Rightarrow> bool" where
  "entry_ok s c r k \<longleftrightarrow>
     (let gr = groups s (fst r) in
      fst r < fresh s \<and> snd r < length (gr_ops gr) \<and> gr_ops gr ! snd r = (c, k) \<and>
      (case gr_phase gr of Waiting \<Rightarrow> True | Leaving st is \<Rightarrow> snd r \<in> set is | _ \<Rightarrow> False))"

definition entries_ok :: "'a sys \<Rightarrow> nat \<Rightarrow> bool" where
  "entries_ok s c \<longleftrightarrow>
     (\<forall>r \<in> set (ch_pops (chans s c)). entry_ok s c r Pop) \<and>
     (\<forall>p \<in> set (ch_pushes (chans s c)). entry_ok s c (fst p) (Push (snd p)))"

definition enqueued :: "'a sys \<Rightarrow> nat \<Rightarrow> nat \<Rightarrow> bool" where
  "enqueued s g i \<longleftrightarrow>
     (case gr_ops (groups s g) ! i of
        (c, Pop) \<Rightarrow> (g, i) \<in> set (ch_pops (chans s c))
      | (c, Push v) \<Rightarrow> ((g, i), v) \<in> set (ch_pushes (chans s c)))"

definition op_closed :: "'a sys \<Rightarrow> nat \<Rightarrow> nat \<Rightarrow> bool" where
  "op_closed s g i \<longleftrightarrow> \<not> ch_open (chans s (fst (gr_ops (groups s g) ! i)))"

definition group_ok :: "'a sys \<Rightarrow> nat \<Rightarrow> bool" where
  "group_ok s g \<longleftrightarrow>
     (let gr = groups s g in
      (gr_match gr \<longleftrightarrow> gr_fired gr \<noteq> None) \<and>
      (gr_phase gr = Waiting \<longrightarrow> \<not> gr_match gr \<longrightarrow>
         gr_open gr = int (card {i. i < length (gr_ops gr) \<and> enqueued s g i}) \<and>
         (\<forall>i < length (gr_ops gr). enqueued s g i \<or> op_closed s g i)) \<and>
      (\<forall>st. gr_phase gr = Done st \<or> (\<exists>is. gr_phase gr = Leaving st is) \<longrightarrow>
         (st = success \<longrightarrow> gr_match gr) \<and>
         (st = closed \<longrightarrow> \<not> gr_match gr \<and> (\<forall>i < length (gr_ops gr). op_closed s g i)) \<and>
         (st = unavailable \<longrightarrow> gr_wait gr = timed)))"

definition sys_inv :: "'a sys \<Rightarrow> bool" where
  "sys_inv s \<longleftrightarrow> (\<forall>c. chan_ok s c \<and> waits_ok s c \<and> entries_ok s c) \<and> (\<forall>g. group_ok s g)"

lemma sys_inv_init: "sys_inv (init_sys size_of)"
  by (simp add: sys_inv_def init_sys_def chan_ok_def waits_ok_def entries_ok_def group_ok_def)

section \<open>Steps that only match and dequeue\<close>

text \<open>
  \<open>shrinks s t\<close>: from \<open>s\<close> to \<open>t\<close> groups may have been matched and operations dequeued, but no
  operation of a group that is still unmatched.
\<close>

definition chan_shrinks :: "'a sys \<Rightarrow> 'a sys \<Rightarrow> nat \<Rightarrow> bool" where
  "chan_shrinks s t c \<longleftrightarrow>
     ch_open (chans t c) = ch_open (chans s c) \<and> ch_max (chans t c) = ch_max (chans s c) \<and>
     suffix (ch_pops (chans t c)) (ch_pops (chans s c)) \<and>
     suffix (ch_pushes (chans t c)) (ch_pushes (chans s c)) \<and>
     (\<forall>r \<in> set (ch_pops (chans s c)). \<not> stale t r \<longrightarrow> r \<in> set (ch_pops (chans t c))) \<and>
     (\<forall>p \<in> set (ch_pushes (chans s c)). \<not> stale t (fst p) \<longrightarrow> p \<in> set (ch_pushes (chans t c)))"

definition has_entry :: "'a sys \<Rightarrow> nat \<Rightarrow> bool" where
  "has_entry s g \<longleftrightarrow>
     (\<exists>c i. (g, i) \<in> set (ch_pops (chans s c)) \<or> (g, i) \<in> set (map fst (ch_pushes (chans s c))))"

definition group_shrinks :: "'a sys \<Rightarrow> 'a sys \<Rightarrow> nat \<Rightarrow> bool" where
  "group_shrinks s t g \<longleftrightarrow>
     gr_ops (groups t g) = gr_ops (groups s g) \<and> gr_open (groups t g) = gr_open (groups s g) \<and>
     gr_phase (groups t g) = gr_phase (groups s g) \<and> gr_wait (groups t g) = gr_wait (groups s g) \<and>
     (gr_match (groups s g) \<longrightarrow> gr_match (groups t g)) \<and>
     ((gr_match (groups s g) \<longleftrightarrow> gr_fired (groups s g) \<noteq> None) \<longrightarrow>
        (gr_match (groups t g) \<longleftrightarrow> gr_fired (groups t g) \<noteq> None)) \<and>
     (gr_match (groups t g) \<longrightarrow> \<not> gr_match (groups s g) \<longrightarrow> has_entry s g)"

definition shrinks :: "'a sys \<Rightarrow> 'a sys \<Rightarrow> bool" where
  "shrinks s t \<longleftrightarrow> fresh t = fresh s \<and> (\<forall>c. chan_shrinks s t c) \<and> (\<forall>g. group_shrinks s t g)"

lemma stale_mono: "group_shrinks s t (fst r) \<Longrightarrow> stale s r \<Longrightarrow> stale t r"
  by (simp add: group_shrinks_def stale_def)

lemma shrinks_refl: "shrinks s s"
  by (simp add: shrinks_def chan_shrinks_def group_shrinks_def)

lemma shrinks_trans:
  assumes "shrinks s t" "shrinks t u"
  shows "shrinks s u"
proof -
  have g: "group_shrinks s u g" for g
  proof -
    have st: "group_shrinks s t g" "group_shrinks t u g" using assms by (auto simp: shrinks_def)
    have sub: "set (ch_pops (chans t c)) \<subseteq> set (ch_pops (chans s c))"
      "set (ch_pushes (chans t c)) \<subseteq> set (ch_pushes (chans s c))" for c
    proof -
      have "chan_shrinks s t c" using assms by (simp add: shrinks_def)
      then show "set (ch_pops (chans t c)) \<subseteq> set (ch_pops (chans s c))"
        "set (ch_pushes (chans t c)) \<subseteq> set (ch_pushes (chans s c))"
        by (auto simp: chan_shrinks_def dest: set_mono_suffix)
    qed
    have "has_entry s g" if m: "gr_match (groups u g)" "\<not> gr_match (groups s g)"
    proof (cases "gr_match (groups t g)")
      case True
      with st(1) m(2) show ?thesis by (simp add: group_shrinks_def)
    next
      case False
      with st(2) m(1) obtain c i where
        "(g, i) \<in> set (ch_pops (chans t c)) \<or> (g, i) \<in> set (map fst (ch_pushes (chans t c)))"
        by (auto simp: group_shrinks_def has_entry_def)
      with sub [of c] have
        "(g, i) \<in> set (ch_pops (chans s c)) \<or> (g, i) \<in> set (map fst (ch_pushes (chans s c)))"
        by auto
      then show ?thesis unfolding has_entry_def by blast
    qed
    with st show ?thesis by (simp add: group_shrinks_def)
  qed
  moreover have "chan_shrinks s u c" for c
  proof -
    have st: "chan_shrinks s t c" "chan_shrinks t u c" using assms by (auto simp: shrinks_def)
    have mono: "stale t r \<Longrightarrow> stale u r" for r
      using assms stale_mono [of t u r] by (simp add: shrinks_def)
    have "r \<in> set (ch_pops (chans u c))" if "r \<in> set (ch_pops (chans s c))" "\<not> stale u r" for r
      using st that mono [of r] by (auto simp: chan_shrinks_def)
    moreover have "p \<in> set (ch_pushes (chans u c))"
      if "p \<in> set (ch_pushes (chans s c))" "\<not> stale u (fst p)" for p
      using st that mono [of "fst p"] by (auto simp: chan_shrinks_def)
    ultimately show ?thesis using st unfolding chan_shrinks_def
      by (auto intro: suffix_order.trans)
  qed
  ultimately show ?thesis using assms by (simp add: shrinks_def)
qed
text \<open>What the dequeueing loops do.\<close>

definition fire :: "op_ref \<Rightarrow> 'a option \<Rightarrow> (nat \<Rightarrow> 'a group) \<Rightarrow> (nat \<Rightarrow> 'a group)" where
  "fire r vo gs = gs(fst r := (gs (fst r))\<lparr>gr_match := True, gr_fired := Some (snd r, vo)\<rparr>)"

lemma match_pushes_none:
  "match_pushes ps gs = (None, qs, gs') \<Longrightarrow>
   qs = [] \<and> gs' = gs \<and> (\<forall>p \<in> set ps. gr_match (gs (fst (fst p))))"
  by (induction ps gs rule: match_pushes.induct) (auto simp: group_match_def split: if_splits)

lemma match_pushes_some:
  "match_pushes ps gs = (Some v, qs, gs') \<Longrightarrow>
   \<exists>pre r. ps = pre @ (r, v) # qs \<and> \<not> gr_match (gs (fst r)) \<and> gs' = fire r None gs \<and>
     (\<forall>p \<in> set pre. gr_match (gs (fst (fst p))))"
proof (induction ps gs rule: match_pushes.induct)
  case (2 g i w ps gs)
  show ?case
  proof (cases "gr_match (gs g)")
    case True
    with "2.prems" have "match_pushes ps gs = (Some v, qs, gs')" by (simp add: group_match_def)
    with True "2.IH" [of False gs] obtain pre r where "ps = pre @ (r, v) # qs"
      "\<not> gr_match (gs (fst r))" "gs' = fire r None gs" "\<forall>p \<in> set pre. gr_match (gs (fst (fst p)))"
      by (auto simp: group_match_def)
    with True show ?thesis
      by (intro exI [of _ "((g, i), w) # pre"] exI [of _ r]) simp
  next
    case False
    with "2.prems" show ?thesis
      by (intro exI [of _ "[]"] exI [of _ "(g, i)"]) (auto simp: group_match_def fire_def)
  qed
qed simp

lemma match_pops_false:
  "match_pops v ps gs = (False, qs, gs') \<Longrightarrow>
   qs = [] \<and> gs' = gs \<and> (\<forall>r \<in> set ps. gr_match (gs (fst r)))"
  by (induction v ps gs rule: match_pops.induct) (auto simp: group_match_def split: if_splits)

lemma match_pops_true:
  "match_pops v ps gs = (True, qs, gs') \<Longrightarrow>
   \<exists>pre r. ps = pre @ r # qs \<and> \<not> gr_match (gs (fst r)) \<and> gs' = fire r (Some v) gs \<and>
     (\<forall>r \<in> set pre. gr_match (gs (fst r)))"
proof (induction v ps gs rule: match_pops.induct)
  case (2 v g i ps gs)
  show ?case
  proof (cases "gr_match (gs g)")
    case True
    with "2.prems" have "match_pops v ps gs = (True, qs, gs')" by (simp add: group_match_def)
    with True "2.IH" [of False gs] obtain pre r where "ps = pre @ r # qs"
      "\<not> gr_match (gs (fst r))" "gs' = fire r (Some v) gs" "\<forall>r \<in> set pre. gr_match (gs (fst r))"
      by (auto simp: group_match_def)
    with True show ?thesis
      by (intro exI [of _ "(g, i) # pre"] exI [of _ r]) simp
  next
    case False
    with "2.prems" show ?thesis
      by (intro exI [of _ "[]"] exI [of _ "(g, i)"]) (auto simp: group_match_def fire_def)
  qed
qed simp

text \<open>
  A step on channel \<open>c\<close> that dequeues stale operations and perhaps fires the first one that is
  not: \<open>pre\<close> is stale, \<open>mid\<close> the fired operation.
\<close>

lemma set_chan_simps [simp]:
  "chans (set_chan c ch gs s) c' = (if c' = c then ch else chans s c')"
  "groups (set_chan c ch gs s) = gs" "fresh (set_chan c ch gs s) = fresh s"
  by (simp_all add: set_chan_def)

lemma fire_simps [simp]:
  "gr_match (fire r vo gs g) \<longleftrightarrow> g = fst r \<or> gr_match (gs g)"
  "gr_ops (fire r vo gs g) = gr_ops (gs g)" "gr_open (fire r vo gs g) = gr_open (gs g)"
  "gr_wait (fire r vo gs g) = gr_wait (gs g)" "gr_phase (fire r vo gs g) = gr_phase (gs g)"
  "gr_fired (fire r vo gs g) = (if g = fst r then Some (snd r, vo) else gr_fired (gs g))"
  by (simp_all add: fire_def)

lemma shrinks_pushes_none:
  assumes "match_pushes (ch_pushes (chans s c)) (groups s) = (None, qs, gs)"
    "ch_open ch = ch_open (chans s c)" "ch_max ch = ch_max (chans s c)"
    "ch_pops ch = ch_pops (chans s c)" "ch_pushes ch = qs"
  shows "shrinks s (set_chan c ch gs s)"
  using match_pushes_none [OF assms(1)] assms(2-)
  by (auto simp: shrinks_def chan_shrinks_def group_shrinks_def stale_def)

lemma shrinks_pushes_some:
  assumes "match_pushes (ch_pushes (chans s c)) (groups s) = (Some v, qs, gs)"
    "ch_open ch = ch_open (chans s c)" "ch_max ch = ch_max (chans s c)"
    "ch_pops ch = ch_pops (chans s c)" "ch_pushes ch = qs"
  shows "shrinks s (set_chan c ch gs s)"
proof -
  from match_pushes_some [OF assms(1)] obtain pre r where m:
    "ch_pushes (chans s c) = pre @ (r, v) # qs" "gs = fire r None (groups s)"
    "\<forall>p \<in> set pre. gr_match (groups s (fst (fst p)))"
    by auto
  have "suffix qs (ch_pushes (chans s c))" unfolding m(1) by (simp add: suffix_def)
  moreover have "(fst r, snd r) \<in> set (map fst (ch_pushes (chans s c)))" unfolding m(1) by simp
  then have "has_entry s (fst r)" unfolding has_entry_def by blast
  ultimately show ?thesis using m assms(2-)
    unfolding shrinks_def chan_shrinks_def group_shrinks_def stale_def
    by (auto 0 3)
qed

lemma shrinks_pops_false:
  assumes "match_pops v (ch_pops (chans s c)) (groups s) = (False, qs, gs)"
    "ch_open ch = ch_open (chans s c)" "ch_max ch = ch_max (chans s c)"
    "ch_pushes ch = ch_pushes (chans s c)" "ch_pops ch = qs"
  shows "shrinks s (set_chan c ch gs s)"
  using match_pops_false [OF assms(1)] assms(2-)
  by (auto simp: shrinks_def chan_shrinks_def group_shrinks_def stale_def)

lemma shrinks_pops_true:
  assumes "match_pops v (ch_pops (chans s c)) (groups s) = (True, qs, gs)"
    "ch_open ch = ch_open (chans s c)" "ch_max ch = ch_max (chans s c)"
    "ch_pushes ch = ch_pushes (chans s c)" "ch_pops ch = qs"
  shows "shrinks s (set_chan c ch gs s)"
proof -
  from match_pops_true [OF assms(1)] obtain pre r where m:
    "ch_pops (chans s c) = pre @ r # qs" "gs = fire r (Some v) (groups s)"
    "\<forall>r \<in> set pre. gr_match (groups s (fst r))"
    by auto
  have "suffix qs (ch_pops (chans s c))" unfolding m(1) by (simp add: suffix_def)
  moreover have "(fst r, snd r) \<in> set (ch_pops (chans s c))" unfolding m(1) by simp
  then have "has_entry s (fst r)" unfolding has_entry_def by blast
  ultimately show ?thesis using m assms(2-)
    unfolding shrinks_def chan_shrinks_def group_shrinks_def stale_def
    by (auto 0 3)
qed

lemma shrinks_none:
  assumes "ch_open ch = ch_open (chans s c)" "ch_max ch = ch_max (chans s c)"
    "ch_pushes ch = ch_pushes (chans s c)" "ch_pops ch = ch_pops (chans s c)"
  shows "shrinks s (set_chan c ch (groups s) s)"
  using assms by (auto simp: shrinks_def chan_shrinks_def group_shrinks_def)

lemmas shrinks_intros = shrinks_refl shrinks_none shrinks_pushes_none shrinks_pushes_some
  shrinks_pops_false shrinks_pops_true
lemma shrinks_subsets:
  assumes "shrinks s t"
  shows "set (ch_pops (chans t c)) \<subseteq> set (ch_pops (chans s c))"
    "set (ch_pushes (chans t c)) \<subseteq> set (ch_pushes (chans s c))"
proof -
  have "suffix (ch_pops (chans t c)) (ch_pops (chans s c))"
    "suffix (ch_pushes (chans t c)) (ch_pushes (chans s c))"
    using assms by (simp_all add: shrinks_def chan_shrinks_def)
  then show "set (ch_pops (chans t c)) \<subseteq> set (ch_pops (chans s c))"
    "set (ch_pushes (chans t c)) \<subseteq> set (ch_pushes (chans s c))"
    using set_mono_suffix by blast+
qed

lemma shrinks_stale: "shrinks s t \<Longrightarrow> stale s r \<Longrightarrow> stale t r"
  using stale_mono [of s t r] by (simp add: shrinks_def)

lemma waits_ok_shrinks:
  assumes "shrinks s t" "waits_ok s c" "ch_buffer (chans t c) = ch_buffer (chans s c)"
  shows "waits_ok t c"
proof -
  note sub = shrinks_subsets [OF assms(1), of c] and st = shrinks_stale [OF assms(1)]
  have m: "ch_max (chans t c) = ch_max (chans s c)"
    using assms(1) by (simp add: shrinks_def chan_shrinks_def)
  have pop: "r \<in> set (ch_pops (chans s c)) \<and> \<not> stale s r"
    if "r \<in> set (ch_pops (chans t c))" "\<not> stale t r" for r
    using that sub(1) st by blast
  have push: "p \<in> set (ch_pushes (chans s c)) \<and> \<not> stale s (fst p)"
    if "p \<in> set (ch_pushes (chans t c))" "\<not> stale t (fst p)" for p
    using that sub(2) st by blast
  show ?thesis
    using assms(2) pop push unfolding waits_ok_def Let_def m assms(3) by blast
qed

lemma shrinks_enqueued:
  assumes "shrinks s t" "\<not> gr_match (groups t g)"
  shows "enqueued t g i \<longleftrightarrow> enqueued s g i"
proof -
  obtain c k where op: "gr_ops (groups s g) ! i = (c, k)" by (cases "gr_ops (groups s g) ! i")
  have same: "gr_ops (groups t g) = gr_ops (groups s g)"
    using assms(1) by (simp add: shrinks_def group_shrinks_def)
  have live: "\<not> stale t (g, i)" using assms(2) by (simp add: stale_def)
  have "chan_shrinks s t c" using assms(1) by (simp add: shrinks_def)
  with shrinks_subsets [OF assms(1), of c] live show ?thesis
    by (auto simp: enqueued_def op same chan_shrinks_def split: op_kind.split)
qed

lemma shrinks_entries: "shrinks s t \<Longrightarrow> entries_ok s c \<Longrightarrow> entries_ok t c"
proof -
  assume sh: "shrinks s t" and ok: "entries_ok s c"
  have "entry_ok t c r k \<longleftrightarrow> entry_ok s c r k" for r k
    using sh by (simp add: entry_ok_def shrinks_def group_shrinks_def Let_def)
  with ok shrinks_subsets [OF sh, of c] show ?thesis unfolding entries_ok_def by blast
qed

text \<open>A group all of whose channels are closed has no operation in a queue.\<close>

lemma closed_no_entry:
  assumes "sys_inv s" "\<forall>i < length (gr_ops (groups s g)). op_closed s g i"
  shows "\<not> has_entry s g"
proof
  assume "has_entry s g"
  then obtain c i k where e: "entry_ok s c (g, i) k" "ch_pops (chans s c) \<noteq> [] \<or> ch_pushes (chans s c) \<noteq> []"
    using assms(1) unfolding has_entry_def sys_inv_def entries_ok_def by fastforce
  then have "i < length (gr_ops (groups s g))" "gr_ops (groups s g) ! i = (c, k)"
    by (auto simp: entry_ok_def Let_def)
  with assms(2) have "\<not> ch_open (chans s c)" by (force simp: op_closed_def)
  with assms(1) e(2) show False by (auto simp: sys_inv_def chan_ok_def Let_def)
qed

lemma shrinks_group_ok:
  assumes "shrinks s t" "sys_inv s"
  shows "group_ok t g"
proof -
  have g: "group_shrinks s t g" and ok: "group_ok s g" and c: "\<And>c. chan_shrinks s t c"
    using assms by (auto simp: shrinks_def sys_inv_def)
  have cl: "op_closed t g i = op_closed s g i" for i
    using g c by (simp add: op_closed_def group_shrinks_def chan_shrinks_def)
  have "\<not> gr_match (groups t g)"
    if "\<not> gr_match (groups s g)" "\<forall>i < length (gr_ops (groups s g)). op_closed s g i"
    using closed_no_entry [OF assms(2) that(2)] g that(1) by (auto simp: group_shrinks_def)
  moreover have "gr_match (groups t g) \<longleftrightarrow> gr_fired (groups t g) \<noteq> None"
    using g ok by (simp add: group_shrinks_def group_ok_def Let_def)
  moreover have eq: "gr_ops (groups t g) = gr_ops (groups s g)"
    "gr_open (groups t g) = gr_open (groups s g)" "gr_phase (groups t g) = gr_phase (groups s g)"
    "gr_wait (groups t g) = gr_wait (groups s g)"
    "gr_match (groups s g) \<Longrightarrow> gr_match (groups t g)"
    using g by (simp_all add: group_shrinks_def)
  moreover have "gr_open (groups s g) = int (card {i. i < length (gr_ops (groups s g)) \<and> enqueued t g i}) \<and>
      (\<forall>i < length (gr_ops (groups s g)). enqueued t g i \<or> op_closed s g i)"
    if "gr_phase (groups s g) = Waiting" "\<not> gr_match (groups t g)"
    using ok that eq(5) unfolding group_ok_def Let_def
    by (simp add: shrinks_enqueued [OF assms(1) that(2)]) blast
  moreover have "(st = success \<longrightarrow> gr_match (groups s g)) \<and>
      (st = closed \<longrightarrow> \<not> gr_match (groups s g) \<and> (\<forall>i < length (gr_ops (groups s g)). op_closed s g i)) \<and>
      (st = unavailable \<longrightarrow> gr_wait (groups s g) = timed)"
    if "gr_phase (groups s g) = Done st \<or> (\<exists>is. gr_phase (groups s g) = Leaving st is)" for st
    using ok that unfolding group_ok_def Let_def by blast
  ultimately show ?thesis
    unfolding group_ok_def Let_def cl eq by simp
qed

lemma inv_shrinks:
  assumes "sys_inv s" "shrinks s t"
    and "\<And>c. waits_ok t c"
    and "\<And>c. length (ch_buffer (chans t c)) \<le> ch_max (chans t c)"
    and "\<And>c. ch_sent (chans t c) = ch_taken (chans t c) @ ch_buffer (chans t c)"
  shows "sys_inv t"
proof -
  have "chan_ok t c" for c
  proof -
    have ok: "chan_ok s c" using assms(1) by (simp add: sys_inv_def)
    have sh: "chan_shrinks s t c" using assms(2) by (simp add: shrinks_def)
    then have suf: "suffix (ch_pops (chans t c)) (ch_pops (chans s c))"
      "suffix (map fst (ch_pushes (chans t c))) (map fst (ch_pushes (chans s c)))"
      by (auto simp: chan_shrinks_def suffix_def)
    with ok have "distinct (ch_pops (chans t c))" "distinct (map fst (ch_pushes (chans t c)))"
      by (auto simp: chan_ok_def Let_def suffix_def)
    with ok sh assms(4) [of c] assms(5) [of c] show ?thesis
      unfolding chan_ok_def chan_shrinks_def Let_def by auto
  qed
  moreover have "entries_ok t c" for c
    using assms(1) shrinks_entries [OF assms(2)] by (simp add: sys_inv_def)
  ultimately show ?thesis
    using assms(3) shrinks_group_ok [OF assms(2,1)] by (simp add: sys_inv_def)
qed

text \<open>A step on one channel keeps the invariant when it keeps it there.\<close>

lemma inv_one_channel:
  assumes "sys_inv s" "shrinks s t" "\<And>c'. c' \<noteq> c \<Longrightarrow> chans t c' = chans s c'"
    and "waits_ok t c" "length (ch_buffer (chans t c)) \<le> ch_max (chans t c)"
    and "ch_sent (chans t c) = ch_taken (chans t c) @ ch_buffer (chans t c)"
  shows "sys_inv t"
proof (rule inv_shrinks [OF assms(1,2)])
  fix c'
  have ok: "chan_ok s c'" "waits_ok s c'" using assms(1) by (simp_all add: sys_inv_def)
  show "waits_ok t c'"
    using assms(3,4) ok waits_ok_shrinks [OF assms(2) ok(2)] by (cases "c' = c") auto
  show "length (ch_buffer (chans t c')) \<le> ch_max (chans t c')"
    "ch_sent (chans t c') = ch_taken (chans t c') @ ch_buffer (chans t c')"
    using assms(3,5,6) ok by (cases "c' = c"; auto simp: chan_ok_def Let_def)+
qed
section \<open>Attempts\<close>

lemma pop_now_shrinks: "pop_now c s = (st, v, t) \<Longrightarrow> shrinks s t"
  unfolding pop_now_def buffer_pop_def buffer_push_def hand_over_def Let_def
  by (auto split: if_splits prod.splits option.splits intro!: shrinks_refl shrinks_none
      elim!: shrinks_pushes_none shrinks_pushes_some)

lemma push_now_shrinks: "push_now c v s = (st, t) \<Longrightarrow> shrinks s t"
  unfolding push_now_def buffer_push_def hand_over_def Let_def
  by (auto split: if_splits prod.splits bool.splits intro!: shrinks_refl
      elim!: shrinks_pops_false shrinks_pops_true)

lemma pop_now_other: "pop_now c s = (st, v, t) \<Longrightarrow> c' \<noteq> c \<Longrightarrow> chans t c' = chans s c'"
  by (auto simp: pop_now_def buffer_pop_def Let_def split: if_splits prod.splits option.splits)

lemma push_now_other: "push_now c v s = (st, t) \<Longrightarrow> c' \<noteq> c \<Longrightarrow> chans t c' = chans s c'"
  by (auto simp: push_now_def Let_def split: if_splits prod.splits bool.splits)

lemma waits_ok_live:
  assumes "waits_ok s c"
  shows "r \<in> set (ch_pops (chans s c)) \<Longrightarrow> \<not> stale s r \<Longrightarrow> ch_buffer (chans s c) = []"
    and "p \<in> set (ch_pushes (chans s c)) \<Longrightarrow> \<not> stale s (fst p) \<Longrightarrow> 0 < ch_max (chans s c) \<Longrightarrow>
      ch_buffer (chans s c) \<noteq> []"
    and "r \<in> set (ch_pops (chans s c)) \<Longrightarrow> p \<in> set (ch_pushes (chans s c)) \<Longrightarrow> \<not> stale s r \<Longrightarrow>
      \<not> stale s (fst p) \<Longrightarrow> fst r = fst (fst p)"
  using assms by (auto simp: waits_ok_def Let_def)

lemma waits_okI:
  assumes "\<And>r. r \<in> set (ch_pops (chans s c)) \<Longrightarrow> \<not> stale s r \<Longrightarrow> ch_buffer (chans s c) = []"
    and "\<And>p. p \<in> set (ch_pushes (chans s c)) \<Longrightarrow> \<not> stale s (fst p) \<Longrightarrow> 0 < ch_max (chans s c) \<Longrightarrow>
      ch_buffer (chans s c) \<noteq> []"
    and "\<And>r p. r \<in> set (ch_pops (chans s c)) \<Longrightarrow> p \<in> set (ch_pushes (chans s c)) \<Longrightarrow> \<not> stale s r \<Longrightarrow>
      \<not> stale s (fst p) \<Longrightarrow> fst r = fst (fst p)"
  shows "waits_ok s c"
  using assms by (auto simp: waits_ok_def Let_def)

text \<open>
  Where the channel's waiting operations come from: after a step that only dequeues, what is still
  live was live before. \<open>waits_ok\<close> then follows from two facts on the new buffer.
\<close>

lemma waits_ok_step:
  assumes "shrinks s t" "waits_ok s c"
    and "\<And>r. r \<in> set (ch_pops (chans s c)) \<Longrightarrow> \<not> stale s r \<Longrightarrow> \<not> stale t r \<Longrightarrow>
      r \<in> set (ch_pops (chans t c)) \<Longrightarrow> ch_buffer (chans t c) = []"
    and "\<And>p. p \<in> set (ch_pushes (chans s c)) \<Longrightarrow> \<not> stale s (fst p) \<Longrightarrow> \<not> stale t (fst p) \<Longrightarrow>
      p \<in> set (ch_pushes (chans t c)) \<Longrightarrow> 0 < ch_max (chans s c) \<Longrightarrow> ch_buffer (chans t c) \<noteq> []"
  shows "waits_ok t c"
proof -
  note sub = shrinks_subsets [OF assms(1), of c] and st = shrinks_stale [OF assms(1)]
  have m: "ch_max (chans t c) = ch_max (chans s c)"
    using assms(1) by (simp add: shrinks_def chan_shrinks_def)
  show ?thesis
  proof (rule waits_okI)
    show "ch_buffer (chans t c) = []" if "r \<in> set (ch_pops (chans t c))" "\<not> stale t r" for r
      using that assms(3) [of r] sub st by blast
    show "ch_buffer (chans t c) \<noteq> []"
      if "p \<in> set (ch_pushes (chans t c))" "\<not> stale t (fst p)" "0 < ch_max (chans t c)" for p
    proof -
      have "p \<in> set (ch_pushes (chans s c))" "\<not> stale s (fst p)" using that(1,2) sub(2) st by blast+
      from assms(4) [OF this that(2,1)] that(3) show ?thesis unfolding m .
    qed
    show "fst r = fst (fst p)"
      if "r \<in> set (ch_pops (chans t c))" "p \<in> set (ch_pushes (chans t c))" "\<not> stale t r"
        "\<not> stale t (fst p)" for r p
      using that waits_ok_live(3) [OF assms(2)] sub st by blast
  qed
qed

lemma pop_now_inv:
  assumes inv: "sys_inv s" and p: "pop_now c s = (st, v, t)"
  shows "sys_inv t"
proof -
  let ?ch = "chans s c"
  have ok: "chan_ok s c" "waits_ok s c" using inv by (simp_all add: sys_inv_def)
  note sh = pop_now_shrinks [OF p]
  have live: "ch_pops ?ch = [] \<or> True" by simp
  have len: "length (ch_buffer ?ch) \<le> ch_max ?ch" and sent: "ch_sent ?ch = ch_taken ?ch @ ch_buffer ?ch"
    using ok(1) by (auto simp: chan_ok_def Let_def)
  have max: "ch_max (chans t c) = ch_max ?ch" using sh by (simp add: shrinks_def chan_shrinks_def)
  show ?thesis
  proof (cases "ch_buffer ?ch")
    case Nil
    have t: "ch_buffer (chans t c) = [] \<and> ch_sent (chans t c) = ch_taken (chans t c)"
      using p Nil sent unfolding pop_now_def Let_def
      by (auto simp: buffer_is_empty_def hand_over_def split: if_splits prod.splits option.splits)
    have "waits_ok t c"
      using t Nil waits_ok_live(2) [OF ok(2)] by (intro waits_ok_step [OF sh ok(2)]) auto
    with t show ?thesis
      by (intro inv_one_channel [OF inv sh pop_now_other [OF p]]) auto
  next
    case (Cons x xs)
    have pops: "stale s r" if "r \<in> set (ch_pops ?ch)" for r
      using waits_ok_live(1) [OF ok(2) that] Cons by (cases "stale s r") simp_all
    have t: "(ch_buffer (chans t c) = xs \<and> ch_pushes (chans t c) = [] \<or>
        (\<exists>w. ch_buffer (chans t c) = xs @ [w])) \<and>
        ch_sent (chans t c) = ch_taken (chans t c) @ ch_buffer (chans t c)"
      using p Cons sent ok(1) unfolding pop_now_def Let_def
      by (auto simp: buffer_is_empty_def buffer_pop_def buffer_push_def chan_ok_def Let_def
          split: if_splits prod.splits option.splits dest: match_pushes_none)
    then have "waits_ok t c"
      using pops by (intro waits_ok_step [OF sh ok(2)]) auto
    moreover have "length (ch_buffer (chans t c)) \<le> ch_max (chans t c)"
      using t len Cons max by auto
    ultimately show ?thesis using t
      by (intro inv_one_channel [OF inv sh pop_now_other [OF p]]) auto
  qed
qed

lemma push_now_inv:
  assumes inv: "sys_inv s" and p: "push_now c v s = (st, t)"
  shows "sys_inv t"
proof -
  let ?ch = "chans s c"
  have ok: "chan_ok s c" "waits_ok s c" using inv by (simp_all add: sys_inv_def)
  note sh = push_now_shrinks [OF p]
  have len: "length (ch_buffer ?ch) \<le> ch_max ?ch" and sent: "ch_sent ?ch = ch_taken ?ch @ ch_buffer ?ch"
    using ok(1) by (auto simp: chan_ok_def Let_def)
  have max: "ch_max (chans t c) = ch_max ?ch" using sh by (simp add: shrinks_def chan_shrinks_def)
  consider "ch_buffer (chans t c) = ch_buffer ?ch" "ch_sent (chans t c) = ch_taken (chans t c) @ ch_buffer ?ch"
    | "ch_buffer (chans t c) = ch_buffer ?ch @ [v]" "ch_pops (chans t c) = []"
      "length (ch_buffer ?ch) < ch_max ?ch" "ch_sent (chans t c) = ch_taken (chans t c) @ ch_buffer (chans t c)"
  proof (cases "\<exists>ps gs. ch_open ?ch \<and> match_pops v (ch_pops ?ch) (groups s) = (True, ps, gs)")
    case True
    then obtain ps gs where m: "match_pops v (ch_pops ?ch) (groups s) = (True, ps, gs)" by auto
    from match_pops_true [OF m] obtain pre r where "ch_pops ?ch = pre @ r # ps" "\<not> gr_match (groups s (fst r))"
      by blast
    then have "r \<in> set (ch_pops ?ch)" "\<not> stale s r" by (simp_all add: stale_def)
    then have "ch_buffer ?ch = []" by (rule waits_ok_live(1) [OF ok(2)])
    with True m p sent that(1) show thesis
      by (auto simp: push_now_def Let_def hand_over_def split: if_splits)
  next
    case False
    with p sent that show thesis
      by (auto simp: push_now_def Let_def buffer_push_def buffer_is_full_def split: if_splits prod.splits bool.splits
          dest: match_pops_false)
  qed
  then show ?thesis
  proof cases
    case 1
    have "waits_ok t c" by (rule waits_ok_shrinks [OF sh ok(2) 1(1)])
    then show ?thesis using 1 len max
      by (intro inv_one_channel [OF inv sh push_now_other [OF p]]) auto
  next
    case 2
    then have "waits_ok t c" by (intro waits_ok_step [OF sh ok(2)]) auto
    then show ?thesis using 2 max
      by (intro inv_one_channel [OF inv sh push_now_other [OF p]]) auto
  qed
qed
lemma op_now_shrinks: "op_now op s = (st, v, t) \<Longrightarrow> shrinks s t"
  unfolding op_now_def
  by (auto split: prod.splits op_kind.splits dest: pop_now_shrinks push_now_shrinks)

lemma op_now_inv: "sys_inv s \<Longrightarrow> op_now op s = (st, v, t) \<Longrightarrow> sys_inv t"
  unfolding op_now_def
  by (auto split: prod.splits op_kind.splits dest: pop_now_inv push_now_inv)

text \<open>
  A failed attempt on an open channel leaves the buffer as it is, and the queue of the opposite
  operations empty.
\<close>

definition no_chance :: "'a sys \<Rightarrow> nat \<times> 'a op_kind \<Rightarrow> bool" where
  "no_chance s op \<longleftrightarrow>
     (let ch = chans s (fst op) in
      ch_open ch \<longrightarrow>
        (case snd op of
           Pop \<Rightarrow> ch_buffer ch = [] \<and> ch_pushes ch = []
         | Push v \<Rightarrow> ch_max ch \<le> length (ch_buffer ch) \<and> ch_pops ch = []))"

lemma op_now_fails:
  assumes "op_now op s = (st, v, t)" "st \<noteq> success"
  shows "no_chance t op" "ch_buffer (chans t c) = ch_buffer (chans s c)"
  using assms unfolding op_now_def no_chance_def pop_now_def push_now_def Let_def
  by (auto simp: buffer_is_empty_def buffer_is_full_def split: prod.splits op_kind.splits if_splits
      option.splits bool.splits dest: match_pushes_none match_pops_false)

lemma no_chance_shrinks:
  assumes "shrinks s t" "ch_buffer (chans t (fst op)) = ch_buffer (chans s (fst op))" "no_chance s op"
  shows "no_chance t op"
  using assms shrinks_subsets [OF assms(1), of "fst op"]
  by (auto simp: no_chance_def shrinks_def chan_shrinks_def Let_def split: op_kind.splits)

lemma attempt_all_fails:
  "attempt_all ops s = (None, t) \<Longrightarrow>
   shrinks s t \<and> (\<forall>c. ch_buffer (chans t c) = ch_buffer (chans s c)) \<and> (\<forall>op \<in> set ops. no_chance t op)"
proof (induction ops s arbitrary: t rule: attempt_all.induct)
  case (2 op ops s)
  obtain st v s1 where o: "op_now op s = (st, v, s1)" by (metis surj_pair)
  with "2.prems" have f: "st \<noteq> success" "attempt_all ops s1 = (None, t)"
    by (auto split: if_splits prod.splits option.splits)
  have ih: "shrinks s1 t \<and> (\<forall>c. ch_buffer (chans t c) = ch_buffer (chans s1 c)) \<and>
      (\<forall>op \<in> set ops. no_chance t op)"
    using "2.IH" [OF o [symmetric] _ f(1) f(2)] by simp
  have "no_chance t op"
    using ih op_now_fails(1) [OF o f(1)] by (intro no_chance_shrinks [of s1 t]) auto
  with ih op_now_fails(2) [OF o f(1)] shrinks_trans [OF op_now_shrinks [OF o]] show ?case by auto
qed (simp add: shrinks_refl)

lemma attempt_all_inv: "sys_inv s \<Longrightarrow> attempt_all ops s = (r, t) \<Longrightarrow> sys_inv t"
proof (induction ops s arbitrary: r t rule: attempt_all.induct)
  case (2 op ops s)
  obtain st v s1 where o: "op_now op s = (st, v, s1)" by (metis surj_pair)
  note inv = op_now_inv [OF "2.prems"(1) o]
  show ?case
  proof (cases "st = success")
    case True
    with "2.prems"(2) o inv show ?thesis by simp
  next
    case False
    obtain r' t' where a: "attempt_all ops s1 = (r', t')" by (metis surj_pair)
    with "2.IH" [OF o [symmetric] refl False inv] have "sys_inv t'" by simp
    with "2.prems"(2) o False a show ?thesis by (auto split: option.splits)
  qed
qed simp

section \<open>Waiting\<close>

text \<open>What \<open>activate\<close> appends to the queues of an open channel \<open>c\<close>.\<close>

fun new_pops :: "nat \<Rightarrow> nat \<Rightarrow> nat \<Rightarrow> (nat \<times> 'a op_kind) list \<Rightarrow> op_ref list" where
  "new_pops g c i [] = []"
| "new_pops g c i (op # ops) = (if op = (c, Pop) then [(g, i)] else []) @ new_pops g c (Suc i) ops"

fun new_pushes :: "nat \<Rightarrow> nat \<Rightarrow> nat \<Rightarrow> (nat \<times> 'a op_kind) list \<Rightarrow> (op_ref \<times> 'a) list" where
  "new_pushes g c i [] = []"
| "new_pushes g c i (op # ops) =
     (case op of (c', Push v) \<Rightarrow> if c' = c then [((g, i), v)] else [] | _ \<Rightarrow> []) @
     new_pushes g c (Suc i) ops"

lemma new_pops_set:
  "(g', j) \<in> set (new_pops g c i ops) \<longleftrightarrow>
     g' = g \<and> i \<le> j \<and> j < i + length ops \<and> ops ! (j - i) = (c, Pop)"
proof (induction ops arbitrary: i j g')
  case (Cons op ops)
  have "j - i = Suc (j - Suc i)" if "Suc i \<le> j" for i j :: nat using that by simp
  then show ?case by (cases "j = i") (auto simp: Cons.IH)
qed simp

lemma new_pushes_set:
  "((g', j), v) \<in> set (new_pushes g c i ops) \<longleftrightarrow>
     g' = g \<and> i \<le> j \<and> j < i + length ops \<and> ops ! (j - i) = (c, Push v)"
proof (induction ops arbitrary: i j g')
  case (Cons op ops)
  have "j - i = Suc (j - Suc i)" if "Suc i \<le> j" for i j :: nat using that by simp
  then show ?case by (cases "j = i") (auto simp: Cons.IH split: prod.splits op_kind.splits)
qed simp

lemma new_pops_distinct: "distinct (new_pops g c i ops)"
  by (induction ops arbitrary: i) (auto simp: new_pops_set)

lemma new_pushes_distinct: "distinct (map fst (new_pushes g c i ops))"
proof (induction ops arbitrary: i)
  case (Cons op ops)
  have "(g, i) \<notin> set (map fst (new_pushes g c (Suc i) ops))"
    by (auto simp: new_pushes_set)
  with Cons.IH [of "Suc i"] show ?case by (auto split: prod.splits op_kind.splits)
qed simp

lemma initialize_op_chan:
  "chans (initialize_op g i op s) c =
     (if ch_open (chans s c)
      then (chans s c)\<lparr>ch_pops := ch_pops (chans s c) @ new_pops g c i [op],
        ch_pushes := ch_pushes (chans s c) @ new_pushes g c i [op]\<rparr>
      else chans s c)"
  by (cases op; cases "snd op") (auto simp: initialize_op_def start_waiting_def)

lemma activate_ops_chan:
  "chans (activate_ops g i ops s) c =
     (if ch_open (chans s c)
      then (chans s c)\<lparr>ch_pops := ch_pops (chans s c) @ new_pops g c i ops,
        ch_pushes := ch_pushes (chans s c) @ new_pushes g c i ops\<rparr>
      else chans s c)"
proof (induction ops arbitrary: i s)
  case (Cons op ops)
  then show ?case by (simp add: initialize_op_chan)
qed simp

lemma activate_ops_group:
  "groups (activate_ops g i ops s) g' =
     (if g' = g then (groups s g)\<lparr>gr_open := gr_open (groups s g) +
        int (length (filter (\<lambda>op. ch_open (chans s (fst op))) ops))\<rparr> else groups s g') \<and>
   fresh (activate_ops g i ops s) = fresh s"
proof (induction ops arbitrary: i s)
  case (Cons op ops)
  have "ch_open (chans (initialize_op g i op s) d) = ch_open (chans s d)" for d
    by (simp add: initialize_op_chan)
  then show ?case by (auto simp: Cons.IH initialize_op_def)
qed simp
lemma inv_entry_fresh:
  assumes "sys_inv s"
  shows "r \<in> set (ch_pops (chans s c)) \<Longrightarrow> fst r < fresh s"
    and "p \<in> set (ch_pushes (chans s c)) \<Longrightarrow> fst (fst p) < fresh s"
  using assms by (auto simp: sys_inv_def entries_ok_def entry_ok_def Let_def)

lemma no_chance_open:
  "no_chance s (c, Pop) \<Longrightarrow> ch_open (chans s c) \<Longrightarrow> ch_buffer (chans s c) = [] \<and> ch_pushes (chans s c) = []"
  "no_chance s (c, Push v) \<Longrightarrow> ch_open (chans s c) \<Longrightarrow>
     ch_max (chans s c) \<le> length (ch_buffer (chans s c)) \<and> ch_pops (chans s c) = []"
  by (auto simp: no_chance_def Let_def)

lemma group_ok_cong:
  assumes "groups t g = groups s g" "\<And>i. enqueued t g i = enqueued s g i"
    "\<And>i. op_closed t g i = op_closed s g i"
  shows "group_ok t g = group_ok s g"
  unfolding group_ok_def assms ..

lemma activate_inv:
  assumes inv: "sys_inv s" and no: "\<forall>op \<in> set ops. no_chance s op"
  shows "sys_inv (activate w ops s)"
proof -
  define g where "g = fresh s"
  define t where "t = activate w ops s"
  note fresh = inv_entry_fresh [OF inv, folded g_def]
  have ch: "chans t c = (if ch_open (chans s c)
      then (chans s c)\<lparr>ch_pops := ch_pops (chans s c) @ new_pops g c 0 ops,
        ch_pushes := ch_pushes (chans s c) @ new_pushes g c 0 ops\<rparr>
      else chans s c)" for c
    by (simp add: t_def activate_def g_def activate_ops_chan)
  have gr: "groups t g' = (if g' = g then \<lparr>gr_ops = ops, gr_match = False,
      gr_open = int (length (filter (\<lambda>op. ch_open (chans s (fst op))) ops)), gr_fired = None,
      gr_wait = w, gr_phase = Waiting\<rparr> else groups s g')" and fr: "fresh t = Suc g" for g'
    by (simp_all add: t_def activate_def g_def activate_ops_group)
  have old: "stale t r = stale s r" if "fst r < g" for r using that by (simp add: stale_def gr)
  have pops: "r \<in> set (ch_pops (chans t c)) \<longleftrightarrow> r \<in> set (ch_pops (chans s c)) \<or>
      ch_open (chans s c) \<and> fst r = g \<and> snd r < length ops \<and> ops ! snd r = (c, Pop)" for r c
    using new_pops_set [of "fst r" "snd r" g c 0 ops] by (auto simp: ch)
  have pushes: "p \<in> set (ch_pushes (chans t c)) \<longleftrightarrow> p \<in> set (ch_pushes (chans s c)) \<or>
      ch_open (chans s c) \<and> fst (fst p) = g \<and> snd (fst p) < length ops \<and>
      ops ! snd (fst p) = (c, Push (snd p))" for p c
    using new_pushes_set [of "fst (fst p)" "snd (fst p)" "snd p" g c 0 ops] by (auto simp: ch)
  have "chan_ok t c" for c
  proof -
    have "chan_ok s c" using inv by (simp add: sys_inv_def)
    moreover have "set (ch_pops (chans s c)) \<inter> set (new_pops g c 0 ops) = {}"
      using fresh(1) [of _ c] by (force simp: new_pops_set)
    moreover have "fst ` set (ch_pushes (chans s c)) \<inter> fst ` set (new_pushes g c 0 ops) = {}"
      using fresh(2) [of _ c] by (force simp: new_pushes_set)
    ultimately show ?thesis
      using new_pops_distinct [of g c 0 ops] new_pushes_distinct [of g c 0 ops]
      by (auto simp: chan_ok_def Let_def ch)
  qed
  moreover have "waits_ok t c" for c
  proof -
    have ok: "waits_ok s c" using inv by (simp add: sys_inv_def)
    have buf: "ch_buffer (chans t c) = ch_buffer (chans s c)" "ch_max (chans t c) = ch_max (chans s c)"
      by (simp_all add: ch)
    have np: "ch_buffer (chans s c) = [] \<and> ch_pushes (chans s c) = []"
      if "ch_open (chans s c)" "i < length ops" "ops ! i = (c, Pop)" for i
      using no_chance_open(1) [of s c] no that nth_mem [OF that(2)] by auto
    have nq: "ch_max (chans s c) \<le> length (ch_buffer (chans s c)) \<and> ch_pops (chans s c) = []"
      if "ch_open (chans s c)" "i < length ops" "ops ! i = (c, Push v)" for i v
      using no_chance_open(2) [of s c v] no that nth_mem [OF that(2)] by auto
    show ?thesis
    proof (rule waits_okI)
      show "ch_buffer (chans t c) = []" if "r \<in> set (ch_pops (chans t c))" "\<not> stale t r" for r
        using that np waits_ok_live(1) [OF ok, of r] fresh(1) [of r c] old [of r]
        unfolding pops buf by blast
      show "ch_buffer (chans t c) \<noteq> []"
        if "p \<in> set (ch_pushes (chans t c))" "\<not> stale t (fst p)" "0 < ch_max (chans t c)" for p
        using that(1)
      proof (unfold pushes, elim disjE conjE)
        assume "p \<in> set (ch_pushes (chans s c))"
        with that waits_ok_live(2) [OF ok this] fresh(2) [of p c] old [of "fst p"] show ?thesis
          unfolding buf by blast
      next
        assume "ch_open (chans s c)" "snd (fst p) < length ops" "ops ! snd (fst p) = (c, Push (snd p))"
        with nq [OF this] that(3) show ?thesis unfolding buf by auto
      qed
      show "fst r = fst (fst p)"
        if "r \<in> set (ch_pops (chans t c))" "p \<in> set (ch_pushes (chans t c))" "\<not> stale t r"
          "\<not> stale t (fst p)" for r p
        using that(1,2) unfolding pops pushes
      proof (elim disjE conjE)
        assume "r \<in> set (ch_pops (chans s c))" "p \<in> set (ch_pushes (chans s c))"
        with that(3,4) show ?thesis
          using waits_ok_live(3) [OF ok, of r p] fresh(1) [of r c] fresh(2) [of p c] old by blast
      qed (use np nq in force)+
    qed
  qed
  moreover have "entries_ok t c" for c
  proof -
    have ok: "entries_ok s c" using inv by (simp add: sys_inv_def)
    have keep: "entry_ok s c r k \<Longrightarrow> entry_ok t c r k" for r k
      by (auto simp: entry_ok_def Let_def gr fr g_def)
    have new: "fst r = g \<Longrightarrow> snd r < length ops \<Longrightarrow> ops ! snd r = (c, k) \<Longrightarrow> entry_ok t c r k" for r k
      by (simp add: entry_ok_def Let_def gr fr)
    show ?thesis unfolding entries_ok_def
    proof (intro conjI ballI)
      show "entry_ok t c r Pop" if "r \<in> set (ch_pops (chans t c))" for r
        using that ok keep new unfolding pops entries_ok_def by blast
      show "entry_ok t c (fst p) (Push (snd p))" if "p \<in> set (ch_pushes (chans t c))" for p
        using that ok keep new unfolding pushes entries_ok_def by blast
    qed
  qed
  moreover have "group_ok t g'" for g'
  proof -
    have opn: "ch_open (chans t c) = ch_open (chans s c)" for c by (simp add: ch)
    show ?thesis
    proof (cases "g' = g")
      case True
      have nin: "(g, i) \<notin> set (ch_pops (chans s c))" "((g, i), v) \<notin> set (ch_pushes (chans s c))" for i c v
        using fresh(1) [of "(g, i)" c] fresh(2) [of "((g, i), v)" c] by auto
      have enq: "enqueued t g i \<longleftrightarrow> ch_open (chans s (fst (ops ! i)))" if "i < length ops" for i
        using that nin pops [of "(g, i)"] pushes [of "((g, i), v)" for v]
        by (auto simp: enqueued_def gr split: prod.split op_kind.split)
      have "length (filter (\<lambda>op. ch_open (chans s (fst op))) ops) =
          card {i. i < length ops \<and> enqueued t g i}"
        unfolding length_filter_conv_card using enq by (metis (no_types, lifting))
      then show ?thesis using True enq by (auto simp: group_ok_def gr op_closed_def opn)
    next
      case False
      have "enqueued t g' i = enqueued s g' i" for i
        using False pops [of "(g', i)"] pushes [of "((g', i), v)" for v]
        by (simp add: enqueued_def gr split: prod.split op_kind.split)
      moreover have "op_closed t g' i = op_closed s g' i" for i
        using False by (simp add: op_closed_def gr opn)
      ultimately have "group_ok t g' = group_ok s g'" using False by (intro group_ok_cong) (simp_all add: gr)
      then show ?thesis using inv by (simp add: sys_inv_def)
    qed
  qed
  ultimately show ?thesis by (simp add: sys_inv_def t_def)
qed
lemma register_inv:
  assumes "sys_inv s" "register_signals w ops s = (r, t)"
  shows "sys_inv t"
proof -
  obtain r' s' where a: "attempt_all ops s = (r', s')" by (metis surj_pair)
  have inv: "sys_inv s'" by (rule attempt_all_inv [OF assms(1) a])
  show ?thesis
  proof (cases r')
    case None
    with a attempt_all_fails [of ops s s'] have "\<forall>op \<in> set ops. no_chance s' op" by simp
    from activate_inv [OF inv this] show ?thesis using assms(2) a None
      by (auto simp: register_signals_def)
  next
    case (Some x)
    with inv assms(2) a show ?thesis by (auto simp: register_signals_def)
  qed
qed

text \<open>Steps that change the phase of one group only.\<close>

lemma end_wait_inv:
  assumes inv: "sys_inv s" and ret: "wait_returns (groups s g)"
  shows "sys_inv (end_wait g s)"
proof -
  let ?t = "end_wait g s"
  let ?gr = "groups s g"
  have ch: "chans ?t = chans s" "fresh ?t = fresh s"
    and gr: "\<And>g'. groups ?t g' = (if g' = g
      then ?gr\<lparr>gr_phase := Leaving (wait_status ?gr) [0..<length (gr_ops ?gr)]\<rparr> else groups s g')"
    by (simp_all add: end_wait_def Let_def)
  have st: "stale ?t r = stale s r" for r by (simp add: stale_def gr)
  have enq: "enqueued ?t g' i = enqueued s g' i" "op_closed ?t g' i = op_closed s g' i" for g' i
    by (auto simp: enqueued_def op_closed_def gr ch split: prod.split op_kind.split)
  have ok: "chan_ok s c" "waits_ok s c" "entries_ok s c" "group_ok s g'" for c g'
    using inv by (simp_all add: sys_inv_def)
  have "chan_ok ?t c" "waits_ok ?t c" for c
    using ok(1,2) [of c] by (simp_all add: chan_ok_def waits_ok_def ch st)
  moreover have "entries_ok ?t c" for c
  proof -
    have "entry_ok s c r k \<Longrightarrow> entry_ok ?t c r k" for r k
      by (auto simp: entry_ok_def Let_def gr ch)
    with ok(3) [of c] show ?thesis by (auto simp: entries_ok_def ch)
  qed
  moreover have "group_ok ?t g'" for g'
  proof (cases "g' = g")
    case False
    then have "group_ok ?t g' = group_ok s g'" by (intro group_ok_cong enq) (simp add: gr)
    with ok(4) show ?thesis by simp
  next
    case True
    have all_closed: "op_closed s g i"
      if "\<not> gr_match ?gr" "gr_open ?gr = 0" "i < length (gr_ops ?gr)" for i
    proof -
      have w: "gr_open ?gr = int (card {i. i < length (gr_ops ?gr) \<and> enqueued s g i})"
        "enqueued s g i \<or> op_closed s g i"
        using ok(4) [of g] ret that by (auto simp: group_ok_def wait_returns_def Let_def)
      have "finite {i. i < length (gr_ops ?gr) \<and> enqueued s g i}" by simp
      with w(1) that(2) have "{i. i < length (gr_ops ?gr) \<and> enqueued s g i} = {}" by simp
      with w(2) that(3) show ?thesis by auto
    qed
    have "gr_match ?gr = (gr_fired ?gr \<noteq> None)" using ok(4) [of g] by (simp add: group_ok_def Let_def)
    then show ?thesis using True all_closed ret
      by (auto simp: group_ok_def gr enq wait_status_def wait_returns_def Let_def)
  qed
  ultimately show ?thesis by (simp add: sys_inv_def)
qed

lemma leave_inv:
  assumes inv: "sys_inv s"
  shows "sys_inv (leave_step g s)"
proof -
  let ?gr = "groups s g"
  have ok: "chan_ok s c" "waits_ok s c" "entries_ok s c" "group_ok s g'" for c g'
    using inv by (simp_all add: sys_inv_def)
  consider "leave_step g s = s"
    | st where "gr_phase ?gr = Leaving st []"
        "leave_step g s = s\<lparr>groups := (groups s)(g := ?gr\<lparr>gr_phase := Done st\<rparr>)\<rparr>"
    | st i "is" c k where "gr_phase ?gr = Leaving st (i # is)" "gr_ops ?gr ! i = (c, k)"
        "leave_step g s = s\<lparr>chans := (chans s)(c := parent_destroyed (g, i) k (chans s c)),
            groups := (groups s)(g := ?gr\<lparr>gr_phase := Leaving st is\<rparr>)\<rparr>"
  proof (cases "\<exists>st is. gr_phase ?gr = Leaving st is")
    case True
    then obtain st "is" where "gr_phase ?gr = Leaving st is" by auto
    with that(2,3) show thesis
      by (cases "is"; cases "gr_ops ?gr ! hd is") (auto simp: leave_step_def Let_def)
  next
    case False
    with that(1) show thesis by (auto simp: leave_step_def Let_def split: group_phase.splits)
  qed
  then show ?thesis
  proof cases
    case 1
    with inv show ?thesis by simp
  next
    case (2 st)
    let ?t = "leave_step g s"
    have ch: "chans ?t = chans s" "fresh ?t = fresh s"
      and gr: "\<And>g'. groups ?t g' = (if g' = g then ?gr\<lparr>gr_phase := Done st\<rparr> else groups s g')"
      using 2 by simp_all
    have st: "stale ?t r = stale s r" for r by (simp add: stale_def gr)
    have enq: "enqueued ?t g' i = enqueued s g' i" "op_closed ?t g' i = op_closed s g' i" for g' i
      by (auto simp: enqueued_def op_closed_def gr ch split: prod.split op_kind.split)
    have "chan_ok ?t c" "waits_ok ?t c" for c
      using ok(1,2) [of c] by (simp_all add: chan_ok_def waits_ok_def ch st)
    moreover have "entries_ok ?t c" for c
    proof -
      have "entry_ok s c r k \<Longrightarrow> entry_ok ?t c r k" for r k
        using 2(1) by (auto simp: entry_ok_def Let_def gr ch)
      with ok(3) [of c] show ?thesis by (auto simp: entries_ok_def ch)
    qed
    moreover have "group_ok ?t g'" for g'
      using ok(4) [of g'] 2(1) by (auto simp: group_ok_def gr enq Let_def)
    ultimately show ?thesis by (simp add: sys_inv_def)
  next
    case (3 st i "is" c k)
    let ?t = "leave_step g s"
    have ch: "chans ?t c' = (if c' = c then parent_destroyed (g, i) k (chans s c) else chans s c')"
      and fr: "fresh ?t = fresh s" for c'
      using 3 by simp_all
    have gr: "\<And>g'. groups ?t g' = (if g' = g then ?gr\<lparr>gr_phase := Leaving st is\<rparr> else groups s g')"
      using 3 by simp
    have st: "stale ?t r = stale s r" for r by (simp add: stale_def gr)
    have same: "ch_open (chans ?t c') = ch_open (chans s c')" "ch_max (chans ?t c') = ch_max (chans s c')"
      "ch_buffer (chans ?t c') = ch_buffer (chans s c')" "ch_sent (chans ?t c') = ch_sent (chans s c')"
      "ch_taken (chans ?t c') = ch_taken (chans s c')" for c'
      by (simp_all add: ch parent_destroyed_def split: op_kind.split)
    have sub: "set (ch_pops (chans ?t c')) \<subseteq> set (ch_pops (chans s c'))"
      "set (ch_pushes (chans ?t c')) \<subseteq> set (ch_pushes (chans s c'))" for c'
      by (auto simp: ch parent_destroyed_def split: op_kind.splits)
    have gone: "(g, i) \<notin> set (ch_pops (chans ?t c'))" "((g, i), v) \<notin> set (ch_pushes (chans ?t c'))" for c' v
    proof -
      have e: "entry_ok s c' (g, i) k' \<Longrightarrow> c' = c \<and> k' = k" for k'
        using 3(2) by (simp add: entry_ok_def Let_def)
      have p: "c' = c \<and> k = Pop" if "(g, i) \<in> set (ch_pops (chans s c'))"
      proof -
        from ok(3) [of c'] that have "entry_ok s c' (g, i) Pop" unfolding entries_ok_def by blast
        from e [OF this] show ?thesis by simp
      qed
      have q: "c' = c \<and> k = Push v" if "((g, i), v) \<in> set (ch_pushes (chans s c'))"
      proof -
        from ok(3) [of c'] have "entry_ok s c' (fst ((g, i), v)) (Push (snd ((g, i), v)))"
          using that unfolding entries_ok_def by blast
        from e [OF this [simplified]] show ?thesis by simp
      qed
      show "(g, i) \<notin> set (ch_pops (chans ?t c'))"
        using p by (auto simp: ch parent_destroyed_def split: if_splits op_kind.splits)
      show "((g, i), v) \<notin> set (ch_pushes (chans ?t c'))"
        using q by (auto simp: ch parent_destroyed_def split: if_splits op_kind.splits)
    qed
    have other: "enqueued ?t g' j = enqueued s g' j" if "g' \<noteq> g" for g' j
      using that by (auto simp: enqueued_def gr ch parent_destroyed_def split: prod.splits op_kind.splits)
    have "chan_ok ?t c'" for c'
    proof -
      have "distinct (ch_pops (chans ?t c'))" "distinct (map fst (ch_pushes (chans ?t c')))"
        using ok(1) [of c'] by (auto simp: chan_ok_def Let_def ch parent_destroyed_def distinct_map_filter
            distinct_removeAll split: op_kind.splits)
      with ok(1) [of c'] sub [of c'] show ?thesis by (auto simp: chan_ok_def Let_def same)
    qed
    moreover have "waits_ok ?t c'" for c'
      using ok(2) [of c'] sub [of c'] unfolding waits_ok_def Let_def same st by blast
    moreover have "entries_ok ?t c'" for c'
    proof -
      have keep: "entry_ok s c' r k' \<Longrightarrow> r \<noteq> (g, i) \<Longrightarrow> entry_ok ?t c' r k'" for r k'
        using 3(1) by (cases r) (auto simp: entry_ok_def Let_def gr fr)
      show ?thesis unfolding entries_ok_def
      proof (intro conjI ballI)
        show "entry_ok ?t c' r Pop" if "r \<in> set (ch_pops (chans ?t c'))" for r
          using that gone(1) [of c'] sub [of c'] ok(3) [of c'] keep unfolding entries_ok_def by blast
        show "entry_ok ?t c' (fst p) (Push (snd p))" if "p \<in> set (ch_pushes (chans ?t c'))" for p
        proof -
          have "fst p \<noteq> (g, i)" using that gone(2) [of "snd p" c'] by (metis prod.collapse)
          with that sub [of c'] ok(3) [of c'] keep show ?thesis unfolding entries_ok_def by blast
        qed
      qed
    qed
    moreover have "group_ok ?t g'" for g'
    proof (cases "g' = g")
      case True
      have "op_closed ?t g j = op_closed s g j" for j by (simp add: op_closed_def gr same)
      with ok(4) [of g] 3(1) True show ?thesis by (auto simp: group_ok_def gr Let_def)
    next
      case False
      then have "group_ok ?t g' = group_ok s g'"
        by (intro group_ok_cong other) (simp_all add: gr op_closed_def same)
      with ok(4) show ?thesis by simp
    qed
    ultimately show ?thesis by (simp add: sys_inv_def)
  qed
qed
section \<open>Closing and clearing\<close>

lemma fold_channel_closed:
  "fold op_channel_closed rs gs g =
     (gs g)\<lparr>gr_open := gr_open (gs g) - int (length (filter (\<lambda>r. fst r = g) rs))\<rparr>"
  by (induction rs arbitrary: gs) (auto simp: op_channel_closed_def)

lemma close_count:
  fixes g c :: nat
  assumes inv: "sys_inv s"
  defines "ops \<equiv> gr_ops (groups s g)" and "rs \<equiv> ch_pops (chans s c) @ map fst (ch_pushes (chans s c))"
  shows "card {i. i < length ops \<and> enqueued s g i \<and> fst (ops ! i) = c} =
    length (filter (\<lambda>r. fst r = g) rs)"
proof -
  have ok: "chan_ok s c" "entries_ok s c" using inv by (simp_all add: sys_inv_def)
  have p: "entry_ok s c r Pop" if "r \<in> set (ch_pops (chans s c))" for r
    using ok(2) that unfolding entries_ok_def by blast
  have q: "entry_ok s c r (Push v)" if "(r, v) \<in> set (ch_pushes (chans s c))" for r v
    using ok(2) that unfolding entries_ok_def by fastforce
  have "set (ch_pops (chans s c)) \<inter> fst ` set (ch_pushes (chans s c)) = {}"
    using p q by (fastforce simp: entry_ok_def Let_def)
  then have d: "distinct rs" using ok(1) by (simp add: rs_def chan_ok_def Let_def)
  let ?l = "map snd (filter (\<lambda>r. fst r = g) rs)"
  have "distinct ?l"
    using d by (auto simp: distinct_map inj_on_def prod_eq_iff)
  moreover have "set ?l = {i. i < length ops \<and> enqueued s g i \<and> fst (ops ! i) = c}"
  proof (intro equalityI subsetI)
    fix i assume "i \<in> set ?l"
    then have "(g, i) \<in> set rs" by auto
    then consider "(g, i) \<in> set (ch_pops (chans s c))" | v where "((g, i), v) \<in> set (ch_pushes (chans s c))"
      by (auto simp: rs_def)
    then show "i \<in> {i. i < length ops \<and> enqueued s g i \<and> fst (ops ! i) = c}"
    proof cases
      case 1
      with p [OF 1] show ?thesis by (simp add: entry_ok_def Let_def enqueued_def ops_def)
    next
      case (2 v)
      with q [OF 2] show ?thesis by (simp add: entry_ok_def Let_def enqueued_def ops_def)
    qed
  next
    fix i assume i: "i \<in> {i. i < length ops \<and> enqueued s g i \<and> fst (ops ! i) = c}"
    then have "(g, i) \<in> set rs"
      by (auto simp: enqueued_def ops_def rs_def split: prod.splits op_kind.splits intro: image_eqI [rotated])
    then show "i \<in> set ?l" by force
  qed
  ultimately show ?thesis by (metis distinct_card length_map)
qed

lemma close_inv:
  assumes inv: "sys_inv s"
  shows "sys_inv (channel_close c s)"
proof (cases "ch_open (chans s c)")
  case False
  with inv show ?thesis by (simp add: channel_close_def Let_def)
next
  case True
  let ?t = "channel_close c s"
  let ?rs = "ch_pops (chans s c) @ map fst (ch_pushes (chans s c))"
  have ok: "chan_ok s c'" "waits_ok s c'" "entries_ok s c'" "group_ok s g" for c' g
    using inv by (simp_all add: sys_inv_def)
  have ch: "chans ?t c' = (if c' = c then (chans s c)\<lparr>ch_open := False, ch_pops := [], ch_pushes := []\<rparr>
      else chans s c')" and fr: "fresh ?t = fresh s" for c'
    using True by (simp_all add: channel_close_def Let_def)
  have gr: "groups ?t g = (groups s g)\<lparr>gr_open := gr_open (groups s g) -
      int (length (filter (\<lambda>r. fst r = g) ?rs))\<rparr>" for g
    using True by (simp add: channel_close_def Let_def fold_channel_closed)
  have st: "stale ?t r = stale s r" for r by (simp add: stale_def gr)
  have "chan_ok ?t c'" "waits_ok ?t c'" for c'
    using ok(1,2) [of c'] by (auto simp: chan_ok_def waits_ok_def Let_def ch st)
  moreover have "entries_ok ?t c'" for c'
  proof -
    have "entry_ok ?t c' r k = entry_ok s c' r k" for r k by (simp add: entry_ok_def Let_def gr fr)
    with ok(3) [of c'] show ?thesis by (auto simp: entries_ok_def ch)
  qed
  moreover have "group_ok ?t g" for g
  proof -
    let ?ops = "gr_ops (groups s g)"
    have enq: "enqueued ?t g i \<longleftrightarrow> enqueued s g i \<and> fst (?ops ! i) \<noteq> c" for i
      by (auto simp: enqueued_def gr ch split: prod.splits op_kind.splits)
    have cl: "op_closed ?t g i \<longleftrightarrow> op_closed s g i \<or> fst (?ops ! i) = c" for i
      by (auto simp: op_closed_def gr ch)
    have "card {i. i < length ?ops \<and> enqueued s g i} =
        card {i. i < length ?ops \<and> enqueued ?t g i} + length (filter (\<lambda>r. fst r = g) ?rs)"
    proof -
      have "{i. i < length ?ops \<and> enqueued s g i} = {i. i < length ?ops \<and> enqueued ?t g i} \<union>
          {i. i < length ?ops \<and> enqueued s g i \<and> fst (?ops ! i) = c}"
        by (auto simp: enq)
      moreover have "{i. i < length ?ops \<and> enqueued ?t g i} \<inter>
          {i. i < length ?ops \<and> enqueued s g i \<and> fst (?ops ! i) = c} = {}"
        by (auto simp: enq)
      ultimately show ?thesis unfolding close_count [OF inv, symmetric]
        by (simp add: card_Un_disjoint)
    qed
    with ok(4) [of g] show ?thesis unfolding group_ok_def Let_def gr
      by (auto simp: enq cl)
  qed
  ultimately show ?thesis by (simp add: sys_inv_def)
qed

text \<open>What matches of the operations \<open>rs\<close> may do to the groups.\<close>

definition matched_by :: "op_ref list \<Rightarrow> (nat \<Rightarrow> 'a group) \<Rightarrow> (nat \<Rightarrow> 'a group) \<Rightarrow> bool" where
  "matched_by rs gs gs' \<longleftrightarrow>
     (\<forall>g. gr_ops (gs' g) = gr_ops (gs g) \<and> gr_open (gs' g) = gr_open (gs g) \<and>
       gr_phase (gs' g) = gr_phase (gs g) \<and> gr_wait (gs' g) = gr_wait (gs g) \<and>
       (gr_match (gs g) \<longrightarrow> gr_match (gs' g)) \<and>
       ((gr_match (gs g) \<longleftrightarrow> gr_fired (gs g) \<noteq> None) \<longrightarrow> (gr_match (gs' g) \<longleftrightarrow> gr_fired (gs' g) \<noteq> None)) \<and>
       (gr_match (gs' g) \<longrightarrow> \<not> gr_match (gs g) \<longrightarrow> (\<exists>i. (g, i) \<in> set rs)))"

lemma matched_by_refl: "matched_by rs gs gs"
  by (simp add: matched_by_def)

lemma matched_by_Cons:
  assumes "matched_by rs gs1 gs'"
    and "gs1 = gs \<or> gs1 = gs(g := (gs g)\<lparr>gr_match := True, gr_fired := Some (i, vo)\<rparr>)"
  shows "matched_by ((g, i) # rs) gs gs'"
  unfolding matched_by_def
proof
  fix h
  show "gr_ops (gs' h) = gr_ops (gs h) \<and> gr_open (gs' h) = gr_open (gs h) \<and>
       gr_phase (gs' h) = gr_phase (gs h) \<and> gr_wait (gs' h) = gr_wait (gs h) \<and>
       (gr_match (gs h) \<longrightarrow> gr_match (gs' h)) \<and>
       ((gr_match (gs h) \<longleftrightarrow> gr_fired (gs h) \<noteq> None) \<longrightarrow> (gr_match (gs' h) \<longleftrightarrow> gr_fired (gs' h) \<noteq> None)) \<and>
       (gr_match (gs' h) \<longrightarrow> \<not> gr_match (gs h) \<longrightarrow> (\<exists>j. (h, j) \<in> set ((g, i) # rs)))"
    using assms unfolding matched_by_def by (cases "h = g") (auto dest: spec [of _ h])
qed

lemma clear_refill_void_spec:
  assumes "clear_refill_void n ps buf gs = (buf', ps', gs')"
  shows "\<exists>pre. ps = pre @ ps' \<and> (\<forall>p \<in> set pre. gr_match (gs' (fst (fst p)))) \<and>
    matched_by (map fst ps) gs gs' \<and>
    length buf' \<le> max n (length buf) \<and> (ps' \<noteq> [] \<longrightarrow> n \<le> length buf')"
  using assms
proof (induction n ps buf gs rule: clear_refill_void.induct)
  case (2 n g i v ps buf gs)
  show ?case
  proof (cases "n \<le> length buf")
    case True
    with "2.prems" show ?thesis by (intro exI [of _ "[]"]) (auto simp: matched_by_refl)
  next
    case False
    obtain b gs1 where m: "group_match g i None gs = (b, gs1)" by (metis surj_pair)
    define buf1 where "buf1 = (if b then buf @ [v] else buf)"
    have r: "clear_refill_void n ps buf1 gs1 = (buf', ps', gs')"
      using "2.prems" False m by (auto simp: buf1_def split: bool.splits)
    have g1: "gs1 = gs \<or> gs1 = gs(g := (gs g)\<lparr>gr_match := True, gr_fired := Some (i, None)\<rparr>)"
      "gr_match (gs1 g)"
      using m by (auto simp: group_match_def split: if_splits)
    have len: "length buf1 \<le> max n (length buf)" using False by (auto simp: buf1_def)
    have "\<exists>pre. ps = pre @ ps' \<and> (\<forall>p \<in> set pre. gr_match (gs' (fst (fst p)))) \<and>
      matched_by (map fst ps) gs1 gs' \<and> length buf' \<le> max n (length buf1) \<and> (ps' \<noteq> [] \<longrightarrow> n \<le> length buf')"
    proof (cases b)
      case True
      with r have r: "clear_refill_void n ps (buf @ [v]) gs1 = (buf', ps', gs')" by (simp add: buf1_def)
      from True "2.IH"(1) [OF False m [symmetric] _ r] show ?thesis by (simp add: buf1_def)
    next
      case b: False
      with r have r: "clear_refill_void n ps buf gs1 = (buf', ps', gs')" by (simp add: buf1_def)
      from b "2.IH"(2) [OF False m [symmetric] _ r] show ?thesis by (simp add: buf1_def)
    qed
    then obtain pre where pre: "ps = pre @ ps'" "\<forall>p \<in> set pre. gr_match (gs' (fst (fst p)))"
      and mb: "matched_by (map fst ps) gs1 gs'"
      and bounds: "length buf' \<le> max n (length buf1)" "ps' \<noteq> [] \<longrightarrow> n \<le> length buf'"
      by blast
    have "gr_match (gs' g)" using mb g1(2) by (simp add: matched_by_def)
    with pre have "\<forall>p \<in> set (((g, i), v) # pre). gr_match (gs' (fst (fst p)))" by simp
    moreover have "((g, i), v) # ps = (((g, i), v) # pre) @ ps'" using pre(1) by simp
    moreover have "length buf' \<le> max n (length buf)" using bounds(1) len by linarith
    moreover have "matched_by (map fst (((g, i), v) # ps)) gs gs'"
      using matched_by_Cons [OF mb g1(1)] by simp
    ultimately show ?thesis using bounds(2) by blast
  qed
qed (auto simp: matched_by_refl)

lemma clear_refill_void_stale:
  "\<forall>p \<in> set ps. gr_match (gs (fst (fst p))) \<Longrightarrow> fst (clear_refill_void n ps buf gs) = buf"
  by (induction n ps buf gs rule: clear_refill_void.induct) (auto simp: group_match_def)

lemma clear_inv:
  assumes inv: "sys_inv s"
  shows "sys_inv (snd (channel_clear is_void c s))"
proof -
  let ?t = "snd (channel_clear is_void c s)"
  let ?ch = "chans s c"
  have ok: "chan_ok s c" "waits_ok s c" using inv by (simp_all add: sys_inv_def)
  have sent: "ch_sent ?ch = ch_taken ?ch @ ch_buffer ?ch" using ok(1) by (simp add: chan_ok_def Let_def)
  have other: "chans ?t c' = chans s c'" if "c' \<noteq> c" for c'
    using that by (auto simp: channel_clear_def buffer_clear_def split: prod.split option.split)
  have "shrinks s ?t \<and> length (ch_buffer (chans ?t c)) \<le> ch_max ?ch \<and>
      ch_sent (chans ?t c) = ch_taken (chans ?t c) @ ch_buffer (chans ?t c) \<and>
      (0 < ch_max ?ch \<longrightarrow> ch_pushes (chans ?t c) = [] \<or> ch_buffer (chans ?t c) \<noteq> []) \<and>
      (ch_buffer (chans ?t c) \<noteq> [] \<longrightarrow> 0 < ch_max ?ch \<and> (\<exists>p \<in> set (ch_pushes ?ch). \<not> stale s (fst p)))"
  proof (cases "ch_open ?ch \<and> ch_pushes ?ch \<noteq> []")
    case False
    have "shrinks s ?t"
      using False by (auto simp: channel_clear_def buffer_clear_def intro!: shrinks_none)
    moreover have "\<not> ch_open ?ch \<longrightarrow> ch_pushes ?ch = []" using ok(1) by (simp add: chan_ok_def Let_def)
    ultimately show ?thesis using False sent
      by (auto simp: channel_clear_def buffer_clear_def)
  next
    case open_waiting: True
    show ?thesis
    proof (cases is_void)
      case True
      obtain buf ps gs where r: "clear_refill_void (ch_max ?ch) (ch_pushes ?ch) [] (groups s) = (buf, ps, gs)"
        by (metis surj_pair)
      from clear_refill_void_spec [OF r] obtain pre where
        spec: "ch_pushes ?ch = pre @ ps" "\<forall>p \<in> set pre. gr_match (gs (fst (fst p)))"
        "matched_by (map fst (ch_pushes ?ch)) (groups s) gs" "length buf \<le> ch_max ?ch"
        "ps \<noteq> [] \<longrightarrow> ch_max ?ch \<le> length buf" by auto
      have t: "?t = set_chan c (?ch\<lparr>ch_taken := ch_taken ?ch @ ch_buffer ?ch, ch_buffer := buf,
          ch_sent := ch_sent ?ch @ buf, ch_pushes := ps\<rparr>) gs s"
        using True open_waiting r by (simp add: channel_clear_def buffer_clear_def)
      have "group_shrinks s ?t g" for g
      proof -
        have "has_entry s g" if "\<exists>i. (g, i) \<in> set (map fst (ch_pushes ?ch))"
          using that unfolding has_entry_def by blast
        then show ?thesis
          using spec(3) [unfolded matched_by_def, rule_format, of g]
          unfolding group_shrinks_def t set_chan_simps by blast
      qed
      moreover have "chan_shrinks s ?t c'" for c'
        using spec(1,2) by (auto simp: t chan_shrinks_def stale_def suffix_def)
      ultimately have "shrinks s ?t" by (simp add: shrinks_def t)
      moreover have "\<exists>p \<in> set (ch_pushes ?ch). \<not> stale s (fst p)" if "buf \<noteq> []"
      proof (rule ccontr)
        assume "\<not> ?thesis"
        then have "\<forall>p \<in> set (ch_pushes ?ch). gr_match (groups s (fst (fst p)))" by (simp add: stale_def)
        then have "fst (clear_refill_void (ch_max ?ch) (ch_pushes ?ch) [] (groups s)) = []"
          by (rule clear_refill_void_stale)
        with r that show False by simp
      qed
      moreover have "0 < ch_max ?ch" if "buf \<noteq> []" using spec(4) that by (cases "ch_max ?ch") auto
      ultimately show ?thesis using spec sent by (auto simp: t)
    next
      case not_void: False
      show ?thesis
      proof (cases "ch_max ?ch = 0")
        case True
        then have "?t = set_chan c (?ch\<lparr>ch_buffer := [], ch_taken := ch_taken ?ch @ ch_buffer ?ch\<rparr>) (groups s) s"
          using not_void open_waiting by (simp add: channel_clear_def buffer_clear_def buffer_is_full_def)
        with True sent show ?thesis by (auto intro!: shrinks_none)
      next
        case False
        obtain r ps gs where m: "match_pushes (ch_pushes ?ch) (groups s) = (r, ps, gs)" by (metis surj_pair)
        show ?thesis
        proof (cases r)
          case None
          with m not_void open_waiting False have t: "?t = set_chan c (?ch\<lparr>ch_buffer := [],
              ch_taken := ch_taken ?ch @ ch_buffer ?ch, ch_pushes := ps\<rparr>) gs s"
            by (simp add: channel_clear_def buffer_clear_def buffer_is_full_def)
          from None m have "shrinks s ?t" unfolding t by (intro shrinks_pushes_none) auto
          with None m match_pushes_none [of "ch_pushes ?ch" "groups s" ps gs] sent show ?thesis
            by (simp add: t)
        next
          case (Some v)
          with m not_void open_waiting False have t: "?t = set_chan c (buffer_push v (?ch\<lparr>ch_buffer := [],
              ch_taken := ch_taken ?ch @ ch_buffer ?ch, ch_pushes := ps\<rparr>)) gs s"
            by (simp add: channel_clear_def buffer_clear_def buffer_is_full_def)
          from Some m have "shrinks s ?t" unfolding t buffer_push_def by (intro shrinks_pushes_some) auto
          moreover from match_pushes_some [of "ch_pushes ?ch" "groups s" v ps gs] Some m obtain pre x where
            "ch_pushes ?ch = pre @ (x, v) # ps" "\<not> gr_match (groups s (fst x))" by auto
          then have "\<exists>p \<in> set (ch_pushes ?ch). \<not> stale s (fst p)" by (simp add: stale_def)
          ultimately show ?thesis using sent False by (simp add: t buffer_push_def)
        qed
      qed
    qed
  qed
  then have sh: "shrinks s ?t" and t: "length (ch_buffer (chans ?t c)) \<le> ch_max ?ch"
      "ch_sent (chans ?t c) = ch_taken (chans ?t c) @ ch_buffer (chans ?t c)"
      "0 < ch_max ?ch \<Longrightarrow> ch_pushes (chans ?t c) = [] \<or> ch_buffer (chans ?t c) \<noteq> []"
    and buf: "ch_buffer (chans ?t c) \<noteq> [] \<Longrightarrow> 0 < ch_max ?ch \<and> (\<exists>p \<in> set (ch_pushes ?ch). \<not> stale s (fst p))"
    by blast+
  have "waits_ok ?t c"
  proof (rule waits_ok_step [OF sh ok(2)])
    show "ch_buffer (chans ?t c) = []" if "r \<in> set (ch_pops ?ch)" "\<not> stale s r" for r
    proof (rule ccontr)
      assume "ch_buffer (chans ?t c) \<noteq> []"
      from buf [OF this] waits_ok_live(2) [OF ok(2)] have "ch_buffer ?ch \<noteq> []" by blast
      with waits_ok_live(1) [OF ok(2) that] show False by simp
    qed
    show "ch_buffer (chans ?t c) \<noteq> []" if "p \<in> set (ch_pushes (chans ?t c))" "0 < ch_max ?ch" for p
      using t(3) that by auto
  qed
  moreover have "ch_max (chans ?t c) = ch_max ?ch" using sh by (simp add: shrinks_def chan_shrinks_def)
  ultimately show ?thesis using t other by (intro inv_one_channel [OF inv sh]) auto
qed

lemma chan_step_inv: "chan_step s t \<Longrightarrow> sys_inv s \<Longrightarrow> sys_inv t"
  by (induction rule: chan_step.induct)
    (auto intro: op_now_inv register_inv end_wait_inv leave_inv close_inv clear_inv)

interpretation chan: inv_system chan_step sys_inv
  by unfold_locales (rule chan_step_inv)

lemma reachable_inv: "chan_step\<^sup>*\<^sup>* (init_sys size_of) s \<Longrightarrow> sys_inv s"
  by (rule chan.inv_run [OF _ sys_inv_init])

section \<open>What the attempts report\<close>

lemma pop_now_log:
  assumes "pop_now c s = (st, v, t)"
  shows "(st = success \<longrightarrow> (\<exists>x. v = Some x \<and> ch_taken (chans t c) = ch_taken (chans s c) @ [x])) \<and>
    (st \<noteq> success \<longrightarrow> v = None \<and> ch_taken (chans t c) = ch_taken (chans s c) \<and>
       ch_sent (chans t c) = ch_sent (chans s c))"
  using assms unfolding pop_now_def Let_def
  by (auto simp: buffer_pop_def buffer_push_def hand_over_def split: if_splits prod.splits option.splits)

lemma push_now_log:
  assumes "push_now c v s = (st, t)"
  shows "(st = success \<longrightarrow> ch_sent (chans t c) = ch_sent (chans s c) @ [v]) \<and>
    (st \<noteq> success \<longrightarrow> ch_taken (chans t c) = ch_taken (chans s c) \<and>
       ch_sent (chans t c) = ch_sent (chans s c))"
  using assms unfolding push_now_def Let_def
  by (auto simp: buffer_push_def hand_over_def split: if_splits prod.splits bool.splits)

lemma run_step: "chan_step\<^sup>*\<^sup>* s t \<Longrightarrow> chan_step t u \<Longrightarrow> chan_step\<^sup>*\<^sup>* s u"
  by (rule rtranclp.rtrancl_into_rtrancl)

text \<open>A run of three steps used by the witnesses: two pushes, and a waiting pop elsewhere.\<close>

definition sample :: "nat sys" where
  "sample = snd (register_signals forever [(2, Pop)] (snd (try_push 0 5 (snd (try_push 0 4 (init_sys (\<lambda>_. 2)))))))"

lemma try_push_step: "chan_step s (snd (try_push c v s))"
  by (rule try_op [of "(c, Push v)" s "fst (push_now c v s)" None])
    (auto simp: op_now_def try_push_def split: prod.split)

lemma register_step: "chan_step s (snd (register_signals w ops s))"
  by (rule register) (rule prod.collapse [symmetric])

lemma sample_reachable: "chan_step\<^sup>*\<^sup>* (init_sys (\<lambda>_. 2)) sample"
  unfolding sample_def
  by (intro run_step [OF _ register_step] run_step [OF _ try_push_step] rtranclp.rtrancl_refl)

lemmas chan_eval = register_signals_def try_push_def try_pop_def push_now_def pop_now_def init_sys_def
  op_now_def buffer_is_full_def buffer_is_empty_def buffer_push_def buffer_pop_def hand_over_def
  set_chan_def activate_def initialize_op_def start_waiting_def group_match_def end_wait_def
  wait_status_def leave_step_def parent_destroyed_def channel_clear_def buffer_clear_def Let_def

lemma sample_values:
  "chans sample 0 = \<lparr>ch_open = True, ch_max = 2, ch_buffer = [4, 5], ch_pops = [], ch_pushes = [],
     ch_sent = [4, 5], ch_taken = []\<rparr>"
  "chans sample 2 = \<lparr>ch_open = True, ch_max = 2, ch_buffer = [], ch_pops = [(0, 0)], ch_pushes = [],
     ch_sent = [], ch_taken = []\<rparr>"
  "groups sample 0 = \<lparr>gr_ops = [(2, Pop)], gr_match = False, gr_open = 1, gr_fired = None,
     gr_wait = forever, gr_phase = Waiting\<rparr>"
  by (simp_all add: sample_def chan_eval)

section \<open>Properties\<close>



text \<open>C13: no rendezvous is missed. In a reachable state a pop that still waits sees an empty buffer,
  a push that still waits on a channel with a buffer sees it non-empty, and a pop and a push that
  both still wait on one channel belong to one and the same select.\<close>

theorem no_missed_rendezvous:
  assumes "chan_step\<^sup>*\<^sup>* (init_sys size_of) s" "r \<in> set (ch_pops (chans s c))" "\<not> gr_match (groups s (fst r))"
  shows "ch_buffer (chans s c) = [] \<and>
    list_all (\<lambda>p. gr_match (groups s (fst (fst p))) \<or> fst (fst p) = fst r) (ch_pushes (chans s c)) \<and>
    (fst (push_now c v s) = success)"
proof -
  have inv: "sys_inv s" by (rule reachable_inv [OF assms(1)])
  then have ok: "waits_ok s c" "chan_ok s c" by (simp_all add: sys_inv_def)
  have live: "\<not> stale s r" using assms(3) by (simp add: stale_def)
  have "ch_open (chans s c)" using ok(2) assms(2) by (auto simp: chan_ok_def Let_def)
  moreover have "fst (match_pops v (ch_pops (chans s c)) (groups s))"
    using match_pops_false [of v "ch_pops (chans s c)" "groups s"] assms(2,3)
    by (cases "match_pops v (ch_pops (chans s c)) (groups s)") (metis (full_types) fst_conv prod_cases3)
  ultimately have "fst (push_now c v s) = success"
    by (auto simp: push_now_def Let_def split: prod.splits bool.splits)
  moreover have "list_all (\<lambda>p. gr_match (groups s (fst (fst p))) \<or> fst (fst p) = fst r) (ch_pushes (chans s c))"
  proof (unfold list_all_iff, rule ballI)
    fix p assume "p \<in> set (ch_pushes (chans s c))"
    from waits_ok_live(3) [OF ok(1) assms(2) this live]
    show "gr_match (groups s (fst (fst p))) \<or> fst (fst p) = fst r" unfolding stale_def by metis
  qed
  ultimately show ?thesis using waits_ok_live(1) [OF ok(1) assms(2) live] by simp
qed

theorem no_missed_rendezvous_witness: "ch_buffer (chans sample 2) = [] \<and> fst (push_now 2 9 sample) = success"
  using no_missed_rendezvous [OF sample_reachable, of "(0, 0)" 2 9] by (simp add: sample_values)


definition sample_done :: "nat sys" where
  "sample_done = leave_step 0 (leave_step 0 (end_wait 0 (snd (try_push 2 9 sample))))"

lemma sample_done_reachable: "chan_step\<^sup>*\<^sup>* (init_sys (\<lambda>_. 2)) sample_done"
  unfolding sample_done_def
  by (intro run_step [OF _ chan_step.leave] run_step [OF _ wait_ends] run_step [OF sample_reachable try_push_step])
    (simp add: try_push_def push_now_def sample_values group_match_def set_chan_def hand_over_def wait_returns_def)


text \<open>Closing releases the waiters: once all channels of a waiting call are closed, its wait
  returns.\<close>

theorem close_releases:
  assumes "chan_step\<^sup>*\<^sup>* (init_sys size_of) s" "gr_phase (groups s g) = Waiting"
    "list_all (\<lambda>op. \<not> ch_open (chans s (fst op))) (gr_ops (groups s g))"
  shows "wait_returns (groups s g) \<and> gr_phase (groups (end_wait g s) g) \<noteq> Waiting"
proof -
  have inv: "sys_inv s" by (rule reachable_inv [OF assms(1)])
  have cl: "\<forall>i < length (gr_ops (groups s g)). op_closed s g i"
    using assms(3) by (simp add: list_all_length op_closed_def)
  have "\<not> enqueued s g i" if "i < length (gr_ops (groups s g))" for i
  proof
    assume "enqueued s g i"
    then have "has_entry s g"
      by (auto simp: enqueued_def has_entry_def split: prod.splits op_kind.splits) force+
    with closed_no_entry [OF inv cl] show False by simp
  qed
  then have "{i. i < length (gr_ops (groups s g)) \<and> enqueued s g i} = {}" by auto
  moreover have "group_ok s g" using inv by (simp add: sys_inv_def)
  ultimately show ?thesis using assms(2)
    by (auto simp: group_ok_def wait_returns_def end_wait_def Let_def)
qed

theorem close_releases_witness: "wait_returns (groups (channel_close 2 sample) 0)"
proof -
  have r: "chan_step\<^sup>*\<^sup>* (init_sys (\<lambda>_. 2)) (channel_close 2 sample)"
    by (rule run_step [OF sample_reachable chan_step.close])
  show ?thesis
    using close_releases [OF r, of 0]
    by (simp add: channel_close_def Let_def sample_values fold_channel_closed op_channel_closed_def)
qed

text \<open>A timed pop can lose a value. After its wait has timed out and before its destructor has
  taken it out of the queue, a push can still be matched with it: the push succeeds, the pop
  returns \<open>unavailable\<close>, and the value is nowhere.\<close>

theorem timed_pop_loses_value:
  "\<exists>s. chan_step\<^sup>*\<^sup>* (init_sys (\<lambda>_. 1)) (s :: nat sys) \<and> gr_phase (groups s 0) = Done unavailable \<and>
     gr_fired (groups s 0) = Some (0, Some 7) \<and> ch_sent (chans s 0) = [7] \<and> ch_buffer (chans s 0) = []"
proof -
  let ?s1 = "snd (register_signals timed [(0, Pop)] (init_sys (\<lambda>_. 1))) :: nat sys"
  let ?s = "leave_step 0 (leave_step 0 (snd (try_push 0 7 (end_wait 0 ?s1))))"
  have "chan_step\<^sup>*\<^sup>* (init_sys (\<lambda>_. 1)) ?s"
    by (intro run_step [OF _ chan_step.leave] run_step [OF _ try_push_step] run_step [OF _ wait_ends]
        run_step [OF _ register_step] rtranclp.rtrancl_refl)
      (simp add: chan_eval wait_returns_def)
  moreover have "gr_phase (groups ?s 0) = Done unavailable \<and> gr_fired (groups ?s 0) = Some (0, Some 7) \<and>
      ch_sent (chans ?s 0) = [7] \<and> ch_buffer (chans ?s 0) = []"
    by (simp add: chan_eval)
  ultimately show ?thesis by blast
qed

text \<open>For elements other than \<open>void\<close>, \<open>clear\<close> lets only one waiting push in, so a push can
  still wait beside a buffer that is not full, and a later push overtakes it.\<close>

theorem clear_leaves_push_waiting:
  "\<exists>s. chan_step\<^sup>*\<^sup>* (init_sys (\<lambda>_. 2)) (s :: nat sys) \<and> ch_pushes (chans s 0) = [((1, 0), 4)] \<and>
     \<not> gr_match (groups s 1) \<and> \<not> buffer_is_full (chans s 0) \<and>
     fst (try_push 0 5 s) \<and> ch_buffer (chans (snd (try_push 0 5 s)) 0) = [3, 5]"
proof -
  let ?s0 = "snd (try_push 0 2 (snd (try_push 0 1 (init_sys (\<lambda>_. 2))))) :: nat sys"
  let ?s1 = "snd (register_signals forever [(0, Push 4)] (snd (register_signals forever [(0, Push 3)] ?s0)))"
  let ?s = "snd (channel_clear False 0 ?s1)"
  have "chan_step\<^sup>*\<^sup>* (init_sys (\<lambda>_. 2)) ?s"
    by (intro run_step [OF _ chan_step.clear] run_step [OF _ register_step] run_step [OF _ try_push_step]
        rtranclp.rtrancl_refl)
  moreover have "ch_pushes (chans ?s 0) = [((1, 0), 4)] \<and> \<not> gr_match (groups ?s 1) \<and>
      \<not> buffer_is_full (chans ?s 0) \<and> fst (try_push 0 5 ?s) \<and>
      ch_buffer (chans (snd (try_push 0 5 ?s)) 0) = [3, 5]"
    by (simp add: chan_eval)
  ultimately show ?thesis by blast
qed

end
