(* ===== verification/WaitGroup.thy ===== *)
theory WaitGroup
  imports Prelude
begin

text \<open>
  The wait group of \<open>third/utils/wait_group.h\<close>. A step is one atomic action of one thread: a
  read-modify-write or a load of the counter, taking or giving up the mutex, blocking in
  \<open>cv.wait\<close> (which gives up the mutex in the same step), a notification, a wake-up. The program
  counter of a thread says where in \<open>done\<close> or \<open>wait\<close> it is.
\<close>

section \<open>State and steps\<close>

datatype pc =
    Free
  | Done_Load
  | Done_Notify
  | Wait_Check
  | Wait_Block
  | Blocked
  | Woken
  | Returned

record wait_group =
  wg_count :: int
  wg_mutex :: "nat option"
  wg_pc :: "nat \<Rightarrow> pc"

definition wg_init :: wait_group where
  "wg_init = \<lparr>wg_count = 0, wg_mutex = None, wg_pc = (\<lambda>_. Free)\<rparr>"

definition set_pc :: "nat \<Rightarrow> pc \<Rightarrow> wait_group \<Rightarrow> wait_group" where
  "set_pc i p s = s\<lparr>wg_pc := (wg_pc s)(i := p)\<rparr>"

definition wg_add :: "int \<Rightarrow> wait_group \<Rightarrow> wait_group" where
  "wg_add n s = s\<lparr>wg_count := to_i32 (wg_count s + n)\<rparr>"

text \<open>\<open>--count\<close>, then the load in \<open>if (count == 0)\<close>, then \<open>notify_all\<close>.\<close>

definition wg_done_dec :: "nat \<Rightarrow> wait_group \<Rightarrow> wait_group" where
  "wg_done_dec i s = set_pc i Done_Load (s\<lparr>wg_count := to_i32 (wg_count s - 1)\<rparr>)"

definition wg_done_load :: "nat \<Rightarrow> wait_group \<Rightarrow> wait_group" where
  "wg_done_load i s = set_pc i (if wg_count s = 0 then Done_Notify else Free) s"

definition wg_done_notify :: "nat \<Rightarrow> wait_group \<Rightarrow> wait_group" where
  "wg_done_notify i s =
     set_pc i Free (s\<lparr>wg_pc := (\<lambda>j. if wg_pc s j = Blocked then Woken else wg_pc s j)\<rparr>)"

text \<open>\<open>wait\<close>: the lock, the loop's test, the blocking call, and the lock taken again after it.\<close>

definition wg_wait_lock :: "nat \<Rightarrow> wait_group \<Rightarrow> wait_group" where
  "wg_wait_lock i s = set_pc i Wait_Check (s\<lparr>wg_mutex := Some i\<rparr>)"

definition wg_wait_check :: "nat \<Rightarrow> wait_group \<Rightarrow> wait_group" where
  "wg_wait_check i s =
     (if 0 < wg_count s then set_pc i Wait_Block s
      else set_pc i Returned (s\<lparr>wg_mutex := None\<rparr>))"

definition wg_wait_block :: "nat \<Rightarrow> wait_group \<Rightarrow> wait_group" where
  "wg_wait_block i s = set_pc i Blocked (s\<lparr>wg_mutex := None\<rparr>)"

inductive wg_step :: "wait_group \<Rightarrow> wait_group \<Rightarrow> bool" where
  add: "wg_step s (wg_add n s)"
| done_dec: "wg_pc s i = Free \<Longrightarrow> wg_step s (wg_done_dec i s)"
| done_load: "wg_pc s i = Done_Load \<Longrightarrow> wg_step s (wg_done_load i s)"
| done_notify: "wg_pc s i = Done_Notify \<Longrightarrow> wg_step s (wg_done_notify i s)"
| wait_lock: "wg_pc s i = Free \<or> wg_pc s i = Woken \<Longrightarrow> wg_mutex s = None \<Longrightarrow> wg_step s (wg_wait_lock i s)"
| wait_check: "wg_pc s i = Wait_Check \<Longrightarrow> wg_step s (wg_wait_check i s)"
| wait_block: "wg_pc s i = Wait_Block \<Longrightarrow> wg_step s (wg_wait_block i s)"
| spurious: "wg_pc s i = Blocked \<Longrightarrow> wg_step s (set_pc i Woken s)"

section \<open>The mutex\<close>

definition in_section :: "pc \<Rightarrow> bool" where
  "in_section p \<longleftrightarrow> p = Wait_Check \<or> p = Wait_Block"

definition wg_inv :: "wait_group \<Rightarrow> bool" where
  "wg_inv s \<longleftrightarrow> (\<forall>i. in_section (wg_pc s i) \<longleftrightarrow> wg_mutex s = Some i) \<and> int_range (wg_count s)"

lemma in_section_simps [simp]:
  "in_section Wait_Check" "in_section Wait_Block" "\<not> in_section Free" "\<not> in_section Done_Load"
  "\<not> in_section Done_Notify" "\<not> in_section Blocked" "\<not> in_section Woken" "\<not> in_section Returned"
  by (simp_all add: in_section_def)

lemmas wg_defs = wg_add_def wg_done_dec_def wg_done_load_def wg_done_notify_def wg_wait_lock_def
  wg_wait_check_def wg_wait_block_def set_pc_def

lemma wg_inv_set_pc:
  assumes "wg_inv s" "in_section p = in_section (wg_pc s i)"
  shows "wg_inv (set_pc i p s)"
  using assms by (auto simp: wg_inv_def set_pc_def)

lemma wg_inv_leave:
  assumes "wg_inv s" "in_section (wg_pc s i)" "\<not> in_section p"
  shows "wg_inv (set_pc i p (s\<lparr>wg_mutex := None\<rparr>))"
proof -
  have "in_section (wg_pc s j) \<longleftrightarrow> j = i" for j
    using assms(1,2) by (auto simp: wg_inv_def)
  with assms show ?thesis by (simp add: wg_inv_def set_pc_def)
qed

lemma wg_inv_enter:
  assumes "wg_inv s" "wg_mutex s = None" "in_section p"
  shows "wg_inv (set_pc i p (s\<lparr>wg_mutex := Some i\<rparr>))"
  using assms by (auto simp: wg_inv_def set_pc_def)

lemma wg_inv_count: "wg_inv s \<Longrightarrow> wg_inv (s\<lparr>wg_count := to_i32 n\<rparr>)"
  by (simp add: wg_inv_def to_i32_range)

lemma wg_inv_notify:
  "wg_inv s \<Longrightarrow> wg_inv (s\<lparr>wg_pc := (\<lambda>j. if wg_pc s j = Blocked then Woken else wg_pc s j)\<rparr>)"
  by (simp add: wg_inv_def if_distrib [of in_section]) (metis in_section_simps(6))

lemma wg_step_inv: "wg_step s t \<Longrightarrow> wg_inv s \<Longrightarrow> wg_inv t"
proof (induction rule: wg_step.induct)
  case (done_notify s i)
  then show ?case unfolding wg_done_notify_def by (intro wg_inv_set_pc wg_inv_notify) simp_all
next
  case (wait_lock s i)
  then show ?case unfolding wg_wait_lock_def by (intro wg_inv_enter) simp_all
next
  case (wait_check s i)
  then show ?case by (simp add: wg_wait_check_def wg_inv_set_pc wg_inv_leave)
next
  case (wait_block s i)
  then show ?case unfolding wg_wait_block_def by (intro wg_inv_leave) simp_all
qed (auto simp: wg_add_def wg_done_dec_def wg_done_load_def intro!: wg_inv_set_pc wg_inv_count)

lemma wg_runs:
  "wg_step\<^sup>*\<^sup>* a s \<Longrightarrow> wg_step\<^sup>*\<^sup>* a (wg_add n s)"
  "wg_step\<^sup>*\<^sup>* a s \<Longrightarrow> wg_pc s i = Free \<Longrightarrow> wg_step\<^sup>*\<^sup>* a (wg_done_dec i s)"
  "wg_step\<^sup>*\<^sup>* a s \<Longrightarrow> wg_pc s i = Done_Load \<Longrightarrow> wg_step\<^sup>*\<^sup>* a (wg_done_load i s)"
  "wg_step\<^sup>*\<^sup>* a s \<Longrightarrow> wg_pc s i = Done_Notify \<Longrightarrow> wg_step\<^sup>*\<^sup>* a (wg_done_notify i s)"
  "wg_step\<^sup>*\<^sup>* a s \<Longrightarrow> wg_pc s i = Free \<or> wg_pc s i = Woken \<Longrightarrow> wg_mutex s = None \<Longrightarrow>
     wg_step\<^sup>*\<^sup>* a (wg_wait_lock i s)"
  "wg_step\<^sup>*\<^sup>* a s \<Longrightarrow> wg_pc s i = Wait_Check \<Longrightarrow> wg_step\<^sup>*\<^sup>* a (wg_wait_check i s)"
  "wg_step\<^sup>*\<^sup>* a s \<Longrightarrow> wg_pc s i = Wait_Block \<Longrightarrow> wg_step\<^sup>*\<^sup>* a (wg_wait_block i s)"
  by (blast intro: wg_step.intros rtranclp.rtrancl_into_rtrancl)+

interpretation wg: inv_system wg_step wg_inv
  by unfold_locales (rule wg_step_inv)

lemma wg_init_inv: "wg_inv wg_init"
  by (simp add: wg_inv_def wg_init_def in_section_def int_range_def)

section \<open>Properties\<close>

text \<open>C21: \<open>wait\<close> is safe: a thread returns from it only in a state whose count is not positive,
  and at most one thread at a time is between taking the mutex and giving it up.\<close>

theorem wait_returns_at_zero:
  assumes "wg_step\<^sup>*\<^sup>* wg_init s" "wg_step s t" "wg_pc t i = Returned" "wg_pc s i \<noteq> Returned"
  shows "wg_count t \<le> 0 \<and> wg_mutex s = Some i \<and> (in_section (wg_pc s j) \<longrightarrow> j = i)"
proof -
  have "wg_inv s" by (rule wg.inv_run [OF assms(1) wg_init_inv])
  moreover from assms(2-4) have "wg_pc s i = Wait_Check \<and> wg_count t \<le> 0"
    by (cases rule: wg_step.cases) (auto simp: wg_defs split: if_splits)
  ultimately show ?thesis by (auto simp: wg_inv_def in_section_def)
qed

theorem wait_returns_at_zero_witness:
  "wg_count (wg_wait_check 3 (wg_wait_lock 3 wg_init)) \<le> 0"
proof -
  have "wg_step wg_init (wg_wait_lock 3 wg_init)" by (rule wait_lock) (simp_all add: wg_init_def)
  then have r: "wg_step\<^sup>*\<^sup>* wg_init (wg_wait_lock 3 wg_init)" by simp
  have st: "wg_step (wg_wait_lock 3 wg_init) (wg_wait_check 3 (wg_wait_lock 3 wg_init))"
    by (rule wait_check) (simp add: wg_defs)
  show ?thesis
    using wait_returns_at_zero [OF r st, of 3] by (simp add: wg_defs wg_init_def)
qed


end
