(* ===== verification/ThreadPool.thy ===== *)
theory ThreadPool
  imports Prelude "HOL-Library.Multiset"
begin

text \<open>
  The thread pool of \<open>third/utils/thread_poool.h\<close>. A step is one critical section of
  \<open>queue_mutex\<close> (the test of the wait predicate together with taking a task, leaving, or blocking
  in \<open>condition.wait\<close>; the insertion of a task; setting \<open>stop\<close>), a notification, a wake-up, or the
  end of a task. Tasks are values; they return. \<open>tp_queued\<close>, \<open>tp_started\<close> and \<open>tp_finished\<close> are
  ghosts: the tasks enqueued, started and finished so far.
\<close>

section \<open>State and steps\<close>

datatype 'a worker = Awake | Sleeping | Running 'a | Exited

record 'a pool =
  tp_tasks :: "'a list"
  tp_stop :: bool
  tp_workers :: "'a worker list"
  tp_notify :: nat
  tp_joining :: bool
  tp_queued :: "'a list"
  tp_started :: "'a list"
  tp_finished :: "'a list"

definition pool_init :: "nat \<Rightarrow> 'a pool" where
  "pool_init threads =
     \<lparr>tp_tasks = [], tp_stop = False, tp_workers = replicate threads Awake, tp_notify = 0,
      tp_joining = False, tp_queued = [], tp_started = [], tp_finished = []\<rparr>"

text \<open>\<open>enqueue\<close>: the insertion under the lock, and the \<open>notify_one\<close> that follows it.\<close>

definition pool_enqueue :: "'a \<Rightarrow> 'a pool \<Rightarrow> 'a pool res" where
  "pool_enqueue x s =
     (if tp_stop s then Inl Assert_Failed
      else Inr (s\<lparr>tp_tasks := tp_tasks s @ [x], tp_queued := tp_queued s @ [x],
                  tp_notify := tp_notify s + 1\<rparr>))"

definition wake :: "'a worker \<Rightarrow> 'a worker" where
  "wake w = (case w of Sleeping \<Rightarrow> Awake | _ \<Rightarrow> w)"

definition pool_notify_one :: "nat \<Rightarrow> 'a pool \<Rightarrow> 'a pool" where
  "pool_notify_one i s =
     s\<lparr>tp_notify := tp_notify s - 1,
       tp_workers := (if i < length (tp_workers s) then (tp_workers s)[i := wake (tp_workers s ! i)]
                      else tp_workers s)\<rparr>"

text \<open>A worker with the lock: the wait predicate, and what follows it in the critical section.\<close>

definition worker_check :: "nat \<Rightarrow> 'a pool \<Rightarrow> 'a pool" where
  "worker_check i s =
     (if tp_stop s \<or> tp_tasks s \<noteq> [] then
        if tp_stop s \<and> tp_tasks s = [] then s\<lparr>tp_workers := (tp_workers s)[i := Exited]\<rparr>
        else
          let task = hd (tp_tasks s) in
          s\<lparr>tp_tasks := tl (tp_tasks s), tp_workers := (tp_workers s)[i := Running task],
            tp_started := tp_started s @ [task]\<rparr>
      else s\<lparr>tp_workers := (tp_workers s)[i := Sleeping]\<rparr>)"

definition worker_task_returns :: "nat \<Rightarrow> 'a pool \<Rightarrow> 'a pool" where
  "worker_task_returns i s =
     (case tp_workers s ! i of
        Running x \<Rightarrow> s\<lparr>tp_workers := (tp_workers s)[i := Awake], tp_finished := tp_finished s @ [x]\<rparr>
      | _ \<Rightarrow> s)"

text \<open>The destructor: \<open>stop\<close> under the lock, then \<open>notify_all\<close>; then it joins the workers.\<close>

definition pool_stop :: "'a pool \<Rightarrow> 'a pool" where
  "pool_stop s = s\<lparr>tp_stop := True\<rparr>"

definition pool_notify_all :: "'a pool \<Rightarrow> 'a pool" where
  "pool_notify_all s = s\<lparr>tp_workers := map wake (tp_workers s), tp_joining := True\<rparr>"

definition pool_joined :: "'a pool \<Rightarrow> bool" where
  "pool_joined s \<longleftrightarrow> tp_joining s \<and> list_all (\<lambda>w. w = Exited) (tp_workers s)"

inductive pool_step :: "'a pool \<Rightarrow> 'a pool \<Rightarrow> bool" where
  enqueue: "pool_enqueue x s = Inr t \<Longrightarrow> pool_step s t"
| notify_one: "0 < tp_notify s \<Longrightarrow>
    i < length (tp_workers s) \<and> tp_workers s ! i = Sleeping \<or> Sleeping \<notin> set (tp_workers s) \<Longrightarrow>
    pool_step s (pool_notify_one i s)"
| check: "i < length (tp_workers s) \<Longrightarrow> tp_workers s ! i = Awake \<Longrightarrow> pool_step s (worker_check i s)"
| spurious: "i < length (tp_workers s) \<Longrightarrow> tp_workers s ! i = Sleeping \<Longrightarrow>
    pool_step s (s\<lparr>tp_workers := (tp_workers s)[i := Awake]\<rparr>)"
| task_returns: "i < length (tp_workers s) \<Longrightarrow> tp_workers s ! i = Running x \<Longrightarrow>
    pool_step s (worker_task_returns i s)"
| stop: "\<not> tp_stop s \<Longrightarrow> pool_step s (pool_stop s)"
| notify_all: "tp_stop s \<Longrightarrow> \<not> tp_joining s \<Longrightarrow> pool_step s (pool_notify_all s)"

section \<open>The invariant\<close>

definition worker_task :: "'a worker \<Rightarrow> 'a multiset" where
  "worker_task w = (case w of Running x \<Rightarrow> {#x#} | _ \<Rightarrow> {#})"

definition running :: "'a worker list \<Rightarrow> 'a multiset" where
  "running ws = \<Sum>\<^sub># (mset (map worker_task ws))"

definition busy :: "'a worker \<Rightarrow> bool" where
  "busy w \<longleftrightarrow> w \<noteq> Sleeping \<and> w \<noteq> Exited"

lemma worker_task_simps [simp]:
  "worker_task Awake = {#}" "worker_task Sleeping = {#}" "worker_task (Running x) = {#x#}"
  "worker_task Exited = {#}"
  by (simp_all add: worker_task_def)

lemma running_subset: "i < length ws \<Longrightarrow> worker_task (ws ! i) \<subseteq># running ws"
proof -
  have "w \<in> set ws \<Longrightarrow> worker_task w \<subseteq># running ws" for w
    by (induction ws) (auto simp: running_def intro: subset_mset.add_increasing subset_mset.add_increasing2)
  then show "i < length ws \<Longrightarrow> ?thesis" by simp
qed

lemma running_update:
  "i < length ws \<Longrightarrow> running (ws[i := w]) = running ws - worker_task (ws ! i) + worker_task w"
  by (simp add: running_def map_update mset_update sum_mset_diff)

lemma running_same: "worker_task w = worker_task (ws ! i) \<Longrightarrow> running (ws[i := w]) = running ws"
  by (cases "i < length ws") (simp_all add: running_update running_subset list_update_beyond)

lemma running_map_wake [simp]: "running (map wake ws) = running ws"
proof -
  have "worker_task \<circ> wake = (worker_task :: 'a worker \<Rightarrow> 'a multiset)"
    by (auto simp: wake_def fun_eq_iff split: worker.splits)
  then show ?thesis by (simp add: running_def)
qed

lemma wake_simps [simp]:
  "wake Awake = Awake" "wake Sleeping = Awake" "wake (Running x) = Running x" "wake Exited = Exited"
  by (simp_all add: wake_def)

lemma wake_iff [simp]:
  "wake w = Exited \<longleftrightarrow> w = Exited" "wake w \<noteq> Sleeping" "busy (wake w) \<longleftrightarrow> w \<noteq> Exited"
  "Exited = wake w \<longleftrightarrow> w = Exited" "Sleeping \<noteq> wake w"
  by (cases w; simp add: busy_def)+

lemma busy_simps [simp]: "busy Awake" "busy (Running x)" "\<not> busy Sleeping" "\<not> busy Exited"
  by (simp_all add: busy_def)

text \<open>The conjuncts of the invariant one by one: the order of the tasks, the accounting of the
  started ones, where workers leave, the pending wake-ups and the state after \<open>notify_all\<close>.\<close>

definition inv_order :: "'a pool \<Rightarrow> bool" where
  "inv_order s \<longleftrightarrow> tp_queued s = tp_started s @ tp_tasks s"

definition inv_running :: "'a pool \<Rightarrow> bool" where
  "inv_running s \<longleftrightarrow> mset (tp_started s) = mset (tp_finished s) + running (tp_workers s)"

definition inv_exit :: "'a pool \<Rightarrow> bool" where
  "inv_exit s \<longleftrightarrow> (Exited \<in> set (tp_workers s) \<longrightarrow> tp_stop s \<and> tp_tasks s = [])"

definition inv_wake :: "'a pool \<Rightarrow> bool" where
  "inv_wake s \<longleftrightarrow> (tp_tasks s \<noteq> [] \<longrightarrow> tp_workers s \<noteq> [] \<longrightarrow>
     0 < tp_notify s \<or> (\<exists>w \<in> set (tp_workers s). busy w))"

definition inv_join :: "'a pool \<Rightarrow> bool" where
  "inv_join s \<longleftrightarrow> (tp_joining s \<longrightarrow> tp_stop s \<and> Sleeping \<notin> set (tp_workers s))"

definition pool_inv :: "'a pool \<Rightarrow> bool" where
  "pool_inv s \<longleftrightarrow> inv_order s \<and> inv_running s \<and> inv_exit s \<and> inv_wake s \<and> inv_join s"

lemmas pool_defs = pool_enqueue_def pool_notify_one_def worker_check_def worker_task_returns_def
  pool_stop_def pool_notify_all_def

lemma order_step: "pool_step s t \<Longrightarrow> inv_order s \<Longrightarrow> inv_order t"
  by (induction rule: pool_step.induct) (auto simp: pool_defs inv_order_def Let_def split: if_splits)

lemma worker_task_wake [simp]: "worker_task (wake w) = worker_task w"
  by (cases w) simp_all

lemma running_step: "pool_step s t \<Longrightarrow> inv_running s \<Longrightarrow> inv_running t"
proof (induction rule: pool_step.induct)
  case (notify_one s i)
  then show ?case by (simp add: inv_running_def pool_notify_one_def running_same)
next
  case (check i s)
  then show ?case
    by (simp add: inv_running_def worker_check_def Let_def running_update)
next
  case (task_returns i s x)
  have "{#x#} \<subseteq># running (tp_workers s)"
    using running_subset [of i "tp_workers s"] task_returns by simp
  with task_returns show ?case
    by (simp add: inv_running_def worker_task_returns_def running_update)
next
  case (spurious i s)
  then show ?case by (simp add: inv_running_def running_same)
qed (auto simp: inv_running_def pool_enqueue_def pool_stop_def pool_notify_all_def split: if_splits)

lemma wake_at: "Exited \<in> set (ws[i := wake (ws ! i)]) \<Longrightarrow> i < length ws \<Longrightarrow> Exited \<in> set ws"
  by (metis nth_mem set_updateD wake_iff(4))

lemma exit_step: "pool_step s t \<Longrightarrow> inv_exit s \<Longrightarrow> inv_exit t"
proof (induction rule: pool_step.induct)
  case (notify_one s i)
  then show ?case by (simp add: inv_exit_def pool_notify_one_def) (metis wake_at)
qed (auto simp: pool_defs inv_exit_def Let_def dest!: set_updateD split: if_splits)

lemma busy_at: "i < length ws \<Longrightarrow> busy v \<Longrightarrow> \<exists>w \<in> set (ws[i := v]). busy w"
  by (auto intro: bexI [of _ v] set_update_memI)

lemma busy_if_awake: "ws \<noteq> [] \<Longrightarrow> Sleeping \<notin> set ws \<Longrightarrow> Exited \<notin> set ws \<Longrightarrow> \<exists>w \<in> set ws. busy w"
  by (cases ws) (auto simp: busy_def)

lemma wake_step: "pool_step s t \<Longrightarrow> inv_exit s \<Longrightarrow> inv_wake s \<Longrightarrow> inv_wake t"
proof (induction rule: pool_step.induct)
  case (enqueue x s t)
  then show ?case by (auto simp: inv_wake_def pool_enqueue_def split: if_splits)
next
  case (notify_one s i)
  show ?case
  proof (cases "i < length (tp_workers s) \<and> tp_workers s ! i = Sleeping")
    case True
    then show ?thesis by (simp add: inv_wake_def pool_notify_one_def busy_at)
  next
    case False
    with notify_one have n: "Sleeping \<notin> set (tp_workers s)" by simp
    then have "wake w = w" if "w \<in> set (tp_workers s)" for w
      using that by (cases w) auto
    then have "tp_workers (pool_notify_one i s) = tp_workers s"
      by (simp add: pool_notify_one_def)
    moreover have "tp_tasks (pool_notify_one i s) = tp_tasks s" by (simp add: pool_notify_one_def)
    ultimately show ?thesis
      using notify_one n busy_if_awake [of "tp_workers s"] unfolding inv_wake_def inv_exit_def by metis
  qed
next
  case (check i s)
  then show ?case by (simp add: inv_wake_def worker_check_def Let_def busy_at)
next
  case (spurious i s)
  then show ?case by (simp add: inv_wake_def busy_at)
next
  case (task_returns i s x)
  then show ?case by (simp add: inv_wake_def worker_task_returns_def busy_at)
next
  case (stop s)
  then show ?case by (simp add: inv_wake_def pool_stop_def)
next
  case (notify_all s)
  then show ?case by (auto simp: inv_wake_def pool_notify_all_def inv_exit_def) 
qed

lemma join_step: "pool_step s t \<Longrightarrow> inv_join s \<Longrightarrow> inv_join t"
  by (induction rule: pool_step.induct)
    (auto simp: pool_defs inv_join_def Let_def dest!: set_updateD split: if_splits)

lemma pool_step_inv: "pool_step s t \<Longrightarrow> pool_inv s \<Longrightarrow> pool_inv t"
  unfolding pool_inv_def by (simp add: order_step running_step exit_step wake_step join_step)

interpretation pool: inv_system pool_step pool_inv
  by unfold_locales (rule pool_step_inv)

lemma pool_init_inv: "pool_inv (pool_init n)"
  by (simp add: pool_inv_def inv_order_def inv_running_def inv_exit_def inv_wake_def inv_join_def
      pool_init_def running_def)

section \<open>The destructor\<close>

definition worker_work :: "'a worker \<Rightarrow> nat" where
  "worker_work w = (case w of Awake \<Rightarrow> 1 | Running _ \<Rightarrow> 2 | _ \<Rightarrow> 0)"

definition pool_work :: "'a pool \<Rightarrow> nat" where
  "pool_work s = 3 * length (tp_tasks s) + sum_list (map worker_work (tp_workers s)) + tp_notify s"

lemma worker_work_simps [simp]:
  "worker_work Awake = 1" "worker_work (Running x) = 2" "worker_work Sleeping = 0" "worker_work Exited = 0"
  by (simp_all add: worker_work_def)

lemma work_update:
  "i < length ws \<Longrightarrow>
   sum_list (map worker_work (ws[i := w])) + worker_work (ws ! i) = sum_list (map worker_work ws) + worker_work w"
  by (induction ws arbitrary: i) (auto split: nat.splits)

lemma joining_step:
  assumes "pool_step s t" "inv_join s" "tp_joining s"
  shows "tp_joining t \<and> pool_work t < pool_work s"
  using assms
proof (induction rule: pool_step.induct)
  case (enqueue x s t)
  then show ?case by (auto simp: inv_join_def pool_enqueue_def)
next
  case (notify_one s i)
  then have "Sleeping \<notin> set (tp_workers s)" by (simp add: inv_join_def)
  moreover have "wake w = w" if "w \<noteq> Sleeping" for w :: "'a worker" using that by (cases w) simp_all
  ultimately have "wake (tp_workers s ! i) = tp_workers s ! i" if "i < length (tp_workers s)"
    using that nth_mem by metis
  with notify_one show ?case by (simp add: pool_work_def pool_notify_one_def)
next
  case (check i s)
  note u = work_update [of i "tp_workers s" Exited] work_update [of i "tp_workers s" "Running (hd (tp_tasks s))"]
  have "tp_stop s" using check by (simp add: inv_join_def)
  with check u show ?case
    by (cases "tp_tasks s") (simp_all add: pool_work_def worker_check_def Let_def)
next
  case (spurious i s)
  then show ?case by (auto simp: inv_join_def) (metis nth_mem)
next
  case (task_returns i s x)
  with work_update [of i "tp_workers s" Awake] show ?case
    by (simp add: pool_work_def worker_task_returns_def)
next
  case (stop s)
  then show ?case by (simp add: inv_join_def)
qed simp

lemma joining_progress:
  assumes "inv_join s" "tp_joining s" "\<not> pool_joined s"
  shows "\<exists>t. pool_step s t"
proof -
  from assms obtain i where i: "i < length (tp_workers s)" "tp_workers s ! i \<noteq> Exited"
    by (auto simp: pool_joined_def list_all_length)
  moreover from assms i(1) have "tp_workers s ! i \<noteq> Sleeping" by (auto simp: inv_join_def) (metis nth_mem)
  ultimately show ?thesis
    by (cases "tp_workers s ! i") (auto intro: pool_step.intros)
qed

lemma joining_run:
  assumes "(pool_step ^^ k) s t" "pool_inv s" "tp_joining s"
  shows "k + pool_work t \<le> pool_work s \<and> tp_joining t \<and> pool_inv t"
  using assms
proof (induction k arbitrary: t)
  case (Suc k)
  then obtain u where u: "(pool_step ^^ k) s u" "pool_step u t" by auto
  with Suc have "k + pool_work u \<le> pool_work s" "tp_joining u" "pool_inv u" by auto
  with u(2) joining_step [of u t] pool_step_inv [of u t] show ?case by (auto simp: pool_inv_def)
qed simp

lemma joining_ends:
  assumes "pool_inv s" "tp_joining s"
  shows "\<exists>t. pool_step\<^sup>*\<^sup>* s t \<and> pool_joined t"
  using assms
proof (induction "pool_work s" arbitrary: s rule: less_induct)
  case less
  show ?case
  proof (cases "pool_joined s")
    case False
    with less obtain u where u: "pool_step s u"
      using joining_progress [of s] by (auto simp: pool_inv_def)
    with less joining_step [of s u] have "pool_work u < pool_work s" "tp_joining u" by (auto simp: pool_inv_def)
    moreover from u less have "pool_inv u" by (simp add: pool_step_inv)
    ultimately show ?thesis using less(1) [of u] u by (blast intro: converse_rtranclp_into_rtranclp)
  qed auto
qed

lemma workers_length: "pool_step\<^sup>*\<^sup>* s t \<Longrightarrow> length (tp_workers t) = length (tp_workers s)"
proof (induction rule: rtranclp_induct)
  case (step t u)
  from step(2) have "length (tp_workers u) = length (tp_workers t)"
    by (induction rule: pool_step.induct)
      (auto simp: pool_defs Let_def split: if_splits worker.splits)
  with step show ?case by simp
qed simp

lemma pool_reach_inv: "pool_step\<^sup>*\<^sup>* (pool_init n) s \<Longrightarrow> pool_inv s \<and> length (tp_workers s) = n"
  using pool.inv_run [OF _ pool_init_inv] workers_length [of "pool_init n" s]
  by (simp add: pool_init_def)

lemma running_Exited: "list_all (\<lambda>w. w = Exited) ws \<Longrightarrow> running ws = {#}"
  by (induction ws) (simp_all add: running_def)

lemma pool_runs:
  "pool_step\<^sup>*\<^sup>* a s \<Longrightarrow> pool_enqueue x s = Inr t \<Longrightarrow> pool_step\<^sup>*\<^sup>* a t"
  "pool_step\<^sup>*\<^sup>* a s \<Longrightarrow> i < length (tp_workers s) \<Longrightarrow> tp_workers s ! i = Awake \<Longrightarrow>
     pool_step\<^sup>*\<^sup>* a (worker_check i s)"
  "pool_step\<^sup>*\<^sup>* a s \<Longrightarrow> i < length (tp_workers s) \<Longrightarrow> tp_workers s ! i = Running y \<Longrightarrow>
     pool_step\<^sup>*\<^sup>* a (worker_task_returns i s)"
  "pool_step\<^sup>*\<^sup>* a s \<Longrightarrow> \<not> tp_stop s \<Longrightarrow> pool_step\<^sup>*\<^sup>* a (pool_stop s)"
  "pool_step\<^sup>*\<^sup>* a s \<Longrightarrow> tp_stop s \<Longrightarrow> \<not> tp_joining s \<Longrightarrow> pool_step\<^sup>*\<^sup>* a (pool_notify_all s)"
  by (blast intro: pool_step.intros rtranclp.rtrancl_into_rtrancl)+

text \<open>A run of a pool with one worker: one task is enqueued, the pool is stopped, the worker starts
  the task, finishes it and leaves.\<close>

definition ex_queued :: "nat pool" where
  "ex_queued = \<lparr>tp_tasks = [7], tp_stop = False, tp_workers = [Awake], tp_notify = 1,
      tp_joining = False, tp_queued = [7], tp_started = [], tp_finished = []\<rparr>"

definition ex_joining :: "nat pool" where
  "ex_joining = pool_notify_all (pool_stop ex_queued)"

definition ex_running :: "nat pool" where
  "ex_running = worker_check 0 ex_joining"

definition ex_exited :: "nat pool" where
  "ex_exited = worker_check 0 (worker_task_returns 0 ex_running)"

lemmas ex_defs = ex_queued_def ex_joining_def ex_running_def ex_exited_def pool_defs Let_def

lemma ex_runs:
  "pool_step\<^sup>*\<^sup>* (pool_init 1) ex_queued"
  "pool_step\<^sup>*\<^sup>* (pool_init 1) ex_joining"
  "pool_step\<^sup>*\<^sup>* (pool_init 1) ex_running"
proof -
  show q: "pool_step\<^sup>*\<^sup>* (pool_init 1) ex_queued"
    by (rule pool_runs(1) [OF rtranclp.rtrancl_refl, of 7])
      (simp add: pool_init_def pool_enqueue_def ex_queued_def)
  show j: "pool_step\<^sup>*\<^sup>* (pool_init 1) ex_joining"
    unfolding ex_joining_def
    by (rule pool_runs(5) [OF pool_runs(4) [OF q]]) (simp_all add: ex_queued_def pool_stop_def)
  show "pool_step\<^sup>*\<^sup>* (pool_init 1) ex_running"
    unfolding ex_running_def
    by (rule pool_runs(2) [OF j]) (simp_all add: ex_defs)
qed

lemma ex_drain: "(pool_step ^^ 3) ex_joining ex_exited"
proof -
  have "pool_step ex_joining ex_running"
    unfolding ex_running_def by (rule check) (simp_all add: ex_defs)
  moreover have "pool_step ex_running (worker_task_returns 0 ex_running)"
    by (rule task_returns [where x = 7]) (simp_all add: ex_defs)
  moreover have "pool_step (worker_task_returns 0 ex_running) ex_exited"
    unfolding ex_exited_def by (rule check) (simp_all add: ex_defs)
  ultimately show ?thesis by (auto simp: numeral_3_eq_3)
qed

section \<open>Properties\<close>

text \<open>C18: in every interleaving, tasks start in the order they were enqueued, none twice and none
  skipped (what was enqueued is what was started followed by the queue), and the tasks that
  started are exactly those that finished and those a worker is running.\<close>

theorem tasks_run_once_in_order:
  assumes "pool_step\<^sup>*\<^sup>* (pool_init n) s"
  shows "tp_queued s = tp_started s @ tp_tasks s \<and>
         mset (tp_started s) = mset (tp_finished s) + running (tp_workers s)"
  using pool_reach_inv [OF assms] by (simp add: pool_inv_def inv_order_def inv_running_def)

theorem tasks_run_once_in_order_witness:
  "tp_started ex_running = [7] \<and> mset (tp_started ex_running) = running (tp_workers ex_running)"
  using tasks_run_once_in_order [OF ex_runs(3)] by (simp add: ex_defs)

text \<open>No wake-up is lost: in a pool with at least one worker, whenever a task is queued, a
  notification is still to be delivered or a worker is awake or running a task (and so will look
  at the queue again); a worker has left only when the pool is stopped and the queue is empty.\<close>

theorem queued_task_has_a_worker:
  assumes "pool_step\<^sup>*\<^sup>* (pool_init n) s" "0 < n" "tp_tasks s \<noteq> []"
  shows "(0 < tp_notify s \<or> list_ex busy (tp_workers s)) \<and> Exited \<notin> set (tp_workers s)"
  using pool_reach_inv [OF assms(1)] assms(2,3)
  by (auto simp: pool_inv_def inv_wake_def inv_exit_def list_ex_iff)

theorem queued_task_has_a_worker_witness: "list_ex busy (tp_workers ex_joining)"
  using queued_task_has_a_worker [OF ex_runs(2)] by (simp add: ex_defs)

text \<open>C20: the destructor returns: once \<open>stop\<close> is set and all workers notified, every
  interleaving has at most \<open>pool_work s\<close> further steps, one ends with every worker joined, and
  with at least one worker every task ever enqueued has then finished exactly once.\<close>

theorem destructor_drains_and_joins:
  assumes "pool_step\<^sup>*\<^sup>* (pool_init n) s" "tp_joining s" "0 < n" "(pool_step ^^ k) s t"
  shows "k \<le> pool_work s \<and> (\<exists>u. pool_step\<^sup>*\<^sup>* t u \<and> pool_joined u) \<and>
         (pool_joined t \<longrightarrow> tp_tasks t = [] \<and> mset (tp_finished t) = mset (tp_queued t))"
proof -
  have run: "k \<le> pool_work s" "pool_inv t" "tp_joining t"
    using joining_run [OF assms(4)] pool_reach_inv [OF assms(1)] assms(2) by auto
  have "pool_step\<^sup>*\<^sup>* (pool_init n) t"
    using assms(1,4) by (meson relpowp_imp_rtranclp rtranclp_trans)
  then have "length (tp_workers t) = n" using pool_reach_inv by blast
  moreover have "tp_tasks t = [] \<and> mset (tp_finished t) = mset (tp_queued t)"
    if j: "pool_joined t" and l: "length (tp_workers t) = n"
  proof -
    from j l assms(3) have "Exited \<in> set (tp_workers t)"
      by (cases "tp_workers t") (simp_all add: pool_joined_def)
    with run(2) have "tp_tasks t = []" by (simp add: pool_inv_def inv_exit_def)
    with run(2) j show ?thesis
      by (simp add: pool_inv_def inv_order_def inv_running_def pool_joined_def running_Exited)
  qed
  ultimately show ?thesis using run joining_ends [of t] by blast
qed

theorem destructor_drains_and_joins_witness:
  "3 \<le> pool_work ex_joining \<and> mset (tp_finished ex_exited) = {#7#}"
proof -
  have "tp_joining ex_joining" "pool_joined ex_exited" "tp_queued ex_exited = [7]"
    by (simp_all add: ex_defs pool_joined_def)
  with destructor_drains_and_joins [OF ex_runs(2) _ _ ex_drain] show ?thesis by simp
qed

end
