(* ===== verification/FileSystem.thy ===== *)
theory FileSystem
  imports CxxString
begin

text \<open>
  The part of the POSIX interface \<open>utils/linux_helper.cpp\<close> uses on files and directories, as the standard states it:
  a tree of named nodes, the resolution of a path with \<open>.\<close>, \<open>..\<close> and symbolic links, and the calls \<open>stat\<close>, \<open>lstat\<close>,
  \<open>opendir\<close>, \<open>readdir\<close>, \<open>unlink\<close>, \<open>rmdir\<close>, \<open>mkdir\<close> and the reading and writing of whole files. Nothing here has
  lines in the repository. The state also counts the file descriptors the process has left, and a
  predicate says which calls the kernel refuses on which node (permissions, busy or read-only mounts). Hard links,
  times and modes are left out; the file system reports the kind of an entry in \<open>d_type\<close>.
\<close>

section \<open>The tree\<close>

datatype node = File string | Link string | Special | Dir "(string \<times> node) list"

fun is_dir :: "node \<Rightarrow> bool" where
  "is_dir (Dir _) = True"
| "is_dir _ = False"

fun entries_of :: "node \<Rightarrow> (string \<times> node) list" where
  "entries_of (Dir es) = es"
| "entries_of _ = []"

fun node_at :: "node \<Rightarrow> string list \<Rightarrow> node option" where
  "node_at t [] = Some t"
| "node_at t (c # cs) = (case map_of (entries_of t) c of None \<Rightarrow> None | Some u \<Rightarrow> node_at u cs)"

definition set_entry :: "string \<Rightarrow> node option \<Rightarrow> (string \<times> node) list \<Rightarrow> (string \<times> node) list" where
  "set_entry c v es =
     (case v of
        None \<Rightarrow> filter (\<lambda>e. fst e \<noteq> c) es
      | Some u \<Rightarrow> if c \<in> fst ` set es then map (\<lambda>(d, w). (d, if d = c then u else w)) es else es @ [(c, u)])"

fun put_at :: "string list \<Rightarrow> node option \<Rightarrow> node \<Rightarrow> node" where
  "put_at [] v t = (case v of None \<Rightarrow> t | Some u \<Rightarrow> u)"
| "put_at (c # cs) v (Dir es) =
     (if cs = [] then Dir (set_entry c v es)
      else case map_of es c of None \<Rightarrow> Dir es | Some u \<Rightarrow> Dir (set_entry c (Some (put_at cs v u)) es))"
| "put_at (c # cs) v t = t"

definition good_name :: "string \<Rightarrow> bool" where
  "good_name c \<longleftrightarrow> c \<noteq> [] \<and> c \<noteq> ''.'' \<and> c \<noteq> ''..'' \<and> CHR ''/'' \<notin> set c"

fun wf_node :: "node \<Rightarrow> bool" where
  "wf_node (Dir es) \<longleftrightarrow> distinct (map fst es) \<and> (\<forall>e\<in>set es. good_name (fst e) \<and> wf_node (snd e))"
| "wf_node _ \<longleftrightarrow> True"

fun height :: "node \<Rightarrow> nat" where
  "height (Dir es) = Suc (foldr max (map (\<lambda>e. height (snd e)) es) 0)"
| "height _ = 0"

section \<open>Laws of the tree\<close>

lemma map_of_set_entry [simp]: "map_of (set_entry c v es) d = (if d = c then v else map_of es d)"
proof (cases v)
  case None
  then show ?thesis by (induction es) (auto simp: set_entry_def)
next
  case (Some u)
  have "map_of (map (\<lambda>(d, w). (d, if d = c then u else w)) xs) d =
      (if d = c then map_option (\<lambda>_. u) (map_of xs d) else map_of xs d)" for xs
    by (cases "d = c"; induction xs) (simp_all add: case_prod_beta)
  moreover have "map_of (es @ [(c, u)]) d = (if d = c then Some u else map_of es d)" if "c \<notin> fst ` set es"
    using that map_of_eq_None_iff [of es c] by (auto simp: map_add_def split: option.splits)
  moreover have "map_of es c \<noteq> None" if "c \<in> fst ` set es"
    using that by (simp add: map_of_eq_None_iff)
  ultimately show ?thesis using Some by (cases "c \<in> fst ` set es") (auto simp: set_entry_def simp del: map_of_append)
qed

lemma is_dir_iff: "is_dir t \<longleftrightarrow> (\<exists>es. t = Dir es)"
  by (cases t) auto

lemma node_at_append: "node_at t (p @ q) = (case node_at t p of None \<Rightarrow> None | Some u \<Rightarrow> node_at u q)"
  by (induction p arbitrary: t) (auto split: option.splits)

lemma node_at_prefix: "node_at t (p @ q) = Some u \<Longrightarrow> \<exists>v. node_at t p = Some v"
  by (simp add: node_at_append split: option.splits)

lemma node_at_inner: "node_at t (p @ c # q) = Some u \<Longrightarrow> \<exists>es. node_at t p = Some (Dir es) \<and> map_of es c \<noteq> None"
proof -
  assume "node_at t (p @ c # q) = Some u"
  then obtain v where "node_at t p = Some v" "map_of (entries_of v) c \<noteq> None"
    by (auto simp: node_at_append split: option.splits)
  then show ?thesis by (cases v) auto
qed

lemma put_at_single [simp]: "put_at [c] v (Dir es) = Dir (set_entry c v es)"
  by simp

lemma put_at_deep [simp]:
  "p \<noteq> [] \<Longrightarrow> put_at (c # p) v (Dir es) =
     (case map_of es c of None \<Rightarrow> Dir es | Some u \<Rightarrow> Dir (set_entry c (Some (put_at p v u)) es))"
  by simp

declare put_at.simps(2) [simp del]

lemma node_at_put: "node_at t p = Some u \<Longrightarrow> node_at (put_at p (Some v) t) p = Some v"
proof (induction p arbitrary: t)
  case (Cons c p)
  then obtain es x where t: "t = Dir es" "map_of es c = Some x" "node_at x p = Some u"
    by (cases t) (auto split: option.splits)
  with Cons.IH [OF t(3)] show ?case by (cases "p = []") simp_all
qed simp

lemma put_at_append:
  "node_at t p = Some u \<Longrightarrow> q \<noteq> [] \<Longrightarrow> put_at (p @ q) v t = put_at p (Some (put_at q v u)) t"
proof (induction p arbitrary: t)
  case (Cons c p)
  then obtain es x where t: "t = Dir es" "map_of es c = Some x" "node_at x p = Some u"
    by (cases t) (auto split: option.splits)
  with Cons.IH [OF t(3)] Cons.prems(2) show ?case by (cases "p = []") simp_all
qed simp

lemma map_fst_replace: "map fst (map (\<lambda>(d, w). (d, f d w)) es) = map fst es"
  by (induction es) auto

lemma fst_replace [simp]: "fst ` (\<lambda>(d, w). (d, f d w)) ` set es = fst ` set es"
  by (auto simp: image_image case_prod_beta)

lemma set_entry_same [simp]: "set_entry c (Some u) (set_entry c (Some v) es) = set_entry c (Some u) es"
proof (cases "c \<in> fst ` set es")
  case False
  then have "map (\<lambda>(d, w). (d, if d = c then u else w)) es = es" by (induction es) auto
  with False show ?thesis by (simp add: set_entry_def)
qed (auto simp: set_entry_def)

lemma set_entry_del [simp]: "set_entry c None (set_entry c (Some v) es) = set_entry c None es"
proof -
  have "filter (\<lambda>e. fst e \<noteq> c) (map (\<lambda>(d, w). (d, if d = c then v else w)) es) = filter (\<lambda>e. fst e \<noteq> c) es"
    by (induction es) auto
  then show ?thesis by (simp add: set_entry_def)
qed

lemma put_put:
  assumes "node_at t p = Some w" "p \<noteq> [] \<or> v \<noteq> None"
  shows "put_at p v (put_at p (Some u) t) = put_at p v t"
  using assms
proof (induction p arbitrary: t)
  case (Cons c p)
  then obtain es x where t: "t = Dir es" "map_of es c = Some x" "node_at x p = Some w"
    by (cases t) (auto split: option.splits)
  show ?case
  proof (cases "p = []")
    case True
    with t show ?thesis by (cases v) auto
  next
    case False
    with Cons.IH [OF t(3)] t show ?thesis by simp
  qed
qed auto

text \<open>A change at one path is not seen on another.\<close>

lemma node_at_put_other:
  assumes "\<not> prefix p q" "\<not> prefix q p"
  shows "node_at (put_at p v t) q = node_at t q"
  using assms
proof (induction p arbitrary: t q)
  case (Cons c p)
  from Cons.prems obtain d q' where q: "q = d # q'" by (cases q) auto
  show ?case
  proof (cases t)
    case (Dir es)
    with Cons q show ?thesis by (cases "p = []") (auto split: option.splits)
  qed simp_all
qed simp

lemma node_at_put_above:
  assumes "strict_prefix q p" "node_at t q = Some u" "is_dir u"
  shows "\<exists>es. node_at (put_at p v t) q = Some (Dir es)"
  using assms
proof (induction p arbitrary: t q)
  case (Cons c p)
  show ?case
  proof (cases q)
    case Nil
    with Cons.prems obtain es where "t = Dir es" by (auto simp: is_dir_iff)
    with Nil show ?thesis by (cases "p = []") (auto split: option.splits)
  next
    case q: (Cons d q')
    with Cons.prems obtain es x where t: "t = Dir es" "map_of es d = Some x" "node_at x q' = Some u" "d = c" "strict_prefix q' p"
      by (cases t) (auto split: option.splits)
    then have "p \<noteq> []" by auto
    with Cons.IH [OF t(5,3) Cons.prems(3)] t q show ?thesis by simp
  qed
qed simp

lemma filter_new_name: "c \<notin> fst ` set es \<Longrightarrow> filter (\<lambda>e. fst e \<noteq> c) es = es"
  by (induction es) auto

lemma foldr_max_le: "foldr max ns 0 \<le> (k :: nat) \<longleftrightarrow> (\<forall>n\<in>set ns. n \<le> k)"
  by (induction ns) auto

lemma height_le: "height (Dir es) \<le> Suc k \<longleftrightarrow> (\<forall>e\<in>set es. height (snd e) \<le> k)"
  by (simp add: foldr_max_le)

declare height.simps(1) [simp del]

section \<open>Paths\<close>

fun split_slash :: "string \<Rightarrow> string list" where
  "split_slash [] = [[]]"
| "split_slash (x # xs) =
     (if x = CHR ''/'' then [] # split_slash xs
      else case split_slash xs of [] \<Rightarrow> [[x]] | d # ds \<Rightarrow> (x # d) # ds)"

lemma split_slash_nonempty [simp]: "split_slash xs \<noteq> []"
  by (induction xs) (auto split: list.splits)

lemma split_slash_append [simp]: "split_slash (a @ CHR ''/'' # b) = split_slash a @ split_slash b"
  by (induction a) (auto split: list.splits)

lemma split_slash_name: "CHR ''/'' \<notin> set c \<Longrightarrow> split_slash c = [c]"
  by (induction c) auto

datatype fs_error = ENOENT | ENOTDIR | EISDIR | EEXIST | ENOTEMPTY | ELOOP | EACCES | EMFILE | EINVAL

datatype fs_call = Call_opendir | Call_unlink | Call_rmdir | Call_mkdir | Call_read | Call_write

record fsys =
  fs_root :: node
  fs_cwd :: "string list"
  fs_fds :: nat
  fs_refused :: "fs_call \<Rightarrow> string list \<Rightarrow> bool"

text \<open>From a directory along the components of a path; every symbolic link is followed, at most \<open>n\<close> in all.\<close>

fun walk :: "nat \<Rightarrow> node \<Rightarrow> string list \<Rightarrow> string list \<Rightarrow> fs_error + string list" where
  "walk n t cur [] = Inr cur"
| "walk n t cur (c # cs) =
     (case node_at t cur of
        Some (Dir es) \<Rightarrow>
          if c = [] \<or> c = ''.'' then walk n t cur cs
          else if c = ''..'' then walk n t (butlast cur) cs
          else (case map_of es c of
                  None \<Rightarrow> Inl ENOENT
                | Some (Link l) \<Rightarrow>
                    (case n of
                       0 \<Rightarrow> Inl ELOOP
                     | Suc m \<Rightarrow> walk m t (if take 1 l = ''/'' then [] else cur) (split_slash l @ cs))
                | Some _ \<Rightarrow> walk n t (cur @ [c]) cs)
      | _ \<Rightarrow> Inl ENOTDIR)"

definition path_start :: "fsys \<Rightarrow> string \<Rightarrow> string list" where
  "path_start s path = (if take 1 path = ''/'' then [] else fs_cwd s)"

definition resolve :: "fsys \<Rightarrow> string \<Rightarrow> fs_error + string list" where
  "resolve s path = (if path = [] then Inl ENOENT else walk 40 (fs_root s) (path_start s path) (split_slash path))"

text \<open>The directory and the name of the entry a path means, and whether a slash follows the name.\<close>

definition path_core :: "string \<Rightarrow> string list" where
  "path_core path = rev (dropWhile (\<lambda>c. c = []) (rev (split_slash path)))"

definition entry_at :: "fsys \<Rightarrow> string \<Rightarrow> fs_error + (string list \<times> string \<times> bool)" where
  "entry_at s path =
     (let core = path_core path in
      if path = [] then Inl ENOENT
      else if core = [] then Inl EEXIST
      else case walk 40 (fs_root s) (path_start s path) (butlast core) of
             Inl e \<Rightarrow> Inl e
           | Inr d \<Rightarrow>
               (case node_at (fs_root s) d of
                  Some (Dir _) \<Rightarrow> Inr (d, last core, core \<noteq> split_slash path)
                | _ \<Rightarrow> Inl ENOTDIR))"

section \<open>Calls\<close>

definition sys_stat :: "string \<Rightarrow> fsys \<Rightarrow> fs_error + node" where
  "sys_stat path s =
     (case resolve s path of
        Inl e \<Rightarrow> Inl e
      | Inr p \<Rightarrow> (case node_at (fs_root s) p of None \<Rightarrow> Inl ENOENT | Some u \<Rightarrow> Inr u))"

definition sys_lstat :: "string \<Rightarrow> fsys \<Rightarrow> fs_error + node" where
  "sys_lstat path s =
     (case entry_at s path of
        Inl _ \<Rightarrow> sys_stat path s
      | Inr (d, c, slash) \<Rightarrow>
          if slash \<or> c = ''.'' \<or> c = ''..'' then sys_stat path s
          else (case node_at (fs_root s) (d @ [c]) of None \<Rightarrow> Inl ENOENT | Some u \<Rightarrow> Inr u))"

datatype d_type = DT_DIR | DT_REG | DT_LNK | DT_OTHER

fun d_type_of :: "node \<Rightarrow> d_type" where
  "d_type_of (File _) = DT_REG"
| "d_type_of (Link _) = DT_LNK"
| "d_type_of Special = DT_OTHER"
| "d_type_of (Dir _) = DT_DIR"

definition dir_listing :: "(string \<times> node) list \<Rightarrow> (string \<times> d_type) list" where
  "dir_listing es = map (\<lambda>e. (fst e, d_type_of (snd e))) es"

text \<open>\<open>opendir\<close> with what \<open>readdir\<close> will return; a change of the directory while it is read does not show.\<close>

definition sys_opendir :: "string \<Rightarrow> fsys \<Rightarrow> (string \<times> d_type) list option \<times> fsys" where
  "sys_opendir path s =
     (case resolve s path of
        Inl _ \<Rightarrow> (None, s)
      | Inr p \<Rightarrow>
          (case node_at (fs_root s) p of
             Some (Dir es) \<Rightarrow>
               if fs_refused s Call_opendir p \<or> fs_fds s = 0 then (None, s)
               else (Some ((''.'', DT_DIR) # (''..'', DT_DIR) # dir_listing es), s\<lparr>fs_fds := fs_fds s - 1\<rparr>)
           | _ \<Rightarrow> (None, s)))"

definition sys_closedir :: "fsys \<Rightarrow> fsys" where
  "sys_closedir s = s\<lparr>fs_fds := fs_fds s + 1\<rparr>"

text \<open>The calls that change the tree; \<open>None\<close> is success.\<close>

definition sys_unlink :: "string \<Rightarrow> fsys \<Rightarrow> fs_error option \<times> fsys" where
  "sys_unlink path s =
     (case entry_at s path of
        Inl e \<Rightarrow> (Some e, s)
      | Inr (d, c, slash) \<Rightarrow>
          if c = ''.'' \<or> c = ''..'' then (Some EISDIR, s)
          else (case node_at (fs_root s) (d @ [c]) of
                  None \<Rightarrow> (Some ENOENT, s)
                | Some u \<Rightarrow>
                    if is_dir u then (Some EISDIR, s)
                    else if slash then (Some ENOTDIR, s)
                    else if fs_refused s Call_unlink (d @ [c]) then (Some EACCES, s)
                    else (None, s\<lparr>fs_root := put_at (d @ [c]) None (fs_root s)\<rparr>)))"

definition sys_rmdir :: "string \<Rightarrow> fsys \<Rightarrow> fs_error option \<times> fsys" where
  "sys_rmdir path s =
     (case entry_at s path of
        Inl e \<Rightarrow> (Some e, s)
      | Inr (d, c, slash) \<Rightarrow>
          if c = ''.'' then (Some EINVAL, s)
          else if c = ''..'' then (Some ENOTEMPTY, s)
          else (case node_at (fs_root s) (d @ [c]) of
                  None \<Rightarrow> (Some ENOENT, s)
                | Some (Dir es) \<Rightarrow>
                    if es \<noteq> [] then (Some ENOTEMPTY, s)
                    else if fs_refused s Call_rmdir (d @ [c]) then (Some EACCES, s)
                    else (None, s\<lparr>fs_root := put_at (d @ [c]) None (fs_root s)\<rparr>)
                | Some _ \<Rightarrow> (Some ENOTDIR, s)))"

definition sys_mkdir :: "string \<Rightarrow> fsys \<Rightarrow> fs_error option \<times> fsys" where
  "sys_mkdir path s =
     (case entry_at s path of
        Inl e \<Rightarrow> (Some e, s)
      | Inr (d, c, slash) \<Rightarrow>
          if c = ''.'' \<or> c = ''..'' then (Some EEXIST, s)
          else if node_at (fs_root s) (d @ [c]) \<noteq> None then (Some EEXIST, s)
          else if fs_refused s Call_mkdir (d @ [c]) then (Some EACCES, s)
          else (None, s\<lparr>fs_root := put_at (d @ [c]) (Some (Dir [])) (fs_root s)\<rparr>))"

section \<open>Plain paths\<close>

text \<open>A path without \<open>..\<close> and symbolic links that ends in a name: it means the node \<open>p\<close> whatever happens below \<open>p\<close>.\<close>

definition path_names :: "string list \<Rightarrow> string list" where
  "path_names cs = filter (\<lambda>c. c \<noteq> [] \<and> c \<noteq> ''.'') cs"

definition dirs_above :: "node \<Rightarrow> string list \<Rightarrow> bool" where
  "dirs_above t p \<longleftrightarrow> (\<forall>q. strict_prefix q p \<longrightarrow> (\<exists>es. node_at t q = Some (Dir es)))"

definition plain_at :: "fsys \<Rightarrow> string \<Rightarrow> string list \<Rightarrow> bool" where
  "plain_at s path p \<longleftrightarrow>
     path_core path \<noteq> [] \<and> last (path_core path) \<noteq> ''.'' \<and> ''..'' \<notin> set (split_slash path) \<and>
     p = path_start s path @ path_names (split_slash path) \<and> dirs_above (fs_root s) p"

lemma path_names_simps [simp]:
  "path_names [] = []" "path_names (a @ b) = path_names a @ path_names b"
  "path_names (c # cs) = (if c = [] \<or> c = ''.'' then path_names cs else c # path_names cs)"
  by (simp_all add: path_names_def)

lemma dirs_above_cons: "dirs_above t (p @ [c]) \<Longrightarrow> dirs_above t p \<and> (\<exists>es. node_at t p = Some (Dir es))"
  by (auto simp: dirs_above_def strict_prefix_def)

lemma dirs_above_child: "dirs_above t p \<Longrightarrow> node_at t p = Some (Dir es) \<Longrightarrow> dirs_above t (p @ [c])"
  by (auto simp: dirs_above_def strict_prefix_def)

lemma dirs_above_put: "dirs_above t p \<Longrightarrow> dirs_above (put_at (p @ q) v t) p"
  unfolding dirs_above_def
proof (intro allI impI)
  fix r
  assume "\<forall>q. strict_prefix q p \<longrightarrow> (\<exists>es. node_at t q = Some (Dir es))" and r: "strict_prefix r p"
  then obtain es where "node_at t r = Some (Dir es)" by blast
  moreover have "strict_prefix r (p @ q)" using r by (auto simp: strict_prefix_def prefix_def)
  ultimately show "\<exists>es. node_at (put_at (p @ q) v t) r = Some (Dir es)" by (intro node_at_put_above) auto
qed

lemma walk_plain:
  assumes "''..'' \<notin> set cs" "dirs_above t (st @ path_names cs)" "node_at t (st @ path_names cs) = Some (Dir es)"
  shows "walk n t st cs = Inr (st @ path_names cs)"
  using assms
proof (induction cs arbitrary: st)
  case (Cons c cs)
  show ?case
  proof (cases "c = [] \<or> c = ''.''")
    case True
    then have names: "path_names (c # cs) = path_names cs" by auto
    have "\<exists>es. node_at t st = Some (Dir es)"
    proof (cases "path_names cs = []")
      case True
      with Cons.prems(3) names show ?thesis by auto
    next
      case False
      then have "strict_prefix st (st @ path_names cs)" by (simp add: strict_prefix_def)
      with Cons.prems(2) names show ?thesis by (auto simp: dirs_above_def)
    qed
    with Cons True names show ?thesis by auto
  next
    case False
    then have names: "st @ path_names (c # cs) = (st @ [c]) @ path_names cs" by auto
    have "strict_prefix st (st @ path_names (c # cs))" using False by (auto simp: strict_prefix_def)
    with Cons.prems(2) obtain fs where d: "node_at t st = Some (Dir fs)" by (auto simp: dirs_above_def)
    have "\<exists>gs. map_of fs c = Some (Dir gs)"
    proof (cases "path_names cs = []")
      case True
      with Cons.prems(3) names d show ?thesis by (auto simp: node_at_append split: option.splits)
    next
      case ne: False
      then have "strict_prefix (st @ [c]) ((st @ [c]) @ path_names cs)" by (simp add: strict_prefix_def)
      with Cons.prems(2) names obtain gs where "node_at t (st @ [c]) = Some (Dir gs)" by (auto simp: dirs_above_def)
      with d show ?thesis by (auto simp: node_at_append split: option.splits)
    qed
    moreover have "walk n t (st @ [c]) cs = Inr ((st @ [c]) @ path_names cs)"
      using Cons.IH [of "st @ [c]"] Cons.prems unfolding names by simp
    moreover have "c \<noteq> ''..''" using Cons.prems(1) by auto
    ultimately show ?thesis using d False names by auto
  qed
qed simp

lemma path_core_split: "split_slash path = path_core path @ replicate (length (split_slash path) - length (path_core path)) []"
proof -
  have "rev (dropWhile (\<lambda>c. c = []) (rev cs)) @ replicate (length cs - length (dropWhile (\<lambda>c. c = []) (rev cs))) [] = cs"
    for cs :: "string list"
  proof (induction cs rule: rev_induct)
    case (snoc c cs)
    have "length (dropWhile (\<lambda>c. c = []) (rev cs)) \<le> length cs"
      by (metis length_dropWhile_le length_rev)
    with snoc show ?case by (auto simp: Suc_diff_le simp flip: replicate_append_same) 
  qed simp
  from this [of "split_slash path"] show ?thesis by (simp add: path_core_def)
qed

lemma path_names_core: "path_names (split_slash path) = path_names (path_core path)"
  by (subst path_core_split) (simp add: path_names_def)

lemma path_core_last: "path_core path \<noteq> [] \<Longrightarrow> last (path_core path) \<noteq> []"
proof -
  assume "path_core path \<noteq> []"
  then have "dropWhile (\<lambda>c. c = []) (rev (split_slash path)) \<noteq> []" by (simp add: path_core_def)
  from hd_dropWhile [OF this] show ?thesis by (simp add: path_core_def last_rev)
qed

lemma path_core_sub: "set (path_core path) \<subseteq> set (split_slash path)"
  by (metis path_core_split UnCI set_append subsetI)

lemma plain_names:
  assumes "plain_at s path p"
  shows "p = (path_start s path @ path_names (butlast (path_core path))) @ [last (path_core path)]"
proof -
  have "path_core path = butlast (path_core path) @ [last (path_core path)]"
    using assms by (simp add: plain_at_def)
  then have "path_names (path_core path) = path_names (butlast (path_core path)) @ path_names [last (path_core path)]"
    by (metis path_names_simps(2))
  with assms path_core_last [of path] show ?thesis by (simp add: plain_at_def path_names_core)
qed

lemma plain_entry:
  assumes "plain_at s path p"
  shows "\<exists>d c slash. p = d @ [c] \<and> entry_at s path = Inr (d, c, slash) \<and> c \<noteq> ''.'' \<and> c \<noteq> ''..'' \<and>
    (\<exists>es. node_at (fs_root s) d = Some (Dir es))"
proof -
  let ?d = "path_start s path @ path_names (butlast (path_core path))" and ?c = "last (path_core path)"
  note pl = assms [unfolded plain_at_def]
  note p = plain_names [OF assms]
  have "dirs_above (fs_root s) p" using pl by blast
  then have "dirs_above (fs_root s) (?d @ [?c])" by (simp only: p [symmetric])
  then obtain es where above: "dirs_above (fs_root s) ?d" and d: "node_at (fs_root s) ?d = Some (Dir es)"
    using dirs_above_cons by blast
  have dots: "''..'' \<notin> set (path_core path)" using pl path_core_sub by blast
  then have "''..'' \<notin> set (butlast (path_core path))" by (meson in_set_butlastD)
  from walk_plain [OF this above d] have w: "walk n (fs_root s) (path_start s path) (butlast (path_core path)) = Inr ?d" for n .
  have c: "?c \<noteq> ''.''" "?c \<noteq> ''..''" "path \<noteq> []"
    using pl dots last_in_set [of "path_core path"] by (auto simp: path_core_def)
  with w d pl have "entry_at s path = Inr (?d, ?c, path_core path \<noteq> split_slash path)"
    by (simp add: entry_at_def Let_def)
  with c d p show ?thesis by blast
qed

lemma plain_resolve:
  assumes "plain_at s path p" "node_at (fs_root s) p = Some (Dir es)"
  shows "resolve s path = Inr p"
  using assms walk_plain [of "split_slash path" "fs_root s" "path_start s path" es 40]
  by (auto simp: resolve_def plain_at_def path_core_def)

lemma path_start_simps [simp]:
  "path_start (s\<lparr>fs_root := t\<rparr>) path = path_start s path"
  "path_start (s\<lparr>fs_fds := n\<rparr>) path = path_start s path"
  "path \<noteq> [] \<Longrightarrow> path_start s (path @ xs) = path_start s path"
  by (simp_all add: path_start_def) (cases path, auto)

lemma plain_put:
  assumes "plain_at s path p"
  shows "plain_at (s\<lparr>fs_root := put_at (p @ q) v (fs_root s)\<rparr>) path p"
proof -
  have "dirs_above (put_at (p @ q) v (fs_root s)) p"
    by (rule dirs_above_put) (use assms plain_at_def in blast)
  with assms show ?thesis by (simp add: plain_at_def)
qed

lemma plain_root:
  assumes "plain_at s path p" "\<And>q. strict_prefix q p \<Longrightarrow> \<exists>es. node_at t q = Some (Dir es)"
  shows "plain_at (s\<lparr>fs_root := t\<rparr>) path p"
  using assms by (simp add: plain_at_def dirs_above_def)

lemma plain_fds [simp]: "plain_at (s\<lparr>fs_fds := n\<rparr>) path p = plain_at s path p"
  by (simp add: plain_at_def)

lemma path_core_snoc: "good_name c \<Longrightarrow> path_core (path @ CHR ''/'' # c) = split_slash path @ [c]"
  by (simp add: path_core_def good_name_def split_slash_name)

section \<open>Paths of a directory whose content changes\<close>

text \<open>\<open>leads s path p\<close>: the path means the directory \<open>p\<close> whatever is in it. \<open>named s path p\<close>: as an entry of its
  parent, too, so that \<open>rmdir\<close> can remove it.\<close>

definition dir_in :: "fsys \<Rightarrow> string list \<Rightarrow> (string \<times> node) list \<Rightarrow> fsys" where
  "dir_in s p es = s\<lparr>fs_root := put_at p (Some (Dir es)) (fs_root s)\<rparr>"

definition leads :: "fsys \<Rightarrow> string \<Rightarrow> string list \<Rightarrow> bool" where
  "leads s path p \<longleftrightarrow> (\<exists>u. node_at (fs_root s) p = Some u) \<and> (\<forall>es. resolve (dir_in s p es) path = Inr p)"

definition named :: "fsys \<Rightarrow> string \<Rightarrow> string list \<Rightarrow> bool" where
  "named s path p \<longleftrightarrow> p \<noteq> [] \<and> last p \<noteq> ''.'' \<and> last p \<noteq> ''..'' \<and>
     (\<forall>es. \<exists>slash. entry_at (dir_in s p es) path = Inr (butlast p, last p, slash))"

lemma dir_in_simps [simp]:
  "fs_root (dir_in s p es) = put_at p (Some (Dir es)) (fs_root s)" "fs_cwd (dir_in s p es) = fs_cwd s"
  "fs_fds (dir_in s p es) = fs_fds s" "fs_refused (dir_in s p es) = fs_refused s"
  "path_start (dir_in s p es) path = path_start s path"
  by (simp_all add: dir_in_def)

lemma put_same: "node_at t p = Some u \<Longrightarrow> put_at p (Some u) t = t" if "wf_node t"
  using that
proof (induction p arbitrary: t)
  case (Cons c p)
  then obtain es x where t: "t = Dir es" "map_of es c = Some x" "node_at x p = Some u"
    by (cases t) (auto split: option.splits)
  have x: "set_entry c (Some x) es = es"
  proof -
    have d: "distinct (map fst es)" using Cons.prems(2) t(1) by simp
    have "w = x" if "(c, w) \<in> set es" for w using that t(2) d by (metis map_of_is_SomeI option.inject)
    then have "map (\<lambda>(d, w). (d, if d = c then x else w)) es = map (\<lambda>e. e) es"
      by (intro map_cong refl) auto
    moreover have "c \<in> fst ` set es" using t(2) by (metis map_of_SomeD fst_conv image_eqI)
    ultimately show ?thesis by (simp add: set_entry_def)
  qed
  have "wf_node x" using Cons.prems(2) t(1,2) by (auto dest: map_of_SomeD)
  with Cons.IH [OF t(3)] t x show ?case by (cases "p = []") simp_all
qed simp

lemma put_in: "node_at t p = Some (Dir es) \<Longrightarrow> put_at (p @ [c]) v t = put_at p (Some (Dir (set_entry c v es))) t"
  by (simp add: put_at_append)

lemma dir_in_dir_in: "node_at (fs_root s) p = Some u \<Longrightarrow> dir_in (dir_in s p es) p fs = dir_in s p fs"
  by (simp add: dir_in_def put_put)

lemma leads_dir_in [simp]: "leads s path p \<Longrightarrow> leads (dir_in s p es) path p"
  by (auto simp: leads_def dir_in_dir_in node_at_put)

lemma named_dir_in: "named s path p \<Longrightarrow> node_at (fs_root s) p = Some u \<Longrightarrow> named (dir_in s p es) path p"
  by (auto simp: named_def dir_in_dir_in)

lemma resolve_cong: "fs_root s = fs_root s' \<Longrightarrow> fs_cwd s = fs_cwd s' \<Longrightarrow> resolve s path = resolve s' path"
  by (simp add: resolve_def path_start_def)

lemma entry_cong:
  assumes "fs_root s = fs_root s'" "fs_cwd s = fs_cwd s'"
  shows "entry_at s path = entry_at s' path"
  unfolding entry_at_def path_start_def assms by (rule refl)

lemma leads_fds [simp]: "leads (s\<lparr>fs_fds := n\<rparr>) path p = leads s path p"
  using resolve_cong [of "dir_in (s\<lparr>fs_fds := n\<rparr>) p _" "dir_in s p _"] by (simp add: leads_def)

lemma named_fds [simp]: "named (s\<lparr>fs_fds := n\<rparr>) path p = named s path p"
  using entry_cong [of "dir_in (s\<lparr>fs_fds := n\<rparr>) p _" "dir_in s p _"] by (simp add: named_def)

lemma leads_now:
  assumes "leads s path p" "node_at (fs_root s) p = Some (Dir es)" "wf_node (fs_root s)"
  shows "resolve s path = Inr p"
proof -
  have "dir_in s p es = s" using put_same [OF assms(3,2)] by (simp add: dir_in_def)
  with assms(1) show ?thesis by (metis leads_def)
qed

text \<open>One more component behind a path to a directory, which is not a link.\<close>

definition step_to :: "(string \<times> node) list \<Rightarrow> string list \<Rightarrow> string \<Rightarrow> fs_error + string list" where
  "step_to es p c = (if map_of es c = None then Inl ENOENT else Inr (p @ [c]))"

lemma walk_one:
  assumes "node_at t p = Some (Dir es)" "c \<noteq> []" "c \<noteq> ''.''" "c \<noteq> ''..''" "\<nexists>l. map_of es c = Some (Link l)"
  shows "walk n t p [c] = step_to es p c"
proof (cases "map_of es c")
  case (Some u)
  with assms show ?thesis by (cases u) (simp_all add: step_to_def)
qed (use assms in \<open>simp add: step_to_def\<close>)

lemma walk_last:
  assumes "walk n t st cs = Inr p" "node_at t p = Some (Dir es)" "c \<noteq> []" "c \<noteq> ''.''" "c \<noteq> ''..''"
    "\<nexists>l. map_of es c = Some (Link l)"
  shows "walk n t st (cs @ [c]) = step_to es p c"
  using assms
proof (induction n t st cs rule: walk.induct)
  case (1 n t cur)
  with walk_one [of t p es c n] show ?case by simp
next
  case (2 n t cur d cs)
  from "2.prems" obtain fs where fs: "node_at t cur = Some (Dir fs)" by (auto split: option.splits node.splits)
  show ?case
  proof (cases "d = [] \<or> d = ''.'' \<or> d = ''..''")
    case True
    with "2.IH" "2.prems" fs show ?thesis by auto
  next
    case False
    with "2.prems" fs obtain x where x: "map_of fs d = Some x" by (auto split: option.splits)
    show ?thesis
    proof (cases x)
      case (Link l)
      with "2.prems" False fs x obtain m where "n = Suc m" by (auto split: nat.splits)
      with "2.IH" "2.prems" False fs x Link show ?thesis by (simp split del: if_split)
    qed (use "2.IH" "2.prems" False fs x in auto)
  qed
qed

lemma walk_snoc:
  assumes "walk n t st cs = Inr p" "node_at t p = Some (Dir es)" "map_of es c = Some u" "good_name c" "\<nexists>l. u = Link l"
  shows "walk n t st (cs @ [c]) = Inr (p @ [c])"
  using walk_last [OF assms(1,2), of c] assms(3-5) by (simp add: good_name_def step_to_def)

lemma leads_child:
  assumes "leads s path p" "node_at (fs_root s) p = Some (Dir es)" "map_of es c = Some (Dir fs)" "good_name c"
  shows "leads s (path @ CHR ''/'' # c) (p @ [c])"
  unfolding leads_def
proof (intro conjI allI)
  show "\<exists>u. node_at (fs_root s) (p @ [c]) = Some u" using assms(2,3) by (simp add: node_at_append)
  fix gs
  let ?es = "set_entry c (Some (Dir gs)) es"
  have d: "dir_in s (p @ [c]) gs = dir_in s p ?es" using put_in [OF assms(2)] by (simp add: dir_in_def)
  have r: "resolve (dir_in s p ?es) path = Inr p" using assms(1) by (simp add: leads_def)
  then have ne: "path \<noteq> []" by (auto simp: resolve_def)
  have "split_slash c = [c]" using assms(4) by (simp add: good_name_def split_slash_name)
  with r ne walk_snoc [of 40 "fs_root (dir_in s p ?es)" _ "split_slash path" p ?es c "Dir gs"]
    node_at_put [OF assms(2), of "Dir ?es"] assms(4)
  show "resolve (dir_in s (p @ [c]) gs) (path @ CHR ''/'' # c) = Inr (p @ [c])"
    unfolding d by (simp add: resolve_def)
qed

lemma leads_entry:
  assumes "leads s path p" "node_at (fs_root s) p = Some (Dir es)" "good_name c"
  shows "entry_at (dir_in s p fs) (path @ CHR ''/'' # c) = Inr (p, c, False)"
proof -
  have r: "resolve (dir_in s p fs) path = Inr p" using assms(1) by (simp add: leads_def)
  then have ne: "path \<noteq> []" by (auto simp: resolve_def)
  have "split_slash c = [c]" using assms(3) by (simp add: good_name_def split_slash_name)
  with r ne node_at_put [OF assms(2), of "Dir fs"] assms(3) show ?thesis
    by (simp add: entry_at_def resolve_def path_core_snoc Let_def)
qed

lemma named_child:
  assumes "leads s path p" "node_at (fs_root s) p = Some (Dir es)" "good_name c"
  shows "named s (path @ CHR ''/'' # c) (p @ [c])"
  unfolding named_def
proof (intro conjI allI)
  fix gs
  have "dir_in s (p @ [c]) gs = dir_in s p (set_entry c (Some (Dir gs)) es)"
    using put_in [OF assms(2)] by (simp add: dir_in_def)
  with leads_entry [OF assms] show "\<exists>slash. entry_at (dir_in s (p @ [c]) gs) (path @ CHR ''/'' # c) =
      Inr (butlast (p @ [c]), last (p @ [c]), slash)" by (intro exI [of _ False]) simp
qed (use assms(3) in \<open>simp_all add: good_name_def\<close>)

lemma plain_dir_in: "plain_at s path p \<Longrightarrow> plain_at (dir_in s p es) path p"
  using plain_put [of s path p "[]"] by (simp add: dir_in_def)

lemma plain_leads: "plain_at s path p \<Longrightarrow> node_at (fs_root s) p = Some u \<Longrightarrow> leads s path p"
  using plain_resolve [OF plain_dir_in] node_at_put by (simp add: leads_def)

lemma plain_named: "plain_at s path p \<Longrightarrow> named s path p"
  using plain_entry [OF plain_dir_in] plain_entry [of s path p] by (fastforce simp: named_def)

text \<open>A plain path to a file or to nothing, without a slash behind.\<close>

lemma plain_resolve_name:
  assumes "plain_at s path p" "path_core path = split_slash path" "p = d @ [c]" "node_at (fs_root s) d = Some (Dir es)"
    "\<nexists>l. map_of es c = Some (Link l)"
  shows "resolve s path = step_to es d c" "entry_at s path = Inr (d, c, False)"
proof -
  note pl = assms(1) [unfolded plain_at_def]
  let ?b = "butlast (path_core path)"
  have d: "d = path_start s path @ path_names ?b" "c = last (path_core path)" using plain_names [OF assms(1)] assms(3) by simp_all
  have "dirs_above (fs_root s) d" using pl assms(3) dirs_above_cons by metis
  moreover have "''..'' \<notin> set ?b" using pl path_core_sub by (meson in_set_butlastD subsetD)
  ultimately have w: "walk 40 (fs_root s) (path_start s path) ?b = Inr d"
    using walk_plain [of ?b "fs_root s" "path_start s path" es 40] assms(4) d by simp
  have c: "c \<noteq> []" "c \<noteq> ''.''" "c \<noteq> ''..''"
    using pl path_core_last [of path] subsetD [OF path_core_sub, OF last_in_set, of path] d(2) by auto
  have "split_slash path = ?b @ [c]" using pl assms(2) d(2) by (metis append_butlast_last_id)
  then have "walk 40 (fs_root s) (path_start s path) (split_slash path) = step_to es d c"
    using walk_last [OF w assms(4) c assms(5)] by simp
  moreover have "path \<noteq> []" using pl by (auto simp: path_core_def)
  ultimately show "resolve s path = step_to es d c" by (simp add: resolve_def)
  obtain d' c' slash where "p = d' @ [c']" "entry_at s path = Inr (d', c', slash)" using plain_entry [OF assms(1)] by blast
  moreover have "slash = (path_core path \<noteq> split_slash path)" if "entry_at s path = Inr (d', c', slash)" for d' c' slash
    using that by (auto simp: entry_at_def Let_def split: if_splits sum.splits option.splits node.splits)
  ultimately show "entry_at s path = Inr (d, c, False)" using assms(2,3) by simp
qed

end
