(* ===== verification/FileTree.thy ===== *)
theory FileTree
  imports FileSystem
begin

text \<open>
  The operations of \<open>utils/linux_helper.cpp\<close> on trees of files: removing a directory with and without a list of
  paths to keep, creating a path, the type of a path and the traversal with a callback.
\<close>

section \<open>Removing\<close>

text \<open>\<open>n\<close> bounds the depth of the recursion; each level holds a directory stream, so the descriptors the process has
  left are enough. A return in the middle of the loop does not close the stream.\<close>

fun remove_dir_rec :: "nat \<Rightarrow> string \<Rightarrow> fsys \<Rightarrow> bool \<times> fsys"
  and remove_entries :: "nat \<Rightarrow> string \<Rightarrow> (string \<times> d_type) list \<Rightarrow> fsys \<Rightarrow> bool \<times> fsys" where
  "remove_dir_rec n dir_name s =
     (case sys_opendir dir_name s of
        (None, s1) \<Rightarrow> (False, s1)
      | (Some entries, s1) \<Rightarrow>
          (case n of
             0 \<Rightarrow> (False, s1)
           | Suc k \<Rightarrow>
               (case remove_entries k dir_name entries s1 of
                  (False, s2) \<Rightarrow> (False, s2)
                | (True, s2) \<Rightarrow> (case sys_rmdir dir_name (sys_closedir s2) of (e, s3) \<Rightarrow> (e = None, s3)))))"
| "remove_entries k dir_name [] s = (True, s)"
| "remove_entries k dir_name ((d_name, d_type) # entries) s =
     (if d_type = DT_DIR then
        if d_name = ''.'' \<or> d_name = ''..'' then remove_entries k dir_name entries s
        else (case remove_dir_rec k (dir_name @ CHR ''/'' # d_name) s of
                (False, s1) \<Rightarrow> (False, s1)
              | (True, s1) \<Rightarrow> remove_entries k dir_name entries s1)
      else (case sys_unlink (dir_name @ CHR ''/'' # d_name) s of
              (Some _, s1) \<Rightarrow> (False, s1)
            | (None, s1) \<Rightarrow> remove_entries k dir_name entries s1))"

definition remove_dir :: "string \<Rightarrow> fsys \<Rightarrow> bool \<times> fsys" where
  "remove_dir dir_name s = remove_dir_rec (fs_fds s) dir_name s"

definition remove_files :: "string \<Rightarrow> fsys \<Rightarrow> bool \<times> fsys" where
  "remove_files path s =
     (case sys_stat path s of
        Inl _ \<Rightarrow> (False, s)
      | Inr u \<Rightarrow>
          if \<not> is_dir u then (case sys_unlink path s of (e, s1) \<Rightarrow> (e = None, s1))
          else remove_dir path s)"

fun isInVector :: "string list \<Rightarrow> string \<Rightarrow> bool" where
  "isInVector [] data = False"
| "isInVector (item # v) data = (if item = data then True else isInVector v data)"

fun remove_white_entries :: "string list \<Rightarrow> string \<Rightarrow> (string \<times> d_type) list \<Rightarrow> fsys \<Rightarrow> bool \<times> fsys" where
  "remove_white_entries white rootPath [] s = (True, s)"
| "remove_white_entries white rootPath ((d_name, d_type) # entries) s =
     (let path = rootPath @ CHR ''/'' # d_name in
      if isInVector white path then remove_white_entries white rootPath entries s
      else if d_type = DT_DIR then
        if d_name = ''.'' \<or> d_name = ''..'' then remove_white_entries white rootPath entries s
        else (case remove_dir path s of
                (False, s1) \<Rightarrow> (False, s1)
              | (True, s1) \<Rightarrow> remove_white_entries white rootPath entries s1)
      else (case sys_unlink path s of
              (Some _, s1) \<Rightarrow> (False, s1)
            | (None, s1) \<Rightarrow> remove_white_entries white rootPath entries s1))"

definition remove_dir_white :: "string \<Rightarrow> string list \<Rightarrow> bool \<Rightarrow> fsys \<Rightarrow> bool \<times> fsys" where
  "remove_dir_white rootPath white deleteRoot s =
     (case sys_opendir rootPath s of
        (None, s1) \<Rightarrow> (False, s1)
      | (Some entries, s1) \<Rightarrow>
          (case remove_white_entries white rootPath entries s1 of
             (False, s2) \<Rightarrow> (False, s2)
           | (True, s2) \<Rightarrow>
               let s3 = sys_closedir s2 in
               if deleteRoot then (case sys_rmdir rootPath s3 of (e, s4) \<Rightarrow> (e = None, s4))
               else (True, s3)))"

section \<open>Creating a path\<close>

lemma str_find_range: "str_find s p pos = Some i \<Longrightarrow> p \<noteq> [] \<Longrightarrow> pos \<le> i \<and> i < length s"
  by (cases p) (auto simp: str_find_def split: if_splits dest!: find_sub_Some_bound)

function mkdir_loop :: "string \<Rightarrow> nat \<Rightarrow> fsys \<Rightarrow> bool \<times> fsys" where
  "mkdir_loop path prev s =
     (case str_find path ''/'' prev of
        None \<Rightarrow>
          (case sys_mkdir path s of
             (e, s1) \<Rightarrow> if e \<noteq> None \<and> e \<noteq> Some EEXIST then (False, s1) else (True, s1))
      | Some pos \<Rightarrow>
          let sub = take pos path; prev = pos + 1 in
          if sub = [] then mkdir_loop path prev s
          else (case sys_mkdir sub s of
                  (e, s1) \<Rightarrow>
                    if e \<noteq> None \<and> e \<noteq> Some EEXIST then (False, s1) else mkdir_loop path prev s1))"
  by pat_completeness auto

termination
  by (relation "measure (\<lambda>(path, prev, s). Suc (length path) - prev)") (auto dest: str_find_range)

declare mkdir_loop.simps [simp del]

definition mkdir_recursive :: "string \<Rightarrow> fsys \<Rightarrow> bool \<times> fsys" where
  "mkdir_recursive path s = mkdir_loop path 0 s"

section \<open>Types and traversal\<close>

datatype FileType = FT_file | FT_dir | FT_link2file | FT_link2dir | FT_unknown

definition get_path_type :: "string \<Rightarrow> fsys \<Rightarrow> FileType" where
  "get_path_type path s =
     (case sys_lstat path s of
        Inr (Link _) \<Rightarrow>
          (case sys_stat path s of
             Inr u \<Rightarrow> if is_dir u then FT_link2dir else FT_link2file
           | Inl _ \<Rightarrow> FT_unknown)
      | Inr (Dir _) \<Rightarrow> FT_dir
      | Inr (File _) \<Rightarrow> FT_file
      | Inr Special \<Rightarrow> FT_unknown
      | Inl _ \<Rightarrow> FT_unknown)"

text \<open>The callback is a function on a state of its own and does not change the files; the stack has its top first.\<close>

type_synonym 's visitor = "string \<Rightarrow> string \<Rightarrow> d_type \<Rightarrow> 's \<Rightarrow> bool \<times> 's"

fun traverse_entries ::
  "'s visitor \<Rightarrow> string list \<Rightarrow> string \<Rightarrow> (string \<times> d_type) list \<Rightarrow> fsys \<Rightarrow> string list \<Rightarrow> 's \<Rightarrow> bool \<times> string list \<times> 's" where
  "traverse_entries callback whitePath top_dir [] s pathStack st = (True, pathStack, st)"
| "traverse_entries callback whitePath top_dir ((d_name, d_type) # entries) s pathStack st =
     (if d_name = ''.'' \<or> d_name = ''..'' then traverse_entries callback whitePath top_dir entries s pathStack st
      else
        let path = top_dir @ CHR ''/'' # d_name in
        if isInVector whitePath path then traverse_entries callback whitePath top_dir entries s pathStack st
        else
          let fileType = get_path_type path s in
          case callback path d_name d_type st of
            (False, st1) \<Rightarrow> (False, pathStack, st1)
          | (True, st1) \<Rightarrow>
              traverse_entries callback whitePath top_dir entries s
                (if fileType = FT_dir then path # pathStack else pathStack) st1)"

partial_function (option) traverse_loop ::
  "'s visitor \<Rightarrow> string list \<Rightarrow> string list \<Rightarrow> fsys \<Rightarrow> 's \<Rightarrow> (bool \<times> fsys \<times> 's) option" where
  "traverse_loop callback whitePath pathStack s st =
     (case pathStack of
        [] \<Rightarrow> Some (True, s, st)
      | top_dir # rest \<Rightarrow>
          (case sys_opendir top_dir s of
             (None, s1) \<Rightarrow> Some (False, s1, st)
           | (Some entries, s1) \<Rightarrow>
               (case traverse_entries callback whitePath top_dir entries s1 rest st of
                  (go_on, pathStack1, st1) \<Rightarrow>
                    if \<not> go_on then Some (False, s1, st1)
                    else traverse_loop callback whitePath pathStack1 (sys_closedir s1) st1)))"

definition traverse_path ::
  "'s visitor \<Rightarrow> string list \<Rightarrow> string \<Rightarrow> fsys \<Rightarrow> 's \<Rightarrow> (bool \<times> fsys \<times> 's) option" where
  "traverse_path callback whitePath rootPath s st =
     (case sys_lstat rootPath s of
        Inl _ \<Rightarrow> Some (False, s, st)
      | Inr u \<Rightarrow> if \<not> is_dir u then Some (False, s, st) else traverse_loop callback whitePath [rootPath] s st)"

section \<open>Well-formed trees\<close>

lemma wf_at: "wf_node t \<Longrightarrow> node_at t p = Some u \<Longrightarrow> wf_node u"
proof (induction p arbitrary: t)
  case (Cons c p)
  then show ?case by (cases t) (auto split: option.splits dest: map_of_SomeD)
qed simp

lemma wf_set_entry:
  assumes "wf_node (Dir es)" "\<And>u. v = Some u \<Longrightarrow> wf_node u \<and> good_name c"
  shows "wf_node (Dir (set_entry c v es))"
proof (cases v)
  case None
  with assms(1) show ?thesis by (auto simp: set_entry_def distinct_map_filter)
next
  case (Some u)
  have "distinct (map fst (es @ [(c, u)]))" if "c \<notin> fst ` set es" using assms(1) that by simp
  moreover have "distinct (map fst (map (\<lambda>(d, w). (d, if d = c then u else w)) es))"
    using assms(1) by (simp add: map_fst_replace del: map_map)
  ultimately show ?thesis using assms Some by (auto simp: set_entry_def simp del: map_map split: if_splits)
qed

lemma wf_put:
  assumes "wf_node t" "node_at t p = Some w" "\<And>u. v = Some u \<Longrightarrow> wf_node u"
  shows "wf_node (put_at p v t)"
  using assms
proof (induction p arbitrary: t)
  case (Cons c p)
  then obtain es x where t: "t = Dir es" "map_of es c = Some x" "node_at x p = Some w"
    by (cases t) (auto split: option.splits)
  have c: "good_name c" "wf_node x" using Cons.prems(1) t(1,2) by (auto dest: map_of_SomeD)
  show ?case
  proof (cases "p = []")
    case True
    with t Cons.prems c show ?thesis by (auto simp del: wf_node.simps intro: wf_set_entry)
  next
    case False
    have "wf_node (put_at p v x)" using Cons.IH [OF c(2) t(3)] Cons.prems(3) by blast
    with t Cons.prems(1) c False show ?thesis by (auto simp del: wf_node.simps intro!: wf_set_entry)
  qed
qed (auto split: option.split)

section \<open>Removing a directory\<close>

definition nothing_refused :: "fsys \<Rightarrow> string list \<Rightarrow> bool" where
  "nothing_refused s p \<longleftrightarrow> (\<forall>c q. \<not> fs_refused s c (p @ q))"

lemma nothing_refused_simps [simp]:
  "nothing_refused (dir_in s p es) q = nothing_refused s q" "nothing_refused (s\<lparr>fs_fds := n\<rparr>) q = nothing_refused s q"
  "nothing_refused (s\<lparr>fs_root := t\<rparr>) q = nothing_refused s q"
  "nothing_refused s p \<Longrightarrow> nothing_refused s (p @ q)" "nothing_refused s p \<Longrightarrow> \<not> fs_refused s c p"
  "nothing_refused s p \<Longrightarrow> \<not> fs_refused s c (p @ q)"
  by (simp_all add: nothing_refused_def) (metis append_Nil2)

text \<open>What a call on a directory of enough descriptors leaves, for the induction.\<close>

definition rec_removes :: "nat \<Rightarrow> bool" where
  "rec_removes n \<longleftrightarrow>
     (\<forall>s path p es. leads s path p \<longrightarrow> named s path p \<longrightarrow> node_at (fs_root s) p = Some (Dir es) \<longrightarrow>
        wf_node (fs_root s) \<longrightarrow> height (Dir es) \<le> n \<longrightarrow> n \<le> fs_fds s \<longrightarrow> nothing_refused s p \<longrightarrow>
        remove_dir_rec n path s = (True, s\<lparr>fs_root := put_at p None (fs_root s)\<rparr>))"

lemma del_entry: "distinct (map fst (gs @ (c, u) # es)) \<Longrightarrow> set_entry c None (gs @ (c, u) # es) = gs @ es"
  by (simp add: set_entry_def filter_new_name)

lemma find_entry_in: "distinct (map fst (gs @ (c, u) # es)) \<Longrightarrow> map_of (gs @ (c, u) # es) c = Some u"
  by (rule map_of_is_SomeI) auto

lemma dir_in_del_child:
  assumes "node_at (fs_root s) p = Some w" "distinct (map fst (gs @ (c, u) # es))"
  shows "(dir_in s p (gs @ (c, u) # es))\<lparr>fs_root := put_at (p @ [c]) None (fs_root (dir_in s p (gs @ (c, u) # es)))\<rparr> =
    dir_in s p (gs @ es)"
  using node_at_put [OF assms(1)] put_put [OF assms(1)] del_entry [OF assms(2)] by (simp add: put_in dir_in_def)

lemma opendir_now:
  assumes "leads s path p" "node_at (fs_root s) p = Some (Dir es)" "wf_node (fs_root s)" "0 < fs_fds s"
    "\<not> fs_refused s Call_opendir p"
  shows "sys_opendir path s = (Some ((''.'', DT_DIR) # (''..'', DT_DIR) # dir_listing es), s\<lparr>fs_fds := fs_fds s - 1\<rparr>)"
  using leads_now [OF assms(1-3)] assms(2,4,5) by (simp add: sys_opendir_def)

lemma unlink_child:
  assumes l: "leads s path p" "node_at (fs_root s) p = Some (Dir ws)" "nothing_refused s p"
    and e: "wf_node (Dir (gs @ (c, u) # es))" "\<not> is_dir u"
  shows "sys_unlink (path @ CHR ''/'' # c) (dir_in s p (gs @ (c, u) # es)) = (None, dir_in s p (gs @ es))"
proof -
  have c: "good_name c" "distinct (map fst (gs @ (c, u) # es))" using e(1) by auto
  have "node_at (fs_root (dir_in s p (gs @ (c, u) # es))) (p @ [c]) = Some u"
    using node_at_put [OF l(2)] find_entry_in [OF c(2)] by (simp add: node_at_append)
  with leads_entry [OF l(1,2) c(1)] e(2) l(3) c(1) dir_in_del_child [OF l(2) c(2)]
  show ?thesis by (simp add: sys_unlink_def good_name_def)
qed

lemma rec_child:
  assumes "rec_removes k" "leads s path p" "node_at (fs_root s) p = Some (Dir ws)" "nothing_refused s p" "wf_node (fs_root s)"
    and e: "wf_node (Dir (gs @ (c, u) # es))" "is_dir u" "height u \<le> k" "k \<le> fs_fds s"
  shows "remove_dir_rec k (path @ CHR ''/'' # c) (dir_in s p (gs @ (c, u) # es)) = (True, dir_in s p (gs @ es))"
proof -
  let ?s = "dir_in s p (gs @ (c, u) # es)"
  obtain us where us: "u = Dir us" using e(2) by (auto simp: is_dir_iff)
  have c: "good_name c" "distinct (map fst (gs @ (c, u) # es))" using e(1) by auto
  have at: "node_at (fs_root ?s) p = Some (Dir (gs @ (c, u) # es))" using node_at_put [OF assms(3)] by simp
  have m: "map_of (gs @ (c, u) # es) c = Some (Dir us)" using find_entry_in [OF c(2)] by (simp only: us)
  have "node_at (fs_root ?s) (p @ [c]) = Some (Dir us)" using at m us by (simp add: node_at_append)
  moreover have "wf_node (fs_root ?s)" using wf_put [OF assms(5,3), of "Some (Dir (gs @ (c, u) # es))"] e(1) by simp
  ultimately show ?thesis
    using assms(1) leads_child [OF leads_dir_in [OF assms(2)] at m c(1)]
      named_child [OF leads_dir_in [OF assms(2)] at c(1)] us e(3,4) assms(4) dir_in_del_child [OF assms(3) c(2)]
    unfolding rec_removes_def by simp
qed

lemma entries_removed:
  assumes "rec_removes k" "leads s path p" "node_at (fs_root s) p = Some (Dir ws)" "nothing_refused s p"
    "wf_node (fs_root s)" "k \<le> fs_fds s"
    "wf_node (Dir es)" "\<forall>e\<in>set es. height (snd e) \<le> k"
  shows "remove_entries k path (dir_listing es) (dir_in s p es) = (True, dir_in s p [])"
  using assms(7,8)
proof (induction es)
  case Nil
  then show ?case by (simp add: dir_listing_def)
next
  case (Cons e es)
  obtain c u where e: "e = (c, u)" by (cases e)
  have c: "c \<noteq> ''.''" "c \<noteq> ''..''" using Cons.prems by (auto simp: e good_name_def)
  have rest: "remove_entries k path (dir_listing es) (dir_in s p es) = (True, dir_in s p [])"
    using Cons by auto
  have wf: "wf_node (Dir ([] @ (c, u) # es))" using Cons.prems(1) by (simp only: e append_Nil)
  show ?case
  proof (cases "is_dir u")
    case True
    with rec_child [OF assms(1-5) wf True _ assms(6)] Cons.prems(2) rest c show ?thesis
      by (cases u) (simp_all add: dir_listing_def e)
  next
    case False
    then have "d_type_of u \<noteq> DT_DIR" by (cases u) auto
    with unlink_child [OF assms(2-4) wf False] rest show ?thesis by (simp add: dir_listing_def e)
  qed
qed

lemma all_removed: "rec_removes n"
proof (induction n)
  case 0
  then show ?case by (simp add: rec_removes_def height.simps)
next
  case (Suc k)
  show ?case
    unfolding rec_removes_def
  proof (intro allI impI)
    fix s path p es
    assume a: "leads s path p" "named s path p" "node_at (fs_root s) p = Some (Dir es)" "wf_node (fs_root s)"
      "height (Dir es) \<le> Suc k" "Suc k \<le> fs_fds s" "nothing_refused s p"
    let ?s = "s\<lparr>fs_fds := fs_fds s - 1\<rparr>"
    have same: "dir_in ?s p es = ?s" using put_same [OF a(4,3)] by (simp add: dir_in_def)
    have wf: "wf_node (Dir es)" by (rule wf_at [OF a(4,3)])
    have "remove_entries k path (dir_listing es) (dir_in ?s p es) = (True, dir_in ?s p [])"
      by (rule entries_removed [OF Suc, of _ _ _ es]) (use a wf in \<open>auto simp: height_le simp del: wf_node.simps\<close>)
    then have loop: "remove_entries k path (dir_listing es) ?s = (True, dir_in ?s p [])" by (simp only: same)
    let ?t = "sys_closedir (dir_in ?s p [])"
    have t: "?t = dir_in s p []" using a(6) by (simp add: sys_closedir_def dir_in_def)
    obtain slash where en: "entry_at (dir_in s p []) path = Inr (butlast p, last p, slash)" and p: "p \<noteq> []"
      "last p \<noteq> ''.''" "last p \<noteq> ''..''" using a(2) by (auto simp: named_def)
    have "sys_rmdir path ?t = (None, s\<lparr>fs_root := put_at p None (fs_root s)\<rparr>)"
      unfolding t using en p a(7) node_at_put [OF a(3)] put_put [OF a(3)]
      by (simp add: sys_rmdir_def)
    with loop opendir_now [OF a(1,3,4)] a(6,7)
    show "remove_dir_rec (Suc k) path s = (True, s\<lparr>fs_root := put_at p None (fs_root s)\<rparr>)" by simp
  qed
qed

text \<open>C32: \<open>remove_dir\<close> removes exactly the directory it is given. For a path without \<open>..\<close> and links, when the
  kernel refuses nothing there and the process has a descriptor for each level of the tree, it returns true, the
  directory with all it holds is gone, and nothing else has changed, the number of free descriptors included; links
  below are removed, not followed.\<close>

theorem remove_dir_removes:
  assumes "plain_at s path p" "node_at (fs_root s) p = Some (Dir es)" "wf_node (fs_root s)"
    "height (Dir es) \<le> fs_fds s" "nothing_refused s p"
  shows "remove_dir path s = (True, s\<lparr>fs_root := put_at p None (fs_root s)\<rparr>)"
  using all_removed [of "fs_fds s"] plain_leads [OF assms(1,2)] plain_named [OF assms(1)] assms
  by (simp add: rec_removes_def remove_dir_def del: remove_dir_rec.simps)

section \<open>The list of paths to keep\<close>

lemma isInVector_iff [simp]: "isInVector v x \<longleftrightarrow> x \<in> set v"
  by (induction v) auto

definition kept :: "string list \<Rightarrow> string \<Rightarrow> (string \<times> node) list \<Rightarrow> (string \<times> node) list" where
  "kept white rootPath es = filter (\<lambda>e. rootPath @ CHR ''/'' # fst e \<in> set white) es"

lemma white_entries_removed:
  assumes "leads s path p" "node_at (fs_root s) p = Some (Dir ws)" "nothing_refused s p" "wf_node (fs_root s)"
    "wf_node (Dir (gs @ es))" "\<forall>e\<in>set es. height (snd e) \<le> fs_fds s"
  shows "remove_white_entries white path (dir_listing es) (dir_in s p (gs @ es)) = (True, dir_in s p (gs @ kept white path es))"
  using assms(5,6)
proof (induction es arbitrary: gs)
  case Nil
  then show ?case by (simp add: dir_listing_def kept_def)
next
  case (Cons e es)
  obtain c u where e: "e = (c, u)" by (cases e)
  have wf: "wf_node (Dir (gs @ (c, u) # es))" using Cons.prems(1) by (simp only: e)
  then have wf2: "wf_node (Dir (gs @ es))" "c \<noteq> ''.''" "c \<noteq> ''..''" by (auto simp: good_name_def)
  show ?case
  proof (cases "path @ CHR ''/'' # c \<in> set white")
    case True
    with Cons.IH [of "gs @ [(c, u)]"] Cons.prems show ?thesis by (simp add: dir_listing_def kept_def e)
  next
    case False
    have rest: "remove_white_entries white path (dir_listing es) (dir_in s p (gs @ es)) = (True, dir_in s p (gs @ kept white path es))"
      using Cons.IH [OF wf2(1)] Cons.prems(2) by simp
    show ?thesis
    proof (cases "is_dir u")
      case True
      have "remove_dir (path @ CHR ''/'' # c) (dir_in s p (gs @ (c, u) # es)) = (True, dir_in s p (gs @ es))"
        using rec_child [OF all_removed assms(1-4) wf True, of "fs_fds s"] Cons.prems(2)
        by (simp add: remove_dir_def e del: remove_dir_rec.simps)
      with rest False True wf2 show ?thesis by (cases u) (simp_all add: dir_listing_def kept_def e Let_def)
    next
      case nd: False
      then have "d_type_of u \<noteq> DT_DIR" by (cases u) auto
      with unlink_child [OF assms(1-3) wf nd] rest False show ?thesis by (simp add: dir_listing_def kept_def e Let_def)
    qed
  qed
qed

lemma white_loop:
  assumes "plain_at s path p" "node_at (fs_root s) p = Some (Dir es)" "wf_node (fs_root s)" "nothing_refused s p"
    "height (Dir es) \<le> fs_fds s" "path @ ''/.'' \<notin> set white" "path @ ''/..'' \<notin> set white"
  shows "remove_dir_white path white deleteRoot s =
    (if deleteRoot then (case sys_rmdir path (dir_in s p (kept white path es)) of (e, t) \<Rightarrow> (e = None, t))
     else (True, dir_in s p (kept white path es)))"
proof -
  note l = plain_leads [OF assms(1,2)]
  let ?s = "s\<lparr>fs_fds := fs_fds s - 1\<rparr>"
  have same: "dir_in ?s p es = ?s" using put_same [OF assms(3,2)] by (simp add: dir_in_def)
  have pos: "0 < fs_fds s" using assms(5) by (simp add: height.simps)
  then have h: "\<forall>e\<in>set es. height (snd e) \<le> fs_fds ?s" using assms(5) height_le [of es "fs_fds s - 1"] by simp
  have "remove_white_entries white path (dir_listing es) (dir_in ?s p ([] @ es)) = (True, dir_in ?s p ([] @ kept white path es))"
    by (rule white_entries_removed) (use l assms wf_at [OF assms(3,2)] h in simp_all)
  then have loop: "remove_white_entries white path (dir_listing es) ?s = (True, dir_in ?s p (kept white path es))"
    by (simp only: same append_Nil)
  have t: "sys_closedir (dir_in ?s p (kept white path es)) = dir_in s p (kept white path es)"
    using pos by (simp add: sys_closedir_def dir_in_def)
  show ?thesis
    using opendir_now [OF l assms(2,3) pos] assms(4,6,7) loop t by (simp add: remove_dir_white_def Let_def)
qed

text \<open>The list of paths to keep of the second \<open>remove_dir\<close> protects direct children only. Without the
  removal of the root the call returns true and leaves in the directory the entries that are listed; everything
  in another subdirectory is gone, whether its path is listed or not. With the removal of the root the call fails
  as soon as one entry was kept.\<close>

theorem remove_dir_white_keeps_children:
  assumes "plain_at s path p" "node_at (fs_root s) p = Some (Dir es)" "wf_node (fs_root s)" "nothing_refused s p"
    "height (Dir es) \<le> fs_fds s" "path @ ''/.'' \<notin> set white" "path @ ''/..'' \<notin> set white"
  shows "remove_dir_white path white False s = (True, dir_in s p (kept white path es)) \<and>
    (fst (remove_dir_white path white True s) \<longleftrightarrow> kept white path es = [])"
proof -
  obtain slash where en: "entry_at (dir_in s p (kept white path es)) path = Inr (butlast p, last p, slash)"
    and p: "p \<noteq> []" "last p \<noteq> ''.''" "last p \<noteq> ''..''" using plain_named [OF assms(1)] by (auto simp: named_def)
  have "fst (case sys_rmdir path (dir_in s p (kept white path es)) of (e, t) \<Rightarrow> (e = None, t)) \<longleftrightarrow> kept white path es = []"
    using en p assms(4) node_at_put [OF assms(2)] by (simp add: sys_rmdir_def)
  with white_loop [OF assms] show ?thesis by simp
qed

section \<open>Confinement\<close>

text \<open>\<open>smaller u t\<close>: \<open>u\<close> is \<open>t\<close> with entries removed, at any depth.\<close>

fun smaller :: "node \<Rightarrow> node \<Rightarrow> bool" where
  "smaller (Dir es) t \<longleftrightarrow> is_dir t \<and> (\<forall>e\<in>set es. \<exists>f\<in>set (entries_of t). fst f = fst e \<and> smaller (snd e) (snd f))"
| "smaller u t \<longleftrightarrow> t = u"

lemma replace_new: "c \<notin> fst ` set es \<Longrightarrow> map (\<lambda>(d, w). (d, if d = c then u else w)) es = es"
  by (induction es) auto

lemma smaller_refl [simp]: "smaller u u"
proof (induction u)
  case (Dir es)
  then show ?case by (auto intro!: bexI)
qed auto

lemma smaller_tail: "smaller (Dir es') (Dir es) \<Longrightarrow> smaller (Dir es') (Dir (e # es))"
  by auto

definition rec_confined :: "nat \<Rightarrow> bool" where
  "rec_confined n \<longleftrightarrow>
     (\<forall>s path p es b s'. leads s path p \<longrightarrow> named s path p \<longrightarrow> node_at (fs_root s) p = Some (Dir es) \<longrightarrow>
        wf_node (fs_root s) \<longrightarrow> remove_dir_rec n path s = (b, s') \<longrightarrow>
        (if b then s' = s\<lparr>fs_root := put_at p None (fs_root s)\<rparr>
         else \<exists>es' k. s' = (dir_in s p es')\<lparr>fs_fds := k\<rparr> \<and> k \<le> fs_fds s \<and> wf_node (Dir es') \<and> smaller (Dir es') (Dir es)))"

lemma unlink_child_cases:
  assumes "leads s path p" "node_at (fs_root s) p = Some (Dir ws)" "wf_node (Dir ((c, u) # es))" "\<not> is_dir u"
    "sys_unlink (path @ CHR ''/'' # c) (dir_in s p ((c, u) # es)) = (r, s')"
  shows "s' = (if r = None then dir_in s p es else dir_in s p ((c, u) # es))"
proof -
  have c: "good_name c" "distinct (map fst ([] @ (c, u) # es))" using assms(3) by auto
  have "node_at (fs_root (dir_in s p ((c, u) # es))) (p @ [c]) = Some u"
    using node_at_put [OF assms(2)] by (simp add: node_at_append)
  with leads_entry [OF assms(1,2) c(1)] assms(4,5) c(1) dir_in_del_child [OF assms(2) c(2)]
  show ?thesis by (auto simp: sys_unlink_def good_name_def split: if_splits)
qed

lemma entries_confined:
  assumes "rec_confined k" "leads s path p" "node_at (fs_root s) p = Some (Dir ws)" "wf_node (fs_root s)"
    "wf_node (Dir es)" "remove_entries k path (dir_listing es) (dir_in s p es) = (b, s')"
  shows "if b then s' = dir_in s p []
    else \<exists>es' k. s' = (dir_in s p es')\<lparr>fs_fds := k\<rparr> \<and> k \<le> fs_fds s \<and> wf_node (Dir es') \<and> smaller (Dir es') (Dir es)"
  using assms(5,6)
proof (induction es)
  case Nil
  then show ?case by (simp add: dir_listing_def)
next
  case (Cons e es)
  obtain c u where e: "e = (c, u)" by (cases e)
  have wf: "wf_node (Dir ((c, u) # es))" using Cons.prems(1) by (simp only: e)
  then have c: "c \<noteq> ''.''" "c \<noteq> ''..''" "good_name c" "distinct (map fst ([] @ (c, u) # es))" by (auto simp: good_name_def)
  let ?s = "dir_in s p ((c, u) # es)"
  have at: "node_at (fs_root ?s) p = Some (Dir ((c, u) # es))" using node_at_put [OF assms(3)] by simp
  have IH: "if b then s' = dir_in s p []
      else \<exists>es' k. s' = (dir_in s p es')\<lparr>fs_fds := k\<rparr> \<and> k \<le> fs_fds s \<and> wf_node (Dir es') \<and> smaller (Dir es') (Dir (e # es))"
    if "remove_entries k path (dir_listing es) (dir_in s p es) = (b, s')"
  proof -
    have "wf_node (Dir es)" using Cons.prems(1) by simp
    from Cons.IH [OF this that] smaller_tail show ?thesis by (cases b) (simp_all, blast)
  qed
  show ?case
  proof (cases "is_dir u")
    case True
    then obtain us where us: "u = Dir us" by (auto simp: is_dir_iff)
    obtain b1 s1 where r: "remove_dir_rec k (path @ CHR ''/'' # c) ?s = (b1, s1)" by fastforce
    have m: "map_of ((c, u) # es) c = Some (Dir us)" by (simp add: us)
    then have m2: "node_at (fs_root ?s) (p @ [c]) = Some (Dir us)" using at by (simp add: node_at_append us)
    have wfr: "wf_node (fs_root ?s)" using wf_put [OF assms(4,3), of "Some (Dir ((c, u) # es))"] wf by simp
    have conf: "if b1 then s1 = ?s\<lparr>fs_root := put_at (p @ [c]) None (fs_root ?s)\<rparr>
        else \<exists>us' j. s1 = (dir_in ?s (p @ [c]) us')\<lparr>fs_fds := j\<rparr> \<and> j \<le> fs_fds ?s \<and> wf_node (Dir us') \<and> smaller (Dir us') (Dir us)"
      using assms(1) leads_child [OF leads_dir_in [OF assms(2)] at m c(3)] named_child [OF leads_dir_in [OF assms(2)] at c(3)]
        m2 wfr r unfolding rec_confined_def by blast
    show ?thesis
    proof (cases b1)
      case True
      with conf dir_in_del_child [OF assms(3) c(4)] have "s1 = dir_in s p es" by simp
      with r True IH Cons.prems(2) us c show ?thesis by (simp add: dir_listing_def e)
    next
      case False
      with conf obtain us' j where s1: "s1 = (dir_in ?s (p @ [c]) us')\<lparr>fs_fds := j\<rparr>" "j \<le> fs_fds s"
        "wf_node (Dir us')" "smaller (Dir us') (Dir us)" by auto
      have "set_entry c (Some (Dir us')) ((c, u) # es) = (c, Dir us') # map (\<lambda>(d, w). (d, if d = c then Dir us' else w)) es"
        by (simp add: set_entry_def)
      also have "map (\<lambda>(d, w). (d, if d = c then Dir us' else w)) es = es" using c(4) by (intro replace_new) auto
      finally have "dir_in ?s (p @ [c]) us' = dir_in s p ((c, Dir us') # es)"
        using put_in [OF at] put_put [OF assms(3)] by (simp add: dir_in_def)
      moreover have "wf_node (Dir ((c, Dir us') # es))" using wf s1(3) by auto
      moreover have "smaller (Dir ((c, Dir us') # es)) (Dir (e # es))"
        using s1(4) us by (auto simp: e intro: bexI [of _ "(_, _)"])
      ultimately have "\<exists>es' k. s1 = (dir_in s p es')\<lparr>fs_fds := k\<rparr> \<and> k \<le> fs_fds s \<and> wf_node (Dir es') \<and>
          smaller (Dir es') (Dir (e # es))" using s1(1,2) by metis
      moreover have "b = False" "s' = s1" using r False Cons.prems(2) us c by (simp_all add: dir_listing_def e)
      ultimately show ?thesis by simp
    qed
  next
    case False
    then have t: "d_type_of u \<noteq> DT_DIR" by (cases u) auto
    obtain r s1 where r: "sys_unlink (path @ CHR ''/'' # c) ?s = (r, s1)" by fastforce
    note s1 = unlink_child_cases [OF assms(2,3) wf False r]
    show ?thesis
    proof (cases r)
      case None
      with r s1 t IH Cons.prems(2) show ?thesis by (simp add: dir_listing_def e)
    next
      case (Some x)
      then have "b = False" "s' = ?s" using r s1 t Cons.prems(2) by (simp_all add: dir_listing_def e)
      moreover have "?s = (dir_in s p ((c, u) # es))\<lparr>fs_fds := fs_fds s\<rparr>" by (simp add: dir_in_def)
      ultimately show ?thesis using wf smaller_refl [of "Dir ((c, u) # es)"] unfolding e by (metis order_refl)
    qed
  qed
qed

lemma all_confined: "rec_confined n"
proof (induction n)
  case 0
  show ?case
    unfolding rec_confined_def
  proof (intro allI impI)
    fix s path p es b s'
    assume a: "leads s path p" "named s path p" "node_at (fs_root s) p = Some (Dir es)" "wf_node (fs_root s)"
      "remove_dir_rec 0 path s = (b, s')"
    have same: "dir_in s p es = s" using put_same [OF a(4,3)] by (simp add: dir_in_def)
    have "\<not> b \<and> (s' = s \<or> s' = s\<lparr>fs_fds := fs_fds s - 1\<rparr>)"
      using a(5) leads_now [OF a(1,3,4)] a(3) by (auto simp: sys_opendir_def split: if_splits)
    moreover have "s = (dir_in s p es)\<lparr>fs_fds := fs_fds s\<rparr>" using same by simp
    moreover have "s\<lparr>fs_fds := fs_fds s - 1\<rparr> = (dir_in s p es)\<lparr>fs_fds := fs_fds s - 1\<rparr>" using same by simp
    ultimately show "if b then s' = s\<lparr>fs_root := put_at p None (fs_root s)\<rparr>
        else \<exists>es' k. s' = (dir_in s p es')\<lparr>fs_fds := k\<rparr> \<and> k \<le> fs_fds s \<and> wf_node (Dir es') \<and> smaller (Dir es') (Dir es)"
      using wf_at [OF a(4,3)] smaller_refl [of "Dir es"] by (metis diff_le_self order_refl)
  qed
next
  case (Suc n)
  show ?case
    unfolding rec_confined_def
  proof (intro allI impI)
    fix s path p es b s'
    assume a: "leads s path p" "named s path p" "node_at (fs_root s) p = Some (Dir es)" "wf_node (fs_root s)"
      "remove_dir_rec (Suc n) path s = (b, s')"
    let ?goal = "if b then s' = s\<lparr>fs_root := put_at p None (fs_root s)\<rparr>
        else \<exists>es' k. s' = (dir_in s p es')\<lparr>fs_fds := k\<rparr> \<and> k \<le> fs_fds s \<and> wf_node (Dir es') \<and> smaller (Dir es') (Dir es)"
    have same: "dir_in s p es = s" using put_same [OF a(4,3)] by (simp add: dir_in_def)
    have wf: "wf_node (Dir es)" by (rule wf_at [OF a(4,3)])
    show ?goal
    proof (cases "fs_refused s Call_opendir p \<or> fs_fds s = 0")
      case True
      then have "\<not> b \<and> s' = s" using a(5) leads_now [OF a(1,3,4)] a(3) by (auto simp: sys_opendir_def)
      moreover have "s = (dir_in s p es)\<lparr>fs_fds := fs_fds s\<rparr>" using same by simp
      ultimately show ?thesis using wf smaller_refl [of "Dir es"] by (metis order_refl)
    next
      case False
      let ?s = "s\<lparr>fs_fds := fs_fds s - 1\<rparr>"
      obtain b1 s1 where r: "remove_entries n path (dir_listing es) ?s = (b1, s1)" by fastforce
      have "?s = dir_in ?s p es" using put_same [OF a(4,3)] by (simp add: dir_in_def)
      with r have "remove_entries n path (dir_listing es) (dir_in ?s p es) = (b1, s1)" by simp
      from entries_confined [OF Suc _ _ _ wf this] a
      have c: "if b1 then s1 = dir_in ?s p []
          else \<exists>es' k. s1 = (dir_in ?s p es')\<lparr>fs_fds := k\<rparr> \<and> k \<le> fs_fds ?s \<and> wf_node (Dir es') \<and> smaller (Dir es') (Dir es)"
        by simp
      have op: "sys_opendir path s = (Some ((''.'', DT_DIR) # (''..'', DT_DIR) # dir_listing es), ?s)"
        using opendir_now [OF a(1,3,4)] False by simp
      show ?thesis
      proof (cases b1)
        case True
        let ?t = "dir_in s p []"
        have t: "sys_closedir (dir_in ?s p []) = ?t" using False by (simp add: sys_closedir_def dir_in_def)
        from True a(5) op r c t have rm: "sys_rmdir path ?t = (if b then None else Some (the (fst (sys_rmdir path ?t))), s')"
          by (auto split: prod.splits)
        obtain slash where en: "entry_at ?t path = Inr (butlast p, last p, slash)" and p: "p \<noteq> []"
          "last p \<noteq> ''.''" "last p \<noteq> ''..''" using a(2) by (auto simp: named_def)
        have "s' = (if b then s\<lparr>fs_root := put_at p None (fs_root s)\<rparr> else ?t)"
          using rm en p node_at_put [OF a(3)] put_put [OF a(3)] by (auto simp: sys_rmdir_def split: if_splits)
        moreover have "?t = (dir_in s p [])\<lparr>fs_fds := fs_fds s\<rparr>" by (simp add: dir_in_def)
        moreover have "smaller (Dir []) (Dir es)" "wf_node (Dir [])" by simp_all
        ultimately show ?thesis by (metis order_refl)
      next
        case False
        with a(5) op r have "\<not> b" "s' = s1" by simp_all
        moreover obtain es' k where "s1 = (dir_in ?s p es')\<lparr>fs_fds := k\<rparr>" "k \<le> fs_fds s" "wf_node (Dir es')" "smaller (Dir es') (Dir es)"
          using c False by force
        moreover have "(dir_in ?s p es')\<lparr>fs_fds := k\<rparr> = (dir_in s p es')\<lparr>fs_fds := k\<rparr>" by (simp add: dir_in_def)
        ultimately show ?thesis by metis
      qed
    qed
  qed
qed

text \<open>C33: whatever goes wrong, \<open>remove_dir\<close> touches nothing outside its directory and adds nothing inside. Calls that
  the kernel refuses and descriptors that run out included: the result is true exactly when the directory is
  gone, all other nodes are as before, what is left below is what was there with entries removed, and no descriptor is
  gained.\<close>

theorem remove_dir_confined:
  assumes "plain_at s path p" "node_at (fs_root s) p = Some (Dir es)" "wf_node (fs_root s)" "remove_dir path s = (b, s')"
  shows "(b \<longleftrightarrow> node_at (fs_root s') p = None) \<and> (\<forall>q. \<not> prefix p q \<longrightarrow> \<not> prefix q p \<longrightarrow> node_at (fs_root s') q = node_at (fs_root s) q) \<and>
    (\<forall>u. node_at (fs_root s') p = Some u \<longrightarrow> smaller u (Dir es)) \<and> fs_fds s' \<le> fs_fds s"
proof -
  have p: "p \<noteq> []" using plain_named [OF assms(1)] by (simp add: named_def)
  have gone: "node_at (put_at p None (fs_root s)) p = None"
  proof -
    obtain d c where dc: "p = d @ [c]" using p by (cases p rule: rev_cases) auto
    then obtain ws where "node_at (fs_root s) d = Some (Dir ws)" using node_at_inner [of "fs_root s" d c "[]"] assms(2) by auto
    then show ?thesis by (simp add: dc put_in node_at_append node_at_put)
  qed
  have other: "\<not> prefix p q \<longrightarrow> \<not> prefix q p \<longrightarrow> node_at (put_at p v (fs_root s)) q = node_at (fs_root s) q" for q v
    using node_at_put_other by blast
  have "if b then s' = s\<lparr>fs_root := put_at p None (fs_root s)\<rparr>
      else \<exists>es' k. s' = (dir_in s p es')\<lparr>fs_fds := k\<rparr> \<and> k \<le> fs_fds s \<and> wf_node (Dir es') \<and> smaller (Dir es') (Dir es)"
    using all_confined [of "fs_fds s"] plain_leads [OF assms(1,2)] plain_named [OF assms(1)] assms(2-4)
    unfolding rec_confined_def remove_dir_def by blast
  then show ?thesis
  proof (cases b)
    case False
    then obtain es' k where s': "s' = (dir_in s p es')\<lparr>fs_fds := k\<rparr>" "k \<le> fs_fds s" "smaller (Dir es') (Dir es)"
      using \<open>if b then _ else _\<close> by auto
    then have "node_at (fs_root s') p = Some (Dir es')" using node_at_put [OF assms(2)] by simp
    with s' False other show ?thesis by simp
  qed (use gone other in simp)
qed

text \<open>\<open>remove_files\<close> of a symbolic link to a directory empties the directory the link points to and fails. The test
  for a directory follows the link, so the content is removed through it; only the final \<open>rmdir\<close> of the link is refused.\<close>

theorem remove_files_follows_link:
  assumes link: "plain_at s path q" "node_at (fs_root s) q = Some (Link l)"
    and target: "leads s path p" "node_at (fs_root s) p = Some (Dir es)" "\<not> prefix p q"
    and ok: "wf_node (fs_root s)" "height (Dir es) \<le> fs_fds s" "nothing_refused s p"
  shows "remove_files path s = (False, dir_in s p [])"
proof -
  let ?s = "s\<lparr>fs_fds := fs_fds s - 1\<rparr>"
  have same: "dir_in ?s p es = ?s" using put_same [OF ok(1) target(2)] by (simp add: dir_in_def)
  have pos: "0 < fs_fds s" using ok(2) by (simp add: height.simps)
  then have h: "\<forall>e\<in>set es. height (snd e) \<le> fs_fds ?s" using ok(2) height_le [of es "fs_fds s - 1"] by simp
  have "remove_entries (fs_fds s - 1) path (dir_listing es) (dir_in ?s p es) = (True, dir_in ?s p [])"
    by (rule entries_removed [OF all_removed, of _ _ _ es]) (use target ok wf_at [OF ok(1) target(2)] h in simp_all)
  then have loop: "remove_entries (fs_fds s - 1) path (dir_listing es) ?s = (True, dir_in ?s p [])" by (simp only: same)
  have t: "sys_closedir (dir_in ?s p []) = dir_in s p []" using pos by (simp add: sys_closedir_def dir_in_def)
  have st: "sys_stat path s = Inr (Dir es)"
    using leads_now [OF target(1,2) ok(1)] target(2) by (simp add: sys_stat_def)
  obtain d c slash where en: "q = d @ [c]" "c \<noteq> ''.''" "c \<noteq> ''..''" using plain_entry [OF link(1)] by blast
  have above: "\<exists>fs. node_at (put_at p (Some (Dir [])) (fs_root s)) r = Some (Dir fs)" if "strict_prefix r q" for r
  proof -
    note sub = that
    obtain fs where r: "node_at (fs_root s) r = Some (Dir fs)" using sub link(1) unfolding plain_at_def dirs_above_def by blast
    have "\<not> prefix p r" using that target(3) by (auto simp: strict_prefix_def prefix_def)
    then show ?thesis
    proof (cases "prefix r p")
      case True
      with \<open>\<not> prefix p r\<close> have "strict_prefix r p" by (auto simp: strict_prefix_def)
      with r show ?thesis by (intro node_at_put_above) auto
    next
      case False
      with \<open>\<not> prefix p r\<close> r show ?thesis by (simp add: node_at_put_other)
    qed
  qed
  then have pl: "plain_at (dir_in s p []) path q" using plain_root [OF link(1)] by (simp add: dir_in_def)
  have "\<not> prefix q p"
  proof
    assume "prefix q p"
    then obtain r where "p = q @ r" by (auto simp: prefix_def)
    with link(2) target(2) show False by (cases r) (auto simp: node_at_append)
  qed
  then have q: "node_at (put_at p (Some (Dir [])) (fs_root s)) q = Some (Link l)"
    using node_at_put_other [OF target(3)] link(2) by simp
  with plain_entry [OF pl] have "\<exists>e. sys_rmdir path (dir_in s p []) = (Some e, dir_in s p [])"
    by (auto simp: sys_rmdir_def)
  with loop t opendir_now [OF target(1,2) ok(1) pos] ok(3) pos
  have "remove_dir_rec (fs_fds s) path s = (False, dir_in s p [])" by (cases "fs_fds s") auto
  with st show ?thesis by (simp add: remove_files_def remove_dir_def del: remove_dir_rec.simps)
qed

text \<open>A failing \<open>remove_dir\<close> loses a descriptor: the return in the middle of the loop skips \<open>closedir\<close>. When
  the first entry is a file whose removal is refused, nothing is removed and one descriptor less is free.\<close>

theorem remove_dir_leaks_descriptor:
  assumes "plain_at s path p" "node_at (fs_root s) p = Some (Dir ((c, u) # es))" "wf_node (fs_root s)" "\<not> is_dir u"
    "fs_refused s Call_unlink (p @ [c])" "\<not> fs_refused s Call_opendir p" "0 < fs_fds s"
  shows "remove_dir path s = (False, s\<lparr>fs_fds := fs_fds s - 1\<rparr>)"
proof -
  let ?s = "s\<lparr>fs_fds := fs_fds s - 1\<rparr>"
  note l = plain_leads [OF assms(1,2)]
  have c: "good_name c" using wf_at [OF assms(3,2)] by simp
  have "dir_in ?s p ((c, u) # es) = ?s" using put_same [OF assms(3,2)] by (simp add: dir_in_def)
  moreover have "leads ?s path p" using l by simp
  from leads_entry [OF this, of "(c, u) # es" c "(c, u) # es"] assms(2) c
  have "entry_at (dir_in ?s p ((c, u) # es)) (path @ CHR ''/'' # c) = Inr (p, c, False)" by simp
  ultimately have "entry_at ?s (path @ CHR ''/'' # c) = Inr (p, c, False)" by simp
  moreover have "node_at (fs_root s) (p @ [c]) = Some u" using assms(2) by (simp add: node_at_append)
  ultimately have un: "sys_unlink (path @ CHR ''/'' # c) ?s = (Some EACCES, ?s)"
    using assms(4,5) c by (simp add: sys_unlink_def good_name_def)
  have "d_type_of u \<noteq> DT_DIR" using assms(4) by (cases u) auto
  with un opendir_now [OF l assms(2,3,7)] assms(6,7) show ?thesis
    by (cases "fs_fds s") (simp_all add: remove_dir_def dir_listing_def)
qed

section \<open>Creating a path\<close>

fun join_slash :: "string list \<Rightarrow> string" where
  "join_slash [] = []"
| "join_slash [c] = c"
| "join_slash (c # cs) = c @ CHR ''/'' # join_slash cs"

lemma str_find_slash:
  assumes "CHR ''/'' \<notin> set c"
  shows "str_find (a @ c @ CHR ''/'' # b) ''/'' (length a) = Some (length a + length c)"
    "str_find (a @ c) ''/'' (length a) = None"
proof -
  have "find_sub (c @ CHR ''/'' # b) ''/'' = Some (length c)" "find_sub c ''/'' = None"
    using assms by (induction c) auto
  then show "str_find (a @ c @ CHR ''/'' # b) ''/'' (length a) = Some (length a + length c)"
    "str_find (a @ c) ''/'' (length a) = None" by (simp_all add: str_find_def)
qed

lemma split_slash_open:
  assumes "a = [] \<or> (\<exists>x. a = x @ ''/'')" "CHR ''/'' \<notin> set c"
  shows "split_slash (a @ c) = butlast (split_slash a) @ [c]"
  using assms by (auto simp: split_slash_name)

text \<open>\<open>a\<close> is empty or ends with a slash and means the directory \<open>d\<close>.\<close>

definition opens :: "fsys \<Rightarrow> string \<Rightarrow> string list \<Rightarrow> string list \<Rightarrow> bool" where
  "opens s a st d \<longleftrightarrow> (a = [] \<or> (\<exists>x. a = x @ ''/'')) \<and> ''..'' \<notin> set (split_slash a) \<and> d = st @ path_names (split_slash a) \<and>
     dirs_above (fs_root s) d \<and> (\<exists>es. node_at (fs_root s) d = Some (Dir es))"

lemma opens_entry:
  assumes "opens s a st d" "good_name c" "path_start s (a @ c) = st"
  shows "entry_at s (a @ c) = Inr (d, c, False)"
proof -
  have c: "CHR ''/'' \<notin> set c" "c \<noteq> []" using assms(2) by (simp_all add: good_name_def)
  note o = assms(1) [unfolded opens_def]
  have sp: "split_slash (a @ c) = butlast (split_slash a) @ [c]" using split_slash_open [of a c] o c by blast
  have names: "path_names (butlast (split_slash a)) = path_names (split_slash a)"
    using o by auto
  have "''..'' \<notin> set (butlast (split_slash a))" using o by (meson in_set_butlastD)
  then have "walk 40 (fs_root s) st (butlast (split_slash a)) = Inr d"
    using walk_plain [of "butlast (split_slash a)" "fs_root s" st] o names by auto
  moreover have "path_core (a @ c) = butlast (split_slash a) @ [c]" using c by (simp add: path_core_def sp)
  ultimately show ?thesis using o sp c assms(3) by (auto simp: entry_at_def Let_def)
qed

lemma opens_next:
  assumes "opens s a st d" "good_name c" "node_at (fs_root s) (d @ [c]) = Some (Dir es)"
  shows "opens s (a @ c @ ''/'') st (d @ [c])"
proof -
  have c: "CHR ''/'' \<notin> set c" "c \<noteq> []" "c \<noteq> ''.''" "c \<noteq> ''..''" using assms(2) by (simp_all add: good_name_def)
  note o = assms(1) [unfolded opens_def]
  have "split_slash (a @ c) = butlast (split_slash a) @ [c]" using split_slash_open [of a c] o c by blast
  then have sp: "split_slash (a @ c @ ''/'') = butlast (split_slash a) @ [c, []]"
    using split_slash_append [of "a @ c" "[]"] by simp
  have names: "path_names (butlast (split_slash a)) = path_names (split_slash a)" using o by auto
  have "''..'' \<notin> set (butlast (split_slash a))" using o by (meson in_set_butlastD)
  with o c assms(3) sp names dirs_above_child [of "fs_root s" d] show ?thesis by (auto simp: opens_def)
qed

lemma opens_put:
  assumes "opens s a st d" "q \<noteq> []"
  shows "opens (s\<lparr>fs_root := put_at (d @ q) v (fs_root s)\<rparr>) a st d"
proof -
  note o = assms(1) [unfolded opens_def]
  then obtain es where "node_at (fs_root s) d = Some (Dir es)" by blast
  then have "\<exists>fs. node_at (put_at (d @ q) v (fs_root s)) d = Some (Dir fs)"
    using assms(2) by (intro node_at_put_above) (auto simp: strict_prefix_def)
  moreover have "dirs_above (put_at (d @ q) v (fs_root s)) d" using o dirs_above_put by blast
  ultimately show ?thesis using o by (simp add: opens_def)
qed

definition made_dirs :: "node \<Rightarrow> node \<Rightarrow> string list \<Rightarrow> bool" where
  "made_dirs t t' p \<longleftrightarrow>
     (\<forall>q. strict_prefix q p \<longrightarrow> (\<exists>es. node_at t' q = Some (Dir es))) \<and>
     node_at t' p = (if node_at t p = None then Some (Dir []) else node_at t p) \<and>
     (\<forall>q. \<not> prefix q p \<longrightarrow> node_at t' q = node_at t q)"

lemma node_at_new:
  assumes "node_at t d = Some (Dir es)" "node_at t (d @ [c]) = None" and that: "\<not> strict_prefix q (d @ [c])"
  shows "node_at (put_at (d @ [c]) (Some (Dir [])) t) q = (if q = d @ [c] then Some (Dir []) else node_at t q)"
proof (cases "prefix (d @ [c]) q")
  case True
  then obtain r where q: "q = d @ c # r" by (auto simp: prefix_def)
  have "map_of es c = None" using assms by (simp add: node_at_append split: option.splits)
  then show ?thesis using assms q by (cases r) (simp_all add: put_in node_at_append node_at_put)
next
  case False
  with that have "\<not> prefix q (d @ [c])" "q \<noteq> d @ [c]" by (auto simp: strict_prefix_def)
  with False show ?thesis by (simp add: node_at_put_other)
qed

lemma mkdir_steps:
  assumes "opens s a st d" "ns \<noteq> []" "\<forall>c\<in>set ns. good_name c" "path_start s (a @ join_slash ns) = st"
    "\<forall>q. strict_prefix q ns \<longrightarrow> node_at (fs_root s) (d @ q) = None \<or> (\<exists>es. node_at (fs_root s) (d @ q) = Some (Dir es))"
    "nothing_refused s d"
  shows "\<exists>t'. mkdir_loop (a @ join_slash ns) (length a) s = (True, s\<lparr>fs_root := t'\<rparr>) \<and> made_dirs (fs_root s) t' (d @ ns)"
  using assms
proof (induction ns arbitrary: a d s)
  case (Cons c ns)
  let ?t = "fs_root s"
  have c: "good_name c" "CHR ''/'' \<notin> set c" using Cons.prems(3) by (simp_all add: good_name_def)
  obtain es where d: "node_at ?t d = Some (Dir es)" "dirs_above ?t d" using Cons.prems(1) by (auto simp: opens_def)
  obtain r where r: "join_slash (c # ns) = c @ r" by (cases ns) auto
  have "c \<noteq> []" using c(1) by (simp add: good_name_def)
  then have st: "path_start s (a @ c) = st" using Cons.prems(4) r path_start_simps(3) [of "a @ c" s r] by simp
  note en = opens_entry [OF Cons.prems(1) c(1) st]
  let ?new = "node_at ?t (d @ [c]) = None"
  define t1 where "t1 = (if ?new then put_at (d @ [c]) (Some (Dir [])) ?t else ?t)"
  define e where "e = (if ?new then None else Some EEXIST)"
  have mk: "sys_mkdir (a @ c) s = (e, s\<lparr>fs_root := t1\<rparr>)" "e = None \<or> e = Some EEXIST"
    using en c(1) Cons.prems(6) by (simp_all add: sys_mkdir_def good_name_def e_def t1_def)
  have above: "\<exists>fs. node_at t1 q = Some (Dir fs)" if "strict_prefix q (d @ [c])" for q
  proof -
    have q: "prefix q d" using that by (auto simp: strict_prefix_def)
    then have "\<exists>fs. node_at ?t q = Some (Dir fs)" using d by (cases "q = d") (auto simp: dirs_above_def strict_prefix_def)
    with that node_at_put_above [OF that] show ?thesis by (auto simp: t1_def)
  qed
  have at1: "node_at t1 q = (if q = d @ [c] \<and> ?new then Some (Dir []) else node_at ?t q)" if "\<not> strict_prefix q (d @ [c])" for q
    using node_at_new [OF d(1) _ that] by (auto simp: t1_def)
  show ?case
  proof (cases "ns = []")
    case True
    have "mkdir_loop (a @ c) (length a) s = (True, s\<lparr>fs_root := t1\<rparr>)"
      using str_find_slash(2) [OF c(2), of a] mk by (subst mkdir_loop.simps) auto
    moreover have "made_dirs ?t t1 (d @ [c])"
      unfolding made_dirs_def
    proof (intro conjI allI impI)
      show "node_at t1 (d @ [c]) = (if ?new then Some (Dir []) else node_at ?t (d @ [c]))" using at1 by (simp add: strict_prefix_def)
      show "node_at t1 q = node_at ?t q" if "\<not> prefix q (d @ [c])" for q
        using at1 [of q] that by (auto simp: strict_prefix_def)
    qed (rule above)
    ultimately show ?thesis unfolding True join_slash.simps by blast
  next
    case False
    let ?s = "s\<lparr>fs_root := t1\<rparr>"
    have "strict_prefix [c] (c # ns)" using False by (cases ns) (auto simp: strict_prefix_def)
    with Cons.prems(5) have "?new \<or> (\<exists>fs. node_at ?t (d @ [c]) = Some (Dir fs))" by blast
    then obtain fs where dc: "node_at t1 (d @ [c]) = Some (Dir fs)" "?new \<longrightarrow> fs = []"
      using at1 [of "d @ [c]"] by (auto simp: strict_prefix_def)
    have "opens ?s a st d" using opens_put [OF Cons.prems(1), of "[c]" "Some (Dir [])"] Cons.prems(1) by (auto simp: t1_def)
    from opens_next [OF this c(1)] dc have op: "opens ?s (a @ c @ ''/'') st (d @ [c])" by simp
    have join: "a @ join_slash (c # ns) = (a @ c @ ''/'') @ join_slash ns" using False by (cases ns) simp_all
    have pre: "node_at t1 ((d @ [c]) @ q) = None \<or> (\<exists>es. node_at t1 ((d @ [c]) @ q) = Some (Dir es))" if q: "strict_prefix q ns" for q
    proof -
      have "strict_prefix (c # q) (c # ns)" using q by (simp add: strict_prefix_def)
      with Cons.prems(5) have "node_at ?t (d @ c # q) = None \<or> (\<exists>es. node_at ?t (d @ c # q) = Some (Dir es))" by blast
      moreover have "\<not> strict_prefix (d @ c # q) (d @ [c])" by (auto simp: strict_prefix_def prefix_def)
      ultimately show ?thesis using at1 [of "d @ c # q"] by (auto split: if_splits)
    qed
    have nr: "nothing_refused ?s (d @ [c])" using Cons.prems(6) by simp
    have names: "\<forall>c\<in>set ns. good_name c" using Cons.prems(3) by simp
    have ps: "path_start ?s ((a @ c @ ''/'') @ join_slash ns) = st" using Cons.prems(4) by (simp only: join path_start_simps)
    obtain t' where t': "mkdir_loop ((a @ c @ ''/'') @ join_slash ns) (length (a @ c @ ''/'')) ?s = (True, ?s\<lparr>fs_root := t'\<rparr>)"
      "made_dirs t1 t' ((d @ [c]) @ ns)"
      using Cons.IH [OF op False names ps _ nr] pre by auto
    have "mkdir_loop (a @ join_slash (c # ns)) (length a) s = (True, s\<lparr>fs_root := t'\<rparr>)"
      using str_find_slash(1) [OF c(2), of a "join_slash ns"] mk t'(1) c(1) join
      by (subst mkdir_loop.simps) (auto simp: Let_def good_name_def)
    moreover have "made_dirs ?t t' (d @ c # ns)"
      unfolding made_dirs_def
    proof (intro conjI allI impI)
      show "\<exists>es. node_at t' q = Some (Dir es)" if "strict_prefix q (d @ c # ns)" for q
        using t'(2) that by (simp add: made_dirs_def)
      have "\<not> strict_prefix (d @ c # ns) (d @ [c])" by (auto simp: strict_prefix_def prefix_def)
      with t'(2) at1 [of "d @ c # ns"] False show "node_at t' (d @ c # ns) = (if node_at ?t (d @ c # ns) = None then Some (Dir []) else node_at ?t (d @ c # ns))"
        by (simp add: made_dirs_def)
      show "node_at t' q = node_at ?t q" if "\<not> prefix q (d @ c # ns)" for q
      proof -
        have "prefix (d @ [c]) (d @ c # ns)" by (simp add: prefix_def)
        then have "\<not> prefix q (d @ [c])" using that prefix_order.trans by blast
        then have "\<not> strict_prefix q (d @ [c])" "q \<noteq> d @ [c]" by (auto simp: strict_prefix_def)
        with t'(2) that at1 show ?thesis by (simp add: made_dirs_def)
      qed
    qed
    ultimately show ?thesis by auto
  qed
qed simp

text \<open>\<open>mkdir_recursive\<close> creates the missing directories of a path and no other. For a relative or absolute path of
  names below an existing directory, when the kernel refuses nothing there, it returns true, every directory of the
  path exists, and nothing else has changed. It also returns true when the path itself is an existing file, which it leaves
  as it is.\<close>

theorem mkdir_recursive_creates:
  assumes "ns \<noteq> []" "\<forall>c\<in>set ns. good_name c" "lead = [] \<or> lead = ''/''" "base = (if lead = [] then fs_cwd s else [])"
    "dirs_above (fs_root s) base" "node_at (fs_root s) base = Some (Dir es)" "nothing_refused s base"
    "\<forall>q. strict_prefix q ns \<longrightarrow> node_at (fs_root s) (base @ q) = None \<or> (\<exists>es. node_at (fs_root s) (base @ q) = Some (Dir es))"
  shows "\<exists>t'. mkdir_recursive (lead @ join_slash ns) s = (True, s\<lparr>fs_root := t'\<rparr>) \<and>
    (\<forall>q. strict_prefix q (base @ ns) \<longrightarrow> (\<exists>es. node_at t' q = Some (Dir es))) \<and>
    node_at t' (base @ ns) = (if node_at (fs_root s) (base @ ns) = None then Some (Dir []) else node_at (fs_root s) (base @ ns)) \<and>
    (\<forall>q. \<not> prefix q (base @ ns) \<longrightarrow> node_at t' q = node_at (fs_root s) q)"
proof -
  obtain c ms where ns: "ns = c # ms" using assms(1) by (cases ns) auto
  then obtain x xs where c: "c = x # xs" "x \<noteq> CHR ''/''" using assms(2) by (cases c) (auto simp: good_name_def)
  obtain zs where j: "join_slash ns = x # zs" using ns c(1) by (cases ms) auto
  have ps: "path_start s (lead @ join_slash ns) = base" using assms(3,4) c(2) j by (auto simp: path_start_def)
  have op: "opens s lead base base" using assms(3,5,6) by (auto simp: opens_def)
  have "mkdir_recursive (lead @ join_slash ns) s = mkdir_loop (lead @ join_slash ns) (length lead) s"
  proof (cases "lead = []")
    case False
    then have l: "lead = ''/''" using assms(3) by simp
    then have "str_find (lead @ join_slash ns) ''/'' 0 = Some 0" by (simp add: str_find_def)
    then show ?thesis by (simp add: mkdir_recursive_def mkdir_loop.simps [of _ 0] l Let_def)
  qed (simp add: mkdir_recursive_def)
  with mkdir_steps [OF op assms(1,2) ps assms(8,7)] show ?thesis by (simp add: made_dirs_def)
qed

section \<open>Traversal\<close>

text \<open>What the traversal of a directory visits, in order: its entries, then its subdirectories, the last one first; a
  listed path is left out with all that is below it.\<close>

definition visit_of :: "string \<Rightarrow> string \<times> node \<Rightarrow> string \<times> string \<times> d_type" where
  "visit_of path e = (path @ CHR ''/'' # fst e, fst e, d_type_of (snd e))"

definition shown :: "string list \<Rightarrow> string \<Rightarrow> (string \<times> node) list \<Rightarrow> (string \<times> node) list" where
  "shown white path es = filter (\<lambda>e. path @ CHR ''/'' # fst e \<notin> set white) es"

lemma size_entry: "e \<in> set es \<Longrightarrow> size (snd e) < size (Dir es)"
  by (induction es) (auto simp: size_prod_def less_Suc_eq_le)

function visits :: "string list \<Rightarrow> string \<Rightarrow> node \<Rightarrow> (string \<times> string \<times> d_type) list" where
  "visits white path (Dir es) =
     map (visit_of path) (shown white path es) @
     concat (map (\<lambda>e. visits white (path @ CHR ''/'' # fst e) (snd e)) (rev (shown white path es)))"
| "visits white path (File f) = []"
| "visits white path (Link l) = []"
| "visits white path Special = []"
  by pat_completeness auto

termination
  by (relation "measure (\<lambda>(white, path, u). size u)") (use size_entry in \<open>auto simp: shown_def\<close>)

fun run_visitor :: "'s visitor \<Rightarrow> (string \<times> string \<times> d_type) list \<Rightarrow> 's \<Rightarrow> bool \<times> 's" where
  "run_visitor callback [] st = (True, st)"
| "run_visitor callback ((path, name, t) # vs) st =
     (case callback path name t st of (False, st1) \<Rightarrow> (False, st1) | (True, st1) \<Rightarrow> run_visitor callback vs st1)"

lemma run_visitor_append:
  "run_visitor cb (vs @ ws) st = (case run_visitor cb vs st of (False, st1) \<Rightarrow> (False, st1) | (True, st1) \<Rightarrow> run_visitor cb ws st1)"
  by (induction cb vs st rule: run_visitor.induct) (auto split: prod.splits bool.splits)

lemma path_type_entry:
  assumes "leads s path p" "node_at (fs_root s) p = Some (Dir es)" "wf_node (fs_root s)" "(c, u) \<in> set es"
  shows "get_path_type (path @ CHR ''/'' # c) s = FT_dir \<longleftrightarrow> is_dir u"
proof -
  have wf: "wf_node (Dir es)" by (rule wf_at [OF assms(3,2)])
  then have c: "good_name c" "map_of es c = Some u" using assms(4) by (auto intro: map_of_is_SomeI)
  have "dir_in s p es = s" using put_same [OF assms(3,2)] by (simp add: dir_in_def)
  with leads_entry [OF assms(1,2) c(1), of es] have "entry_at s (path @ CHR ''/'' # c) = Inr (p, c, False)" by simp
  moreover have "node_at (fs_root s) (p @ [c]) = Some u" using assms(2) c(2) by (simp add: node_at_append)
  ultimately have "sys_lstat (path @ CHR ''/'' # c) s = Inr u" using c(1) by (simp add: sys_lstat_def good_name_def)
  then show ?thesis by (cases u) (auto simp: get_path_type_def split: sum.splits)
qed

definition subdirs :: "string list \<Rightarrow> string \<Rightarrow> (string \<times> node) list \<Rightarrow> (string \<times> node) list" where
  "subdirs white path es = map (\<lambda>e. (path @ CHR ''/'' # fst e, snd e)) (filter (\<lambda>e. is_dir (snd e)) (shown white path es))"

lemma entries_traversed:
  assumes "\<forall>e\<in>set es. good_name (fst e)" "\<forall>(c, u)\<in>set es. get_path_type (path @ CHR ''/'' # c) s = FT_dir \<longleftrightarrow> is_dir u"
  shows "case traverse_entries cb white path (dir_listing es) s stack st of (b, stack', st') \<Rightarrow>
    (b, st') = run_visitor cb (map (visit_of path) (shown white path es)) st \<and>
    (b \<longrightarrow> stack' = rev (map fst (subdirs white path es)) @ stack)"
  using assms
proof (induction es arbitrary: stack st)
  case Nil
  then show ?case by (simp add: dir_listing_def shown_def subdirs_def)
next
  case (Cons e es)
  obtain c u where e: "e = (c, u)" by (cases e)
  have c: "c \<noteq> ''.''" "c \<noteq> ''..''" using Cons.prems(1) by (auto simp: e good_name_def)
  have t: "get_path_type (path @ CHR ''/'' # c) s = FT_dir \<longleftrightarrow> is_dir u" using Cons.prems(2) by (auto simp: e)
  have IH: "case traverse_entries cb white path (dir_listing es) s stack st of (b, stack', st') \<Rightarrow>
    (b, st') = run_visitor cb (map (visit_of path) (shown white path es)) st \<and>
    (b \<longrightarrow> stack' = rev (map fst (subdirs white path es)) @ stack)" for stack st
    using Cons by auto
  show ?case
  proof (cases "path @ CHR ''/'' # c \<in> set white")
    case True
    with IH [of st stack] c show ?thesis by (simp add: dir_listing_def shown_def subdirs_def e Let_def)
  next
    case False
    obtain b st1 where cb: "cb (path @ CHR ''/'' # c) c (d_type_of u) st = (b, st1)" by fastforce
    show ?thesis
    proof (cases b)
      case True
      let ?stack = "if is_dir u then (path @ CHR ''/'' # c) # stack else stack"
      obtain b2 s2 t2 where r: "traverse_entries cb white path (dir_listing es) s ?stack st1 = (b2, s2, t2)"
        by (metis prod_cases3)
      with IH [of st1 ?stack] have r2: "run_visitor cb (map (visit_of path) (shown white path es)) st1 = (b2, t2)"
        "b2 \<longrightarrow> s2 = rev (map fst (subdirs white path es)) @ ?stack" by simp_all
      have "traverse_entries cb white path (dir_listing (e # es)) s stack st = (b2, s2, t2)"
        using cb c t False True r by (simp add: dir_listing_def e Let_def)
      moreover have "run_visitor cb (map (visit_of path) (shown white path (e # es))) st = (b2, t2)"
        using r2(1) cb True False by (simp add: shown_def e visit_of_def)
      moreover have "b2 \<longrightarrow> s2 = rev (map fst (subdirs white path (e # es))) @ stack"
        using r2(2) False by (simp add: subdirs_def shown_def e)
      ultimately show ?thesis by simp
    next
      case nb: False
      with cb c t False show ?thesis by (simp add: dir_listing_def shown_def subdirs_def e Let_def visit_of_def)
    qed
  qed
qed

lemma visits_subdirs:
  "concat (map (\<lambda>e. visits white (path @ CHR ''/'' # fst e) (snd e)) (rev (shown white path es))) =
   concat (map (\<lambda>i. visits white (fst i) (snd i)) (rev (subdirs white path es)))"
proof -
  have "concat (map (\<lambda>e. visits white (path @ CHR ''/'' # fst e) (snd e)) xs) =
      concat (map (\<lambda>i. visits white (fst i) (snd i)) (map (\<lambda>e. (path @ CHR ''/'' # fst e, snd e)) (filter (\<lambda>e. is_dir (snd e)) xs)))" for xs
  proof (induction xs)
    case (Cons e xs)
    then show ?case by (cases "snd e") auto
  qed simp
  then show ?thesis by (simp add: subdirs_def rev_filter rev_map)
qed

definition on_stack :: "fsys \<Rightarrow> string \<times> node \<Rightarrow> bool" where
  "on_stack s i \<longleftrightarrow> (\<exists>p. is_dir (snd i) \<and> leads s (fst i) p \<and> node_at (fs_root s) p = Some (snd i) \<and> nothing_refused s p)"

lemma subdirs_size: "sum_list (map (\<lambda>i. size (snd i)) (subdirs white path es)) < size (Dir es)"
  by (induction es) (auto simp: subdirs_def shown_def size_prod_def split: if_splits)

lemma loop_traverses:
  assumes "\<forall>i\<in>set items. on_stack s i" "0 < fs_fds s" "wf_node (fs_root s)"
  shows "traverse_loop cb white (map fst items) s st =
    (case run_visitor cb (concat (map (\<lambda>i. visits white (fst i) (snd i)) items)) st of
       (b, st1) \<Rightarrow> Some (b, if b then s else s\<lparr>fs_fds := fs_fds s - 1\<rparr>, st1))"
  using assms(1)
proof (induction "sum_list (map (\<lambda>i. size (snd i)) items)" arbitrary: items st rule: less_induct)
  case less
  show ?case
  proof (cases items)
    case Nil
    then show ?thesis by (simp add: traverse_loop.simps)
  next
    case (Cons i rest)
    obtain path u where i: "i = (path, u)" by (cases i)
    obtain p es where p: "u = Dir es" "leads s path p" "node_at (fs_root s) p = Some (Dir es)" "nothing_refused s p"
      using less.prems Cons i by (auto simp: on_stack_def is_dir_iff)
    have wf: "wf_node (Dir es)" by (rule wf_at [OF assms(3) p(3)])
    let ?s = "s\<lparr>fs_fds := fs_fds s - 1\<rparr>"
    have op: "sys_opendir path s = (Some ((''.'', DT_DIR) # (''..'', DT_DIR) # dir_listing es), ?s)"
      using opendir_now [OF p(2,3) assms(3,2)] p(4) by simp
    have types: "\<forall>(c, u)\<in>set es. get_path_type (path @ CHR ''/'' # c) ?s = FT_dir \<longleftrightarrow> is_dir u"
      using path_type_entry [of ?s path p es] p(2,3) assms(3) by auto
    obtain b stack' st' where te: "traverse_entries cb white path (dir_listing es) ?s (map fst rest) st = (b, stack', st')"
      by (metis prod_cases3)
    with entries_traversed [OF _ types, of cb white st "map fst rest"] wf
    have rv: "run_visitor cb (map (visit_of path) (shown white path es)) st = (b, st')"
      and stk: "b \<Longrightarrow> stack' = map fst (rev (subdirs white path es) @ rest)" by (auto simp: rev_map)
    let ?items = "rev (subdirs white path es) @ rest"
    have cl: "sys_closedir ?s = s" using assms(2) by (simp add: sys_closedir_def)
    have sub: "on_stack s j" if mem: "j \<in> set (subdirs white path es)" for j
    proof -
      obtain c fs where j: "j = (path @ CHR ''/'' # c, Dir fs)" "(c, Dir fs) \<in> set es"
        using mem by (auto simp: subdirs_def shown_def is_dir_iff)
      then have c: "good_name c" "map_of es c = Some (Dir fs)" using wf by (auto intro: map_of_is_SomeI)
      have "leads s (path @ CHR ''/'' # c) (p @ [c])" by (rule leads_child [OF p(2,3) c(2,1)])
      moreover have "node_at (fs_root s) (p @ [c]) = Some (Dir fs)" using p(3) c(2) by (simp add: node_at_append)
      ultimately show ?thesis using p(4) j(1) unfolding on_stack_def by (intro exI [of _ "p @ [c]"]) simp
    qed
    have "sum_list (map (\<lambda>i. size (snd i)) ?items) < sum_list (map (\<lambda>i. size (snd i)) items)"
      using subdirs_size [of white path es] by (simp add: Cons i p(1) rev_map [symmetric] sum_list_rev)
    moreover have "\<forall>i\<in>set ?items. on_stack s i" using sub less.prems Cons by auto
    ultimately have IH: "traverse_loop cb white (map fst ?items) s st' =
      (case run_visitor cb (concat (map (\<lambda>i. visits white (fst i) (snd i)) ?items)) st' of
         (b, st1) \<Rightarrow> Some (b, if b then s else ?s, st1))" by (rule less.hyps)
    have v: "concat (map (\<lambda>i. visits white (fst i) (snd i)) items) =
        map (visit_of path) (shown white path es) @ concat (map (\<lambda>i. visits white (fst i) (snd i)) ?items)"
      by (simp add: Cons i p(1) visits_subdirs)
    have "traverse_loop cb white (map fst items) s st = (if b then traverse_loop cb white stack' s st' else Some (False, ?s, st'))"
      using op te cl by (simp add: Cons i traverse_loop.simps [of cb white "path # map fst rest"])
    also have "\<dots> = (case run_visitor cb (concat (map (\<lambda>i. visits white (fst i) (snd i)) items)) st of
       (b, st1) \<Rightarrow> Some (b, if b then s else ?s, st1))"
      unfolding v run_visitor_append rv using IH stk by (cases b) simp_all
    finally show ?thesis .
  qed
qed

text \<open>The path of a node below a directory.\<close>

definition below :: "string \<Rightarrow> string list \<Rightarrow> string" where
  "below path q = path @ concat (map (\<lambda>c. CHR ''/'' # c) q)"

lemma below_simps [simp]: "below path [] = path" "below path (c # q) = below (path @ CHR ''/'' # c) q"
  by (simp_all add: below_def)

lemma split_below: "\<forall>c\<in>set q. good_name c \<Longrightarrow> split_slash (below path q) = split_slash path @ q"
  by (induction q arbitrary: path) (auto simp: good_name_def split_slash_name)

lemma all_prefix_Cons:
  "(\<forall>r. r \<noteq> [] \<longrightarrow> prefix r (d # q) \<longrightarrow> P r) \<longleftrightarrow> P [d] \<and> (\<forall>r. r \<noteq> [] \<longrightarrow> prefix r q \<longrightarrow> P (d # r))" (is "?l \<longleftrightarrow> ?r")
proof
  assume ?r
  show ?l
  proof (intro allI impI)
    fix r assume "r \<noteq> []" "prefix r (d # q)"
    then obtain r' where "r = d # r'" "prefix r' q" by (cases r) auto
    with \<open>?r\<close> show "P r" by (cases r') auto
  qed
qed auto

lemma regroup:
  "(\<exists>d w. M d w \<and> W d \<and> (\<exists>q v. N w q v \<and> X d q \<and> T v \<and> K d q)) \<longleftrightarrow>
   (\<exists>d q v. (\<exists>w. M d w \<and> N w q v) \<and> X d q \<and> T v \<and> W d \<and> K d q)"
  by blast

lemma ex_list: "(\<exists>q v. P q v) \<longleftrightarrow> (\<exists>v. P [] v) \<or> (\<exists>d q v. P (d # q) v)"
  by (metis list.exhaust)

lemma visits_iff:
  assumes "wf_node u"
  shows "(x, c, t) \<in> set (visits white path u) \<longleftrightarrow>
    (\<exists>q v. node_at u (q @ [c]) = Some v \<and> x = below path (q @ [c]) \<and> t = d_type_of v \<and>
      (\<forall>r. r \<noteq> [] \<longrightarrow> prefix r (q @ [c]) \<longrightarrow> below path r \<notin> set white))"
  (is "_ \<longleftrightarrow> (\<exists>q v. ?P u path q v)")
  using assms
proof (induction white path u rule: visits.induct)
  case (1 white path es)
  have key: "map_of es d = Some w \<longleftrightarrow> (d, w) \<in> set es" for d w using "1.prems" by (auto intro: map_of_is_SomeI dest: map_of_SomeD)
  let ?ok = "\<lambda>p q. \<forall>r. r \<noteq> [] \<longrightarrow> prefix r (q @ [c]) \<longrightarrow> below p r \<notin> set white"
  have ok: "?ok path (d # q) \<longleftrightarrow> path @ CHR ''/'' # d \<notin> set white \<and> ?ok (path @ CHR ''/'' # d) q" for d q
    by (simp only: append_Cons all_prefix_Cons below_simps)
  have ok0: "?ok path [] \<longleftrightarrow> path @ CHR ''/'' # c \<notin> set white"
    by (simp only: append_Nil all_prefix_Cons below_simps) simp
  have nd: "node_at (Dir es) (d # q) = Some v \<longleftrightarrow> (\<exists>w. (d, w) \<in> set es \<and> node_at w q = Some v)" for d q v
    by (simp add: key [symmetric] split: option.splits)
  have IH: "(x, c, t) \<in> set (visits white (path @ CHR ''/'' # d) w) \<longleftrightarrow>
      (\<exists>q v. node_at w (q @ [c]) = Some v \<and> x = below (path @ CHR ''/'' # d) (q @ [c]) \<and> t = d_type_of v \<and> ?ok (path @ CHR ''/'' # d) q)"
    if "(d, w) \<in> set es" "path @ CHR ''/'' # d \<notin> set white" for d w
  proof -
    have "(d, w) \<in> set (rev (shown white path es))" "wf_node w" using that "1.prems" by (auto simp: shown_def)
    with "1.IH" [of "(d, w)"] show ?thesis by (simp only: fst_conv snd_conv)
  qed
  have "(x, c, t) \<in> set (visits white path (Dir es)) \<longleftrightarrow>
      (\<exists>v. (c, v) \<in> set es \<and> x = path @ CHR ''/'' # c \<and> t = d_type_of v \<and> path @ CHR ''/'' # c \<notin> set white) \<or>
      (\<exists>d w. (d, w) \<in> set es \<and> path @ CHR ''/'' # d \<notin> set white \<and> (x, c, t) \<in> set (visits white (path @ CHR ''/'' # d) w))"
    by (auto simp: shown_def visit_of_def image_iff Bex_def)
  also have "\<dots> \<longleftrightarrow>
      (\<exists>v. (c, v) \<in> set es \<and> x = path @ CHR ''/'' # c \<and> t = d_type_of v \<and> path @ CHR ''/'' # c \<notin> set white) \<or>
      (\<exists>d w. (d, w) \<in> set es \<and> path @ CHR ''/'' # d \<notin> set white \<and>
         (\<exists>q v. node_at w (q @ [c]) = Some v \<and> x = below (path @ CHR ''/'' # d) (q @ [c]) \<and> t = d_type_of v \<and> ?ok (path @ CHR ''/'' # d) q))"
    using IH by blast
  also have "\<dots> \<longleftrightarrow> (\<exists>v. node_at (Dir es) [c] = Some v \<and> x = below path [c] \<and> t = d_type_of v \<and> ?ok path []) \<or>
      (\<exists>d q v. node_at (Dir es) (d # q @ [c]) = Some v \<and> x = below path (d # q @ [c]) \<and> t = d_type_of v \<and> ?ok path (d # q))"
  proof -
    have "(c, v) \<in> set es \<longleftrightarrow> node_at (Dir es) [c] = Some v" for v using nd [of c "[]" v] by simp
    moreover have "(\<exists>d w. (d, w) \<in> set es \<and> path @ CHR ''/'' # d \<notin> set white \<and>
         (\<exists>q v. node_at w (q @ [c]) = Some v \<and> x = below (path @ CHR ''/'' # d) (q @ [c]) \<and> t = d_type_of v \<and> ?ok (path @ CHR ''/'' # d) q)) \<longleftrightarrow>
       (\<exists>d q v. node_at (Dir es) (d # q @ [c]) = Some v \<and> x = below path (d # q @ [c]) \<and> t = d_type_of v \<and> ?ok path (d # q))"
      unfolding nd ok below_simps by (rule regroup)
    ultimately show ?thesis by (simp only: ok0 below_simps)
  qed
  also have "\<dots> \<longleftrightarrow> (\<exists>q v. node_at (Dir es) (q @ [c]) = Some v \<and> x = below path (q @ [c]) \<and> t = d_type_of v \<and> ?ok path q)"
    by (subst ex_list) (simp only: append_Cons append_Nil)
  finally show ?case .
qed (auto simp: Cons_eq_append_conv append_eq_Cons_conv neq_Nil_conv elim: node_at.elims)

lemma node_at_good: "wf_node u \<Longrightarrow> node_at u q = Some v \<Longrightarrow> \<forall>c\<in>set q. good_name c"
proof (induction q arbitrary: u)
  case (Cons c q)
  then obtain es w where "u = Dir es" "map_of es c = Some w" "node_at w q = Some v"
    by (cases u) (auto split: option.splits)
  with Cons show ?case by (auto dest!: map_of_SomeD)
qed simp

lemma visits_deeper:
  assumes "wf_node u" "v \<in> set (visits white path u)"
  shows "\<exists>q. q \<noteq> [] \<and> split_slash (fst v) = split_slash path @ q"
proof -
  obtain x c t where v: "v = (x, c, t)" by (cases v)
  with assms visits_iff [OF assms(1), of x c t white path] obtain q w where
    q: "node_at u (q @ [c]) = Some w" "x = below path (q @ [c])" by blast
  then show ?thesis using split_below [OF node_at_good [OF assms(1) q(1)], of path] v by auto
qed

lemma distinct_concat_keys:
  assumes "distinct (map fst xs)" "\<And>x. x \<in> set xs \<Longrightarrow> distinct (f x)"
    "\<And>x y. x \<in> set xs \<Longrightarrow> y \<in> set xs \<Longrightarrow> fst x \<noteq> fst y \<Longrightarrow> set (f x) \<inter> set (f y) = {}"
  shows "distinct (concat (map f xs))"
  using assms
proof (induction xs)
  case (Cons a xs)
  have "set (f a) \<inter> set (f y) = {}" if "y \<in> set xs" for y
    using Cons.prems(1) that by (intro Cons.prems(3)) auto
  then have "set (f a) \<inter> (\<Union>y\<in>set xs. set (f y)) = {}" by auto
  moreover have "distinct (concat (map f xs))"
  proof (rule Cons.IH)
    show "set (f x) \<inter> set (f y) = {}" if "x \<in> set xs" "y \<in> set xs" "fst x \<noteq> fst y" for x y
      using that by (intro Cons.prems(3)) auto
  qed (use Cons.prems(1,2) in auto)
  ultimately show ?case using Cons.prems(2) by simp
qed simp

lemma visits_distinct: "wf_node u \<Longrightarrow> distinct (visits white path u)"
proof (induction white path u rule: visits.induct)
  case (1 white path es)
  let ?sub = "\<lambda>e. visits white (path @ CHR ''/'' # fst e) (snd e)"
  let ?es = "shown white path es"
  have good: "good_name (fst e)" "wf_node (snd e)" if "e \<in> set ?es" for e using that "1.prems" by (auto simp: shown_def)
  have sub: "\<exists>q. q \<noteq> [] \<and> split_slash (fst v) = split_slash path @ fst e # q" if "e \<in> set ?es" "v \<in> set (?sub e)" for e v
    using visits_deeper [OF good(2) that(2)] good(1) that(1) by (auto simp: good_name_def split_slash_name)
  have dk: "distinct (map fst ?es)" using "1.prems" by (auto simp: shown_def distinct_map_filter)
  have "distinct (map (visit_of path) ?es)"
    using dk by (auto simp: distinct_map visit_of_def inj_on_def)
  moreover have "distinct (concat (map ?sub (rev ?es)))"
  proof (rule distinct_concat_keys)
    show "set (?sub x) \<inter> set (?sub y) = {}" if "x \<in> set (rev ?es)" "y \<in> set (rev ?es)" "fst x \<noteq> fst y" for x y
      using sub [of x] sub [of y] that by fastforce
  qed (use dk "1.IH" good in \<open>auto simp: rev_map [symmetric]\<close>)
  moreover have "v \<notin> set (?sub e)" if "e \<in> set ?es" "v \<in> set (map (visit_of path) ?es)" for e v
  proof
    assume "v \<in> set (?sub e)"
    from sub [OF that(1) this] that(2) good show False
      by (auto simp: visit_of_def good_name_def split_slash_name)
  qed
  then have "set (map (visit_of path) ?es) \<inter> (\<Union>e\<in>set ?es. set (?sub e)) = {}" by blast
  ultimately show ?case by (simp only: visits.simps distinct_append set_concat set_map set_rev) (simp add: image_image)
qed simp_all

text \<open>C34: \<open>traverse_path\<close> calls the callback once for each node below the directory that is neither listed nor below a
  listed path, with its path, name and kind, entries before subdirectories, and stops at the first call that returns
  false; links are reported, not entered. When it stops early the descriptor of the directory it reads is lost.\<close>

theorem traverse_path_visits:
  assumes "plain_at s path p" "node_at (fs_root s) p = Some (Dir es)" "wf_node (fs_root s)" "nothing_refused s p" "0 < fs_fds s"
  shows "traverse_path cb white path s st =
      (case run_visitor cb (visits white path (Dir es)) st of
         (b, st1) \<Rightarrow> Some (b, if b then s else s\<lparr>fs_fds := fs_fds s - 1\<rparr>, st1)) \<and>
    distinct (visits white path (Dir es)) \<and>
    ((x, c, t) \<in> set (visits white path (Dir es)) \<longleftrightarrow>
      (\<exists>q v. node_at (Dir es) (q @ [c]) = Some v \<and> x = below path (q @ [c]) \<and> t = d_type_of v \<and>
         \<not> (\<exists>r. r \<noteq> [] \<and> prefix r (q @ [c]) \<and> below path r \<in> set white)))"
proof -
  have wf: "wf_node (Dir es)" by (rule wf_at [OF assms(3,2)])
  obtain d n slash where p: "p = d @ [n]" "entry_at s path = Inr (d, n, slash)" "n \<noteq> ''.''" "n \<noteq> ''..''"
    using plain_entry [OF assms(1)] by blast
  have "resolve s path = Inr p" by (rule plain_resolve [OF assms(1,2)])
  then have "sys_lstat path s = Inr (Dir es)" using p assms(2) by (simp add: sys_lstat_def sys_stat_def)
  moreover have "on_stack s (path, Dir es)" using assms plain_leads [OF assms(1,2)] by (auto simp: on_stack_def)
  ultimately have "traverse_path cb white path s st =
      (case run_visitor cb (visits white path (Dir es)) st of
         (b, st1) \<Rightarrow> Some (b, if b then s else s\<lparr>fs_fds := fs_fds s - 1\<rparr>, st1))"
    using loop_traverses [of "[(path, Dir es)]" s cb white st] assms(3,5) by (simp add: traverse_path_def del: visits.simps)
  then show ?thesis using visits_distinct [OF wf] visits_iff [OF wf] by (simp del: visits.simps node_at.simps) blast
qed

section \<open>Witnesses\<close>

text \<open>A directory \<open>/a\<close> of a file, and a subdirectory with a link to the directory \<open>/b\<close>, which holds a file.\<close>

definition demo_root :: node where
  "demo_root = Dir [(''a'', Dir [(''f'', File ''x''), (''d'', Dir [(''l'', Link ''/b'')])]), (''b'', Dir [(''g'', File '''')]), (''m'', Link ''/b'')]"

definition demo_fs :: fsys where
  "demo_fs = \<lparr>fs_root = demo_root, fs_cwd = [], fs_fds = 3, fs_refused = \<lambda>_ _. False\<rparr>"

lemma demo_fs_simps [simp]:
  "fs_root demo_fs = demo_root" "fs_cwd demo_fs = []" "fs_fds demo_fs = 3" "fs_refused demo_fs c p = False"
  "nothing_refused demo_fs p"
  by (simp_all add: demo_fs_def nothing_refused_def)

lemma demo_plain:
  "plain_at demo_fs ''/a'' [''a'']" "plain_at demo_fs ''/b'' [''b'']" "plain_at demo_fs ''/m'' [''m'']"
  by (auto simp: plain_at_def path_core_def path_start_def path_names_def dirs_above_def demo_root_def strict_prefix_def prefix_Cons)

lemma demo_nodes:
  "node_at (fs_root demo_fs) [''a''] = Some (Dir [(''f'', File ''x''), (''d'', Dir [(''l'', Link ''/b'')])])"
  "node_at (fs_root demo_fs) [''b''] = Some (Dir [(''g'', File '''')])"
  "node_at (fs_root demo_fs) [''m''] = Some (Link ''/b'')" "wf_node (fs_root demo_fs)"
  by (simp_all add: demo_root_def good_name_def)

lemma remove_dir_removes_witness:
  "remove_dir ''/a'' demo_fs =
     (True, demo_fs\<lparr>fs_root := Dir [(''b'', Dir [(''g'', File '''')]), (''m'', Link ''/b'')]\<rparr>)"
  using remove_dir_removes [OF demo_plain(1) demo_nodes(1,4)]
  by (simp add: height.simps demo_root_def set_entry_def)

lemma remove_dir_white_keeps_children_witness:
  "remove_dir_white ''/a'' [''/a/f'', ''/a/d/l''] False demo_fs = (True, dir_in demo_fs [''a''] [(''f'', File ''x'')]) \<and>
   \<not> fst (remove_dir_white ''/a'' [''/a/f'', ''/a/d/l''] True demo_fs)"
  using remove_dir_white_keeps_children [OF demo_plain(1) demo_nodes(1,4), of "[''/a/f'', ''/a/d/l'']"]
  by (simp add: height.simps kept_def)

lemma remove_dir_confined_witness:
  "\<exists>s'. remove_dir ''/a'' (demo_fs\<lparr>fs_fds := 1\<rparr>) = (False, s') \<and> fs_fds s' = 0 \<and>
     node_at (fs_root s') [''a''] = Some (Dir [(''d'', Dir [(''l'', Link ''/b'')])]) \<and>
     node_at (fs_root s') [''b''] = Some (Dir [(''g'', File '''')])"
proof -
  obtain b s' where r: "remove_dir ''/a'' (demo_fs\<lparr>fs_fds := 1\<rparr>) = (b, s')" by fastforce
  have n: "node_at (fs_root s') [''a''] = Some (Dir [(''d'', Dir [(''l'', Link ''/b'')])])" "fs_fds s' = 0"
    using r by (auto simp: remove_dir_def sys_opendir_def resolve_def path_start_def demo_root_def dir_listing_def
      sys_unlink_def entry_at_def path_core_def set_entry_def Let_def)
  have d: "plain_at (demo_fs\<lparr>fs_fds := 1\<rparr>) ''/a'' [''a'']" "fs_root (demo_fs\<lparr>fs_fds := 1\<rparr>) = fs_root demo_fs"
    using demo_plain(1) by (simp_all del: demo_fs_simps)
  note c = remove_dir_confined [OF d(1) _ _ r, unfolded d(2), OF demo_nodes(1,4)]
  then have "node_at (fs_root s') [''b''] = node_at (fs_root demo_fs) [''b'']"
    by (simp del: node_at.simps demo_fs_simps)
  with c n r demo_nodes(2) show ?thesis by (simp del: node_at.simps)
qed

lemma remove_files_follows_link_witness:
  "remove_files ''/m'' demo_fs = (False, demo_fs\<lparr>fs_root := Dir [(''a'', Dir [(''f'', File ''x''), (''d'', Dir [(''l'', Link ''/b'')])]),
     (''b'', Dir []), (''m'', Link ''/b'')]\<rparr>)"
proof -
  have "resolve (dir_in demo_fs [''b''] es) ''/m'' = Inr [''b'']" for es
    by (simp add: resolve_def path_start_def demo_root_def set_entry_def numeral_eq_Suc)
  then have "leads demo_fs ''/m'' [''b'']" using demo_nodes(2) by (simp add: leads_def)
  from remove_files_follows_link [OF demo_plain(3) demo_nodes(3) this demo_nodes(2) _ demo_nodes(4)]
  show ?thesis by (simp add: height.simps dir_in_def demo_root_def set_entry_def)
qed

lemma remove_dir_leaks_descriptor_witness:
  "remove_dir ''/b'' (demo_fs\<lparr>fs_refused := \<lambda>c p. c = Call_unlink\<rparr>) =
     (False, demo_fs\<lparr>fs_refused := \<lambda>c p. c = Call_unlink, fs_fds := 2\<rparr>)"
  using remove_dir_leaks_descriptor [of "demo_fs\<lparr>fs_refused := \<lambda>c p. c = Call_unlink\<rparr>" "''/b''" "[''b'']" "''g''" "File ''''" "[]"]
    demo_plain(2) demo_nodes(2,4) by (simp add: plain_at_def path_start_def)

lemma strict_prefixes_two: "(\<forall>q. strict_prefix q [a, b] \<longrightarrow> P q) \<longleftrightarrow> P [] \<and> P [a]"
  by (auto simp: strict_prefix_def prefix_Cons)

lemma mkdir_recursive_creates_witness:
  "\<exists>t'. mkdir_recursive ''/b/x'' demo_fs = (True, demo_fs\<lparr>fs_root := t'\<rparr>) \<and>
     node_at t' [''b'', ''x''] = Some (Dir []) \<and> node_at t' [''b'', ''g''] = Some (File '''')"
proof -
  have "\<exists>t'. mkdir_recursive (''/'' @ join_slash [''b'', ''x'']) demo_fs = (True, demo_fs\<lparr>fs_root := t'\<rparr>) \<and>
    (\<forall>q. strict_prefix q ([] @ [''b'', ''x'']) \<longrightarrow> (\<exists>es. node_at t' q = Some (Dir es))) \<and>
    node_at t' ([] @ [''b'', ''x'']) = (if node_at (fs_root demo_fs) ([] @ [''b'', ''x'']) = None then Some (Dir []) else node_at (fs_root demo_fs) ([] @ [''b'', ''x''])) \<and>
    (\<forall>q. \<not> prefix q ([] @ [''b'', ''x'']) \<longrightarrow> node_at t' q = node_at (fs_root demo_fs) q)"
    by (rule mkdir_recursive_creates [where es = "entries_of demo_root"])
      (simp_all add: good_name_def demo_root_def dirs_above_def strict_prefixes_two)
  then obtain t' where t: "mkdir_recursive ''/b/x'' demo_fs = (True, demo_fs\<lparr>fs_root := t'\<rparr>)"
    "node_at t' [''b'', ''x''] = Some (Dir [])" "\<forall>q. \<not> prefix q [''b'', ''x''] \<longrightarrow> node_at t' q = node_at (fs_root demo_fs) q"
    by (auto simp: demo_root_def simp del: node_at.simps(2)) (auto simp: demo_root_def)
  from t(3) have "node_at t' [''b'', ''g''] = node_at (fs_root demo_fs) [''b'', ''g'']" by (simp del: node_at.simps)
  with t(1,2) show ?thesis by (auto simp: demo_root_def simp del: node_at.simps(2)) (auto simp: demo_root_def)
qed

lemma traverse_path_visits_witness:
  "traverse_path (\<lambda>path name t ps. (True, ps @ [path])) [''/a/f''] ''/a'' demo_fs [] = Some (True, demo_fs, [''/a/d'', ''/a/d/l'']) \<and>
   (''/a/f'', ''f'', DT_REG) \<notin> set (visits [''/a/f''] ''/a'' (Dir [(''f'', File ''x''), (''d'', Dir [(''l'', Link ''/b'')])]))"
  using traverse_path_visits [OF demo_plain(1) demo_nodes(1,4),
    where cb = "\<lambda>path name t ps. (True, ps @ [path])" and white = "[''/a/f'']" and st = "[]" and x = "''/a/f''" and c = "''f''" and t = DT_REG]
  by (simp add: shown_def visit_of_def)

end
