(* ===== verification/Stdio.thy ===== *)
theory Stdio
  imports FileSystem
begin

text \<open>
  What the code uses of the C library for text files: streams read by lines with \<open>fgets\<close>, the conversions of
  \<open>sscanf\<close>, whole files and symbolic links, after the C and POSIX standards. Nothing here has lines in the
  repository. A stream is the text that is left of it; a conversion that does not fit its object is undefined
  behaviour.
\<close>

section \<open>Streams\<close>

abbreviation newline :: char where
  "newline \<equiv> CHR 0x0A"

abbreviation NUL :: char where
  "NUL \<equiv> CHR 0x00"

definition c_str :: "string \<Rightarrow> string" where
  "c_str s = takeWhile (\<lambda>c. c \<noteq> NUL) s"

fun read_line :: "nat \<Rightarrow> string \<Rightarrow> string \<times> string" where
  "read_line 0 s = ([], s)"
| "read_line (Suc k) [] = ([], [])"
| "read_line (Suc k) (c # s) =
     (if c = newline then ([c], s) else case read_line k s of (l, r) \<Rightarrow> (c # l, r))"

text \<open>\<open>fgets\<close> with a buffer of \<open>n\<close> bytes, at least two.\<close>

definition fgets :: "nat \<Rightarrow> string \<Rightarrow> (string \<times> string) option" where
  "fgets n s = (if s = [] then None else Some (read_line (n - 1) s))"

lemma read_line_append: "read_line k s = (l, r) \<Longrightarrow> s = l @ r"
  by (induction k s arbitrary: l r rule: read_line.induct) (auto split: if_splits prod.splits)

lemma read_line_progress: "read_line (Suc k) (c # s) = (l, r) \<Longrightarrow> length r < length (c # s)"
  using read_line_append [of "Suc k" "c # s" l r] by (cases l) (auto split: if_splits prod.splits)

lemma read_line_length: "length (fst (read_line k s)) \<le> k"
  by (induction k s rule: read_line.induct) (auto split: prod.splits)

lemma fgets_shorter: "fgets n s = Some (l, r) \<Longrightarrow> 2 \<le> n \<Longrightarrow> length r < length s"
proof -
  assume a: "fgets n s = Some (l, r)" "2 \<le> n"
  then obtain k c t where "n - 1 = Suc k" "s = c # t"
    by (cases "n - 1"; cases s) (auto simp: fgets_def)
  with a show ?thesis using read_line_progress [of k c t l r] by (simp add: fgets_def del: read_line.simps)
qed

lemma fgets_first: "2 \<le> n \<Longrightarrow> c \<noteq> newline \<Longrightarrow> \<exists>l r. fgets n (c # s) = Some (c # l, r)"
proof -
  assume "2 \<le> n" "c \<noteq> newline"
  moreover from this obtain k where "n - 1 = Suc k" by (cases "n - 1") auto
  ultimately show ?thesis by (simp add: fgets_def split: prod.splits)
qed

lemma read_whole_line:
  "newline \<notin> set l \<Longrightarrow> length l < k \<Longrightarrow> read_line k (l @ newline # r) = (l @ [newline], r)"
proof (induction l arbitrary: k)
  case Nil
  then show ?case by (cases k) auto
next
  case (Cons c l)
  then obtain j where "k = Suc j" by (cases k) auto
  with Cons show ?case by auto
qed

lemma read_part_line: "newline \<notin> set l \<Longrightarrow> length l = k \<Longrightarrow> read_line k (l @ r) = (l, r)"
  by (induction l arbitrary: k) auto

lemma fgets_line:
  "newline \<notin> set l \<Longrightarrow> length l + 2 \<le> n \<Longrightarrow> fgets n (l @ newline # r) = Some (l @ [newline], r)"
  by (simp add: fgets_def read_whole_line)

lemma fgets_last: "newline \<notin> set l \<Longrightarrow> l \<noteq> [] \<Longrightarrow> length l + 1 \<le> n \<Longrightarrow> fgets n l = Some (l, [])"
proof -
  have "newline \<notin> set l \<Longrightarrow> length l \<le> k \<Longrightarrow> read_line k l = (l, [])" for k
  proof (induction l arbitrary: k)
    case Nil
    then show ?case by (cases k) auto
  next
    case (Cons c l)
    then show ?case by (cases k) auto
  qed
  moreover assume "newline \<notin> set l" "l \<noteq> []" "length l + 1 \<le> n"
  ultimately show ?thesis by (simp add: fgets_def)
qed

lemma fgets_part:
  "newline \<notin> set l \<Longrightarrow> l \<noteq> [] \<Longrightarrow> length l + 1 = n \<Longrightarrow> fgets n (l @ r) = Some (l, r)"
  using read_part_line [of l "n - 1" r] by (cases l) (auto simp: fgets_def)

lemma c_str_id: "NUL \<notin> set s \<Longrightarrow> c_str s = s"
  by (auto simp: c_str_def takeWhile_eq_all_conv)

section \<open>Numbers\<close>

definition digit_val :: "char \<Rightarrow> nat option" where
  "digit_val c =
     (let n = char_nat c in
      if 48 \<le> n \<and> n \<le> 57 then Some (n - 48)
      else if 97 \<le> n \<and> n \<le> 102 then Some (n - 87)
      else if 65 \<le> n \<and> n \<le> 70 then Some (n - 55)
      else None)"

definition is_digit_of :: "nat \<Rightarrow> char \<Rightarrow> bool" where
  "is_digit_of b c = (case digit_val c of None \<Rightarrow> False | Some v \<Rightarrow> v < b)"

definition value_of :: "nat \<Rightarrow> string \<Rightarrow> nat" where
  "value_of b ds = foldl (\<lambda>a c. a * b + (case digit_val c of None \<Rightarrow> 0 | Some v \<Rightarrow> v)) 0 ds"

definition scan_num :: "nat \<Rightarrow> string \<Rightarrow> (int \<times> string) option" where
  "scan_num b s =
     (let neg = (take 1 s = ''-'');
          t = (if neg \<or> take 1 s = ''+'' then drop 1 s else s);
          u = (if b = 16 \<and> (take 2 t = ''0x'' \<or> take 2 t = ''0X'') then drop 2 t else t);
          ds = takeWhile (is_digit_of b) u
      in if ds = [] then None
         else Some (if neg then - int (value_of b ds) else int (value_of b ds), drop (length ds) u))"

text \<open>Printing, for the texts the kernel writes.\<close>

definition digit_char :: "nat \<Rightarrow> char" where
  "digit_char d = char_of (if d < 10 then d + 48 else d + 87)"

fun print_num :: "nat \<Rightarrow> nat \<Rightarrow> string" where
  "print_num b n = (if n < b \<or> b < 2 then [digit_char n] else print_num b (n div b) @ [digit_char (n mod b)])"

declare print_num.simps [simp del]

definition pad_num :: "nat \<Rightarrow> nat \<Rightarrow> nat \<Rightarrow> string" where
  "pad_num w b n = replicate (w - length (print_num b n)) CHR ''0'' @ print_num b n"

lemma digit_val_char: "d < 16 \<Longrightarrow> digit_val (digit_char d) = Some d"
  by (auto simp: digit_val_def digit_char_def char_nat_def Let_def)

lemma digit_val_0 [simp]: "digit_val CHR ''0'' = Some 0"
  by (simp add: digit_val_def char_nat_def Let_def)

lemma print_num_value: "2 \<le> b \<Longrightarrow> b \<le> 16 \<Longrightarrow> value_of b (print_num b n) = n"
proof (induction b n rule: print_num.induct)
  case (1 b n)
  have "n mod b < 16" using mod_less_divisor [of b n] "1.prems" by linarith
  with 1 show ?case by (subst print_num.simps) (auto simp: value_of_def digit_val_char)
qed

lemma print_num_digits: "2 \<le> b \<Longrightarrow> b \<le> 16 \<Longrightarrow> c \<in> set (print_num b n) \<Longrightarrow> is_digit_of b c"
proof (induction b n rule: print_num.induct)
  case (1 b n)
  have "n mod b < b" "n mod b < 16" using mod_less_divisor [of b n] "1.prems" by linarith+
  then have last: "is_digit_of b (digit_char (n mod b))" by (simp add: is_digit_of_def digit_val_char)
  show ?case
  proof (cases "n < b")
    case True
    with "1.prems" last show ?thesis by (subst (asm) print_num.simps) simp
  next
    case False
    with "1.prems" have "c \<in> set (print_num b (n div b)) \<or> c = digit_char (n mod b)"
      by (subst (asm) print_num.simps) auto
    with "1.IH" "1.prems"(1,2) False last show ?thesis by auto
  qed
qed

lemma print_num_nonempty [simp]: "print_num b n \<noteq> []"
  by (subst print_num.simps) simp

lemma pad_num_value: "2 \<le> b \<Longrightarrow> b \<le> 16 \<Longrightarrow> value_of b (pad_num w b n) = n"
proof -
  have z: "foldl (\<lambda>a c. a * b + (case digit_val c of None \<Rightarrow> 0 | Some v \<Rightarrow> v)) 0 (replicate k CHR ''0'') = 0" for k
    by (induction k) (simp_all add: replicate_app_Cons_same)
  assume "2 \<le> b" "b \<le> 16"
  then show ?thesis using print_num_value [of b n] z by (simp add: value_of_def pad_num_def)
qed

lemma pad_num_digits: "2 \<le> b \<Longrightarrow> b \<le> 16 \<Longrightarrow> c \<in> set (pad_num w b n) \<Longrightarrow> is_digit_of b c"
  using print_num_digits by (auto simp: pad_num_def is_digit_of_def)

lemma pad_num_nonempty [simp]: "pad_num w b n \<noteq> []"
  by (simp add: pad_num_def)

lemma not_digits: "\<not> is_digit_of b CHR ''-''" "\<not> is_digit_of b CHR ''+''" "\<not> is_digit_of b CHR '' ''" "\<not> is_digit_of b CHR '':''"
  "\<not> is_digit_of b newline" "\<not> is_digit_of b CHR ''x''" "\<not> is_digit_of b CHR ''X''"
  by (simp_all add: is_digit_of_def digit_val_def char_nat_def Let_def)

text \<open>A printed number is read back, up to the character behind it.\<close>

lemma scan_pad_num:
  assumes b: "2 \<le> b" "b \<le> 16" and r: "r = [] \<or> (\<not> is_digit_of b (hd r) \<and> hd r \<noteq> CHR ''x'' \<and> hd r \<noteq> CHR ''X'')"
  shows "scan_num b (pad_num w b n @ r) = Some (int n, r)"
proof -
  obtain d ds where p: "pad_num w b n = d # ds" by (cases "pad_num w b n") auto
  have dig: "is_digit_of b c" if "c \<in> set (d # ds)" for c using pad_num_digits [OF b, of c w n] that p by simp
  have d: "d \<noteq> CHR ''-''" "d \<noteq> CHR ''+''" using dig [of d] not_digits by auto
  have x: "take 2 ((d # ds) @ r) \<noteq> ''0x'' \<and> take 2 ((d # ds) @ r) \<noteq> ''0X''"
  proof (cases ds)
    case Nil
    with r show ?thesis by (cases r) auto
  next
    case (Cons e es)
    with dig [of e] not_digits show ?thesis by auto
  qed
  have "takeWhile (is_digit_of b) ((d # ds) @ r) = (d # ds) @ takeWhile (is_digit_of b) r"
    using dig by (intro takeWhile_append2) auto
  moreover have "takeWhile (is_digit_of b) r = []" using r by (cases r) auto
  ultimately have "takeWhile (is_digit_of b) ((d # ds) @ r) = pad_num w b n" by (simp add: p)
  with d x p pad_num_value [OF b, of w n] show ?thesis by (auto simp: scan_num_def Let_def)
qed

text \<open>Texts on one line.\<close>

definition plain_text :: "string \<Rightarrow> bool" where
  "plain_text s \<longleftrightarrow> NUL \<notin> set s \<and> newline \<notin> set s"

lemma plain_text_simps [simp]:
  "plain_text []" "plain_text (c # s) \<longleftrightarrow> c \<noteq> NUL \<and> c \<noteq> newline \<and> plain_text s"
  "plain_text (s @ t) \<longleftrightarrow> plain_text s \<and> plain_text t" "plain_text (replicate n CHR '' '')"
  by (auto simp: plain_text_def)

lemma plain_pad_num: "2 \<le> b \<Longrightarrow> b \<le> 16 \<Longrightarrow> plain_text (pad_num w b n)"
  using pad_num_digits [of b NUL w n] pad_num_digits [of b newline w n]
  by (auto simp: plain_text_def is_digit_of_def digit_val_def char_nat_def)

definition text_lines :: "string list \<Rightarrow> string" where
  "text_lines ls = concat (map (\<lambda>l. l @ [newline]) ls)"

lemma text_lines_simps [simp]: "text_lines [] = []" "text_lines (l # ls) = l @ newline # text_lines ls"
  "text_lines (ks @ ls) = text_lines ks @ text_lines ls"
  by (simp_all add: text_lines_def)

lemma is_space_simps [simp]: "is_space CHR '' ''" "is_space newline"
  by (simp_all add: is_space_def char_nat_def)

section \<open>sscanf\<close>

datatype directive =
    D_space
  | D_lit char
  | D_word bool
  | D_chars nat
  | D_num nat bool nat
  | D_pos

datatype scanned = S_str string | S_int int | S_pos nat

text \<open>A format, for the directives the program uses.\<close>

function scan_format :: "string \<Rightarrow> directive list" where
  "scan_format [] = []"
| "scan_format (c # t) =
     (if c = CHR ''%'' then
        if take 2 t = ''*s'' then D_word False # scan_format (drop 2 t)
        else if take 1 t = ''s'' then D_word True # scan_format (drop 1 t)
        else if take 1 t = ''n'' then D_pos # scan_format (drop 1 t)
        else if take 1 t = ''d'' then D_num 10 True 32 # scan_format (drop 1 t)
        else if take 2 t = ''ld'' then D_num 10 True 64 # scan_format (drop 2 t)
        else if take 2 t = ''lx'' then D_num 16 False 64 # scan_format (drop 2 t)
        else if take 3 t = ''hhx'' then D_num 16 False 8 # scan_format (drop 3 t)
        else if take 2 t = ''4c'' then D_chars 4 # scan_format (drop 2 t)
        else []
      else if is_space c then D_space # scan_format t
      else D_lit c # scan_format t)"
  by pat_completeness auto
termination
  by (relation "measure length") auto

text \<open>The object of a number: \<open>strtoul\<close> wraps a negative number, and the result has to fit.\<close>

definition scan_object :: "bool \<Rightarrow> nat \<Rightarrow> int \<Rightarrow> int res" where
  "scan_object sg bits v =
     (let u = (if \<not> sg \<and> v < 0 then v + 2 ^ 64 else v) in
      if (if sg then - (2 ^ (bits - 1)) \<le> u \<and> u < 2 ^ (bits - 1) else 0 \<le> u \<and> u < 2 ^ bits) then Inr u
      else Inl UB_Overflow)"

definition scan_cons :: "scanned \<Rightarrow> scanned list res \<Rightarrow> scanned list res" where
  "scan_cons x m = (case m of Inl e \<Rightarrow> Inl e | Inr xs \<Rightarrow> Inr (x # xs))"

lemma scan_cons_simps [simp]: "scan_cons x (Inl e) = Inl e" "scan_cons x (Inr xs) = Inr (x # xs)"
  by (simp_all add: scan_cons_def)

text \<open>What the directives store, in order, until one does not match; \<open>pos\<close> characters were read before.\<close>

fun scan :: "directive list \<Rightarrow> nat \<Rightarrow> string \<Rightarrow> scanned list res" where
  "scan [] pos s = Inr []"
| "scan (D_space # ds) pos s =
     (let t = dropWhile is_space s in scan ds (pos + (length s - length t)) t)"
| "scan (D_lit c # ds) pos s = (if s \<noteq> [] \<and> hd s = c then scan ds (pos + 1) (tl s) else Inr [])"
| "scan (D_word assigned # ds) pos s =
     (let t = dropWhile is_space s; w = takeWhile (\<lambda>c. \<not> is_space c) t; r = drop (length w) t in
      if w = [] then Inr []
      else if assigned then scan_cons (S_str w) (scan ds (pos + (length s - length r)) r)
      else scan ds (pos + (length s - length r)) r)"
| "scan (D_chars n # ds) pos s =
     (if length s < n then Inr [] else scan_cons (S_str (take n s)) (scan ds (pos + n) (drop n s)))"
| "scan (D_num b sg bits # ds) pos s =
     (case scan_num b (dropWhile is_space s) of
        None \<Rightarrow> Inr []
      | Some (v, r) \<Rightarrow>
          res_bind (scan_object sg bits v) (\<lambda>u. scan_cons (S_int u) (scan ds (pos + (length s - length r)) r)))"
| "scan (D_pos # ds) pos s = scan_cons (S_pos pos) (scan ds pos s)"

definition sscanf :: "string \<Rightarrow> string \<Rightarrow> scanned list res" where
  "sscanf s format = scan (scan_format format) 0 (c_str s)"

text \<open>The result of the call: \<open>%n\<close> does not count. The end of the text before the first conversion, which C
  reports as -1, counts as zero here; the callers do not tell them apart.\<close>

definition scan_count :: "scanned list \<Rightarrow> nat" where
  "scan_count xs = length (filter (\<lambda>x. case x of S_pos _ \<Rightarrow> False | _ \<Rightarrow> True) xs)"

section \<open>Whole files\<close>

text \<open>Opening a file and reading it to its end; an open file is a descriptor, which is given back.\<close>

definition read_file :: "string \<Rightarrow> fsys \<Rightarrow> string option" where
  "read_file path s =
     (case resolve s path of
        Inl _ \<Rightarrow> None
      | Inr p \<Rightarrow>
          (case node_at (fs_root s) p of
             Some (File content) \<Rightarrow> if fs_refused s Call_read p \<or> fs_fds s = 0 then None else Some content
           | _ \<Rightarrow> None))"

text \<open>\<open>fopen\<close> with \<open>r\<close> and \<open>w\<close>: the file that is open; writing empties a file or creates it (not through a link that
  leads nowhere).\<close>

definition open_read :: "string \<Rightarrow> fsys \<Rightarrow> string list option" where
  "open_read path s =
     (case resolve s path of
        Inl _ \<Rightarrow> None
      | Inr p \<Rightarrow> if fs_refused s Call_read p \<or> fs_fds s = 0 then None
          else (case node_at (fs_root s) p of Some (File _) \<Rightarrow> Some p | _ \<Rightarrow> None))"

definition open_write :: "string \<Rightarrow> fsys \<Rightarrow> (string list \<times> fsys) option" where
  "open_write path s =
     (if fs_fds s = 0 then None
      else case resolve s path of
        Inr p \<Rightarrow>
          (case node_at (fs_root s) p of
             Some (File _) \<Rightarrow>
               if fs_refused s Call_write p then None
               else Some (p, s\<lparr>fs_root := put_at p (Some (File [])) (fs_root s)\<rparr>)
           | _ \<Rightarrow> None)
      | Inl ENOENT \<Rightarrow>
          (case entry_at s path of
             Inl _ \<Rightarrow> None
           | Inr (d, c, slash) \<Rightarrow>
               if slash \<or> node_at (fs_root s) (d @ [c]) \<noteq> None \<or> fs_refused s Call_write (d @ [c]) then None
               else Some (d @ [c], s\<lparr>fs_root := put_at (d @ [c]) (Some (File [])) (fs_root s)\<rparr>))
      | Inl _ \<Rightarrow> None)"

definition file_content :: "fsys \<Rightarrow> string list \<Rightarrow> string" where
  "file_content s p = (case node_at (fs_root s) p of Some (File c) \<Rightarrow> c | _ \<Rightarrow> [])"

definition file_append :: "string list \<Rightarrow> string \<Rightarrow> fsys \<Rightarrow> fsys" where
  "file_append p bytes s = s\<lparr>fs_root := put_at p (Some (File (file_content s p @ bytes))) (fs_root s)\<rparr>"

definition sys_readlink :: "string \<Rightarrow> fsys \<Rightarrow> string option" where
  "sys_readlink path s = (case sys_lstat path s of Inr (Link l) \<Rightarrow> Some l | _ \<Rightarrow> None)"

end
