(* ===== verification/ProcFiles.thy ===== *)
theory ProcFiles
  imports Stdio
begin

text \<open>
  The readers of files under \<open>/proc\<close>: the memory map of the process (\<open>MapsHelper\<close>), the mount table, the process
  names and command lines of \<open>utils/linux_helper.cpp\<close>, and \<open>utils/meminfo.cpp\<close>.
\<close>

section \<open>The memory map\<close>

record MapsInfo =
  region_start :: "64 word"
  region_end :: "64 word"
  region_offset :: "64 word"
  permissions :: string
  mi_path :: string

abbreviation LINE_MAX :: nat where
  "LINE_MAX \<equiv> 2048"

definition maps_format :: string where
  "maps_format = ''%lx-%lx %4c %lx %hhx:%hhx %ld %n''"

text \<open>\<open>regex\<close> is \<open>std::regex\<close> with \<open>regex_match\<close>, supplied by the standard library: \<open>None\<close> for a text that is no
  pattern, which throws. The test \<open>feof\<close> of the loop and the result of \<open>fgets\<close> end it together.\<close>

definition maps_entry :: "string \<Rightarrow> scanned list \<Rightarrow> MapsInfo option" where
  "maps_entry line_buffer xs =
     (case xs of
        [S_int a, S_int b, S_str perm, S_int off, S_int major, S_int minor, S_int inode, S_pos path_index] \<Rightarrow>
          (let path = drop path_index line_buffer;
               path = (if path \<noteq> [] \<and> last path = newline then butlast path else path)
           in Some \<lparr>region_start = word_of_int a, region_end = word_of_int b, region_offset = word_of_int off,
                permissions = c_str perm, mi_path = path\<rparr>)
      | _ \<Rightarrow> None)"

lemma skipped_shorter:
  assumes "fgets LINE_MAX fp = Some (l, r)"
  shows "length r < length fp" "length (tl (dropWhile P r)) < length fp"
proof -
  show r: "length r < length fp" using fgets_shorter [OF assms] by simp
  have "length (tl (dropWhile P r)) \<le> length r" using length_dropWhile_le [of P r] by simp
  with r show "length (tl (dropWhile P r)) < length fp" by linarith
qed

function maps_loop ::
  "(string \<Rightarrow> bool) \<Rightarrow> string \<Rightarrow> string \<Rightarrow> string \<Rightarrow> MapsInfo list \<Rightarrow> (bool \<times> MapsInfo list) res" where
  "maps_loop matches libPath wantPerm fp mapsInfo =
     (case fgets LINE_MAX fp of
        None \<Rightarrow> Inr (mapsInfo \<noteq> [], mapsInfo)
      | Some (line_buffer, fp1) \<Rightarrow>
          (let rest = dropWhile (\<lambda>c. c \<noteq> newline) fp1; long = (length (c_str line_buffer) = LINE_MAX) in
           if long \<and> rest = [] then Inr (mapsInfo \<noteq> [], mapsInfo)
           else
             let fp2 = (if long then tl rest else fp1) in
             case sscanf line_buffer maps_format of
               Inl e \<Rightarrow> Inl e
             | Inr xs \<Rightarrow>
                 (case maps_entry (c_str line_buffer) xs of
                    None \<Rightarrow> Inr (False, mapsInfo)
                  | Some info \<Rightarrow>
                      if libPath \<noteq> [] \<and> \<not> matches (mi_path info) \<or> wantPerm \<noteq> [] \<and> wantPerm \<noteq> permissions info
                      then maps_loop matches libPath wantPerm fp2 mapsInfo
                      else maps_loop matches libPath wantPerm fp2 (mapsInfo @ [info]))))"
  by pat_completeness auto
termination
proof (relation "measure (\<lambda>(matches, libPath, wantPerm, fp, mapsInfo). length fp)")
qed (auto simp del: length_tl intro: skipped_shorter split: if_splits)

definition get_process_maps ::
  "(string \<Rightarrow> (string \<Rightarrow> bool) option) \<Rightarrow> string \<Rightarrow> string \<Rightarrow> fsys \<Rightarrow> (bool \<times> MapsInfo list) res" where
  "get_process_maps regex libPath wantPerm s =
     (case regex libPath of
        None \<Rightarrow> Inl (Runtime_Error ''regex_error'')
      | Some matches \<Rightarrow>
          (case read_file ''/proc/self/maps'' s of
             None \<Rightarrow> Inr (False, [])
           | Some fp \<Rightarrow> maps_loop matches libPath wantPerm fp []))"

definition maps_refresh ::
  "(string \<Rightarrow> (string \<Rightarrow> bool) option) \<Rightarrow> string \<Rightarrow> string \<Rightarrow> fsys \<Rightarrow> (int \<times> MapsInfo list) res" where
  "maps_refresh regex libPath wantPerm s =
     res_bind (get_process_maps regex libPath wantPerm s)
       (\<lambda>(ok, mapsInfo). Inr (if \<not> ok then - 1 else to_i32 (int (length mapsInfo)), mapsInfo))"

fun module_base_loop :: "(string \<Rightarrow> bool) \<Rightarrow> MapsInfo list \<Rightarrow> 64 word \<Rightarrow> 64 word" where
  "module_base_loop matches [] start = start"
| "module_base_loop matches (item # mapsInfo) start =
     (if \<not> matches (mi_path item) then module_base_loop matches mapsInfo start
      else if region_start item < start then module_base_loop matches mapsInfo (region_start item)
      else module_base_loop matches mapsInfo start)"

definition get_module_base ::
  "(string \<Rightarrow> (string \<Rightarrow> bool) option) \<Rightarrow> string \<Rightarrow> MapsInfo list \<Rightarrow> 64 word res" where
  "get_module_base regex libPath mapsInfo =
     (case regex libPath of
        None \<Rightarrow> Inl (Runtime_Error ''regex_error'')
      | Some matches \<Rightarrow> Inr (module_base_loop matches mapsInfo (- 1)))"

section \<open>The mount table\<close>

record MountInfo =
  mnt_fsname :: string
  mnt_dir :: string
  mnt_type :: string
  mnt_opts :: string
  mnt_freq :: int
  mnt_passno :: int

definition mount_format :: string where
  "mount_format = '' %n%*s%n %n%*s%n %n%*s%n %n%*s%n %d %d''"

text \<open>A field is ended by writing a NUL behind it.\<close>

definition mount_entry :: "string \<Rightarrow> scanned list \<Rightarrow> MountInfo option" where
  "mount_entry buf xs =
     (case xs of
        [S_pos fsname0, S_pos fsname1, S_pos dir0, S_pos dir1, S_pos type0, S_pos type1, S_pos opts0, S_pos opts1,
         S_int freq, S_int passno] \<Rightarrow>
          (let buf = buf[fsname1 := NUL]; fsname = c_str (drop fsname0 buf);
               buf = buf[dir1 := NUL]; dir = c_str (drop dir0 buf);
               buf = buf[type1 := NUL]; typ = c_str (drop type0 buf);
               buf = buf[opts1 := NUL]; opts = c_str (drop opts0 buf)
           in Some \<lparr>mnt_fsname = fsname, mnt_dir = dir, mnt_type = typ, mnt_opts = opts, mnt_freq = freq, mnt_passno = passno\<rparr>)
      | _ \<Rightarrow> None)"

function mounts_loop :: "string \<Rightarrow> MountInfo list \<Rightarrow> MountInfo list res" where
  "mounts_loop fp ret =
     (case fgets 1024 fp of
        None \<Rightarrow> Inr ret
      | Some (buf, fp1) \<Rightarrow>
          (case sscanf buf mount_format of
             Inl e \<Rightarrow> Inl e
           | Inr xs \<Rightarrow>
               (case mount_entry buf xs of
                  None \<Rightarrow> mounts_loop fp1 ret
                | Some info \<Rightarrow> mounts_loop fp1 (ret @ [info]))))"
  by pat_completeness auto
termination
  by (relation "measure (\<lambda>(fp, ret). length fp)") (auto dest: fgets_shorter)

definition get_mount_list :: "string option \<Rightarrow> fsys \<Rightarrow> MountInfo list \<Rightarrow> (bool \<times> MountInfo list) res" where
  "get_mount_list path s ret =
     (case read_file (case path of None \<Rightarrow> ''/proc/mounts'' | Some p \<Rightarrow> p) s of
        None \<Rightarrow> Inr (False, ret)
      | Some fp \<Rightarrow> res_bind (mounts_loop fp ret) (\<lambda>ret1. Inr (True, ret1)))"

section \<open>Memory statistics\<close>

text \<open>The structure is its integers, in the order of the fields.\<close>

definition MemInfo_fields :: "string list" where
  "MemInfo_fields =
     [''MemTotal'', ''MemFree'', ''MemAvailable'', ''Buffers'', ''Cached'', ''SwapCached'', ''Active'', ''Inactive'',
      ''Active_anon'', ''Inactive_anon'', ''Active_file'', ''Inactive_file'', ''Unevictable'', ''Mlocked'', ''SwapTotal'',
      ''SwapFree'', ''Dirty'', ''Writeback'', ''AnonPages'', ''Mapped'', ''Shmem'', ''Slab'', ''SReclaimable'',
      ''SUnreclaim'', ''KernelStack'', ''PageTables'', ''NFS_Unstable'', ''Bounce'', ''WritebackTmp'', ''CommitLimit'',
      ''Committed_AS'', ''VmallocTotal'', ''VmallocUsed'', ''VmallocChunk'', ''CmaTotal'', ''CmaFree'']"

type_synonym MemInfo = "int list"

datatype MemInfoKeyIndex =
    K_MemTotal | K_MemFree | K_MemAvailable | K_Buffers | K_Cached | K_SwapCached | K_Active | K_Inactive
  | K_Active_anon | K_Inactive_anon | K_Active_file | K_Inactive_file | K_Unevictable | K_Mlocked | K_SwapTotal
  | K_SwapFree | K_Dirty | K_Writeback | K_AnonPages | K_Mapped | K_Shmem | K_Slab | K_SReclaimable
  | K_SUnreclaim | K_KernelStack | K_PageTables | K_NFS_Unstable | K_Bounce | K_WritebackTmp | K_CommitLimit
  | K_Committed_AS | K_VmallocTotal | K_VmallocUsed | K_VmallocChunk | K_CmaTotal | K_CmaFree

definition MemInfoKeyIndex_values :: "MemInfoKeyIndex list" where
  "MemInfoKeyIndex_values =
     [K_MemTotal, K_MemFree, K_MemAvailable, K_Buffers, K_Cached, K_SwapCached, K_Active, K_Inactive,
      K_Active_anon, K_Inactive_anon, K_Active_file, K_Inactive_file, K_Unevictable, K_Mlocked, K_SwapTotal,
      K_SwapFree, K_Dirty, K_Writeback, K_AnonPages, K_Mapped, K_Shmem, K_Slab, K_SReclaimable,
      K_SUnreclaim, K_KernelStack, K_PageTables, K_NFS_Unstable, K_Bounce, K_WritebackTmp, K_CommitLimit,
      K_Committed_AS, K_VmallocTotal, K_VmallocUsed, K_VmallocChunk, K_CmaTotal, K_CmaFree]"

text \<open>The number of an enumerator is its position.\<close>

definition key_number :: "MemInfoKeyIndex \<Rightarrow> nat" where
  "key_number k = length (takeWhile (\<lambda>j. j \<noteq> k) MemInfoKeyIndex_values)"

definition MemInfoOffset :: "(string \<times> MemInfoKeyIndex) list" where
  "MemInfoOffset =
     [(''MemTotal:'', K_MemTotal), (''MemFree:'', K_MemFree), (''MemAvailable:'', K_MemAvailable),
      (''Buffers:'', K_Buffers), (''Cached:'', K_Cached), (''SwapCached:'', K_SwapCached),
      (''Active:'', K_Active), (''Inactive:'', K_Inactive), (''Active(anon):'', K_Active_anon),
      (''Inactive(anon):'', K_Inactive_anon), (''Active(file):'', K_Active_file),
      (''Inactive(file):'', K_Inactive_file), (''Unevictable:'', K_Unevictable), (''Mlocked:'', K_Mlocked),
      (''SwapTotal:'', K_SwapTotal), (''SwapFree:'', K_SwapFree), (''Dirty:'', K_Dirty),
      (''Writeback:'', K_Writeback), (''AnonPages:'', K_AnonPages), (''Mapped:'', K_Mapped),
      (''Shmem:'', K_Shmem), (''Slab:'', K_Slab), (''SReclaimable:'', K_SReclaimable),
      (''SUnreclaim:'', K_SUnreclaim), (''KernelStack:'', K_KernelStack), (''PageTables:'', K_PageTables),
      (''NFS_Unstable:'', K_NFS_Unstable), (''Bounce:'', K_Bounce), (''WritebackTmp:'', K_WritebackTmp),
      (''CommitLimit:'', K_CommitLimit), (''Committed_AS:'', K_Committed_AS), (''VmallocTotal:'', K_VmallocTotal),
      (''VmallocUsed:'', K_VmallocUsed), (''VmallocChunk:'', K_VmallocChunk), (''CmaTotal:'', K_CmaTotal),
      (''CmaFree:'', K_CmaFree)]"

text \<open>\<open>name\<close> and \<open>value\<close> are not initialised: they hold what the stack held, and what the last line left.\<close>

definition meminfo_line :: "string \<Rightarrow> string \<times> int \<times> MemInfo \<Rightarrow> (string \<times> int \<times> MemInfo) res" where
  "meminfo_line buf = (\<lambda>(name, value, memInfo).
     (case sscanf buf ''%s%d'' of
        Inl e \<Rightarrow> Inl e
      | Inr xs \<Rightarrow>
          (let name = (case xs of S_str w # _ \<Rightarrow> w | _ \<Rightarrow> name);
               value = (case xs of [_, S_int v] \<Rightarrow> v | _ \<Rightarrow> value)
           in if 20 \<le> length name then Inl UB_Bounds
              else case map_of MemInfoOffset name of
                     None \<Rightarrow> Inr (name, value, memInfo)
                   | Some key \<Rightarrow> Inr (name, value, memInfo[key_number key := value]))))"

function meminfo_loop :: "string \<Rightarrow> int \<Rightarrow> string \<times> int \<times> MemInfo \<Rightarrow> MemInfo res" where
  "meminfo_loop fp maxLine st =
     (case fgets 128 fp of
        None \<Rightarrow> Inr (snd (snd st))
      | Some (buf, fp1) \<Rightarrow>
          if maxLine > 0
          then (case meminfo_line buf st of Inl e \<Rightarrow> Inl e | Inr st1 \<Rightarrow> meminfo_loop fp1 (maxLine - 1) st1)
          else Inr (snd (snd st)))"
  by pat_completeness auto
termination
  by (relation "measure (\<lambda>(fp, maxLine, st). length fp)") (auto dest: fgets_shorter)

definition GetMemInfo :: "string \<times> int \<Rightarrow> string \<Rightarrow> int \<Rightarrow> fsys \<Rightarrow> (bool \<times> MemInfo) res" where
  "GetMemInfo garbage path maxLine s =
     (let memInfo = replicate 36 0 in
      case read_file path s of
        None \<Rightarrow> Inr (False, memInfo)
      | Some fp \<Rightarrow>
          res_bind (meminfo_loop fp (if maxLine = - 1 then 99999 else maxLine) (fst garbage, snd garbage, memInfo))
            (\<lambda>memInfo. Inr (True, memInfo)))"

definition GetMemInfo_all :: "string \<times> int \<Rightarrow> string \<Rightarrow> fsys \<Rightarrow> (bool \<times> MemInfo) res" where
  "GetMemInfo_all garbage path s = GetMemInfo garbage path (- 1) s"

section \<open>Processes\<close>

definition pid_entry :: "string \<Rightarrow> string \<Rightarrow> fsys \<Rightarrow> string \<Rightarrow> (string \<times> int option) res" where
  "pid_entry task_name d_name s cur_task_name =
     (if 37 \<le> length d_name then Inl UB_Bounds
      else case read_file (''/proc/'' @ d_name @ ''/status'') s of
        None \<Rightarrow> Inr (cur_task_name, None)
      | Some fp \<Rightarrow>
          (case fgets 1023 fp of
             None \<Rightarrow> Inr (cur_task_name, None)
           | Some (buf, _) \<Rightarrow>
               res_bind (sscanf buf ''%*s %s'') (\<lambda>xs.
                 let cur = (case xs of S_str w # _ \<Rightarrow> w | _ \<Rightarrow> cur_task_name) in
                 if 50 \<le> length cur then Inl UB_Bounds
                 else if task_name = cur
                 then res_bind (sscanf d_name ''%d'') (\<lambda>ys. Inr (cur, Some (case ys of [S_int pid] \<Rightarrow> pid | _ \<Rightarrow> 0)))
                 else Inr (cur, None))))"

fun pid_loop :: "string \<Rightarrow> (string \<times> d_type) list \<Rightarrow> fsys \<Rightarrow> string \<Rightarrow> int res" where
  "pid_loop task_name [] s cur_task_name = Inr 0"
| "pid_loop task_name ((d_name, d_type) # dir) s cur_task_name =
     (if d_name = ''.'' \<or> d_name = ''..'' then pid_loop task_name dir s cur_task_name
      else if d_type \<noteq> DT_DIR then pid_loop task_name dir s cur_task_name
      else case pid_entry task_name d_name s cur_task_name of
             Inl e \<Rightarrow> Inl e
           | Inr (_, Some pid) \<Rightarrow> Inr pid
           | Inr (cur, None) \<Rightarrow> pid_loop task_name dir s cur)"

definition pid_by_process_name :: "string \<Rightarrow> string \<Rightarrow> fsys \<Rightarrow> int res" where
  "pid_by_process_name garbage task_name s =
     (case sys_opendir ''/proc'' s of
        (None, s1) \<Rightarrow> Inr 0
      | (Some dir, s1) \<Rightarrow> pid_loop task_name dir s1 garbage)"

definition print_int :: "int \<Rightarrow> string" where
  "print_int x = (if x < 0 then CHR ''-'' # print_num 10 (nat (- x)) else print_num 10 (nat x))"

abbreviation MAXPATHLEN :: nat where
  "MAXPATHLEN \<equiv> 4096"

definition Fd2Path :: "int \<Rightarrow> fsys \<Rightarrow> string res" where
  "Fd2Path fd s =
     (case sys_readlink (''/proc/self/fd/'' @ print_int fd) s of
        None \<Rightarrow> Inr []
      | Some l \<Rightarrow>
          let filePath = take MAXPATHLEN l; rdLen = length filePath in
          if MAXPATHLEN \<le> rdLen then Inl UB_Bounds else Inr (c_str filePath))"

definition GetCmdLine :: "int \<Rightarrow> fsys \<Rightarrow> string" where
  "GetCmdLine pid s =
     (case read_file (''/proc/'' @ print_int pid @ ''/cmdline'') s of
        None \<Rightarrow> []
      | Some file \<Rightarrow> (case fgets 255 file of None \<Rightarrow> [] | Some (buff, _) \<Rightarrow> c_str buff))"

text \<open>\<open>popen\<close> is the shell: the output of a command, or nothing when it cannot be started.\<close>

function run_cmd_loop :: "string \<Rightarrow> string \<Rightarrow> string" where
  "run_cmd_loop pf strResult =
     (case fgets 1024 pf of
        None \<Rightarrow> strResult
      | Some (buf, pf1) \<Rightarrow> run_cmd_loop pf1 (strResult @ c_str buf))"
  by pat_completeness auto
termination
  by (relation "measure (\<lambda>(pf, r). length pf)") (auto dest: fgets_shorter)

definition RunCmd :: "(string \<Rightarrow> string option) \<Rightarrow> string \<Rightarrow> string" where
  "RunCmd popen strCmd =
     (case popen strCmd of
        None \<Rightarrow> ''cant popen file '' @ strCmd
      | Some pf \<Rightarrow> run_cmd_loop pf [])"

section \<open>Copying a file\<close>

partial_function (option) copy_loop :: "string list \<Rightarrow> nat \<Rightarrow> string list \<Rightarrow> fsys \<Rightarrow> fsys option" where
  "copy_loop from_node pos to_node s =
     (let buff = take 4096 (drop pos (file_content s from_node)) in
      if buff = [] then Some s
      else copy_loop from_node (pos + length buff) to_node (file_append to_node buff s))"

text \<open>The results of \<open>fwrite\<close> and \<open>fclose\<close> are not looked at; here they do not fail.\<close>

definition copy_file :: "string \<Rightarrow> string \<Rightarrow> fsys \<Rightarrow> (bool \<times> fsys) option" where
  "copy_file from to s =
     (case open_read from s of
        None \<Rightarrow> Some (False, s)
      | Some p \<Rightarrow>
          (case open_write to (s\<lparr>fs_fds := fs_fds s - 1\<rparr>) of
             None \<Rightarrow> Some (False, s)
           | Some (q, s1) \<Rightarrow>
               (case copy_loop p 0 q s1 of
                  None \<Rightarrow> None
                | Some s2 \<Rightarrow> Some (True, s2\<lparr>fs_fds := fs_fds s\<rparr>))))"

declare maps_loop.simps [simp del] mounts_loop.simps [simp del] meminfo_loop.simps [simp del] run_cmd_loop.simps [simp del]

section \<open>Scanning what the kernel prints\<close>

lemma digits_no_space: "is_digit_of b c \<Longrightarrow> \<not> is_space c"
  by (auto simp: is_digit_of_def digit_val_def is_space_def Let_def split: if_splits)

lemma pad_num_no_space: "2 \<le> b \<Longrightarrow> b \<le> 16 \<Longrightarrow> dropWhile is_space (pad_num w b n @ r) = pad_num w b n @ r"
proof -
  assume b: "2 \<le> b" "b \<le> 16"
  obtain d ds where p: "pad_num w b n = d # ds" by (cases "pad_num w b n") auto
  then have "\<not> is_space d" using pad_num_digits [OF b, of d w n] digits_no_space by simp
  with p show ?thesis by simp
qed

text \<open>What may stand behind a printed number.\<close>

definition ends_number :: "nat \<Rightarrow> string \<Rightarrow> bool" where
  "ends_number b r \<longleftrightarrow> r = [] \<or> (\<not> is_digit_of b (hd r) \<and> hd r \<noteq> CHR ''x'' \<and> hd r \<noteq> CHR ''X'')"

lemma ends_number_simps [simp]:
  "ends_number b (CHR ''-'' # r)" "ends_number b (CHR '' '' # r)" "ends_number b (CHR '':'' # r)"
  "ends_number b (newline # r)" "ends_number b []"
  by (simp_all add: ends_number_def not_digits)

lemma scan_number:
  assumes "2 \<le> b" "b \<le> 16" "ends_number b r" "scan_object sg bits (int n) = Inr (int n)"
  shows "scan (D_num b sg bits # ds) pos (pad_num w b n @ r) =
    scan_cons (S_int (int n)) (scan ds (pos + length (pad_num w b n)) r)"
  using scan_pad_num [OF assms(1,2), of r w n] assms(3,4) pad_num_no_space [OF assms(1,2), of w n r]
  by (simp add: ends_number_def)

lemma scan_address:
  assumes "ends_number 16 r"
  shows "scan (D_num 16 False 64 # ds) pos (pad_num w 16 (unat (x :: 64 word)) @ r) =
    scan_cons (S_int (uint x)) (scan ds (pos + length (pad_num w 16 (unat x))) r)"
proof -
  have "scan_object False 64 (int (unat x)) = Inr (int (unat x))"
    using uint_bounded [of x] by (simp add: scan_object_def)
  from scan_number [OF _ _ assms this] show ?thesis by simp
qed

lemma scan_object_byte: "n < 256 \<Longrightarrow> scan_object False 8 (int n) = Inr (int n)"
  by (simp add: scan_object_def)

lemma scan_object_signed: "n < 2 ^ (bits - 1) \<Longrightarrow> scan_object True bits (int n) = Inr (int n)"
  by (simp add: scan_object_def) (smt (verit) of_nat_0_le_iff of_nat_less_numeral_power_cancel_iff zero_less_power)

lemma scan_chars: "length p = n \<Longrightarrow> scan (D_chars n # ds) pos (p @ r) = scan_cons (S_str p) (scan ds (pos + n) r)"
  by simp

lemma scan_word:
  assumes "w \<noteq> []" "\<forall>c\<in>set w. \<not> is_space c" "r = [] \<or> is_space (hd r)"
  shows "scan (D_word assigned # ds) pos (w @ r) =
    (if assigned then scan_cons (S_str w) else id) (scan ds (pos + length w) r)"
proof -
  obtain c cs where w: "w = c # cs" "\<not> is_space c" using assms(1,2) by (cases w) auto
  have "takeWhile (\<lambda>c. \<not> is_space c) r = []" using assms(3) by (cases r) auto
  then have "takeWhile (\<lambda>c. \<not> is_space c) (w @ r) = w"
    using assms(2) takeWhile_append2 [of w "\<lambda>c. \<not> is_space c" r] by simp
  moreover have "dropWhile is_space (w @ r) = w @ r" using w by simp
  ultimately show ?thesis using assms(1) by (simp add: Let_def)
qed

lemma drop_to_dropWhile: "drop (length s - length (dropWhile P s)) s = dropWhile P s"
proof -
  have "length s = length (takeWhile P s) + length (dropWhile P s)"
    by (metis length_append takeWhile_dropWhile_id)
  then show ?thesis by (simp add: dropWhile_eq_drop)
qed

lemma drop_behind: "drop (length h + (length t - length (dropWhile P t))) (h @ t) = dropWhile P t"
  by (simp add: drop_to_dropWhile)

section \<open>The memory map is read\<close>

text \<open>A line of \<open>/proc/self/maps\<close>, without its end.\<close>

definition map_head :: "MapsInfo \<Rightarrow> nat \<Rightarrow> nat \<Rightarrow> nat \<Rightarrow> string" where
  "map_head i major minor inode =
     pad_num 8 16 (unat (region_start i)) @ CHR ''-'' # pad_num 8 16 (unat (region_end i)) @ CHR '' '' #
     permissions i @ CHR '' '' # pad_num 8 16 (unat (region_offset i)) @ CHR '' '' #
     pad_num 2 16 major @ CHR '':'' # pad_num 2 16 minor @ CHR '' '' # pad_num 1 10 inode"

definition map_ok :: "MapsInfo \<Rightarrow> nat \<Rightarrow> nat \<Rightarrow> nat \<Rightarrow> bool" where
  "map_ok i major minor inode \<longleftrightarrow>
     length (permissions i) = 4 \<and> (\<forall>c\<in>set (permissions i). \<not> is_space c \<and> c \<noteq> NUL) \<and>
     major < 256 \<and> minor < 256 \<and> inode < 2 ^ 63"

lemma maps_directives:
  "scan_format maps_format =
     [D_num 16 False 64, D_lit CHR ''-'', D_num 16 False 64, D_space, D_chars 4, D_space, D_num 16 False 64, D_space,
      D_num 16 False 8, D_lit CHR '':'', D_num 16 False 8, D_space, D_num 10 True 64, D_space, D_pos]"
  by code_simp

lemma map_line_scanned:
  assumes "map_ok i major minor inode" "t = CHR '' '' # u"
  shows "scan (scan_format maps_format) 0 (map_head i major minor inode @ t) =
    Inr [S_int (uint (region_start i)), S_int (uint (region_end i)), S_str (permissions i),
      S_int (uint (region_offset i)), S_int (int major), S_int (int minor), S_int (int inode),
      S_pos (length (map_head i major minor inode) + (length t - length (dropWhile is_space t)))]"
proof -
  obtain c cs where p: "permissions i = c # cs" "\<not> is_space c" using assms(1) by (cases "permissions i") (auto simp: map_ok_def)
  have sp: "is_space CHR '' ''" by (simp add: is_space_def char_nat_def)
  have "dropWhile is_space (permissions i @ r) = permissions i @ r" for r using p by simp
  with assms sp show ?thesis
    by (simp add: maps_directives map_head_def map_ok_def scan_address scan_number scan_chars scan_object_byte scan_object_signed
      pad_num_no_space Let_def del: scan.simps(4-6))
qed

type_synonym map_entry = "MapsInfo \<times> nat \<times> nat \<times> nat \<times> nat"

definition map_text :: "map_entry \<Rightarrow> string" where
  "map_text e = (case e of (i, major, minor, inode, pad) \<Rightarrow>
     map_head i major minor inode @ CHR '' '' # replicate pad CHR '' '' @ mi_path i)"

definition map_entry_ok :: "map_entry \<Rightarrow> bool" where
  "map_entry_ok e = (case e of (i, major, minor, inode, pad) \<Rightarrow>
     map_ok i major minor inode \<and> plain_text (mi_path i) \<and>
     (mi_path i = [] \<or> \<not> is_space (hd (mi_path i))))"

definition kept_maps :: "(string \<Rightarrow> bool) \<Rightarrow> string \<Rightarrow> string \<Rightarrow> MapsInfo list \<Rightarrow> MapsInfo list" where
  "kept_maps matches libPath wantPerm infos =
     filter (\<lambda>i. (libPath = [] \<or> matches (mi_path i)) \<and> (wantPerm = [] \<or> wantPerm = permissions i)) infos"

lemma plain_map_head: "map_ok i major minor inode \<Longrightarrow> plain_text (map_head i major minor inode)"
proof -
  assume "map_ok i major minor inode"
  then have "\<forall>c\<in>set (permissions i). \<not> is_space c \<and> c \<noteq> NUL" unfolding map_ok_def by blast
  then have "plain_text (permissions i)" unfolding plain_text_def using is_space_simps(2) by blast
  then show ?thesis by (simp add: map_head_def plain_pad_num)
qed

lemma plain_map_text: "map_entry_ok e \<Longrightarrow> plain_text (map_text e)"
  by (simp add: map_text_def map_entry_ok_def plain_map_head split: prod.splits)

lemma map_line_read:
  assumes "map_ok i major minor inode" "plain_text path" "path = [] \<or> \<not> is_space (hd path)"
    "nl = [] \<or> nl = [newline]" "line = map_head i major minor inode @ CHR '' '' # replicate pad CHR '' '' @ path @ nl"
  shows "c_str line = line \<and> (\<exists>xs. sscanf line maps_format = Inr xs \<and> maps_entry line xs = Some (i\<lparr>mi_path := path\<rparr>))"
proof -
  let ?t = "CHR '' '' # replicate pad CHR '' '' @ path @ nl" and ?h = "map_head i major minor inode"
  have "NUL \<notin> set line" using plain_map_head [OF assms(1)] assms(2,4,5) by (auto simp: plain_text_def)
  then have c: "c_str line = line" by (rule c_str_id)
  have dr: "dropWhile is_space (replicate n CHR '' '' @ xs) = dropWhile is_space xs" for n xs by (induction n) auto
  have t: "dropWhile is_space ?t = (if path = [] then [] else path @ nl)"
    using assms(3,4) dr by (cases path) auto
  have "drop (length ?h + (length ?t - length (dropWhile is_space ?t))) line = dropWhile is_space ?t"
    unfolding assms(5) by (rule drop_behind)
  with t have d: "drop (length ?h + (length ?t - length (dropWhile is_space ?t))) line = (if path = [] then [] else path @ nl)" by simp
  have "sscanf line maps_format = Inr [S_int (uint (region_start i)), S_int (uint (region_end i)), S_str (permissions i),
      S_int (uint (region_offset i)), S_int (int major), S_int (int minor), S_int (int inode),
      S_pos (length ?h + (length ?t - length (dropWhile is_space ?t)))]" (is "_ = Inr ?xs")
    unfolding sscanf_def c unfolding assms(5) by (rule map_line_scanned [OF assms(1) refl])
  moreover have "c_str (permissions i) = permissions i" using assms(1) by (intro c_str_id) (auto simp: map_ok_def)
  moreover have "path \<noteq> [] \<Longrightarrow> last path \<noteq> newline" using assms(2) by (metis last_in_set plain_text_def)
  ultimately have "maps_entry line ?xs = Some (i\<lparr>mi_path := path\<rparr>)"
    using d assms(4) by (auto simp: maps_entry_def Let_def)
  with c \<open>sscanf line maps_format = _\<close> show ?thesis by blast
qed

lemma maps_loop_line:
  assumes "fgets LINE_MAX fp = Some (line, fp1)" "map_ok i major minor inode" "plain_text path"
    "path = [] \<or> \<not> is_space (hd path)" "nl = [] \<or> nl = [newline]" "length line < LINE_MAX"
    "line = map_head i major minor inode @ CHR '' '' # replicate pad CHR '' '' @ path @ nl"
  shows "maps_loop matches libPath wantPerm fp acc =
    maps_loop matches libPath wantPerm fp1 (acc @ kept_maps matches libPath wantPerm [i\<lparr>mi_path := path\<rparr>])"
proof -
  obtain xs where "c_str line = line" "sscanf line maps_format = Inr xs" "maps_entry line xs = Some (i\<lparr>mi_path := path\<rparr>)"
    using map_line_read [OF assms(2,3,4,5,7)] by blast
  with assms(1,6) show ?thesis by (subst maps_loop.simps) (auto simp: kept_maps_def Let_def)
qed

lemma maps_loop_lines:
  assumes "\<forall>e\<in>set es. map_entry_ok e \<and> length (map_text e) + 2 \<le> LINE_MAX"
  shows "maps_loop matches libPath wantPerm (text_lines (map map_text es) @ rest) acc =
    maps_loop matches libPath wantPerm rest (acc @ kept_maps matches libPath wantPerm (map fst es))"
  using assms
proof (induction es arbitrary: acc)
  case Nil
  then show ?case by (simp add: kept_maps_def)
next
  case (Cons e es)
  obtain i major minor inode pad where e: "e = (i, major, minor, inode, pad)" by (cases e)
  have ok: "map_entry_ok e" "length (map_text e) + 2 \<le> LINE_MAX" using Cons.prems by simp_all
  have "newline \<notin> set (map_text e)" using plain_map_text [OF ok(1)] by (simp add: plain_text_def)
  from fgets_line [OF this ok(2), of "text_lines (map map_text es) @ rest"]
  have "maps_loop matches libPath wantPerm (text_lines (map map_text (e # es)) @ rest) acc =
      maps_loop matches libPath wantPerm (text_lines (map map_text es) @ rest)
        (acc @ kept_maps matches libPath wantPerm [i\<lparr>mi_path := mi_path i\<rparr>])"
    using ok by (intro maps_loop_line [where nl = "[newline]" and path = "mi_path i" and pad = pad])
      (auto simp: map_text_def map_entry_ok_def e)
  with Cons e show ?case by (simp add: kept_maps_def)
qed

lemma module_base_least:
  "module_base_loop matches infos b = Min (insert b (region_start ` {i \<in> set infos. matches (mi_path i)}))"
proof (induction infos arbitrary: b)
  case (Cons i infos)
  let ?A = "region_start ` {j \<in> set infos. matches (mi_path j)}"
  have fin: "finite ?A" by simp
  have "{j \<in> set (i # infos). matches (mi_path j)} =
      (if matches (mi_path i) then insert i {j \<in> set infos. matches (mi_path j)} else {j \<in> set infos. matches (mi_path j)})" by auto
  moreover have "Min (insert b (insert c ?A)) = Min (insert (min b c) ?A)" for c
    using fin by (cases "?A = {}") (simp_all only: Min_insert finite.insertI min.assoc insert_not_empty Min_singleton simp_thms)
  moreover have "module_base_loop matches (i # infos) b =
      (if matches (mi_path i) then Min (insert (min b (region_start i)) ?A) else Min (insert b ?A))"
    using Cons.IH [of b] Cons.IH [of "min b (region_start i)"] by (auto simp: min_def not_less simp del: Min_insert Min_eq_iff)
  ultimately show ?case by (cases "matches (mi_path i)") (simp_all only: image_insert if_True if_False)
qed simp


text \<open>One region whose line does not fit into the buffer makes \<open>get_process_maps\<close> fail. The test for such a line
  compares its length with \<open>LINE_MAX\<close>, but \<open>fgets\<close> never stores more than \<open>LINE_MAX - 1\<close> characters: the line is not
  skipped but cut, its first part is taken for the whole region, and the rest, which starts in the middle of the
  path, is no region, so the call returns false and drops the regions behind.\<close>

theorem maps_long_line_fails:
  assumes "regex libPath = Some matches" "\<forall>e\<in>set es. map_entry_ok e \<and> length (map_text e) + 2 \<le> LINE_MAX"
    "read_file ''/proc/self/maps'' s = Some (text_lines (map map_text es) @ front @ CHR ''/'' # rest)"
    "map_ok i major minor inode" "front = map_head i major minor inode @ CHR '' '' # replicate pad CHR '' '' @ path"
    "plain_text path" "path \<noteq> []" "\<not> is_space (hd path)" "length front = LINE_MAX - 1"
  shows "get_process_maps regex libPath wantPerm s =
      Inr (False, kept_maps matches libPath wantPerm (map fst es @ [i\<lparr>mi_path := path\<rparr>])) \<and>
    fst (projr (maps_refresh regex libPath wantPerm s)) = - 1"
proof -
  let ?acc = "kept_maps matches libPath wantPerm (map fst es)"
  have pl: "plain_text front" using plain_map_head [OF assms(4)] assms(5,6) by simp
  then have "fgets LINE_MAX (front @ CHR ''/'' # rest) = Some (front, CHR ''/'' # rest)"
    using assms(5,9) by (intro fgets_part) (auto simp: plain_text_def)
  then have "maps_loop matches libPath wantPerm (front @ CHR ''/'' # rest) ?acc =
      maps_loop matches libPath wantPerm (CHR ''/'' # rest) (?acc @ kept_maps matches libPath wantPerm [i\<lparr>mi_path := path\<rparr>])"
    using assms(4-9) by (intro maps_loop_line [where nl = "[]"]) auto
  also have "\<dots> = Inr (False, ?acc @ kept_maps matches libPath wantPerm [i\<lparr>mi_path := path\<rparr>])"
  proof -
    obtain l r where f: "fgets LINE_MAX (CHR ''/'' # rest) = Some (CHR ''/'' # l, r)"
      using fgets_first [of LINE_MAX "CHR ''/''" rest] by auto
    have short: "length (CHR ''/'' # l) < LINE_MAX"
      using f read_line_length [of "LINE_MAX - 1" "CHR ''/'' # rest"] by (simp add: fgets_def)
    have "length (c_str (CHR ''/'' # l)) \<le> length (CHR ''/'' # l)" by (simp add: c_str_def length_takeWhile_le)
    with short have c: "length (c_str (CHR ''/'' # l)) \<noteq> LINE_MAX" by simp
    have "sscanf (CHR ''/'' # l) maps_format = Inr []"
      by (simp add: sscanf_def maps_directives c_str_def scan_num_def is_space_def char_nat_def is_digit_of_def digit_val_def)
    with f c show ?thesis by (subst maps_loop.simps) (simp add: maps_entry_def)
  qed
  finally have "get_process_maps regex libPath wantPerm s =
      Inr (False, kept_maps matches libPath wantPerm (map fst es @ [i\<lparr>mi_path := path\<rparr>]))"
    using maps_loop_lines [OF assms(2), of matches libPath wantPerm "front @ CHR ''/'' # rest" "[]"] assms(1,3)
    by (simp add: get_process_maps_def kept_maps_def)
  then show ?thesis by (simp add: maps_refresh_def)
qed

section \<open>The mount table is read\<close>

definition field_ok :: "string \<Rightarrow> bool" where
  "field_ok f \<longleftrightarrow> f \<noteq> [] \<and> (\<forall>c\<in>set f. \<not> is_space c \<and> c \<noteq> NUL)"

definition mount_text :: "string \<Rightarrow> string \<Rightarrow> string \<Rightarrow> string \<Rightarrow> nat \<Rightarrow> nat \<Rightarrow> string" where
  "mount_text fsname dir typ opts freq passno =
     fsname @ CHR '' '' # dir @ CHR '' '' # typ @ CHR '' '' # opts @ CHR '' '' # pad_num 1 10 freq @ CHR '' '' # pad_num 1 10 passno"

lemma mount_directives:
  "scan_format mount_format =
     [D_space, D_pos, D_word False, D_pos, D_space, D_pos, D_word False, D_pos, D_space, D_pos, D_word False, D_pos,
      D_space, D_pos, D_word False, D_pos, D_space, D_num 10 True 32, D_space, D_num 10 True 32]"
  by code_simp

lemma scan_field:
  "field_ok f \<Longrightarrow> r = [] \<or> is_space (hd r) \<Longrightarrow> scan (D_space # D_pos # D_word False # D_pos # ds) pos (CHR '' '' # f @ r) =
     scan_cons (S_pos (pos + 1)) (scan_cons (S_pos (pos + 1 + length f)) (scan ds (pos + 1 + length f) r))"
proof -
  assume f: "field_ok f" "r = [] \<or> is_space (hd r)"
  then have "dropWhile is_space (CHR '' '' # f @ r) = f @ r" by (cases f) (auto simp: field_ok_def)
  then show ?thesis using f scan_word [of f r False] by (simp add: field_ok_def Let_def del: scan.simps(4))
qed

lemma scan_first_field:
  "field_ok f \<Longrightarrow> r = [] \<or> is_space (hd r) \<Longrightarrow> scan (D_space # D_pos # D_word False # D_pos # ds) 0 (f @ r) =
     scan_cons (S_pos 0) (scan_cons (S_pos (length f)) (scan ds (length f) r))"
proof -
  assume f: "field_ok f" "r = [] \<or> is_space (hd r)"
  then have "dropWhile is_space (f @ r) = f @ r" by (cases f) (auto simp: field_ok_def)
  then show ?thesis using f scan_word [of f r False] by (simp add: field_ok_def Let_def del: scan.simps(4))
qed

text \<open>A text that starts with the fields of a mount, as far as they go, and what the directives make of it.\<close>

lemma scan_fields:
  assumes "field_ok fsname" "field_ok dir" "field_ok typ" "field_ok opts" "r = [] \<or> is_space (hd r)"
  shows "scan (scan_format mount_format) 0 (fsname @ CHR '' '' # dir @ CHR '' '' # typ @ CHR '' '' # opts @ r) =
    (let a = length fsname; b = a + 1 + length dir; c = b + 1 + length typ; d = c + 1 + length opts in
     case scan [D_space, D_num 10 True 32, D_space, D_num 10 True 32] d r of
       Inl e \<Rightarrow> Inl e
     | Inr xs \<Rightarrow> Inr ([S_pos 0, S_pos a, S_pos (a + 1), S_pos b, S_pos (b + 1), S_pos c, S_pos (c + 1), S_pos d] @ xs))"
  using assms by (simp add: mount_directives scan_field scan_first_field Let_def del: scan.simps(1-6) split: sum.splits)

lemma scan_mount_numbers:
  assumes "freq < 2 ^ 31" "passno < 2 ^ 31" "nl = [] \<or> nl = [newline]"
  shows "scan [D_space, D_num 10 True 32, D_space, D_num 10 True 32] pos
      (CHR '' '' # pad_num 1 10 freq @ CHR '' '' # pad_num 1 10 passno @ nl) = Inr [S_int (int freq), S_int (int passno)]"
proof -
  have "ends_number 10 nl" using assms(3) by auto
  then show ?thesis using assms(1,2)
    by (simp add: scan_number scan_object_signed pad_num_no_space Let_def del: scan.simps(4-6) One_nat_def)
qed

lemma c_str_cut: "NUL \<notin> set f \<Longrightarrow> c_str (f @ NUL # r) = f"
proof -
  assume "NUL \<notin> set f"
  then have "\<forall>c\<in>set f. c \<noteq> NUL" by auto
  then show ?thesis by (simp add: c_str_def takeWhile_append2)
qed

lemma mount_fields:
  assumes "NUL \<notin> set fsname" "NUL \<notin> set dir" "NUL \<notin> set typ" "NUL \<notin> set opts"
    "a = length fsname" "b = a + 1 + length dir" "c = b + 1 + length typ" "d = c + 1 + length opts"
  shows "mount_entry (fsname @ CHR '' '' # dir @ CHR '' '' # typ @ CHR '' '' # opts @ x # r)
      [S_pos 0, S_pos a, S_pos (a + 1), S_pos b, S_pos (b + 1), S_pos c, S_pos (c + 1), S_pos d, S_int i, S_int j] =
    Some \<lparr>mnt_fsname = fsname, mnt_dir = dir, mnt_type = typ, mnt_opts = opts, mnt_freq = i, mnt_passno = j\<rparr>"
proof -
  let ?b1 = "fsname @ NUL # dir @ CHR '' '' # typ @ CHR '' '' # opts @ x # r"
  let ?b2 = "fsname @ NUL # dir @ NUL # typ @ CHR '' '' # opts @ x # r"
  let ?b3 = "fsname @ NUL # dir @ NUL # typ @ NUL # opts @ x # r"
  let ?b4 = "fsname @ NUL # dir @ NUL # typ @ NUL # opts @ NUL # r"
  have "(fsname @ CHR '' '' # dir @ CHR '' '' # typ @ CHR '' '' # opts @ x # r)[a := NUL] = ?b1" "?b1[b := NUL] = ?b2"
    "?b2[c := NUL] = ?b3" "?b3[d := NUL] = ?b4"
    using assms(5-8) by (simp_all add: list_update_append)
  moreover have "drop 0 ?b1 = ?b1" "drop (a + 1) ?b2 = dir @ NUL # typ @ CHR '' '' # opts @ x # r"
    "drop (b + 1) ?b3 = typ @ NUL # opts @ x # r" "drop (c + 1) ?b4 = opts @ NUL # r"
    using assms(5-8) by (simp_all add: numeral_3_eq_3)
  ultimately show ?thesis using assms(1-4) by (simp add: mount_entry_def Let_def c_str_cut del: drop_append)
qed

definition mount_ok :: "MountInfo \<Rightarrow> bool" where
  "mount_ok m \<longleftrightarrow> field_ok (mnt_fsname m) \<and> field_ok (mnt_dir m) \<and> field_ok (mnt_type m) \<and> field_ok (mnt_opts m) \<and>
     0 \<le> mnt_freq m \<and> mnt_freq m < 2 ^ 31 \<and> 0 \<le> mnt_passno m \<and> mnt_passno m < 2 ^ 31"

definition mount_line_text :: "MountInfo \<Rightarrow> string" where
  "mount_line_text m = mount_text (mnt_fsname m) (mnt_dir m) (mnt_type m) (mnt_opts m) (nat (mnt_freq m)) (nat (mnt_passno m))"

lemma field_plain: "field_ok f \<Longrightarrow> plain_text f"
  unfolding field_ok_def plain_text_def using is_space_simps(2) by blast

lemma mount_line_plain: "mount_ok m \<Longrightarrow> plain_text (mount_line_text m)"
  by (simp add: mount_line_text_def mount_text_def mount_ok_def field_plain plain_pad_num)

lemma mounts_loop_line:
  assumes "mount_ok m" "length (mount_line_text m) + 2 \<le> 1024"
  shows "mounts_loop (mount_line_text m @ newline # r) acc = mounts_loop r (acc @ [m])"
proof -
  let ?l = "mount_line_text m"
  have pl: "plain_text ?l" by (rule mount_line_plain [OF assms(1)])
  then have f: "fgets 1024 (?l @ newline # r) = Some (?l @ [newline], r)"
    using assms(2) by (intro fgets_line) (auto simp: plain_text_def)
  have c: "c_str (?l @ [newline]) = ?l @ [newline]" by (rule c_str_id) (use pl in \<open>simp add: plain_text_def\<close>)
  have n: "nat (mnt_freq m) < 2 ^ 31" "nat (mnt_passno m) < 2 ^ 31" "int (nat (mnt_freq m)) = mnt_freq m"
    "int (nat (mnt_passno m)) = mnt_passno m"
    using assms(1) by (simp_all add: mount_ok_def nat_less_iff)
  define a where "a = length (mnt_fsname m)"
  define b where "b = a + 1 + length (mnt_dir m)"
  define e where "e = b + 1 + length (mnt_type m)"
  define d where "d = e + 1 + length (mnt_opts m)"
  let ?num = "CHR '' '' # pad_num 1 10 (nat (mnt_freq m)) @ CHR '' '' # pad_num 1 10 (nat (mnt_passno m)) @ [newline]"
  have lt: "?l @ [newline] = mnt_fsname m @ CHR '' '' # mnt_dir m @ CHR '' '' # mnt_type m @ CHR '' '' # mnt_opts m @ ?num"
    by (simp add: mount_line_text_def mount_text_def)
  have "sscanf (?l @ [newline]) mount_format =
      Inr [S_pos 0, S_pos a, S_pos (a + 1), S_pos b, S_pos (b + 1), S_pos e, S_pos (e + 1), S_pos d, S_int (mnt_freq m), S_int (mnt_passno m)]"
    unfolding sscanf_def c unfolding lt
    using assms(1) scan_fields [of "mnt_fsname m" "mnt_dir m" "mnt_type m" "mnt_opts m" ?num] scan_mount_numbers [OF n(1,2), of "[newline]" d] n(3,4)
    by (simp add: mount_ok_def Let_def a_def b_def e_def d_def del: scan.simps)
  moreover have "mount_entry (?l @ [newline])
      [S_pos 0, S_pos a, S_pos (a + 1), S_pos b, S_pos (b + 1), S_pos e, S_pos (e + 1), S_pos d, S_int (mnt_freq m), S_int (mnt_passno m)] = Some m"
    unfolding lt using assms(1) by (subst mount_fields) (auto simp: mount_ok_def field_ok_def a_def b_def e_def d_def)
  ultimately show ?thesis by (subst mounts_loop.simps) (simp add: f)
qed

lemma mounts_loop_lines:
  "\<forall>m\<in>set ms. mount_ok m \<and> length (mount_line_text m) + 2 \<le> 1024 \<Longrightarrow>
   mounts_loop (text_lines (map mount_line_text ms) @ r) acc = mounts_loop r (acc @ ms)"
  by (induction ms arbitrary: acc) (simp_all add: mounts_loop_line)

lemma mounts_loop_end [simp]: "mounts_loop [] acc = Inr acc"
  by (subst mounts_loop.simps) (simp add: fgets_def)

text \<open>\<open>get_mount_list\<close> reads the mount table as the kernel writes it: it appends the mounts of the file in order. A
  mount whose line does not fit into the buffer of 1024 bytes is left out without notice when the cut falls
  into its options, as the options of an overlay do: neither part of the line has all the fields.\<close>

theorem get_mount_list_reads:
  assumes "\<forall>m\<in>set (ms @ ms'). mount_ok m \<and> length (mount_line_text m) + 2 \<le> 1024" "mount_ok l"
    "length (mnt_fsname l) + length (mnt_dir l) + length (mnt_type l) + 3 < 1023"
    "1023 < length (mnt_fsname l) + length (mnt_dir l) + length (mnt_type l) + 3 + length (mnt_opts l)"
    "length (mount_line_text l) + 1 \<le> 1023 + 1023" "file = (case path of None \<Rightarrow> ''/proc/mounts'' | Some p \<Rightarrow> p)"
  shows "(read_file file s = Some (text_lines (map mount_line_text ms)) \<longrightarrow> get_mount_list path s ret = Inr (True, ret @ ms)) \<and>
    (read_file file s = Some (text_lines (map mount_line_text (ms @ l # ms'))) \<longrightarrow>
       get_mount_list path s ret = Inr (True, ret @ ms @ ms'))"
proof -
  let ?n = "1023 - (length (mnt_fsname l) + length (mnt_dir l) + length (mnt_type l) + 3)"
  define o1 where "o1 = take ?n (mnt_opts l)"
  define o2 where "o2 = drop ?n (mnt_opts l)"
  have opts: "mnt_opts l = o1 @ o2" by (simp add: o1_def o2_def)
  have ne: "o1 \<noteq> []" "o2 \<noteq> []" using assms(3,4) by (auto simp: o1_def o2_def)
  have fields: "field_ok (mnt_fsname l)" "field_ok (mnt_dir l)" "field_ok (mnt_type l)" "field_ok o1" "field_ok o2"
    using assms(2) ne opts by (auto simp: mount_ok_def field_ok_def)
  have n: "nat (mnt_freq l) < 2 ^ 31" "nat (mnt_passno l) < 2 ^ 31" using assms(2) by (simp_all add: mount_ok_def nat_less_iff)
  let ?front = "mnt_fsname l @ CHR '' '' # mnt_dir l @ CHR '' '' # mnt_type l @ CHR '' '' # o1"
  let ?freq = "pad_num 1 10 (nat (mnt_freq l))" and ?pass = "pad_num 1 10 (nat (mnt_passno l))"
  let ?tail = "o2 @ CHR '' '' # ?freq @ CHR '' '' # ?pass"
  have lt: "mount_line_text l = ?front @ ?tail" by (simp add: mount_line_text_def mount_text_def opts)
  have len: "length ?front = 1023" using assms(3,4) by (simp add: o1_def)
  have pl: "plain_text ?front" "plain_text ?tail" using mount_line_plain [OF assms(2)] unfolding lt by (simp_all add: plain_text_def)
  have part1: "mounts_loop (?front @ ?tail @ newline # r) acc = mounts_loop (?tail @ newline # r) acc" for r acc
  proof -
    have "fgets 1024 (?front @ ?tail @ newline # r) = Some (?front, ?tail @ newline # r)"
      using pl(1) len by (intro fgets_part) (auto simp: plain_text_def)
    moreover have "c_str ?front = ?front" using pl(1) by (intro c_str_id) (simp add: plain_text_def)
    then have "\<exists>xs. sscanf ?front mount_format = Inr xs \<and> mount_entry ?front xs = None"
      using scan_fields [OF fields(1-4), of "[]"] by (simp add: sscanf_def Let_def scan_num_def mount_entry_def)
    ultimately show ?thesis by (subst mounts_loop.simps) auto
  qed
  have part2: "mounts_loop (?tail @ newline # r) acc = mounts_loop r acc" for r acc
  proof -
    have "length ?tail + 2 \<le> 1024" using assms(5) len unfolding lt by simp
    then have "fgets 1024 (?tail @ newline # r) = Some (?tail @ [newline], r)"
      using pl(2) by (intro fgets_line) (auto simp: plain_text_def)
    moreover have "c_str (?tail @ [newline]) = ?tail @ [newline]" using pl(2) by (intro c_str_id) (simp add: plain_text_def)
    moreover have "field_ok (pad_num 1 10 k)" for k
      using pad_num_digits [of 10 _ 1 k] digits_no_space plain_pad_num [of 10 1 k] by (auto simp: field_ok_def plain_text_def)
    moreover have "scan [D_space, D_pos, D_word False, D_pos, D_space, D_num 10 True 32, D_space, D_num 10 True 32] pos [newline] =
        Inr [S_pos (pos + 1)]" for pos by (simp add: Let_def)
    ultimately show ?thesis using fields(5)
      by (subst mounts_loop.simps)
        (simp add: sscanf_def mount_directives scan_first_field scan_field mount_entry_def del: scan.simps One_nat_def)
  qed
  have "mounts_loop (text_lines (map mount_line_text (ms @ l # ms'))) ret =
      mounts_loop (?front @ ?tail @ newline # text_lines (map mount_line_text ms')) (ret @ ms)"
    using mounts_loop_lines [of ms "mount_line_text l @ newline # text_lines (map mount_line_text ms')" ret] assms(1)
    by (simp add: lt)
  also have "\<dots> = mounts_loop (text_lines (map mount_line_text ms')) (ret @ ms)" by (simp only: part1 part2)
  also have "\<dots> = Inr (ret @ ms @ ms')" using mounts_loop_lines [of ms' "[]" "ret @ ms"] assms(1) by simp
  finally have "mounts_loop (text_lines (map mount_line_text (ms @ l # ms'))) ret = Inr (ret @ ms @ ms')" .
  moreover have "mounts_loop (text_lines (map mount_line_text ms)) ret = Inr (ret @ ms)"
    using mounts_loop_lines [of ms "[]" ret] assms(1) by simp
  ultimately show ?thesis using assms(6) by (simp add: get_mount_list_def del: map_append)
qed

section \<open>Memory statistics are read\<close>

definition mem_text :: "string \<times> nat \<times> nat \<Rightarrow> string" where
  "mem_text e = (case e of (key, v, pad) \<Rightarrow> key @ CHR '' '' # replicate pad CHR '' '' @ pad_num 1 10 v @ '' kB'')"

definition mem_ok :: "string \<times> nat \<times> nat \<Rightarrow> bool" where
  "mem_ok e = (case e of (key, v, pad) \<Rightarrow> field_ok key \<and> length key < 20 \<and> v < 2 ^ 31 \<and> length (mem_text e) + 2 \<le> 128)"

text \<open>The name of a field: a key without its colon, parentheses turned into an underscore.\<close>

definition field_name :: "string \<Rightarrow> string" where
  "field_name key = map (\<lambda>c. if c = CHR ''('' then CHR ''_'' else c) (filter (\<lambda>c. c \<noteq> CHR '':'' \<and> c \<noteq> CHR '')'') key)"

definition mem_field :: "string \<Rightarrow> MemInfo \<Rightarrow> int" where
  "mem_field name m = m ! length (takeWhile (\<lambda>f. f \<noteq> name) MemInfo_fields)"

lemma mem_offsets:
  "list_all (\<lambda>(key, k). length (takeWhile (\<lambda>f. f \<noteq> field_name key) MemInfo_fields) = key_number k \<and> key_number k < 36) MemInfoOffset"
  by code_simp

lemma mem_offset_distinct: "distinct (map (\<lambda>(key, k). key_number k) MemInfoOffset)" "distinct (map fst MemInfoOffset)"
  by code_simp+

lemma mem_line_read:
  assumes "mem_ok (key, v, pad)"
  shows "meminfo_line (mem_text (key, v, pad) @ [newline]) (name, val, m) =
    Inr (key, int v, case map_of MemInfoOffset key of None \<Rightarrow> m | Some k \<Rightarrow> m[key_number k := int v])"
proof -
  have f: "field_ok key" "length key < 20" "v < 2 ^ 31" using assms by (simp_all add: mem_ok_def)
  have "plain_text (mem_text (key, v, pad))" using f(1) by (simp add: mem_text_def field_plain plain_pad_num)
  then have c: "c_str (mem_text (key, v, pad) @ [newline]) = mem_text (key, v, pad) @ [newline]"
    by (intro c_str_id) (simp add: plain_text_def)
  have "\<forall>c\<in>set key. \<not> is_space c" "key \<noteq> []" using f(1) by (auto simp: field_ok_def)
  then have w: "scan (D_word True # ds) pos (key @ CHR '' '' # r) = scan_cons (S_str key) (scan ds (pos + length key) (CHR '' '' # r))" for ds pos r
    using scan_word [of key "CHR '' '' # r" True] by simp
  have dr: "dropWhile is_space (replicate n CHR '' '' @ xs) = dropWhile is_space xs" for n xs by (induction n) auto
  have "scan_format ''%s%d'' = [D_word True, D_num 10 True 32]" by code_simp
  moreover have "scan [D_num 10 True 32] pos (CHR '' '' # replicate pad CHR '' '' @ pad_num 1 10 v @ '' kB'' @ [newline]) = Inr [S_int (int v)]" for pos
    using f(3) scan_pad_num [of 10 "'' kB'' @ [newline]" 1 v] pad_num_no_space [of 10 1 v "'' kB'' @ [newline]"]
    by (simp add: dr not_digits scan_object_signed del: One_nat_def)
  ultimately have "sscanf (mem_text (key, v, pad) @ [newline]) ''%s%d'' = Inr [S_str key, S_int (int v)]"
    unfolding sscanf_def c by (simp add: mem_text_def w del: scan.simps)
  with f(2) show ?thesis by (simp add: meminfo_line_def Let_def split: option.split)
qed

lemma meminfo_lines:
  assumes "\<forall>e\<in>set ls. mem_ok e" "int (length ls) < n"
  shows "\<exists>name val. meminfo_loop (text_lines (map mem_text ls)) n (name0, val0, m) =
    Inr (foldl (\<lambda>m (key, v, pad). case map_of MemInfoOffset key of None \<Rightarrow> m | Some k \<Rightarrow> m[key_number k := int v]) m ls)"
  using assms
proof (induction ls arbitrary: n name0 val0 m)
  case Nil
  then show ?case by (subst meminfo_loop.simps) (simp add: fgets_def)
next
  case (Cons e ls)
  obtain key v pad where e: "e = (key, v, pad)" by (cases e)
  have ok: "mem_ok (key, v, pad)" "length (mem_text e) + 2 \<le> 128" using Cons.prems(1) by (auto simp: e mem_ok_def)
  have "plain_text (mem_text e)" using ok(1) by (simp add: e mem_ok_def mem_text_def field_plain plain_pad_num)
  then have "fgets 128 (mem_text e @ newline # text_lines (map mem_text ls)) = Some (mem_text e @ [newline], text_lines (map mem_text ls))"
    using ok(2) by (intro fgets_line) (auto simp: plain_text_def)
  with Cons.prems have "meminfo_loop (text_lines (map mem_text (e # ls))) n (name0, val0, m) =
      meminfo_loop (text_lines (map mem_text ls)) (n - 1) (key, int v, case map_of MemInfoOffset key of None \<Rightarrow> m | Some k \<Rightarrow> m[key_number k := int v])"
    using mem_line_read [OF ok(1), of name0 val0 m] by (subst meminfo_loop.simps) (simp add: e)
  with Cons.IH [of "n - 1" key "int v"] Cons.prems show ?case by (simp add: e)
qed

lemma foldl_offsets:
  assumes "(key, k) \<in> set MemInfoOffset" "length m = 36" "distinct (map fst ls)"
  shows "foldl (\<lambda>m (key, v, pad :: nat). case map_of MemInfoOffset key of None \<Rightarrow> m | Some k \<Rightarrow> m[key_number k := int v]) m ls ! key_number k =
    (case map_of ls key of None \<Rightarrow> m ! key_number k | Some (v, _) \<Rightarrow> int v)"
  using assms(2,3)
proof (induction ls arbitrary: m)
  case (Cons e ls)
  obtain key' v pad where e: "e = (key', v, pad)" by (cases e)
  have lt: "key_number k < 36" using mem_offsets assms(1) by (auto simp: list_all_iff)
  have mo: "map_of MemInfoOffset key = Some k" using assms(1) mem_offset_distinct(2) by (rule map_of_is_SomeI [rotated])
  have inj: "key_number k' = key_number k \<longleftrightarrow> key' = key" if "map_of MemInfoOffset key' = Some k'" for k'
  proof -
    have "(key', k') \<in> set MemInfoOffset" using that by (rule map_of_SomeD)
    with mem_offset_distinct(1) assms(1) mo that show ?thesis
      by (fastforce simp: distinct_map inj_on_def)
  qed
  show ?case
  proof (cases "map_of MemInfoOffset key'")
    case None
    with mo have "key' \<noteq> key" by auto
    with None Cons show ?thesis by (simp add: e)
  next
    case (Some k')
    show ?thesis
    proof (cases "key' = key")
      case True
      have "map_of ls key = None" using Cons.prems(2) True by (auto simp: e map_of_eq_None_iff)
      with True Some mo Cons lt show ?thesis by (simp add: e)
    next
      case False
      with Some inj [OF Some] Cons lt show ?thesis by (cases "map_of ls key") (simp_all add: e)
    qed
  qed
qed simp

text \<open>\<open>GetMemInfo\<close> puts the value of every line of \<open>/proc/meminfo\<close> into the field that has the name of its key, and
  zero into the fields whose key is missing: the numbers of the enumeration, the table of keys and the order of the
  fields fit together. Keys it does not know are skipped.\<close>

theorem GetMemInfo_reads:
  assumes "read_file path s = Some (text_lines (map mem_text ls))" "\<forall>e\<in>set ls. mem_ok e" "distinct (map fst ls)" "length ls < 99999"
  shows "\<exists>m. GetMemInfo_all garbage path s = Inr (True, m) \<and> length m = 36 \<and>
    (\<forall>(key, k)\<in>set MemInfoOffset. mem_field (field_name key) m = (case map_of ls key of None \<Rightarrow> 0 | Some (v, _) \<Rightarrow> int v))"
proof -
  define m where "m = foldl (\<lambda>m (key, v, pad :: nat). case map_of MemInfoOffset key of None \<Rightarrow> m | Some k \<Rightarrow> m[key_number k := int v]) (replicate 36 0) ls"
  have "GetMemInfo_all garbage path s = Inr (True, m)"
    using meminfo_lines [OF assms(2), of 99999 "fst garbage" "snd garbage" "replicate 36 0"] assms(1,4)
    by (simp add: GetMemInfo_all_def GetMemInfo_def m_def Let_def)
  moreover have "length (foldl (\<lambda>m (key, v, pad :: nat). case map_of MemInfoOffset key of None \<Rightarrow> m | Some k \<Rightarrow> m[key_number k := int v]) n ls) = length n" for n
    by (induction ls arbitrary: n) (auto split: option.split)
  then have "length m = 36" by (simp add: m_def)
  moreover have "mem_field (field_name key) m = (case map_of ls key of None \<Rightarrow> 0 | Some (v, _) \<Rightarrow> int v)" if "(key, k) \<in> set MemInfoOffset" for key k
    using foldl_offsets [OF that _ assms(3), of "replicate 36 0"] mem_offsets that
    by (auto simp: m_def mem_field_def list_all_iff split: option.split)
  ultimately show ?thesis by auto
qed

section \<open>Files are copied\<close>

lemma file_not_above:
  assumes "node_at t p = Some u" "node_at t q = Some v" "p \<noteq> q" "\<not> is_dir u"
  shows "\<not> prefix p q"
proof
  assume "prefix p q"
  then obtain c r where "q = p @ c # r" using assms(3) by (metis append_Nil2 neq_Nil_conv prefixE)
  with node_at_inner [of t p c r v] assms(1,2,4) show False by auto
qed

lemma put_other:
  assumes "node_at t p = Some u" "node_at t q = Some v" "p \<noteq> q" "\<not> is_dir u" "\<not> is_dir v"
  shows "node_at (put_at q w t) p = Some u"
  using node_at_put_other [of q p w t] file_not_above [OF assms(1,2,3,4)] file_not_above [OF assms(2,1) _ assms(5)] assms(1,3)
  by metis

lemma copy_loop_copies:
  assumes "node_at (fs_root s) p = Some (File c)" "node_at (fs_root s) q = Some (File (take pos c))" "p \<noteq> q"
  shows "copy_loop p pos q s = Some (s\<lparr>fs_root := put_at q (Some (File c)) (fs_root s)\<rparr>) \<or>
    (length c \<le> pos \<and> copy_loop p pos q s = Some s)"
  using assms(1,2)
proof (induction "length c - pos" arbitrary: pos s rule: less_induct)
  case less
  show ?case
  proof (cases "length c \<le> pos")
    case True
    with less.prems show ?thesis by (subst copy_loop.simps) (simp add: file_content_def)
  next
    case False
    let ?b = "take 4096 (drop pos c)"
    let ?s = "s\<lparr>fs_root := put_at q (Some (File (take (pos + length ?b) c))) (fs_root s)\<rparr>"
    have tk: "take pos c @ ?b = take (pos + length ?b) c" by (simp add: take_add min_def)
    have "copy_loop p pos q s = copy_loop p (pos + length ?b) q ?s"
      using False less.prems tk by (subst copy_loop.simps) (simp add: file_content_def file_append_def Let_def)
    moreover have "node_at (fs_root ?s) p = Some (File c)" using put_other [OF less.prems assms(3)] by simp
    moreover have "node_at (fs_root ?s) q = Some (File (take (pos + length ?b) c))" using node_at_put [OF less.prems(2)] by simp
    moreover have "length c - (pos + length ?b) < length c - pos" using False by simp
    ultimately have "copy_loop p pos q s = Some (?s\<lparr>fs_root := put_at q (Some (File c)) (fs_root ?s)\<rparr>) \<or>
        (length c \<le> pos + length ?b \<and> copy_loop p pos q s = Some ?s)" using less.hyps by metis
    moreover have "put_at q (Some (File c)) (fs_root ?s) = put_at q (Some (File c)) (fs_root s)"
      using put_put [OF less.prems(2), of "Some (File c)"] by simp
    ultimately show ?thesis by auto
  qed
qed

lemma copy_loop_all:
  assumes "node_at (fs_root s) p = Some (File c)" "node_at (fs_root s) q = Some (File [])" "p \<noteq> q"
  shows "copy_loop p 0 q s = Some (s\<lparr>fs_root := put_at q (Some (File c)) (fs_root s)\<rparr>) \<or>
    (c = [] \<and> copy_loop p 0 q s = Some s)"
  using copy_loop_copies [OF assms(1) _ assms(3), of 0] assms(2) by simp

text \<open>The node a file is written to, in a directory, and the nodes beside it.\<close>

lemma put_twice:
  assumes "node_at t d = Some (Dir es)"
  shows "put_at (d @ [n]) (Some v) (put_at (d @ [n]) (Some u) t) = put_at (d @ [n]) (Some v) t"
    "node_at (put_at (d @ [n]) (Some u) t) (d @ [n]) = Some u"
proof -
  let ?t = "put_at d (Some (Dir (set_entry n (Some u) es))) t"
  have t: "put_at (d @ [n]) w t = put_at d (Some (Dir (set_entry n w es))) t" for w by (rule put_in [OF assms])
  have "node_at ?t d = Some (Dir (set_entry n (Some u) es))" by (rule node_at_put [OF assms])
  from put_in [OF this, of n "Some v"] put_put [OF assms] this
  show "put_at (d @ [n]) (Some v) (put_at (d @ [n]) (Some u) t) = put_at (d @ [n]) (Some v) t"
    "node_at (put_at (d @ [n]) (Some u) t) (d @ [n]) = Some u"
    unfolding t by (simp_all add: node_at_append)
qed

lemma put_file_beside:
  assumes "node_at t p = Some (File c)" "node_at t d = Some (Dir es)" "p \<noteq> d @ [n]" "\<nexists>fs. map_of es n = Some (Dir fs)"
  shows "node_at (put_at (d @ [n]) w t) p = Some (File c)"
proof -
  have "\<not> prefix p d" using file_not_above [OF assms(1,2)] assms(1,2) by (cases "p = d") auto
  then have "\<not> prefix p (d @ [n])" using assms(3) by simp
  moreover have "\<not> prefix (d @ [n]) p"
  proof
    assume "prefix (d @ [n]) p"
    then obtain e r where p: "p = (d @ [n]) @ e # r" using assms(3) by (metis append_Nil2 neq_Nil_conv prefixE)
    have "node_at t ((d @ [n]) @ e # r) = Some (File c)" using assms(1) p by simp
    from node_at_inner [OF this] assms(2,4) show False by (auto simp: node_at_append split: option.splits)
  qed
  ultimately show ?thesis using node_at_put_other [of "d @ [n]" p w t] assms(1) by metis
qed

text \<open>\<open>copy_file\<close> leaves the bytes of the source in the target, which it creates or overwrites, and changes nothing
  else, for files of every length. When source and target are the same file its content is lost, and the call
  returns true: the target is emptied before the source is read.\<close>

theorem copy_file_copies:
  assumes "plain_at s from p" "path_core from = split_slash from" "node_at (fs_root s) p = Some (File c)"
    "plain_at s to (d @ [n])" "path_core to = split_slash to" "node_at (fs_root s) d = Some (Dir es)"
    "map_of es n = None \<or> (\<exists>old. map_of es n = Some (File old))"
    "\<not> fs_refused s Call_read p" "\<not> fs_refused s Call_write (d @ [n])" "2 \<le> fs_fds s"
  shows "copy_file from to s = Some (True, s\<lparr>fs_root :=
    put_at (d @ [n]) (Some (File (if p = d @ [n] then [] else c))) (fs_root s)\<rparr>)"
proof -
  let ?q = "d @ [n]"
  let ?s = "s\<lparr>fs_fds := fs_fds s - 1\<rparr>"
  let ?s1 = "?s\<lparr>fs_root := put_at ?q (Some (File [])) (fs_root s)\<rparr>"
  obtain pd pn pes where pp: "p = pd @ [pn]" "node_at (fs_root s) pd = Some (Dir pes)"
    using plain_entry [OF assms(1)] by blast
  then have "map_of pes pn = Some (File c)" using assms(3) by (simp add: node_at_append split: option.splits)
  with plain_resolve_name(1) [OF assms(1,2) pp] have "resolve s from = Inr p" by (simp add: step_to_def pp(1))
  then have rd: "open_read from s = Some p" using assms(3,8,10) by (simp add: open_read_def)
  have nl: "\<nexists>l. map_of es n = Some (Link l)" using assms(7) by auto
  have "plain_at ?s to ?q" "node_at (fs_root ?s) d = Some (Dir es)" using assms(4,6) by simp_all
  note to = plain_resolve_name [OF this(1) assms(5) refl this(2) nl]
  have wr: "open_write to ?s = Some (?q, ?s1)"
    using to assms(6,7,9,10) by (auto simp: open_write_def step_to_def node_at_append)
  have "copy_loop p 0 ?q ?s1 = Some (?s1\<lparr>fs_root := put_at ?q (Some (File (if p = ?q then [] else c))) (fs_root s)\<rparr>)"
  proof (cases "p = ?q")
    case True
    with put_twice(2) [OF assms(6)] show ?thesis by (subst copy_loop.simps) (simp add: file_content_def)
  next
    case False
    have "node_at (fs_root ?s1) p = Some (File c)" using put_file_beside [OF assms(3,6) False] assms(7) by auto
    moreover have "node_at (fs_root ?s1) ?q = Some (File [])" using put_twice(2) [OF assms(6)] by simp
    ultimately show ?thesis using copy_loop_all [OF _ _ False, of ?s1 c] put_twice(1) [OF assms(6)] False by auto
  qed
  with rd wr assms(10) show ?thesis by (simp add: copy_file_def)
qed

section \<open>Processes and commands\<close>

definition status_file :: "string \<Rightarrow> string" where
  "status_file d_name = ''/proc/'' @ d_name @ ''/status''"

definition has_name :: "fsys \<Rightarrow> string \<Rightarrow> string \<Rightarrow> bool" where
  "has_name s d_name task \<longleftrightarrow> field_ok task \<and> length task < 50 \<and>
     (\<exists>rest. read_file (status_file d_name) s = Some (''Name:'' @ CHR 0x09 # task @ newline # rest))"

lemma pid_entry_name:
  assumes "length d_name < 37" "has_name s d_name nm"
  shows "pid_entry task d_name s cur = (if task = nm
    then res_bind (sscanf d_name ''%d'') (\<lambda>ys. Inr (nm, Some (case ys of [S_int pid] \<Rightarrow> pid | _ \<Rightarrow> 0)))
    else Inr (nm, None))"
proof -
  from assms(2) obtain rest where nm: "field_ok nm" "length nm < 50"
    and rd: "read_file (status_file d_name) s = Some (''Name:'' @ CHR 0x09 # nm @ newline # rest)" by (auto simp: has_name_def)
  let ?l = "''Name:'' @ CHR 0x09 # nm"
  have pl: "plain_text ?l" using field_plain [OF nm(1)] by simp
  then have "fgets 1023 (?l @ newline # rest) = Some (?l @ [newline], rest)"
    using nm(2) by (intro fgets_line) (auto simp: plain_text_def)
  moreover have "c_str (?l @ [newline]) = ?l @ [newline]" using pl by (intro c_str_id) (simp add: plain_text_def)
  moreover have "sscanf (?l @ [newline]) ''%*s %s'' = Inr [S_str nm]" if "c_str (?l @ [newline]) = ?l @ [newline]"
  proof -
    have "scan_format ''%*s %s'' = [D_word False, D_space, D_word True]" by code_simp
    moreover have "\<forall>c\<in>set ''Name:''. \<not> is_space c" by (simp add: is_space_def char_nat_def)
    then have "scan [D_word False, D_space, D_word True] 0 (''Name:'' @ CHR 0x09 # nm @ [newline]) = scan [D_space, D_word True] (Suc (Suc (Suc (Suc (Suc 0))))) (CHR 0x09 # nm @ [newline])"
      using scan_word [of "''Name:''" "CHR 0x09 # nm @ [newline]" False "[D_space, D_word True]" 0] by (simp add: is_space_def char_nat_def del: scan.simps)
    moreover have "dropWhile is_space (CHR 0x09 # nm @ [newline]) = nm @ [newline]"
      using nm(1) by (cases nm) (auto simp: field_ok_def is_space_def char_nat_def)
    moreover have "scan [D_word True] pos (nm @ [newline]) = Inr [S_str nm]" for pos
      using scan_word [of nm "[newline]" True "[]" pos] nm(1) by (simp add: field_ok_def del: scan.simps(4))
    ultimately have "scan (scan_format ''%*s %s'') 0 (''Name:'' @ CHR 0x09 # nm @ [newline]) = Inr [S_str nm]"
      by (simp add: Let_def del: scan.simps(4) append.simps)
    then show ?thesis unfolding sscanf_def that by simp
  qed
  ultimately show ?thesis using assms(1) nm(2) rd by (simp add: pid_entry_def status_file_def Let_def)
qed

text \<open>\<open>pid_by_process_name\<close> returns the number of the first directory of \<open>/proc\<close> whose status names the process, 0
  when there is none, whatever the uninitialised buffer of the name held.\<close>

theorem pid_by_process_name_finds:
  assumes "sys_opendir ''/proc'' s = (Some dir, s1)" "field_ok task"
    "\<forall>(d, t)\<in>set dir. t = DT_DIR \<and> d \<noteq> ''.'' \<and> d \<noteq> ''..'' \<longrightarrow> (\<exists>pid nm. d = pad_num 1 10 pid \<and> pid < 2 ^ 31 \<and> has_name s1 d nm)"
  shows "pid_by_process_name garbage task s =
    (case find (\<lambda>(d, t). t = DT_DIR \<and> d \<noteq> ''.'' \<and> d \<noteq> ''..'' \<and> has_name s1 d task) dir of
       None \<Rightarrow> Inr 0
     | Some (d, _) \<Rightarrow> Inr (int (value_of 10 d)))"
proof -
  have short: "length (pad_num 1 10 pid) < 37" if "pid < 2 ^ 31" for pid
  proof -
    have "length (print_num 10 k) \<le> m" if "k < 10 ^ m" "0 < m" for k m
      using that
    proof (induction m arbitrary: k)
      case (Suc m)
      show ?case
      proof (cases "k < 10")
        case False
        with Suc.prems have "m \<noteq> 0" by (cases m) simp_all
        moreover have "k div 10 < 10 ^ m" using Suc.prems(1) by (simp add: less_mult_imp_div_less mult.commute)
        ultimately show ?thesis using Suc.IH [of "k div 10"] False by (subst print_num.simps) simp
      qed (subst print_num.simps, simp)
    qed simp
    from this [of pid 10] that show ?thesis by (simp add: pad_num_def)
  qed
  have number: "res_bind (sscanf (pad_num 1 10 pid) ''%d'') (\<lambda>ys. Inr (nm, Some (case ys of [S_int p] \<Rightarrow> p | _ \<Rightarrow> 0))) = Inr (nm, Some (int pid))"
    if "pid < 2 ^ 31" for pid and nm :: string
  proof -
    have "scan_format ''%d'' = [D_num 10 True 32]" by code_simp
    moreover have "c_str (pad_num 1 10 pid) = pad_num 1 10 pid" using plain_pad_num [of 10 1 pid] by (intro c_str_id) (simp add: plain_text_def)
    ultimately show ?thesis using scan_number [of 10 "[]" True 32 pid "[]" 0 1] that
      by (simp add: sscanf_def scan_object_signed del: One_nat_def scan.simps(6))
  qed
  have same: "nm = nm'" if "has_name s1 d nm" "has_name s1 d nm'" for d nm nm'
  proof -
    have tw: "newline \<notin> set x \<Longrightarrow> takeWhile (\<lambda>c. c \<noteq> newline) (x @ newline # r) = x" for x r by (induction x) auto
    have nl: "newline \<notin> set nm" "newline \<notin> set nm'" using that field_plain by (auto simp: has_name_def plain_text_def)
    have "\<exists>r r'. nm @ newline # r = nm' @ newline # r'" using that by (auto simp: has_name_def) metis
    then obtain r r' where "nm @ newline # r = nm' @ newline # r'" by blast
    from arg_cong [OF this, of "takeWhile (\<lambda>c. c \<noteq> newline)"] show ?thesis by (simp only: tw [OF nl(1)] tw [OF nl(2)])
  qed
  have "pid_loop task dir s1 cur =
    (case find (\<lambda>(d, t). t = DT_DIR \<and> d \<noteq> ''.'' \<and> d \<noteq> ''..'' \<and> has_name s1 d task) dir of
       None \<Rightarrow> Inr 0
     | Some (d, _) \<Rightarrow> Inr (int (value_of 10 d)))" for cur
    using assms(3)
  proof (induction dir arbitrary: cur)
    case (Cons e dir)
    obtain d t where e: "e = (d, t)" by (cases e)
    show ?case
    proof (cases "t = DT_DIR \<and> d \<noteq> ''.'' \<and> d \<noteq> ''..''")
      case True
      with Cons.prems e obtain pid nm where p: "d = pad_num 1 10 pid" "pid < 2 ^ 31" "has_name s1 d nm" by auto
      note en = pid_entry_name [OF _ p(3), of task cur] number [OF p(2), of nm]
      show ?thesis
      proof (cases "task = nm")
        case True
        with \<open>t = DT_DIR \<and> _\<close> e p en short [OF p(2)] show ?thesis by (simp add: pad_num_value del: One_nat_def)
      next
        case False
        then have "\<not> has_name s1 d task" using same p(3) by blast
        with \<open>t = DT_DIR \<and> _\<close> e p en short [OF p(2)] False Cons show ?thesis by (simp del: One_nat_def)
      qed
    next
      case False
      with Cons e show ?thesis by auto
    qed
  qed simp
  with assms(1) show ?thesis by (simp add: pid_by_process_name_def)
qed

lemma run_cmd_loop_all: "NUL \<notin> set out \<Longrightarrow> run_cmd_loop out acc = acc @ out"
proof (induction out acc rule: run_cmd_loop.induct)
  case (1 out acc)
  show ?case
  proof (cases "fgets 1024 out")
    case None
    then show ?thesis by (subst run_cmd_loop.simps) (simp add: fgets_def split: if_splits)
  next
    case (Some lr)
    then obtain l r where lr: "lr = (l, r)" "out = l @ r" using read_line_append by (cases lr) (auto simp: fgets_def split: if_splits)
    with "1.prems" have "c_str l = l" "NUL \<notin> set r" by (auto intro: c_str_id)
    with "1.IH" [OF Some [unfolded lr(1)] refl] lr Some show ?thesis by (subst run_cmd_loop.simps) simp
  qed
qed

text \<open>\<open>RunCmd\<close> returns the whole output of a command, whatever its lines are, as long as it holds no NUL.\<close>

theorem RunCmd_output:
  assumes "popen cmd = Some out" "NUL \<notin> set out"
  shows "RunCmd popen cmd = out"
  using assms by (simp add: RunCmd_def run_cmd_loop_all)

text \<open>\<open>Fd2Path\<close> returns the target of the link of a descriptor when it is shorter than \<open>MAXPATHLEN\<close>, and writes behind
  its buffer when it is not: \<open>readlink\<close> may fill the buffer, and the terminating NUL has no room.\<close>

theorem Fd2Path_bounds:
  assumes "sys_readlink (''/proc/self/fd/'' @ print_int fd) s = Some l" "NUL \<notin> set l"
  shows "Fd2Path fd s = (if length l < MAXPATHLEN then Inr l else Inl UB_Bounds)"
  using assms by (auto simp: Fd2Path_def Let_def c_str_id)

section \<open>Witnesses\<close>

definition demo_proc :: "string \<Rightarrow> string \<Rightarrow> string \<Rightarrow> fsys" where
  "demo_proc maps mounts meminfo =
     \<lparr>fs_root = Dir [(''proc'', Dir [(''self'', Dir [(''maps'', File maps)]), (''mounts'', File mounts), (''meminfo'', File meminfo),
         (''7'', Dir [(''status'', File (''Name:'' @ [CHR 0x09] @ ''init'' @ [newline]))])])],
       fs_cwd = [], fs_fds = 4, fs_refused = \<lambda>_ _. False\<rparr>"

lemma demo_proc_reads:
  "read_file ''/proc/self/maps'' (demo_proc maps mounts meminfo) = Some maps"
  "read_file ''/proc/mounts'' (demo_proc maps mounts meminfo) = Some mounts"
  "read_file ''/proc/meminfo'' (demo_proc maps mounts meminfo) = Some meminfo"
  by (simp_all add: read_file_def resolve_def path_start_def demo_proc_def)

definition demo_libc :: "64 word \<Rightarrow> string \<Rightarrow> MapsInfo" where
  "demo_libc a perm = \<lparr>region_start = a, region_end = a + 0x1000, region_offset = 0, permissions = perm, mi_path = ''/libc.so''\<rparr>"

definition demo_regions :: "map_entry list" where
  "demo_regions = [(demo_libc 0x7000 ''r-xp'', 253, 5, 1234, 20), (demo_libc 0x8000 ''rw-p'', 253, 5, 1234, 20),
     ((demo_libc 0xFF000 ''rw-p'')\<lparr>mi_path := []\<rparr>, 0, 0, 0, 0)]"

lemma demo_libc_ok:
  "map_ok (demo_libc a ''r-xp'') 253 5 1234" "map_ok (demo_libc a ''rw-p'') 253 5 1234"
  "map_ok ((demo_libc a ''rw-p'')\<lparr>mi_path := []\<rparr>) 0 0 0"
  by (simp_all add: demo_libc_def map_ok_def is_space_def char_nat_def)

lemma demo_head_length:
  "length (map_head (demo_libc 0x7000 ''r-xp'') 253 5 1234) = 42" "length (map_head (demo_libc 0x8000 ''rw-p'') 253 5 1234) = 42"
  "length (map_head ((demo_libc 0xFF000 ''rw-p'')\<lparr>mi_path := []\<rparr>) 0 0 0) = 39"
  by (simp_all add: demo_libc_def map_head_def pad_num_def print_num.simps)

lemma demo_regions_ok: "\<forall>e\<in>set demo_regions. map_entry_ok e \<and> length (map_text e) + 2 \<le> LINE_MAX"
  by (simp add: demo_regions_def map_entry_ok_def map_text_def demo_libc_ok demo_head_length)
    (simp add: demo_libc_def is_space_def char_nat_def)


definition demo_long :: MapsInfo where
  "demo_long = \<lparr>region_start = 0x7000, region_end = 0x8000, region_offset = 0, permissions = ''r-xp'', mi_path = ''''\<rparr>"

lemma demo_long_head: "map_ok demo_long 253 5 1 \<and> length (map_head demo_long 253 5 1) = 39"
  by (simp add: demo_long_def map_ok_def map_head_def pad_num_def print_num.simps is_space_def char_nat_def)

lemma plain_replicate [simp]: "plain_text (replicate n c) \<longleftrightarrow> n = 0 \<or> c \<noteq> NUL \<and> c \<noteq> newline"
  by (auto simp: plain_text_def)

lemma maps_long_line_fails_witness:
  "let front = map_head demo_long 253 5 1 @ '' '' @ CHR ''/'' # replicate 2006 CHR ''a'';
       s = demo_proc (front @ ''/more/of/the/path'' @ [newline]) [] []
   in fst (projr (maps_refresh (\<lambda>p. Some (\<lambda>t. True)) [] [] s)) = - 1"
  using maps_long_line_fails [where regex = "\<lambda>p. Some (\<lambda>t. True)" and es = "[]" and i = demo_long and major = 253 and minor = 5
      and inode = 1 and pad = 0 and path = "CHR ''/'' # replicate 2006 CHR ''a''" and rest = "''more/of/the/path'' @ [newline]"
      and libPath = "[]" and wantPerm = "[]", OF refl _ _ _ refl]
    demo_long_head demo_proc_reads(1)
  by (simp add: Let_def is_space_def char_nat_def del: replicate.simps)

definition demo_mount :: "string \<Rightarrow> MountInfo" where
  "demo_mount opts = \<lparr>mnt_fsname = ''overlay'', mnt_dir = ''/data'', mnt_type = ''overlay'', mnt_opts = opts, mnt_freq = 0, mnt_passno = 0\<rparr>"

lemma demo_field: "field_ok (replicate (Suc n) CHR ''x'')" "field_ok ''overlay''" "field_ok ''/data''" "field_ok ''rw''"
  by (simp_all add: field_ok_def is_space_def char_nat_def)

lemma print_num_0: "pad_num 1 10 0 = ''0''"
  by code_simp

lemma get_mount_list_reads_witness:
  "get_mount_list None (demo_proc [] (text_lines (map mount_line_text [demo_mount ''rw'', demo_mount (replicate (Suc 1200) CHR ''x''), demo_mount ''rw''])) []) [] =
     Inr (True, [demo_mount ''rw'', demo_mount ''rw''])"
proof -
  have m: "mount_ok (demo_mount ''rw'')" "mount_ok (demo_mount (replicate (Suc 1200) CHR ''x''))"
    using demo_field(2-4) demo_field(1) [of 1200] by (simp_all only: mount_ok_def demo_mount_def MountInfo.simps) simp_all
  have "length (mount_line_text (demo_mount opts)) = length opts + 26" for opts
    by (simp add: mount_line_text_def mount_text_def demo_mount_def print_num_0 del: One_nat_def)
  with m get_mount_list_reads [of "[demo_mount ''rw'']" "[demo_mount ''rw'']" "demo_mount (replicate (Suc 1200) CHR ''x'')" "''/proc/mounts''" None]
  show ?thesis by (simp add: demo_proc_reads demo_mount_def del: replicate.simps)
qed

lemma GetMemInfo_reads_witness:
  "\<exists>m. GetMemInfo_all ([], 77) ''/proc/meminfo'' (demo_proc [] [] (text_lines (map mem_text [(''MemTotal:'', 3000, 7), (''Unknown:'', 5, 3), (''Active(anon):'', 12, 4)]))) = Inr (True, m) \<and>
     mem_field ''MemTotal'' m = 3000 \<and> mem_field ''Active_anon'' m = 12 \<and> mem_field ''Dirty'' m = 0"
proof -
  let ?ls = "[(''MemTotal:'', 3000, 7), (''Unknown:'', 5, 3), (''Active(anon):'', 12, 4)] :: (string \<times> nat \<times> nat) list"
  have "\<forall>e\<in>set ?ls. mem_ok e" "distinct (map fst ?ls)"
    by (simp_all add: mem_ok_def field_ok_def mem_text_def pad_num_def print_num.simps is_space_def char_nat_def)
  from GetMemInfo_reads [OF demo_proc_reads(3) this] obtain m where
    m: "GetMemInfo_all ([], 77) ''/proc/meminfo'' (demo_proc [] [] (text_lines (map mem_text ?ls))) = Inr (True, m)"
    "\<forall>(key, k)\<in>set MemInfoOffset. mem_field (field_name key) m = (case map_of ?ls key of None \<Rightarrow> 0 | Some (v, _) \<Rightarrow> int v)"
    by fastforce
  have "(''MemTotal:'', K_MemTotal) \<in> set MemInfoOffset" "(''Active(anon):'', K_Active_anon) \<in> set MemInfoOffset" "(''Dirty:'', K_Dirty) \<in> set MemInfoOffset"
    by (simp_all add: MemInfoOffset_def)
  from bspec [OF m(2) this(1)] bspec [OF m(2) this(2)] bspec [OF m(2) this(3)] m(1) show ?thesis
    by (auto simp: field_name_def)
qed

lemma copy_file_copies_witness:
  "copy_file ''/mounts'' ''/mounts'' (\<lparr>fs_root = Dir [(''mounts'', File ''abc'')], fs_cwd = [], fs_fds = 4, fs_refused = \<lambda>_ _. False\<rparr>) =
     Some (True, \<lparr>fs_root = Dir [(''mounts'', File '''')], fs_cwd = [], fs_fds = 4, fs_refused = \<lambda>_ _. False\<rparr>) \<and>
   copy_file ''/mounts'' ''/new'' (\<lparr>fs_root = Dir [(''mounts'', File ''abc'')], fs_cwd = [], fs_fds = 4, fs_refused = \<lambda>_ _. False\<rparr>) =
     Some (True, \<lparr>fs_root = Dir [(''mounts'', File ''abc''), (''new'', File ''abc'')], fs_cwd = [], fs_fds = 4, fs_refused = \<lambda>_ _. False\<rparr>)"
proof -
  let ?s = "\<lparr>fs_root = Dir [(''mounts'', File ''abc'')], fs_cwd = [], fs_fds = 4, fs_refused = \<lambda>_ _. False\<rparr>"
  have pl: "plain_at ?s ''/mounts'' [''mounts'']" "plain_at ?s ''/mounts'' ([] @ [''mounts''])" "plain_at ?s ''/new'' ([] @ [''new''])"
    by (auto simp: plain_at_def path_core_def path_start_def path_names_def dirs_above_def strict_prefix_def prefix_Cons)
  show ?thesis
    using copy_file_copies [OF pl(1) _ _ pl(2), of "''abc''" "[(''mounts'', File ''abc'')]"]
      copy_file_copies [OF pl(1) _ _ pl(3), of "''abc''" "[(''mounts'', File ''abc'')]"]
    by (simp add: path_core_def set_entry_def)
qed

end
