(* ===== verification/Packages.thy ===== *)
theory Packages
  imports StringUtils Stdio
begin

text \<open>
  The functions of \<open>utils/utils.cpp\<close> that read \<open>/data/system/packages.list\<close>: the traversal of its lines with a
  callback, which splits them with \<open>string_split\<close>, and the look-ups built on it.
\<close>

section \<open>Operations\<close>

definition ReadFile_text :: "string \<Rightarrow> fsys \<Rightarrow> string" where
  "ReadFile_text path s = (case read_file path s of None \<Rightarrow> [] | Some text \<Rightarrow> text)"

text \<open>The callback has a state of its own; an exception of it leaves the traversal.\<close>

fun packages_loop :: "(string list \<Rightarrow> 's \<Rightarrow> (bool \<times> 's) res) \<Rightarrow> string list \<Rightarrow> 's \<Rightarrow> (int \<times> 's) res option" where
  "packages_loop callback [] st = Some (Inr (0, st))"
| "packages_loop callback (line # lines) st =
     (case string_split line '' '' of
        None \<Rightarrow> None
      | Some (Inl e) \<Rightarrow> Some (Inl e)
      | Some (Inr sp) \<Rightarrow>
          (case callback sp st of
             Inl e \<Rightarrow> Some (Inl e)
           | Inr (go_on, st1) \<Rightarrow> if \<not> go_on then Some (Inr (1, st1)) else packages_loop callback lines st1))"

definition TraversePackagesList ::
  "(string list \<Rightarrow> 's \<Rightarrow> (bool \<times> 's) res) \<Rightarrow> fsys \<Rightarrow> 's \<Rightarrow> (int \<times> 's) res option" where
  "TraversePackagesList callback s st =
     (let data = ReadFile_text ''/data/system/packages.list'' s in
      if data = [] then Some (Inr (- 1, st))
      else case string_split data [newline] of
             None \<Rightarrow> None
           | Some (Inl e) \<Rightarrow> Some (Inl e)
           | Some (Inr lines) \<Rightarrow> packages_loop callback lines st)"

definition all_gids_callback :: "string list \<Rightarrow> int list \<Rightarrow> (bool \<times> int list) res" where
  "all_gids_callback line_sp gids =
     (if 2 \<le> length line_sp
      then res_bind (stoi (line_sp ! 1)) (\<lambda>gid. Inr (True, if 10000 \<le> gid then gids @ [gid] else gids))
      else Inr (True, gids))"

definition ReadAllPackagesGid :: "fsys \<Rightarrow> int list \<Rightarrow> (bool \<times> int list) res option" where
  "ReadAllPackagesGid s gids =
     map_option (\<lambda>r. res_bind r (\<lambda>(ret, gids1). Inr (ret \<noteq> - 1, gids1))) (TraversePackagesList all_gids_callback s gids)"

definition pkg_gid_callback :: "string \<Rightarrow> string list \<Rightarrow> int \<Rightarrow> (bool \<times> int) res" where
  "pkg_gid_callback pkgName line_sp ret =
     (if length line_sp < 5 then Inr (True, ret)
      else if line_sp ! 0 = pkgName then res_bind (stoi (line_sp ! 1)) (\<lambda>gid. Inr (False, gid))
      else Inr (True, ret))"

definition ReadPkgGid :: "string \<Rightarrow> fsys \<Rightarrow> int res option" where
  "ReadPkgGid pkgName s =
     map_option (\<lambda>r. res_bind r (\<lambda>(_, ret). Inr ret)) (TraversePackagesList (pkg_gid_callback pkgName) s (- 1))"

definition pkg_ctx_callback :: "string \<Rightarrow> string list \<Rightarrow> string \<Rightarrow> (bool \<times> string) res" where
  "pkg_ctx_callback pkgName line_sp ret =
     (if length line_sp < 5 then Inr (True, ret)
      else if line_sp ! 0 = pkgName
      then Inr (False, if line_sp ! 4 = [] then [] else line_sp ! 4 @ '':complete'')
      else Inr (True, ret))"

definition ReadPkgDirSelinuxCtx :: "string \<Rightarrow> fsys \<Rightarrow> string res option" where
  "ReadPkgDirSelinuxCtx pkgName s =
     map_option (\<lambda>r. res_bind r (\<lambda>(_, ret). Inr ret)) (TraversePackagesList (pkg_ctx_callback pkgName) s [])"

lemma digit_chars:
  "digit_char 0 = CHR ''0''" "digit_char (Suc 0) = CHR ''1''" "digit_char 2 = CHR ''2''" "digit_char 3 = CHR ''3''"
  "digit_char 4 = CHR ''4''" "digit_char 5 = CHR ''5''" "digit_char 6 = CHR ''6''" "digit_char 7 = CHR ''7''"
  "digit_char 8 = CHR ''8''" "digit_char 9 = CHR ''9''"
  by code_simp+

section \<open>Splitting what was joined\<close>

lemma find_sub_char: "c \<notin> set f \<Longrightarrow> find_sub (f @ c # r) [c] = Some (length f)"
  by (induction f) auto

lemma find_sub_no_char: "c \<notin> set f \<Longrightarrow> find_sub f [c] = None"
  by (induction f) auto

lemma split_ref_joined:
  "fs \<noteq> [] \<Longrightarrow> \<forall>f\<in>set fs. c \<notin> set f \<Longrightarrow> last fs \<noteq> [] \<Longrightarrow> split_ref [c] (join [c] fs) = fs"
proof (induction fs)
  case (Cons f fs)
  show ?case
  proof (cases "fs = []")
    case True
    with Cons.prems find_sub_no_char [of c f] show ?thesis by (subst split_ref.simps) simp
  next
    case False
    with Cons have IH: "split_ref [c] (join [c] fs) = fs" by simp
    have "join [c] (f # fs) = f @ c # join [c] fs" using False by (simp add: join_Cons)
    with IH Cons.prems find_sub_char [of c f "join [c] fs"] show ?thesis by (subst split_ref.simps) simp
  qed
qed simp

lemma split_ref_lines:
  "\<forall>l\<in>set ls. newline \<notin> set l \<Longrightarrow> split_ref [newline] (text_lines ls) = ls"
proof (induction ls)
  case (Cons l ls)
  with find_sub_char [of newline l "text_lines ls"] show ?case by (subst split_ref.simps) simp
qed (subst split_ref.simps, simp)

lemma string_split_joined:
  assumes "fs \<noteq> []" "\<forall>f\<in>set fs. c \<notin> set f" "last fs \<noteq> []" "length (join [c] fs) < 2 ^ 31"
  shows "string_split (join [c] fs) [c] = Some (Inr fs)"
  using string_split_ref [of "[c]" "join [c] fs"] split_ref_joined [OF assms(1-3)] assms(4) by simp

section \<open>Numbers\<close>

lemma digits_val_foldl:
  "\<forall>c\<in>set ds. is_digit_of 10 c \<Longrightarrow> digits_val acc ds = foldl (\<lambda>a c. a * 10 + (case digit_val c of None \<Rightarrow> 0 | Some v \<Rightarrow> v)) acc ds"
  by (induction ds arbitrary: acc) (auto simp: is_digit_of_def digit_val_def is_digit_def Let_def split: if_splits)

lemma stoi_pad_num: "n < 2 ^ 31 \<Longrightarrow> stoi (pad_num w 10 n) = Inr (int n)"
proof -
  assume n: "n < 2 ^ 31"
  obtain d ds where p: "pad_num w 10 n = d # ds" by (cases "pad_num w 10 n") auto
  have dig: "\<forall>c\<in>set (d # ds). is_digit_of 10 c" using pad_num_digits [of 10 _ w n] p by auto
  then have d: "is_digit_of 10 d" by simp
  then have "is_digit d" "\<not> is_space d" "d \<noteq> CHR ''-''" "d \<noteq> CHR ''+''"
    using not_digits by (auto simp: is_digit_of_def digit_val_def is_digit_def is_space_def Let_def split: if_splits)
  moreover have "digits_val 0 (d # ds) = n"
    using digits_val_foldl [OF dig, of 0] pad_num_value [of 10 w n] p by (simp only: value_of_def)
  ultimately show ?thesis using n by (simp add: p stoi_def scan_int_def Let_def int_range_def)
qed

section \<open>The list of packages is read\<close>

text \<open>A line of the file as its fields: the name, the user id, and at least three more.\<close>

definition pkg_ok :: "string list \<Rightarrow> bool" where
  "pkg_ok fs \<longleftrightarrow> 5 \<le> length fs \<and> (\<forall>f\<in>set fs. CHR '' '' \<notin> set f \<and> newline \<notin> set f) \<and> last fs \<noteq> [] \<and>
     (\<exists>n<2 ^ 31. fs ! 1 = pad_num 1 10 n)"

definition pkg_uid :: "string list \<Rightarrow> int" where
  "pkg_uid fs = int (value_of 10 (fs ! 1))"

fun visit_packages :: "(string list \<Rightarrow> 's \<Rightarrow> (bool \<times> 's) res) \<Rightarrow> string list list \<Rightarrow> 's \<Rightarrow> (int \<times> 's) res" where
  "visit_packages callback [] st = Inr (0, st)"
| "visit_packages callback (fs # pkgs) st =
     res_bind (callback fs st) (\<lambda>(go_on, st1). if go_on then visit_packages callback pkgs st1 else Inr (1, st1))"

lemma length_text_lines: "l \<in> set ls \<Longrightarrow> length l < length (text_lines ls)"
  by (induction ls) auto

lemma packages_loop_visits:
  "\<forall>fs\<in>set pkgs. pkg_ok fs \<and> length (join '' '' fs) < 2 ^ 31 \<Longrightarrow>
   packages_loop callback (map (join '' '') pkgs) st = Some (visit_packages callback pkgs st)"
proof (induction pkgs arbitrary: st)
  case (Cons fs pkgs)
  then have "string_split (join '' '' fs) '' '' = Some (Inr fs)"
    by (intro string_split_joined) (auto simp: pkg_ok_def)
  with Cons show ?case by (auto simp: res_bind_def split: sum.splits prod.splits)
qed simp

lemma join_no_newline: "\<forall>f\<in>set fs. newline \<notin> set f \<Longrightarrow> newline \<notin> set (join '' '' fs)"
  by (induction "'' ''" fs rule: join.induct) auto

lemma traverse_packages:
  assumes "read_file ''/data/system/packages.list'' s = Some (text_lines (map (join '' '') pkgs))" "\<forall>fs\<in>set pkgs. pkg_ok fs"
    "length (text_lines (map (join '' '') pkgs)) < 2 ^ 31"
  shows "TraversePackagesList callback s st = Some (if pkgs = [] then Inr (- 1, st) else visit_packages callback pkgs st)"
proof (cases "pkgs = []")
  case True
  with assms(1) show ?thesis by (simp add: TraversePackagesList_def ReadFile_text_def)
next
  case False
  let ?data = "text_lines (map (join '' '') pkgs)"
  have "?data \<noteq> []" using False by (cases pkgs) auto
  moreover have "string_split ?data [newline] = Some (Inr (map (join '' '') pkgs))"
    using string_split_ref [of "[newline]" ?data] assms(2,3) split_ref_lines [of "map (join '' '') pkgs"] join_no_newline
    by (auto simp: pkg_ok_def)
  moreover have "\<forall>fs\<in>set pkgs. pkg_ok fs \<and> length (join '' '' fs) < 2 ^ 31"
    using assms(2,3) length_text_lines [of _ "map (join '' '') pkgs"] by fastforce
  ultimately show ?thesis using assms(1) False packages_loop_visits
    by (simp add: TraversePackagesList_def ReadFile_text_def)
qed

lemma pkg_stoi: "pkg_ok fs \<Longrightarrow> stoi (fs ! 1) = Inr (pkg_uid fs)"
  by (auto simp: pkg_ok_def pkg_uid_def stoi_pad_num pad_num_value simp del: One_nat_def)

lemma visit_all_gids:
  "\<forall>fs\<in>set pkgs. pkg_ok fs \<Longrightarrow>
   visit_packages all_gids_callback pkgs gids = Inr (0, gids @ filter (\<lambda>g. 10000 \<le> g) (map pkg_uid pkgs))"
proof (induction pkgs arbitrary: gids)
  case (Cons fs pkgs)
  then have "2 \<le> length fs" "stoi (fs ! 1) = Inr (pkg_uid fs)" using pkg_stoi by (auto simp: pkg_ok_def)
  with Cons show ?case by (simp add: all_gids_callback_def del: One_nat_def)
qed simp

lemma visit_first:
  assumes "\<forall>fs\<in>set pkgs. pkg_ok fs"
    "\<And>fs st. pkg_ok fs \<Longrightarrow> callback fs st = Inr (if fs ! 0 = name then (False, f fs) else (True, st))"
  shows "\<exists>r. visit_packages callback pkgs st =
    Inr (r, case find (\<lambda>fs. fs ! 0 = name) pkgs of None \<Rightarrow> st | Some fs \<Rightarrow> f fs)"
  using assms by (induction pkgs) auto

text \<open>The look-ups in the list of packages agree with the file: for a file of well-formed lines \<open>ReadAllPackagesGid\<close>
  appends the ids of at least 10000 in order, and \<open>ReadPkgGid\<close> and \<open>ReadPkgDirSelinuxCtx\<close> return what the first line of the
  package holds, or -1 and the empty text; they always return, although they rest on a splitting loop that may not.\<close>

theorem packages_are_read:
  assumes "read_file ''/data/system/packages.list'' s = Some (text_lines (map (join '' '') pkgs))" "\<forall>fs\<in>set pkgs. pkg_ok fs"
    "length (text_lines (map (join '' '') pkgs)) < 2 ^ 31"
  shows "ReadAllPackagesGid s gids = Some (Inr (pkgs \<noteq> [], gids @ filter (\<lambda>g. 10000 \<le> g) (map pkg_uid pkgs))) \<and>
    ReadPkgGid name s = Some (Inr (case find (\<lambda>fs. fs ! 0 = name) pkgs of None \<Rightarrow> - 1 | Some fs \<Rightarrow> pkg_uid fs)) \<and>
    ReadPkgDirSelinuxCtx name s = Some (Inr (case find (\<lambda>fs. fs ! 0 = name) pkgs of
      None \<Rightarrow> [] | Some fs \<Rightarrow> if fs ! 4 = [] then [] else fs ! 4 @ '':complete''))"
proof -
  note t = traverse_packages [OF assms]
  have "pkg_gid_callback name fs st = Inr (if fs ! 0 = name then (False, pkg_uid fs) else (True, st))" if "pkg_ok fs" for fs st
    using that pkg_stoi [OF that] by (auto simp: pkg_gid_callback_def pkg_ok_def)
  from visit_first [OF assms(2) this, where st = "- 1"] obtain r where
    "visit_packages (pkg_gid_callback name) pkgs (- 1) = Inr (r, case find (\<lambda>fs. fs ! 0 = name) pkgs of None \<Rightarrow> - 1 | Some fs \<Rightarrow> pkg_uid fs)" by blast
  moreover have "pkg_ctx_callback name fs st = Inr (if fs ! 0 = name then (False, if fs ! 4 = [] then [] else fs ! 4 @ '':complete'') else (True, st))"
    if "pkg_ok fs" for fs st using that by (auto simp: pkg_ctx_callback_def pkg_ok_def)
  from visit_first [OF assms(2) this, where st = "[]"] obtain r' where
    "visit_packages (pkg_ctx_callback name) pkgs [] = Inr (r', case find (\<lambda>fs. fs ! 0 = name) pkgs of
      None \<Rightarrow> [] | Some fs \<Rightarrow> if fs ! 4 = [] then [] else fs ! 4 @ '':complete'')" by blast
  ultimately show ?thesis using visit_all_gids [OF assms(2), of gids]
    by (auto simp: ReadAllPackagesGid_def ReadPkgGid_def ReadPkgDirSelinuxCtx_def t split: option.splits)
qed

definition demo_packages :: "string list list" where
  "demo_packages =
     [[''android'', ''1000'', ''0'', ''/data/system'', ''platform''], [''com.demo'', ''10087'', ''0'', ''/data/user/0/com.demo'', ''default'']]"

lemma packages_are_read_witness:
  "let s = \<lparr>fs_root = Dir [(''data'', Dir [(''system'', Dir [(''packages.list'', File (text_lines (map (join '' '') demo_packages)))])])],
        fs_cwd = [], fs_fds = 4, fs_refused = \<lambda>_ _. False\<rparr>
   in ReadAllPackagesGid s [] = Some (Inr (True, [10087])) \<and> ReadPkgGid ''com.demo'' s = Some (Inr 10087) \<and>
      ReadPkgGid ''none'' s = Some (Inr (- 1)) \<and> ReadPkgDirSelinuxCtx ''android'' s = Some (Inr ''platform:complete'')"
proof -
  let ?s = "\<lparr>fs_root = Dir [(''data'', Dir [(''system'', Dir [(''packages.list'', File (text_lines (map (join '' '') demo_packages)))])])],
        fs_cwd = [], fs_fds = 4, fs_refused = \<lambda>_ _. False\<rparr>"
  have rd: "read_file ''/data/system/packages.list'' ?s = Some (text_lines (map (join '' '') demo_packages))"
    by (simp add: read_file_def resolve_def path_start_def)
  have p: "''1000'' = pad_num 1 10 1000" "''10087'' = pad_num 1 10 10087"
    by (simp_all add: pad_num_def print_num.simps digit_chars)
  have "\<exists>n<2 ^ 31. ''1000'' = pad_num 1 10 n" by (rule exI [of _ 1000]) (use p(1) in simp)
  moreover have "\<exists>n<2 ^ 31. ''10087'' = pad_num 1 10 n" by (rule exI [of _ 10087]) (use p(2) in simp)
  ultimately have ok: "\<forall>fs\<in>set demo_packages. pkg_ok fs" by (simp add: demo_packages_def pkg_ok_def)
  have len: "length (text_lines (map (join '' '') demo_packages)) < 2 ^ 31" by (simp add: demo_packages_def)
  have uids: "map pkg_uid demo_packages = [1000, 10087]"
    by (simp add: demo_packages_def pkg_uid_def value_of_def digit_val_def char_nat_def)
  from packages_are_read [OF rd ok len] uids show ?thesis by (simp add: Let_def) (simp add: demo_packages_def)
qed

end
