(* ===== verification/CommandLine.thy ===== *)
theory CommandLine
  imports CxxString
begin

text \<open>
  The parser of command lines \<open>argparse/argparse.hpp\<close>: the class \<open>ArgumentParser\<close>, whose state is the map of its
  parameters.
\<close>

section \<open>Operations\<close>

type_synonym params = "string \<Rightarrow> string option"

text \<open>\<open>rest\<close> are the arguments behind the index.\<close>

fun parse_loop :: "string list \<Rightarrow> params \<Rightarrow> bool \<times> params" where
  "parse_loop [] params = (True, params)"
| "parse_loop (arg # rest) params =
     (if length arg \<le> 1 then (False, params)
      else if take 1 arg = ''-'' then
        let key = drop 1 arg in
        case rest of
          [] \<Rightarrow> (True, params(key \<mapsto> []))
        | next # rest1 \<Rightarrow>
            if take 1 next = ''-'' then parse_loop rest (params(key \<mapsto> []))
            else parse_loop rest1 (params(key \<mapsto> next))
      else (False, params))"

definition parse :: "string list \<Rightarrow> params \<Rightarrow> bool \<times> params" where
  "parse argv params = parse_loop (drop 1 argv) params"

definition exists_arg :: "string \<Rightarrow> params \<Rightarrow> bool" where
  "exists_arg key params \<longleftrightarrow> params key \<noteq> None"

text \<open>The index operator of the map inserts an empty text for a key that is missing.\<close>

definition get_string :: "string \<Rightarrow> params \<Rightarrow> string \<times> params" where
  "get_string key params = (case params key of Some v \<Rightarrow> (v, params) | None \<Rightarrow> ([], params(key \<mapsto> [])))"

definition get_int :: "string \<Rightarrow> params \<Rightarrow> int res \<times> params" where
  "get_int key params = (case get_string key params of (v, params1) \<Rightarrow> (stoi v, params1))"

definition get_bool :: "string \<Rightarrow> params \<Rightarrow> bool \<times> params" where
  "get_bool key params = (case get_string key params of (v, params1) \<Rightarrow> (v = ''true'', params1))"

section \<open>Options and their values\<close>

text \<open>An option as it is written, with its value if it has one.\<close>

fun option_args :: "string \<times> string option \<Rightarrow> string list" where
  "option_args (key, None) = [CHR ''-'' # key]"
| "option_args (key, Some v) = [CHR ''-'' # key, v]"

definition option_ok :: "string \<times> string option \<Rightarrow> bool" where
  "option_ok opt \<longleftrightarrow> fst opt \<noteq> [] \<and> (\<forall>v. snd opt = Some v \<longrightarrow> take 1 v \<noteq> ''-'')"

definition option_params :: "(string \<times> string option) list \<Rightarrow> params \<Rightarrow> params" where
  "option_params opts params = foldl (\<lambda>p (key, v). p(key \<mapsto> (case v of None \<Rightarrow> [] | Some v \<Rightarrow> v))) params opts"

lemma option_params_simps [simp]:
  "option_params [] params = params"
  "option_params ((key, v) # opts) params = option_params opts (params(key \<mapsto> (case v of None \<Rightarrow> [] | Some v \<Rightarrow> v)))"
  by (simp_all add: option_params_def)

lemma take1_cases: "take 1 s = ''-'' \<longleftrightarrow> (\<exists>t. s = CHR ''-'' # t)"
  by (cases s) auto

lemma parse_loop_options:
  assumes "\<forall>opt\<in>set opts. option_ok opt" "rest = [] \<or> take 1 (hd rest) = ''-''"
  shows "parse_loop (concat (map option_args opts) @ rest) params = parse_loop rest (option_params opts params)"
  using assms(1)
proof (induction opts arbitrary: params)
  case (Cons opt opts)
  obtain key v where opt: "opt = (key, v)" by (cases opt)
  have key: "key \<noteq> []" and ok: "\<forall>opt\<in>set opts. option_ok opt" using Cons.prems by (auto simp: opt option_ok_def)
  show ?case
  proof (cases v)
    case (Some w)
    then have "take 1 w \<noteq> ''-''" using Cons.prems by (simp add: opt option_ok_def)
    with Cons.IH [OF ok] Some key show ?thesis by (cases key) (simp_all add: opt fun_upd_def)
  next
    case None
    let ?tail = "concat (map option_args opts) @ rest"
    have t: "?tail = [] \<or> take 1 (hd ?tail) = ''-''"
    proof (cases opts)
      case (Cons o2 os)
      obtain k2 v2 where "o2 = (k2, v2)" by (cases o2)
      with Cons show ?thesis by (cases v2) auto
    qed (use assms(2) in auto)
    obtain k ks where k: "key = k # ks" using key by (cases key) auto
    have "parse_loop ((CHR ''-'' # key) # tail) params = parse_loop tail (params(key \<mapsto> []))"
      if "tail = [] \<or> take 1 (hd tail) = ''-''" for tail
      using that by (cases tail) (auto simp: k Let_def fun_upd_def)
    from this [OF t] Cons.IH [OF ok] None show ?thesis by (simp add: opt fun_upd_def del: parse_loop.simps)
  qed
qed simp

text \<open>The value of the last option with a key.\<close>

lemma option_params_value:
  "option_params opts params key =
     (case find (\<lambda>opt. fst opt = key) (rev opts) of
        None \<Rightarrow> params key
      | Some (_, v) \<Rightarrow> Some (case v of None \<Rightarrow> [] | Some v \<Rightarrow> v))"
proof (induction opts arbitrary: params rule: rev_induct)
  case (snoc opt opts)
  obtain k v where opt: "opt = (k, v)" by (cases opt)
  have "option_params (opts @ [opt]) params = (option_params opts params)(k \<mapsto> (case v of None \<Rightarrow> [] | Some v \<Rightarrow> v))"
    by (simp add: option_params_def opt)
  with snoc show ?case by (simp add: opt)
qed simp

text \<open>C36: \<open>parse\<close> reads back every list of options as it is written. It returns true, the last value given for a key is the one
  kept, a key without a value has the empty text, and keys that are not named keep their value; an argument behind them that is
  no option makes it return false with the options before it kept. A value cannot start with a minus sign.\<close>

theorem parse_reads_options:
  assumes "\<forall>opt\<in>set opts. option_ok opt"
  shows "fst (parse (prog # concat (map option_args opts)) params) \<and>
    snd (parse (prog # concat (map option_args opts)) params) key =
      (case find (\<lambda>opt. fst opt = key) (rev opts) of
         None \<Rightarrow> params key
       | Some (_, v) \<Rightarrow> Some (case v of None \<Rightarrow> [] | Some v \<Rightarrow> v)) \<and>
    (opts \<noteq> [] \<and> snd (last opts) \<noteq> None \<and> take 1 stray \<noteq> ''-'' \<longrightarrow>
      parse (prog # concat (map option_args opts) @ [stray]) params = (False, snd (parse (prog # concat (map option_args opts)) params)))"
proof -
  have p: "parse (prog # concat (map option_args opts)) params = (True, option_params opts params)"
    using parse_loop_options [OF assms, of "[]" params] by (simp add: parse_def)
  have "parse (prog # concat (map option_args opts) @ [stray]) params = (False, option_params opts params)"
    if stray: "opts \<noteq> []" "snd (last opts) \<noteq> None" "take 1 stray \<noteq> ''-''"
  proof -
    obtain os key v where o: "opts = os @ [(key, Some v)]" using stray(1,2) by (cases opts rule: rev_cases) auto
    then have ok: "\<forall>opt\<in>set os. option_ok opt" "key \<noteq> []" "take 1 v \<noteq> ''-''" using assms by (auto simp: option_ok_def)
    have "parse_loop (concat (map option_args os) @ [CHR ''-'' # key, v, stray]) params = parse_loop [CHR ''-'' # key, v, stray] (option_params os params)"
      by (rule parse_loop_options [OF ok(1)]) simp
    also have "\<dots> = (False, option_params opts params)" using ok stray(3) by (cases key) (auto simp: o option_params_def Let_def fun_upd_def)
    finally show ?thesis by (simp add: parse_def o)
  qed
  with p show ?thesis by (simp add: option_params_value)
qed

text \<open>Reading a parameter inserts it. After \<open>get\<close> of a missing key, which returns the empty text, false or an
  invalid argument, the key exists; a key that exists is left as it is.\<close>

theorem get_inserts:
  "exists_arg key (snd (get_string key params)) \<and> exists_arg key (snd (get_int key params)) \<and> exists_arg key (snd (get_bool key params)) \<and>
   (if exists_arg key params
    then params key = Some (fst (get_string key params)) \<and> snd (get_string key params) = params \<and> snd (get_int key params) = params \<and>
      snd (get_bool key params) = params
    else fst (get_string key params) = [] \<and> fst (get_int key params) = Inl Invalid_Argument \<and> \<not> fst (get_bool key params))"
  by (auto simp: exists_arg_def get_string_def get_int_def get_bool_def stoi_def scan_int_def split: option.splits)

lemma parse_reads_options_witness:
  "parse [''tool'', ''-v'', ''-port'', ''80'', ''-port'', ''81''] (\<lambda>_. None) = (True, [''v'' \<mapsto> '''', ''port'' \<mapsto> ''81'']) \<and>
   \<not> fst (parse [''tool'', ''-port'', ''81'', ''stray''] (\<lambda>_. None))"
proof -
  have ok: "\<forall>opt\<in>set [(''v'', None), (''port'', Some ''80''), (''port'', Some ''81'')]. option_ok opt" by (simp add: option_ok_def)
  have "\<forall>opt\<in>set [(''port'', Some ''81'')]. option_ok opt" by (simp add: option_ok_def)
  from parse_reads_options [OF ok, of "''tool''" "\<lambda>_. None"] parse_reads_options [OF this, of "''tool''" "\<lambda>_. None" _ "''stray''"]
  show ?thesis by (auto simp: prod_eq_iff fun_eq_iff)
qed

end
