(* ===== verification/RandomText.thy ===== *)
theory RandomText
  imports Stdio
begin

text \<open>
  The functions of \<open>utils/utils.cpp\<close> that make texts: random strings over a set of characters and identifiers, the
  identifier the kernel offers, and the formatting functions around \<open>vsnprintf\<close>.
\<close>

section \<open>Random texts\<close>

text \<open>\<open>rand\<close> is the C library's generator: it takes the state of the generator to a number and the next state, the
  number being between 0 and \<open>RAND_MAX\<close>.\<close>

abbreviation RAND_MAX :: int where
  "RAND_MAX \<equiv> 2147483647"

definition rand_ok :: "('g \<Rightarrow> int \<times> 'g) \<Rightarrow> bool" where
  "rand_ok rand \<longleftrightarrow> (\<forall>g. 0 \<le> fst (rand g) \<and> fst (rand g) \<le> RAND_MAX)"

definition gen_number :: "('g \<Rightarrow> int \<times> 'g) \<Rightarrow> int \<Rightarrow> int \<Rightarrow> 'g \<Rightarrow> (int \<times> 'g) res" where
  "gen_number rand lo hi g =
     (case rand g of (r, g1) \<Rightarrow>
        res_bind (checked_int (hi - lo)) (\<lambda>d.
        res_bind (checked_int (d + 1)) (\<lambda>m.
        res_bind (cxx_rem r m) (\<lambda>x.
        res_bind (checked_int (x + lo)) (\<lambda>n. Inr (n, g1))))))"

definition CharSet_123 :: string where "CharSet_123 = ''0123456789''"

definition CharSet_ABC :: string where "CharSet_ABC = ''ABCDEFGHIJKLMNOPQRSTUVWXYZ''"

definition CharSet_abc :: string where "CharSet_abc = ''abcdefghijklmnopqrstuvwxyz''"

definition CharSet_hex :: string where "CharSet_hex = ''0123456789abcdef''"

definition CharSet_ABC123 :: string where "CharSet_ABC123 = ''ABCDEFGHIJKLMNOPQRSTUVWXYZ0123456789''"

definition CharSet_all :: string where
  "CharSet_all = ''0123456789ABCDEFGHIJKLMNOPQRSTUVWXYZabcdefghijklmnopqrstuvwxyz''"

text \<open>A character set is an array that ends with a NUL. \<open>n\<close> rounds of the loop are left.\<close>

fun gen_str_loop :: "('g \<Rightarrow> int \<times> 'g) \<Rightarrow> string \<Rightarrow> int \<Rightarrow> nat \<Rightarrow> string \<Rightarrow> 'g \<Rightarrow> (string \<times> 'g) res" where
  "gen_str_loop rand charSet maxIdx 0 buff g = Inr (buff, g)"
| "gen_str_loop rand charSet maxIdx (Suc n) buff g =
     res_bind (gen_number rand 0 maxIdx g) (\<lambda>(i, g1).
     res_bind (arr_read (charSet @ [NUL]) i) (\<lambda>c. gen_str_loop rand charSet maxIdx n (buff @ [c]) g1))"

definition gen_str :: "('g \<Rightarrow> int \<times> 'g) \<Rightarrow> string \<Rightarrow> int \<Rightarrow> int \<Rightarrow> 'g \<Rightarrow> (string \<times> 'g) res" where
  "gen_str rand charSet maxIdx len g = gen_str_loop rand charSet maxIdx (nat len) [] g"

definition gen_strABC123 :: "('g \<Rightarrow> int \<times> 'g) \<Rightarrow> int \<Rightarrow> 'g \<Rightarrow> (string \<times> 'g) res" where
  "gen_strABC123 rand len g = gen_str rand CharSet_ABC123 35 len g"

definition gen_hexstr :: "('g \<Rightarrow> int \<times> 'g) \<Rightarrow> int \<Rightarrow> 'g \<Rightarrow> (string \<times> 'g) res" where
  "gen_hexstr rand len g = gen_str rand CharSet_hex 15 len g"

definition gen_strabc :: "('g \<Rightarrow> int \<times> 'g) \<Rightarrow> int \<Rightarrow> 'g \<Rightarrow> (string \<times> 'g) res" where
  "gen_strabc rand len g = gen_str rand CharSet_abc 25 len g"

definition gen_strABC :: "('g \<Rightarrow> int \<times> 'g) \<Rightarrow> int \<Rightarrow> 'g \<Rightarrow> (string \<times> 'g) res" where
  "gen_strABC rand len g = gen_str rand CharSet_ABC 25 len g"

definition gen_str123 :: "('g \<Rightarrow> int \<times> 'g) \<Rightarrow> int \<Rightarrow> 'g \<Rightarrow> (string \<times> 'g) res" where
  "gen_str123 rand len g = gen_str rand CharSet_123 9 len g"

definition gen_strall :: "('g \<Rightarrow> int \<times> 'g) \<Rightarrow> int \<Rightarrow> 'g \<Rightarrow> (string \<times> 'g) res" where
  "gen_strall rand len g = gen_str rand CharSet_all 61 len g"

definition gen_str_all :: "('g \<Rightarrow> int \<times> 'g) \<Rightarrow> string \<Rightarrow> int \<Rightarrow> 'g \<Rightarrow> (string \<times> 'g) res" where
  "gen_str_all rand charSet len g = gen_str rand charSet (to_i32 (int (length charSet) - 1)) len g"

text \<open>C++ does not fix the order in which the five calls are made; here it is from the left.\<close>

definition gen_uuid :: "('g \<Rightarrow> int \<times> 'g) \<Rightarrow> 'g \<Rightarrow> (string \<times> 'g) res" where
  "gen_uuid rand g =
     res_bind (gen_hexstr rand 8 g) (\<lambda>(a, g1).
     res_bind (gen_hexstr rand 4 g1) (\<lambda>(b, g2).
     res_bind (gen_hexstr rand 4 g2) (\<lambda>(c, g3).
     res_bind (gen_hexstr rand 4 g3) (\<lambda>(d, g4).
     res_bind (gen_hexstr rand 12 g4) (\<lambda>(e, g5).
       Inr (a @ ''-'' @ b @ ''-'' @ c @ ''-'' @ d @ ''-'' @ e, g5))))))"

section \<open>The identifier of the kernel\<close>

text \<open>\<open>source\<close> is what the file gives, \<open>None\<close> when it cannot be opened; a read of 36 bytes stores at most those.\<close>

definition get_uuid :: "string option \<Rightarrow> string res" where
  "get_uuid source =
     (let uuid = replicate 37 NUL in
      case source of
        None \<Rightarrow> Inr (c_str uuid)
      | Some bytes \<Rightarrow>
          let n = min 36 (length bytes) in
          res_bind (mem_copy uuid 1 bytes n) (\<lambda>uuid1. Inr (c_str uuid1)))"

section \<open>Formatting\<close>

text \<open>\<open>vsnprintf\<close> of the standard library: \<open>outcome\<close> is what the format and its arguments mean, \<open>None\<close> an encoding error. It
  stores at most \<open>n - 1\<close> characters and a NUL and returns the length of the whole text, which fails when it is no \<open>int\<close>.\<close>

definition vsnprintf :: "string \<Rightarrow> nat \<Rightarrow> string option \<Rightarrow> (int \<times> string) res" where
  "vsnprintf buf n outcome =
     (case outcome of
        None \<Rightarrow> Inr (- 1, buf)
      | Some t \<Rightarrow>
          let stored = take (n - 1) t @ [NUL] in
          if 2 ^ 31 \<le> length t then Inr (- 1, buf)
          else if n = 0 then Inr (int (length t), buf)
          else if length buf < length stored then Inl UB_Bounds
          else Inr (int (length t), stored @ drop (length stored) buf))"

text \<open>\<open>garbage\<close> are the contents of the buffers before; the second one is allocated for the length that was asked for.\<close>

definition StringAppendV :: "string \<Rightarrow> (nat \<Rightarrow> string) \<Rightarrow> string \<Rightarrow> string option \<Rightarrow> string res" where
  "StringAppendV space garbage dst outcome =
     res_bind (vsnprintf space 1024 outcome) (\<lambda>(result, space1).
       if result < 1024 then
         if result \<ge> 0 then Inr (dst @ take (nat result) space1) else Inr dst
       else
         res_bind (checked_int (result + 1)) (\<lambda>len.
         res_bind (vsnprintf (garbage (nat len)) (nat len) outcome) (\<lambda>(result, buf).
           if 0 \<le> result \<and> result < len then Inr (dst @ take (nat result) buf) else Inr dst)))"

definition format_string_va :: "string \<Rightarrow> (nat \<Rightarrow> string) \<Rightarrow> string option \<Rightarrow> string res" where
  "format_string_va space garbage outcome = StringAppendV space garbage [] outcome"

definition format_string :: "string \<Rightarrow> (nat \<Rightarrow> string) \<Rightarrow> string option \<Rightarrow> string res" where
  "format_string space garbage outcome = StringAppendV space garbage [] outcome"

definition StringPrintf :: "string \<Rightarrow> (nat \<Rightarrow> string) \<Rightarrow> string option \<Rightarrow> string res" where
  "StringPrintf space garbage outcome = StringAppendV space garbage [] outcome"

text \<open>The other function of that name, with a reference to a string as its format: its buffer is the result.\<close>

definition format_string_1024 :: "string option \<Rightarrow> string res" where
  "format_string_1024 outcome = res_bind (vsnprintf (replicate 1024 NUL) 1024 outcome) (\<lambda>(_, buffer). Inr buffer)"

section \<open>Properties\<close>

lemma gen_number_range:
  assumes "rand_ok rand" "0 \<le> hi" "hi < RAND_MAX"
  shows "\<exists>n g'. gen_number rand 0 hi g = Inr (n, g') \<and> 0 \<le> n \<and> n \<le> hi"
proof -
  obtain r g1 where r: "rand g = (r, g1)" "0 \<le> r" "r \<le> RAND_MAX" using assms(1) unfolding rand_ok_def by (metis prod.collapse)
  have "int_range hi" "int_range (hi + 1)" using assms(2,3) by (simp_all add: int_range_def)
  moreover have "cxx_rem r (hi + 1) = Inr (r mod (hi + 1))" using r(2) assms(2) by (intro cxx_rem_pos) auto
  moreover have m: "0 \<le> r mod (hi + 1)" "r mod (hi + 1) \<le> hi" using assms(2) pos_mod_bound [of "hi + 1" r] by simp_all
  moreover from this have "int_range (r mod (hi + 1))" using assms(3) by (simp add: int_range_def)
  ultimately show ?thesis by (simp add: gen_number_def r(1))
qed

lemma gen_str_loop_chars:
  assumes "rand_ok rand" "0 \<le> hi" "hi < RAND_MAX" "hi < int (length charSet)"
  shows "\<exists>s g'. gen_str_loop rand charSet hi n buff g = Inr (buff @ s, g') \<and> length s = n \<and> set s \<subseteq> set charSet"
proof (induction n arbitrary: buff g)
  case (Suc n)
  obtain i g1 where i: "gen_number rand 0 hi g = Inr (i, g1)" "0 \<le> i" "i \<le> hi" using gen_number_range [OF assms(1-3)] by blast
  let ?c = "charSet ! nat i"
  have "nat i < length charSet" using i assms(4) by linarith
  then have "arr_read (charSet @ [NUL]) i = Inr ?c" "?c \<in> set charSet" using i(2) by (simp_all add: arr_read_def nth_append)
  moreover obtain s g' where "gen_str_loop rand charSet hi n (buff @ [?c]) g1 = Inr ((buff @ [?c]) @ s, g')" "length s = n" "set s \<subseteq> set charSet"
    using Suc.IH by blast
  ultimately show ?case using i(1) by (intro exI [of _ "?c # s"]) simp
qed simp

lemma gen_hexstr_chars:
  "rand_ok rand \<Longrightarrow> \<exists>s g'. gen_hexstr rand (int n) g = Inr (s, g') \<and> length s = n \<and> set s \<subseteq> set CharSet_hex"
  using gen_str_loop_chars [of rand 15 CharSet_hex n "[]" g] by (simp add: gen_hexstr_def gen_str_def CharSet_hex_def)

text \<open>The random texts stay inside their character sets: whatever the generator returns, each of the six functions ends with a text of
  the wanted length (empty for a negative one) of characters of its set, its largest index being the last place of the set, and
  \<open>gen_uuid\<close> returns five groups of 8, 4, 4, 4 and 12 hexadecimal digits.\<close>

theorem random_texts:
  assumes "rand_ok rand"
  shows "(\<forall>(gen, charSet)\<in>{(gen_strABC123 rand, CharSet_ABC123), (gen_hexstr rand, CharSet_hex), (gen_strabc rand, CharSet_abc),
        (gen_strABC rand, CharSet_ABC), (gen_str123 rand, CharSet_123), (gen_strall rand, CharSet_all)}.
      \<exists>s g'. gen len g = Inr (s, g') \<and> length s = nat len \<and> set s \<subseteq> set charSet) \<and>
    (\<exists>a b c d e g'. gen_uuid rand g = Inr (a @ ''-'' @ b @ ''-'' @ c @ ''-'' @ d @ ''-'' @ e, g') \<and>
      map length [a, b, c, d, e] = [8, 4, 4, 4, 12] \<and> set (a @ b @ c @ d @ e) \<subseteq> set CharSet_hex)"
proof
  note loop = gen_str_loop_chars [OF assms, where buff = "[]", simplified]
  show "\<forall>(gen, charSet)\<in>{(gen_strABC123 rand, CharSet_ABC123), (gen_hexstr rand, CharSet_hex), (gen_strabc rand, CharSet_abc),
        (gen_strABC rand, CharSet_ABC), (gen_str123 rand, CharSet_123), (gen_strall rand, CharSet_all)}.
      \<exists>s g'. gen len g = Inr (s, g') \<and> length s = nat len \<and> set s \<subseteq> set charSet"
    using loop [of 35 CharSet_ABC123 "nat len" g] loop [of 15 CharSet_hex "nat len" g] loop [of 25 CharSet_abc "nat len" g]
      loop [of 25 CharSet_ABC "nat len" g] loop [of 9 CharSet_123 "nat len" g] loop [of 61 CharSet_all "nat len" g]
    by (simp add: gen_strABC123_def gen_hexstr_def gen_strabc_def gen_strABC_def gen_str123_def gen_strall_def gen_str_def
      CharSet_ABC123_def CharSet_hex_def CharSet_abc_def CharSet_ABC_def CharSet_123_def CharSet_all_def)
  have hex: "\<exists>s g'. gen_hexstr rand 8 g = Inr (s, g') \<and> length s = 8 \<and> set s \<subseteq> set CharSet_hex"
    "\<exists>s g'. gen_hexstr rand 4 g = Inr (s, g') \<and> length s = 4 \<and> set s \<subseteq> set CharSet_hex"
    "\<exists>s g'. gen_hexstr rand 12 g = Inr (s, g') \<and> length s = 12 \<and> set s \<subseteq> set CharSet_hex" for g
    using gen_hexstr_chars [OF assms, of 8 g] gen_hexstr_chars [OF assms, of 4 g] gen_hexstr_chars [OF assms, of 12 g] by simp_all
  obtain a g1 where 1: "gen_hexstr rand 8 g = Inr (a, g1)" "length a = 8" "set a \<subseteq> set CharSet_hex" using hex(1) by blast
  obtain b g2 where 2: "gen_hexstr rand 4 g1 = Inr (b, g2)" "length b = 4" "set b \<subseteq> set CharSet_hex" using hex(2) by blast
  obtain c g3 where 3: "gen_hexstr rand 4 g2 = Inr (c, g3)" "length c = 4" "set c \<subseteq> set CharSet_hex" using hex(2) by blast
  obtain d g4 where 4: "gen_hexstr rand 4 g3 = Inr (d, g4)" "length d = 4" "set d \<subseteq> set CharSet_hex" using hex(2) by blast
  obtain e g5 where 5: "gen_hexstr rand 12 g4 = Inr (e, g5)" "length e = 12" "set e \<subseteq> set CharSet_hex" using hex(3) by blast
  show "\<exists>a b c d e g'. gen_uuid rand g = Inr (a @ ''-'' @ b @ ''-'' @ c @ ''-'' @ d @ ''-'' @ e, g') \<and>
      map length [a, b, c, d, e] = [8, 4, 4, 4, 12] \<and> set (a @ b @ c @ d @ e) \<subseteq> set CharSet_hex"
    by (rule exI [of _ a], rule exI [of _ b], rule exI [of _ c], rule exI [of _ d], rule exI [of _ e], rule exI [of _ g5])
      (simp add: gen_uuid_def 1 2 3 4 5)
qed

text \<open>\<open>get_uuid\<close> returns the empty text, whatever the kernel gives: the bytes are read behind the first place of a buffer of NULs.\<close>

theorem get_uuid_empty: "get_uuid source = Inr []"
  by (cases source) (simp_all add: get_uuid_def c_str_def mem_copy_def Let_def numeral_eq_Suc)

text \<open>\<open>StringAppendV\<close> appends exactly the formatted text, for texts that fit into the small buffer and for those that need the second
  pass, and nothing after an encoding error; what the buffers held does not matter. The older \<open>format_string\<close> returns
  1024 characters instead, the text cut after 1023 and padded with NULs.\<close>

theorem StringAppendV_appends:
  assumes "length space = 1024" "\<forall>n. length (garbage n) = n" "\<forall>t. outcome = Some t \<longrightarrow> length t < 2 ^ 31 - 1"
  shows "StringAppendV space garbage dst outcome = Inr (dst @ (case outcome of None \<Rightarrow> [] | Some t \<Rightarrow> t)) \<and>
    (\<forall>t. outcome = Some t \<longrightarrow> (\<exists>pad. format_string_1024 outcome = Inr (take 1023 t @ replicate pad NUL) \<and> length (take 1023 t @ replicate pad NUL) = 1024))"
proof (cases outcome)
  case None
  then show ?thesis by (simp add: StringAppendV_def vsnprintf_def)
next
  case (Some t)
  have len: "length t < 2 ^ 31 - 1" using assms(3) Some by simp
  have "format_string_1024 outcome = Inr (take 1023 t @ replicate (1024 - length (take 1023 t)) NUL)"
    using len by (simp add: Some format_string_1024_def vsnprintf_def Let_def min_def Suc_diff_le replicate_Suc [symmetric] del: replicate_Suc) arith
  then have f: "\<exists>pad. format_string_1024 outcome = Inr (take 1023 t @ replicate pad NUL) \<and> length (take 1023 t @ replicate pad NUL) = 1024"
    by (intro exI [of _ "1024 - length (take 1023 t)"]) auto
  show ?thesis
  proof (cases "length t < 1024")
    case True
    with assms(1) Some f show ?thesis by (simp add: StringAppendV_def vsnprintf_def Let_def)
  next
    case False
    have "int_range (int (length t) + 1)" using len by (simp add: int_range_def)
    moreover have "nat (int (length t) + 1) = Suc (length t)" by simp
    ultimately show ?thesis using False assms(1,2) Some f len by (simp add: StringAppendV_def vsnprintf_def Let_def)
  qed
qed

lemma random_texts_witness:
  "rand_ok (\<lambda>g :: int. (g mod 2147483648, g * 1103515245 + 12345)) \<and>
   (\<exists>s g'. gen_hexstr (\<lambda>g :: int. (g mod 2147483648, g * 1103515245 + 12345)) 6 1 = Inr (s, g') \<and> length s = 6)"
proof -
  have r: "rand_ok (\<lambda>g :: int. (g mod 2147483648, g * 1103515245 + 12345))"
    using zle_add1_eq_le [of "_ mod 2147483648" "RAND_MAX"] by (simp add: rand_ok_def)
  with random_texts [OF r, of 6 1] show ?thesis by auto
qed

lemma StringAppendV_appends_witness:
  "StringAppendV (replicate 1024 CHR ''#'') (\<lambda>n. replicate n CHR ''#'') ''log: '' (Some (replicate 3000 CHR ''a'')) = Inr (''log: '' @ replicate 3000 CHR ''a'')"
  using StringAppendV_appends [of "replicate 1024 CHR ''#''" "\<lambda>n. replicate n CHR ''#''" "Some (replicate 3000 CHR ''a'')" "''log: ''"]
  by (simp del: replicate.simps)

end
