(* ===== verification/JsonValue.thy ===== *)
theory JsonValue
  imports Prelude "HOL-Library.List_Lexorder" "HOL-Library.Char_ord"
begin

text \<open>
  The values of the JSON library (\<open>json/value.h\<close>, \<open>json/json_value.cpp\<close>): the variants of \<open>Json::Value\<close>, and
  the ordered map that holds the elements of arrays (by index) and the members of objects (by name). The comments and
  the offsets into the document that a value can carry are left out; the application does not use them. A double is
  a type parameter, and what the C library does with doubles is the record \<open>doubles\<close>.
\<close>

section \<open>Values\<close>

datatype 'r json =
    nullValue
  | intValue "64 word"
  | uintValue "64 word"
  | realValue 'r
  | stringValue string
  | booleanValue bool
  | arrayValue "(nat \<times> 'r json) list"
  | objectValue "(string \<times> 'r json) list"

text \<open>The C library on doubles: the classification, \<open>snprintf\<close> with \<open>%.*g\<close>, and reading from a stream.\<close>

record 'r doubles =
  db_finite :: "'r \<Rightarrow> bool"
  db_nan :: "'r \<Rightarrow> bool"
  db_negative :: "'r \<Rightarrow> bool"
  db_format_g :: "nat \<Rightarrow> 'r \<Rightarrow> string"
  db_scan :: "string \<Rightarrow> 'r option"

section \<open>The order of names\<close>

fun memcmp :: "string \<Rightarrow> string \<Rightarrow> int" where
  "memcmp (a # as) (b # bs) = (if a = b then memcmp as bs else int (of_char a) - int (of_char b))"
| "memcmp _ _ = 0"

definition key_less :: "string \<Rightarrow> string \<Rightarrow> bool" where
  "key_less this_str other =
     (let min_len = min (length this_str) (length other);
          comp = memcmp (take min_len this_str) (take min_len other) in
      if comp < 0 then True
      else if comp > 0 then False
      else length this_str < length other)"

section \<open>Ordered maps\<close>

text \<open>The place \<open>lower_bound\<close> finds in an ordered map: a key that is there gets the new value, another is inserted.\<close>

fun map_put :: "('k \<Rightarrow> 'k \<Rightarrow> bool) \<Rightarrow> 'k \<Rightarrow> 'v \<Rightarrow> ('k \<times> 'v) list \<Rightarrow> ('k \<times> 'v) list" where
  "map_put before k v [] = [(k, v)]"
| "map_put before k v ((k', v') # m) =
     (if before k' k then (k', v') # map_put before k v m
      else if k' = k then (k, v) # m
      else (k, v) # (k', v') # m)"

definition map_sorted :: "('k \<Rightarrow> 'k \<Rightarrow> bool) \<Rightarrow> ('k \<times> 'v) list \<Rightarrow> bool" where
  "map_sorted before m \<longleftrightarrow> sorted_wrt before (map fst m)"

text \<open>What a client of an ordered map relies on of the order of its keys.\<close>

locale key_order =
  fixes before :: "'k \<Rightarrow> 'k \<Rightarrow> bool"
  assumes irrefl: "\<not> before k k"
    and trans: "before a b \<Longrightarrow> before b c \<Longrightarrow> before a c"
    and total: "before a b \<or> a = b \<or> before b a"
begin

lemma put_keys [simp]: "fst ` set (map_put before k v m) = insert k (fst ` set m)"
  by (induction before k v m rule: map_put.induct) auto

lemma put_sorted: "map_sorted before m \<Longrightarrow> map_sorted before (map_put before k v m)"
proof (induction m)
  case (Cons e m)
  then show ?case using total [of "fst e" k] by (cases e) (auto simp: map_sorted_def intro: trans)
qed (simp add: map_sorted_def)

lemma put_lookup: "map_sorted before m \<Longrightarrow> map_of (map_put before k v m) = (map_of m)(k \<mapsto> v)"
proof (induction m)
  case (Cons e m)
  have "map_of m k = None" if "\<not> before (fst e) k"
    using Cons.prems that by (auto simp: map_sorted_def map_of_eq_None_iff)
  with Cons irrefl show ?case by (cases e) (auto simp: map_sorted_def fun_upd_twist)
qed (simp add: map_sorted_def)

lemma put_last: "\<forall>k'\<in>fst ` set m. before k' k \<Longrightarrow> map_put before k v m = m @ [(k, v)]"
  by (induction m) auto

lemma put_all: "map_sorted before (m @ m') \<Longrightarrow> foldl (\<lambda>m (k, v). map_put before k v m) m m' = m @ m'"
proof (induction m' arbitrary: m)
  case (Cons e m')
  obtain k v where e: "e = (k, v)" by (cases e)
  from Cons.prems have "map_put before k v m = m @ [(k, v)]" by (intro put_last) (auto simp: map_sorted_def sorted_wrt_append e)
  with Cons.IH [of "m @ [(k, v)]"] Cons.prems show ?case by (simp add: e)
qed simp

end

lemma memcmp_lexord:
  "length a = length b \<Longrightarrow> memcmp a b < 0 \<longleftrightarrow> a < b"
  "length a = length b \<Longrightarrow> memcmp a b = 0 \<longleftrightarrow> a = b"
  by (induction a b rule: memcmp.induct) (auto simp: less_char_def)

lemma key_less_lexord: "key_less a b \<longleftrightarrow> a < b"
proof (induction a b rule: list_induct2')
  case (4 a as b bs)
  then show ?case by (auto simp: key_less_def Let_def less_char_def)
qed (auto simp: key_less_def)

interpretation names: key_order key_less
  by unfold_locales (auto simp: key_less_lexord)

interpretation indices: key_order "(<) :: nat \<Rightarrow> nat \<Rightarrow> bool"
  by unfold_locales auto

end
