(* ===== verification/JsonReader.thy ===== *)
theory JsonReader
  imports JsonValue Stdio
begin

text \<open>
  The reader of the JSON library (\<open>Json::Reader\<close> of \<open>json/json_reader.cpp\<close>). A pointer into the document is the rest of the
  document behind it, so the end of the document is the empty text, and the distance of two pointers is the difference of
  the lengths. The application never collects comments: the parameter \<open>collectComments\<close> is false here, and a comment is
  passed over. The stack of the nodes being read is the nesting of the calls: \<open>readValue\<close> gets the value that is there,
  and how many more nodes the stack may hold.
\<close>

section \<open>Tokens\<close>

datatype TokenType =
    tokenEndOfStream
  | tokenObjectBegin
  | tokenObjectEnd
  | tokenArrayBegin
  | tokenArrayEnd
  | tokenString
  | tokenNumber
  | tokenTrue
  | tokenFalse
  | tokenNull
  | tokenArraySeparator
  | tokenMemberSeparator
  | tokenComment
  | tokenError

record token =
  tok_type :: TokenType
  tok_start :: string
  tok_end :: string

definition token_text :: "token \<Rightarrow> string" where
  "token_text tok = take (length (tok_start tok) - length (tok_end tok)) (tok_start tok)"

record error_info =
  err_token :: token
  err_message :: string
  err_extra :: "string option"

record features =
  allowComments :: bool
  strictRoot :: bool
  allowDroppedNullPlaceholders :: bool
  allowNumericKeys :: bool

definition features_all :: features where
  "features_all = \<lparr>allowComments = True, strictRoot = False, allowDroppedNullPlaceholders = False, allowNumericKeys = False\<rparr>"

definition features_strict :: features where
  "features_strict = \<lparr>allowComments = False, strictRoot = True, allowDroppedNullPlaceholders = False, allowNumericKeys = False\<rparr>"

record reader =
  rd_current :: string
  rd_errors :: "error_info list"

abbreviation quote_char :: char where
  "quote_char \<equiv> CHR 0x22"

abbreviation backslash :: char where
  "backslash \<equiv> CHR 0x5C"

definition json_digit :: "char \<Rightarrow> bool" where
  "json_digit c \<longleftrightarrow> CHR ''0'' \<le> c \<and> c \<le> CHR ''9''"

definition json_space :: "char \<Rightarrow> bool" where
  "json_space c \<longleftrightarrow> c = CHR '' '' \<or> c = CHR 0x09 \<or> c = CHR 0x0D \<or> c = newline"

fun getNextChar :: "string \<Rightarrow> char \<times> string" where
  "getNextChar [] = (NUL, [])"
| "getNextChar (c # current) = (c, current)"

fun skipSpaces :: "string \<Rightarrow> string" where
  "skipSpaces [] = []"
| "skipSpaces (c # current) = (if json_space c then skipSpaces current else c # current)"

definition match_literal :: "string \<Rightarrow> string \<Rightarrow> bool \<times> string" where
  "match_literal pattern current =
     (if length current < length pattern then (False, current)
      else if take (length pattern) current \<noteq> pattern then (False, current)
      else (True, drop (length pattern) current))"

fun c_comment_loop :: "string \<Rightarrow> string" where
  "c_comment_loop (c # d # current) =
     (if c = CHR ''*'' \<and> d = CHR ''/'' then d # current else c_comment_loop (d # current))"
| "c_comment_loop current = current"

definition readCStyleComment :: "string \<Rightarrow> bool \<times> string" where
  "readCStyleComment current = (case getNextChar (c_comment_loop current) of (c, rest) \<Rightarrow> (c = CHR ''/'', rest))"

fun readCppStyleComment :: "string \<Rightarrow> string" where
  "readCppStyleComment [] = []"
| "readCppStyleComment (c # current) =
     (if c = newline then current
      else if c = CHR 0x0D then (case current of [] \<Rightarrow> [] | d # rest \<Rightarrow> if d = newline then rest else current)
      else readCppStyleComment current)"

definition readComment :: "string \<Rightarrow> bool \<times> string" where
  "readComment current =
     (case getNextChar current of (c, rest) \<Rightarrow>
        if c = CHR ''*'' then readCStyleComment rest
        else if c = CHR ''/'' then (True, readCppStyleComment rest)
        else (False, rest))"

text \<open>The characters of a number are not consumed beyond the first that does not belong to it.\<close>

fun skip_digits :: "string \<Rightarrow> string" where
  "skip_digits [] = []"
| "skip_digits (c # current) = (if json_digit c then skip_digits current else c # current)"

definition readNumber :: "string \<Rightarrow> string" where
  "readNumber current =
     (let integral = skip_digits current;
          fractional = (if fst (getNextChar integral) = CHR ''.'' then skip_digits (snd (getNextChar integral)) else integral) in
      if fst (getNextChar fractional) \<in> {CHR ''e'', CHR ''E''} then
        let exponent = snd (getNextChar fractional) in
        skip_digits (if fst (getNextChar exponent) \<in> {CHR ''+'', CHR ''-''} then snd (getNextChar exponent) else exponent)
      else fractional)"

fun readString :: "string \<Rightarrow> bool \<times> string" where
  "readString [] = (False, [])"
| "readString (c # current) =
     (if c = backslash then (case current of [] \<Rightarrow> (False, []) | _ # rest \<Rightarrow> readString rest)
      else if c = quote_char then (True, current)
      else readString current)"

definition token_of :: "char \<Rightarrow> string \<Rightarrow> TokenType \<times> bool \<times> string" where
  "token_of c current =
     (if c = CHR ''{'' then (tokenObjectBegin, True, current)
      else if c = CHR ''}'' then (tokenObjectEnd, True, current)
      else if c = CHR ''['' then (tokenArrayBegin, True, current)
      else if c = CHR '']'' then (tokenArrayEnd, True, current)
      else if c = quote_char then (tokenString, readString current)
      else if c = CHR ''/'' then (tokenComment, readComment current)
      else if json_digit c \<or> c = CHR ''-'' then (tokenNumber, True, readNumber current)
      else if c = CHR ''t'' then (tokenTrue, match_literal ''rue'' current)
      else if c = CHR ''f'' then (tokenFalse, match_literal ''alse'' current)
      else if c = CHR ''n'' then (tokenNull, match_literal ''ull'' current)
      else if c = CHR '','' then (tokenArraySeparator, True, current)
      else if c = CHR '':'' then (tokenMemberSeparator, True, current)
      else if c = NUL then (tokenEndOfStream, True, current)
      else (tokenError, False, current))"

definition readToken :: "string \<Rightarrow> bool \<times> token" where
  "readToken current =
     (let start = skipSpaces current in
      case getNextChar start of (c, next) \<Rightarrow>
      case token_of c next of (t, ok, rest) \<Rightarrow>
        (ok, \<lparr>tok_type = (if ok then t else tokenError), tok_start = start, tok_end = rest\<rparr>))"

section \<open>Progress\<close>

lemma skipSpaces_length: "length (skipSpaces s) \<le> length s"
  by (induction s) auto

lemma c_comment_length: "length (c_comment_loop s) \<le> length s"
  by (induction s rule: c_comment_loop.induct) auto

lemma getNextChar_length: "length (snd (getNextChar s)) \<le> length s"
  by (cases s) auto

lemma readCpp_length: "length (readCppStyleComment s) \<le> length s"
  by (induction s) (auto split: list.splits)

lemma readComment_length: "length (snd (readComment s)) \<le> length s"
proof -
  have "length (snd (readCStyleComment t)) \<le> length t" for t
    using getNextChar_length [of "c_comment_loop t"] c_comment_length [of t]
    by (simp add: readCStyleComment_def case_prod_beta)
  with readCpp_length getNextChar_length [of s] show ?thesis
    by (auto simp: readComment_def case_prod_beta intro: le_trans)
qed

lemma skip_digits_length: "length (skip_digits s) \<le> length s"
  by (induction s) auto

lemma readNumber_length: "length (readNumber s) \<le> length s"
proof -
  have f: "length (if P then skip_digits (snd (getNextChar t)) else t) \<le> length t" for P t
    using skip_digits_length [of "snd (getNextChar t)"] getNextChar_length [of t] by simp
  have e: "length (skip_digits (if P then snd (getNextChar t) else t)) \<le> length t" for P t
    using skip_digits_length [of "snd (getNextChar t)"] skip_digits_length [of t] getNextChar_length [of t] by simp
  define i where "i = skip_digits s"
  define r where "r = (if fst (getNextChar i) = CHR ''.'' then skip_digits (snd (getNextChar i)) else i)"
  have "length r \<le> length s" using f skip_digits_length [of s] unfolding r_def i_def by (rule le_trans)
  moreover have "length (skip_digits (if P then snd (getNextChar (snd (getNextChar r))) else snd (getNextChar r))) \<le> length r" for P
    using e getNextChar_length [of r] by (rule le_trans)
  ultimately have "length (if P then skip_digits (if Q then snd (getNextChar (snd (getNextChar r))) else snd (getNextChar r)) else r) \<le> length s" for P Q
    by (metis (full_types) le_trans)
  then show ?thesis
    unfolding readNumber_def i_def [symmetric] Let_def r_def [symmetric] .
qed

lemma readString_length: "length (snd (readString s)) \<le> length s"
proof (induction s rule: readString.induct)
  case (2 c current)
  then show ?case by (cases current; cases "c = backslash") (auto intro: le_SucI le_trans)
qed simp

lemma match_literal_length: "length (snd (match_literal p s)) \<le> length s"
  by (simp add: match_literal_def)

lemma token_of_length: "length (snd (snd (token_of c s))) \<le> length s"
  by (simp add: token_of_def readString_length readComment_length readNumber_length match_literal_length)

lemma readToken_shorter:
  "tok_type (snd (readToken s)) \<noteq> tokenEndOfStream \<Longrightarrow> length (tok_end (snd (readToken s))) < length s"
proof (cases "skipSpaces s")
  case Nil
  then show "tok_type (snd (readToken s)) \<noteq> tokenEndOfStream \<Longrightarrow> ?thesis" by (simp add: readToken_def token_of_def json_digit_def)
next
  case (Cons c t)
  with token_of_length [of c t] skipSpaces_length [of s] show ?thesis
    by (simp add: readToken_def case_prod_beta Let_def)
qed

lemma readToken_length: "length (tok_end (snd (readToken s))) \<le> length s"
  using token_of_length [of "fst (getNextChar (skipSpaces s))" "snd (getNextChar (skipSpaces s))"] skipSpaces_length [of s]
    getNextChar_length [of "skipSpaces s"]
  by (simp add: readToken_def case_prod_beta Let_def)

section \<open>Comments and recovery\<close>

text \<open>The loop that reads on as long as it has read a comment.\<close>

function past_comments :: "bool \<times> token \<Rightarrow> bool \<times> token" where
  "past_comments (ok, tok) =
     (if tok_type tok = tokenComment \<and> ok then past_comments (readToken (tok_end tok)) else (ok, tok))"
  by pat_completeness auto
termination
proof (relation "measure (\<lambda>(ok, tok). if tok_type tok = tokenComment then Suc (length (tok_end tok)) else 0)", goal_cases)
  case (2 ok tok)
  then show ?case using readToken_shorter [of "tok_end tok"] by (auto simp: case_prod_beta)
qed simp

definition skipCommentTokens :: "features \<Rightarrow> string \<Rightarrow> token" where
  "skipCommentTokens f current =
     (if allowComments f then snd (past_comments (readToken current)) else snd (readToken current))"

text \<open>\<open>recoverFromError\<close> reads up to a token of the wanted type; the number of errors is reset to what it was.\<close>

function recover_loop :: "TokenType \<Rightarrow> string \<Rightarrow> string" where
  "recover_loop skipUntilToken current =
     (case readToken current of (_, skip) \<Rightarrow>
        if tok_type skip = skipUntilToken \<or> tok_type skip = tokenEndOfStream then tok_end skip
        else recover_loop skipUntilToken (tok_end skip))"
  by pat_completeness auto
termination
proof (relation "measure (\<lambda>(t, current). length current)", goal_cases)
  case (2 t current p skip)
  then have "snd (readToken current) = skip" by (metis snd_conv)
  with 2 show ?case using readToken_shorter [of current] by simp
qed simp

declare past_comments.simps [simp del] recover_loop.simps [simp del]

section \<open>Decoding tokens\<close>

text \<open>Decoding ends with an error to be added to the list of the reader, or with a result.\<close>

type_synonym 'a decoded = "error_info + 'a"

definition json_error :: "string \<Rightarrow> token \<Rightarrow> string option \<Rightarrow> error_info" where
  "json_error message tok extra = \<lparr>err_token = tok, err_message = message, err_extra = extra\<rparr>"

definition maxInt :: "64 word" where
  "maxInt = 2 ^ 31 - 1"

definition minLargestInt :: "64 word" where
  "minLargestInt = 2 ^ 63"

definition maxLargestInt :: "64 word" where
  "maxLargestInt = 2 ^ 63 - 1"

definition maxLargestUInt :: "64 word" where
  "maxLargestUInt = - 1"

text \<open>The digits of an integer; \<open>None\<close> is a number to be read as a double.\<close>

fun decode_digits :: "64 word \<Rightarrow> string \<Rightarrow> 64 word \<Rightarrow> 64 word option" where
  "decode_digits maxIntegerValue [] value = Some value"
| "decode_digits maxIntegerValue (c # current) value =
     (if c < CHR ''0'' \<or> CHR ''9'' < c then None
      else
        let digit = word_of_nat (of_char c - of_char CHR ''0'');
            threshold = maxIntegerValue div 10 in
        if value \<ge> threshold \<and> (value > threshold \<or> current \<noteq> [] \<or> digit > maxIntegerValue mod 10) then None
        else decode_digits maxIntegerValue current (value * 10 + digit))"

definition decodeDouble :: "'r doubles \<Rightarrow> token \<Rightarrow> 'r json decoded" where
  "decodeDouble D tok =
     (case db_scan D (token_text tok) of
        None \<Rightarrow> Inl (json_error (CHR 0x27 # token_text tok @ CHR 0x27 # '' is not a number.'') tok None)
      | Some x \<Rightarrow> Inr (realValue x))"

definition decodeNumber :: "'r doubles \<Rightarrow> token \<Rightarrow> 'r json decoded" where
  "decodeNumber D tok =
     (let isNegative = (take 1 (token_text tok) = ''-'');
          digits = (if isNegative then drop 1 (token_text tok) else token_text tok);
          maxIntegerValue = (if isNegative then maxLargestInt + 1 else maxLargestUInt) in
      case decode_digits maxIntegerValue digits 0 of
        None \<Rightarrow> decodeDouble D tok
      | Some value \<Rightarrow>
          Inr (if isNegative \<and> value = maxIntegerValue then intValue minLargestInt
               else if isNegative then intValue (- value)
               else if value \<le> maxInt then intValue value
               else uintValue value))"

definition hex_value :: "char \<Rightarrow> 32 word option" where
  "hex_value c =
     (if CHR ''0'' \<le> c \<and> c \<le> CHR ''9'' then Some (word_of_nat (of_char c - of_char CHR ''0''))
      else if CHR ''a'' \<le> c \<and> c \<le> CHR ''f'' then Some (word_of_nat (of_char c - of_char CHR ''a'' + 10))
      else if CHR ''A'' \<le> c \<and> c \<le> CHR ''F'' then Some (word_of_nat (of_char c - of_char CHR ''A'' + 10))
      else None)"

text \<open>The pointer \<open>current\<close> of a string is the text up to the closing quotation mark, \<open>quote\<close> what is from there on.\<close>

primrec hex_loop :: "token \<Rightarrow> string \<Rightarrow> nat \<Rightarrow> string \<Rightarrow> 32 word \<Rightarrow> (32 word \<times> string) decoded" where
  "hex_loop tok quote 0 current unicode = Inr (unicode, current)"
| "hex_loop tok quote (Suc n) current unicode =
     (case hex_value (hd current) of
        Some digit \<Rightarrow> hex_loop tok quote n (tl current) (unicode * 16 + digit)
      | None \<Rightarrow> Inl (json_error ''Bad unicode escape sequence in string: hexadecimal digit expected.'' tok (Some (tl current @ quote))))"

definition decodeUnicodeEscapeSequence :: "token \<Rightarrow> string \<Rightarrow> string \<Rightarrow> (32 word \<times> string) decoded" where
  "decodeUnicodeEscapeSequence tok quote current =
     (if length current < 4
      then Inl (json_error ''Bad unicode escape sequence in string: four digits expected.'' tok (Some (current @ quote)))
      else hex_loop tok quote 4 current 0)"

definition decodeUnicodeCodePoint :: "token \<Rightarrow> string \<Rightarrow> string \<Rightarrow> (32 word \<times> string) decoded" where
  "decodeUnicodeCodePoint tok quote current =
     (case decodeUnicodeEscapeSequence tok quote current of
        Inl e \<Rightarrow> Inl e
      | Inr (unicode, current1) \<Rightarrow>
          if 0xD800 \<le> unicode \<and> unicode \<le> 0xDBFF then
            if length current1 < 6
            then Inl (json_error ''additional six characters expected to parse unicode surrogate pair.'' tok (Some (current1 @ quote)))
            else if hd current1 = backslash then
              if hd (tl current1) = CHR ''u'' then
                case decodeUnicodeEscapeSequence tok quote (drop 2 current1) of
                  Inl e \<Rightarrow> Inl e
                | Inr (surrogatePair, current2) \<Rightarrow>
                    Inr (0x10000 + push_bit 10 (unicode AND 0x3FF) + (surrogatePair AND 0x3FF), current2)
              else Inl (json_error (''expecting another '' @ backslash # ''u token to begin the second half of a unicode surrogate pair'') tok (Some (drop 2 current1 @ quote)))
            else Inl (json_error (''expecting another '' @ backslash # ''u token to begin the second half of a unicode surrogate pair'') tok (Some (drop 1 current1 @ quote)))
          else Inr (unicode, current1))"

definition word_char :: "32 word \<Rightarrow> char" where
  "word_char w = char_of (unat w)"

definition codePointToUTF8 :: "32 word \<Rightarrow> string" where
  "codePointToUTF8 cp =
     (if cp \<le> 0x7F then [word_char cp]
      else if cp \<le> 0x7FF then
        [word_char (0xC0 OR (0x1F AND drop_bit 6 cp)), word_char (0x80 OR (0x3F AND cp))]
      else if cp \<le> 0xFFFF then
        [word_char (0xE0 OR (0xF AND drop_bit 12 cp)), word_char (0x80 OR (0x3F AND drop_bit 6 cp)), word_char (0x80 OR (0x3F AND cp))]
      else if cp \<le> 0x10FFFF then
        [word_char (0xF0 OR (0x7 AND drop_bit 18 cp)), word_char (0x80 OR (0x3F AND drop_bit 12 cp)),
         word_char (0x80 OR (0x3F AND drop_bit 6 cp)), word_char (0x80 OR (0x3F AND cp))]
      else [])"

lemma hex_loop_length: "n \<le> length current \<Longrightarrow> hex_loop tok quote n current u = Inr (v, rest) \<Longrightarrow> length rest = length current - n"
proof (induction n arbitrary: current u)
  case (Suc n)
  then show ?case by (cases current) (auto split: option.splits)
qed simp

lemma escape_length: "decodeUnicodeEscapeSequence tok quote current = Inr (v, rest) \<Longrightarrow> length rest < length current"
  by (auto simp: decodeUnicodeEscapeSequence_def dest: hex_loop_length [rotated] split: if_splits)

lemma code_point_length: "decodeUnicodeCodePoint tok quote current = Inr (v, rest) \<Longrightarrow> length rest < length current"
  by (auto simp: decodeUnicodeCodePoint_def dest!: escape_length split: sum.splits if_splits)

definition simple_escape :: "char \<Rightarrow> char option" where
  "simple_escape c =
     (if c = quote_char then Some quote_char
      else if c = CHR ''/'' then Some CHR ''/''
      else if c = backslash then Some backslash
      else if c = CHR ''b'' then Some CHR 0x08
      else if c = CHR ''f'' then Some CHR 0x0C
      else if c = CHR ''n'' then Some newline
      else if c = CHR ''r'' then Some CHR 0x0D
      else if c = CHR ''t'' then Some CHR 0x09
      else None)"

function decode_string_loop :: "token \<Rightarrow> string \<Rightarrow> string \<Rightarrow> string \<Rightarrow> string decoded" where
  "decode_string_loop tok quote [] decoded = Inr decoded"
| "decode_string_loop tok quote (c # current) decoded =
     (if c = quote_char then Inr decoded
      else if c = backslash then
        (case current of
           [] \<Rightarrow> Inl (json_error ''Empty escape sequence in string'' tok (Some (current @ quote)))
         | escape # current1 \<Rightarrow>
             if escape = CHR ''u'' then
               (case decodeUnicodeCodePoint tok quote current1 of
                  Inl e \<Rightarrow> Inl e
                | Inr (unicode, current2) \<Rightarrow> decode_string_loop tok quote current2 (decoded @ codePointToUTF8 unicode))
             else
               (case simple_escape escape of
                  Some d \<Rightarrow> decode_string_loop tok quote current1 (decoded @ [d])
                | None \<Rightarrow> Inl (json_error ''Bad escape sequence in string'' tok (Some (current1 @ quote)))))
      else decode_string_loop tok quote current (decoded @ [c]))"
  by pat_completeness auto
termination
proof (relation "measure (\<lambda>(_, _, current, _). length current)", goal_cases)
  case (2 tok quote c current decoded escape current1 p unicode current2)
  then show ?case by (auto dest: code_point_length)
qed auto

definition decodeString :: "token \<Rightarrow> string decoded" where
  "decodeString tok =
     (let body = butlast (drop 1 (token_text tok)) in
      decode_string_loop tok (drop (length body + 1) (tok_start tok)) body [])"

text \<open>Numbers as texts, for the names \<open>allowNumericKeys\<close> permits.\<close>

function uint_loop :: "64 word \<Rightarrow> string \<Rightarrow> string" where
  "uint_loop number current =
     (let current1 = char_of (unat (number mod 10) + of_char CHR ''0'') # current;
          rest = number div 10 in
      if rest \<noteq> 0 then uint_loop rest current1 else current1)"
  by pat_completeness auto
termination
proof (relation "measure (\<lambda>(number, _). unat number)", goal_cases)
  case (2 w current current1 rest)
  then have "unat (w div 10) \<noteq> 0" by (simp add: unat_eq_zero)
  with 2 show ?case by (simp add: unat_div_distrib)
qed simp

definition uintToString :: "64 word \<Rightarrow> string" where
  "uintToString value = uint_loop value []"

definition valueToString_int :: "64 word \<Rightarrow> string" where
  "valueToString_int value =
     (if value = minLargestInt then CHR ''-'' # uintToString (maxLargestInt + 1)
      else if value <s 0 then CHR ''-'' # uintToString (- value)
      else uintToString value)"

definition fixNumericLocale :: "string \<Rightarrow> string" where
  "fixNumericLocale s = map (\<lambda>c. if c = CHR '','' then CHR ''.'' else c) s"

definition valueToString_double :: "'r doubles \<Rightarrow> 'r \<Rightarrow> string" where
  "valueToString_double D value =
     (if \<not> db_finite D value then
        (if db_nan D value then ''null'' else if db_negative D value then ''-1e+9999'' else ''1e+9999'')
      else
        let buffer = fixNumericLocale (db_format_g D 17 value) in
        if CHR ''.'' \<notin> set buffer \<and> CHR ''e'' \<notin> set buffer then buffer @ ''.0'' else buffer)"

fun asString :: "'r doubles \<Rightarrow> 'r json \<Rightarrow> string res" where
  "asString D nullValue = Inr []"
| "asString D (stringValue s) = Inr s"
| "asString D (booleanValue b) = Inr (if b then ''true'' else ''false'')"
| "asString D (intValue n) = Inr (valueToString_int n)"
| "asString D (uintValue n) = Inr (uintToString n)"
| "asString D (realValue x) = Inr (valueToString_double D x)"
| "asString D _ = Inl (Logic_Error ''Type is not convertible to string'')"

section \<open>Reading values\<close>

text \<open>The outcome of reading: \<open>None\<close> if it does not end, an exception, or whether it succeeded, the value the node then holds
  and the state of the reader.\<close>

type_synonym 'r read = "(bool \<times> 'r json \<times> reader) res option"

definition add_error :: "error_info \<Rightarrow> reader \<Rightarrow> reader" where
  "add_error e r = r\<lparr>rd_errors := rd_errors r @ [e]\<rparr>"

definition recoverFromError :: "TokenType \<Rightarrow> reader \<Rightarrow> reader" where
  "recoverFromError skipUntilToken r = r\<lparr>rd_current := recover_loop skipUntilToken (rd_current r)\<rparr>"

definition addErrorAndRecover :: "string \<Rightarrow> token \<Rightarrow> TokenType \<Rightarrow> reader \<Rightarrow> reader" where
  "addErrorAndRecover message tok skipUntilToken r = recoverFromError skipUntilToken (add_error (json_error message tok None) r)"

text \<open>The name of a member: \<open>None\<close> is a token that cannot be one.\<close>

definition member_name :: "'r doubles \<Rightarrow> features \<Rightarrow> token \<Rightarrow> string decoded res option" where
  "member_name D f tok =
     (if tok_type tok = tokenString then Some (Inr (decodeString tok))
      else if tok_type tok = tokenNumber \<and> allowNumericKeys f then
        (case decodeNumber D tok of
           Inl e \<Rightarrow> Some (Inr (Inl e))
         | Inr numberName \<Rightarrow> (case asString D numberName of Inl x \<Rightarrow> Some (Inl x) | Inr s \<Rightarrow> Some (Inr (Inr s))))
      else None)"

definition member_at :: "string \<Rightarrow> (string \<times> 'r json) list \<Rightarrow> 'r json" where
  "member_at name members = (case map_of members name of Some v \<Rightarrow> v | None \<Rightarrow> nullValue)"

text \<open>The loops of \<open>readObject\<close> and \<open>readArray\<close>, over the function that reads a value one level deeper.\<close>

partial_function (option) object_loop ::
  "'r doubles \<Rightarrow> features \<Rightarrow> ('r json \<Rightarrow> reader \<Rightarrow> 'r read) \<Rightarrow> string \<Rightarrow> (string \<times> 'r json) list \<Rightarrow> reader \<Rightarrow> 'r read" where
  "object_loop D f readValue name members r =
     (let first = past_comments (readToken (rd_current r));
          ok = fst first; tokenName = snd first;
          r1 = r\<lparr>rd_current := tok_end tokenName\<rparr> in
      if ok \<and> tok_type tokenName = tokenObjectEnd \<and> name = [] then Some (Inr (True, objectValue members, r1))
      else
        (case (if ok then member_name D f tokenName else None) of
          None \<Rightarrow> Some (Inr (False, objectValue members,
            addErrorAndRecover ''Missing '}' or object member name'' tokenName tokenObjectEnd r1))
        | Some (Inl x) \<Rightarrow> Some (Inl x)
        | Some (Inr (Inl e)) \<Rightarrow> Some (Inr (False, objectValue members, recoverFromError tokenObjectEnd (add_error e r1)))
        | Some (Inr (Inr key)) \<Rightarrow>
            let colon = readToken (rd_current r1);
                r2 = r1\<lparr>rd_current := tok_end (snd colon)\<rparr> in
            if \<not> fst colon \<or> tok_type (snd colon) \<noteq> tokenMemberSeparator
            then Some (Inr (False, objectValue members, addErrorAndRecover ''Missing ':' after object member name'' (snd colon) tokenObjectEnd r2))
            else
              (case readValue (member_at key members) r2 of
                None \<Rightarrow> None
              | Some (Inl x) \<Rightarrow> Some (Inl x)
              | Some (Inr vr) \<Rightarrow>
                  let members1 = map_put key_less key (fst (snd vr)) members; r3 = snd (snd vr) in
                  if \<not> fst vr then Some (Inr (False, objectValue members1, recoverFromError tokenObjectEnd r3))
                  else
                    let comma = readToken (rd_current r3);
                        r4 = r3\<lparr>rd_current := tok_end (snd comma)\<rparr> in
                    if \<not> fst comma \<or> tok_type (snd comma) \<notin> {tokenObjectEnd, tokenArraySeparator, tokenComment}
                    then Some (Inr (False, objectValue members1,
                      addErrorAndRecover ''Missing ',' or '}' in object declaration'' (snd comma) tokenObjectEnd r4))
                    else
                      let final = snd (past_comments comma);
                          r5 = r4\<lparr>rd_current := tok_end final\<rparr> in
                      if tok_type final = tokenObjectEnd then Some (Inr (True, objectValue members1, r5))
                      else object_loop D f readValue key members1 r5)))"

partial_function (option) array_loop ::
  "('r json \<Rightarrow> reader \<Rightarrow> 'r read) \<Rightarrow> nat \<Rightarrow> (nat \<times> 'r json) list \<Rightarrow> reader \<Rightarrow> 'r read" where
  "array_loop readValue index elements r =
     (case readValue (case map_of elements index of Some v \<Rightarrow> v | None \<Rightarrow> nullValue) r of
        None \<Rightarrow> None
      | Some (Inl x) \<Rightarrow> Some (Inl x)
      | Some (Inr vr) \<Rightarrow>
          let elements1 = map_put (<) index (fst (snd vr)) elements; r1 = snd (snd vr) in
          if \<not> fst vr then Some (Inr (False, arrayValue elements1, recoverFromError tokenArrayEnd r1))
          else
            let current = past_comments (readToken (rd_current r1));
                r2 = r1\<lparr>rd_current := tok_end (snd current)\<rparr> in
            if \<not> fst current \<or> tok_type (snd current) \<notin> {tokenArraySeparator, tokenArrayEnd}
            then Some (Inr (False, arrayValue elements1,
              addErrorAndRecover ''Missing ',' or ']' in array declaration'' (snd current) tokenArrayEnd r2))
            else if tok_type (snd current) = tokenArrayEnd then Some (Inr (True, arrayValue elements1, r2))
            else array_loop readValue (index + 1) elements1 r2)"

definition readObject :: "'r doubles \<Rightarrow> features \<Rightarrow> ('r json \<Rightarrow> reader \<Rightarrow> 'r read) \<Rightarrow> reader \<Rightarrow> 'r read" where
  "readObject D f readValue r = object_loop D f readValue [] [] r"

definition readArray :: "('r json \<Rightarrow> reader \<Rightarrow> 'r read) \<Rightarrow> reader \<Rightarrow> 'r read" where
  "readArray readValue r =
     (let r1 = r\<lparr>rd_current := skipSpaces (rd_current r)\<rparr> in
      if take 1 (rd_current r1) = '']'' then
        Some (Inr (True, arrayValue [], r1\<lparr>rd_current := tok_end (snd (readToken (rd_current r1)))\<rparr>))
      else array_loop readValue 0 [] r1)"

definition decoded_value :: "'r json \<Rightarrow> 'r json decoded \<Rightarrow> reader \<Rightarrow> 'r read" where
  "decoded_value old d r = (case d of Inl e \<Rightarrow> Some (Inr (False, old, add_error e r)) | Inr v \<Rightarrow> Some (Inr (True, v, r)))"

text \<open>The first argument is how many more nodes the stack may hold.\<close>

fun readValue :: "'r doubles \<Rightarrow> features \<Rightarrow> nat \<Rightarrow> 'r json \<Rightarrow> reader \<Rightarrow> 'r read" where
  "readValue D f 0 old r = Some (Inl (Runtime_Error ''Exceeded stackLimit in readValue().''))"
| "readValue D f (Suc nodes) old r =
     (let tok = skipCommentTokens f (rd_current r);
          r1 = r\<lparr>rd_current := tok_end tok\<rparr>;
          err = Some (Inr (False, old, add_error (json_error ''Syntax error: value, object or array expected.'' tok None) r1)) in
      case tok_type tok of
        tokenObjectBegin \<Rightarrow> readObject D f (readValue D f nodes) r1
      | tokenArrayBegin \<Rightarrow> readArray (readValue D f nodes) r1
      | tokenNumber \<Rightarrow> decoded_value old (decodeNumber D tok) r1
      | tokenString \<Rightarrow> decoded_value old (map_sum id stringValue (decodeString tok)) r1
      | tokenTrue \<Rightarrow> Some (Inr (True, booleanValue True, r1))
      | tokenFalse \<Rightarrow> Some (Inr (True, booleanValue False, r1))
      | tokenNull \<Rightarrow> Some (Inr (True, nullValue, r1))
      | tokenArraySeparator \<Rightarrow>
          if allowDroppedNullPlaceholders f then Some (Inr (True, nullValue, r1\<lparr>rd_current := tok_start tok\<rparr>)) else err
      | tokenObjectEnd \<Rightarrow>
          if allowDroppedNullPlaceholders f then Some (Inr (True, nullValue, r1\<lparr>rd_current := tok_start tok\<rparr>)) else err
      | tokenArrayEnd \<Rightarrow>
          if allowDroppedNullPlaceholders f then Some (Inr (True, nullValue, r1\<lparr>rd_current := tok_start tok\<rparr>)) else err
      | _ \<Rightarrow> err)"

definition stackLimit_g :: nat where
  "stackLimit_g = 1000"

definition is_container :: "'r json \<Rightarrow> bool" where
  "is_container v = (case v of arrayValue _ \<Rightarrow> True | objectValue _ \<Rightarrow> True | _ \<Rightarrow> False)"

text \<open>\<open>parse\<close> with \<open>root\<close> as the value that is there before.\<close>

definition parse_document :: "'r doubles \<Rightarrow> features \<Rightarrow> string \<Rightarrow> 'r json \<Rightarrow> 'r read" where
  "parse_document D f document root =
     (case readValue D f stackLimit_g root \<lparr>rd_current = document, rd_errors = []\<rparr> of
        None \<Rightarrow> None
      | Some (Inl x) \<Rightarrow> Some (Inl x)
      | Some (Inr (successful, v, r)) \<Rightarrow>
          let r1 = r\<lparr>rd_current := tok_end (skipCommentTokens f (rd_current r))\<rparr> in
          if strictRoot f \<and> \<not> is_container v
          then Some (Inr (False, v, add_error (json_error ''A valid JSON document must be either an array or an object value.''
            \<lparr>tok_type = tokenError, tok_start = document, tok_end = []\<rparr> None) r1))
          else Some (Inr (successful, v, r1)))"

text \<open>\<open>getline\<close> with \<open>static_cast<char>(EOF)\<close> stops at the first byte \<open>0xFF\<close>.\<close>

definition parse_stream :: "'r doubles \<Rightarrow> features \<Rightarrow> string \<Rightarrow> 'r json \<Rightarrow> 'r read" where
  "parse_stream D f content root = parse_document D f (takeWhile (\<lambda>c. c \<noteq> CHR 0xFF) content) root"

section \<open>The functions of the application\<close>

definition ToJson :: "'r doubles \<Rightarrow> string \<Rightarrow> 'r json res option" where
  "ToJson D json =
     (case parse_document D features_all json nullValue of
        None \<Rightarrow> None
      | Some (Inl x) \<Rightarrow> Some (Inl x)
      | Some (Inr (ok, ret, r)) \<Rightarrow> Some (Inr (if \<not> ok then nullValue else ret)))"

definition ToJson_len :: "'r doubles \<Rightarrow> string \<Rightarrow> nat \<Rightarrow> 'r json res option" where
  "ToJson_len D json len =
     (case parse_document D features_all (take len json) nullValue of
        None \<Rightarrow> None
      | Some (Inl x) \<Rightarrow> Some (Inl x)
      | Some (Inr (ok, ret, r)) \<Rightarrow> Some (Inr (if \<not> ok then nullValue else ret)))"

definition ReadFileJson :: "'r doubles \<Rightarrow> string \<Rightarrow> fsys \<Rightarrow> 'r json res option" where
  "ReadFileJson D path s =
     (case read_file path s of
        None \<Rightarrow> Some (Inr nullValue)
      | Some content \<Rightarrow>
          (case parse_stream D features_all content nullValue of
             None \<Rightarrow> None
           | Some (Inl x) \<Rightarrow> Some (Inl x)
           | Some (Inr (ok, json, r)) \<Rightarrow> Some (Inr json)))"

declare object_loop.simps [simp del] array_loop.simps [simp del]

definition ToJson_c_str :: "'r doubles \<Rightarrow> string \<Rightarrow> 'r json res option" where
  "ToJson_c_str D json = ToJson D (c_str json)"

section \<open>Reading always ends\<close>

text \<open>A well-formed value: the indices of an array count from zero, the names of an object ascend.\<close>

fun json_ok :: "'r json \<Rightarrow> bool" where
  "json_ok (arrayValue elements) \<longleftrightarrow> map fst elements = [0..<length elements] \<and> (\<forall>e\<in>set elements. json_ok (snd e))"
| "json_ok (objectValue members) \<longleftrightarrow> map_sorted key_less members \<and> (\<forall>m\<in>set members. json_ok (snd m))"
| "json_ok _ \<longleftrightarrow> True"

text \<open>What the loops rely on and establish: the call returns, the only exception is that of the stack limit, it does not go
  back in the document, and the node it leaves is well-formed.\<close>

abbreviation stack_error :: cxx_error where
  "stack_error \<equiv> Runtime_Error ''Exceeded stackLimit in readValue().''"

definition read_ok :: "reader \<Rightarrow> 'r read \<Rightarrow> bool" where
  "read_ok r x \<longleftrightarrow> (case x of
      None \<Rightarrow> False
    | Some (Inl e) \<Rightarrow> e = stack_error
    | Some (Inr (ok, v, r')) \<Rightarrow> json_ok v \<and> length (rd_current r') \<le> length (rd_current r))"

lemma read_ok_simps [simp]:
  "\<not> read_ok r None"
  "read_ok r (Some (Inl e)) \<longleftrightarrow> e = stack_error"
  "read_ok r (Some (Inr (ok, v, r'))) \<longleftrightarrow> json_ok v \<and> length (rd_current r') \<le> length (rd_current r)"
  by (simp_all add: read_ok_def)

lemma read_ok_mono: "read_ok r' x \<Longrightarrow> length (rd_current r') \<le> length (rd_current r) \<Longrightarrow> read_ok r x"
  by (auto simp: read_ok_def split: option.splits sum.splits)

lemma recover_length: "length (recover_loop t s) \<le> length s"
proof (induction t s rule: recover_loop.induct)
  case (1 t s)
  have "snd (readToken s) = skip" if "(ok, skip) = readToken s" for ok skip using that by (metis snd_conv)
  with 1 readToken_length [of s] show ?case by (subst recover_loop.simps) (auto split: prod.splits intro: le_trans)
qed

lemma recover_from_error_length: "length (rd_current r) \<le> n \<Longrightarrow> length (rd_current (recoverFromError t r)) \<le> n"
  using recover_length [of t "rd_current r"] by (simp add: recoverFromError_def)

lemma add_error_simps [simp]: "rd_current (add_error e r) = rd_current r" "rd_errors (add_error e r) = rd_errors r @ [e]"
  by (simp_all add: add_error_def)

lemma add_and_recover_length: "length (rd_current r) \<le> n \<Longrightarrow> length (rd_current (addErrorAndRecover m tok t r)) \<le> n"
  by (simp add: addErrorAndRecover_def recover_from_error_length)

lemma past_comments_length: "length (tok_end (snd (past_comments p))) \<le> length (tok_end (snd p))"
proof (induction p rule: past_comments.induct)
  case (1 ok tok)
  then show ?case using readToken_length [of "tok_end tok"] by (subst past_comments.simps) auto
qed

lemma past_comments_start: "length (tok_start (snd p)) \<le> n \<Longrightarrow> length (tok_end (snd p)) \<le> n \<Longrightarrow> length (tok_start (snd (past_comments p))) \<le> n"
proof (induction p rule: past_comments.induct)
  case (1 ok tok)
  have "length (tok_start (snd (readToken s))) \<le> length s" for s
    using skipSpaces_length [of s] by (simp add: readToken_def Let_def case_prod_beta)
  from this [of "tok_end tok"] 1 readToken_length [of "tok_end tok"] show ?case
    by (subst past_comments.simps) auto
qed

lemma set_map_put: "m \<in> set (map_put before k v ms) \<Longrightarrow> m = (k, v) \<or> m \<in> set ms"
  by (induction before k v ms rule: map_put.induct) (auto split: if_splits)

lemma map_put_json_ok:
  assumes "json_ok (objectValue ms)" "json_ok v"
  shows "json_ok (objectValue (map_put key_less k v ms))"
  using assms names.put_sorted [of ms k v] by (auto dest: set_map_put)

lemma member_at_ok: "json_ok (objectValue ms) \<Longrightarrow> json_ok (member_at k ms)"
  by (force simp: member_at_def dest: map_of_SomeD split: option.splits)

lemma member_name_returns: "member_name D f tok \<noteq> Some (Inl x)"
  by (auto simp: member_name_def decodeNumber_def decodeDouble_def Let_def split: sum.splits option.splits if_splits)

lemma object_loop_ok:
  assumes rv: "\<And>old r. json_ok old \<Longrightarrow> read_ok r (rv old r)"
    and ms: "json_ok (objectValue members)"
  shows "read_ok r (object_loop D f rv name members r)"
  using ms
proof (induction "length (rd_current r)" arbitrary: r name members rule: less_induct)
  case less
  define first where "first = past_comments (readToken (rd_current r))"
  define r1 where "r1 = r\<lparr>rd_current := tok_end (snd first)\<rparr>"
  define colon where "colon = readToken (rd_current r1)"
  define r2 where "r2 = r1\<lparr>rd_current := tok_end (snd colon)\<rparr>"
  have l1: "length (rd_current r1) \<le> length (rd_current r)"
    using past_comments_length [of "readToken (rd_current r)"] readToken_length [of "rd_current r"] by (simp add: r1_def first_def)
  have l2: "length (rd_current r2) \<le> length (rd_current r)"
    using readToken_length [of "rd_current r1"] l1 by (simp add: r2_def colon_def)
  note out = recover_from_error_length add_and_recover_length
  consider (fin) "fst first \<and> tok_type (snd first) = tokenObjectEnd \<and> name = []"
    | (none) "\<not> (fst first \<and> tok_type (snd first) = tokenObjectEnd \<and> name = [])" "(if fst first then member_name D f (snd first) else None) = None"
    | (exn) x where "(if fst first then member_name D f (snd first) else None) = Some (Inl x)"
    | (err) e where "\<not> (fst first \<and> tok_type (snd first) = tokenObjectEnd \<and> name = [])" "(if fst first then member_name D f (snd first) else None) = Some (Inr (Inl e))"
    | (key) k where "\<not> (fst first \<and> tok_type (snd first) = tokenObjectEnd \<and> name = [])" "(if fst first then member_name D f (snd first) else None) = Some (Inr (Inr k))"
    by (metis (no_types) option.exhaust sum.exhaust)
  then show ?case
  proof cases
    case (exn x)
    then show ?thesis by (simp add: member_name_returns split: if_splits)
  next
    case (key k)
    show ?thesis
    proof (cases "fst colon \<and> tok_type (snd colon) = tokenMemberSeparator")
      case True
      then have short: "length (rd_current r2) < length (rd_current r)"
        using readToken_shorter [of "rd_current r1"] l1 by (auto simp: r2_def colon_def)
      define x where "x = rv (member_at k members) r2"
      have rx: "read_ok r2 x" using rv [OF member_at_ok [OF less.prems]] by (simp add: x_def)
      then consider "x = Some (Inl stack_error)"
        | ok v r3 where "x = Some (Inr (ok, v, r3))" "json_ok v" "length (rd_current r3) \<le> length (rd_current r2)"
        by (auto simp: read_ok_def split: option.splits sum.splits)
      then show ?thesis
      proof cases
        case 1
        with key True show ?thesis
          by (subst object_loop.simps) (auto simp: Let_def first_def [symmetric] r1_def [symmetric] colon_def [symmetric] r2_def [symmetric] x_def [symmetric])
      next
        case (2 ok v r3)
        define ms1 where "ms1 = map_put key_less k v members"
        define comma where "comma = readToken (rd_current r3)"
        define r4 where "r4 = r3\<lparr>rd_current := tok_end (snd comma)\<rparr>"
        define final where "final = snd (past_comments comma)"
        define r5 where "r5 = r4\<lparr>rd_current := tok_end final\<rparr>"
        have ms1: "json_ok (objectValue ms1)" unfolding ms1_def by (rule map_put_json_ok [OF less.prems 2(2)])
        have l3: "length (rd_current r3) \<le> length (rd_current r)" using 2(3) l2 by linarith
        have l4: "length (rd_current r4) \<le> length (rd_current r)" using l3 readToken_length [of "rd_current r3"] by (simp add: r4_def comma_def)
        have l5: "length (rd_current r5) < length (rd_current r)"
          using past_comments_length [of comma] readToken_length [of "rd_current r3"] 2(3) short
          by (simp add: r5_def final_def r4_def comma_def)
        have "read_ok r5 (object_loop D f rv k ms1 r5)" by (rule less.hyps [OF l5 ms1])
        then have rec: "read_ok r (object_loop D f rv k ms1 r5)" by (rule read_ok_mono) (use l5 in simp)
        note d = first_def [symmetric] r1_def [symmetric] colon_def [symmetric] r2_def [symmetric] x_def [symmetric]
          comma_def [symmetric] r4_def [symmetric] final_def [symmetric] r5_def [symmetric] ms1_def [symmetric]
        from key True ms1 l3 l4 l5 rec 2(1) show ?thesis
          by (subst object_loop.simps) (auto simp: Let_def d out simp del: json_ok.simps)
      qed
    next
      case False
      with key less.prems l2 show ?thesis
        by (subst object_loop.simps) (auto simp: Let_def first_def [symmetric] r1_def [symmetric] colon_def [symmetric] r2_def [symmetric] out simp del: json_ok.simps)
    qed
  qed (use less.prems l1 in \<open>subst object_loop.simps, simp add: Let_def first_def [symmetric] r1_def [symmetric] out del: json_ok.simps\<close>)+
qed

lemma array_loop_ok:
  assumes rv: "\<And>old r. json_ok old \<Longrightarrow> read_ok r (rv old r)"
    and es: "json_ok (arrayValue elements)" "index = length elements"
  shows "read_ok r (array_loop rv index elements r)"
  using es
proof (induction "length (rd_current r)" arbitrary: r index elements rule: less_induct)
  case less
  have keys: "fst ` set elements = {0..<index}" using less.prems by (metis atLeastLessThan_upt json_ok.simps(1) list.set_map)
  then have "map_of elements index = None" by (simp add: map_of_eq_None_iff)
  then have at: "(case map_of elements index of Some v \<Rightarrow> v | None \<Rightarrow> nullValue) = nullValue" by simp
  define x where "x = rv nullValue r"
  have rx: "read_ok r x" using rv [of nullValue] by (simp add: x_def)
  then consider "x = Some (Inl stack_error)"
    | ok v r1 where "x = Some (Inr (ok, v, r1))" "json_ok v" "length (rd_current r1) \<le> length (rd_current r)"
    by (auto simp: read_ok_def split: option.splits sum.splits)
  then show ?case
  proof cases
    case 1
    then show ?thesis by (subst array_loop.simps) (simp add: at x_def [symmetric])
  next
    case (2 ok v r1)
    define es1 where "es1 = map_put (<) index v elements"
    define cur where "cur = past_comments (readToken (rd_current r1))"
    define r2 where "r2 = r1\<lparr>rd_current := tok_end (snd cur)\<rparr>"
    have "es1 = elements @ [(index, v)]" unfolding es1_def by (rule indices.put_last) (use keys in auto)
    then have es1: "json_ok (arrayValue es1)" "index + 1 = length es1" using less.prems 2(2) by auto
    have l2: "length (rd_current r2) \<le> length (rd_current r)"
      using past_comments_length [of "readToken (rd_current r1)"] readToken_length [of "rd_current r1"] 2(3) by (simp add: r2_def cur_def)
    have "read_ok r (array_loop rv (index + 1) es1 r2)" if t: "tok_type (snd cur) = tokenArraySeparator"
    proof -
      have "length (tok_end (snd cur)) < length (rd_current r1)"
      proof (cases "tok_type (snd (readToken (rd_current r1))) = tokenEndOfStream")
        case True
        then have "cur = readToken (rd_current r1)"
          unfolding cur_def by (cases "readToken (rd_current r1)") (simp add: past_comments.simps)
        with True t show ?thesis by simp
      next
        case False
        with readToken_shorter [of "rd_current r1"] past_comments_length [of "readToken (rd_current r1)"] show ?thesis
          by (simp add: cur_def)
      qed
      then have l: "length (rd_current r2) < length (rd_current r)" using 2(3) by (simp add: r2_def)
      have "read_ok r2 (array_loop rv (index + 1) es1 r2)" by (rule less.hyps [OF l es1])
      then show ?thesis by (rule read_ok_mono) (use l in simp)
    qed
    then show ?thesis using es1(1) l2 2(1,3)
      by (subst array_loop.simps)
        (simp add: at x_def [symmetric] Let_def es1_def [symmetric] cur_def [symmetric] r2_def [symmetric]
          recover_from_error_length add_and_recover_length del: json_ok.simps)
  qed
qed

lemma skipCommentTokens_length:
  "length (tok_end (skipCommentTokens f s)) \<le> length s"
  "length (tok_start (skipCommentTokens f s)) \<le> length s"
proof -
  have s: "length (tok_start (snd (readToken s))) \<le> length s"
    using skipSpaces_length [of s] by (simp add: readToken_def Let_def case_prod_beta)
  with past_comments_length [of "readToken s"] past_comments_start [of "readToken s" "length s"] readToken_length [of s]
  show "length (tok_end (skipCommentTokens f s)) \<le> length s" "length (tok_start (skipCommentTokens f s)) \<le> length s"
    by (simp_all add: skipCommentTokens_def)
qed

lemma decodeNumber_ok: "decodeNumber D tok = Inr v \<Longrightarrow> json_ok v"
  by (auto simp: decodeNumber_def decodeDouble_def Let_def split: option.splits)

lemma readValue_ok: "json_ok old \<Longrightarrow> read_ok r (readValue D f nodes old r)"
proof (induction nodes arbitrary: old r)
  case (Suc nodes)
  define tok where "tok = skipCommentTokens f (rd_current r)"
  define r1 where "r1 = r\<lparr>rd_current := tok_end tok\<rparr>"
  have l: "length (rd_current r1) \<le> length (rd_current r)" "length (tok_start tok) \<le> length (rd_current r)"
    using skipCommentTokens_length [of f "rd_current r"] by (simp_all add: r1_def tok_def)
  have obj: "read_ok r (readObject D f (readValue D f nodes) r1)"
    unfolding readObject_def by (rule read_ok_mono [OF object_loop_ok l(1)]) (simp_all add: Suc.IH map_sorted_def)
  have "read_ok r1 (readArray (readValue D f nodes) r1)"
  proof (cases "take 1 (skipSpaces (rd_current r1)) = '']''")
    case True
    then show ?thesis using readToken_length [of "skipSpaces (rd_current r1)"] skipSpaces_length [of "rd_current r1"]
      by (simp add: readArray_def Let_def)
  next
    case False
    have "read_ok r1 (array_loop (readValue D f nodes) 0 [] (r1\<lparr>rd_current := skipSpaces (rd_current r1)\<rparr>))"
      by (rule read_ok_mono [OF array_loop_ok]) (simp_all add: Suc.IH skipSpaces_length)
    with False show ?thesis by (simp add: readArray_def Let_def)
  qed
  then have arr: "read_ok r (readArray (readValue D f nodes) r1)" by (rule read_ok_mono [OF _ l(1)])
  have dec: "read_ok r (decoded_value old d r1)" if "\<And>v. d = Inr v \<Longrightarrow> json_ok v" for d
    using that l(1) Suc.prems by (cases d) (simp_all add: decoded_value_def)
  have num: "read_ok r (decoded_value old (decodeNumber D tok) r1)" by (rule dec) (rule decodeNumber_ok)
  have str: "read_ok r (decoded_value old (map_sum id stringValue (decodeString tok)) r1)"
    by (rule dec) (cases "decodeString tok"; auto)
  show ?case using obj arr num str l Suc.prems
    by (simp only: readValue.simps Let_def tok_def [symmetric] r1_def [symmetric]) (auto split: TokenType.split)
qed simp

lemma parse_ok:
  assumes "json_ok root"
  obtains "parse_document D f document root = Some (Inl stack_error)"
  | ok v r where "parse_document D f document root = Some (Inr (ok, v, r))" "json_ok v"
proof -
  let ?x = "readValue D f stackLimit_g root \<lparr>rd_current = document, rd_errors = []\<rparr>"
  have "read_ok \<lparr>rd_current = document, rd_errors = []\<rparr> ?x" by (rule readValue_ok [OF assms])
  then consider "?x = Some (Inl stack_error)" | ok v r where "?x = Some (Inr (ok, v, r))" "json_ok v"
    by (auto simp: read_ok_def split: option.splits sum.splits)
  then show thesis
  proof cases
    case 1
    then show thesis by (intro that(1)) (simp add: parse_document_def)
  next
    case (2 ok v r)
    then show thesis by (cases "strictRoot f \<and> \<not> is_container v") (auto intro!: that(2) simp: parse_document_def)
  qed
qed



end
