(* ===== verification/JsonText.thy ===== *)
theory JsonText
  imports JsonReader
begin

text \<open>
  The abstract specification of the reader: the grammar of JSON texts (RFC 8259) with the value each text has, and the
  proof that \<open>Json::Reader\<close> reads every such text to its value and stops behind it.
\<close>

section \<open>Numbers\<close>

definition all_digits :: "string \<Rightarrow> bool" where
  "all_digits ds \<longleftrightarrow> (\<forall>c\<in>set ds. json_digit c)"

text \<open>The value of the text of a number: an integer where it has one that fits, a double otherwise.\<close>

definition number_value :: "'r doubles \<Rightarrow> string \<Rightarrow> 'r json option" where
  "number_value D t =
     (let neg = (take 1 t = ''-''); ds = (if neg then drop 1 t else t); n = value_of 10 ds in
      if all_digits ds \<and> neg \<and> n \<le> 2 ^ 63 then Some (intValue (word_of_int (- int n)))
      else if all_digits ds \<and> \<not> neg \<and> n < 2 ^ 31 then Some (intValue (word_of_nat n))
      else if all_digits ds \<and> \<not> neg \<and> n < 2 ^ 64 then Some (uintValue (word_of_nat n))
      else map_option realValue (db_scan D t))"

definition digit_step :: "nat \<Rightarrow> char \<Rightarrow> nat" where
  "digit_step a c = a * 10 + (case digit_val c of None \<Rightarrow> 0 | Some v \<Rightarrow> v)"

lemma value_of_step: "value_of 10 ds = foldl digit_step 0 ds"
  by (simp add: value_of_def digit_step_def [abs_def])

lemma digit_step_mono: "a \<le> foldl digit_step a ds" "a * 10 ^ length ds \<le> foldl digit_step a ds"
proof -
  show *: "a * 10 ^ length ds \<le> foldl digit_step a ds"
  proof (induction ds arbitrary: a)
    case (Cons c ds)
    have "a * 10 ^ length (c # ds) \<le> digit_step a c * 10 ^ length ds" by (simp add: digit_step_def algebra_simps)
    also have "\<dots> \<le> foldl digit_step (digit_step a c) ds" by (rule Cons.IH)
    finally show ?case by simp
  qed simp
  have "a \<le> a * 10 ^ length ds" by simp
  from this * show "a \<le> foldl digit_step a ds" by (rule order_trans)
qed

lemma char_order: "c \<le> d \<longleftrightarrow> char_nat c \<le> char_nat d" "c < d \<longleftrightarrow> char_nat c < char_nat d"
  by (simp_all add: less_eq_char_def less_char_def char_nat_def)

lemma char_nat_digits [simp]: "char_nat CHR ''0'' = 48" "char_nat CHR ''9'' = 57"
  by (simp_all add: char_nat_def)

lemma json_digit_nat: "json_digit c \<longleftrightarrow> 48 \<le> char_nat c \<and> char_nat c \<le> 57"
  by (simp add: json_digit_def char_order)

lemma digit_step_digit: "json_digit c \<Longrightarrow> digit_step a c = a * 10 + (char_nat c - 48)"
  by (simp add: digit_step_def digit_val_def json_digit_nat Let_def)

lemma decode_digits_exact:
  fixes M :: "64 word"
  assumes "20 \<le> unat M" "v \<le> M"
  shows "decode_digits M ds v =
    (if all_digits ds \<and> foldl digit_step (unat v) ds \<le> unat M then Some (word_of_nat (foldl digit_step (unat v) ds)) else None)"
  using assms(2)
proof (induction ds arbitrary: v)
  case Nil
  then show ?case by (simp add: all_digits_def word_le_nat_alt)
next
  case (Cons c ds)
  show ?case
  proof (cases "json_digit c")
    case False
    then show ?thesis by (auto simp: all_digits_def json_digit_nat char_order)
  next
    case True
    define a where "a = unat v"
    define m where "m = unat M"
    define d where "d = char_nat c - 48"
    have d9: "d \<le> 9" using True by (auto simp: d_def json_digit_nat)
    have m: "20 \<le> m" "m < 2 ^ 64" using assms(1) unsigned_less [of M] by (simp_all add: m_def)
    define q where "q = m div 10"
    define r where "r = m mod 10"
    have mm: "m = 10 * q + r" "r < 10" by (simp_all add: q_def r_def)
    have step: "digit_step a c = a * 10 + d" using digit_step_digit [OF True] by (simp add: d_def)
    have word: "(word_of_nat (of_char c - 48) :: 64 word) = word_of_nat d" by (simp add: d_def char_nat_def)
    have ud: "unat (word_of_nat d :: 64 word) = d" using d9 by (simp add: unat_of_nat take_bit_eq_mod)
    have cmp: "v \<ge> M div 10 \<longleftrightarrow> m div 10 \<le> a" "v > M div 10 \<longleftrightarrow> m div 10 < a" "(word_of_nat d :: 64 word) > M mod 10 \<longleftrightarrow> m mod 10 < d"
      by (simp_all add: word_le_nat_alt word_less_nat_alt unat_div_distrib unat_mod_distrib ud a_def m_def)
    have lo: "\<not> c < CHR ''0''" "\<not> CHR ''9'' < c" using True by (simp_all add: char_order json_digit_nat)
    define rej where "rej \<longleftrightarrow> q \<le> a \<and> (q < a \<or> ds \<noteq> [] \<or> r < d)"
    have eq: "decode_digits M (c # ds) v = (if rej then None else decode_digits M ds (v * 10 + word_of_nat d))"
      by (simp add: lo word Let_def cmp rej_def q_def r_def)
    show ?thesis
    proof (cases rej)
      case True
      have "m < foldl digit_step (a * 10 + d) ds"
      proof (cases "q < a \<or> ds = []")
        case True
        then consider "q < a" | "q \<le> a" "r < d" using \<open>rej\<close> unfolding rej_def by blast
        then have "m < a * 10 + d" using mm by cases linarith+
        with digit_step_mono(1) [of "a * 10 + d" ds] show ?thesis by linarith
      next
        case False
        then obtain e es where ds: "ds = e # es" by (cases ds) auto
        have "q \<le> a" using \<open>rej\<close> unfolding rej_def by blast
        then have "10 * (q) \<le> 10 * a" by simp
        then have "m < 10 * a + 10" "10 < 10 * a" using m(1) mm by linarith+
        then have "m < (a * 10 + d) * 10" by simp
        also have "\<dots> \<le> digit_step (a * 10 + d) e" by (simp add: digit_step_def)
        also have "\<dots> \<le> foldl digit_step (digit_step (a * 10 + d) e) es" by (rule digit_step_mono)
        finally show ?thesis by (simp add: ds)
      qed
      with True eq step show ?thesis by (simp add: a_def [symmetric] m_def [symmetric])
    next
      case False
      then consider "a < q" | "a = q" "d \<le> r" unfolding rej_def by linarith
      then have le: "a * 10 + d \<le> m"
      proof cases
        case 1
        then have "10 * (a + 1) \<le> 10 * (q)" by simp
        with mm(1) d9 show ?thesis by simp
      qed (use mm(1) in simp)
      have u: "unat (v * 10 + word_of_nat d) = a * 10 + d"
        using le m(2) by (simp add: unat_word_ariths ud a_def [symmetric])
      then have "v * 10 + word_of_nat d \<le> M" using le by (simp add: word_le_nat_alt m_def)
      from Cons.IH [OF this] False eq step u \<open>json_digit c\<close> show ?thesis
        by (simp add: a_def [symmetric] m_def [symmetric] all_digits_def)
    qed
  qed
qed

lemma decodeNumber_exact:
  "decodeNumber D tok = (case number_value D (token_text tok) of
     Some v \<Rightarrow> Inr v
   | None \<Rightarrow> Inl (json_error (CHR 0x27 # token_text tok @ CHR 0x27 # '' is not a number.'') tok None))"
proof -
  define t where "t = token_text tok"
  define ds where "ds = (if take 1 t = ''-'' then drop 1 t else t)"
  define n where "n = value_of 10 ds"
  have dbl: "decodeDouble D tok = (case map_option realValue (db_scan D t) of
      Some v \<Rightarrow> Inr v | None \<Rightarrow> Inl (json_error (CHR 0x27 # t @ CHR 0x27 # '' is not a number.'') tok None))"
    by (simp add: decodeDouble_def t_def split: option.split)
  show ?thesis
  proof (cases "take 1 t = ''-''")
    case True
    then have ds: "drop (Suc 0) t = ds" by (simp add: ds_def)
    have M: "unat (maxLargestInt + 1) = 2 ^ 63" by (simp add: maxLargestInt_def)
    have dd: "decode_digits (maxLargestInt + 1) ds 0 = (if all_digits ds \<and> n \<le> 2 ^ 63 then Some (word_of_nat n) else None)"
      by (subst decode_digits_exact) (simp_all add: M n_def value_of_step)
    have val: "minLargestInt = - maxLargestInt - 1" by (simp add: minLargestInt_def maxLargestInt_def)
    with True dd dbl show ?thesis
      by (simp add: decodeNumber_def number_value_def t_def [symmetric] ds n_def [symmetric] Let_def val split: option.splits)
  next
    case False
    then have ds: "take (Suc 0) t \<noteq> ''-''" "t = ds" by (simp_all add: ds_def)
    have M: "unat maxLargestUInt = 2 ^ 64 - 1" by (simp add: maxLargestUInt_def unsigned_minus_1_eq_mask mask_eq_exp_minus_1)
    have dd: "decode_digits maxLargestUInt ds 0 = (if all_digits ds \<and> n < 2 ^ 64 then Some (word_of_nat n) else None)"
      by (subst decode_digits_exact) (auto simp: M n_def value_of_step)
    have "word_of_nat n \<le> maxInt \<longleftrightarrow> n < 2 ^ 31" if "n < 2 ^ 64"
      using that by (auto simp: word_le_nat_alt maxInt_def unat_of_nat take_bit_eq_mod)
    moreover have "value_of 10 t = n" by (simp add: n_def ds(2))
    ultimately show ?thesis using dd dbl
      by (simp add: decodeNumber_def number_value_def t_def [symmetric] ds(1) Let_def ds(2) [symmetric] split: option.splits)
  qed
qed

text \<open>The text of a number: a sign, digits, a fraction and an exponent.\<close>

definition fraction_text :: "string \<Rightarrow> bool" where
  "fraction_text fr \<longleftrightarrow> fr = [] \<or> (\<exists>ds. fr = CHR ''.'' # ds \<and> all_digits ds)"

definition exponent_text :: "string \<Rightarrow> bool" where
  "exponent_text ex \<longleftrightarrow> ex = [] \<or>
     (\<exists>e s ds. ex = e # s @ ds \<and> e \<in> {CHR ''e'', CHR ''E''} \<and> s \<in> {[], ''+'', ''-''} \<and> all_digits ds \<and> ds \<noteq> [])"

definition number_text :: "string \<Rightarrow> bool" where
  "number_text t \<longleftrightarrow> (\<exists>s i fr ex. t = s @ i @ fr @ ex \<and> s \<in> {[], ''-''} \<and> i \<noteq> [] \<and> all_digits i \<and> fraction_text fr \<and> exponent_text ex)"

text \<open>What may follow a value: the end of the text, a space, or the punctuation of the value around it.\<close>

definition follows :: "string \<Rightarrow> bool" where
  "follows rest \<longleftrightarrow> (case rest of [] \<Rightarrow> True | c # _ \<Rightarrow> json_space c \<or> c \<in> {CHR '','', CHR '']'', CHR ''}''})"

lemma skip_digits_append: "all_digits ds \<Longrightarrow> skip_digits (ds @ s) = skip_digits s"
  by (induction ds) (auto simp: all_digits_def)

lemma skip_digits_stop: "\<not> json_digit (fst (getNextChar s)) \<Longrightarrow> skip_digits s = s"
  by (cases s) auto

lemma not_digits_json [simp]:
  "\<not> json_digit CHR ''.''" "\<not> json_digit CHR ''e''" "\<not> json_digit CHR ''E''" "\<not> json_digit CHR ''+''" "\<not> json_digit CHR ''-''"
  "\<not> json_digit NUL"
  by (simp_all add: json_digit_def less_eq_char_def)

lemma follows_first:
  assumes "follows rest" "c = fst (getNextChar rest)"
  shows "\<not> json_digit c \<and> c \<noteq> CHR ''.'' \<and> c \<noteq> CHR ''e'' \<and> c \<noteq> CHR ''E''"
  using assms by (cases rest) (auto simp: follows_def json_space_def json_digit_def less_eq_char_def)

lemma readNumber_text:
  assumes "all_digits i" "fraction_text fr" "exponent_text ex" "follows rest"
  shows "readNumber (i @ fr @ ex @ rest) = rest"
proof -
  note stop = follows_first [OF assms(4) refl]
  have ex: "fst (getNextChar (ex @ rest)) \<notin> {CHR ''.''} \<and> \<not> json_digit (fst (getNextChar (ex @ rest)))"
    using assms(3) stop by (cases ex) (auto simp: exponent_text_def)
  have fr: "(if fst (getNextChar (fr @ ex @ rest)) = CHR ''.'' then skip_digits (snd (getNextChar (fr @ ex @ rest))) else fr @ ex @ rest) = ex @ rest"
    using assms(2) ex by (auto simp: fraction_text_def skip_digits_append skip_digits_stop)
  have "skip_digits (fr @ ex @ rest) = fr @ ex @ rest"
    using assms(2) ex by (intro skip_digits_stop) (auto simp: fraction_text_def)
  then have i: "skip_digits (i @ fr @ ex @ rest) = fr @ ex @ rest" by (simp add: skip_digits_append [OF assms(1)])
  show ?thesis
  proof (cases "ex = []")
    case True
    with stop show ?thesis unfolding readNumber_def i Let_def fr by simp
  next
    case False
    then obtain e s ds where e: "ex = e # s @ ds" "e \<in> {CHR ''e'', CHR ''E''}" "s \<in> {[], ''+'', ''-''}" "all_digits ds" "ds \<noteq> []"
      using assms(3) by (auto simp: exponent_text_def)
    have "(if fst (getNextChar (s @ ds @ rest)) \<in> {CHR ''+'', CHR ''-''} then snd (getNextChar (s @ ds @ rest)) else s @ ds @ rest) = ds @ rest"
      using e(3,4,5) by (cases ds) (auto simp: all_digits_def)
    moreover have "snd (getNextChar (ex @ rest)) = s @ ds @ rest" "fst (getNextChar (ex @ rest)) \<in> {CHR ''e'', CHR ''E''}"
      using e(1,2) by simp_all
    ultimately show ?thesis unfolding readNumber_def i Let_def fr
      by (simp only: if_True skip_digits_append [OF e(4)] skip_digits_stop [OF conjunct1 [OF stop]])
  qed
qed

section \<open>Strings\<close>

text \<open>Four hexadecimal digits, and the pieces a string is written with: a character, a short escape, an escape of a code point,
  or a pair of escapes of surrogates.\<close>

definition hex_step :: "32 word option \<Rightarrow> char \<Rightarrow> 32 word option" where
  "hex_step u c = (case (u, hex_value c) of (Some u, Some d) \<Rightarrow> Some (u * 16 + d) | _ \<Rightarrow> None)"

definition hex4 :: "string \<Rightarrow> 32 word option" where
  "hex4 h = (if length h = 4 then foldl hex_step (Some 0) h else None)"

definition high_surrogate :: "32 word \<Rightarrow> bool" where
  "high_surrogate u \<longleftrightarrow> 0xD800 \<le> u \<and> u \<le> 0xDBFF"

definition low_surrogate :: "32 word \<Rightarrow> bool" where
  "low_surrogate u \<longleftrightarrow> 0xDC00 \<le> u \<and> u \<le> 0xDFFF"

inductive string_piece :: "string \<Rightarrow> string \<Rightarrow> bool" where
  plain: "c \<noteq> quote_char \<Longrightarrow> c \<noteq> backslash \<Longrightarrow> string_piece [c] [c]"
| short: "simple_escape e = Some c \<Longrightarrow> string_piece [c] [backslash, e]"
| code: "hex4 h = Some u \<Longrightarrow> \<not> high_surrogate u \<Longrightarrow> string_piece (codePointToUTF8 u) (backslash # CHR ''u'' # h)"
| pair: "hex4 h = Some u \<Longrightarrow> high_surrogate u \<Longrightarrow> hex4 h' = Some u' \<Longrightarrow> low_surrogate u' \<Longrightarrow>
    string_piece (codePointToUTF8 (0x10000 + push_bit 10 (u AND 0x3FF) + (u' AND 0x3FF)))
      (backslash # CHR ''u'' # h @ backslash # CHR ''u'' # h')"

inductive string_body :: "string \<Rightarrow> string \<Rightarrow> bool" where
  empty: "string_body [] []"
| piece: "string_piece d p \<Longrightarrow> string_body d' b \<Longrightarrow> string_body (d @ d') (p @ b)"

lemma hex_step_simps [simp]: "hex_step None c = None" "hex_step (Some u) c = map_option (\<lambda>d. u * 16 + d) (hex_value c)"
  by (simp_all add: hex_step_def split: option.splits)

lemma hex_step_None [simp]: "foldl hex_step None h = None"
  by (induction h) simp_all

lemma hex_loop_digits: "foldl hex_step (Some u) h = Some v \<Longrightarrow> hex_loop tok q (length h) (h @ b) u = Inr (v, b)"
proof (induction h arbitrary: u)
  case (Cons c h)
  then obtain d where "hex_value c = Some d" by (cases "hex_value c") simp_all
  with Cons show ?case by simp
qed simp

lemma escape_digits: "hex4 h = Some u \<Longrightarrow> decodeUnicodeEscapeSequence tok q (h @ b) = Inr (u, b)"
  using hex_loop_digits [of 0 h u tok q b] by (auto simp: hex4_def decodeUnicodeEscapeSequence_def split: if_splits)

lemma code_point_digits: "hex4 h = Some u \<Longrightarrow> \<not> high_surrogate u \<Longrightarrow> decodeUnicodeCodePoint tok q (h @ b) = Inr (u, b)"
  by (auto simp: decodeUnicodeCodePoint_def escape_digits high_surrogate_def)

lemma code_point_pair:
  assumes "hex4 h = Some u" "high_surrogate u" "hex4 h' = Some u'"
  shows "decodeUnicodeCodePoint tok q (h @ backslash # CHR ''u'' # h' @ b) =
    Inr (0x10000 + push_bit 10 (u AND 0x3FF) + (u' AND 0x3FF), b)"
proof -
  have "4 \<le> length h'" using assms(3) by (simp add: hex4_def split: if_splits)
  with assms show ?thesis by (simp add: decodeUnicodeCodePoint_def escape_digits high_surrogate_def)
qed

lemma hex_digits_plain: "hex4 h = Some u \<Longrightarrow> readString (h @ s) = readString s"
proof -
  have "foldl hex_step (Some v) h = Some u \<Longrightarrow> readString (h @ s) = readString s" for v
  proof (induction h arbitrary: v)
    case (Cons c h)
    then obtain d where d: "hex_value c = Some d" by (cases "hex_value c") simp_all
    then have "c \<noteq> quote_char" "c \<noteq> backslash" by (auto simp: hex_value_def less_eq_char_def)
    with Cons d show ?case by simp
  qed simp
  then show "hex4 h = Some u \<Longrightarrow> ?thesis" by (auto simp: hex4_def split: if_splits)
qed

lemma piece_read: "string_piece d p \<Longrightarrow> readString (p @ s) = readString s"
  by (induction rule: string_piece.induct) (auto simp: hex_digits_plain)

lemma body_read: "string_body d b \<Longrightarrow> readString (b @ quote_char # s) = (True, s)"
  by (induction rule: string_body.induct) (auto simp: piece_read)

lemma simple_escape_u: "simple_escape CHR ''u'' = None"
  by (simp add: simple_escape_def)

lemma piece_decoded:
  "string_piece d p \<Longrightarrow> decode_string_loop tok q (p @ b) acc = decode_string_loop tok q b (acc @ d)"
proof (induction rule: string_piece.induct)
  case (short e c)
  then show ?case using simple_escape_u by (cases "e = CHR ''u''") simp_all
qed (simp_all add: code_point_digits code_point_pair)

lemma body_decoded: "string_body d b \<Longrightarrow> decode_string_loop tok q b acc = Inr (acc @ d)"
  by (induction arbitrary: acc rule: string_body.induct) (simp_all add: piece_decoded)

section \<open>Values\<close>

definition spaces :: "string \<Rightarrow> bool" where
  "spaces w \<longleftrightarrow> (\<forall>c\<in>set w. json_space c)"

text \<open>The texts of a value that is nested at most \<open>n\<close> deep, of the elements of an array and of the members of an object as
  they are written.\<close>

inductive
  value_text :: "'r doubles \<Rightarrow> nat \<Rightarrow> 'r json \<Rightarrow> string \<Rightarrow> bool" and
  elements_text :: "'r doubles \<Rightarrow> nat \<Rightarrow> 'r json list \<Rightarrow> string \<Rightarrow> bool" and
  members_text :: "'r doubles \<Rightarrow> nat \<Rightarrow> (string \<times> 'r json) list \<Rightarrow> string \<Rightarrow> bool"
  for D :: "'r doubles"
where
  null: "value_text D (Suc n) nullValue ''null''"
| true: "value_text D (Suc n) (booleanValue True) ''true''"
| false: "value_text D (Suc n) (booleanValue False) ''false''"
| number: "number_text t \<Longrightarrow> number_value D t = Some v \<Longrightarrow> value_text D (Suc n) v t"
| string: "string_body s b \<Longrightarrow> value_text D (Suc n) (stringValue s) (quote_char # b @ [quote_char])"
| empty_array: "spaces w \<Longrightarrow> value_text D (Suc n) (arrayValue []) (CHR ''['' # w @ '']'')"
| array: "elements_text D n vs t \<Longrightarrow> value_text D (Suc n) (arrayValue (enumerate 0 vs)) (CHR ''['' # t @ '']'')"
| empty_object: "spaces w \<Longrightarrow> value_text D (Suc n) (objectValue []) (CHR ''{'' # w @ ''}'')"
| object: "members_text D n ms t \<Longrightarrow>
    value_text D (Suc n) (objectValue (foldl (\<lambda>m (k, v). map_put key_less k v m) [] ms)) (CHR ''{'' # t @ ''}'')"
| element: "spaces a \<Longrightarrow> value_text D n v t \<Longrightarrow> spaces b \<Longrightarrow> elements_text D n [v] (a @ t @ b)"
| elements: "spaces a \<Longrightarrow> value_text D n v t \<Longrightarrow> spaces b \<Longrightarrow> elements_text D n vs ts \<Longrightarrow>
    elements_text D n (v # vs) (a @ t @ b @ CHR '','' # ts)"
| member: "spaces a \<Longrightarrow> string_body k kb \<Longrightarrow> spaces b \<Longrightarrow> spaces c \<Longrightarrow> value_text D n v t \<Longrightarrow> spaces e \<Longrightarrow>
    members_text D n [(k, v)] (a @ quote_char # kb @ quote_char # b @ CHR '':'' # c @ t @ e)"
| members: "spaces a \<Longrightarrow> string_body k kb \<Longrightarrow> spaces b \<Longrightarrow> spaces c \<Longrightarrow> value_text D n v t \<Longrightarrow> spaces e \<Longrightarrow>
    members_text D n ms ts \<Longrightarrow>
    members_text D n ((k, v) # ms) (a @ quote_char # kb @ quote_char # b @ CHR '':'' # c @ t @ e @ CHR '','' # ts)"

section \<open>The tokens of a text\<close>

lemma skipSpaces_spaces: "spaces w \<Longrightarrow> skipSpaces (w @ s) = skipSpaces s"
  by (induction w) (auto simp: spaces_def)

lemma readToken_spaces: "spaces w \<Longrightarrow> readToken (w @ s) = readToken s"
  by (simp add: readToken_def skipSpaces_spaces)

lemma readToken_at:
  "\<not> json_space c \<Longrightarrow> token_of c s = (t, True, rest) \<Longrightarrow> readToken (c # s) = (True, \<lparr>tok_type = t, tok_start = c # s, tok_end = rest\<rparr>)"
  by (simp add: readToken_def)

lemma no_space [simp]:
  "\<not> json_space CHR ''{''" "\<not> json_space CHR ''}''" "\<not> json_space CHR ''[''" "\<not> json_space CHR '']''"
  "\<not> json_space quote_char" "\<not> json_space CHR '',''" "\<not> json_space CHR '':''" "\<not> json_space CHR ''t''"
  "\<not> json_space CHR ''f''" "\<not> json_space CHR ''n''" "\<not> json_space CHR ''-''"
  by (simp_all add: json_space_def)

lemma json_digit_other [simp]:
  "\<not> json_digit CHR ''{''" "\<not> json_digit CHR ''}''" "\<not> json_digit CHR ''[''" "\<not> json_digit CHR '']''" "\<not> json_digit quote_char"
  "\<not> json_digit CHR ''/''" "\<not> json_digit CHR '':''" "\<not> json_digit CHR '',''" "\<not> json_digit CHR ''t''" "\<not> json_digit CHR ''f''"
  "\<not> json_digit CHR ''n''"
  by (simp_all add: json_digit_def less_eq_char_def)

text \<open>The punctuation and the literals.\<close>

lemma readToken_punct [simp]:
  "readToken (CHR ''{'' # s) = (True, \<lparr>tok_type = tokenObjectBegin, tok_start = CHR ''{'' # s, tok_end = s\<rparr>)"
  "readToken (CHR ''}'' # s) = (True, \<lparr>tok_type = tokenObjectEnd, tok_start = CHR ''}'' # s, tok_end = s\<rparr>)"
  "readToken (CHR ''['' # s) = (True, \<lparr>tok_type = tokenArrayBegin, tok_start = CHR ''['' # s, tok_end = s\<rparr>)"
  "readToken (CHR '']'' # s) = (True, \<lparr>tok_type = tokenArrayEnd, tok_start = CHR '']'' # s, tok_end = s\<rparr>)"
  "readToken (CHR '','' # s) = (True, \<lparr>tok_type = tokenArraySeparator, tok_start = CHR '','' # s, tok_end = s\<rparr>)"
  "readToken (CHR '':'' # s) = (True, \<lparr>tok_type = tokenMemberSeparator, tok_start = CHR '':'' # s, tok_end = s\<rparr>)"
  by (rule readToken_at; simp add: token_of_def)+

lemma readToken_literal [simp]:
  "readToken (CHR ''n'' # CHR ''u'' # CHR ''l'' # CHR ''l'' # s) =
    (True, \<lparr>tok_type = tokenNull, tok_start = CHR ''n'' # CHR ''u'' # CHR ''l'' # CHR ''l'' # s, tok_end = s\<rparr>)"
  "readToken (CHR ''t'' # CHR ''r'' # CHR ''u'' # CHR ''e'' # s) =
    (True, \<lparr>tok_type = tokenTrue, tok_start = CHR ''t'' # CHR ''r'' # CHR ''u'' # CHR ''e'' # s, tok_end = s\<rparr>)"
  "readToken (CHR ''f'' # CHR ''a'' # CHR ''l'' # CHR ''s'' # CHR ''e'' # s) =
    (True, \<lparr>tok_type = tokenFalse, tok_start = CHR ''f'' # CHR ''a'' # CHR ''l'' # CHR ''s'' # CHR ''e'' # s, tok_end = s\<rparr>)"
  by (rule readToken_at; simp add: token_of_def match_literal_def)+

lemma readToken_string:
  "string_body d b \<Longrightarrow> readToken (quote_char # b @ quote_char # s) =
    (True, \<lparr>tok_type = tokenString, tok_start = quote_char # b @ quote_char # s, tok_end = s\<rparr>)"
  by (rule readToken_at) (simp_all add: token_of_def body_read)

lemma decodeString_body:
  assumes "string_body d b"
  shows "decodeString \<lparr>tok_type = t, tok_start = quote_char # b @ quote_char # s, tok_end = s\<rparr> = Inr d"
  by (simp add: decodeString_def token_text_def Let_def body_decoded [OF assms])

lemma readToken_number:
  assumes "number_text t" "follows rest"
  shows "readToken (t @ rest) = (True, \<lparr>tok_type = tokenNumber, tok_start = t @ rest, tok_end = rest\<rparr>)"
proof -
  from assms(1) obtain s i fr ex where t: "t = s @ i @ fr @ ex" "s \<in> {[], ''-''}" "i \<noteq> []" "all_digits i" "fraction_text fr" "exponent_text ex"
    by (auto simp: number_text_def)
  obtain d i' where i: "i = d # i'" "json_digit d" "all_digits i'" using t(3,4) by (cases i) (auto simp: all_digits_def)
  note tail = readNumber_text [OF t(4,5,6) assms(2)] readNumber_text [OF i(3) t(5,6) assms(2)]
  obtain c u where cu: "t = c # u" "json_digit c \<or> c = CHR ''-''" "readNumber (u @ rest) = rest"
  proof (cases "s = []")
    case True
    then have "t = d # (i' @ fr @ ex)" by (simp add: t(1) i(1))
    with i(2) tail(2) that show ?thesis by simp
  next
    case False
    then have "t = CHR ''-'' # (i @ fr @ ex)" using t(2) by (simp add: t(1))
    with tail(1) that show ?thesis by simp
  qed
  have "c \<noteq> CHR ''{''" "c \<noteq> CHR ''}''" "c \<noteq> CHR ''[''" "c \<noteq> CHR '']''" "c \<noteq> quote_char" "c \<noteq> CHR ''/''" "\<not> json_space c"
    using cu(2) by (auto simp: json_space_def json_digit_def less_eq_char_def)
  with cu show ?thesis unfolding cu(1) append_Cons by (intro readToken_at) (simp_all add: token_of_def)
qed

lemma past_comments_other [simp]: "tok_type tok \<noteq> tokenComment \<Longrightarrow> past_comments (ok, tok) = (ok, tok)"
  by (simp add: past_comments.simps)

lemma skipCommentTokens_token: "readToken s = (ok, tok) \<Longrightarrow> tok_type tok \<noteq> tokenComment \<Longrightarrow> skipCommentTokens f s = tok"
  by (simp add: skipCommentTokens_def)

section \<open>Reading a text\<close>

lemma follows_simps [simp]:
  "follows []" "follows (CHR '','' # s)" "follows (CHR '']'' # s)" "follows (CHR ''}'' # s)"
  by (simp_all add: follows_def)

lemma follows_spaces: "spaces b \<Longrightarrow> follows s \<Longrightarrow> follows (b @ s)"
  by (cases b) (auto simp: follows_def spaces_def)

lemma skipSpaces_idem [simp]: "skipSpaces (skipSpaces s) = skipSpaces s"
  by (induction s) auto

lemma skipCommentTokens_skip [simp]: "skipCommentTokens f (skipSpaces s) = skipCommentTokens f s"
  by (simp add: skipCommentTokens_def readToken_def)

lemma readValue_skip: "readValue D f m old (r\<lparr>rd_current := skipSpaces (rd_current r)\<rparr>) = readValue D f m old r"
  by (cases m) simp_all

lemma skipCommentTokens_spaces: "spaces w \<Longrightarrow> skipCommentTokens f (w @ s) = skipCommentTokens f s"
  by (simp add: skipCommentTokens_def readToken_spaces)

lemma number_text_first: "number_text t \<Longrightarrow> \<exists>c u. t = c # u \<and> (json_digit c \<or> c = CHR ''-'')"
proof -
  assume "number_text t"
  then obtain s i u where t: "t = s @ i @ u" "s \<in> {[], ''-''}" "i \<noteq> []" "all_digits i" unfolding number_text_def by blast
  obtain d i' where i: "i = d # i'" "json_digit d" using t(3,4) by (cases i) (auto simp: all_digits_def)
  show ?thesis
  proof (cases "s = []")
    case True
    then have "t = d # (i' @ u)" by (simp add: t(1) i(1))
    with i(2) show ?thesis by blast
  next
    case False
    then have "t = CHR ''-'' # (i @ u)" using t(2) by (simp add: t(1))
    then show ?thesis by blast
  qed
qed

lemma digit_no_space: "json_digit c \<Longrightarrow> \<not> json_space c \<and> c \<noteq> CHR '']''"
  by (auto simp: json_space_def json_digit_def less_eq_char_def)

lemma value_text_first:
  assumes "value_text D n v t"
  shows "\<exists>c u. t = c # u \<and> \<not> json_space c \<and> c \<noteq> CHR '']''"
  using assms
proof cases
  case number
  then obtain c u where cu: "t = c # u" "json_digit c \<or> c = CHR ''-''" using number_text_first [of t] by metis
  moreover from cu(2) have "\<not> json_space c \<and> c \<noteq> CHR '']''" using digit_no_space [of c] by (elim disjE) simp_all
  ultimately show ?thesis by metis
qed simp_all

lemma elements_text_first: "elements_text D n vs t \<Longrightarrow> take 1 (skipSpaces (t @ s)) \<noteq> '']''"
  by (erule elements_text.cases; drule value_text_first) (auto simp: skipSpaces_spaces)

lemma array_loop_skip: "array_loop (readValue D f m) i es (r\<lparr>rd_current := skipSpaces (rd_current r)\<rparr>) = array_loop (readValue D f m) i es r"
  by (subst (1 2) array_loop.simps) (simp add: readValue_skip)

lemma token_text_append [simp]: "token_text \<lparr>tok_type = k, tok_start = t @ rest, tok_end = rest\<rparr> = t"
  by (simp add: token_text_def)

lemma object_loop_empty:
  "spaces w \<Longrightarrow> object_loop D f rv [] ms \<lparr>rd_current = w @ CHR ''}'' # rest, rd_errors = errs\<rparr> =
    Some (Inr (True, objectValue ms, \<lparr>rd_current = rest, rd_errors = errs\<rparr>))"
  by (subst object_loop.simps) (simp add: readToken_spaces)

text \<open>The reader, started in front of a text, succeeds with its value and stops behind the text.\<close>

lemma reads_text:
  "value_text D n v t \<Longrightarrow> n \<le> m \<Longrightarrow> follows rest \<Longrightarrow> spaces w \<Longrightarrow>
    readValue D f m old \<lparr>rd_current = w @ t @ rest, rd_errors = errs\<rparr> = Some (Inr (True, v, \<lparr>rd_current = rest, rd_errors = errs\<rparr>))"
  "elements_text D n vs t \<Longrightarrow> n \<le> m \<Longrightarrow> \<forall>k\<in>fst ` set es. k < i \<Longrightarrow>
    array_loop (readValue D f m) i es \<lparr>rd_current = t @ CHR '']'' # rest, rd_errors = errs\<rparr> =
      Some (Inr (True, arrayValue (es @ enumerate i vs), \<lparr>rd_current = rest, rd_errors = errs\<rparr>))"
  "members_text D n ms t \<Longrightarrow> n \<le> m \<Longrightarrow>
    object_loop D f (readValue D f m) name ms0 \<lparr>rd_current = t @ CHR ''}'' # rest, rd_errors = errs\<rparr> =
      Some (Inr (True, objectValue (foldl (\<lambda>m (k, v). map_put key_less k v m) ms0 ms), \<lparr>rd_current = rest, rd_errors = errs\<rparr>))"
proof (induction arbitrary: m rest w old errs and m es i rest errs and m name ms0 rest errs rule: value_text_elements_text_members_text.inducts)
  case (null n)
  then show ?case by (cases m) (simp_all add: skipCommentTokens_spaces skipCommentTokens_token Let_def)
next
  case (true n)
  then show ?case by (cases m) (simp_all add: skipCommentTokens_spaces skipCommentTokens_token Let_def)
next
  case (false n)
  then show ?case by (cases m) (simp_all add: skipCommentTokens_spaces skipCommentTokens_token Let_def)
next
  case (number t v n)
  then show ?case
    by (cases m) (simp_all add: skipCommentTokens_spaces skipCommentTokens_token [OF readToken_number [OF number(1)]] Let_def
        decodeNumber_exact decoded_value_def)
next
  case (string s b n)
  then show ?case
    by (cases m) (simp_all add: skipCommentTokens_spaces skipCommentTokens_token [OF readToken_string] Let_def
        decodeString_body decoded_value_def)
next
  case (empty_array w' n)
  then show ?case
    by (cases m) (simp_all add: skipCommentTokens_spaces skipCommentTokens_token Let_def readArray_def skipSpaces_spaces)
next
  case (array n vs t)
  then obtain m' where m: "m = Suc m'" "n \<le> m'" by (cases m) auto
  from array_loop_skip [of D f m' 0 "[]" "\<lparr>rd_current = t @ CHR '']'' # rest, rd_errors = errs\<rparr>"] array.IH(2) [OF m(2), of "[]" 0]
    elements_text_first [OF array.IH(1)] array.prems
  show ?case by (simp add: m skipCommentTokens_spaces skipCommentTokens_token Let_def readArray_def)
next
  case (empty_object w' n)
  then show ?case
    by (cases m) (simp_all add: skipCommentTokens_spaces skipCommentTokens_token Let_def readObject_def object_loop_empty)
next
  case (object n ms t)
  then obtain m' where m: "m = Suc m'" "n \<le> m'" by (cases m) auto
  with object show ?case by (simp add: skipCommentTokens_spaces skipCommentTokens_token Let_def readObject_def)
next
  case (element a n v t b)
  have "map_of es i = None" using element.prems(2) by (auto simp: map_of_eq_None_iff)
  with element indices.put_last [of es i v] follows_spaces [of b "CHR '']'' # rest"] show ?case
    by (subst array_loop.simps) (simp add: Let_def readToken_spaces)
next
  case (elements a n v t b vs ts)
  have "map_of es i = None" using elements.prems(2) by (auto simp: map_of_eq_None_iff)
  with elements indices.put_last [of es i v] follows_spaces [of b "CHR '','' # ts @ CHR '']'' # rest"] show ?case
    by (subst array_loop.simps) (auto simp: Let_def readToken_spaces less_Suc_eq)
next
  case (member a k kb b c n v t e)
  then show ?case
    by (subst object_loop.simps)
      (simp add: Let_def readToken_spaces readToken_string member_name_def decodeString_body follows_spaces)
next
  case (members a k kb b c n v t e ms ts)
  then show ?case
    by (subst object_loop.simps)
      (simp add: Let_def readToken_spaces readToken_string member_name_def decodeString_body follows_spaces)
qed

section \<open>Properties of the reader\<close>

lemma stackLimit_Suc: "stackLimit_g = Suc 999"
  by (simp add: stackLimit_g_def)

lemma skipCommentTokens_end: "spaces b \<Longrightarrow> tok_end (skipCommentTokens f b) = []"
proof -
  assume "spaces b"
  then have "readToken b = readToken []" using readToken_spaces [of b "[]"] by simp
  moreover have "readToken [] = (True, \<lparr>tok_type = tokenEndOfStream, tok_start = [], tok_end = []\<rparr>)"
    by (simp add: readToken_def token_of_def)
  ultimately show ?thesis by (simp add: skipCommentTokens_def)
qed

lemma parse_text:
  assumes "value_text D n v t" "n \<le> stackLimit_g" "spaces a" "follows rest" "\<not> strictRoot f \<or> is_container v"
  shows "parse_document D f (a @ t @ rest) root =
    Some (Inr (True, v, \<lparr>rd_current = tok_end (skipCommentTokens f rest), rd_errors = []\<rparr>))"
  using reads_text(1) [OF assms(1,2,4,3)] assms(5) by (auto simp: parse_document_def Let_def)


text \<open>C9: Numbers are read exactly. A text of digits with a sign has its integer value wherever that fits: the bound test of the
  reader never lets the 64-bit value wrap around, and refuses no number that fits. Every other number is left to the
  stream of doubles, and becomes null where the stream fails.\<close>

theorem numbers_read_exactly:
  assumes "number_text t"
  shows "ToJson D t = Some (Inr (
    let neg = (take 1 t = ''-''); n = value_of 10 (if neg then drop 1 t else t) in
    if all_digits (if neg then drop 1 t else t) \<and> (if neg then n \<le> 2 ^ 63 else n < 2 ^ 64) then
      (if neg then intValue (word_of_int (- int n)) else if n < 2 ^ 31 then intValue (word_of_nat n) else uintValue (word_of_nat n))
    else (case db_scan D t of Some x \<Rightarrow> realValue x | None \<Rightarrow> nullValue)))"
proof -
  have tok: "skipCommentTokens features_all t = \<lparr>tok_type = tokenNumber, tok_start = t, tok_end = []\<rparr>"
    using skipCommentTokens_token [OF readToken_number [OF assms, of "[]"]] by simp
  have word: "token_text \<lparr>tok_type = tokenNumber, tok_start = t, tok_end = []\<rparr> = t" by (simp add: token_text_def)
  have "ToJson D t = Some (Inr (case number_value D t of Some v \<Rightarrow> v | None \<Rightarrow> nullValue))"
  proof -
    have "readValue D features_all stackLimit_g nullValue \<lparr>rd_current = t, rd_errors = []\<rparr> =
        decoded_value nullValue (decodeNumber D \<lparr>tok_type = tokenNumber, tok_start = t, tok_end = []\<rparr>) \<lparr>rd_current = [], rd_errors = []\<rparr>"
      unfolding stackLimit_Suc readValue.simps by (simp add: tok Let_def)
    then show ?thesis
      by (simp add: ToJson_def parse_document_def Let_def decodeNumber_exact word decoded_value_def features_all_def split: option.split)
  qed
  also have "\<dots> = Some (Inr (
    let neg = (take 1 t = ''-''); n = value_of 10 (if neg then drop 1 t else t) in
    if all_digits (if neg then drop 1 t else t) \<and> (if neg then n \<le> 2 ^ 63 else n < 2 ^ 64) then
      (if neg then intValue (word_of_int (- int n)) else if n < 2 ^ 31 then intValue (word_of_nat n) else uintValue (word_of_nat n))
    else (case db_scan D t of Some x \<Rightarrow> realValue x | None \<Rightarrow> nullValue)))"
    by (auto simp: number_value_def Let_def split: option.splits)
  finally show ?thesis .
qed

section \<open>Documents that are not JSON texts\<close>

lemma too_deep:
  assumes "take 1 (skipSpaces s) \<noteq> '']''"
  shows "readValue D f n old \<lparr>rd_current = replicate n CHR ''['' @ s, rd_errors = errs\<rparr> = Some (Inl stack_error)"
proof (induction n arbitrary: old)
  case (Suc n)
  let ?t = "replicate n CHR ''['' @ s"
  have "take 1 (skipSpaces ?t) \<noteq> '']''" using assms by (cases n) simp_all
  moreover have "array_loop (readValue D f n) 0 [] \<lparr>rd_current = ?t, rd_errors = errs\<rparr> = Some (Inl stack_error)"
    by (subst array_loop.simps) (simp add: Suc.IH)
  then have "array_loop (readValue D f n) 0 [] \<lparr>rd_current = skipSpaces ?t, rd_errors = errs\<rparr> = Some (Inl stack_error)"
    using array_loop_skip [of D f n 0 "[]" "\<lparr>rd_current = ?t, rd_errors = errs\<rparr>"] by simp
  ultimately show ?case by (simp add: skipCommentTokens_token Let_def readArray_def)
qed simp

lemma nested_arrays:
  "value_text D (Suc n) (((\<lambda>v. arrayValue [(0, v)]) ^^ n) (arrayValue [])) (replicate (Suc n) CHR ''['' @ replicate (Suc n) CHR '']'')"
proof (induction n)
  case 0
  then show ?case using value_text_elements_text_members_text.empty_array [of "[]" D 0] by (simp add: spaces_def)
next
  case (Suc n)
  have r: "replicate (Suc m) x = replicate m x @ [x]" for m and x :: char by (simp add: replicate_append_same)
  from Suc have "elements_text D (Suc n) [((\<lambda>v. arrayValue [(0, v)]) ^^ n) (arrayValue [])] (replicate (Suc n) CHR ''['' @ replicate (Suc n) CHR '']'')"
    using element [of "[]" D "Suc n" _ _ "[]"] by (simp add: spaces_def)
  from array [OF this] show ?case by (subst (2) r) simp
qed


lemmas readValue_numeral = readValue.simps(2) [where nodes = "pred_numeral k" for k, folded numeral_eq_Suc]

lemmas reader_simps = parse_document_def stackLimit_g_def readValue_numeral skipCommentTokens_def features_all_def Let_def readToken_def
  token_of_def json_space_def json_digit_def readNumber_def decodeNumber_exact number_value_def token_text_def decoded_value_def
  less_eq_char_def all_digits_def value_of_def digit_val_def char_nat_def readObject_def object_loop.simps member_name_def
  decodeString_def readArray_def array_loop.simps past_comments.simps recover_loop.simps readComment_def readCStyleComment_def
  recoverFromError_def addErrorAndRecover_def add_error_def key_less_def member_at_def is_container_def decodeUnicodeCodePoint_def
  decodeUnicodeEscapeSequence_def hex_value_def hex_loop.simps(2) [where n = "pred_numeral k" for k, folded numeral_eq_Suc]

text \<open>Some documents that are no JSON texts are read all the same. A minus sign alone is zero. An object may end with a comma
  behind a member with the empty name, which is taken for the name of no member yet. Between a comment and the next
  member any token stands for the comma. An escaped high surrogate joins with the escape of any code point. But an
  array that holds only a comment is refused.\<close>

theorem malformed_documents:
  "ToJson D ''-'' = Some (Inr (intValue 0)) \<and>
   ToJson D ([CHR ''{'', quote_char, quote_char] @ '':1,}'') = Some (Inr (objectValue [([], intValue 1)])) \<and>
   ToJson D ([CHR ''{'', quote_char, CHR ''a'', quote_char] @ '':1/**/2'' @ [quote_char, CHR ''b'', quote_char] @ '':3}'') =
     Some (Inr (objectValue [(''a'', intValue 1), (''b'', intValue 3)])) \<and>
   ToJson D ([quote_char, backslash] @ ''uD800'' @ [backslash] @ ''u0041'' @ [quote_char]) =
     Some (Inr (stringValue (codePointToUTF8 0x10041))) \<and>
   ToJson D ''[/**/]'' = Some (Inr nullValue)"
  by (intro conjI; simp add: ToJson_def reader_simps)

text \<open>C27: \<open>ReadFileJson\<close> does not look at the result of the reader: it reads a file up to its first byte \<open>0xFF\<close>, and where the
  reader fails it returns what had been read before.\<close>

theorem ReadFileJson_reads:
  assumes "value_text D 999 v t" "spaces a" "spaces b" "CHR 0xFF \<notin> set t" "take 1 tail = [CHR 0xFF] \<or> tail = []"
  shows "(case read_file path s of
      None \<Rightarrow> ReadFileJson D path s = Some (Inr nullValue)
    | Some content \<Rightarrow>
        (content = a @ t @ b @ tail \<longrightarrow> ReadFileJson D path s = Some (Inr v)) \<and>
        (content = CHR ''['' # a @ t @ b @ CHR '','' # tail \<longrightarrow> ReadFileJson D path s = Some (Inr (arrayValue [(0, v), (1, nullValue)]))))"
proof -
  have no: "CHR 0xFF \<notin> set w" if "spaces w" for w using that by (auto simp: spaces_def json_space_def)
  have cut: "takeWhile (\<lambda>c. c \<noteq> CHR 0xFF) (w @ tail) = w" if "CHR 0xFF \<notin> set w" for w
    using that assms(5) by (cases tail) (auto simp: takeWhile_append)
  have fb: "follows b" "follows (b @ CHR '','' # [])"
    using follows_spaces [OF assms(3), of "[]"] follows_spaces [OF assms(3), of "CHR '','' # []"] by simp_all
  have strict: "\<not> strictRoot features_all" by (simp add: features_all_def)
  have "parse_document D features_all (a @ t @ b) nullValue = Some (Inr (True, v, \<lparr>rd_current = tok_end (skipCommentTokens features_all b), rd_errors = []\<rparr>))"
    by (rule parse_text [OF assms(1) _ assms(2) fb(1)]) (simp_all add: stackLimit_g_def strict)
  moreover have "takeWhile (\<lambda>c. c \<noteq> CHR 0xFF) (a @ t @ b @ tail) = a @ t @ b" using cut [of "a @ t @ b"] no assms(2,3,4) by simp
  ultimately have "ReadFileJson D path s = Some (Inr v)" if "read_file path s = Some (a @ t @ b @ tail)"
    using that by (simp add: ReadFileJson_def parse_stream_def)
  let ?doc = "a @ t @ b @ '',''"
  have last: "readValue D features_all 999 nullValue \<lparr>rd_current = [], rd_errors = []\<rparr> =
      Some (Inr (False, nullValue, \<lparr>rd_current = [], rd_errors = [json_error ''Syntax error: value, object or array expected.''
        \<lparr>tok_type = tokenEndOfStream, tok_start = [], tok_end = []\<rparr> None]\<rparr>))"
    by (simp add: reader_simps)
  have "array_loop (readValue D features_all 999) 0 [] \<lparr>rd_current = ?doc, rd_errors = []\<rparr> =
      array_loop (readValue D features_all 999) 1 [(0, v)] \<lparr>rd_current = [], rd_errors = []\<rparr>"
    using reads_text(1) [OF assms(1) order_refl fb(2) assms(2)] by (subst array_loop.simps) (simp add: Let_def readToken_spaces [OF assms(3)])
  also have "\<exists>r. \<dots> = Some (Inr (False, arrayValue [(0, v), (1, nullValue)], r))"
    by (subst array_loop.simps) (simp add: last)
  finally obtain r where "array_loop (readValue D features_all 999) 0 [] \<lparr>rd_current = ?doc, rd_errors = []\<rparr> =
      Some (Inr (False, arrayValue [(0, v), (1, nullValue)], r))" by blast
  then have loop: "array_loop (readValue D features_all 999) 0 [] \<lparr>rd_current = skipSpaces ?doc, rd_errors = []\<rparr> =
      Some (Inr (False, arrayValue [(0, v), (1, nullValue)], r))"
    using array_loop_skip [of D features_all 999 0 "[]" "\<lparr>rd_current = ?doc, rd_errors = []\<rparr>"] by simp
  have "take 1 (skipSpaces ?doc) \<noteq> '']''" using value_text_first [OF assms(1)] by (auto simp: skipSpaces_spaces [OF assms(2)])
  with loop have "readValue D features_all stackLimit_g nullValue \<lparr>rd_current = CHR ''['' # ?doc, rd_errors = []\<rparr> =
      Some (Inr (False, arrayValue [(0, v), (1, nullValue)], r))"
    unfolding stackLimit_Suc readValue.simps by (simp add: skipCommentTokens_token Let_def readArray_def)
  moreover have "takeWhile (\<lambda>c. c \<noteq> CHR 0xFF) (CHR ''['' # a @ t @ b @ CHR '','' # tail) = CHR ''['' # ?doc"
    using cut [of "CHR ''['' # ?doc"] no assms(2,3,4) by simp
  ultimately have "ReadFileJson D path s = Some (Inr (arrayValue [(0, v), (1, nullValue)]))"
    if "read_file path s = Some (CHR ''['' # a @ t @ b @ CHR '','' # tail)"
    using that strict by (simp add: ReadFileJson_def parse_stream_def parse_document_def Let_def)
  with \<open>read_file path s = Some (a @ t @ b @ tail) \<Longrightarrow> ReadFileJson D path s = Some (Inr v)\<close>
  show ?thesis by (auto simp: ReadFileJson_def split: option.split)
qed

section \<open>Witnesses\<close>

text \<open>A C library with a single double, which prints as 1.\<close>

definition one_double :: "unit doubles" where
  "one_double = \<lparr>db_finite = \<lambda>_. True, db_nan = \<lambda>_. False, db_negative = \<lambda>_. False, db_format_g = \<lambda>_ _. ''1'',
     db_scan = \<lambda>s. if s = ''1.0'' then Some () else None\<rparr>"

lemma digit_text: "all_digits ds \<Longrightarrow> ds \<noteq> [] \<Longrightarrow> number_text ds"
  unfolding number_text_def by (rule exI [of _ "[]"], rule exI [of _ ds], rule exI [of _ "[]"], rule exI [of _ "[]"])
    (simp add: fraction_text_def exponent_text_def)


lemma numbers_read_exactly_witness: "ToJson one_double ''2147483648'' = Some (Inr (uintValue 2147483648))"
proof -
  have "number_text ''2147483648''" by (rule digit_text) (simp_all add: all_digits_def json_digit_def less_eq_char_def)
  from numbers_read_exactly [OF this, of one_double] show ?thesis
    by (simp add: all_digits_def json_digit_def less_eq_char_def value_of_def digit_val_def char_nat_def Let_def)
qed


lemma ReadFileJson_reads_witness:
  "ReadFileJson one_double ''/j'' \<lparr>fs_root = Dir [(''j'', File ''[7,'')], fs_cwd = [], fs_fds = 9, fs_refused = \<lambda>_ _. False\<rparr> =
    Some (Inr (arrayValue [(0, intValue 7), (1, nullValue)]))"
proof -
  let ?s = "\<lparr>fs_root = Dir [(''j'', File ''[7,'')], fs_cwd = [], fs_fds = 9, fs_refused = \<lambda>_ _. False\<rparr>"
  have "value_text one_double 999 (intValue 7) ''7''"
    using number [OF digit_text, of "''7''" one_double "intValue 7" 998]
    by (simp add: all_digits_def json_digit_def less_eq_char_def number_value_def value_of_def digit_val_def char_nat_def Let_def)
  moreover have "read_file ''/j'' ?s = Some ''[7,''" by (simp add: read_file_def resolve_def path_start_def)
  ultimately show ?thesis using ReadFileJson_reads [of one_double "intValue 7" "''7''" "[]" "[]" "[]" "''/j''" ?s] by (simp add: spaces_def)
qed

end
