(* ===== verification/JsonWriter.thy ===== *)
theory JsonWriter
  imports JsonText StringUtils
begin

text \<open>
  The writer of the JSON library the application uses (\<open>Json::FastWriter\<close> of \<open>json/json_writer.cpp\<close>) and \<open>Json2String\<close> of
  \<open>json/json_helper.cpp\<close>. The bytes of a text that are not ASCII are written as escapes of the code points they encode.
\<close>

definition char_word :: "char \<Rightarrow> 32 word" where
  "char_word c = word_of_nat (of_char c)"

definition requires_escaping :: "char \<Rightarrow> bool" where
  "requires_escaping c \<longleftrightarrow> c = backslash \<or> c = quote_char \<or> char_word c < 0x20 \<or> char_word c > 0x7F"

definition doesAnyCharRequireEscaping :: "string \<Rightarrow> bool" where
  "doesAnyCharRequireEscaping s \<longleftrightarrow> list_ex requires_escaping s"

definition REPLACEMENT_CHARACTER :: "32 word" where
  "REPLACEMENT_CHARACTER = 0xFFFD"

text \<open>The code point at the start of a text, and the text behind it.\<close>

definition utf8ToCodepoint :: "string \<Rightarrow> 32 word \<times> string" where
  "utf8ToCodepoint s =
     (let firstByte = char_word (hd s) in
      if firstByte < 0x80 then (firstByte, drop 1 s)
      else if firstByte < 0xE0 then
        if length s < 2 then (REPLACEMENT_CHARACTER, drop 1 s)
        else
          let calculated = push_bit 6 (firstByte AND 0x1F) OR (char_word (s ! 1) AND 0x3F) in
          (if calculated < 0x80 then REPLACEMENT_CHARACTER else calculated, drop 2 s)
      else if firstByte < 0xF0 then
        if length s < 3 then (REPLACEMENT_CHARACTER, drop 1 s)
        else
          let calculated = push_bit 12 (firstByte AND 0x0F) OR push_bit 6 (char_word (s ! 1) AND 0x3F) OR (char_word (s ! 2) AND 0x3F) in
          (if 0xD800 \<le> calculated \<and> calculated \<le> 0xDFFF then REPLACEMENT_CHARACTER
           else if calculated < 0x800 then REPLACEMENT_CHARACTER else calculated, drop 3 s)
      else if firstByte < 0xF8 then
        if length s < 4 then (REPLACEMENT_CHARACTER, drop 1 s)
        else
          let calculated = push_bit 18 (firstByte AND 0x07) OR push_bit 12 (char_word (s ! 1) AND 0x3F) OR
                push_bit 6 (char_word (s ! 2) AND 0x3F) OR (char_word (s ! 3) AND 0x3F) in
          (if calculated < 0x10000 then REPLACEMENT_CHARACTER else calculated, drop 4 s)
      else (REPLACEMENT_CHARACTER, drop 1 s))"

definition hex2 :: string where
  "hex2 =
     ''000102030405060708090a0b0c0d0e0f'' @
     ''101112131415161718191a1b1c1d1e1f'' @
     ''202122232425262728292a2b2c2d2e2f'' @
     ''303132333435363738393a3b3c3d3e3f'' @
     ''404142434445464748494a4b4c4d4e4f'' @
     ''505152535455565758595a5b5c5d5e5f'' @
     ''606162636465666768696a6b6c6d6e6f'' @
     ''707172737475767778797a7b7c7d7e7f'' @
     ''808182838485868788898a8b8c8d8e8f'' @
     ''909192939495969798999a9b9c9d9e9f'' @
     ''a0a1a2a3a4a5a6a7a8a9aaabacadaeaf'' @
     ''b0b1b2b3b4b5b6b7b8b9babbbcbdbebf'' @
     ''c0c1c2c3c4c5c6c7c8c9cacbcccdcecf'' @
     ''d0d1d2d3d4d5d6d7d8d9dadbdcdddedf'' @
     ''e0e1e2e3e4e5e6e7e8e9eaebecedeeef'' @
     ''f0f1f2f3f4f5f6f7f8f9fafbfcfdfeff''"

definition toHex16Bit :: "32 word \<Rightarrow> string" where
  "toHex16Bit x =
     (let hi = drop_bit 8 x AND 0xFF; lo = x AND 0xFF in
      [hex2 ! unat (2 * hi), hex2 ! unat (2 * hi + 1), hex2 ! unat (2 * lo), hex2 ! unat (2 * lo + 1)])"

definition hexEscape :: "32 word \<Rightarrow> string" where
  "hexEscape ch = backslash # CHR ''u'' # toHex16Bit ch"

definition quote_codepoint :: "32 word \<Rightarrow> string" where
  "quote_codepoint codepoint =
     (if codepoint < 0x20 then hexEscape codepoint
      else if codepoint < 0x80 then [word_char codepoint]
      else if codepoint < 0x10000 then hexEscape codepoint
      else
        let cp = codepoint - 0x10000 in
        hexEscape (0xD800 + (drop_bit 10 cp AND 0x3FF)) @ hexEscape (0xDC00 + (cp AND 0x3FF)))"

lemma utf8_rest: "s \<noteq> [] \<Longrightarrow> length (snd (utf8ToCodepoint s)) < length s"
  by (cases s) (auto simp: utf8ToCodepoint_def Let_def)

function quote_loop :: "bool \<Rightarrow> string \<Rightarrow> string" where
  "quote_loop emitUTF8 [] = []"
| "quote_loop emitUTF8 (c # s) =
     (if c = quote_char then [backslash, quote_char] @ quote_loop emitUTF8 s
      else if c = backslash then [backslash, backslash] @ quote_loop emitUTF8 s
      else if c = CHR 0x08 then [backslash, CHR ''b''] @ quote_loop emitUTF8 s
      else if c = CHR 0x0C then [backslash, CHR ''f''] @ quote_loop emitUTF8 s
      else if c = newline then [backslash, CHR ''n''] @ quote_loop emitUTF8 s
      else if c = CHR 0x0D then [backslash, CHR ''r''] @ quote_loop emitUTF8 s
      else if c = CHR 0x09 then [backslash, CHR ''t''] @ quote_loop emitUTF8 s
      else if emitUTF8 then
        (if char_word c < 0x20 then hexEscape (char_word c) else [word_char (char_word c)]) @ quote_loop emitUTF8 s
      else quote_codepoint (fst (utf8ToCodepoint (c # s))) @ quote_loop emitUTF8 (snd (utf8ToCodepoint (c # s))))"
  by pat_completeness auto
termination
proof (relation "measure (\<lambda>(_, s). length s)", goal_cases)
  case (10 emitUTF8 c s)
  then show ?case using utf8_rest [of "c # s"] by simp
qed auto

text \<open>A text without such characters is appended as a C string.\<close>

definition valueToQuotedStringN :: "bool \<Rightarrow> string \<Rightarrow> string" where
  "valueToQuotedStringN emitUTF8 s =
     (if \<not> doesAnyCharRequireEscaping s then [quote_char] @ c_str s @ [quote_char]
      else [quote_char] @ quote_loop emitUTF8 s @ [quote_char])"

record fast_writer =
  yamlCompatibilityEnabled :: bool
  dropNullPlaceholders :: bool
  omitEndingLineFeed :: bool

definition FastWriter :: fast_writer where
  "FastWriter = \<lparr>yamlCompatibilityEnabled = False, dropNullPlaceholders = False, omitEndingLineFeed = False\<rparr>"

definition array_size :: "(nat \<times> 'r json) list \<Rightarrow> nat" where
  "array_size elements = (if elements = [] then 0 else fst (last elements) + 1)"

definition element_at :: "nat \<Rightarrow> (nat \<times> 'r json) list \<Rightarrow> 'r json" where
  "element_at index elements = (case map_of elements index of Some v \<Rightarrow> v | None \<Rightarrow> nullValue)"

lemma map_of_size: "map_of m k = Some v \<Longrightarrow> size v < Suc (size_list (size_prod (\<lambda>_. 0) size) m)"
proof -
  assume "map_of m k = Some v"
  then have "(k, v) \<in> set m" by (rule map_of_SomeD)
  then show ?thesis by (induction m) auto
qed

lemma element_size: "i < array_size es \<Longrightarrow> size (element_at i es) < size (arrayValue es)"
  using map_of_size [of es i] by (cases es) (auto simp: element_at_def array_size_def split: option.splits)

lemma member_size: "m \<in> set ms \<Longrightarrow> size (member_at k ms) < size (objectValue ms)"
  using map_of_size [of ms k] by (cases ms) (auto simp: member_at_def split: option.splits)

function writeValue :: "'r doubles \<Rightarrow> fast_writer \<Rightarrow> 'r json \<Rightarrow> string" where
  "writeValue D w nullValue = (if \<not> dropNullPlaceholders w then ''null'' else [])"
| "writeValue D w (intValue n) = valueToString_int n"
| "writeValue D w (uintValue n) = uintToString n"
| "writeValue D w (realValue x) = valueToString_double D x"
| "writeValue D w (stringValue s) = valueToQuotedStringN False s"
| "writeValue D w (booleanValue b) = (if b then ''true'' else ''false'')"
| "writeValue D w (arrayValue elements) =
     ''['' @ join '','' (map (\<lambda>index. writeValue D w (element_at index elements)) [0..<array_size elements]) @ '']''"
| "writeValue D w (objectValue members) =
     ''{'' @ join '',''
       (map (\<lambda>name. valueToQuotedStringN False name @ (if yamlCompatibilityEnabled w then CHR '':'' # '' '' else '':'') @
          writeValue D w (member_at name members)) (map fst members)) @ ''}''"
  by pat_completeness auto
termination
  by (relation "measure (\<lambda>(_, _, v). size v)") (auto simp: element_size member_size simp del: json.size)

definition fast_write :: "'r doubles \<Rightarrow> fast_writer \<Rightarrow> 'r json \<Rightarrow> string" where
  "fast_write D w root = writeValue D w root @ (if \<not> omitEndingLineFeed w then [newline] else [])"

definition Json2String :: "'r doubles \<Rightarrow> 'r json \<Rightarrow> string" where
  "Json2String D json = fast_write D FastWriter json"

section \<open>Code points and their bytes\<close>

lemma mask_words: "(0x07 :: 32 word) = mask 3" "(0x0F :: 32 word) = mask 4" "(0x1F :: 32 word) = mask 5" "(0x3F :: 32 word) = mask 6"
  "(0xFF :: 32 word) = mask 8" "(0x3FF :: 32 word) = mask 10"
  by (simp_all add: mask_eq_exp_minus_1)

lemma bit_below: "unat (cp :: 32 word) < 2 ^ k \<Longrightarrow> bit cp n \<Longrightarrow> n < k"
proof -
  assume "unat cp < 2 ^ k" "bit cp n"
  then have "take_bit k cp = cp" by (simp add: word_unat_eq_iff unat_take_bit_word)
  with \<open>bit cp n\<close> show ?thesis by (metis bit_take_bit_iff)
qed

lemma char_word_char: "w < 0x100 \<Longrightarrow> char_word (word_char w) = w"
  by (simp add: char_word_def word_char_def word_less_nat_alt)

lemma lead_byte:
  "(0xC0 OR (0x1F AND x)) AND 0x1F = 0x1F AND (x :: 32 word)"
  "(0xE0 OR (0xF AND x)) AND 0x0F = 0xF AND x"
  "(0xF0 OR (0x7 AND x)) AND 0x07 = 0x7 AND x"
  "(0x80 OR (0x3F AND x)) AND 0x3F = 0x3F AND x"
proof -
  have *: "(a OR (m AND x)) AND m = (a AND m) OR (m AND x)" for a m :: "32 word" by (rule bit_word_eqI) (auto simp: bit_simps)
  show "(0xC0 OR (0x1F AND x)) AND 0x1F = 0x1F AND x" "(0xE0 OR (0xF AND x)) AND 0x0F = 0xF AND x"
    "(0xF0 OR (0x7 AND x)) AND 0x07 = 0x7 AND x" "(0x80 OR (0x3F AND x)) AND 0x3F = 0x3F AND x"
    unfolding * by simp_all
qed

lemma or_bounds:
  fixes x :: "32 word"
  shows "0xC0 \<le> 0xC0 OR (0x1F AND x)" "0xC0 OR (0x1F AND x) < 0xE0"
    "0xE0 \<le> 0xE0 OR (0xF AND x)" "0xE0 OR (0xF AND x) < 0xF0"
    "0xF0 \<le> 0xF0 OR (0x7 AND x)" "0xF0 OR (0x7 AND x) < 0xF8"
    "0x80 \<le> 0x80 OR (0x3F AND x)" "0x80 OR (0x3F AND x) < 0xC0"
proof -
  have or_plus: "a OR b = a + b" if "a AND b = 0" for a b :: "32 word"
    using that by (intro disjunctive_add [symmetric]) (metis bit_0_eq bit_and_iff bot_apply bot_bool_def)
  have eq: "0xC0 OR (0x1F AND x) = 0xC0 + (0x1F AND x)" "0xE0 OR (0xF AND x) = 0xE0 + (0xF AND x)"
    "0xF0 OR (0x7 AND x) = 0xF0 + (0x7 AND x)" "0x80 OR (0x3F AND x) = 0x80 + (0x3F AND x)"
    by (rule or_plus; simp flip: and.assoc)+
  have le: "0x1F AND x \<le> 0x1F" "0xF AND x \<le> 0xF" "0x7 AND x \<le> 0x7" "0x3F AND x \<le> 0x3F" by (simp_all add: word_and_le2 word_and_le1)
  show "0xC0 \<le> 0xC0 OR (0x1F AND x)" "0xC0 OR (0x1F AND x) < 0xE0"
    "0xE0 \<le> 0xE0 OR (0xF AND x)" "0xE0 OR (0xF AND x) < 0xF0"
    "0xF0 \<le> 0xF0 OR (0x7 AND x)" "0xF0 OR (0x7 AND x) < 0xF8"
    "0x80 \<le> 0x80 OR (0x3F AND x)" "0x80 OR (0x3F AND x) < 0xC0"
    unfolding eq using le by (simp_all add: word_le_nat_alt word_less_nat_alt unat_word_ariths)
qed

lemma join_bits:
  fixes cp :: "32 word"
  shows "unat cp < 2 ^ 11 \<Longrightarrow> push_bit 6 (0x1F AND drop_bit 6 cp) OR (0x3F AND cp) = cp"
    "unat cp < 2 ^ 16 \<Longrightarrow> push_bit 12 (0xF AND drop_bit 12 cp) OR push_bit 6 (0x3F AND drop_bit 6 cp) OR (0x3F AND cp) = cp"
    "unat cp < 2 ^ 21 \<Longrightarrow> push_bit 18 (0x7 AND drop_bit 18 cp) OR push_bit 12 (0x3F AND drop_bit 12 cp) OR
      push_bit 6 (0x3F AND drop_bit 6 cp) OR (0x3F AND cp) = cp"
proof -
  show "push_bit 6 (0x1F AND drop_bit 6 cp) OR (0x3F AND cp) = cp" if "unat cp < 2 ^ 11"
    by (rule bit_word_eqI) (auto simp: mask_words bit_simps dest: bit_below [OF that])
  show "push_bit 12 (0xF AND drop_bit 12 cp) OR push_bit 6 (0x3F AND drop_bit 6 cp) OR (0x3F AND cp) = cp" if "unat cp < 2 ^ 16"
    by (rule bit_word_eqI) (auto simp: mask_words bit_simps dest: bit_below [OF that])
  show "push_bit 18 (0x7 AND drop_bit 18 cp) OR push_bit 12 (0x3F AND drop_bit 12 cp) OR
      push_bit 6 (0x3F AND drop_bit 6 cp) OR (0x3F AND cp) = cp" if "unat cp < 2 ^ 21"
    by (rule bit_word_eqI) (auto simp: mask_words bit_simps dest: bit_below [OF that])
qed

text \<open>The code points that UTF-8 encodes.\<close>

definition scalar :: "32 word \<Rightarrow> bool" where
  "scalar cp \<longleftrightarrow> cp \<le> 0x10FFFF \<and> \<not> (0xD800 \<le> cp \<and> cp \<le> 0xDFFF)"

lemma char_word_lead:
  "char_word (word_char (0xC0 OR (0x1F AND x))) = 0xC0 OR (0x1F AND x)"
  "char_word (word_char (0xE0 OR (0xF AND x))) = 0xE0 OR (0xF AND x)"
  "char_word (word_char (0xF0 OR (0x7 AND x))) = 0xF0 OR (0x7 AND x)"
  "char_word (word_char (0x80 OR (0x3F AND x))) = 0x80 OR (0x3F AND x)"
  using or_bounds [of x] by (intro char_word_char; auto intro: less_trans)+

lemma utf8_codepoint:
  assumes "scalar cp"
  shows "utf8ToCodepoint (codePointToUTF8 cp @ rest) = (cp, rest)"
proof -
  have below: "\<not> x < (0x80 :: 32 word)" "\<not> x < 0xE0" "\<not> x < 0xF0" if "0xF0 \<le> x" for x
    using that by (auto simp: not_less word_le_nat_alt)
  have below2: "\<not> x < (0x80 :: 32 word)" "\<not> x < 0xE0" if "0xE0 \<le> x" for x
    using that by (auto simp: not_less word_le_nat_alt)
  have below3: "\<not> x < (0x80 :: 32 word)" if "0xC0 \<le> x" for x
    using that by (auto simp: not_less word_le_nat_alt)
  consider "cp \<le> 0x7F" | "\<not> cp \<le> 0x7F" "cp \<le> 0x7FF" | "\<not> cp \<le> 0x7F" "\<not> cp \<le> 0x7FF" "cp \<le> 0xFFFF"
    | "\<not> cp \<le> 0x7F" "\<not> cp \<le> 0x7FF" "\<not> cp \<le> 0xFFFF" "cp \<le> 0x10FFFF" using assms by (auto simp: scalar_def)
  then show ?thesis
  proof cases
    case 1
    then have "cp < 0x80" "char_word (word_char cp) = cp" by (auto simp: word_le_nat_alt word_less_nat_alt intro!: char_word_char)
    with 1 show ?thesis by (simp add: codePointToUTF8_def utf8ToCodepoint_def Let_def)
  next
    case 2
    then have "unat cp < 2 ^ 11" "\<not> cp < 0x80" by (auto simp: word_le_nat_alt word_less_nat_alt)
    with 2 join_bits(1) [of cp] or_bounds(1,2) [of "drop_bit 6 cp"] below3 show ?thesis
      by (simp add: codePointToUTF8_def utf8ToCodepoint_def Let_def char_word_lead lead_byte)
  next
    case 3
    then have "unat cp < 2 ^ 16" "\<not> cp < 0x800" by (auto simp: word_le_nat_alt word_less_nat_alt)
    with 3 join_bits(2) [of cp] or_bounds(3,4) [of "drop_bit 12 cp"] below2 assms show ?thesis
      by (auto simp: codePointToUTF8_def utf8ToCodepoint_def Let_def char_word_lead lead_byte scalar_def)
  next
    case 4
    then have "unat cp < 2 ^ 21" "\<not> cp < 0x10000" by (auto simp: word_le_nat_alt word_less_nat_alt)
    with 4 join_bits(3) [of cp] or_bounds(5,6) [of "drop_bit 18 cp"] below show ?thesis
      by (simp add: codePointToUTF8_def utf8ToCodepoint_def Let_def char_word_lead lead_byte)
  qed
qed

abbreviation hex_chars :: string where
  "hex_chars \<equiv> ''0123456789abcdef''"

lemma hex2_pairs: "hex2 = concat (map (\<lambda>a. concat (map (\<lambda>b. [a, b]) hex_chars)) hex_chars)"
  by (simp add: hex2_def)

lemma nth_concat_blocks:
  "\<forall>x\<in>set xs. length (f x) = k \<Longrightarrow> i < length xs \<Longrightarrow> j < k \<Longrightarrow> concat (map f xs) ! (k * i + j) = f (xs ! i) ! j"
proof (induction xs arbitrary: i)
  case (Cons x xs)
  then show ?case by (cases i) (simp_all add: nth_append)
qed simp

lemma hex2_nth:
  assumes "a < 16" "b < 16"
  shows "hex2 ! (2 * (16 * a + b)) = hex_chars ! a" "hex2 ! (2 * (16 * a + b) + 1) = hex_chars ! b"
proof -
  have row: "concat (map (\<lambda>b. [x, b]) hex_chars) ! (2 * b + j) = [x, hex_chars ! b] ! j" if "j < 2" for x j
    using nth_concat_blocks [of hex_chars "\<lambda>b. [x, b]" 2 b j] assms(2) that by (simp only: list.size length_Cons) simp
  have "hex2 ! (32 * a + (2 * b + j)) = [hex_chars ! a, hex_chars ! b] ! j" if "j < 2" for j
    unfolding hex2_pairs using assms that row [OF that] by (subst nth_concat_blocks) (simp_all only: length_Cons, simp_all)
  from this [of 0] this [of 1]
  show "hex2 ! (2 * (16 * a + b)) = hex_chars ! a" "hex2 ! (2 * (16 * a + b) + 1) = hex_chars ! b"
    by (simp_all add: algebra_simps del: nth_Cons_numeral)
qed

lemma hex_value_digits: "list_all (\<lambda>d. hex_value (hex_chars ! d) = Some (word_of_nat d)) [0..<16]"
  by code_simp

lemma hex_value_digit: "d < 16 \<Longrightarrow> hex_value (hex_chars ! d) = Some (word_of_nat d)"
  using hex_value_digits by (simp only: list_all_iff atLeastLessThan_upt atLeastLessThan_iff) simp

lemma hex2_digits:
  assumes "h < 0x100"
  shows "hex_value (hex2 ! unat (2 * h)) = Some (h div 16)" "hex_value (hex2 ! unat (2 * h + 1)) = Some (h mod 16)"
proof -
  have u: "unat h < 256" using assms by (simp add: word_less_nat_alt)
  then have i: "unat (2 * h) = 2 * unat h" "unat (2 * h + 1) = 2 * unat h + 1" by (simp_all add: unat_word_ariths)
  have "unat h div 16 < 4294967296" using u by simp
  then have "h div 16 = word_of_nat (unat h div 16)" "h mod 16 = word_of_nat (unat h mod 16)"
    by (simp_all add: word_unat_eq_iff unat_div_distrib unat_mod_distrib unat_of_nat take_bit_eq_mod u less_imp_diff_less)
  moreover have "unat h div 16 < 16" "unat h mod 16 < 16" "16 * (unat h div 16) + unat h mod 16 = unat h" using u by simp_all
  note hex2_nth [OF this(1,2), unfolded this(3)] hex_value_digit [OF this(1)] hex_value_digit [OF this(2)]
  ultimately show "hex_value (hex2 ! unat (2 * h)) = Some (h div 16)" "hex_value (hex2 ! unat (2 * h + 1)) = Some (h mod 16)"
    by (simp_all only: i)
qed

lemma hex4_toHex16Bit:
  assumes "x < 0x10000"
  shows "hex4 (toHex16Bit x) = Some x"
proof -
  define hi where "hi = drop_bit 8 x AND 0xFF"
  define lo where "lo = x AND 0xFF"
  have x: "unat x < 65536" using assms by (simp add: word_less_nat_alt)
  have u: "unat hi = unat x div 256" "unat lo = unat x mod 256"
    using x by (simp_all add: hi_def lo_def mask_words flip: take_bit_eq_mask) (simp_all add: unat_take_bit_word unat_drop_bit_word)
  have lt: "hi < 0x100" "lo < 0x100" using u x by (simp_all add: word_less_nat_alt)
  have "hi * 256 + lo = x" using u x by (simp add: word_unat_eq_iff unat_word_ariths)
  moreover have "(p * 16 + a) * 16 + b = p * 256 + (a * 16 + b)" for p a b :: "32 word" by (simp add: algebra_simps)
  ultimately have "((hi div 16 * 16 + hi mod 16) * 16 + lo div 16) * 16 + lo mod 16 = x" by (simp only: div_mult_mod_eq)
  then show ?thesis
    by (simp add: hex4_def toHex16Bit_def hi_def [symmetric] lo_def [symmetric] Let_def hex2_digits [OF lt(1)] hex2_digits [OF lt(2)])
qed

section \<open>Writing strings\<close>

text \<open>A well-formed UTF-8 text: the bytes of a sequence of code points.\<close>

definition utf8_text :: "32 word list \<Rightarrow> string" where
  "utf8_text cps = concat (map codePointToUTF8 cps)"

definition valid_utf8 :: "string \<Rightarrow> bool" where
  "valid_utf8 s \<longleftrightarrow> (\<exists>cps. s = utf8_text cps \<and> (\<forall>cp\<in>set cps. scalar cp))"

text \<open>The escapes the writer uses for a code point.\<close>

lemma quote_codepoint_piece:
  assumes "scalar cp" "cp \<noteq> 0x22" "cp \<noteq> 0x5C"
  shows "string_piece (codePointToUTF8 cp) (quote_codepoint cp)"
proof -
  consider "cp < 0x20" | "\<not> cp < 0x20" "cp < 0x80" | "\<not> cp < 0x80" "cp < 0x10000" | "\<not> cp < 0x10000" by fastforce
  then show ?thesis
  proof cases
    case 1
    then have "cp < 0x10000" "\<not> high_surrogate cp" by (auto simp: high_surrogate_def word_le_nat_alt word_less_nat_alt)
    with 1 show ?thesis by (simp add: quote_codepoint_def hexEscape_def code hex4_toHex16Bit)
  next
    case 2
    then have "cp \<le> 0x7F" "cp < 0x100" by (auto simp: word_le_nat_alt word_less_nat_alt)
    moreover have "word_char cp \<noteq> quote_char" "word_char cp \<noteq> backslash"
      using assms(2,3) char_word_char [OF \<open>cp < 0x100\<close>] by (auto simp: char_word_def)
    ultimately show ?thesis using 2 by (simp add: quote_codepoint_def codePointToUTF8_def plain)
  next
    case 3
    then have "\<not> high_surrogate cp" using assms(1) by (auto simp: scalar_def high_surrogate_def word_le_nat_alt)
    moreover have "\<not> cp < 0x20" using 3 by (auto simp: word_less_nat_alt)
    ultimately show ?thesis using 3 by (simp add: quote_codepoint_def hexEscape_def code hex4_toHex16Bit)
  next
    case 4
    define c where "c = cp - 0x10000"
    have c: "unat c < 2 ^ 20" "cp = 0x10000 + c"
      using 4 assms(1) by (auto simp: c_def scalar_def word_le_nat_alt word_less_nat_alt unat_sub)
    define h where "h = drop_bit 10 c AND 0x3FF"
    define l where "l = c AND 0x3FF"
    have hl: "h < 0x400" "l < 0x400" unfolding h_def l_def
      by (rule le_less_trans [OF word_and_le1], simp)+
    then have s: "0xD800 + h < 0x10000" "0xDC00 + l < 0x10000" "high_surrogate (0xD800 + h)" "low_surrogate (0xDC00 + l)"
      by (simp_all add: word_less_nat_alt word_le_nat_alt unat_word_ariths high_surrogate_def low_surrogate_def)
    have u: "unat h = unat c div 1024" "unat l = unat c mod 1024"
      using c(1) by (simp_all add: h_def l_def mask_words flip: take_bit_eq_mask) (simp_all add: unat_take_bit_word unat_drop_bit_word)
    have m: "(55296 + n) mod 1024 = n" "(56320 + n) mod 1024 = n" if "n < 1024" for n :: nat
      using mod_mult_self3 [of 54 1024 n] mod_mult_self3 [of 55 1024 n] that by simp_all
    have "unat (0xD800 + h) = 55296 + unat h" "unat (0xDC00 + l) = 56320 + unat l"
      using hl by (simp_all add: word_less_nat_alt unat_word_ariths)
    then have low: "(0xD800 + h) AND 0x3FF = h" "(0xDC00 + l) AND 0x3FF = l"
      using hl m by (simp_all add: mask_words word_unat_eq_iff word_less_nat_alt unat_take_bit_word flip: take_bit_eq_mask)
    have "push_bit 10 h + l = c" using u c(1) by (simp add: push_bit_eq_mult word_unat_eq_iff unat_word_ariths)
    then have "push_bit 10 ((0xD800 + h) AND 0x3FF) + ((0xDC00 + l) AND 0x3FF) = c" by (simp only: low)
    with c(2) have cp: "0x10000 + push_bit 10 ((0xD800 + h) AND 0x3FF) + ((0xDC00 + l) AND 0x3FF) = cp" by (simp add: add.assoc)
    have "\<not> cp < 0x20" "\<not> cp < 0x80" using 4 by (auto simp: word_less_nat_alt)
    with 4 pair [OF hex4_toHex16Bit [OF s(1)] s(3) hex4_toHex16Bit [OF s(2)] s(4), unfolded cp] show ?thesis
      by (simp add: quote_codepoint_def hexEscape_def c_def [symmetric] h_def [symmetric] l_def [symmetric] Let_def)
  qed
qed

lemma codePointToUTF8_first:
  assumes "scalar cp"
  obtains c u where "codePointToUTF8 cp = c # u" "if cp < 0x80 then c = word_char cp \<and> u = [] else 0x80 \<le> char_word c"
proof (cases "cp < 0x80")
  case True
  then have "cp \<le> 0x7F" by (simp add: word_less_nat_alt word_le_nat_alt)
  with True that [of "word_char cp" "[]"] show thesis by (simp add: codePointToUTF8_def)
next
  case False
  then have "\<not> cp \<le> 0x7F" by (simp add: word_less_nat_alt word_le_nat_alt)
  with assms have c: "codePointToUTF8 cp \<noteq> []" "char_word (hd (codePointToUTF8 cp)) \<ge> 0x80"
    using or_bounds [of "drop_bit 6 cp"] or_bounds [of "drop_bit 12 cp"] or_bounds [of "drop_bit 18 cp"]
    by (auto simp: codePointToUTF8_def scalar_def char_word_lead intro: order_trans)
  then obtain c u where "codePointToUTF8 cp = c # u" by (cases "codePointToUTF8 cp") auto
  with c False that show thesis by simp
qed

lemma quote_loop_codepoint:
  assumes "scalar cp"
  shows "\<exists>p. string_piece (codePointToUTF8 cp) p \<and> quote_loop False (codePointToUTF8 cp @ s) = p @ quote_loop False s"
proof -
  obtain c u where cu: "codePointToUTF8 cp = c # u" "if cp < 0x80 then c = word_char cp \<and> u = [] else 0x80 \<le> char_word c"
    by (rule codePointToUTF8_first [OF assms])
  let ?short = "{quote_char, backslash, CHR 0x08, CHR 0x0C, newline, CHR 0x0D, CHR 0x09}"
  show ?thesis
  proof (cases "c \<in> ?short")
    case True
    then have "char_word c < 0x80" by (auto simp: char_word_def)
    then have u: "u = []" using cu(2) by (auto simp: not_less split: if_splits)
    from True have "\<exists>e. simple_escape e = Some c \<and> quote_loop False (c # s) = [backslash, e] @ quote_loop False s"
      by (auto simp: simple_escape_def)
    with u short show ?thesis unfolding cu(1) by fastforce
  next
    case False
    have "(char_of (34 :: nat) :: char) = quote_char" "(char_of (92 :: nat) :: char) = backslash" by code_simp+
    with False cu(2) have "cp \<noteq> 0x22" "cp \<noteq> 0x5C" by (auto simp: word_char_def)
    then have "string_piece (codePointToUTF8 cp) (quote_codepoint cp)" by (rule quote_codepoint_piece [OF assms])
    moreover have "quote_loop False (codePointToUTF8 cp @ s) = quote_codepoint cp @ quote_loop False s"
      using False utf8_codepoint [OF assms, of s] by (simp add: cu(1))
    ultimately show ?thesis by blast
  qed
qed

lemma quote_loop_body: "\<forall>cp\<in>set cps. scalar cp \<Longrightarrow> string_body (utf8_text cps) (quote_loop False (utf8_text cps))"
proof (induction cps)
  case Nil
  then show ?case by (simp add: utf8_text_def string_body.empty)
next
  case (Cons cp cps)
  then obtain p where "string_piece (codePointToUTF8 cp) p" "quote_loop False (utf8_text (cp # cps)) = p @ quote_loop False (utf8_text cps)"
    using quote_loop_codepoint [of cp "utf8_text cps"] by (auto simp: utf8_text_def)
  with Cons show ?case using string_body.piece by (fastforce simp: utf8_text_def)
qed

lemma plain_body: "\<forall>c\<in>set s. c \<noteq> quote_char \<and> c \<noteq> backslash \<Longrightarrow> string_body s s"
proof (induction s)
  case (Cons c s)
  then show ?case using string_body.piece [OF plain [of c], of s s] by simp
qed (rule string_body.empty)

text \<open>A string is written as a text of the grammar that means it.\<close>

lemma quoted_string:
  assumes "valid_utf8 s"
  obtains b where "valueToQuotedStringN False s = quote_char # b @ [quote_char]" "string_body s b"
proof (cases "doesAnyCharRequireEscaping s")
  case True
  from assms obtain cps where "s = utf8_text cps" "\<forall>cp\<in>set cps. scalar cp" by (auto simp: valid_utf8_def)
  with True quote_loop_body [of cps] that show thesis by (simp add: valueToQuotedStringN_def)
next
  case False
  then have no: "\<forall>c\<in>set s. \<not> requires_escaping c" by (auto simp: doesAnyCharRequireEscaping_def list_ex_iff)
  have "requires_escaping NUL" "requires_escaping quote_char" "requires_escaping backslash"
    by (simp_all add: requires_escaping_def char_word_def)
  with no have "NUL \<notin> set s" "\<forall>c\<in>set s. c \<noteq> quote_char \<and> c \<noteq> backslash" by blast+
  moreover from this(2) have "string_body s s" by (rule plain_body)
  ultimately show thesis using that False by (simp add: valueToQuotedStringN_def c_str_id)
qed

section \<open>Writing numbers\<close>

lemma uint_loop_digits:
  "\<exists>ds. uint_loop w cur = ds @ cur \<and> ds \<noteq> [] \<and> all_digits ds \<and> value_of 10 ds = unat w"
proof (induction w cur rule: uint_loop.induct)
  case (1 w cur)
  define d where "d = unat (w mod 10)"
  define c where "c = (char_of (d + of_char CHR ''0'') :: char)"
  have d: "d < 10" "unat (w div 10) * 10 + d = unat w" by (simp_all add: d_def unat_mod_distrib unat_div_distrib)
  then have c: "char_nat c = 48 + d" by (simp add: c_def char_nat_def)
  then have j: "json_digit c" using d by (simp add: json_digit_nat)
  show ?case
  proof (cases "w div 10 = 0")
    case True
    then have "uint_loop w cur = [c] @ cur" by (subst uint_loop.simps) (simp add: c_def d_def)
    moreover have "value_of 10 [c] = unat w" using d True c digit_step_digit [OF j, of 0] by (simp add: value_of_step)
    ultimately show ?thesis using j by (metis all_digits_def empty_set list.set(2) not_Cons_self2 singletonD)
  next
    case False
    from 1 [OF refl refl] False obtain ds where ds: "uint_loop (w div 10) (c # cur) = ds @ c # cur" "ds \<noteq> []" "all_digits ds" "value_of 10 ds = unat (w div 10)"
      unfolding c_def d_def by blast
    have "uint_loop w cur = (ds @ [c]) @ cur" using False ds(1) by (subst uint_loop.simps) (simp add: c_def d_def)
    moreover have "value_of 10 (ds @ [c]) = unat w" using ds(4) d c digit_step_digit [OF j] by (simp add: value_of_step)
    moreover have "all_digits (ds @ [c])" using ds(3) j by (simp add: all_digits_def)
    ultimately show ?thesis by (metis snoc_eq_iff_butlast)
  qed
qed

lemma uintToString_digits: "uintToString w \<noteq> []" "all_digits (uintToString w)" "value_of 10 (uintToString w) = unat w"
  using uint_loop_digits [of w "[]"] by (auto simp: uintToString_def)

lemma digits_number_text: "ds \<noteq> [] \<Longrightarrow> all_digits ds \<Longrightarrow> number_text ds \<and> number_text (CHR ''-'' # ds)"
  unfolding number_text_def
  by (rule conjI; rule exI [of _ "[]"] exI [of _ "''-''"]; rule exI [of _ ds]; rule exI [of _ "[]"]; rule exI [of _ "[]"])
    (simp_all add: fraction_text_def exponent_text_def)

lemma all_digits_no_minus: "all_digits ds \<Longrightarrow> take 1 ds \<noteq> ''-''"
  by (cases ds) (auto simp: all_digits_def)

text \<open>The value a number is read back as: one that fits into an \<open>int\<close> is signed, a greater one unsigned.\<close>

fun json_norm :: "'r json \<Rightarrow> 'r json" where
  "json_norm (intValue n) = (if n <s 0 \<or> unat n < 2 ^ 31 then intValue n else uintValue n)"
| "json_norm (uintValue n) = (if unat n < 2 ^ 31 then intValue n else uintValue n)"
| "json_norm (arrayValue elements) = arrayValue (map (\<lambda>e. (fst e, json_norm (snd e))) elements)"
| "json_norm (objectValue members) = objectValue (map (\<lambda>m. (fst m, json_norm (snd m))) members)"
| "json_norm v = v"

lemma uint_text: "number_text (uintToString w)" "number_value D (uintToString w) = Some (json_norm (uintValue w))"
proof -
  note u = uintToString_digits [of w]
  show "number_text (uintToString w)" using digits_number_text [OF u(1,2)] by simp
  show "number_value D (uintToString w) = Some (json_norm (uintValue w))"
    using all_digits_no_minus [OF u(2)] u(2,3) unsigned_less [of w] by (simp add: number_value_def Let_def)
qed

lemma not_negative: "unat (w :: 64 word) < 2 ^ 63 \<Longrightarrow> \<not> w <s 0"
proof -
  assume "unat w < 2 ^ 63"
  then have "int (unat w) < int (2 ^ 63)" by (simp only: of_nat_less_iff)
  then have "uint w < 2 ^ 63" by simp
  moreover have "- (2 ^ 63) \<le> uint w" by (rule order_trans [of _ 0]) simp_all
  ultimately have "sint w = uint w" using signed_take_bit_int_eq_self [of 63 "uint w"] by (simp add: sint_uint)
  then show ?thesis by (simp add: word_sless_alt)
qed

lemma int_text: "number_text (valueToString_int w)" "number_value D (valueToString_int w) = Some (json_norm (intValue w))"
proof -
  have neg: "valueToString_int w = (if w <s 0 then CHR ''-'' # uintToString (- w) else uintToString w)"
  proof -
    have "(9223372036854775808 :: 64 word) + 9223372036854775808 = 0" by simp
    then have "uintToString (- 9223372036854775808) = uintToString 9223372036854775808" by (simp only: minus_unique)
    then show ?thesis by (simp add: valueToString_int_def minLargestInt_def maxLargestInt_def word_sless_alt)
  qed
  note u = uintToString_digits [of "- w"]
  show "number_text (valueToString_int w)" using digits_number_text [OF u(1,2)] uint_text(1) [of w] by (simp add: neg)
  show "number_value D (valueToString_int w) = Some (json_norm (intValue w))"
  proof (cases "w <s 0")
    case True
    then have "2 ^ 63 \<le> unat w" using not_negative [of w] by linarith
    moreover have "unat w < 2 ^ 64" using unsigned_less [where ?'a = nat, of w] by simp
    then have "- w = word_of_nat (2 ^ 64 - unat w)" by (simp add: of_nat_diff)
    ultimately have "unat (- w) \<le> 2 ^ 63" by (simp add: unat_of_nat take_bit_eq_mod)
    then show ?thesis using True u by (simp add: neg number_value_def Let_def)
  next
    case False
    then show ?thesis using uint_text(2) [of D w] by (simp add: neg)
  qed
qed

lemmas int_value_text = number [OF int_text] and uint_value_text = number [OF uint_text]

section \<open>Writing and reading back\<close>

text \<open>A double the C library prints as a JSON number that it reads back, as it does for every finite one with 17 digits.\<close>

definition double_ok :: "'r doubles \<Rightarrow> 'r \<Rightarrow> bool" where
  "double_ok D x \<longleftrightarrow> db_finite D x \<and> number_text (valueToString_double D x) \<and> db_scan D (valueToString_double D x) = Some x"

text \<open>A value that can be written: nested at most \<open>n\<close> deep, well-formed, its strings and names in UTF-8.\<close>

fun writable :: "'r doubles \<Rightarrow> nat \<Rightarrow> 'r json \<Rightarrow> bool" where
  "writable D 0 v \<longleftrightarrow> False"
| "writable D (Suc n) (stringValue s) \<longleftrightarrow> valid_utf8 s"
| "writable D (Suc n) (realValue x) \<longleftrightarrow> double_ok D x"
| "writable D (Suc n) (arrayValue elements) \<longleftrightarrow> map fst elements = [0..<length elements] \<and> (\<forall>e\<in>set elements. writable D n (snd e))"
| "writable D (Suc n) (objectValue members) \<longleftrightarrow>
     map_sorted key_less members \<and> (\<forall>m\<in>set members. valid_utf8 (fst m) \<and> writable D n (snd m))"
| "writable D (Suc n) v \<longleftrightarrow> True"

lemma double_text:
  assumes "double_ok D x"
  shows "number_value D (valueToString_double D x) = Some (realValue x)"
proof -
  let ?s = "valueToString_double D x"
  have "\<exists>c\<in>set ?s. c = CHR ''.'' \<or> c = CHR ''e''" using assms by (auto simp: valueToString_double_def double_ok_def Let_def)
  then obtain c where c: "c \<in> set ?s" "c = CHR ''.'' \<or> c = CHR ''e''" by blast
  have "c \<in> set (if take 1 ?s = ''-'' then drop 1 ?s else ?s)" using c by (cases ?s) auto
  then have "\<not> all_digits (if take 1 ?s = ''-'' then drop 1 ?s else ?s)" using c(2) not_digits_json(1,2) unfolding all_digits_def by blast
  then show ?thesis using assms by (simp add: number_value_def Let_def double_ok_def)
qed

lemma dense_elements:
  assumes "map fst es = [0..<length es]"
  shows "es = enumerate 0 (map snd es)" "array_size es = length es" "i < length es \<Longrightarrow> element_at i es = snd (es ! i)"
proof -
  show e: "es = enumerate 0 (map snd es)" using assms by (metis enumerate_eq_zip length_map plus_nat.add_0 zip_map_fst_snd)
  have nth: "fst (es ! i) = i" if "i < length es" for i using assms that by (metis add.left_neutral diff_zero length_upt nth_map nth_upt)
  show "array_size es = length es" using nth [of "length es - 1"] by (cases es rule: rev_cases) (simp_all add: array_size_def)
  assume i: "i < length es"
  have "distinct (map fst es)" by (simp add: assms)
  moreover have "(i, snd (es ! i)) \<in> set es" using i nth [OF i] by (metis nth_mem prod.collapse)
  ultimately show "element_at i es = snd (es ! i)" by (simp add: element_at_def map_of_is_SomeI)
qed

lemma map_enumerate: "map (\<lambda>e. (fst e, f (snd e))) (enumerate n vs) = enumerate n (map f vs)"
  by (rule nth_equalityI) (simp_all add: nth_enumerate_eq)

lemma sorted_distinct: "map_sorted key_less ms \<Longrightarrow> distinct (map fst ms)"
  unfolding map_sorted_def using names.irrefl by (induction ms) (auto simp: image_iff)

lemma member_at_sorted: "map_sorted key_less ms \<Longrightarrow> m \<in> set ms \<Longrightarrow> member_at (fst m) ms = snd m"
  using map_of_is_SomeI [OF sorted_distinct, of ms "fst m" "snd m"] by (simp add: member_at_def)

lemma elements_joined:
  "vs \<noteq> [] \<Longrightarrow> \<forall>v\<in>set vs. value_text D n (g v) (h v) \<Longrightarrow> elements_text D n (map g vs) (join '','' (map h vs))"
proof (induction vs)
  case (Cons v vs)
  then show ?case
    using element [of "[]" D n "g v" "h v" "[]"] elements [of "[]" D n "g v" "h v" "[]" "map g vs" "join '','' (map h vs)"]
    by (cases vs) (simp_all add: spaces_def)
qed simp

lemma members_joined:
  assumes "ms \<noteq> []" "\<forall>m\<in>set ms. valid_utf8 (fst m) \<and> value_text D n (g m) (h m)"
  shows "members_text D n (map (\<lambda>m. (fst m, g m)) ms) (join '','' (map (\<lambda>m. valueToQuotedStringN False (fst m) @ '':'' @ h m) ms))"
  using assms
proof (induction ms)
  case (Cons m ms)
  obtain b where b: "valueToQuotedStringN False (fst m) = quote_char # b @ [quote_char]" "string_body (fst m) b"
    using quoted_string [of "fst m"] Cons.prems by auto
  show ?case
    using Cons member [of "[]" "fst m" b "[]" "[]" D n "g m" "h m" "[]"] b
      members [of "[]" "fst m" b "[]" "[]" D n "g m" "h m" "[]" "map (\<lambda>m. (fst m, g m)) ms"]
    by (cases ms) (simp_all add: spaces_def)
qed simp

text \<open>What the writer writes is a text of the grammar.\<close>

lemma writes_text: "writable D n v \<Longrightarrow> value_text D n (json_norm v) (writeValue D FastWriter v)"
proof (induction D n v rule: writable.induct)
  case (2 D n s)
  then obtain b where "valueToQuotedStringN False s = quote_char # b @ [quote_char]" "string_body s b"
    using quoted_string [of s] by auto
  then show ?case using value_text_elements_text_members_text.string [of s b] by simp
next
  case (3 D n x)
  then have ok: "double_ok D x" by simp
  then have "number_text (valueToString_double D x)" by (simp add: double_ok_def)
  from number [OF this double_text [OF ok]] show ?case by simp
next
  case (4 D n es)
  then have d: "map fst es = [0..<length es]" by simp
  note dense = dense_elements [OF d]
  let ?w = "\<lambda>e. writeValue D FastWriter (snd e)"
  have w: "map (\<lambda>i. writeValue D FastWriter (element_at i es)) [0..<array_size es] = map ?w es"
    by (rule nth_equalityI) (simp_all add: dense(2,3))
  show ?case
  proof (cases "es = []")
    case True
    then show ?thesis using empty_array [of "[]"] by (simp add: spaces_def array_size_def)
  next
    case False
    with 4 have "elements_text D n (map (\<lambda>e. json_norm (snd e)) es) (join '','' (map ?w es))"
      by (intro elements_joined) auto
    moreover have "map (\<lambda>e. (fst e, json_norm (snd e))) es = enumerate 0 (map (\<lambda>e. json_norm (snd e)) es)"
      using map_enumerate [of json_norm 0 "map snd es"] by (simp add: dense(1) [symmetric] comp_def)
    ultimately show ?thesis using array [of D n] by (simp add: w)
  qed
next
  case (5 D n ms)
  then have s: "map_sorted key_less ms" by simp
  let ?q = "\<lambda>m. valueToQuotedStringN False (fst m) @ '':'' @ writeValue D FastWriter (snd m)"
  have w: "map (\<lambda>name. valueToQuotedStringN False name @ '':'' @ writeValue D FastWriter (member_at name ms)) (map fst ms) = map ?q ms"
    using member_at_sorted [OF s] by simp
  show ?case
  proof (cases "ms = []")
    case True
    then show ?thesis using empty_object [of "[]"] by (simp add: spaces_def)
  next
    case False
    let ?ms = "map (\<lambda>m. (fst m, json_norm (snd m))) ms"
    have "members_text D n ?ms (join '','' (map ?q ms))" using 5 False by (intro members_joined) auto
    moreover have "foldl (\<lambda>m (k, v). map_put key_less k v m) [] ?ms = ?ms"
      using names.put_all [of "[]" ?ms] s by (simp add: map_sorted_def comp_def)
    moreover have "writeValue D FastWriter (objectValue ms) = ''{'' @ join '','' (map ?q ms) @ ''}''"
    proof -
      have yaml: "yamlCompatibilityEnabled FastWriter = False" by (simp add: FastWriter_def)
      show ?thesis by (simp only: writeValue.simps yaml if_False w)
    qed
    ultimately show ?thesis using object [of D n ?ms] by simp
  qed
qed (simp_all add: FastWriter_def null true false int_value_text uint_value_text del: json_norm.simps(1,2))

section \<open>Properties of the writer\<close>

lemma ToJson_text: "value_text D n v t \<Longrightarrow> n \<le> stackLimit_g \<Longrightarrow> follows rest \<Longrightarrow> ToJson D (t @ rest) = Some (Inr v)"
  using parse_text [of D n v t "[]" rest features_all nullValue] by (simp add: ToJson_def spaces_def features_all_def)

lemma follows_newline: "follows [newline]"
  by (simp add: follows_def json_space_def)

lemma map_of_norm: "map_of (map (\<lambda>e. (fst e, f (snd e))) m) k = map_option f (map_of m k)"
  by (induction m) auto

lemma write_norm: "writeValue D w (json_norm v) = writeValue D w v"
proof (induction D w v rule: writeValue.induct)
  case (7 D w es)
  have el: "element_at i (map (\<lambda>e. (fst e, json_norm (snd e))) es) = json_norm (element_at i es)" for i
    by (simp add: element_at_def map_of_norm split: option.split)
  have size: "array_size (map (\<lambda>e. (fst e, json_norm (snd e))) es) = array_size es" by (simp add: array_size_def last_map)
  have "map (\<lambda>i. writeValue D w (json_norm (element_at i es))) [0..<array_size es] =
      map (\<lambda>i. writeValue D w (element_at i es)) [0..<array_size es]" using 7 by (intro map_cong) auto
  then show ?case by (simp only: json_norm.simps writeValue.simps el size)
next
  case (8 D w ms)
  have mem: "member_at k (map (\<lambda>e. (fst e, json_norm (snd e))) ms) = json_norm (member_at k ms)" for k
    by (simp add: member_at_def map_of_norm split: option.split)
  have keys: "map fst (map (\<lambda>e. (fst e, json_norm (snd e))) ms) = map fst ms" by simp
  have "map (\<lambda>k. valueToQuotedStringN False k @ (if yamlCompatibilityEnabled w then CHR '':'' # '' '' else '':'') @
        writeValue D w (json_norm (member_at k ms))) (map fst ms) =
      map (\<lambda>k. valueToQuotedStringN False k @ (if yamlCompatibilityEnabled w then CHR '':'' # '' '' else '':'') @
        writeValue D w (member_at k ms)) (map fst ms)" using 8 by (intro map_cong) auto
  then show ?case by (simp only: json_norm.simps writeValue.simps mem keys)
next
  case (2 D w n)
  then show ?case by (simp add: valueToString_int_def minLargestInt_def word_sless_alt)
next
  case (3 D w n)
  then show ?case using not_negative [of n] by (auto simp: valueToString_int_def minLargestInt_def)
qed simp_all

text \<open>C7: Writing a value and reading it back gives the value: for every well-formed value with strings in UTF-8, doubles that print
  as they read, and at most a thousand levels, \<open>ToJson\<close> of \<open>Json2String\<close> is the value with its integers in normal form
  (an integer below \<open>2 ^ 31\<close> is signed, a greater one unsigned); it then is written as the same text.\<close>

theorem json_roundtrip:
  assumes "writable D stackLimit_g v"
  shows "ToJson D (Json2String D v) = Some (Inr (json_norm v)) \<and> Json2String D (json_norm v) = Json2String D v"
  using ToJson_text [OF writes_text [OF assms] order_refl follows_newline]
  by (simp add: Json2String_def fast_write_def write_norm) (simp add: FastWriter_def)

text \<open>A string that is not UTF-8 is not written as it is: a byte that starts no sequence becomes U+FFFD, and the writer does not look
  whether the bytes behind a first byte continue its sequence, so it swallows them. Reading back does not restore them.\<close>

theorem invalid_utf8_lost:
  "(if char_word c < 0xF8 then True
    else ToJson D (Json2String D (stringValue [c])) = Some (Inr (stringValue (codePointToUTF8 0xFFFD)))) \<and>
   ToJson D (Json2String D (stringValue [CHR 0xC3, quote_char])) = Some (Inr (stringValue (codePointToUTF8 0xE2)))"
proof -
  have read: "ToJson D (Json2String D (stringValue s)) = Some (Inr (stringValue (codePointToUTF8 cp)))"
    if "doesAnyCharRequireEscaping s" "quote_loop False s = quote_codepoint cp" "scalar cp" "cp \<noteq> 0x22" "cp \<noteq> 0x5C" for s cp
  proof -
    have "string_body (codePointToUTF8 cp) (quote_codepoint cp)"
      using piece [OF quote_codepoint_piece [OF that(3-5)] string_body.empty] by simp
    from ToJson_text [OF value_text_elements_text_members_text.string [OF this, of D 0] _ follows_newline] that(1,2) show ?thesis
      by (simp add: Json2String_def fast_write_def FastWriter_def valueToQuotedStringN_def stackLimit_g_def)
  qed
  have "ToJson D (Json2String D (stringValue [c])) = Some (Inr (stringValue (codePointToUTF8 0xFFFD)))" if c: "\<not> char_word c < 0xF8"
  proof (rule read)
    have "\<not> char_word c < 0x80" "\<not> char_word c < 0xE0" "\<not> char_word c < 0xF0" using c by (auto simp: word_less_nat_alt)
    then have u: "utf8ToCodepoint [c] = (0xFFFD, [])" using c by (simp add: utf8ToCodepoint_def REPLACEMENT_CHARACTER_def Let_def)
    have "c \<notin> {quote_char, backslash, CHR 0x08, CHR 0x0C, newline, CHR 0x0D, CHR 0x09}" using c by (auto simp: char_word_def)
    with u show "quote_loop False [c] = quote_codepoint 0xFFFD" by simp
    show "doesAnyCharRequireEscaping [c]" using c by (auto simp: doesAnyCharRequireEscaping_def requires_escaping_def word_less_nat_alt)
  qed (simp_all add: scalar_def)
  moreover have "ToJson D (Json2String D (stringValue [CHR 0xC3, quote_char])) = Some (Inr (stringValue (codePointToUTF8 0xE2)))"
    by (rule read) (simp_all add: scalar_def doesAnyCharRequireEscaping_def requires_escaping_def utf8ToCodepoint_def char_word_def Let_def)
  ultimately show ?thesis by simp
qed

section \<open>A witness\<close>

lemma json_roundtrip_witness:
  "ToJson one_double (Json2String one_double (objectValue [(''a'', arrayValue [(0, realValue ()), (1, uintValue 7)]), (''b'', stringValue ''x'')])) =
    Some (Inr (objectValue [(''a'', arrayValue [(0, realValue ()), (1, intValue 7)]), (''b'', stringValue ''x'')]))"
proof -
  have ch: "(char_of (97 :: nat) :: char) = CHR ''a''" "(char_of (98 :: nat) :: char) = CHR ''b''" "(char_of (120 :: nat) :: char) = CHR ''x''"
    by code_simp+
  have u: "valid_utf8 ''a''" "valid_utf8 ''b''" "valid_utf8 ''x''" unfolding valid_utf8_def
    by (rule exI [of _ "[97]"] exI [of _ "[98]"] exI [of _ "[120]"], simp add: utf8_text_def codePointToUTF8_def word_char_def ch scalar_def; fail)+
  have one: "valueToString_double one_double () = ''1.0''" by (simp add: valueToString_double_def one_double_def fixNumericLocale_def)
  have "number_text ''1.0''" unfolding number_text_def
    by (rule exI [of _ "[]"], rule exI [of _ "''1''"], rule exI [of _ "''.0''"], rule exI [of _ "[]"])
      (simp add: fraction_text_def exponent_text_def all_digits_def json_digit_def less_eq_char_def)
  then have d: "double_ok one_double ()" by (simp add: double_ok_def one) (simp add: one_double_def)
  have "writable one_double (Suc (Suc (Suc n))) (objectValue [(''a'', arrayValue [(0, realValue ()), (1, uintValue 7)]), (''b'', stringValue ''x'')])" for n
    using u d by (simp add: map_sorted_def key_less_def)
  from this [of 997] have "writable one_double stackLimit_g (objectValue [(''a'', arrayValue [(0, realValue ()), (1, uintValue 7)]), (''b'', stringValue ''x'')])"
    by (simp add: stackLimit_g_def)
  from json_roundtrip [OF this] show ?thesis by simp
qed

end
