(* ===== verification/HttpText.thy ===== *)
theory HttpText
  imports Stdio StringUtils "HOL-Library.Char_ord"
begin

text \<open>
  The text functions of mongoose (\<open>http_server/mongoose.cpp\<close>) that the HTTP server uses: parts of the receive buffer,
  comparisons without case, numbers, the percent encoding of URLs. Memory is the list of characters from an
  address on; reading past its end is \<open>UB_Bounds\<close>. A plain \<open>char\<close> is unsigned, as on ARM; only whether a comparison
  gives zero is used.
\<close>

section \<open>Parts of the buffer\<close>

text \<open>\<open>struct mg_str\<close>: a position in the buffer (\<open>None\<close> is \<open>NULL\<close>) and a length, which need not fit the buffer.\<close>

record mg_str =
  sptr :: "nat option"
  slen :: nat

definition mg_str_n :: "nat \<Rightarrow> nat \<Rightarrow> mg_str" where
  "mg_str_n s n = \<lparr>sptr = Some s, slen = n\<rparr>"

definition null_str :: mg_str where
  "null_str = \<lparr>sptr = None, slen = 0\<rparr>"

definition mem_at :: "string \<Rightarrow> mg_str \<Rightarrow> string" where
  "mem_at buf str = (case sptr str of None \<Rightarrow> [] | Some p \<Rightarrow> drop p buf)"

definition MgStringCopy :: "string \<Rightarrow> mg_str \<Rightarrow> string res" where
  "MgStringCopy buf str =
     (if slen str \<le> length (mem_at buf str) then Inr (take (slen str) (mem_at buf str)) else Inl UB_Bounds)"

text \<open>The characters of a part that fits its buffer.\<close>

definition cut :: "string \<Rightarrow> mg_str \<Rightarrow> string" where
  "cut buf str = take (slen str) (mem_at buf str)"

lemma mg_str_n_sel [simp]: "sptr (mg_str_n s n) = Some s" "slen (mg_str_n s n) = n"
  by (simp_all add: mg_str_n_def)

lemma null_str_sel [simp]: "sptr null_str = None" "slen null_str = 0"
  by (simp_all add: null_str_def)

lemma mem_at_n [simp]: "mem_at buf (mg_str_n s n) = drop s buf"
  by (simp add: mem_at_def)

lemma cut_n [simp]: "cut buf (mg_str_n s n) = take n (drop s buf)"
  by (simp add: cut_def)

lemma cut_null [simp]: "cut buf null_str = []"
  by (simp add: cut_def)

section \<open>Comparisons\<close>

definition mg_lower :: "char \<Rightarrow> int" where
  "mg_lower s = (let c = int (char_nat s) in if 65 \<le> c \<and> c \<le> 90 then c + (97 - 65) else c)"

fun mg_ncasecmp :: "string \<Rightarrow> string \<Rightarrow> nat \<Rightarrow> int res" where
  "mg_ncasecmp s1 s2 0 = Inr 0"
| "mg_ncasecmp [] s2 (Suc n) = Inl UB_Bounds"
| "mg_ncasecmp (a # s1) [] (Suc n) = Inl UB_Bounds"
| "mg_ncasecmp (a # s1) (b # s2) (Suc n) =
     (let diff = mg_lower a - mg_lower b in
      if diff = 0 \<and> a \<noteq> NUL \<and> n > 0 then mg_ncasecmp s1 s2 n else Inr diff)"

definition mg_vcasecmp :: "string \<Rightarrow> mg_str \<Rightarrow> string \<Rightarrow> int res" where
  "mg_vcasecmp buf str1 str2 =
     (let n2 = length str2; n1 = slen str1 in
      res_bind (mg_ncasecmp (mem_at buf str1) (str2 @ [NUL]) (if n1 < n2 then n1 else n2)) (\<lambda>r.
        Inr (if r = 0 then to_i32 (int n1 - int n2) else r)))"

text \<open>What the comparison decides.\<close>

definition same_nocase :: "string \<Rightarrow> string \<Rightarrow> bool" where
  "same_nocase s t \<longleftrightarrow> map mg_lower s = map mg_lower t"

lemma mg_lower_NUL: "mg_lower c = mg_lower NUL \<longleftrightarrow> c = NUL"
proof -
  have "mg_lower NUL = 0" by (simp add: mg_lower_def char_nat_def)
  moreover have "mg_lower c = 0 \<longleftrightarrow> char_nat c = 0" by (auto simp: mg_lower_def Let_def)
  moreover have "char_nat c = 0 \<longleftrightarrow> c = NUL"
  proof -
    have "char_of (0::nat) = NUL" by code_simp
    then show ?thesis using char_of_eq_iff [of 0 c] by (auto simp: char_nat_def)
  qed
  ultimately show ?thesis by simp
qed

lemma same_nocase_refl [simp]: "same_nocase s s"
  by (simp add: same_nocase_def)

lemma mg_ncasecmp_decides:
  "n \<le> length s1 \<Longrightarrow> n \<le> length s2 \<Longrightarrow> NUL \<notin> set (take n s1) \<Longrightarrow>
   \<exists>r. mg_ncasecmp s1 s2 n = Inr r \<and> (r = 0 \<longleftrightarrow> same_nocase (take n s1) (take n s2))"
proof (induction s1 s2 n rule: mg_ncasecmp.induct)
  case (4 a s1 b s2 n)
  show ?case
  proof (cases "mg_lower a = mg_lower b \<and> n > 0")
    case True
    with "4.IH" [OF refl] "4.prems" show ?thesis by (auto simp: same_nocase_def)
  next
    case False
    with "4.prems" show ?thesis by (auto simp: same_nocase_def)
  qed
qed (simp_all add: same_nocase_def)

lemma mg_vcasecmp_decides:
  assumes fits: "slen str \<le> length (mem_at buf str)" and no0: "NUL \<notin> set (cut buf str)"
    and small: "slen str < 2 ^ 31" "length t < 2 ^ 31"
  shows "\<exists>r. mg_vcasecmp buf str t = Inr r \<and> (r = 0 \<longleftrightarrow> same_nocase (cut buf str) t)"
proof -
  define n where "n = (if slen str < length t then slen str else length t)"
  have n: "n \<le> slen str" "n \<le> length t" by (simp_all add: n_def)
  have "NUL \<notin> set (take n (mem_at buf str))"
    using no0 set_take_subset_set_take [OF n(1), of "mem_at buf str"] by (auto simp: cut_def)
  with mg_ncasecmp_decides [of n "mem_at buf str" "t @ [NUL]"] fits n obtain r
    where r: "mg_ncasecmp (mem_at buf str) (t @ [NUL]) n = Inr r"
      "r = 0 \<longleftrightarrow> same_nocase (take n (mem_at buf str)) (take n t)" by auto
  have len: "length (cut buf str) = slen str" using fits by (simp add: cut_def)
  have eq: "same_nocase (cut buf str) t \<longleftrightarrow> r = 0 \<and> slen str = length t"
  proof
    assume s: "same_nocase (cut buf str) t"
    then have "slen str = length t" using len by (metis length_map same_nocase_def)
    with s r(2) show "r = 0 \<and> slen str = length t" by (simp add: cut_def n_def)
  next
    assume "r = 0 \<and> slen str = length t"
    with r(2) show "same_nocase (cut buf str) t" by (simp add: cut_def n_def)
  qed
  have "to_i32 (int (slen str) - int (length t)) = 0 \<longleftrightarrow> slen str = length t"
    using small by (simp add: int_range_def)
  with r(1) eq show ?thesis by (simp add: mg_vcasecmp_def Let_def n_def [symmetric])
qed

section \<open>Numbers\<close>

definition is_blank :: "char \<Rightarrow> bool" where
  "is_blank c \<longleftrightarrow> c = CHR '' '' \<or> c = CHR 0x09"

abbreviation to64_max :: int where
  "to64_max \<equiv> 922337203685477570"

fun to64_digits :: "string \<Rightarrow> int \<Rightarrow> int option" where
  "to64_digits [] result = Some result"
| "to64_digits (c # cs) result =
     (if is_digit c then
        if result > to64_max then None
        else to64_digits cs (result * 10 + (int (char_nat c) - 48))
      else Some result)"

definition mg_to64 :: "string \<Rightarrow> int" where
  "mg_to64 str =
     (let s = dropWhile is_blank str;
          neg = (if s \<noteq> [] \<and> hd s = CHR ''-'' then - 1 else 1);
          s = (if neg = - 1 then tl s else s) in
      case to64_digits s 0 of None \<Rightarrow> 0 | Some result \<Rightarrow> result * neg)"

text \<open>The arithmetic of the code never leaves \<open>int64_t\<close>.\<close>

lemma to64_digits_range:
  "0 \<le> r \<Longrightarrow> r \<le> to64_max * 10 + 9 \<Longrightarrow> to64_digits s r = Some v \<Longrightarrow> 0 \<le> v \<and> v \<le> to64_max * 10 + 9"
proof (induction s arbitrary: r)
  case (Cons c cs)
  show ?case
  proof (cases "is_digit c \<and> r \<le> to64_max")
    case True
    then have "0 \<le> r * 10 + (int (char_nat c) - 48)" "r * 10 + (int (char_nat c) - 48) \<le> to64_max * 10 + 9"
      using Cons.prems(1) by (auto simp: is_digit_def)
    with Cons.IH [OF this] Cons.prems True show ?thesis by simp
  next
    case False
    with Cons.prems show ?thesis by (auto split: if_splits)
  qed
qed simp

lemma mg_to64_range: "- (2 ^ 63) < mg_to64 s \<and> mg_to64 s < 2 ^ 63"
proof -
  have "0 \<le> v \<and> v \<le> 9223372036854775709" if "to64_digits t 0 = Some v" for t v
    using to64_digits_range [OF _ _ that] by simp
  then show ?thesis by (fastforce simp: mg_to64_def Let_def split: option.split)
qed

lemma to64_digits_append:
  "\<forall>c\<in>set xs. is_digit c \<Longrightarrow>
   to64_digits (xs @ ys) r = (case to64_digits xs r of None \<Rightarrow> None | Some v \<Rightarrow> to64_digits ys v)"
  by (induction xs arbitrary: r) auto

lemma is_digit_10: "is_digit_of 10 c \<Longrightarrow> is_digit c"
  by (auto simp: is_digit_of_def digit_val_def is_digit_def Let_def split: if_splits)

lemma to64_digits_print: "int n \<le> to64_max * 10 + 9 \<Longrightarrow> to64_digits (print_num 10 n) 0 = Some (int n)"
proof (induction n rule: less_induct)
  case (less n)
  have d: "to64_digits [digit_char k] r = Some (r * 10 + int k)" if "k < 10" "r \<le> to64_max" for k r
    using that by (simp add: is_digit_def char_nat_def digit_char_def)
  show ?case
  proof (cases "n < 10")
    case True
    then show ?thesis using d [of n 0] by (subst print_num.simps) simp
  next
    case False
    then have "n div 10 < n" "int (n div 10) \<le> to64_max * 10 + 9" using less.prems by simp_all
    with less.IH have ih: "to64_digits (print_num 10 (n div 10)) 0 = Some (int (n div 10))" by blast
    have dig: "\<forall>c\<in>set (print_num 10 (n div 10)). is_digit c"
      using print_num_digits [of 10 _ "n div 10"] is_digit_10 by auto
    have "int (n div 10) \<le> to64_max" using less.prems by simp
    moreover have "int (n div 10) * 10 + int (n mod 10) = int n"
      by (metis div_mult_mod_eq of_nat_add of_nat_mult of_nat_numeral)
    ultimately have "to64_digits [digit_char (n mod 10)] (int (n div 10)) = Some (int n)"
      using d [of "n mod 10" "int (n div 10)"] by (simp del: to64_digits.simps)
    with ih dig False show ?thesis
      by (subst print_num.simps) (simp add: to64_digits_append del: to64_digits.simps)
  qed
qed

lemma mg_to64_print: "int n \<le> to64_max * 10 + 9 \<Longrightarrow> mg_to64 (print_num 10 n) = int n"
proof -
  assume n: "int n \<le> to64_max * 10 + 9"
  obtain d ds where p: "print_num 10 n = d # ds" by (cases "print_num 10 n") auto
  then have "is_digit_of 10 d" using print_num_digits [of 10 d n] by simp
  then have "\<not> is_blank d" "d \<noteq> CHR ''-''" using not_digits [of 10]
    by (auto simp: is_blank_def is_digit_of_def digit_val_def char_nat_def)
  with p to64_digits_print [OF n] show ?thesis by (simp add: mg_to64_def)
qed

lemma mg_to64_negative: "int n \<le> to64_max * 10 + 9 \<Longrightarrow> mg_to64 (CHR ''-'' # print_num 10 n) = - int n"
  using to64_digits_print by (simp add: mg_to64_def is_blank_def)

section \<open>Percent encoding\<close>

definition isx :: "char \<Rightarrow> bool" where
  "isx c \<longleftrightarrow> (CHR ''0'' \<le> c \<and> c \<le> CHR ''9'') \<or> (CHR ''a'' \<le> c \<and> c \<le> CHR ''f'') \<or>
     (CHR ''A'' \<le> c \<and> c \<le> CHR ''F'')"

definition mg_unhex_nimble :: "char \<Rightarrow> 8 word" where
  "mg_unhex_nimble c =
     (if CHR ''0'' \<le> c \<and> c \<le> CHR ''9'' then word_of_nat (char_nat c) - 48
      else if CHR ''A'' \<le> c \<and> c \<le> CHR ''F'' then word_of_nat (char_nat c) - 55
      else word_of_nat (char_nat c) - 87)"

fun mg_unhexn_loop :: "string \<Rightarrow> 64 word \<Rightarrow> 64 word" where
  "mg_unhexn_loop [] v = v"
| "mg_unhexn_loop (c # s) v = mg_unhexn_loop s (push_bit 4 v OR ucast (mg_unhex_nimble c))"

definition mg_unhexn :: "string \<Rightarrow> 64 word" where
  "mg_unhexn s = mg_unhexn_loop s 0"

definition mg_unhex :: "char \<Rightarrow> char \<Rightarrow> char" where
  "mg_unhex h l = char_of (unat (ucast (mg_unhexn [h, l]) :: 8 word))"

definition mg_hex :: "char \<Rightarrow> string" where
  "mg_hex p = (let hex = ''0123456789abcdef''; n = char_nat p in [hex ! (n div 16), hex ! (n mod 16)])"

text \<open>\<open>mg_url_decode\<close>: \<open>room\<close> is \<open>dst_len - 1 - j\<close>, what is left of the destination; \<open>None\<close> is \<open>-1\<close>.\<close>

fun url_decode_loop :: "string \<Rightarrow> nat \<Rightarrow> bool \<Rightarrow> string option" where
  "url_decode_loop [] room form = Some []"
| "url_decode_loop (c # src) 0 form = None"
| "url_decode_loop (c # src) (Suc room) form =
     (if c = CHR ''%'' then
        (case src of
           h # l # src' \<Rightarrow>
             if isx h \<and> isx l then map_option (Cons (mg_unhex h l)) (url_decode_loop src' room form) else None
         | _ \<Rightarrow> None)
      else if form \<and> c = CHR ''+'' then map_option (Cons CHR '' '') (url_decode_loop src room form)
      else map_option (Cons c) (url_decode_loop src room form))"

definition mg_url_decode :: "string \<Rightarrow> nat \<Rightarrow> bool \<Rightarrow> string option" where
  "mg_url_decode src dst_len form = (if dst_len = 0 then None else url_decode_loop src (dst_len - 1) form)"

definition mg_is_url_safe :: "char \<Rightarrow> bool" where
  "mg_is_url_safe c \<longleftrightarrow> (CHR ''0'' \<le> c \<and> c \<le> CHR ''9'') \<or> (CHR ''a'' \<le> c \<and> c \<le> CHR ''z'') \<or>
     (CHR ''A'' \<le> c \<and> c \<le> CHR ''Z'') \<or> c = CHR ''.'' \<or> c = CHR ''_'' \<or> c = CHR ''-'' \<or> c = CHR ''~''"

text \<open>The characters written, of which \<open>n\<close> are in \<open>buf\<close> already; \<open>None\<close> is the result 0 for a buffer too small.\<close>

fun url_encode_loop :: "string \<Rightarrow> nat \<Rightarrow> nat \<Rightarrow> string option" where
  "url_encode_loop [] n len = Some []"
| "url_encode_loop (c # s) n len =
     (if n + 4 \<ge> len then None
      else if mg_is_url_safe c then map_option (Cons c) (url_encode_loop s (n + 1) len)
      else map_option (\<lambda>r. CHR ''%'' # mg_hex c @ r) (url_encode_loop s (n + 1 + 2) len))"

definition mg_url_encode :: "string \<Rightarrow> nat \<Rightarrow> string option" where
  "mg_url_encode s len = url_encode_loop s 0 len"

lemma mg_unhex_nimble_digit:
  "k < 16 \<Longrightarrow> ucast (mg_unhex_nimble (''0123456789abcdef'' ! k)) = (word_of_nat k :: 64 word)"
proof -
  have "map (\<lambda>k. mg_unhex_nimble (''0123456789abcdef'' ! k)) [0..<16] = map word_of_nat [0..<16]" by code_simp
  then have "mg_unhex_nimble (''0123456789abcdef'' ! k) = word_of_nat k" if "k < 16" for k
    using that by (metis (no_types, lifting) diff_zero length_map length_upt nth_map nth_upt plus_nat.add_0)
  moreover assume "k < 16"
  ultimately show ?thesis by (simp add: unsigned_of_nat take_bit_nat_eq_self)
qed

lemma hex_digit_step: "k < 16 \<Longrightarrow> push_bit 4 v OR word_of_nat k = v * 16 + (word_of_nat k :: 64 word)"
proof -
  assume k: "k < 16"
  have "push_bit 4 v + (word_of_nat k :: 64 word) = push_bit 4 v OR word_of_nat k"
  proof (rule disjunctive_add)
    fix n
    have "take_bit 4 (word_of_nat k :: 64 word) = word_of_nat k"
      using k by (simp add: take_bit_of_nat take_bit_nat_eq_self)
    then have "bit (word_of_nat k :: 64 word) n \<Longrightarrow> n < 4" by (metis bit_take_bit_iff)
    then show "\<not> bit (push_bit 4 v) n \<or> \<not> bit (word_of_nat k :: 64 word) n" by (auto simp: bit_push_bit_iff)
  qed
  then show ?thesis by (simp add: push_bit_eq_mult mult.commute)
qed

lemma mg_unhexn_loop_digits:
  "\<forall>k\<in>set ks. k < 16 \<Longrightarrow>
   mg_unhexn_loop (map ((!) ''0123456789abcdef'') ks) v = foldl (\<lambda>v k. v * 16 + word_of_nat k) v ks"
  by (induction ks arbitrary: v) (simp_all add: mg_unhex_nimble_digit hex_digit_step)

lemma mg_unhex_hex: "mg_hex c = [h, l] \<Longrightarrow> mg_unhex h l = c"
proof -
  assume hl: "mg_hex c = [h, l]"
  define n where "n = char_nat c"
  have n: "n < 256" "n div 16 < 16" "n mod 16 < 16" by (simp_all add: n_def less_mult_imp_div_less)
  have "mg_unhexn [h, l] = word_of_nat (n div 16) * 16 + word_of_nat (n mod 16)"
    using hl n mg_unhexn_loop_digits [of "[n div 16, n mod 16]" 0] by (auto simp: mg_unhexn_def mg_hex_def n_def Let_def)
  also have "\<dots> = word_of_nat (n div 16 * 16 + n mod 16)" by (simp only: of_nat_add of_nat_mult of_nat_numeral)
  also have "n div 16 * 16 + n mod 16 = n" by simp
  finally have "mg_unhexn [h, l] = word_of_nat n" .
  with n(1) show ?thesis
    by (simp add: mg_unhex_def unsigned_of_nat take_bit_nat_eq_self n_def char_nat_def)
qed

lemma mg_hex_shape: "\<exists>h l. mg_hex c = [h, l] \<and> isx h \<and> isx l"
proof -
  have "list_all isx ''0123456789abcdef''" by code_simp
  then have x: "isx (''0123456789abcdef'' ! k)" if "k < 16" for k
    using that by (simp add: list_all_length)
  have "char_nat c div 16 < 16" "char_nat c mod 16 < 16" by (simp_all add: less_mult_imp_div_less)
  with x show ?thesis by (simp add: mg_hex_def Let_def)
qed

text \<open>Decoding inverts encoding, with or without the rules of forms, when the buffers are large enough.\<close>

lemma url_safe_plain: "mg_is_url_safe c \<Longrightarrow> c \<noteq> CHR ''%'' \<and> c \<noteq> CHR ''+''"
  by (auto simp: mg_is_url_safe_def)

lemma url_decode_encode:
  "url_encode_loop s n len = Some e \<Longrightarrow> length s \<le> room \<Longrightarrow> url_decode_loop e room form = Some s"
proof (induction s arbitrary: n e room)
  case (Cons c s)
  then obtain r where r: "room = Suc r" "length s \<le> r" by (cases room) auto
  show ?case
  proof (cases "mg_is_url_safe c")
    case True
    with Cons.prems obtain e' where "e = c # e'" "url_encode_loop s (n + 1) len = Some e'" by (auto split: if_splits)
    with Cons.IH [OF this(2) r(2)] url_safe_plain [OF True] r show ?thesis by simp
  next
    case False
    with Cons.prems obtain e' where e: "e = CHR ''%'' # mg_hex c @ e'" "url_encode_loop s (n + 1 + 2) len = Some e'"
      by (auto split: if_splits)
    obtain h l where hl: "mg_hex c = [h, l]" "isx h" "isx l" using mg_hex_shape by blast
    with mg_unhex_hex [OF hl(1)] Cons.IH [OF e(2) r(2)] e(1) r show ?thesis by simp
  qed
qed simp

lemma url_encode_fits: "n + 3 * length s + 2 \<le> len \<Longrightarrow> \<exists>e. url_encode_loop s n len = Some e"
proof (induction s arbitrary: n)
  case (Cons c s)
  with Cons.IH [of "n + 1"] Cons.IH [of "n + 1 + 2"] show ?case by auto
qed simp

lemma url_encode_chars:
  "url_encode_loop s n len = Some e \<Longrightarrow> c \<in> set e \<Longrightarrow> mg_is_url_safe c \<or> c = CHR ''%''"
proof (induction s arbitrary: n e)
  case (Cons a s)
  have hex: "mg_is_url_safe x" if "isx x" for x using that by (auto simp: isx_def mg_is_url_safe_def less_eq_char_def)
  obtain h l where "mg_hex a = [h, l]" "isx h" "isx l" using mg_hex_shape by blast
  with Cons hex show ?case by (auto split: if_splits)
qed simp

end
