(* ===== verification/HttpPrint.thy ===== *)
theory HttpPrint
  imports HttpText
begin

text \<open>
  Growing buffers (\<open>struct mg_iobuf\<close>) and the formatted output of \<open>http_server/mongoose.cpp\<close>. Whether \<open>calloc\<close> has a
  block of a size is the parameter \<open>mem\<close>. A format is the memory from its first character on, with its terminator; the
  arguments of a call are a list, and taking one that is not there, or has another type, is \<open>UB_Args\<close>. No caller passes a
  double or a function, so these have no value here.
\<close>

section \<open>Buffers\<close>

text \<open>\<open>io_buf\<close> is the whole block, so its length is \<open>size\<close>; the empty block is \<open>NULL\<close>.\<close>

record mg_iobuf =
  io_buf :: string
  io_len :: nat
  io_align :: nat

definition roundup :: "nat \<Rightarrow> nat \<Rightarrow> nat" where
  "roundup n align = (if align = 0 then n else (n + align - 1) div align * align)"

definition mg_iobuf_resize :: "(nat \<Rightarrow> bool) \<Rightarrow> mg_iobuf \<Rightarrow> nat \<Rightarrow> mg_iobuf" where
  "mg_iobuf_resize mem io new_size =
     (let new_size = roundup new_size (io_align io) in
      if new_size = 0 then io\<lparr>io_buf := [], io_len := 0\<rparr>
      else if new_size \<noteq> length (io_buf io) then
        if mem new_size then
          let len = (if new_size < io_len io then new_size else io_len io) in
          io\<lparr>io_buf := take len (io_buf io) @ replicate (new_size - len) NUL\<rparr>
        else io
      else io)"

text \<open>\<open>memmove\<close> within a block.\<close>

definition mem_move :: "string \<Rightarrow> nat \<Rightarrow> nat \<Rightarrow> nat \<Rightarrow> string res" where
  "mem_move xs dst src n = (if n = 0 then Inr xs else mem_copy xs dst (drop src xs) n)"

definition mg_iobuf_add :: "(nat \<Rightarrow> bool) \<Rightarrow> mg_iobuf \<Rightarrow> nat \<Rightarrow> string \<Rightarrow> nat \<Rightarrow> (nat \<times> mg_iobuf) res" where
  "mg_iobuf_add mem io ofs buf len =
     (let new_size = roundup (io_len io + len) (io_align io);
          io = mg_iobuf_resize mem io new_size;
          len = (if new_size \<noteq> length (io_buf io) then 0 else len) in
      res_bind (if ofs < io_len io then mem_move (io_buf io) (ofs + len) ofs (io_len io - ofs) else Inr (io_buf io)) (\<lambda>b.
      res_bind (if len = 0 then Inr b else mem_copy b ofs buf len) (\<lambda>b.
        Inr (len, io\<lparr>io_buf := b, io_len := (if ofs > io_len io then ofs else io_len io) + len\<rparr>))))"

definition mg_iobuf_del :: "mg_iobuf \<Rightarrow> nat \<Rightarrow> nat \<Rightarrow> (nat \<times> mg_iobuf) res" where
  "mg_iobuf_del io ofs len =
     (let ofs = (if ofs > io_len io then io_len io else ofs);
          len = (if to_size (int ofs + int len) > io_len io then io_len io - ofs else len) in
      if io_buf io = [] then Inr (len, io\<lparr>io_len := to_size (int (io_len io) - int len)\<rparr>)
      else
        res_bind (mem_move (io_buf io) ofs (ofs + len) (to_size (int (io_len io) - int ofs - int len))) (\<lambda>b.
        res_bind (mem_set b (to_size (int (io_len io) - int len)) NUL len) (\<lambda>b.
          Inr (len, io\<lparr>io_buf := b, io_len := to_size (int (io_len io) - int len)\<rparr>))))"

definition mg_pfn_iobuf_private :: "(nat \<Rightarrow> bool) \<Rightarrow> bool \<Rightarrow> char \<Rightarrow> mg_iobuf \<Rightarrow> mg_iobuf" where
  "mg_pfn_iobuf_private mem expand ch io =
     (let io = (if expand \<and> io_len io + 2 > length (io_buf io) then mg_iobuf_resize mem io (io_len io + 2) else io) in
      if io_len io + 2 \<le> length (io_buf io)
      then io\<lparr>io_buf := (io_buf io)[io_len io := ch, io_len io + 1 := NUL], io_len := io_len io + 1\<rparr>
      else if io_len io < length (io_buf io)
      then io\<lparr>io_buf := (io_buf io)[io_len io := NUL], io_len := io_len io + 1\<rparr>
      else io)"

definition mg_putchar_iobuf_static :: "char \<Rightarrow> mg_iobuf \<Rightarrow> mg_iobuf" where
  "mg_putchar_iobuf_static ch io = mg_pfn_iobuf_private (\<lambda>_. False) False ch io"

definition mg_pfn_iobuf :: "(nat \<Rightarrow> bool) \<Rightarrow> char \<Rightarrow> mg_iobuf \<Rightarrow> mg_iobuf" where
  "mg_pfn_iobuf mem ch io = mg_pfn_iobuf_private mem True ch io"

text \<open>What a buffer holds.\<close>

definition io_data :: "mg_iobuf \<Rightarrow> string" where
  "io_data io = take (io_len io) (io_buf io)"

definition io_ok :: "mg_iobuf \<Rightarrow> bool" where
  "io_ok io \<longleftrightarrow> io_len io \<le> length (io_buf io)"

lemma roundup_ge: "n \<le> roundup n align"
proof (cases "align = 0")
  case False
  obtain m where m: "m + 1 = n + align" using False by (cases align) auto
  have "m = m div align * align + m mod align" "m mod align < align" using False by simp_all
  with m have "n \<le> m div align * align" by linarith
  moreover have "n + align - 1 = m" using m by simp
  ultimately show ?thesis using False by (simp add: roundup_def)
qed (simp add: roundup_def)

lemma roundup_roundup: "roundup (roundup n a) a = roundup n a"
proof (cases "a = 0")
  case False
  have "(q * a + a - 1) div a = q" for q
    using False by (intro div_nat_eqI) (simp_all add: algebra_simps)
  then show ?thesis by (simp add: roundup_def)
qed (simp add: roundup_def)

lemma mg_iobuf_resize_grows:
  assumes "mem = (\<lambda>_. True)" "io_ok io" "io_len io \<le> n" "0 < n"
  shows "io_data (mg_iobuf_resize mem io n) = io_data io" "io_ok (mg_iobuf_resize mem io n)"
    "io_len (mg_iobuf_resize mem io n) = io_len io" "n \<le> length (io_buf (mg_iobuf_resize mem io n))"
    "io_align (mg_iobuf_resize mem io n) = io_align io"
    "length (io_buf (mg_iobuf_resize mem io n)) = roundup n (io_align io)"
  using assms roundup_ge [of n "io_align io"]
  by (auto simp: mg_iobuf_resize_def io_data_def io_ok_def Let_def)

lemma mg_pfn_iobuf_appends:
  assumes mem: "mem = (\<lambda>_. True)" and ok: "io_ok io"
  shows "io_data (mg_pfn_iobuf mem ch io) = io_data io @ [ch] \<and> io_ok (mg_pfn_iobuf mem ch io)"
proof -
  define io' where "io' = (if io_len io + 2 > length (io_buf io) then mg_iobuf_resize mem io (io_len io + 2) else io)"
  have "io_data io' = io_data io" "io_len io' = io_len io" "io_len io' + 2 \<le> length (io_buf io')"
    using mg_iobuf_resize_grows [OF mem ok, of "io_len io + 2"] by (auto simp: io'_def)
  moreover have "take (Suc n) (xs[n := ch, Suc n := NUL]) = take n xs @ [ch]" if "n + 2 \<le> length xs" for n and xs :: string
    using that by (simp add: take_Suc_conv_app_nth)
  moreover have "mg_pfn_iobuf mem ch io =
      (if io_len io' + 2 \<le> length (io_buf io')
       then io'\<lparr>io_buf := (io_buf io')[io_len io' := ch, io_len io' + 1 := NUL], io_len := io_len io' + 1\<rparr>
       else if io_len io' < length (io_buf io')
       then io'\<lparr>io_buf := (io_buf io')[io_len io' := NUL], io_len := io_len io' + 1\<rparr>
       else io')"
    by (simp only: mg_pfn_iobuf_def mg_pfn_iobuf_private_def io'_def Let_def simp_thms)
  ultimately show ?thesis by (simp add: io_data_def io_ok_def)
qed

lemma fold_pfn_iobuf:
  "mem = (\<lambda>_. True) \<Longrightarrow> io_ok io \<Longrightarrow>
   io_data (fold (mg_pfn_iobuf mem) t io) = io_data io @ t \<and> io_ok (fold (mg_pfn_iobuf mem) t io)"
  by (induction t arbitrary: io) (simp_all add: mg_pfn_iobuf_appends)

lemma mg_iobuf_add_end:
  assumes mem: "mem = (\<lambda>_. True)" and ok: "io_ok io" and ne: "t \<noteq> []"
  shows "\<exists>io'. mg_iobuf_add mem io (io_len io) t (length t) = Inr (length t, io') \<and> io_data io' = io_data io @ t \<and> io_ok io'"
proof -
  define m where "m = roundup (io_len io + length t) (io_align io)"
  have m: "io_len io + length t \<le> m" "roundup m (io_align io) = m" "0 < m"
    using roundup_ge [of "io_len io + length t" "io_align io"] ne by (simp_all add: m_def roundup_roundup) (cases t; simp)
  define io' where "io' = mg_iobuf_resize mem io m"
  have io': "io_data io' = io_data io" "io_len io' = io_len io" "length (io_buf io') = m"
    using mg_iobuf_resize_grows [OF mem ok, of m] m by (simp_all add: io'_def)
  then show ?thesis
    using m ne ok by (simp add: mg_iobuf_add_def m_def [symmetric] io'_def [symmetric] Let_def mem_copy_ok io_data_def io_ok_def)
qed

lemma mg_iobuf_del_ok:
  assumes ok: "io_ok io" and b: "ofs + len \<le> io_len io" "io_len io < 2 ^ 64"
  shows "\<exists>io'. mg_iobuf_del io ofs len = Inr (len, io') \<and> io_data io' = take ofs (io_data io) @ drop (ofs + len) (io_data io) \<and>
    io_ok io' \<and> io_len io' = io_len io - len"
proof -
  let ?n = "io_len io" and ?xs = "io_buf io"
  have s: "to_size (int ofs + int len) = ofs + len" "to_size (int ?n - int ofs - int len) = ?n - ofs - len"
    "to_size (int ?n - int len) = ?n - len"
    using b by (simp_all add: nat_add_distrib nat_diff_distrib' flip: of_nat_add of_nat_diff)
  have xs: "?n \<le> length ?xs" using ok by (simp add: io_ok_def)
  show ?thesis
  proof (cases "?xs = []")
    case True
    with xs b s show ?thesis by (simp add: mg_iobuf_del_def io_data_def io_ok_def)
  next
    case False
    define b1 where "b1 = take ofs ?xs @ take (?n - ofs - len) (drop (ofs + len) ?xs) @ drop (?n - len) ?xs"
    have mv: "mem_move ?xs ofs (ofs + len) (?n - ofs - len) = Inr b1"
      using b xs by (auto simp: mem_move_def mem_copy_def b1_def)
    have l: "length b1 = length ?xs" using b xs by (simp add: b1_def)
    have "mem_set b1 (?n - len) NUL len = Inr (take (?n - len) b1 @ replicate len NUL @ drop ?n b1)"
      using b xs l by (simp add: mem_set_ok)
    moreover have "take (?n - len) b1 = take ofs (take ?n ?xs) @ drop (ofs + len) (take ?n ?xs)"
    proof -
      obtain k where k: "?n = ofs + len + k" using b(1) le_Suc_ex by blast
      then show ?thesis using xs by (simp add: b1_def drop_take)
    qed
    moreover define c where "c = take ofs (take ?n ?xs) @ drop (ofs + len) (take ?n ?xs)"
    ultimately have del: "mg_iobuf_del io ofs len =
        Inr (len, io\<lparr>io_buf := c @ replicate len NUL @ drop ?n b1, io_len := ?n - len\<rparr>)"
      using False mv s b by (simp add: mg_iobuf_del_def Let_def)
    have c: "length c = ?n - len" using b xs by (simp add: c_def)
    have "length (c @ replicate len NUL @ drop ?n b1) \<ge> ?n - len" using c by simp
    then show ?thesis unfolding del using c by (simp add: io_data_def io_ok_def) (simp add: c_def)
  qed
qed

section \<open>Arguments and conversions\<close>

datatype vararg = V_int "32 word" | V_long "64 word" | V_ptr "string option"

fun va_int :: "vararg list \<Rightarrow> (32 word \<times> vararg list) res" where
  "va_int (V_int v # ap) = Inr (v, ap)"
| "va_int _ = Inl UB_Args"

fun va_long :: "vararg list \<Rightarrow> (64 word \<times> vararg list) res" where
  "va_long (V_long v # ap) = Inr (v, ap)"
| "va_long _ = Inl UB_Args"

fun va_ptr :: "vararg list \<Rightarrow> (string option \<times> vararg list) res" where
  "va_ptr (V_ptr p # ap) = Inr (p, ap)"
| "va_ptr _ = Inl UB_Args"

text \<open>The digits of \<open>mg_lld\<close>, least significant first; they are reversed afterwards.\<close>

fun lld_loop :: "nat \<Rightarrow> nat \<Rightarrow> string" where
  "lld_loop b v = (if v = 0 \<or> b < 2 then [] else ''0123456789abcdef'' ! (v mod b) # lld_loop b (v div b))"

declare lld_loop.simps [simp del]

definition lld_text :: "nat \<Rightarrow> nat \<Rightarrow> string" where
  "lld_text b v = rev (lld_loop b v) @ (if v = 0 then ''0'' else [])"

definition mg_lld :: "64 word \<Rightarrow> bool \<Rightarrow> bool \<Rightarrow> string res" where
  "mg_lld val is_signed is_hex =
     (let b = (if is_hex then 16 else 10) in
      if is_signed \<and> sint val < 0 then
        if sint val = - (2 ^ 63) then Inl UB_Overflow else Inr (CHR ''-'' # lld_text b (nat (- sint val)))
      else Inr (lld_text b (unat val)))"

text \<open>Copies of at most so many characters of the memory at an address.\<close>

fun scpy :: "string \<Rightarrow> nat \<Rightarrow> string res" where
  "scpy m 0 = Inr []"
| "scpy [] (Suc n) = Inl UB_Bounds"
| "scpy (c # m) (Suc n) = (if c = NUL then Inr [] else res_bind (scpy m n) (\<lambda>t. Inr (c # t)))"

definition mg_escape :: "char \<Rightarrow> char option" where
  "mg_escape c =
     (if c = CHR 0x08 then Some CHR ''b'' else if c = CHR 0x0C then Some CHR ''f''
      else if c = newline then Some CHR ''n'' else if c = CHR 0x0D then Some CHR ''r''
      else if c = CHR 0x09 then Some CHR ''t'' else if c = CHR 0x5C then Some CHR 0x5C
      else if c = CHR 0x22 then Some CHR 0x22 else None)"

fun qcpy :: "string \<Rightarrow> nat \<Rightarrow> string res" where
  "qcpy m 0 = Inr []"
| "qcpy [] (Suc n) = Inl UB_Bounds"
| "qcpy (c # m) (Suc n) =
     (if c = NUL then Inr []
      else res_bind (qcpy m n) (\<lambda>t. Inr (case mg_escape c of Some e \<Rightarrow> CHR 0x5C # e # t | None \<Rightarrow> c # t)))"

definition Qcpy :: "string \<Rightarrow> nat \<Rightarrow> string res" where
  "Qcpy m n = res_bind (qcpy m n) (\<lambda>t. Inr ([CHR 0x22] @ t @ [CHR 0x22]))"

abbreviation b64_table :: string where
  "b64_table \<equiv> ''ABCDEFGHIJKLMNOPQRSTUVWXYZabcdefghijklmnopqrstuvwxyz0123456789+/''"

definition bcpy_group :: "nat \<Rightarrow> nat option \<Rightarrow> nat option \<Rightarrow> string" where
  "bcpy_group c1 c2 c3 =
     (let v2 = (case c2 of None \<Rightarrow> 0 | Some v \<Rightarrow> v); v3 = (case c3 of None \<Rightarrow> 0 | Some v \<Rightarrow> v) in
      [b64_table ! (c1 div 4), b64_table ! (c1 mod 4 * 16 + v2 div 16),
       (if c2 \<noteq> None then b64_table ! (v2 mod 16 * 4 + v3 div 64) else CHR ''=''),
       (if c3 \<noteq> None then b64_table ! (v3 mod 64) else CHR ''='')])"

fun bcpy_loop :: "nat list \<Rightarrow> string" where
  "bcpy_loop [] = []"
| "bcpy_loop [c1] = bcpy_group c1 None None"
| "bcpy_loop [c1, c2] = bcpy_group c1 (Some c2) None"
| "bcpy_loop (c1 # c2 # c3 # buf) = bcpy_group c1 (Some c2) (Some c3) @ bcpy_loop buf"

text \<open>Reading \<open>n\<close> bytes at a pointer.\<close>

definition ptr_bytes :: "string option \<Rightarrow> nat \<Rightarrow> string res" where
  "ptr_bytes p n =
     (if n = 0 then Inr []
      else case p of None \<Rightarrow> Inl UB_Null | Some m \<Rightarrow> if n \<le> length m then Inr (take n m) else Inl UB_Bounds)"

definition strlen :: "string \<Rightarrow> nat res" where
  "strlen m = (if NUL \<in> set m then Inr (length (c_str m)) else Inl UB_Bounds)"

record fmt_spec =
  fx :: bool
  fminus :: bool
  fpad :: char
  fw :: nat
  fpr :: nat
  flong :: nat

text \<open>\<open>~0U\<close>, the value of \<open>pr\<close> when a format has no precision.\<close>

abbreviation no_prec :: nat where
  "no_prec \<equiv> 2 ^ 32 - 1"

definition num_text :: "fmt_spec \<Rightarrow> string \<Rightarrow> string" where
  "num_text f tmp =
     (let xl = (if fx f then 2 else 0); w = fw f - xl; k = length tmp in
      (if fpad f = CHR '' '' \<and> \<not> fminus f then replicate (w - k) (fpad f) else []) @ take xl ''0x'' @
      (if fpad f = CHR ''0'' then replicate (w - k) (fpad f) else []) @ tmp @
      (if fpad f = CHR '' '' \<and> fminus f then replicate (w - k) (fpad f) else []))"

definition str_text :: "fmt_spec \<Rightarrow> (string \<Rightarrow> nat \<Rightarrow> string res) \<Rightarrow> string option \<Rightarrow> string res" where
  "str_text f cpy p =
     res_bind (if fpr f = no_prec then (case p of None \<Rightarrow> Inr 0 | Some m \<Rightarrow> strlen m) else Inr (fpr f)) (\<lambda>pr.
     res_bind (cpy [fpad f] 1) (\<lambda>pad.
     res_bind (case p of None \<Rightarrow> if pr = 0 then cpy [] 0 else Inl UB_Null | Some m \<Rightarrow> cpy m pr) (\<lambda>t.
       let pads = concat (replicate (fw f - pr) pad) in
       Inr ((if \<not> fminus f then pads else []) @ t @ (if fminus f then pads else [])))))"

definition fmt_conversion :: "fmt_spec \<Rightarrow> char \<Rightarrow> vararg list \<Rightarrow> (string \<times> vararg list) res" where
  "fmt_conversion f c ap =
     (let f = (if c = CHR ''p'' then f\<lparr>fx := True, flong := 1\<rparr> else f) in
      if c \<in> set ''duxXp'' then
        let s = (c = CHR ''d''); h = (c \<in> set ''xXp'') in
        (if flong f = 0
         then res_bind (va_int ap) (\<lambda>(v, ap).
                res_bind (mg_lld (if s then scast v else ucast v) s h) (\<lambda>t. Inr (num_text f t, ap)))
         else res_bind (va_long ap) (\<lambda>(v, ap). res_bind (mg_lld v s h) (\<lambda>t. Inr (num_text f t, ap))))
      else if c \<in> set ''gfM'' then Inl UB_Args
      else if c = CHR ''c'' then res_bind (va_int ap) (\<lambda>(v, ap). Inr ([char_of (unat v mod 256)], ap))
      else if c = CHR ''H'' then
        res_bind (va_int ap) (\<lambda>(bl, ap). res_bind (va_ptr ap) (\<lambda>(p, ap).
        res_bind (ptr_bytes p (to_size (sint bl))) (\<lambda>bs.
          Inr ([CHR 0x22] @ concat (map mg_hex bs) @ [CHR 0x22], ap))))
      else if c = CHR ''I'' then
        res_bind (va_int ap) (\<lambda>(len, ap). res_bind (va_ptr ap) (\<lambda>(p, ap).
          if sint len = 6 then
            res_bind (ptr_bytes p 16) (\<lambda>bs.
              Inr (join '':'' (map (\<lambda>k. lld_text 16 (256 * char_nat (bs ! (2 * k)) + char_nat (bs ! (2 * k + 1)))) [0..<8]), ap))
          else res_bind (ptr_bytes p 4) (\<lambda>bs. Inr (join ''.'' (map (\<lambda>b. lld_text 10 (char_nat b)) bs), ap))))
      else if c = CHR ''A'' then
        res_bind (va_ptr ap) (\<lambda>(p, ap). res_bind (ptr_bytes p 6) (\<lambda>bs.
          Inr (join '':'' (map (\<lambda>b. num_text (f\<lparr>fx := False, fminus := False, fpad := CHR ''0'', fw := 2\<rparr>) (lld_text 16 (char_nat b))) bs), ap)))
      else if c = CHR ''V'' then
        res_bind (va_int ap) (\<lambda>(len, ap). res_bind (va_ptr ap) (\<lambda>(p, ap).
        res_bind (ptr_bytes p (to_size (sint len))) (\<lambda>bs.
          Inr ([CHR 0x22] @ bcpy_loop (map char_nat bs) @ [CHR 0x22], ap))))
      else if c \<in> set ''sQq'' then
        res_bind (va_ptr ap) (\<lambda>(p, ap).
        res_bind (str_text f (if c = CHR ''Q'' then Qcpy else if c = CHR ''q'' then qcpy else scpy) p) (\<lambda>t. Inr (t, ap)))
      else if c = CHR ''%'' then Inr ([CHR ''%''], ap)
      else Inr ([CHR ''%'', c], ap))"

section \<open>Formats\<close>

fun fmt_flag :: "char \<Rightarrow> string \<Rightarrow> bool \<times> string" where
  "fmt_flag f [] = (False, [])"
| "fmt_flag f (c # r) = (if c = f then (True, r) else (False, c # r))"

fun fmt_num :: "nat \<Rightarrow> string \<Rightarrow> nat \<times> string" where
  "fmt_num w [] = (w, [])"
| "fmt_num w (c # r) = (if is_digit c then fmt_num ((w * 10 + (char_nat c - 48)) mod 2 ^ 64) r else (w, c # r))"

definition fmt_prec :: "string \<Rightarrow> vararg list \<Rightarrow> (nat \<times> string \<times> vararg list) res" where
  "fmt_prec r ap =
     (case r of
        c # d # r' \<Rightarrow>
          if c \<noteq> CHR ''.'' then Inr (no_prec, r, ap)
          else if d = CHR ''*'' then res_bind (va_int ap) (\<lambda>(v, ap). Inr (to_size (sint v), r', ap))
          else (case fmt_num 0 (d # r') of (pr, r) \<Rightarrow> Inr (pr, r, ap))
      | [c] \<Rightarrow> if c = CHR ''.'' then Inl UB_Bounds else Inr (no_prec, r, ap)
      | [] \<Rightarrow> Inr (no_prec, r, ap))"

text \<open>One conversion, from the character after the percent sign: what it prints, and the rest of the format.\<close>

definition fmt_convert :: "string \<Rightarrow> vararg list \<Rightarrow> (string \<times> string \<times> vararg list) res" where
  "fmt_convert r ap =
     (case fmt_flag CHR ''#'' r of (x, r) \<Rightarrow>
      case fmt_flag CHR ''-'' r of (left, r) \<Rightarrow>
      case fmt_flag CHR ''0'' r of (zero, r) \<Rightarrow>
      case fmt_num 0 r of (w, r) \<Rightarrow>
      res_bind (fmt_prec r ap) (\<lambda>(pr, r, ap).
      let r = dropWhile (\<lambda>c. c = CHR ''h'') r in
      case fmt_flag CHR ''l'' r of (l1, r) \<Rightarrow>
      case (if l1 then fmt_flag CHR ''l'' r else (False, r)) of (l2, r) \<Rightarrow>
      case r of
        [] \<Rightarrow> Inl UB_Bounds
      | c # r' \<Rightarrow>
          res_bind (fmt_conversion \<lparr>fx = x, fminus = left, fpad = (if zero then CHR ''0'' else CHR '' ''), fw = w, fpr = pr,
              flong = (if l2 then 2 else if l1 then 1 else 0)\<rparr> c ap) (\<lambda>(t, ap). Inr (t, r', ap))))"

lemma fmt_flag_length: "length (snd (fmt_flag f r)) \<le> length r"
  by (cases r) simp_all

lemma fmt_num_length: "length (snd (fmt_num w r)) \<le> length r"
  by (induction w r rule: fmt_num.induct) (auto simp: le_SucI)

lemma fmt_prec_length: "fmt_prec r ap = Inr (pr, r', ap') \<Longrightarrow> length r' \<le> length r"
proof -
  assume f: "fmt_prec r ap = Inr (pr, r', ap')"
  show ?thesis
  proof (cases r)
    case (Cons c r1)
    show ?thesis
    proof (cases r1)
      case (Cons d r2)
      then show ?thesis using f \<open>r = c # r1\<close> fmt_num_length [of 0 "d # r2"]
        by (auto simp: fmt_prec_def split: if_splits prod.splits)
    qed (use f Cons in \<open>auto simp: fmt_prec_def split: if_splits\<close>)
  qed (use f in \<open>simp add: fmt_prec_def\<close>)
qed

lemma fmt_convert_length: "fmt_convert r ap = Inr (t, r', ap') \<Longrightarrow> length r' < length r"
proof -
  assume f: "fmt_convert r ap = Inr (t, r', ap')"
  obtain x r1 where 1: "fmt_flag CHR ''#'' r = (x, r1)" by fastforce
  obtain m r2 where 2: "fmt_flag CHR ''-'' r1 = (m, r2)" by fastforce
  obtain z r3 where 3: "fmt_flag CHR ''0'' r2 = (z, r3)" by fastforce
  obtain w r4 where 4: "fmt_num 0 r3 = (w, r4)" by fastforce
  obtain pr r5 ap5 where 5: "fmt_prec r4 ap = Inr (pr, r5, ap5)" using f 1 2 3 4 by (auto simp: fmt_convert_def)
  obtain l1 r6 where 6: "fmt_flag CHR ''l'' (dropWhile (\<lambda>c. c = CHR ''h'') r5) = (l1, r6)" by fastforce
  obtain l2 r7 where 7: "(if l1 then fmt_flag CHR ''l'' r6 else (False, r6)) = (l2, r7)" by fastforce
  have "length r7 \<le> length r6" using 7 fmt_flag_length [of "CHR ''l''" r6] by (auto split: if_splits)
  also have "\<dots> \<le> length r5"
    using 6 fmt_flag_length [of "CHR ''l''" "dropWhile (\<lambda>c. c = CHR ''h'') r5"] length_dropWhile_le [of "\<lambda>c. c = CHR ''h''" r5] by simp
  also have "\<dots> \<le> length r4" using 5 by (rule fmt_prec_length)
  also have "\<dots> \<le> length r3" using 4 fmt_num_length [of 0 r3] by simp
  also have "\<dots> \<le> length r2" using 3 fmt_flag_length [of "CHR ''0''" r2] by simp
  also have "\<dots> \<le> length r1" using 2 fmt_flag_length [of "CHR ''-''" r1] by simp
  also have "\<dots> \<le> length r" using 1 fmt_flag_length [of "CHR ''#''" r] by simp
  finally show ?thesis using f 1 2 3 4 5 6 7 by (cases r7) (auto simp: fmt_convert_def)
qed

function mg_vxprintf :: "string \<Rightarrow> vararg list \<Rightarrow> (string \<times> vararg list) res" where
  "mg_vxprintf [] ap = Inl UB_Bounds"
| "mg_vxprintf (c # fmt) ap =
     (if c = NUL then Inr ([], ap)
      else if c = CHR ''%'' then
        (case fmt_convert fmt ap of
           Inl e \<Rightarrow> Inl e
         | Inr (t, r, ap) \<Rightarrow> res_bind (mg_vxprintf r ap) (\<lambda>(u, ap). Inr (t @ u, ap)))
      else res_bind (mg_vxprintf fmt ap) (\<lambda>(u, ap). Inr (c # u, ap)))"
  by pat_completeness auto
termination
  by (relation "measure (\<lambda>(fmt, ap). length fmt)") (auto dest: fmt_convert_length)

declare mg_vxprintf.simps [simp del]

text \<open>Output to the end of a buffer, and into a fixed buffer.\<close>

definition iobuf_printf :: "(nat \<Rightarrow> bool) \<Rightarrow> mg_iobuf \<Rightarrow> string \<Rightarrow> vararg list \<Rightarrow> mg_iobuf res" where
  "iobuf_printf mem io fmt ap = res_bind (mg_vxprintf fmt ap) (\<lambda>(t, ap). Inr (fold (mg_pfn_iobuf mem) t io))"

definition mg_vsnprintf :: "string \<Rightarrow> string \<Rightarrow> vararg list \<Rightarrow> (nat \<times> string) res" where
  "mg_vsnprintf buf fmt ap =
     res_bind (mg_vxprintf fmt ap) (\<lambda>(t, ap).
     let io = fold mg_putchar_iobuf_static t \<lparr>io_buf = buf, io_len = 0, io_align = 0\<rparr>; n = length t in
     Inr (n, if n < length buf then (io_buf io)[n := NUL] else io_buf io))"

lemma vxprintf_plain:
  "CHR ''%'' \<notin> set t \<Longrightarrow> NUL \<notin> set t \<Longrightarrow>
   mg_vxprintf (t @ fmt) ap = res_bind (mg_vxprintf fmt ap) (\<lambda>(u, ap). Inr (t @ u, ap))"
proof (induction t)
  case Nil
  show ?case by (cases "mg_vxprintf fmt ap") auto
next
  case (Cons c t)
  then have "mg_vxprintf (t @ fmt) ap = res_bind (mg_vxprintf fmt ap) (\<lambda>(u, ap). Inr (t @ u, ap))" by simp
  with Cons.prems show ?case by (cases "mg_vxprintf fmt ap") (auto simp: mg_vxprintf.simps)
qed

lemma vxprintf_end: "mg_vxprintf [NUL] ap = Inr ([], ap)"
  by (simp add: mg_vxprintf.simps)

end
