(* ===== verification/HttpMessage.thy ===== *)
theory HttpMessage
  imports HttpText
begin

text \<open>
  The parser of HTTP messages of \<open>http_server/mongoose.cpp\<close>: \<open>mg_http_get_request_len\<close>, \<open>skip\<close>,
  \<open>mg_http_parse_headers\<close>, \<open>mg_http_get_header\<close>, \<open>mg_http_parse\<close>, over the receive buffer, with the parts of the
  message as positions in it.
\<close>

abbreviation CR :: char where
  "CR \<equiv> CHR 0x0D"

section \<open>The end of the head\<close>

definition isok :: "char \<Rightarrow> bool" where
  "isok c \<longleftrightarrow> c = newline \<or> c = CR \<or> 32 \<le> char_nat c"

definition ends_head :: "string \<Rightarrow> nat \<Rightarrow> bool" where
  "ends_head buf i \<longleftrightarrow> (i > 0 \<and> buf ! i = newline \<and> buf ! (i - 1) = newline) \<or>
     (i > 3 \<and> buf ! i = newline \<and> buf ! (i - 1) = CR \<and> buf ! (i - 2) = newline)"

fun request_len_loop :: "string \<Rightarrow> nat \<Rightarrow> nat \<Rightarrow> int" where
  "request_len_loop buf i 0 = 0"
| "request_len_loop buf i (Suc k) =
     (if \<not> isok (buf ! i) then - 1
      else if ends_head buf i then to_i32 (int i) + 1
      else request_len_loop buf (i + 1) k)"

definition mg_http_get_request_len :: "string \<Rightarrow> int" where
  "mg_http_get_request_len buf = request_len_loop buf 0 (length buf)"

section \<open>Headers\<close>

text \<open>\<open>strchr(d, c) != NULL\<close>: the terminator of \<open>d\<close> counts.\<close>

definition strchr :: "string \<Rightarrow> char \<Rightarrow> bool" where
  "strchr d c \<longleftrightarrow> c \<in> set d \<or> c = NUL"

text \<open>The two loops of \<open>skip\<close> between the positions \<open>s\<close> and \<open>e\<close>: the part, and the position behind its delimiters.\<close>

definition skip :: "string \<Rightarrow> nat \<Rightarrow> nat \<Rightarrow> string \<Rightarrow> mg_str \<times> nat" where
  "skip buf s e d =
     (let n = length (takeWhile (\<lambda>c. c \<noteq> newline \<and> \<not> strchr d c) (take (e - s) (drop s buf)));
          s1 = s + n
      in (mg_str_n s n, s1 + length (takeWhile (strchr d) (take (e - s1) (drop s1 buf)))))"

record mg_http_header =
  name :: mg_str
  "value" :: mg_str

definition no_header :: mg_http_header where
  "no_header = \<lparr>name = null_str, value = null_str\<rparr>"

definition trim_spaces :: "string \<Rightarrow> mg_str \<Rightarrow> mg_str" where
  "trim_spaces buf v = v\<lparr>slen := length (dropWhile (\<lambda>c. c = CHR '' '') (rev (cut buf v)))\<rparr>"

text \<open>The last argument counts the rounds that are left of \<open>max_headers\<close>.\<close>

fun mg_http_parse_headers ::
  "string \<Rightarrow> nat \<Rightarrow> nat \<Rightarrow> mg_http_header list \<Rightarrow> nat \<Rightarrow> nat \<Rightarrow> mg_http_header list" where
  "mg_http_parse_headers buf s e h i 0 = h"
| "mg_http_parse_headers buf s e h i (Suc rounds) =
     (case skip buf s e [newline] of (tmp, he) \<Rightarrow>
      case skip buf s he [CHR '':'', CHR '' '', CR, newline] of (k, s) \<Rightarrow>
      case skip buf s he [CR, newline] of (v, s) \<Rightarrow>
        if slen k = slen tmp then mg_http_parse_headers buf s e h (i + 1) rounds
        else
          let v = trim_spaces buf v in
          if slen k = 0 then h
          else mg_http_parse_headers buf s e (h[i := \<lparr>name = k, value = v\<rparr>]) (i + 1) rounds)"

section \<open>Messages\<close>

abbreviation MG_MAX_HTTP_HEADERS :: nat where
  "MG_MAX_HTTP_HEADERS \<equiv> 30"

text \<open>\<open>(size_t) ~0\<close>, the length of a body that ends with the connection.\<close>

abbreviation size_max :: nat where
  "size_max \<equiv> 2 ^ 64 - 1"

record mg_http_message =
  hm_method :: mg_str
  uri :: mg_str
  query :: mg_str
  proto :: mg_str
  headers :: "mg_http_header list"
  body :: mg_str
  head :: mg_str
  chunk :: mg_str
  message :: mg_str

definition zero_message :: mg_http_message where
  "zero_message = \<lparr>hm_method = null_str, uri = null_str, query = null_str, proto = null_str,
     headers = replicate MG_MAX_HTTP_HEADERS no_header, body = null_str, head = null_str, chunk = null_str,
     message = null_str\<rparr>"

fun get_header_loop :: "string \<Rightarrow> mg_http_header list \<Rightarrow> string \<Rightarrow> mg_str option res" where
  "get_header_loop buf [] nm = Inr None"
| "get_header_loop buf (h # hs) nm =
     (if slen (name h) > 0 then
        (if length nm = slen (name h) then
           res_bind (mg_ncasecmp (mem_at buf (name h)) (nm @ [NUL]) (length nm)) (\<lambda>r.
             if r = 0 then Inr (Some (value h)) else get_header_loop buf hs nm)
         else get_header_loop buf hs nm)
      else Inr None)"

definition mg_http_get_header :: "string \<Rightarrow> mg_http_message \<Rightarrow> string \<Rightarrow> mg_str option res" where
  "mg_http_get_header buf h nm = get_header_loop buf (headers h) nm"

definition set_body_len :: "int \<Rightarrow> nat \<Rightarrow> mg_http_message \<Rightarrow> mg_http_message" where
  "set_body_len req_len n hm =
     hm\<lparr>body := (body hm)\<lparr>slen := n\<rparr>, message := (message hm)\<lparr>slen := to_size (req_len + int n)\<rparr>\<rparr>"

definition split_query :: "string \<Rightarrow> mg_http_message \<Rightarrow> mg_http_message" where
  "split_query buf hm =
     (case sptr (uri hm) of None \<Rightarrow> hm | Some u \<Rightarrow>
        let path = takeWhile (\<lambda>c. c \<noteq> CHR ''?'') (cut buf (uri hm)); n = slen (uri hm) in
        if length path < n
        then hm\<lparr>query := mg_str_n (u + length path + 1) (n - (length path + 1)), uri := mg_str_n u (length path)\<rparr>
        else hm)"

text \<open>The lengths: \<open>Content-Length\<close>, or the defaults without it.\<close>

definition body_lengths :: "string \<Rightarrow> int \<Rightarrow> mg_http_message \<Rightarrow> mg_http_message res" where
  "body_lengths buf req_len hm =
     res_bind (mg_http_get_header buf hm ''Content-Length'') (\<lambda>cl.
     let hm = (case cl of None \<Rightarrow> hm | Some v \<Rightarrow> set_body_len req_len (to_size (mg_to64 (cut buf v))) hm) in
     res_bind (mg_ncasecmp (mem_at buf (hm_method hm)) (''HTTP/'' @ [NUL]) 5) (\<lambda>r.
     let is_response = (r = 0) in
     res_bind
       (if slen (body hm) = size_max \<and> \<not> is_response then
          res_bind (mg_vcasecmp buf (hm_method hm) ''PUT'') (\<lambda>r1.
            if r1 \<noteq> 0 then
              res_bind (mg_vcasecmp buf (hm_method hm) ''POST'') (\<lambda>r2.
                Inr (if r2 \<noteq> 0 then set_body_len req_len 0 hm else hm))
            else Inr hm)
        else Inr hm) (\<lambda>hm.
     if slen (body hm) = size_max \<and> is_response then
       res_bind (mg_vcasecmp buf (uri hm) ''204'') (\<lambda>r.
         Inr (if r = 0 then set_body_len req_len 0 hm else hm))
     else Inr hm)))"

definition mg_http_parse :: "string \<Rightarrow> (int \<times> mg_http_message) res" where
  "mg_http_parse buf =
     (let req_len = mg_http_get_request_len buf; hm = zero_message in
      if req_len \<le> 0 then Inr (req_len, hm)
      else
        let e = nat req_len;
            hm = hm\<lparr>message := mg_str_n 0 size_max, head := mg_str_n 0 e, body := mg_str_n e size_max,
              chunk := mg_str_n e 0\<rparr> in
        case skip buf 0 e '' '' of (m, s) \<Rightarrow>
        case skip buf s e '' '' of (u, s) \<Rightarrow>
        case skip buf s e [CR, newline] of (p, s) \<Rightarrow>
        let hm = hm\<lparr>hm_method := m, uri := u, proto := p\<rparr> in
        if slen m = 0 \<or> slen u = 0 then Inr (- 1, hm)
        else
          let hm = split_query buf hm;
              hm = hm\<lparr>headers := mg_http_parse_headers buf s e (headers hm) 0 MG_MAX_HTTP_HEADERS\<rparr> in
          res_bind (body_lengths buf req_len hm) (\<lambda>hm. Inr (req_len, hm)))"

end
