(* ===== verification/HttpRequest.thy ===== *)
theory HttpRequest
  imports HttpMessage
begin

text \<open>
  What a request is: its parts, its text, and the proof that the parser of \<open>HttpMessage\<close> reads the text back, with
  anything behind it in the buffer.
\<close>

section \<open>The text of a request\<close>

abbreviation CRLF :: string where
  "CRLF \<equiv> [CR, newline]"

record request =
  rq_method :: string
  rq_path :: string
  rq_query :: "string option"
  rq_proto :: string
  rq_headers :: "(string \<times> string) list"
  rq_body :: string

definition target :: "request \<Rightarrow> string" where
  "target r = rq_path r @ (case rq_query r of None \<Rightarrow> [] | Some q \<Rightarrow> CHR ''?'' # q)"

definition request_line :: "request \<Rightarrow> string" where
  "request_line r = rq_method r @ '' '' @ target r @ '' '' @ rq_proto r"

definition header_line :: "string \<times> string \<Rightarrow> string" where
  "header_line kv = fst kv @ '': '' @ snd kv"

definition lines_text :: "string list \<Rightarrow> string" where
  "lines_text ls = concat (map (\<lambda>l. l @ CRLF) ls)"

definition head_text :: "request \<Rightarrow> string" where
  "head_text r = lines_text (request_line r # map header_line (rq_headers r)) @ CRLF"

text \<open>The characters each part may have.\<close>

definition field_ok :: "string \<Rightarrow> bool" where
  "field_ok s \<longleftrightarrow> (\<forall>c\<in>set s. 32 \<le> char_nat c)"

definition token_ok :: "string \<Rightarrow> bool" where
  "token_ok s \<longleftrightarrow> field_ok s \<and> CHR '' '' \<notin> set s"

fun header_ok :: "string \<times> string \<Rightarrow> bool" where
  "header_ok (k, v) \<longleftrightarrow> token_ok k \<and> k \<noteq> [] \<and> CHR '':'' \<notin> set k \<and> field_ok v \<and>
     (v \<noteq> [] \<longrightarrow> hd v \<noteq> CHR '' '' \<and> hd v \<noteq> CHR '':'' \<and> last v \<noteq> CHR '' '')"

definition request_ok :: "request \<Rightarrow> bool" where
  "request_ok r \<longleftrightarrow>
     token_ok (rq_method r) \<and> rq_method r \<noteq> [] \<and> CHR ''/'' \<notin> set (rq_method r) \<and>
     token_ok (target r) \<and> target r \<noteq> [] \<and> CHR ''?'' \<notin> set (rq_path r) \<and>
     field_ok (rq_proto r) \<and> (rq_proto r \<noteq> [] \<longrightarrow> hd (rq_proto r) \<noteq> CHR '' '') \<and>
     list_all header_ok (rq_headers r) \<and> length (rq_headers r) \<le> MG_MAX_HTTP_HEADERS"

lemma lines_text_simps [simp]:
  "lines_text [] = []"
  "lines_text (l # ls) = l @ CR # newline # lines_text ls"
  by (simp_all add: lines_text_def)

lemma field_ok_simps [simp]:
  "field_ok []"
  "field_ok (c # s) \<longleftrightarrow> 32 \<le> char_nat c \<and> field_ok s"
  "field_ok (s @ t) \<longleftrightarrow> field_ok s \<and> field_ok t"
  by (auto simp: field_ok_def)

lemma char_nat_codes [simp]:
  "char_nat newline = 10" "char_nat CR = 13" "char_nat NUL = 0" "char_nat CHR '' '' = 32" "char_nat CHR '':'' = 58"
  "char_nat CHR ''?'' = 63"
  by (simp_all add: char_nat_def)

lemma field_ok_plain: "field_ok s \<Longrightarrow> c \<in> set s \<Longrightarrow> isok c \<and> c \<noteq> newline \<and> c \<noteq> CR \<and> c \<noteq> NUL"
  by (auto simp: field_ok_def isok_def)

section \<open>Where the head ends\<close>

definition rl :: "string \<Rightarrow> nat \<Rightarrow> int" where
  "rl buf i = request_len_loop buf i (length buf - i)"

lemma rl_step:
  "i < length buf \<Longrightarrow> rl buf i =
     (if \<not> isok (buf ! i) then - 1 else if ends_head buf i then to_i32 (int i) + 1 else rl buf (Suc i))"
proof -
  assume "i < length buf"
  then have "length buf - i = Suc (length buf - Suc i)" by simp
  then show ?thesis by (simp add: rl_def)
qed

lemma rl_plain:
  assumes "buf = pre @ xs @ post" "\<forall>c\<in>set xs. isok c \<and> c \<noteq> newline"
  shows "rl buf (length pre) = rl buf (length pre + length xs)"
  using assms
proof (induction xs arbitrary: pre)
  case (Cons c xs)
  have "rl buf (length pre) = rl buf (Suc (length pre))"
    using Cons.prems by (subst rl_step) (auto simp: ends_head_def)
  also have "\<dots> = rl buf (length pre + length (c # xs))"
    using Cons.IH [of "pre @ [c]"] Cons.prems by simp
  finally show ?case .
qed simp

lemma rl_line:
  assumes buf: "buf = pre @ l @ CR # newline # post" and l: "l \<noteq> []" "field_ok l"
  shows "rl buf (length pre) = rl buf (length pre + length l + 2)"
proof -
  have "\<forall>c\<in>set (l @ [CR]). isok c \<and> c \<noteq> newline"
    using field_ok_plain [OF l(2)] by (auto simp: isok_def)
  then have "rl buf (length pre) = rl buf (length pre + length (l @ [CR]))"
    using buf by (intro rl_plain [of buf pre _ "newline # post"]) simp_all
  moreover obtain l0 x where l0: "l = l0 @ [x]" using l(1) by (metis rev_exhaust)
  have "\<not> ends_head buf (length pre + length l + 1)"
    using buf l0 field_ok_plain [OF l(2), of x] by (auto simp: ends_head_def nth_append)
  then have "rl buf (length pre + length l + 1) = rl buf (length pre + length l + 2)"
    using buf by (subst rl_step) (auto simp: isok_def nth_append)
  ultimately show ?thesis by simp
qed

lemma rl_lines:
  "buf = pre @ lines_text ls @ post \<Longrightarrow> \<forall>l\<in>set ls. l \<noteq> [] \<and> field_ok l \<Longrightarrow>
   rl buf (length pre) = rl buf (length pre + length (lines_text ls))"
proof (induction ls arbitrary: pre)
  case (Cons l ls)
  then have "rl buf (length pre) = rl buf (length pre + length l + 2)" by (intro rl_line) auto
  also have "\<dots> = rl buf (length pre + length (lines_text (l # ls)))"
    using Cons.IH [of "pre @ l @ CRLF"] Cons.prems by (simp add: add.assoc)
  finally show ?case .
qed simp

lemma rl_blank:
  assumes "buf = pre @ [x, CR, newline] @ CR # newline # post" "length buf < 2 ^ 31"
  shows "rl buf (length pre + 3) = int (length pre + 5)"
proof -
  have "rl buf (length pre + 3) = rl buf (Suc (length pre + 3))"
    using assms by (subst rl_step) (auto simp: ends_head_def isok_def nth_append)
  also have "Suc (length pre + 3) = length pre + 4" by simp
  also have "rl buf (length pre + 4) = to_i32 (int (length pre + 4)) + 1"
    using assms by (subst rl_step) (auto simp: ends_head_def isok_def nth_append)
  also have "\<dots> = int (length pre + 5)" using assms by (subst to_i32_id) (auto simp: int_range_def)
  finally show ?thesis .
qed

lemma request_len_lines:
  assumes ls: "ls \<noteq> []" "\<forall>l\<in>set ls. l \<noteq> [] \<and> field_ok l" and small: "length (lines_text ls @ CRLF @ rest) < 2 ^ 31"
  shows "mg_http_get_request_len (lines_text ls @ CRLF @ rest) = int (length (lines_text ls @ CRLF))"
proof -
  let ?buf = "lines_text ls @ CRLF @ rest"
  obtain ls' l where "ls = ls' @ [l]" using ls(1) by (metis rev_exhaust)
  moreover obtain l0 x where "l = l0 @ [x]" using calculation ls(2) by (metis last_in_set append_butlast_last_id snoc_eq_iff_butlast)
  ultimately have t: "lines_text ls = (lines_text ls' @ l0) @ [x, CR, newline]" by (simp add: lines_text_def)
  have "mg_http_get_request_len ?buf = rl ?buf (length ([] :: string))" by (simp add: mg_http_get_request_len_def rl_def)
  also have "\<dots> = rl ?buf (length (lines_text ls))" using rl_lines [of ?buf "[]" ls "CRLF @ rest"] ls(2) by simp
  also have "length (lines_text ls) = length (lines_text ls' @ l0) + 3" by (simp add: t)
  also have "rl ?buf (length (lines_text ls' @ l0) + 3) = int (length (lines_text ls' @ l0) + 5)"
    by (rule rl_blank [where x = x and post = rest]) (use small in \<open>simp_all add: t\<close>)
  also have "\<dots> = int (length (lines_text ls @ CRLF))" by (simp add: t)
  finally show ?thesis .
qed

section \<open>Parts of a line\<close>

lemma skip_part:
  assumes at: "drop s buf = tok @ seps @ r" and tok: "\<forall>c\<in>set tok. c \<noteq> newline \<and> \<not> strchr d c"
    and seps: "\<forall>c\<in>set seps. strchr d c" "s + length tok + length seps \<le> e"
    and stop: "seps \<noteq> [] \<or> s + length tok = e"
    and more: "r = [] \<or> s + length tok + length seps = e \<or> \<not> strchr d (hd r)"
  shows "skip buf s e d = (mg_str_n s (length tok), s + length tok + length seps)"
proof -
  let ?p = "\<lambda>c. c \<noteq> newline \<and> \<not> strchr d c"
  define r' where "r' = take (e - s - length tok - length seps) r"
  have t: "take (e - s) (drop s buf) = tok @ seps @ r'"
    using seps(2) by (simp add: at r'_def)
  have "takeWhile ?p (seps @ r') = []"
    using stop seps by (cases seps) (auto simp: r'_def)
  then have n: "takeWhile ?p (take (e - s) (drop s buf)) = tok"
    using tok by (simp add: t takeWhile_append2)
  have d: "drop (s + length tok) buf = seps @ r"
    using arg_cong [OF at, of "drop (length tok)"] by (simp add: add.commute)
  have t2: "take (e - (s + length tok)) (drop (s + length tok) buf) = seps @ r'"
    using seps(2) by (simp add: d r'_def)
  have "takeWhile (strchr d) r' = []"
    using more by (cases r) (auto simp: r'_def take_Cons')
  then have "takeWhile (strchr d) (seps @ r') = seps" using seps(1) by (simp add: takeWhile_append2)
  with n t2 show ?thesis by (simp add: skip_def Let_def)
qed

lemma drop_at: "drop s buf = xs @ ys \<Longrightarrow> drop (s + length xs) buf = ys"
  by (metis add.commute append_eq_conv_conj drop_drop)

lemma skip_end: "skip buf e e d = (mg_str_n e 0, e)"
  by (simp add: skip_def)

fun header_parts :: "nat \<Rightarrow> (string \<times> string) list \<Rightarrow> mg_http_header list" where
  "header_parts s [] = []"
| "header_parts s ((k, v) # hs) =
     \<lparr>name = mg_str_n s (length k), value = mg_str_n (s + length k + 2 + (if v = [] then 2 else 0)) (length v)\<rparr>
       # header_parts (s + length k + length v + 4) hs"

lemma length_header_parts [simp]: "length (header_parts s hs) = length hs"
  by (induction s hs rule: header_parts.induct) simp_all

lemma trim_spaces_id: "v = [] \<or> last v \<noteq> CHR '' '' \<Longrightarrow> cut buf p = v \<Longrightarrow> slen p = length v \<Longrightarrow> trim_spaces buf p = p"
proof -
  assume v: "v = [] \<or> last v \<noteq> CHR '' ''" "cut buf p = v" "slen p = length v"
  have "dropWhile (\<lambda>c. c = CHR '' '') (rev v) = rev v"
    using v(1) by (cases v rule: rev_cases) simp_all
  with v(2,3) show ?thesis by (simp add: trim_spaces_def)
qed

lemma parse_headers_end:
  assumes "drop s buf = tail @ rest" "tail = [] \<or> tail = CRLF"
  shows "mg_http_parse_headers buf s (s + length tail) h i rounds = h"
proof (cases "tail = []")
  case True
  then show ?thesis by (induction rounds arbitrary: i) (simp_all add: skip_end)
next
  case False
  then have t: "tail = CRLF" using assms(2) by simp
  have "skip buf s (s + 2) [newline] = (mg_str_n s 1, s + 2)"
    using skip_part [of s buf "[CR]" "[newline]" rest "[newline]" "s + 2"] assms(1) t by (simp add: strchr_def)
  moreover have "skip buf s (s + 2) [CHR '':'', CHR '' '', CR, newline] = (mg_str_n s 0, s + 2)"
    using skip_part [of s buf "[]" CRLF rest "[CHR '':'', CHR '' '', CR, newline]" "s + 2"] assms(1) t
    by (simp add: strchr_def)
  ultimately show ?thesis using t by (cases rounds) (simp_all add: skip_end trim_spaces_id)
qed

lemma parse_header_line:
  assumes at: "drop s buf = header_line (k, v) @ CRLF @ behind" and ok: "header_ok (k, v)"
    and behind: "behind \<noteq> []" "hd behind \<noteq> newline" "hd behind \<noteq> NUL" and e: "s + length k + length v + 4 \<le> e"
  shows "mg_http_parse_headers buf s e h i (Suc rounds) =
    mg_http_parse_headers buf (s + length k + length v + 4) e
      (h[i := \<lparr>name = mg_str_n s (length k),
           value = mg_str_n (s + length k + 2 + (if v = [] then 2 else 0)) (length v)\<rparr>]) (i + 1) rounds"
proof -
  let ?d = "[CHR '':'', CHR '' '', CR, newline]"
  let ?he = "s + length k + length v + 4"
  have k: "k \<noteq> []" "\<forall>c\<in>set k. c \<noteq> newline \<and> c \<noteq> NUL \<and> \<not> strchr ?d c"
    using ok field_ok_plain [of k] by (auto simp: token_ok_def strchr_def)
  have v: "\<forall>c\<in>set v. c \<noteq> newline \<and> c \<noteq> NUL \<and> \<not> strchr [CR, newline] c"
    using ok field_ok_plain [of v] by (auto simp: strchr_def)
  have line: "drop s buf = (k @ '': '' @ v @ [CR]) @ [newline] @ behind" using at by (simp add: header_line_def)
  have tmp: "skip buf s e [newline] = (mg_str_n s (length k + length v + 3), ?he)"
  proof -
    have "skip buf s e [newline] = (mg_str_n s (length (k @ '': '' @ v @ [CR])), s + length (k @ '': '' @ v @ [CR]) + length [newline])"
      by (rule skip_part [OF line]) (use k(2) v e behind in \<open>auto simp: strchr_def\<close>)
    then show ?thesis by (simp add: add.assoc)
  qed
  have key: "skip buf s ?he ?d = (mg_str_n s (length k), s + length k + (if v = [] then 4 else 2))"
  proof (cases v)
    case Nil
    then show ?thesis
      using skip_part [of s buf k "'': '' @ CRLF" behind ?d ?he] k at by (simp add: strchr_def header_line_def)
  next
    case (Cons c v')
    then have "\<not> strchr ?d c" using ok field_ok_plain [of v c] by (auto simp: strchr_def)
    then show ?thesis
      using skip_part [of s buf k "'': ''" "v @ CRLF @ behind" ?d ?he] k at Cons by (simp add: strchr_def header_line_def)
  qed
  have val: "skip buf (s + length k + (if v = [] then 4 else 2)) ?he [CR, newline] =
    (mg_str_n (s + length k + 2 + (if v = [] then 2 else 0)) (length v), ?he)"
  proof (cases "v = []")
    case True
    then show ?thesis using skip_end [of buf ?he] by (simp add: add.assoc)
  next
    case False
    have "drop (s + length k + 2) buf = v @ CRLF @ behind"
      using drop_at [of s buf "k @ '': ''" "v @ CRLF @ behind"] at by (simp add: header_line_def)
    with skip_part [of "s + length k + 2" buf v CRLF behind "[CR, newline]" ?he] v False show ?thesis
      by (simp add: strchr_def)
  qed
  have cutv: "cut buf (mg_str_n (s + length k + 2 + (if v = [] then 2 else 0)) (length v)) = v"
    using drop_at [of s buf "k @ '': ''" "v @ CRLF @ behind"] at by (simp add: header_line_def)
  have "trim_spaces buf (mg_str_n (s + length k + 2 + (if v = [] then 2 else 0)) (length v)) =
      mg_str_n (s + length k + 2 + (if v = [] then 2 else 0)) (length v)"
    by (rule trim_spaces_id [OF _ cutv]) (use ok in auto)
  with tmp key val k(1) show ?thesis by simp
qed

lemma parse_headers_lines:
  assumes "drop s buf = lines_text (map header_line hs) @ tail @ rest" "list_all header_ok hs"
    "tail = CRLF \<or> hs = [] \<and> tail = []" "i + rounds = length h" "length hs \<le> rounds"
  shows "mg_http_parse_headers buf s (s + length (lines_text (map header_line hs) @ tail)) h i rounds =
    take i h @ header_parts s hs @ drop (i + length hs) h"
  using assms
proof (induction hs arbitrary: s h i rounds)
  case Nil
  then show ?case using parse_headers_end [of s buf tail rest] by auto
next
  case (Cons kv hs)
  obtain k v where kv: "kv = (k, v)" by (cases kv)
  obtain n where n: "rounds = Suc n" using Cons.prems(5) by (cases rounds) auto
  let ?behind = "lines_text (map header_line hs) @ tail @ rest"
  let ?p = "\<lparr>name = mg_str_n s (length k), value = mg_str_n (s + length k + 2 + (if v = [] then 2 else 0)) (length v)\<rparr>"
  have at: "drop s buf = header_line (k, v) @ CRLF @ ?behind" using Cons.prems(1) kv by simp
  have behind: "?behind \<noteq> [] \<and> hd ?behind \<noteq> newline \<and> hd ?behind \<noteq> NUL"
  proof (cases hs)
    case Nil
    with Cons.prems(3) show ?thesis by simp
  next
    case (Cons kv' hs')
    obtain k' v' where "kv' = (k', v')" by (cases kv')
    with Cons Cons.prems(2) show ?thesis
      by (cases k') (auto simp: header_line_def token_ok_def)
  qed
  let ?e = "s + length (lines_text (map header_line (kv # hs)) @ tail)"
  have e: "?e = (s + length k + length v + 4) + length (lines_text (map header_line hs) @ tail)"
    by (simp add: kv header_line_def)
  have "mg_http_parse_headers buf s ?e h i rounds =
      mg_http_parse_headers buf (s + length k + length v + 4) ?e (h[i := ?p]) (i + 1) n"
    unfolding n by (rule parse_header_line [OF at]) (use Cons.prems(2) kv behind e in auto)
  also have "\<dots> = take (i + 1) (h[i := ?p]) @ header_parts (s + length k + length v + 4) hs @ drop (i + 1 + length hs) (h[i := ?p])"
    unfolding e
  proof (rule Cons.IH)
    have "drop (s + length (header_line (k, v) @ CRLF)) buf = ?behind" by (rule drop_at) (use at in simp)
    moreover have "length (header_line (k, v) @ CRLF) = length k + length v + 4" by (simp add: header_line_def)
    ultimately show "drop (s + length k + length v + 4) buf = ?behind" by (simp only: add.assoc)
  qed (use Cons.prems n in auto)
  also have "\<dots> = take i h @ header_parts s (kv # hs) @ drop (i + length (kv # hs)) h"
    using Cons.prems(4) n by (simp add: kv take_Suc_conv_app_nth drop_update_cancel)
  finally show ?case .
qed

section \<open>The parsed request\<close>

fun lookup_header :: "(string \<times> string) list \<Rightarrow> string \<Rightarrow> string option" where
  "lookup_header [] nm = None"
| "lookup_header ((k, v) # hs) nm = (if same_nocase k nm then Some v else lookup_header hs nm)"

text \<open>The length of the body as the parser takes it, \<open>size_max\<close> being "until the connection closes".\<close>

definition body_len :: "request \<Rightarrow> nat" where
  "body_len r =
     (let n = (case lookup_header (rq_headers r) ''Content-Length'' of None \<Rightarrow> size_max | Some v \<Rightarrow> to_size (mg_to64 v)) in
      if n = size_max \<and> \<not> same_nocase (rq_method r) ''PUT'' \<and> \<not> same_nocase (rq_method r) ''POST'' then 0 else n)"

definition message_len :: "request \<Rightarrow> nat" where
  "message_len r =
     (if lookup_header (rq_headers r) ''Content-Length'' = None \<and> body_len r = size_max then size_max
      else to_size (int (length (head_text r)) + int (body_len r)))"

definition reads_part :: "string \<Rightarrow> mg_str \<Rightarrow> string \<Rightarrow> bool" where
  "reads_part buf p t \<longleftrightarrow> (\<exists>s rest. drop s buf = t @ rest \<and> sptr p = Some s \<and> slen p = length t)"

lemma reads_part_n: "drop s buf = t @ rest \<Longrightarrow> n = length t \<Longrightarrow> reads_part buf (mg_str_n s n) t"
  by (auto simp: reads_part_def)

lemma reads_part_cut:
  assumes "reads_part buf p t"
  shows "cut buf p = t" "slen p = length t" "slen p \<le> length (mem_at buf p)" "MgStringCopy buf p = Inr t"
proof -
  from assms obtain s rest where s: "drop s buf = t @ rest" "sptr p = Some s" and l: "slen p = length t"
    by (auto simp: reads_part_def)
  then have m: "mem_at buf p = t @ rest" by (simp add: mem_at_def)
  from m l show "cut buf p = t" "slen p = length t" "slen p \<le> length (mem_at buf p)" "MgStringCopy buf p = Inr t"
    by (simp_all add: cut_def MgStringCopy_def)
qed

lemma header_parts_read:
  assumes "drop s buf = lines_text (map header_line hs) @ rest"
  shows "list_all2 (\<lambda>h kv. reads_part buf (name h) (fst kv) \<and> reads_part buf (value h) (snd kv)) (header_parts s hs) hs"
  using assms
proof (induction s hs rule: header_parts.induct)
  case (2 s k v hs)
  have at: "drop s buf = k @ '': '' @ v @ CRLF @ lines_text (map header_line hs) @ rest"
    using "2.prems" header_line_def [of "(k, v)"] by simp
  have v: "drop (s + length k + 2) buf = v @ CRLF @ lines_text (map header_line hs) @ rest"
    using drop_at [of s buf "k @ '': ''"] at by simp
  have val: "\<exists>r. drop (s + length k + 2 + (if v = [] then 2 else 0)) buf = v @ r"
    using v by simp
  have "drop (s + length (header_line (k, v) @ CRLF)) buf = lines_text (map header_line hs) @ rest"
    by (rule drop_at) (use "2.prems" in simp)
  moreover have "length (header_line (k, v) @ CRLF) = length k + length v + 4" by (simp add: header_line_def)
  ultimately have "drop (s + length k + length v + 4) buf = lines_text (map header_line hs) @ rest"
    by (simp only: add.assoc)
  with "2.IH" at val show ?case by (auto intro!: reads_part_n)
qed simp

lemma get_header_loop_finds:
  assumes "list_all2 (\<lambda>h kv. reads_part buf (name h) (fst kv) \<and> reads_part buf (value h) (snd kv)) H hs"
    "list_all header_ok hs"
  shows "\<exists>p. get_header_loop buf (H @ replicate n no_header) nm = Inr p \<and>
    (case lookup_header hs nm of None \<Rightarrow> p = None | Some v \<Rightarrow> \<exists>q. p = Some q \<and> reads_part buf q v)"
  using assms
proof (induction H hs rule: list_all2_induct)
  case Nil
  then show ?case by (cases n) (simp_all add: no_header_def)
next
  case (Cons h H kv hs)
  obtain k v where kv: "kv = (k, v)" by (cases kv)
  have k: "cut buf (name h) = k" "slen (name h) = length k" "slen (name h) \<le> length (mem_at buf (name h))"
    using Cons.hyps(1) kv by (auto dest: reads_part_cut)
  have ne: "k \<noteq> []" "NUL \<notin> set k" using Cons.prems kv field_ok_plain [of k NUL] by (auto simp: token_ok_def)
  show ?case
  proof (cases "length nm = length k")
    case False
    then have "\<not> same_nocase k nm" by (metis length_map same_nocase_def)
    with Cons False k(2) ne(1) kv show ?thesis by simp
  next
    case True
    then obtain r where r: "mg_ncasecmp (mem_at buf (name h)) (nm @ [NUL]) (length nm) = Inr r" "r = 0 \<longleftrightarrow> same_nocase k nm"
      using mg_ncasecmp_decides [of "length nm" "mem_at buf (name h)" "nm @ [NUL]"] k ne(2)
      by (auto simp: cut_def)
    with Cons True k(2) ne(1) kv show ?thesis by auto
  qed
qed

text \<open>The message the parser returns for a request.\<close>

definition parsed :: "string \<Rightarrow> request \<Rightarrow> mg_http_message \<Rightarrow> bool" where
  "parsed buf r hm \<longleftrightarrow>
     reads_part buf (hm_method hm) (rq_method r) \<and> reads_part buf (uri hm) (rq_path r) \<and>
     (case rq_query r of None \<Rightarrow> query hm = null_str | Some q \<Rightarrow> reads_part buf (query hm) q) \<and>
     reads_part buf (proto hm) (rq_proto r) \<and>
     list_all2 (\<lambda>h kv. reads_part buf (name h) (fst kv) \<and> reads_part buf (value h) (snd kv))
       (take (length (rq_headers r)) (headers hm)) (rq_headers r) \<and>
     drop (length (rq_headers r)) (headers hm) = replicate (MG_MAX_HTTP_HEADERS - length (rq_headers r)) no_header \<and>
     body hm = mg_str_n (length (head_text r)) (body_len r) \<and>
     head hm = mg_str_n 0 (length (head_text r)) \<and>
     message hm = mg_str_n 0 (message_len r)"

lemma parsed_header:
  assumes "parsed buf r hm" "list_all header_ok (rq_headers r)"
  shows "\<exists>p. mg_http_get_header buf hm nm = Inr p \<and>
    (case lookup_header (rq_headers r) nm of None \<Rightarrow> p = None | Some v \<Rightarrow> \<exists>q. p = Some q \<and> reads_part buf q v)"
proof -
  let ?n = "length (rq_headers r)"
  have "headers hm = take ?n (headers hm) @ replicate (MG_MAX_HTTP_HEADERS - ?n) no_header"
    using assms(1) by (metis append_take_drop_id parsed_def)
  with assms get_header_loop_finds [of buf "take ?n (headers hm)" "rq_headers r" "MG_MAX_HTTP_HEADERS - ?n" nm]
  show ?thesis by (simp add: mg_http_get_header_def parsed_def)
qed

lemma split_query_reads:
  assumes "reads_part buf (uri hm) (target r)" "CHR ''?'' \<notin> set (rq_path r)"
  shows "\<exists>u q. split_query buf hm = hm\<lparr>uri := u, query := q\<rparr> \<and> reads_part buf u (rq_path r) \<and>
    (case rq_query r of None \<Rightarrow> q = query hm | Some t \<Rightarrow> reads_part buf q t)"
proof -
  from assms(1) obtain s rest where s: "drop s buf = target r @ rest" "sptr (uri hm) = Some s" "slen (uri hm) = length (target r)"
    by (auto simp: reads_part_def)
  have c: "cut buf (uri hm) = target r" using reads_part_cut [OF assms(1)] by simp
  have tw: "takeWhile (\<lambda>c. c \<noteq> CHR ''?'') (target r) = rq_path r"
  proof -
    have "\<forall>c\<in>set (rq_path r). c \<noteq> CHR ''?''" using assms(2) by auto
    then show ?thesis by (simp add: target_def takeWhile_append2 takeWhile_eq_all_conv split: option.splits)
  qed
  show ?thesis
  proof (cases "rq_query r")
    case None
    then have t: "target r = rq_path r" by (simp add: target_def)
    have "takeWhile (\<lambda>c. c \<noteq> CHR ''?'') (cut buf (uri hm)) = rq_path r" unfolding c by (rule tw)
    with s(2,3) t have "split_query buf hm = hm"
      by (simp only: split_query_def option.case Let_def less_irrefl if_False)
    with assms(1) t None show ?thesis by (intro exI [of _ "uri hm"] exI [of _ "query hm"]) simp
  next
    case (Some q)
    then have t: "target r = rq_path r @ CHR ''?'' # q" by (simp add: target_def)
    have "drop (s + length (rq_path r @ ''?'')) buf = q @ rest"
      by (rule drop_at) (use s(1) t in simp)
    then have "reads_part buf (mg_str_n (s + length (rq_path r) + 1) (length q)) q"
      by (intro reads_part_n) simp_all
    moreover have "reads_part buf (mg_str_n s (length (rq_path r))) (rq_path r)"
      using s(1) t by (intro reads_part_n) simp_all
    moreover have "split_query buf hm = hm\<lparr>query := mg_str_n (s + length (rq_path r) + 1) (length q),
        uri := mg_str_n s (length (rq_path r))\<rparr>"
      using s c tw t by (simp add: split_query_def Let_def)
    ultimately show ?thesis using Some
      by (intro exI [of _ "mg_str_n s (length (rq_path r))"] exI [of _ "mg_str_n (s + length (rq_path r) + 1) (length q)"]) simp
  qed
qed

text \<open>The sizes of the parts stay below \<open>2 ^ 31\<close> in a buffer of that size; \<open>HTTP/\<close> does not begin a request.\<close>

lemma reads_part_small: "reads_part buf p t \<Longrightarrow> length buf < 2 ^ 31 \<Longrightarrow> length t < 2 ^ 31"
proof -
  assume "reads_part buf p t" and small: "length buf < 2 ^ 31"
  then obtain s rest where "drop s buf = t @ rest" by (auto simp: reads_part_def)
  then have "length t \<le> length buf" by (metis length_append length_drop diff_le_self le_add1 order_trans)
  with small show ?thesis by simp
qed

lemma method_no_response:
  assumes m: "reads_part buf p m" "CHR ''/'' \<notin> set m" "field_ok m"
    and at: "mem_at buf p = m @ CHR '' '' # t" "5 \<le> length (mem_at buf p)" "NUL \<notin> set (take 5 (mem_at buf p))"
  shows "\<exists>x. mg_ncasecmp (mem_at buf p) (''HTTP/'' @ [NUL]) 5 = Inr x \<and> x \<noteq> 0"
proof -
  have low: "c = CHR ''/''" if "mg_lower c = 47" for c
  proof -
    have "char_nat c = 47" using that by (auto simp: mg_lower_def Let_def split: if_splits)
    moreover have "char_of (47::nat) = CHR ''/''" by code_simp
    ultimately show ?thesis using char_of_eq_iff [of 47 c] by (auto simp: char_nat_def)
  qed
  have "\<not> same_nocase (take 5 (mem_at buf p)) ''HTTP/''"
  proof
    assume "same_nocase (take 5 (mem_at buf p)) ''HTTP/''"
    then have s: "map mg_lower (take 5 (m @ CHR '' '' # t)) = [104, 116, 116, 112, 47]"
      using at(1) by (simp add: same_nocase_def mg_lower_def char_nat_def)
    have sp: "mg_lower CHR '' '' = 32" by (simp add: mg_lower_def)
    consider "m = []" | a where "m = [a]" | a b where "m = [a, b]" | a b c where "m = [a, b, c]"
      | a b c d where "m = [a, b, c, d]" | a b c d e m' where "m = a # b # c # d # e # m'"
      by (metis neq_Nil_conv)
    then show False
      by cases (use s sp low m(2) in auto)
  qed
  with mg_ncasecmp_decides [of 5 "mem_at buf p" "''HTTP/'' @ [NUL]"] at show ?thesis by auto
qed

lemma set_body_len_n:
  "body hm = mg_str_n e x \<Longrightarrow> message hm = mg_str_n 0 y \<Longrightarrow>
   set_body_len n l hm = hm\<lparr>body := mg_str_n e l, message := mg_str_n 0 (to_size (n + int l))\<rparr>"
  by (simp add: set_body_len_def mg_str_n_def)

lemma body_lengths_request:
  assumes m: "reads_part buf (hm_method hm) (rq_method r)" "NUL \<notin> set (rq_method r)" and small: "length buf < 2 ^ 31"
    and cl: "mg_http_get_header buf hm ''Content-Length'' = Inr p"
      "case lookup_header (rq_headers r) ''Content-Length'' of None \<Rightarrow> p = None | Some v \<Rightarrow> \<exists>q. p = Some q \<and> reads_part buf q v"
    and no: "mg_ncasecmp (mem_at buf (hm_method hm)) (''HTTP/'' @ [NUL]) 5 = Inr x" "x \<noteq> 0"
    and b: "body hm = mg_str_n e size_max" "message hm = mg_str_n 0 size_max" "e = length (head_text r)"
  shows "body_lengths buf (int e) hm = Inr (hm\<lparr>body := mg_str_n e (body_len r), message := mg_str_n 0 (message_len r)\<rparr>)"
proof -
  define n where "n = (case lookup_header (rq_headers r) ''Content-Length'' of None \<Rightarrow> size_max | Some v \<Rightarrow> to_size (mg_to64 v))"
  define l where "l = (if lookup_header (rq_headers r) ''Content-Length'' = None then size_max else to_size (int e + int n))"
  define h where "h = hm\<lparr>body := mg_str_n e n, message := mg_str_n 0 l\<rparr>"
  have h: "(case p of None \<Rightarrow> hm | Some v \<Rightarrow> set_body_len (int e) (to_size (mg_to64 (cut buf v))) hm) = h"
  proof (cases "lookup_header (rq_headers r) ''Content-Length''")
    case None
    with cl(2) b show ?thesis by (simp add: h_def n_def l_def)
  next
    case (Some v)
    with cl(2) b show ?thesis by (auto simp: h_def n_def l_def set_body_len_n dest: reads_part_cut)
  qed
  note mc = reads_part_cut [OF m(1)]
  have sm: "length (rq_method r) < 2 ^ 31" using reads_part_small [OF m(1) small] .
  obtain r1 where r1: "mg_vcasecmp buf (hm_method hm) ''PUT'' = Inr r1" "r1 = 0 \<longleftrightarrow> same_nocase (rq_method r) ''PUT''"
    using mg_vcasecmp_decides [of "hm_method hm" buf "''PUT''"] mc m(2) sm by auto
  obtain r2 where r2: "mg_vcasecmp buf (hm_method hm) ''POST'' = Inr r2" "r2 = 0 \<longleftrightarrow> same_nocase (rq_method r) ''POST''"
    using mg_vcasecmp_decides [of "hm_method hm" buf "''POST''"] mc m(2) sm by auto
  have sel: "slen (body h) = n" "hm_method h = hm_method hm" "body h = mg_str_n e n" "message h = mg_str_n 0 l"
    by (simp_all add: h_def)
  define z where "z \<longleftrightarrow> n = size_max \<and> \<not> same_nocase (rq_method r) ''PUT'' \<and> \<not> same_nocase (rq_method r) ''POST''"
  have bl: "body_len r = (if z then 0 else n)" by (simp add: body_len_def n_def z_def Let_def)
  have ml: "message_len r = (if z then to_size (int e) else l)"
    using b(3) by (auto simp: message_len_def bl l_def n_def z_def)
  have "body_lengths buf (int e) hm = Inr (if z then set_body_len (int e) 0 h else h)"
    unfolding body_lengths_def cl(1) using no r1 r2 unfolding z_def
    by (simp only: res_bind_simps h Let_def sel) (simp split: if_splits)
  also have "(if z then set_body_len (int e) 0 h else h) = hm\<lparr>body := mg_str_n e (body_len r), message := mg_str_n 0 (message_len r)\<rparr>"
    unfolding set_body_len_n [OF sel(3,4)] by (simp add: bl ml h_def)
  finally show ?thesis .
qed

lemma header_line_ok: "header_ok kv \<Longrightarrow> header_line kv \<noteq> [] \<and> field_ok (header_line kv)"
  by (cases kv) (auto simp: header_line_def token_ok_def)

lemma request_line_ok: "request_ok r \<Longrightarrow> request_line r \<noteq> [] \<and> field_ok (request_line r)"
  by (auto simp: request_line_def request_ok_def token_ok_def)

lemma head_text_eq:
  "head_text r = rq_method r @ '' '' @ target r @ '' '' @ rq_proto r @ CRLF @ lines_text (map header_line (rq_headers r)) @ CRLF"
  by (simp add: head_text_def request_line_def)

lemma request_len_head:
  assumes "request_ok r" "length (head_text r @ rest) < 2 ^ 31"
  shows "mg_http_get_request_len (head_text r @ rest) = int (length (head_text r))"
proof -
  let ?ls = "request_line r # map header_line (rq_headers r)"
  have "\<forall>l\<in>set ?ls. l \<noteq> [] \<and> field_ok l"
    using assms(1) request_line_ok header_line_ok by (auto simp: request_ok_def list_all_iff)
  with assms(2) request_len_lines [of ?ls rest] show ?thesis by (simp add: head_text_def)
qed

lemma token_skips: "token_ok t \<Longrightarrow> \<forall>c\<in>set t. c \<noteq> newline \<and> \<not> strchr '' '' c"
  using field_ok_plain by (fastforce simp: token_ok_def strchr_def)

lemma field_skips: "field_ok t \<Longrightarrow> \<forall>c\<in>set t. c \<noteq> newline \<and> \<not> strchr CRLF c"
  using field_ok_plain by (fastforce simp: strchr_def)

lemma token_hd: "token_ok t \<Longrightarrow> t \<noteq> [] \<Longrightarrow> \<not> strchr '' '' (hd (t @ u)) \<and> \<not> strchr CRLF (hd (t @ u))"
  using token_skips [of t] field_skips [of t] by (cases t) (auto simp: token_ok_def)

text \<open>The three parts of the request line.\<close>

lemma request_line_skips:
  assumes r: "request_ok r" and buf: "buf = head_text r @ rest"
  defines "e \<equiv> length (head_text r)" and "s1 \<equiv> length (rq_method r) + 1"
    and "s2 \<equiv> length (rq_method r) + length (target r) + 2"
    and "s3 \<equiv> length (rq_method r) + length (target r) + length (rq_proto r) + (if rq_headers r = [] then 6 else 4)"
  shows "skip buf 0 e '' '' = (mg_str_n 0 (length (rq_method r)), s1)"
    and "skip buf s1 e '' '' = (mg_str_n s1 (length (target r)), s2)"
    and "skip buf s2 e CRLF = (mg_str_n s2 (length (rq_proto r)), s3)"
    and "reads_part buf (mg_str_n 0 (length (rq_method r))) (rq_method r)"
    and "reads_part buf (mg_str_n s1 (length (target r))) (target r)"
    and "reads_part buf (mg_str_n s2 (length (rq_proto r))) (rq_proto r)"
    and "drop s3 buf = lines_text (map header_line (rq_headers r)) @ (if rq_headers r = [] then [] else CRLF) @ rest"
    and "e = s3 + length (lines_text (map header_line (rq_headers r)) @ (if rq_headers r = [] then [] else CRLF))"
    and "mem_at buf (mg_str_n 0 (length (rq_method r))) = rq_method r @ CHR '' '' # drop s1 buf"
    and "NUL \<notin> set (take e buf)"
    and "5 \<le> e"
proof -
  let ?L = "lines_text (map header_line (rq_headers r))"
  let ?m = "rq_method r" and ?t = "target r" and ?p = "rq_proto r"
  have ok: "token_ok ?m" "token_ok ?t" "?t \<noteq> []" "?m \<noteq> []" "field_ok ?p" "?p \<noteq> [] \<Longrightarrow> hd ?p \<noteq> CHR '' ''"
    "list_all header_ok (rq_headers r)"
    using r by (auto simp: request_ok_def)
  have e: "e = length ?m + length ?t + length ?p + length ?L + 6" by (simp add: e_def head_text_eq)
  have d0: "drop 0 buf = ?m @ '' '' @ ?t @ '' '' @ ?p @ CRLF @ ?L @ CRLF @ rest" by (simp add: buf head_text_eq)
  have "drop (0 + length (?m @ '' '')) buf = ?t @ '' '' @ ?p @ CRLF @ ?L @ CRLF @ rest" by (rule drop_at) (use d0 in simp)
  then have d1: "drop s1 buf = ?t @ '' '' @ ?p @ CRLF @ ?L @ CRLF @ rest" by (simp add: s1_def)
  have "drop (s1 + length (?t @ '' '')) buf = ?p @ CRLF @ ?L @ CRLF @ rest" by (rule drop_at) (use d1 in simp)
  then have d2: "drop s2 buf = ?p @ CRLF @ ?L @ CRLF @ rest" by (simp add: s1_def s2_def)
  have "drop (s2 + length (?p @ CRLF)) buf = ?L @ CRLF @ rest" by (rule drop_at) (use d2 in simp)
  then have d3: "drop (s2 + length ?p + 2) buf = ?L @ CRLF @ rest" by simp
  show "skip buf 0 e '' '' = (mg_str_n 0 (length ?m), s1)"
    using skip_part [OF d0 token_skips [OF ok(1)], of e] token_hd [OF ok(2,3)] e by (simp add: s1_def strchr_def)
  have "\<not> strchr '' '' (hd (?p @ CRLF @ ?L @ CRLF @ rest))"
    using ok(5,6) field_ok_plain [of ?p "hd ?p"] by (cases ?p) (auto simp: strchr_def)
  then show "skip buf s1 e '' '' = (mg_str_n s1 (length ?t), s2)"
    using skip_part [OF d1 token_skips [OF ok(2)], of e] e by (simp add: s1_def s2_def strchr_def)
  show "reads_part buf (mg_str_n 0 (length ?m)) ?m" "reads_part buf (mg_str_n s1 (length ?t)) ?t"
    "reads_part buf (mg_str_n s2 (length ?p)) ?p"
    using d0 d1 d2 by (auto intro: reads_part_n)
  show "e = s3 + length (?L @ (if rq_headers r = [] then [] else CRLF))" by (simp add: e s3_def)
  show "drop s3 buf = ?L @ (if rq_headers r = [] then [] else CRLF) @ rest"
    using d3 drop_at [of "s2 + length ?p + 2" buf CRLF rest] by (simp add: s3_def s2_def ac_simps eval_nat_numeral)
  show "mem_at buf (mg_str_n 0 (length ?m)) = ?m @ CHR '' '' # drop s1 buf" using d0 d1 by simp
  show "5 \<le> e" using ok(3,4) by (cases ?m; cases ?t) (simp_all add: e)
  show "skip buf s2 e CRLF = (mg_str_n s2 (length ?p), s3)"
  proof (cases "rq_headers r")
    case Nil
    then have "drop s2 buf = ?p @ (CRLF @ CRLF) @ rest" using d2 by simp
    from skip_part [OF this field_skips [OF ok(5)], of e] e Nil show ?thesis
      by (simp add: s2_def s3_def strchr_def)
  next
    case (Cons kv hs)
    obtain k v where "kv = (k, v)" by (cases kv)
    with ok(7) Cons have k: "token_ok k" "k \<noteq> []" "?L = k @ '': '' @ v @ CRLF @ lines_text (map header_line hs)"
      by (auto simp: header_line_def)
    have "\<not> strchr CRLF (hd (?L @ CRLF @ rest))" using token_hd [OF k(1,2)] by (simp add: k(3))
    with skip_part [OF d2 field_skips [OF ok(5)], of e] e Cons show ?thesis
      by (simp add: s2_def s3_def strchr_def)
  qed
  have L: "NUL \<notin> set (lines_text ls)" if "\<forall>l\<in>set ls. field_ok l" for ls
    using that field_ok_plain by (induction ls) fastforce+
  have "NUL \<notin> set (lines_text (request_line r # map header_line (rq_headers r)))"
    by (rule L) (use request_line_ok [OF r] header_line_ok ok(7) in \<open>auto simp: list_all_iff\<close>)
  then have "NUL \<notin> set (head_text r)" by (simp add: head_text_def)
  then show "NUL \<notin> set (take e buf)" by (simp add: e_def buf)
qed

text \<open>The parser reads the text of a request, whatever follows it.\<close>

lemma parse_request:
  assumes r: "request_ok r" and small: "length (head_text r @ rest) < 2 ^ 31"
  shows "\<exists>hm. mg_http_parse (head_text r @ rest) = Inr (int (length (head_text r)), hm) \<and> parsed (head_text r @ rest) r hm"
proof -
  define buf where "buf = head_text r @ rest"
  define e where "e = length (head_text r)"
  note sk = request_line_skips [OF r buf_def, folded e_def]
  let ?s3 = "length (rq_method r) + length (target r) + length (rq_proto r) + (if rq_headers r = [] then 6 else 4)"
  have e0: "mg_http_get_request_len buf = int e" using request_len_head [OF r small] by (simp add: buf_def e_def)
  have e1: "\<not> int e \<le> 0" using sk(11) by simp
  define h0 where "h0 = zero_message\<lparr>message := mg_str_n 0 size_max, head := mg_str_n 0 e, body := mg_str_n e size_max,
    chunk := mg_str_n e 0, hm_method := mg_str_n 0 (length (rq_method r)), uri := mg_str_n (length (rq_method r) + 1) (length (target r)),
    proto := mg_str_n (length (rq_method r) + length (target r) + 2) (length (rq_proto r))\<rparr>"
  have h0s: "headers h0 = replicate MG_MAX_HTTP_HEADERS no_header" "hm_method h0 = mg_str_n 0 (length (rq_method r))"
    "proto h0 = mg_str_n (length (rq_method r) + length (target r) + 2) (length (rq_proto r))"
    "body h0 = mg_str_n e size_max" "message h0 = mg_str_n 0 size_max" "head h0 = mg_str_n 0 e" "chunk h0 = mg_str_n e 0"
    by (simp_all add: h0_def zero_message_def)
  have "reads_part buf (uri h0) (target r)" using sk(5) by (simp add: h0_def)
  moreover have "CHR ''?'' \<notin> set (rq_path r)" using r by (simp add: request_ok_def)
  moreover have "query h0 = null_str" by (simp add: h0_def zero_message_def)
  ultimately obtain u q where uq: "split_query buf h0 = h0\<lparr>uri := u, query := q\<rparr>"
    "reads_part buf u (rq_path r)" "case rq_query r of None \<Rightarrow> q = null_str | Some t \<Rightarrow> reads_part buf q t"
    using split_query_reads [of buf h0 r] by metis
  define H where "H = header_parts ?s3 (rq_headers r) @ replicate (MG_MAX_HTTP_HEADERS - length (rq_headers r)) no_header"
  have hs: "list_all header_ok (rq_headers r)" "length (rq_headers r) \<le> MG_MAX_HTTP_HEADERS"
    using r by (auto simp: request_ok_def)
  have H: "mg_http_parse_headers buf ?s3 e (headers (split_query buf h0)) 0 MG_MAX_HTTP_HEADERS = H"
  proof -
    let ?h = "replicate MG_MAX_HTTP_HEADERS no_header"
    have h: "headers (split_query buf h0) = ?h" by (simp add: uq(1) h0s)
    have "mg_http_parse_headers buf ?s3 (?s3 + length (lines_text (map header_line (rq_headers r)) @ (if rq_headers r = [] then [] else CRLF)))
        ?h 0 MG_MAX_HTTP_HEADERS = take 0 ?h @ header_parts ?s3 (rq_headers r) @ drop (0 + length (rq_headers r)) ?h"
      by (rule parse_headers_lines [OF sk(7) hs(1)]) (use hs(2) in auto)
    then show ?thesis unfolding h sk(8) [symmetric] by (simp add: H_def)
  qed
  have parts: "list_all2 (\<lambda>h kv. reads_part buf (name h) (fst kv) \<and> reads_part buf (value h) (snd kv))
      (header_parts ?s3 (rq_headers r)) (rq_headers r)"
    by (rule header_parts_read [OF sk(7)])
  define h1 where "h1 = (split_query buf h0)\<lparr>headers := H\<rparr>"
  obtain p where p: "mg_http_get_header buf h1 ''Content-Length'' = Inr p"
    "case lookup_header (rq_headers r) ''Content-Length'' of None \<Rightarrow> p = None | Some v \<Rightarrow> \<exists>q. p = Some q \<and> reads_part buf q v"
    using get_header_loop_finds [OF parts hs(1)] by (fastforce simp: mg_http_get_header_def h1_def H_def)
  have m: "hm_method h1 = mg_str_n 0 (length (rq_method r))" by (simp add: h1_def uq(1) h0s)
  have "set (take 5 buf) \<subseteq> set (take e buf)" using sk(11) by (rule set_take_subset_set_take)
  with sk(10) have "NUL \<notin> set (take 5 buf)" by blast
  with method_no_response [OF sk(4) _ _ sk(9)] r sk(11) obtain x
    where x: "mg_ncasecmp (mem_at buf (hm_method h1)) (''HTTP/'' @ [NUL]) 5 = Inr x" "x \<noteq> 0"
    unfolding m by (auto simp: request_ok_def token_ok_def buf_def e_def)
  have "body_lengths buf (int e) h1 = Inr (h1\<lparr>body := mg_str_n e (body_len r), message := mg_str_n 0 (message_len r)\<rparr>)"
  proof (rule body_lengths_request [OF _ _ _ p x])
    show "reads_part buf (hm_method h1) (rq_method r)" using sk(4) by (simp add: m)
    show "NUL \<notin> set (rq_method r)" using r field_ok_plain [of "rq_method r" NUL] by (auto simp: request_ok_def token_ok_def)
    show "length buf < 2 ^ 31" using small by (simp add: buf_def)
  qed (simp_all add: h1_def uq(1) h0s e_def)
  moreover have "rq_method r \<noteq> []" "target r \<noteq> []" using r by (auto simp: request_ok_def)
  ultimately have "mg_http_parse buf = Inr (int e, h1\<lparr>body := mg_str_n e (body_len r), message := mg_str_n 0 (message_len r)\<rparr>)"
    by (simp only: mg_http_parse_def Let_def e0 e1 nat_int if_False sk(1,2,3) prod.case mg_str_n_sel length_0_conv
      simp_thms h0_def [symmetric] H h1_def [symmetric] res_bind_simps)
  moreover have "parsed buf r (h1\<lparr>body := mg_str_n e (body_len r), message := mg_str_n 0 (message_len r)\<rparr>)" (is "parsed _ _ ?hm")
  proof -
    have "hm_method ?hm = hm_method h0" "uri ?hm = u" "query ?hm = q" "proto ?hm = proto h0" "headers ?hm = H"
      "body ?hm = mg_str_n e (body_len r)" "head ?hm = head h0" "message ?hm = mg_str_n 0 (message_len r)"
      by (simp_all add: h1_def uq(1))
    then show ?thesis unfolding parsed_def using uq(2,3) sk(4,6) parts
      by (simp only: h0s) (simp add: H_def e_def)
  qed
  ultimately show ?thesis by (auto simp: buf_def e_def)
qed

section \<open>Part of a request\<close>

lemma request_len_loop_found:
  "request_len_loop buf i k = int m \<Longrightarrow> 0 < m \<Longrightarrow> i + k < 2 ^ 31 \<Longrightarrow> i \<le> j \<Longrightarrow> j + 1 < m \<Longrightarrow>
   isok (buf ! j) \<and> \<not> ends_head buf j"
proof (induction buf i k rule: request_len_loop.induct)
  case (2 buf i k)
  have "to_i32 (int i) = int i" using "2.prems"(3) by (intro to_i32_id) (simp add: int_range_def)
  with 2 show ?case by (cases "i = j") (auto split: if_splits)
qed simp

lemma request_len_loop_none:
  "(\<And>j. i \<le> j \<Longrightarrow> j < i + k \<Longrightarrow> isok (buf ! j) \<and> \<not> ends_head buf j) \<Longrightarrow> request_len_loop buf i k = 0"
  by (induction buf i k rule: request_len_loop.induct) auto

text \<open>Before the head is complete the parser asks for more.\<close>

lemma parse_part:
  assumes r: "request_ok r" and small: "length (head_text r) < 2 ^ 31" and part: "n < length (head_text r)"
  shows "mg_http_parse (take n (head_text r)) = Inr (0, zero_message)"
proof -
  let ?b = "take n (head_text r)"
  have "mg_http_get_request_len (head_text r) = int (length (head_text r))"
    using request_len_head [OF r, of "[]"] small by simp
  moreover have "0 < length (head_text r)" by (simp add: head_text_def)
  ultimately have found: "isok (head_text r ! j) \<and> \<not> ends_head (head_text r) j" if "j < n" for j
    using request_len_loop_found [of "head_text r" 0 "length (head_text r)" "length (head_text r)" j] that part small
    by (simp add: mg_http_get_request_len_def)
  have "isok (?b ! j) \<and> \<not> ends_head ?b j" if "j < n" for j
    using found [OF that] that by (simp add: ends_head_def)
  then have "mg_http_get_request_len ?b = 0"
    using part by (auto simp: mg_http_get_request_len_def intro: request_len_loop_none)
  then show ?thesis by (simp add: mg_http_parse_def)
qed

section \<open>The property\<close>

text \<open>C6: 
  A request is read back from its text, whatever follows it in the buffer: the method, the path, the query, the protocol,
  the first header of every name in any case of its letters, and the place and length of the body.
\<close>

theorem request_roundtrip:
  assumes "request_ok r" "length (head_text r @ rest) < 2 ^ 31"
  shows "\<exists>hm. mg_http_parse (head_text r @ rest) = Inr (int (length (head_text r)), hm) \<and>
    MgStringCopy (head_text r @ rest) (hm_method hm) = Inr (rq_method r) \<and>
    MgStringCopy (head_text r @ rest) (uri hm) = Inr (rq_path r) \<and>
    MgStringCopy (head_text r @ rest) (query hm) = Inr (case rq_query r of None \<Rightarrow> [] | Some q \<Rightarrow> q) \<and>
    MgStringCopy (head_text r @ rest) (proto hm) = Inr (rq_proto r) \<and>
    body hm = mg_str_n (length (head_text r)) (body_len r) \<and>
    (\<forall>nm. case lookup_header (rq_headers r) nm of
       None \<Rightarrow> mg_http_get_header (head_text r @ rest) hm nm = Inr None
     | Some v \<Rightarrow> \<exists>p. mg_http_get_header (head_text r @ rest) hm nm = Inr (Some p) \<and>
         MgStringCopy (head_text r @ rest) p = Inr v)"
proof -
  let ?buf = "head_text r @ rest"
  obtain hm where hm: "mg_http_parse ?buf = Inr (int (length (head_text r)), hm)" "parsed ?buf r hm"
    using parse_request [OF assms] by blast
  have h: "case lookup_header (rq_headers r) nm of
       None \<Rightarrow> mg_http_get_header ?buf hm nm = Inr None
     | Some v \<Rightarrow> \<exists>p. mg_http_get_header ?buf hm nm = Inr (Some p) \<and> MgStringCopy ?buf p = Inr v" for nm
    using parsed_header [OF hm(2), of nm] assms(1) reads_part_cut(4)
    by (fastforce simp: request_ok_def split: option.splits)
  have q: "MgStringCopy ?buf (query hm) = Inr (case rq_query r of None \<Rightarrow> [] | Some q \<Rightarrow> q)"
  proof (cases "rq_query r")
    case None
    then show ?thesis using hm(2) by (simp add: parsed_def MgStringCopy_def)
  next
    case (Some t)
    then show ?thesis using hm(2) reads_part_cut(4) by (simp add: parsed_def)
  qed
  show ?thesis
    using hm h q reads_part_cut(4) by (intro exI [of _ hm]) (simp add: parsed_def)
qed

definition sample_request :: request where
  "sample_request = \<lparr>rq_method = ''GET'', rq_path = ''/a'', rq_query = Some ''x=1'', rq_proto = ''HTTP/1.1'',
     rq_headers = [(''Host'', ''h'')], rq_body = []\<rparr>"

lemma sample_request_ok: "request_ok sample_request" "length (head_text sample_request) = 32"
  by (simp_all add: request_ok_def sample_request_def target_def token_ok_def char_nat_def head_text_def
    request_line_def header_line_def)

lemma request_roundtrip_witness:
  "\<exists>hm. mg_http_parse (head_text sample_request @ ''more'') = Inr (32, hm) \<and>
    MgStringCopy (head_text sample_request @ ''more'') (uri hm) = Inr ''/a''"
proof -
  have "length (head_text sample_request @ ''more'') < 2 ^ 31" by (simp add: sample_request_ok(2))
  from request_roundtrip [OF sample_request_ok(1) this] show ?thesis
    by (auto simp: sample_request_ok(2)) (auto simp: sample_request_def)
qed

end
