(* ===== verification/HttpConn.thy ===== *)
theory HttpConn
  imports HttpPrint HttpRequest
begin

text \<open>
  Connections of \<open>http_server/mongoose.cpp\<close>: what a read makes of the bytes received (\<open>http_cb\<close> with the delivery of
  bodies and chunks), and \<open>mg_http_reply\<close>. The user's event handler is a parameter \<open>fn\<close> on its own state and the
  connection. \<open>http_cb\<close> loops as long as there are messages, so it is a \<open>partial_function\<close>: \<open>None\<close> is not returning.
\<close>

section \<open>Connections\<close>

record mg_connection =
  recv :: mg_iobuf
  send :: mg_iobuf
  is_accepted :: bool
  is_resp :: bool
  is_closing :: bool
  pfn_data :: "64 word"

datatype mg_event = MG_EV_ERROR | MG_EV_READ | MG_EV_CLOSE | MG_EV_HTTP_MSG | MG_EV_HTTP_CHUNK

text \<open>The outcome of an operation that may not return.\<close>

abbreviation obind :: "'a res option \<Rightarrow> ('a \<Rightarrow> 'b res option) \<Rightarrow> 'b res option" where
  "obind m f \<equiv> Option.bind m (\<lambda>r. case r of Inl e \<Rightarrow> Some (Inl e) | Inr x \<Rightarrow> f x)"

type_synonym 's handler = "mg_event \<Rightarrow> mg_http_message \<Rightarrow> 's \<times> mg_connection \<Rightarrow> ('s \<times> mg_connection) res option"

definition received :: "mg_connection \<Rightarrow> string" where
  "received c = io_data (recv c)"

section \<open>Replies\<close>

definition mg_printf :: "(nat \<Rightarrow> bool) \<Rightarrow> mg_connection \<Rightarrow> string \<Rightarrow> vararg list \<Rightarrow> mg_connection res" where
  "mg_printf mem c fmt ap = res_bind (iobuf_printf mem (send c) fmt ap) (\<lambda>io. Inr (c\<lparr>send := io\<rparr>))"

definition mg_http_status_code_str :: "int \<Rightarrow> string" where
  "mg_http_status_code_str status_code =
     (if status_code = 100 then ''Continue'' else if status_code = 201 then ''Created''
      else if status_code = 202 then ''Accepted'' else if status_code = 204 then ''No Content''
      else if status_code = 206 then ''Partial Content'' else if status_code = 301 then ''Moved Permanently''
      else if status_code = 302 then ''Found'' else if status_code = 304 then ''Not Modified''
      else if status_code = 400 then ''Bad Request'' else if status_code = 401 then ''Unauthorized''
      else if status_code = 403 then ''Forbidden'' else if status_code = 404 then ''Not Found''
      else if status_code = 418 then ''I'' @ [CHR 0x27] @ ''m a teapot''
      else if status_code = 500 then ''Internal Server Error'' else if status_code = 501 then ''Not Implemented''
      else ''OK'')"

definition reply_format :: string where
  "reply_format = ''HTTP/1.1 %d %s'' @ CRLF @ ''%sContent-Length:           '' @ CRLF @ CRLF @ [NUL]"

text \<open>The length of the body is printed into the spaces of the header, 14 characters before its end.\<close>

definition patch_length :: "mg_iobuf \<Rightarrow> nat \<Rightarrow> mg_iobuf res" where
  "patch_length io len =
     (if 14 \<le> len \<and> len - 3 \<le> length (io_buf io) then
        res_bind (mg_vsnprintf (take 11 (drop (len - 14) (io_buf io))) (''%010lu'' @ [NUL])
            [V_long (word_of_nat (io_len io - len))]) (\<lambda>(n, digits).
          Inr (io\<lparr>io_buf := (take (len - 14) (io_buf io) @ digits @ drop (len - 3) (io_buf io))[len - 4 := CR]\<rparr>))
      else Inl UB_Bounds)"

definition mg_http_reply ::
  "(nat \<Rightarrow> bool) \<Rightarrow> mg_connection \<Rightarrow> int \<Rightarrow> string \<Rightarrow> string \<Rightarrow> vararg list \<Rightarrow> mg_connection res" where
  "mg_http_reply mem c code hdrs fmt ap =
     res_bind (mg_printf mem c reply_format
       [V_int (word_of_int code), V_ptr (Some (mg_http_status_code_str code @ [NUL])), V_ptr (Some (hdrs @ [NUL]))]) (\<lambda>c.
     let len = io_len (send c) in
     res_bind (iobuf_printf mem (send c) fmt ap) (\<lambda>io.
     res_bind (if io_len io > 15 then patch_length io len else Inr io) (\<lambda>io.
       Inr (c\<lparr>send := io, is_resp := False\<rparr>))))"

section \<open>Bodies\<close>

definition MG_DMARK :: "64 word" where
  "MG_DMARK = push_bit 63 1"

definition mg_is_chunked :: "string \<Rightarrow> mg_http_message \<Rightarrow> bool res" where
  "mg_is_chunked buf hm =
     res_bind (mg_http_get_header buf hm ''Transfer-Encoding'') (\<lambda>te.
       case te of None \<Rightarrow> Inr False
       | Some v \<Rightarrow> res_bind (mg_vcasecmp buf v ''chunked'') (\<lambda>r. Inr (r = 0)))"

definition set_chunk :: "nat \<Rightarrow> nat \<Rightarrow> mg_http_message \<Rightarrow> mg_http_message" where
  "set_chunk s n hm = hm\<lparr>chunk := mg_str_n s n\<rparr>"

definition deliver_normal_chunks ::
  "'s handler \<Rightarrow> 's \<times> mg_connection \<Rightarrow> nat \<Rightarrow> mg_http_message \<Rightarrow> (('s \<times> mg_connection) \<times> mg_http_message \<times> bool) res option" where
  "deliver_normal_chunks fn sc hlen hm =
     (let c = snd sc;
          processed = unat (pfn_data c AND NOT MG_DMARK);
          deleted = pfn_data c AND MG_DMARK;
          n = io_len (recv c) - hlen;
          (s, n) = (if processed \<le> n \<and> deleted = 0 then (hlen + processed, n - processed) else (hlen, n));
          left = (if slen (body hm) < processed then 0 else slen (body hm) - processed);
          n = (if n > left then left else n);
          hm = set_chunk s n hm in
      obind (if n > 0 then fn MG_EV_HTTP_CHUNK hm sc else Some (Inr sc)) (\<lambda>sc.
      let c = snd sc;
          processed = to_size (int processed + int n);
          deleted = pfn_data c AND MG_DMARK in
      if processed \<ge> slen (body hm) then
        let hm = set_chunk s 0 hm in
        obind (fn MG_EV_HTTP_CHUNK hm sc) (\<lambda>sc.
        let c = (snd sc)\<lparr>pfn_data := 0\<rparr> in
        if processed \<noteq> 0 \<and> deleted \<noteq> 0 then
          (case mg_iobuf_del (recv c) 0 hlen of
             Inl e \<Rightarrow> Some (Inl e)
           | Inr (k, io) \<Rightarrow> Some (Inr ((fst sc, c\<lparr>recv := io\<rparr>), hm, True)))
        else Some (Inr ((fst sc, c), hm, False)))
      else Some (Inr ((fst sc, c\<lparr>pfn_data := word_of_nat processed OR deleted\<rparr>), hm, False))))"

definition getchunk :: "string \<Rightarrow> nat \<Rightarrow> (nat \<times> nat) option res" where
  "getchunk s len =
     (let i = length (takeWhile (\<lambda>c. c \<noteq> CR \<and> c \<noteq> newline) (take len s)); n = unat (mg_unhexn (take i s)) in
      if len < to_size (int i + int n + 4) then Inr None
      else
        res_bind (arr_read s (int i)) (\<lambda>c0. if c0 \<noteq> CR then Inr None else
        res_bind (arr_read s (int i + 1)) (\<lambda>c1. if c1 \<noteq> newline then Inr None else
        res_bind (arr_read s (int (to_size (int i + int n + 2)))) (\<lambda>c2. if c2 \<noteq> CR then Inr None else
        res_bind (arr_read s (int (to_size (int i + int n + 3)))) (\<lambda>c3. if c3 \<noteq> newline then Inr None else
          Inr (Some (i + 2, n)))))))"

text \<open>The end of \<open>deliver_chunked_chunks\<close>.\<close>

definition chunks_done ::
  "'s \<times> mg_connection \<Rightarrow> nat \<Rightarrow> mg_http_message \<Rightarrow> nat \<Rightarrow> nat \<Rightarrow> bool \<Rightarrow> (('s \<times> mg_connection) \<times> mg_http_message \<times> bool) res" where
  "chunks_done sc hlen hm processed del final =
     res_bind (mg_iobuf_del (recv (snd sc)) (hlen + processed) del) (\<lambda>(k, io).
     let c = (snd sc)\<lparr>recv := io\<rparr>; mark = pfn_data c AND MG_DMARK;
         c = c\<lparr>pfn_data := word_of_nat processed OR mark\<rparr> in
     if final then
       let hm = hm\<lparr>body := (body hm)\<lparr>slen := processed\<rparr>, message := (message hm)\<lparr>slen := hlen + processed\<rparr>\<rparr>;
           c = c\<lparr>pfn_data := 0\<rparr> in
       if mark \<noteq> 0 then
         res_bind (mg_iobuf_del (recv c) 0 hlen) (\<lambda>(k, io). Inr ((fst sc, c\<lparr>recv := io\<rparr>), hm, True))
       else Inr ((fst sc, c), hm, False)
     else Inr ((fst sc, c), hm, False))"

text \<open>\<open>p\<close> is where the body begins, \<open>b\<close> where the chunks not read yet began.\<close>

partial_function (option) chunk_loop ::
  "'s handler \<Rightarrow> 's \<times> mg_connection \<Rightarrow> nat \<Rightarrow> mg_http_message \<Rightarrow> nat \<Rightarrow> nat \<Rightarrow> nat \<Rightarrow> nat \<Rightarrow> nat \<Rightarrow>
     (('s \<times> mg_connection) \<times> mg_http_message \<times> bool) res option" where
  "chunk_loop fn sc p hm b len ofs processed del =
     (case getchunk (drop (b + ofs) (received (snd sc))) (len - ofs) of
        Inl e \<Rightarrow> Some (Inl e)
      | Inr None \<Rightarrow> Some (chunks_done sc p hm processed del False)
      | Inr (Some (pl, dl)) \<Rightarrow>
          let c = snd sc; saved = io_len (recv c) in
          (case mem_move (io_buf (recv c)) (p + processed) (b + ofs + pl) dl of
             Inl e \<Rightarrow> Some (Inl e)
           | Inr mem \<Rightarrow>
               let hm = set_chunk (p + processed) dl hm in
               obind (fn MG_EV_HTTP_CHUNK hm (fst sc, c\<lparr>recv := (recv c)\<lparr>io_buf := mem\<rparr>\<rparr>)) (\<lambda>sc.
               let ofs = ofs + (pl + dl + 2); del = del + (pl + 2); processed = processed + dl;
                   (processed, b) = (if io_len (recv (snd sc)) \<noteq> saved then (processed - dl, b - dl) else (processed, b)) in
               if dl = 0 then Some (chunks_done sc p hm processed del True)
               else chunk_loop fn sc p hm b len ofs processed del)))"

definition deliver_chunked_chunks ::
  "'s handler \<Rightarrow> 's \<times> mg_connection \<Rightarrow> nat \<Rightarrow> mg_http_message \<Rightarrow> (('s \<times> mg_connection) \<times> mg_http_message \<times> bool) res option" where
  "deliver_chunked_chunks fn sc hlen hm =
     (let c = snd sc; len = io_len (recv c) - hlen; processed = unat (pfn_data c AND NOT MG_DMARK);
          (len, b) = (if processed \<le> len then (len - processed, hlen + processed) else (len, hlen)) in
      chunk_loop fn sc hlen hm b len 0 processed 0)"

section \<open>Reading a connection\<close>

definition close_lengths :: "mg_connection \<Rightarrow> nat \<Rightarrow> mg_http_message \<Rightarrow> mg_http_message" where
  "close_lengths c hlen hm =
     hm\<lparr>message := (message hm)\<lparr>slen := io_len (recv c)\<rparr>, body := (body hm)\<lparr>slen := io_len (recv c) - hlen\<rparr>\<rparr>"

partial_function (option) http_cb_loop ::
  "'s handler \<Rightarrow> mg_event \<Rightarrow> 's \<times> mg_connection \<Rightarrow> ('s \<times> mg_connection) res option" where
  "http_cb_loop fn ev sc =
     (let c = snd sc in
      if io_buf (recv c) \<noteq> [] \<and> io_len (recv c) > 0 then
        (case mg_http_parse (received c) of
           Inl e \<Rightarrow> Some (Inl e)
         | Inr (hlen, hm) \<Rightarrow>
             if hlen < 0 then fn MG_EV_ERROR zero_message (fst sc, c\<lparr>is_closing := True\<rparr>)
             else if is_resp c then Some (Inr sc)
             else if hlen = 0 then Some (Inr sc)
             else
               let hm = (if ev = MG_EV_CLOSE then close_lengths c (nat hlen) hm else hm) in
               (case mg_is_chunked (received c) hm of
                  Inl e \<Rightarrow> Some (Inl e)
                | Inr chunked \<Rightarrow>
                    obind (if chunked then deliver_chunked_chunks fn sc (nat hlen) hm
                           else deliver_normal_chunks fn sc (nat hlen) hm) (\<lambda>(sc, hm, next_msg).
                    if next_msg then http_cb_loop fn ev sc
                    else if io_len (recv (snd sc)) < slen (message hm) then Some (Inr sc)
                    else
                      let c = snd sc; c = (if is_accepted c then c\<lparr>is_resp := True\<rparr> else c) in
                      obind (fn MG_EV_HTTP_MSG hm (fst sc, c)) (\<lambda>sc.
                      (case mg_iobuf_del (recv (snd sc)) 0 (slen (message hm)) of
                         Inl e \<Rightarrow> Some (Inl e)
                       | Inr (k, io) \<Rightarrow> http_cb_loop fn ev (fst sc, (snd sc)\<lparr>recv := io\<rparr>))))))
      else Some (Inr sc))"

definition http_cb :: "'s handler \<Rightarrow> mg_event \<Rightarrow> 's \<times> mg_connection \<Rightarrow> ('s \<times> mg_connection) res option" where
  "http_cb fn ev sc = (if ev = MG_EV_READ \<or> ev = MG_EV_CLOSE then http_cb_loop fn ev sc else Some (Inr sc))"

text \<open>
  \<open>read_conn\<close> with the reading half of \<open>iolog\<close>. The socket holds the bytes that are to come, and \<open>recv\<close> returns the first
  of them, at most \<open>k\<close> and at most what fits; with none it would block. The events go to the user's handler, then to
  \<open>http_cb\<close>.
\<close>

abbreviation MG_MAX_RECV_SIZE :: nat where
  "MG_MAX_RECV_SIZE \<equiv> 3 * 1024 * 1024"

abbreviation MG_IO_SIZE :: nat where
  "MG_IO_SIZE \<equiv> 2048"

definition mg_call :: "'s handler \<Rightarrow> mg_event \<Rightarrow> mg_http_message \<Rightarrow> 's \<times> mg_connection \<Rightarrow> ('s \<times> mg_connection) res option" where
  "mg_call fn ev hm sc = obind (fn ev hm sc) (\<lambda>sc. http_cb fn ev sc)"

definition mg_error :: "'s handler \<Rightarrow> 's \<times> mg_connection \<Rightarrow> ('s \<times> mg_connection) res option" where
  "mg_error fn sc = mg_call fn MG_EV_ERROR zero_message (fst sc, (snd sc)\<lparr>is_closing := True\<rparr>)"

definition read_conn ::
  "(nat \<Rightarrow> bool) \<Rightarrow> 's handler \<Rightarrow> nat \<Rightarrow> string \<Rightarrow> 's \<times> mg_connection \<Rightarrow> (('s \<times> mg_connection) \<times> string) res option" where
  "read_conn mem fn k socket sc =
     (let c = snd sc; io = recv c in
      if io_len io \<ge> MG_MAX_RECV_SIZE then obind (mg_error fn sc) (\<lambda>sc. Some (Inr (sc, socket)))
      else
        let full = (length (io_buf io) \<le> io_len io);
            io = (if full then mg_iobuf_resize mem io (length (io_buf io) + MG_IO_SIZE) else io) in
        if full \<and> length (io_buf io) \<le> io_len io then obind (mg_error fn sc) (\<lambda>sc. Some (Inr (sc, socket)))
        else
          let got = take (min k (length (io_buf io) - io_len io)) socket; n = length got in
          if n = 0 then Some (Inr ((fst sc, c\<lparr>recv := io\<rparr>), socket))
          else
            let b = take (io_len io) (io_buf io) @ got @ drop (io_len io + n) (io_buf io) in
            obind (mg_call fn MG_EV_READ zero_message (fst sc, c\<lparr>recv := io\<lparr>io_buf := b, io_len := io_len io + n\<rparr>\<rparr>)) (\<lambda>sc.
              Some (Inr (sc, drop n socket))))"

end
