(* ===== verification/HttpReply.thy ===== *)
theory HttpReply
  imports HttpConn
begin

text \<open>
  What \<open>mg_http_reply\<close> writes: the conversions its formats use, and the text of a reply, with the length of its body
  printed into the head afterwards.
\<close>

section \<open>Conversions\<close>

lemma fmt_convert_d:
  "mg_lld (scast v) True False = Inr t \<Longrightarrow> fmt_convert (CHR ''d'' # r) (V_int v # ap) = Inr (t, r, ap)"
  by (cases r) (simp_all add: fmt_convert_def fmt_prec_def is_digit_def char_nat_def fmt_conversion_def num_text_def)

lemma strlen_c: "NUL \<notin> set t \<Longrightarrow> strlen (t @ NUL # m) = Inr (length t)"
proof -
  assume "NUL \<notin> set t"
  then have "\<forall>c\<in>set t. c \<noteq> NUL" by auto
  then show ?thesis by (simp add: strlen_def c_str_def takeWhile_append2)
qed

lemma scpy_all: "NUL \<notin> set t \<Longrightarrow> scpy (t @ m) (length t) = Inr t"
  by (induction t) auto

lemma fmt_convert_s:
  assumes "NUL \<notin> set t"
  shows "fmt_convert (CHR ''s'' # r) (V_ptr (Some (t @ NUL # m)) # ap) = Inr (t, r, ap)"
proof -
  have "str_text f scpy (Some (t @ NUL # m)) = Inr t"
    if "fw f = 0" "fpr f = no_prec" "fpad f = CHR '' ''" for f
    using that assms by (simp add: str_text_def strlen_c scpy_all)
  then show ?thesis
    by (cases r) (simp_all add: fmt_convert_def fmt_prec_def is_digit_def char_nat_def fmt_conversion_def)
qed

lemma vxprintf_convert:
  "fmt_convert r ap = Inr (t, r', ap') \<Longrightarrow>
   mg_vxprintf (CHR ''%'' # r) ap = res_bind (mg_vxprintf r' ap') (\<lambda>(u, ap). Inr (t @ u, ap))"
  by (simp add: mg_vxprintf.simps)

lemma digit_letters: "d < 16 \<Longrightarrow> ''0123456789abcdef'' ! d = digit_char d"
proof -
  have "list_all (\<lambda>d. ''0123456789abcdef'' ! d = digit_char d) [0..<16]" by code_simp
  then show "d < 16 \<Longrightarrow> ?thesis" by (simp add: list_all_iff)
qed

lemma lld_text_print: "2 \<le> b \<Longrightarrow> b \<le> 16 \<Longrightarrow> lld_text b n = print_num b n"
proof (induction n rule: less_induct)
  case (less n)
  have d: "n mod b < 16" using mod_less_divisor [of b n] less.prems by linarith
  show ?case
  proof (cases "n < b")
    case True
    have "lld_loop b 0 = []" by (simp add: lld_loop.simps)
    have "lld_text b n = [''0123456789abcdef'' ! n]"
      using True less.prems by (cases "n = 0") (simp_all add: lld_text_def lld_loop.simps [of b n] \<open>lld_loop b 0 = []\<close>)
    also have "\<dots> = print_num b n" using True less.prems by (simp only: digit_letters) (simp add: print_num.simps)
    finally show ?thesis .
  next
    case False
    then have "n div b < n" "n div b \<noteq> 0" using less.prems by (auto simp: div_eq_0_iff)
    with less.IH [of "n div b"] less.prems have ih: "rev (lld_loop b (n div b)) = print_num b (n div b)"
      by (simp add: lld_text_def)
    with False less.prems d show ?thesis
      by (simp add: lld_text_def lld_loop.simps [of b n] print_num.simps [of b n] digit_letters)
  qed
qed

lemma fmt_convert_010lu:
  assumes "n < 2 ^ 64"
  shows "fmt_convert (''010lu'' @ r) (V_long (word_of_nat n) # ap) = Inr (pad_num 10 10 n, r, ap)"
proof -
  have "mg_lld (word_of_nat n) False False = Inr (print_num 10 n)"
    using assms by (simp add: mg_lld_def lld_text_print unat_of_nat)
  then show ?thesis
    by (cases r) (simp_all add: fmt_convert_def fmt_prec_def is_digit_def char_nat_def fmt_conversion_def num_text_def pad_num_def)
qed

text \<open>Printing into a fixed buffer that has room for the text and its terminator.\<close>

lemma fold_static:
  "k + length t + 1 \<le> length b \<Longrightarrow>
   fold mg_putchar_iobuf_static t \<lparr>io_buf = b, io_len = k, io_align = a\<rparr> =
     \<lparr>io_buf = (if t = [] then b else take k b @ t @ NUL # drop (k + length t + 1) b), io_len = k + length t, io_align = a\<rparr>"
proof (induction t arbitrary: k b)
  case (Cons c t)
  have step: "mg_putchar_iobuf_static c \<lparr>io_buf = b, io_len = k, io_align = a\<rparr> =
      \<lparr>io_buf = b[k := c, Suc k := NUL], io_len = Suc k, io_align = a\<rparr>"
    using Cons.prems by (simp add: mg_putchar_iobuf_static_def mg_pfn_iobuf_private_def)
  have b: "b[k := c, Suc k := NUL] = take k b @ c # NUL # drop (k + 2) b"
  proof -
    have "drop k b = b ! k # b ! Suc k # drop (k + 2) b"
      using Cons.prems by (simp add: Cons_nth_drop_Suc)
    then have e: "b = take k b @ b ! k # b ! Suc k # drop (k + 2) b" by (metis append_take_drop_id)
    have l: "length (take k b) = k" using Cons.prems by simp
    show ?thesis by (subst e) (use l in \<open>simp add: list_update_append\<close>)
  qed
  show ?case
    using Cons.IH [of "Suc k" "b[k := c, Suc k := NUL]"] Cons.prems by (simp add: step b add.commute)
qed simp

lemma mg_vsnprintf_fits:
  assumes "mg_vxprintf fmt ap = Inr (t, ap')" "length t + 1 \<le> length b" "t \<noteq> []"
  shows "mg_vsnprintf b fmt ap = Inr (length t, t @ NUL # drop (length t + 1) b)"
  using assms fold_static [of 0 t b 0] by (simp add: mg_vsnprintf_def Let_def)

definition reply_head :: "int \<Rightarrow> string \<Rightarrow> string \<Rightarrow> string" where
  "reply_head code hdrs len =
     ''HTTP/1.1 '' @ print_num 10 (nat code) @ '' '' @ mg_http_status_code_str code @ CRLF @ hdrs @ ''Content-Length: '' @ len @ CRLF @ CRLF"

lemma reply_format_prints:
  assumes st: "NUL \<notin> set st" and h: "NUL \<notin> set hdrs" and code: "mg_lld (scast v) True False = Inr d"
  shows "mg_vxprintf reply_format [V_int v, V_ptr (Some (st @ [NUL])), V_ptr (Some (hdrs @ [NUL]))] =
    Inr (''HTTP/1.1 '' @ d @ '' '' @ st @ CRLF @ hdrs @ ''Content-Length:           '' @ CRLF @ CRLF, [])"
proof -
  let ?t3 = "''Content-Length:           '' @ CRLF @ CRLF"
  let ?r3 = "?t3 @ [NUL]"
  let ?r2 = "CRLF @ CHR ''%'' # CHR ''s'' # ?r3"
  let ?r1 = "'' '' @ CHR ''%'' # CHR ''s'' # ?r2"
  have 3: "mg_vxprintf ?r3 [] = Inr (?t3, [])"
    by (subst vxprintf_plain) (simp_all add: vxprintf_end)
  have 2: "mg_vxprintf (CHR ''%'' # CHR ''s'' # ?r3) [V_ptr (Some (hdrs @ [NUL]))] = Inr (hdrs @ ?t3, [])"
    by (subst vxprintf_convert [OF fmt_convert_s [OF h]], unfold 3) simp
  have 1: "mg_vxprintf ?r2 [V_ptr (Some (hdrs @ [NUL]))] = Inr (CRLF @ hdrs @ ?t3, [])"
    by (subst vxprintf_plain, simp, simp, unfold 2) simp
  have 0: "mg_vxprintf (CHR ''%'' # CHR ''s'' # ?r2) [V_ptr (Some (st @ [NUL])), V_ptr (Some (hdrs @ [NUL]))] =
      Inr (st @ CRLF @ hdrs @ ?t3, [])"
    by (subst vxprintf_convert [OF fmt_convert_s [OF st]], unfold 1) simp
  have s: "mg_vxprintf ?r1 [V_ptr (Some (st @ [NUL])), V_ptr (Some (hdrs @ [NUL]))] =
      Inr ('' '' @ st @ CRLF @ hdrs @ ?t3, [])"
    by (subst vxprintf_plain, simp, simp, unfold 0) simp
  have d: "mg_vxprintf (CHR ''%'' # CHR ''d'' # ?r1) [V_int v, V_ptr (Some (st @ [NUL])), V_ptr (Some (hdrs @ [NUL]))] =
      Inr (d @ '' '' @ st @ CRLF @ hdrs @ ?t3, [])"
    by (subst vxprintf_convert [OF fmt_convert_d [OF code]], unfold s) simp
  have f: "reply_format = ''HTTP/1.1 '' @ CHR ''%'' # CHR ''d'' # ?r1" by (simp add: reply_format_def)
  show ?thesis
    unfolding f by (subst vxprintf_plain, simp, simp, unfold d) simp
qed

lemma print_num_length: "n < 10 ^ k \<Longrightarrow> 0 < k \<Longrightarrow> length (print_num 10 n) \<le> k"
proof (induction k arbitrary: n)
  case (Suc k)
  show ?case
  proof (cases "n < 10")
    case True
    then show ?thesis by (simp add: print_num.simps)
  next
    case False
    with Suc.prems have "n div 10 < 10 ^ k" "0 < k" by (auto intro: Nat.gr0I)
    with Suc.IH False show ?thesis by (simp add: print_num.simps [of 10 n])
  qed
qed simp

lemma pad_num_length: "n < 10 ^ k \<Longrightarrow> 0 < k \<Longrightarrow> length (pad_num k 10 n) = k"
  using print_num_length [of n k] by (simp add: pad_num_def)

lemma patch_length_prints:
  assumes b: "io_buf io = pre @ replicate 10 CHR '' '' @ CRLF @ CRLF @ t @ tail"
    and len: "len = length pre + 14" and n: "io_len io = len + length t" "length t < 10 ^ 10"
  shows "patch_length io len =
    Inr (io\<lparr>io_buf := pre @ pad_num 10 10 (length t) @ CRLF @ CRLF @ t @ tail\<rparr>)"
proof -
  let ?d = "pad_num 10 10 (length t)"
  have d: "length ?d = 10" using pad_num_length [of "length t" 10] n(2) by simp
  have "mg_vxprintf (CHR ''%'' # ''010lu'' @ [NUL]) [V_long (word_of_nat (length t))] = Inr (?d, [])"
    by (subst vxprintf_convert [OF fmt_convert_010lu]) (use n(2) in \<open>simp_all add: vxprintf_end\<close>)
  then have v: "mg_vxprintf (''%010lu'' @ [NUL]) [V_long (word_of_nat (length t))] = Inr (?d, [])" by simp
  have region: "take 11 (drop (len - 14) (io_buf io)) = replicate 10 CHR '' '' @ [CR]"
    by (simp add: b len)
  have "mg_vsnprintf (take 11 (drop (len - 14) (io_buf io))) (''%010lu'' @ [NUL]) [V_long (word_of_nat (length t))] =
      Inr (10, ?d @ [NUL])"
    using mg_vsnprintf_fits [OF v, of "replicate 10 CHR '' '' @ [CR]"] d by (auto simp: region)
  moreover have "(take (len - 14) (io_buf io) @ (?d @ [NUL]) @ drop (len - 3) (io_buf io))[len - 4 := CR] =
      pre @ ?d @ CRLF @ CRLF @ t @ tail"
  proof -
    have "drop (len - 3) (io_buf io) = newline # CRLF @ t @ tail" by (simp add: b len)
    moreover have "len - 4 = length (pre @ ?d)" using d by (simp add: len)
    ultimately show ?thesis by (simp add: b len list_update_append)
  qed
  ultimately show ?thesis using n(1) by (simp add: patch_length_def b len)
qed

lemma mg_http_reply_text:
  assumes mem: "mem = (\<lambda>_. True)" and ok: "io_ok (send c)"
    and code: "mg_lld (scast (word_of_int code :: 32 word)) True False = Inr (print_num 10 (nat code))"
    and st: "NUL \<notin> set (mg_http_status_code_str code)" and h: "NUL \<notin> set hdrs"
    and body: "mg_vxprintf fmt ap = Inr (b, ap')" "length b < 10 ^ 10"
  shows "\<exists>io. mg_http_reply mem c code hdrs fmt ap = Inr (c\<lparr>send := io, is_resp := False\<rparr>) \<and> io_ok io \<and>
    io_data io = io_data (send c) @ reply_head code hdrs (pad_num 10 10 (length b)) @ b"
proof -
  let ?x = "''HTTP/1.1 '' @ print_num 10 (nat code) @ '' '' @ mg_http_status_code_str code @ CRLF @ hdrs @ ''Content-Length: ''"
  let ?T = "?x @ replicate 10 CHR '' '' @ CRLF @ CRLF"
  define io1 where "io1 = fold (mg_pfn_iobuf mem) ?T (send c)"
  define io2 where "io2 = fold (mg_pfn_iobuf mem) b io1"
  have sp: "''Content-Length:           '' = ''Content-Length: '' @ replicate 10 CHR '' ''"
    by (simp add: numeral_eq_Suc)
  have 1: "mg_printf mem c reply_format [V_int (word_of_int code), V_ptr (Some (mg_http_status_code_str code @ [NUL])),
      V_ptr (Some (hdrs @ [NUL]))] = Inr (c\<lparr>send := io1\<rparr>)"
    using reply_format_prints [OF st h code] by (simp add: mg_printf_def iobuf_printf_def io1_def sp)
  have d1: "io_data io1 = io_data (send c) @ ?T" "io_ok io1" unfolding io1_def using fold_pfn_iobuf [OF mem ok, of ?T] by blast+
  have d2: "io_data io2 = io_data io1 @ b" "io_ok io2" unfolding io2_def using fold_pfn_iobuf [OF mem d1(2), of b] by blast+
  have l: "io_len io = length (io_data io)" if "io_ok io" for io using that by (simp add: io_data_def io_ok_def)
  let ?pre = "io_data (send c) @ ?x"
  define tail where "tail = drop (io_len io2) (io_buf io2)"
  have "io_buf io2 = io_data io2 @ tail" by (simp add: io_data_def tail_def)
  then have tail: "io_buf io2 = ?pre @ replicate 10 CHR '' '' @ CRLF @ CRLF @ b @ tail"
    unfolding d2(1) d1(1) by (simp only: append_assoc)
  have len: "io_len io1 = length ?pre + 14" "io_len io2 = io_len io1 + length b"
    using l [OF d1(2)] l [OF d2(2)] d1(1) d2(1) by simp_all
  define io3 where "io3 = io2\<lparr>io_buf := ?pre @ pad_num 10 10 (length b) @ CRLF @ CRLF @ b @ tail\<rparr>"
  have 3: "patch_length io2 (io_len io1) = Inr io3"
    unfolding io3_def by (rule patch_length_prints [OF tail len body(2)])
  have "mg_http_reply mem c code hdrs fmt ap = Inr (c\<lparr>send := io3, is_resp := False\<rparr>)"
    using 1 body(1) 3 len by (simp add: mg_http_reply_def iobuf_printf_def io2_def [symmetric])
  moreover have "io_ok io3 \<and> io_data io3 = io_data (send c) @ reply_head code hdrs (pad_num 10 10 (length b)) @ b"
  proof -
    let ?y = "?pre @ pad_num 10 10 (length b) @ CRLF @ CRLF @ b"
    have "length (pad_num 10 10 (length b)) = 10" using pad_num_length [of "length b" 10] body(2) by simp
    then have l3: "io_len io3 = length ?y" using len by (simp add: io3_def)
    have b3: "io_buf io3 = ?y @ tail" by (simp add: io3_def)
    have y: "?y = io_data (send c) @ reply_head code hdrs (pad_num 10 10 (length b)) @ b"
      by (simp only: reply_head_def append_assoc)
    have "take (length xs) (xs @ ys) = xs" for xs ys :: string by simp
    then have "io_data io3 = ?y" unfolding io_data_def b3 l3 .
    moreover have "io_ok io3" unfolding io_ok_def b3 l3 by simp
    ultimately show ?thesis unfolding y by simp
  qed
  ultimately show ?thesis by blast
qed

end
