(* ===== verification/HttpServer.thy ===== *)
theory HttpServer
  imports HttpReply
begin

text \<open>
  The HTTP server of the application, \<open>http_server/http_server.cpp\<close>: its table of handlers, the parameters of a query,
  the dispatch of requests, and replies. What a registered handler does is the parameter \<open>run\<close>.
\<close>

section \<open>Queries\<close>

text \<open>The C++ map of the parameters is a map; a later parameter replaces an earlier one of its name.\<close>

fun query_params :: "string list \<Rightarrow> (string \<rightharpoonup> string) \<Rightarrow> (string \<rightharpoonup> string) res option" where
  "query_params [] ret = Some (Inr ret)"
| "query_params (item # sp) ret =
     obind (string_split item ''='') (\<lambda>params.
       if length params \<noteq> 2 then query_params sp ret
       else query_params sp (ret(params ! 0 \<mapsto> params ! 1)))"

definition parse_query :: "string \<Rightarrow> int \<Rightarrow> (string \<rightharpoonup> string) \<Rightarrow> (bool \<times> (string \<rightharpoonup> string)) res option" where
  "parse_query qry queryLen ret =
     (case checked_int (queryLen * 2) of
        Inl e \<Rightarrow> Some (Inl e)
      | Inr buffLen \<Rightarrow>
          if buffLen < 0 then Some (Inl (Runtime_Error ''bad_array_new_length''))
          else if buffLen = 0 \<or> length qry < nat queryLen then Some (Inl UB_Bounds)
          else
            case mg_url_decode (take (nat queryLen) qry) (nat buffLen) False of
              None \<Rightarrow> Some (Inr (False, ret))
            | Some buff \<Rightarrow>
                obind (string_split (c_str buff) ''&'') (\<lambda>sp.
                obind (query_params sp ret) (\<lambda>ret. Some (Inr (True, ret)))))"

section \<open>The server\<close>

record 'h http_server =
  handleMap :: "string \<rightharpoonup> 'h"

record http_response =
  raw :: mg_http_message
  url :: string
  resp_query :: "string \<rightharpoonup> string"
  resp_body :: "nat option"
  resp_body_len :: int

type_synonym 'h runner =
  "'h \<Rightarrow> 'h http_server \<times> mg_connection \<Rightarrow> http_response \<Rightarrow> ('h http_server \<times> mg_connection) res option"

definition AddHandler :: "'h http_server \<Rightarrow> string \<Rightarrow> 'h \<Rightarrow> 'h http_server" where
  "AddHandler server u req_handler =
     (if handleMap server u \<noteq> None then server else server\<lparr>handleMap := (handleMap server)(u \<mapsto> req_handler)\<rparr>)"

definition RemoveHandler :: "'h http_server \<Rightarrow> string \<Rightarrow> 'h http_server" where
  "RemoveHandler server u =
     (if handleMap server u \<noteq> None then server\<lparr>handleMap := (handleMap server)(u := None)\<rparr> else server)"

text \<open>The text of the reply is the format of \<open>mg_http_reply\<close>.\<close>

definition BadRequest :: "(nat \<Rightarrow> bool) \<Rightarrow> mg_connection \<Rightarrow> string \<Rightarrow> mg_connection res" where
  "BadRequest mem connection resp = mg_http_reply mem connection 404 [] (resp @ [NUL]) []"

definition SuccessRequest :: "(nat \<Rightarrow> bool) \<Rightarrow> mg_connection \<Rightarrow> string \<Rightarrow> mg_connection res" where
  "SuccessRequest mem connection resp = mg_http_reply mem connection 200 [] (resp @ [NUL]) []"

definition url_error :: string where
  "url_error = CHR ''{'' # CHR 0x22 # ''error'' @ [CHR 0x22, CHR '':'', CHR 0x22] @ ''url error'' @ [CHR 0x22, CHR ''}'']"

definition query_error :: string where
  "query_error = CHR ''{'' # CHR 0x22 # ''error'' @ [CHR 0x22, CHR '':'', CHR 0x22] @ ''decode query error!'' @ [CHR 0x22, CHR ''}'']"

definition HttpCallback :: "(nat \<Rightarrow> bool) \<Rightarrow> 'h runner \<Rightarrow> 'h http_server handler" where
  "HttpCallback mem run ev hm sc =
     (if ev = MG_EV_HTTP_MSG then
        let server = fst sc; connection = snd sc; buf = received connection;
            reply = (\<lambda>text. Some (res_bind (BadRequest mem connection text) (\<lambda>c. Inr (server, c)))) in
        (case MgStringCopy buf (uri hm) of
           Inl e \<Rightarrow> Some (Inl e)
         | Inr u \<Rightarrow>
             obind (if slen (query hm) > 0
                    then parse_query (mem_at buf (query hm)) (to_i32 (int (slen (query hm)))) Map.empty
                    else Some (Inr (True, Map.empty))) (\<lambda>(ok, params).
             if \<not> ok then reply query_error
             else
               let response = \<lparr>raw = hm, url = u, resp_query = params, resp_body = sptr (body hm),
                     resp_body_len = to_i32 (int (slen (body hm)))\<rparr> in
               (case MgStringCopy buf (query hm) of
                  Inl e \<Rightarrow> Some (Inl e)
                | Inr _ \<Rightarrow>
                    (case handleMap server u of
                       None \<Rightarrow> reply url_error
                     | Some handle \<Rightarrow> run handle (server, connection) response))))
      else Some (Inr sc))"

end
