(* ===== verification/HttpQuery.thy ===== *)
theory HttpQuery
  imports HttpServer
begin

text \<open>
  The parameters of a query: pairs encoded one by one, with the encoder of mongoose, are read back by \<open>parse_query\<close>,
  unless their texts contain the separators, which are decoded before the query is split.
\<close>

section \<open>Queries return\<close>

lemma url_decode_length: "url_decode_loop src room form = Some t \<Longrightarrow> length t \<le> length src"
proof (induction src room form arbitrary: t rule: url_decode_loop.induct)
  case (3 c src room form)
  show ?case
  proof (cases "c = CHR ''%''")
    case True
    with "3.prems" obtain h l src' t' where "src = h # l # src'" "isx h" "isx l" "t = mg_unhex h l # t'"
      "url_decode_loop src' room form = Some t'"
      by (auto split: list.splits if_splits)
    with "3.IH"(1) [OF True] show ?thesis by fastforce
  next
    case False
    with "3.prems" obtain x t' where "t = x # t'" "url_decode_loop src room form = Some t'" by (auto split: if_splits)
    with "3.IH"(2,3) [OF False] show ?thesis by (cases "form \<and> c = CHR ''+''") auto
  qed
qed simp_all

lemma split_ref_length: "x \<in> set (split_ref p s) \<Longrightarrow> length x \<le> length s"
proof (induction p s rule: split_ref.induct)
  case (1 p s)
  then show ?case
    by (subst (asm) (2) split_ref.simps) (fastforce split: if_splits option.splits)
qed

lemma query_params_return: "\<forall>x\<in>set sp. length x < 2 ^ 31 \<Longrightarrow> \<exists>m. query_params sp ret = Some (Inr m)"
  by (induction sp arbitrary: ret) (simp_all add: string_split_ref)

lemma parse_query_returns:
  assumes q: "q \<noteq> []" "length q < 2 ^ 30"
  shows "\<exists>x. parse_query q (int (length q)) ret = Some (Inr x)" "parse_query (q @ rest) (int (length q)) ret = parse_query q (int (length q)) ret"
proof -
  have b: "checked_int (int (length q) * 2) = Inr (int (length q) * 2)" using q(2) by (simp add: int_range_def)
  show "parse_query (q @ rest) (int (length q)) ret = parse_query q (int (length q)) ret"
    by (simp add: parse_query_def b)
  show "\<exists>x. parse_query q (int (length q)) ret = Some (Inr x)"
  proof (cases "mg_url_decode q (nat (int (length q) * 2)) False")
    case None
    with q b show ?thesis by (intro exI [of _ "(False, ret)"]) (simp add: parse_query_def)
  next
    case (Some t)
    then have "length t \<le> length q" by (auto simp: mg_url_decode_def split: if_splits dest: url_decode_length)
    then have t: "length (c_str t) < 2 ^ 31" using q(2) length_takeWhile_le [of "\<lambda>c. c \<noteq> NUL" t] by (simp add: c_str_def)
    then have sp: "string_split (c_str t) ''&'' = Some (Inr (split_ref ''&'' (c_str t)))" by (simp add: string_split_ref)
    have "\<forall>x\<in>set (split_ref ''&'' (c_str t)). length x < 2 ^ 31" using split_ref_length t by fastforce
    from query_params_return [OF this] obtain m where "query_params (split_ref ''&'' (c_str t)) ret = Some (Inr m)" by blast
    with sp Some q b show ?thesis by (intro exI [of _ "(True, m)"]) (simp add: parse_query_def)
  qed
qed

section \<open>Parameters\<close>

definition url_encoded :: "string \<Rightarrow> string" where
  "url_encoded s = (case mg_url_encode s (3 * length s + 2) of Some e \<Rightarrow> e | None \<Rightarrow> [])"

fun param_text :: "string \<times> string \<Rightarrow> string" where
  "param_text (k, v) = url_encoded k @ ''='' @ url_encoded v"

fun plain_param :: "string \<times> string \<Rightarrow> string" where
  "plain_param (k, v) = k @ ''='' @ v"

definition query_text :: "(string \<times> string) list \<Rightarrow> string" where
  "query_text kvs = join ''&'' (map param_text kvs)"

definition separable :: "string \<Rightarrow> bool" where
  "separable s \<longleftrightarrow> CHR ''&'' \<notin> set s \<and> CHR ''='' \<notin> set s \<and> NUL \<notin> set s"

lemma url_decode_append:
  "url_decode_loop e room form = Some s \<Longrightarrow>
   url_decode_loop (e @ f) room form = map_option ((@) s) (url_decode_loop f (room - length s) form)"
proof (induction e room form arbitrary: s rule: url_decode_loop.induct)
  case (1 room form)
  then show ?case by (cases "url_decode_loop f room form") auto
next
  case (3 c src room form)
  show ?case
  proof (cases "c = CHR ''%''")
    case True
    with "3.prems" obtain h l src' t where t: "src = h # l # src'" "isx h" "isx l" "s = mg_unhex h l # t"
      "url_decode_loop src' room form = Some t"
      by (auto split: list.splits if_splits)
    with "3.IH"(1) [OF True t(1) refl _ t(5)] True show ?thesis by (simp add: option.map_comp o_def)
  next
    case False
    with "3.prems" obtain x t where t: "s = x # t" "url_decode_loop src room form = Some t"
      "x = (if form \<and> c = CHR ''+'' then CHR '' '' else c)" by (auto split: if_splits)
    with "3.IH"(2,3) [OF False] False show ?thesis by (cases "form \<and> c = CHR ''+''") (auto simp: option.map_comp o_def)
  qed
qed simp

lemma url_decode_encoded: "length s \<le> room \<Longrightarrow> url_decode_loop (url_encoded s) room form = Some s"
proof -
  assume room: "length s \<le> room"
  obtain e where e: "url_encode_loop s 0 (3 * length s + 2) = Some e" using url_encode_fits [of 0 s] by auto
  with url_decode_encode [OF e room] show ?thesis by (simp add: url_encoded_def mg_url_encode_def)
qed

text \<open>Percent encoding is a codec.\<close>

definition url_decoded :: "string \<Rightarrow> string res" where
  "url_decoded s = (case mg_url_decode s (length s + 1) False of Some t \<Rightarrow> Inr t | None \<Rightarrow> Inl Invalid_Argument)"

lemma url_decoded_encoded: "url_decoded (url_encoded s) = Inr s"
proof -
  have "length s \<le> length (url_encoded s)"
    using url_decode_length [OF url_decode_encoded [of s "length s" False]] by simp
  then show ?thesis using url_decode_encoded [of s "length (url_encoded s)" False]
    by (simp add: url_decoded_def mg_url_decode_def)
qed

interpretation url: codec url_encoded url_decoded
  by unfold_locales (rule url_decoded_encoded)

lemma decode_param:
  "length (plain_param kv) \<le> room \<Longrightarrow> url_decode_loop (param_text kv) room False = Some (plain_param kv)"
proof (cases kv)
  case (Pair k v)
  assume "length (plain_param kv) \<le> room"
  moreover define m where "m = room - length k - 1"
  ultimately have m: "room = length k + Suc m" "length v \<le> m" using Pair by simp_all
  have "url_decode_loop (''='' @ url_encoded v) (Suc m) False = Some (''='' @ v)"
    using url_decode_encoded [OF m(2), of False] by simp
  with url_decode_append [OF url_decode_encoded [of k room False]] m Pair show ?thesis by simp
qed

lemma decode_query:
  "length (join ''&'' (map plain_param kvs)) \<le> room \<Longrightarrow>
   url_decode_loop (query_text kvs) room False = Some (join ''&'' (map plain_param kvs))"
proof (induction kvs arbitrary: room)
  case (Cons kv kvs)
  show ?case
  proof (cases kvs)
    case Nil
    with Cons.prems decode_param [of kv room] show ?thesis by (simp add: query_text_def)
  next
    case kvs: (Cons kv' kvs')
    let ?j = "join ''&'' (map plain_param kvs)"
    have j: "join ''&'' (map plain_param (kv # kvs)) = plain_param kv @ ''&'' @ ?j" by (simp add: kvs)
    have q: "query_text (kv # kvs) = param_text kv @ ''&'' @ query_text kvs" by (simp add: kvs query_text_def)
    define m where "m = room - length (plain_param kv) - 1"
    have m: "room = length (plain_param kv) + Suc m" "length ?j \<le> m" using Cons.prems unfolding j by (simp_all add: m_def)
    have "url_decode_loop (''&'' @ query_text kvs) (Suc m) False = Some (''&'' @ ?j)"
      using Cons.IH [OF m(2)] by simp
    with url_decode_append [OF decode_param [of kv room]] m show ?thesis unfolding j q by simp
  qed
qed (simp add: query_text_def)

lemma find_sep: "c \<notin> set x \<Longrightarrow> find_sub (x @ c # r) [c] = Some (length x)"
proof (rule find_sub_eqI)
  fix j assume c: "c \<notin> set x" and j: "j < length x"
  then have "hd (drop j (x @ c # r)) = x ! j" by (simp add: hd_drop_conv_nth nth_append)
  moreover have "x ! j \<noteq> c" using c j by (metis nth_mem)
  ultimately show "\<not> prefix [c] (drop j (x @ c # r))" by (auto simp: prefix_def)
qed simp_all

lemma split_last: "c \<notin> set x \<Longrightarrow> x \<noteq> [] \<Longrightarrow> split_ref [c] x = [x]"
proof -
  assume c: "c \<notin> set x" "x \<noteq> []"
  then have "\<not> sublist [c] x" by (auto simp: sublist_def)
  with c(2) show ?thesis by (simp add: split_ref.simps find_sub_None_iff [symmetric] split: option.split)
qed

lemma split_sep: "c \<notin> set x \<Longrightarrow> split_ref [c] (x @ c # r) = x # split_ref [c] r"
  by (subst split_ref.simps) (simp add: find_sep)

lemma split_join: "\<forall>x\<in>set xs. c \<notin> set x \<and> x \<noteq> [] \<Longrightarrow> split_ref [c] (join [c] xs) = xs"
proof (induction "[c]" xs rule: join.induct)
  case 1
  show ?case by (simp add: split_ref.simps)
qed (simp_all add: split_last split_sep)

lemma query_params_read:
  assumes "\<forall>(k, v)\<in>set kvs. separable k \<and> separable v \<and> v \<noteq> [] \<and> length (plain_param (k, v)) < 2 ^ 31"
  shows "query_params (map plain_param kvs) ret = Some (Inr (ret ++ map_of (rev kvs)))"
  using assms
proof (induction kvs arbitrary: ret)
  case (Cons kv kvs)
  obtain k v where kv: "kv = (k, v)" by (cases kv)
  with Cons.prems have s: "separable k" "separable v" "v \<noteq> []" "length (plain_param (k, v)) < 2 ^ 31" by auto
  have "split_ref ''='' (k @ CHR ''='' # v) = [k, v]"
    using s by (simp add: split_sep split_last separable_def)
  with s(4) have "string_split (plain_param kv) ''='' = Some (Inr [k, v])" by (simp add: kv string_split_ref)
  moreover have "ret(k \<mapsto> v) ++ map_of (rev kvs) = ret ++ map_of (rev (kv # kvs))" by (simp add: kv map_add_assoc)
  moreover have "query_params (map plain_param kvs) (ret(k \<mapsto> v)) = Some (Inr (ret(k \<mapsto> v) ++ map_of (rev kvs)))"
    by (rule Cons.IH) (use Cons.prems in simp)
  ultimately show ?case by (simp del: fun_upd_apply)
qed simp

lemma parse_query_decoded:
  assumes d: "url_decode_loop q (2 * length q - 1) False = Some t" and q: "q \<noteq> []" "length q < 2 ^ 30" and t: "NUL \<notin> set t"
  shows "parse_query q (int (length q)) ret =
    obind (query_params (split_ref ''&'' t) ret) (\<lambda>ret. Some (Inr (True, ret)))"
proof -
  have b: "checked_int (int (length q) * 2) = Inr (int (length q) * 2)" using q(2) by (simp add: int_range_def)
  from url_decode_length [OF d] have "string_split (c_str t) ''&'' = Some (Inr (split_ref ''&'' t))"
    using q(2) t by (simp add: c_str_id string_split_ref)
  moreover have "mg_url_decode q (nat (int (length q) * 2)) False = Some t"
    using d q(1) by (simp add: mg_url_decode_def nat_mult_distrib mult.commute)
  ultimately show ?thesis using q b by (simp add: parse_query_def)
qed

lemma set_join: "set (join sep xs) \<subseteq> set sep \<union> \<Union> (set ` set xs)"
  by (induction sep xs rule: join.induct) auto

lemma join_ne: "xs \<noteq> [] \<Longrightarrow> hd xs \<noteq> [] \<Longrightarrow> join sep xs \<noteq> []"
  by (cases "(sep, xs)" rule: join.cases) auto

text \<open>The last value of a name counts.\<close>

lemma parse_query_reads:
  assumes kvs: "\<forall>(k, v)\<in>set kvs. separable k \<and> separable v \<and> v \<noteq> []" "kvs \<noteq> []" and small: "length (query_text kvs) < 2 ^ 30"
  shows "parse_query (query_text kvs) (int (length (query_text kvs))) Map.empty = Some (Inr (True, map_of (rev kvs)))"
proof -
  let ?t = "join ''&'' (map plain_param kvs)"
  have items: "\<forall>x\<in>set (map plain_param kvs). CHR ''&'' \<notin> set x \<and> x \<noteq> [] \<and> NUL \<notin> set x"
    using kvs(1) by (auto simp: separable_def)
  have d: "url_decode_loop (query_text kvs) (length ?t) False = Some ?t" by (rule decode_query) simp
  then have le: "length ?t \<le> length (query_text kvs)" by (rule url_decode_length)
  have "?t \<noteq> []" using items kvs(2) by (intro join_ne) (cases kvs; simp)+
  then have ne: "query_text kvs \<noteq> []" using le by auto
  have "\<exists>n. length (query_text kvs) = Suc n" using ne by (cases "query_text kvs") auto
  then have "length ?t \<le> 2 * length (query_text kvs) - 1" using le by auto
  then have d2: "url_decode_loop (query_text kvs) (2 * length (query_text kvs) - 1) False = Some ?t" by (rule decode_query)
  have "NUL \<notin> set ?t" using set_join [of "''&''" "map plain_param kvs"] items by fastforce
  note parse = parse_query_decoded [OF d2 ne small this, of Map.empty]
  have sp: "split_ref ''&'' ?t = map plain_param kvs" using items by (intro split_join) auto
  have "length x < 2 ^ 31" if "x \<in> set (map plain_param kvs)" for x
    using split_ref_length [of x "''&''" ?t] that sp le small by simp
  then have "\<forall>(k, v)\<in>set kvs. separable k \<and> separable v \<and> v \<noteq> [] \<and> length (plain_param (k, v)) < 2 ^ 31"
    using kvs(1) by fastforce
  from query_params_read [OF this, of Map.empty] show ?thesis by (simp add: parse sp)
qed

text \<open>
  A value with an encoded separator is not read back: a second equals sign loses the parameter, an ampersand cuts its
  value.
\<close>

lemma parse_query_separator:
  assumes k: "separable k" and ab: "separable a" "separable b" "a \<noteq> []" "b \<noteq> []"
    and small: "length (query_text [(k, a @ c # b)]) < 2 ^ 30"
  shows "c = CHR ''='' \<Longrightarrow> parse_query (query_text [(k, a @ c # b)]) (int (length (query_text [(k, a @ c # b)]))) Map.empty =
      Some (Inr (True, Map.empty))"
    and "c = CHR ''&'' \<Longrightarrow> parse_query (query_text [(k, a @ c # b)]) (int (length (query_text [(k, a @ c # b)]))) Map.empty =
      Some (Inr (True, [k \<mapsto> a]))"
proof -
  let ?q = "query_text [(k, a @ c # b)]" and ?t = "plain_param (k, a @ c # b)"
  have "url_decode_loop ?q (length ?t) False = Some ?t" using decode_query [of "[(k, a @ c # b)]" "length ?t"] by simp
  then have le: "length ?t \<le> length ?q" by (rule url_decode_length)
  then have ne: "?q \<noteq> []" by auto
  have "length ?t \<le> 2 * length ?q - 1" using le by simp
  then have d: "url_decode_loop ?q (2 * length ?q - 1) False = Some ?t" using decode_query [of "[(k, a @ c # b)]"] by simp
  have sm: "length ?t < 2 ^ 31" using le small by (simp del: plain_param.simps)
  show "parse_query ?q (int (length ?q)) Map.empty = Some (Inr (True, Map.empty))" if c: "c = CHR ''=''"
  proof -
    have 0: "NUL \<notin> set ?t" using k ab c by (auto simp: separable_def)
    have 1: "split_ref ''&'' ?t = [?t]" using k ab c by (intro split_last) (auto simp: separable_def)
    have 2: "split_ref ''='' ?t = [k, a, b]"
      using k ab by (simp add: c split_sep split_last separable_def)
    show ?thesis using parse_query_decoded [OF d ne small 0, of Map.empty] sm by (simp add: 1 2 string_split_ref del: plain_param.simps)
  qed
  show "parse_query ?q (int (length ?q)) Map.empty = Some (Inr (True, [k \<mapsto> a]))" if c: "c = CHR ''&''"
  proof -
    have 0: "NUL \<notin> set ?t" using k ab c by (auto simp: separable_def)
    have 1: "split_ref ''&'' ?t = [k @ CHR ''='' # a, b]"
      using k ab split_sep [of "CHR ''&''" "k @ CHR ''='' # a" b] by (simp add: c split_last separable_def)
    have 2: "split_ref ''='' (k @ CHR ''='' # a) = [k, a]" "split_ref ''='' b = [b]"
      using k ab by (simp_all add: split_sep split_last separable_def)
    have l: "length (k @ CHR ''='' # a) < 2 ^ 31" "length b < 2 ^ 31" using sm by simp_all
    show ?thesis using parse_query_decoded [OF d ne small 0, of Map.empty] l by (simp add: 1 2 string_split_ref del: plain_param.simps)
  qed
qed

text \<open>C25: 
  The parameters of a query are read back when their names and values, encoded one by one, have no separators and no
  value is empty; of several with one name the last counts.
\<close>

theorem query_roundtrip:
  assumes "\<forall>(k, v)\<in>set kvs. separable k \<and> separable v \<and> v \<noteq> []" "kvs \<noteq> []" "length (query_text kvs) < 2 ^ 30"
  shows "parse_query (query_text kvs) (int (length (query_text kvs))) Map.empty = Some (Inr (True, map_of (rev kvs)))"
  using assms by (rule parse_query_reads)

lemma query_roundtrip_witness:
  "parse_query (query_text [(''a b'', ''%'')]) (int (length (query_text [(''a b'', ''%'')]))) Map.empty =
    Some (Inr (True, [''a b'' \<mapsto> ''%'']))"
proof -
  have "length (query_text [(''a b'', ''%'')]) = 9" by code_simp
  then show ?thesis using query_roundtrip [of "[(''a b'', ''%'')]"] by (simp add: separable_def)
qed

text \<open>C26: 
  The query is decoded before it is split, so the encoding does not protect the separators in a value: with an equals sign
  the parameter is lost, and an ampersand cuts its value.
\<close>

theorem encoded_separators_split:
  assumes "separable k" "separable a" "separable b" "a \<noteq> []" "b \<noteq> []"
    "length (query_text [(k, a @ CHR ''='' # b)]) < 2 ^ 30" "length (query_text [(k, a @ CHR ''&'' # b)]) < 2 ^ 30"
  shows "parse_query (query_text [(k, a @ CHR ''='' # b)]) (int (length (query_text [(k, a @ CHR ''='' # b)]))) Map.empty =
      Some (Inr (True, Map.empty)) \<and>
    parse_query (query_text [(k, a @ CHR ''&'' # b)]) (int (length (query_text [(k, a @ CHR ''&'' # b)]))) Map.empty =
      Some (Inr (True, [k \<mapsto> a]))"
  using parse_query_separator(1) [OF assms(1-5,6) refl] parse_query_separator(2) [OF assms(1-5,7) refl] by blast

lemma encoded_separators_split_witness:
  "parse_query (query_text [(''k'', ''a=b'')]) 7 Map.empty = Some (Inr (True, Map.empty)) \<and>
   parse_query (query_text [(''k'', ''a&b'')]) 7 Map.empty = Some (Inr (True, [''k'' \<mapsto> ''a'']))"
proof -
  have l: "length (query_text [(''k'', ''a=b'')]) = 7" "length (query_text [(''k'', ''a&b'')]) = 7" by code_simp+
  then show ?thesis using encoded_separators_split [of "''k''" "''a''" "''b''"] by (simp add: separable_def)
qed

end
