(* ===== verification/HttpServed.thy ===== *)
theory HttpServed
  imports HttpQuery
begin

text \<open>
  The server as a whole refines an abstract one that answers each request of the stream of a connection: how the loop of
  \<open>http_cb\<close> treats a whole request, part of one, and a stream of them, and how the reads of a socket add up.
\<close>

section \<open>Delivering a body\<close>

lemma mark_word:
  assumes "n < 2 ^ 63"
  shows "word_of_nat n AND MG_DMARK = 0" "word_of_nat n AND NOT MG_DMARK = (word_of_nat n :: 64 word)"
    "unat (word_of_nat n :: 64 word) = n"
proof -
  let ?w = "word_of_nat n :: 64 word"
  have t: "take_bit 63 ?w = ?w" using assms by (simp add: take_bit_of_nat take_bit_nat_eq_self)
  have b: "bit ?w k \<Longrightarrow> k < 63" for k using t by (metis bit_take_bit_iff)
  have m: "bit MG_DMARK k \<longleftrightarrow> k = 63" for k
    by (simp only: MG_DMARK_def bit_push_bit_iff bit_1_iff) auto
  show "?w AND MG_DMARK = 0" using b by (intro bit_word_eqI) (auto simp: bit_and_iff m)
  show "?w AND NOT MG_DMARK = ?w" using b by (intro bit_word_eqI) (auto simp: bit_and_iff bit_not_iff m)
  show "unat ?w = n" using assms by (simp add: unat_of_nat)
qed

lemma deliver_normal_reads:
  assumes fn: "\<And>hm sc. fn MG_EV_HTTP_CHUNK hm sc = Some (Inr sc)"
    and p: "pfn_data c = word_of_nat p" "p \<le> n" "p \<le> slen (body hm)" and n: "n = io_len (recv c) - hlen" "n < 2 ^ 63"
  shows "\<exists>k. deliver_normal_chunks fn (s, c) hlen hm =
    Some (Inr ((s, c\<lparr>pfn_data := word_of_nat (if slen (body hm) \<le> n then 0 else n)\<rparr>), hm\<lparr>chunk := k\<rparr>, False))"
proof -
  have p63: "p < 2 ^ 63" using p n by linarith
  note w = mark_word [OF p63]
  have c1: "n - p > slen (body hm) - p \<longleftrightarrow> slen (body hm) < n" using p(2,3) by linarith
  have sz: "to_size (int p + int (min (n - p) (slen (body hm) - p))) = min n (slen (body hm))"
  proof -
    have "p + min (n - p) (slen (body hm) - p) = min n (slen (body hm))" using p(2,3) by linarith
    then have "int p + int (min (n - p) (slen (body hm) - p)) = int (min n (slen (body hm)))"
      by (simp only: flip: of_nat_add)
    then show ?thesis using n(2) by simp
  qed
  have m: "(if n - p > slen (body hm) - p then slen (body hm) - p else n - p) = min (n - p) (slen (body hm) - p)"
    by (simp add: min_def)
  have d: "pfn_data c AND MG_DMARK = 0" "unat (pfn_data c AND NOT MG_DMARK) = p" "(slen (body hm) < p) = False"
    using w p(1,3) by simp_all
  have b: "body (set_chunk x y hm) = body hm" "set_chunk x' y' (set_chunk x y hm) = hm\<lparr>chunk := mg_str_n x' y'\<rparr>"
    "set_chunk x y hm = hm\<lparr>chunk := mg_str_n x y\<rparr>" for x y x' y'
    by (simp_all add: set_chunk_def)
  have step: "deliver_normal_chunks fn (s, c) hlen hm =
      (if slen (body hm) \<le> min n (slen (body hm))
       then Some (Inr ((s, c\<lparr>pfn_data := 0\<rparr>), hm\<lparr>chunk := mg_str_n (hlen + p) 0\<rparr>, False))
       else Some (Inr ((s, c\<lparr>pfn_data := word_of_nat (min n (slen (body hm))) OR 0\<rparr>),
         hm\<lparr>chunk := mg_str_n (hlen + p) (min (n - p) (slen (body hm) - p))\<rparr>, False)))"
    unfolding deliver_normal_chunks_def
    by (simp only: Let_def prod.sel n(1) [symmetric] d p(2) simp_thms if_True if_False prod.case fn m b if_cancel
      Option.bind.simps sum.case sz) (simp add: set_chunk_def)
  show ?thesis unfolding step by (cases "slen (body hm) \<le> n") (auto simp: min_def)
qed

section \<open>Whole requests\<close>

definition request_text :: "request \<Rightarrow> string" where
  "request_text r = head_text r @ rq_body r"

text \<open>A request whose length is announced: \<open>Content-Length\<close> gives the length of its body, or it has none.\<close>

definition complete_request :: "request \<Rightarrow> bool" where
  "complete_request r \<longleftrightarrow> request_ok r \<and> lookup_header (rq_headers r) ''Transfer-Encoding'' = None \<and>
     body_len r = length (rq_body r) \<and> length (request_text r) \<le> MG_MAX_RECV_SIZE"

definition query_of :: "request \<Rightarrow> bool \<times> (string \<rightharpoonup> string)" where
  "query_of r =
     (case rq_query r of
        None \<Rightarrow> (True, Map.empty)
      | Some q \<Rightarrow> if q = [] then (True, Map.empty)
          else case parse_query q (int (length q)) Map.empty of Some (Inr x) \<Rightarrow> x | _ \<Rightarrow> (False, Map.empty))"

definition error_reply :: "string \<Rightarrow> string" where
  "error_reply t = reply_head 404 [] (pad_num 10 10 (length t)) @ t"

text \<open>The abstract server: one answer to each request, from its handler.\<close>

definition served :: "'h http_server \<Rightarrow> ('h \<Rightarrow> request \<Rightarrow> string) \<Rightarrow> request \<Rightarrow> string" where
  "served server answer r =
     (if \<not> fst (query_of r) then error_reply query_error
      else case handleMap server (rq_path r) of None \<Rightarrow> error_reply url_error | Some h \<Rightarrow> answer h r)"

text \<open>What is expected of the handlers: each appends its answer to a request to the output, and is done.\<close>

definition gives_request :: "mg_connection \<Rightarrow> http_response \<Rightarrow> request \<Rightarrow> bool" where
  "gives_request c resp r \<longleftrightarrow>
     (\<exists>rest. received c = request_text r @ rest) \<and> parsed (received c) r (raw resp) \<and> url resp = rq_path r \<and>
     resp_query resp = snd (query_of r) \<and> resp_body resp = Some (length (head_text r)) \<and>
     resp_body_len resp = int (length (rq_body r))"

definition handlers_answer :: "'h runner \<Rightarrow> ('h \<Rightarrow> request \<Rightarrow> string) \<Rightarrow> bool" where
  "handlers_answer run answer \<longleftrightarrow>
     (\<forall>h s c resp r. io_ok (recv c) \<longrightarrow> io_ok (send c) \<longrightarrow> complete_request r \<longrightarrow> gives_request c resp r \<longrightarrow>
        (\<exists>io. run h (s, c) resp = Some (Inr (s, c\<lparr>send := io, is_resp := False\<rparr>)) \<and> io_ok io \<and>
           io_data io = io_data (send c) @ answer h r))"

lemma io_len_data: "io_ok io \<Longrightarrow> io_len io = length (io_data io)"
  by (simp add: io_data_def io_ok_def)

lemma plain_texts: "NUL \<notin> set url_error" "CHR ''%'' \<notin> set url_error" "NUL \<notin> set query_error" "CHR ''%'' \<notin> set query_error"
  "length url_error < 10 ^ 10" "length query_error < 10 ^ 10"
  by (simp_all add: url_error_def query_error_def)

lemma plain_reply:
  assumes mem: "mem = (\<lambda>_. True)" and ok: "io_ok (send c)" and t: "NUL \<notin> set t" "CHR ''%'' \<notin> set t" "length t < 10 ^ 10"
    and code: "code = 404 \<or> code = 200"
  shows "\<exists>io. mg_http_reply mem c code [] (t @ [NUL]) [] = Inr (c\<lparr>send := io, is_resp := False\<rparr>) \<and> io_ok io \<and>
    io_data io = io_data (send c) @ reply_head code [] (pad_num 10 10 (length t)) @ t"
proof (rule mg_http_reply_text [OF mem ok])
  show "mg_lld (scast (word_of_int code :: 32 word)) True False = Inr (print_num 10 (nat code))"
    using code by (auto simp: mg_lld_def lld_text_print)
  show "NUL \<notin> set (mg_http_status_code_str code)" using code by (auto simp: mg_http_status_code_str_def)
  show "mg_vxprintf (t @ [NUL]) [] = Inr (t, [])" using t by (subst vxprintf_plain) (simp_all add: vxprintf_end)
qed (use t in simp_all)

section \<open>The dispatch\<close>

lemma query_of_parsed:
  assumes p: "parsed buf r hm" and small: "length buf < 2 ^ 30"
  shows "(if slen (query hm) > 0 then parse_query (mem_at buf (query hm)) (to_i32 (int (slen (query hm)))) Map.empty
      else Some (Inr (True, Map.empty))) = Some (Inr (query_of r))"
    and "\<exists>t. MgStringCopy buf (query hm) = Inr t"
proof -
  have "(if slen (query hm) > 0 then parse_query (mem_at buf (query hm)) (to_i32 (int (slen (query hm)))) Map.empty
      else Some (Inr (True, Map.empty))) = Some (Inr (query_of r)) \<and> (\<exists>t. MgStringCopy buf (query hm) = Inr t)"
  proof (cases "rq_query r")
    case None
    then have "query hm = null_str" using p by (simp add: parsed_def)
    then show ?thesis using None by (simp add: query_of_def MgStringCopy_def)
  next
    case (Some q)
    then have q: "reads_part buf (query hm) q" using p by (simp add: parsed_def)
    then obtain st rest where st: "drop st buf = q @ rest" "sptr (query hm) = Some st" "slen (query hm) = length q"
      by (auto simp: reads_part_def)
    have "length q \<le> length buf" using st(1) by (metis length_append length_drop diff_le_self le_add1 order_trans)
    then have len: "length q < 2 ^ 30" using small by simp
    have i: "to_i32 (int (length q)) = int (length q)" using len by (simp add: int_range_def)
    have m: "mem_at buf (query hm) = q @ rest" using st by (simp add: mem_at_def)
    show ?thesis
    proof (cases "q = []")
      case True
      then show ?thesis using Some st reads_part_cut(4) [OF q] by (simp add: query_of_def)
    next
      case False
      obtain x where x: "parse_query q (int (length q)) Map.empty = Some (Inr x)"
        using parse_query_returns(1) [OF False len] by blast
      then have "query_of r = x" using Some False by (simp add: query_of_def)
      with x False st(3) reads_part_cut(4) [OF q] show ?thesis
        by (simp only: m i st(3) parse_query_returns(2) [OF False len]) simp
    qed
  qed
  then show "(if slen (query hm) > 0 then parse_query (mem_at buf (query hm)) (to_i32 (int (slen (query hm)))) Map.empty
      else Some (Inr (True, Map.empty))) = Some (Inr (query_of r))" "\<exists>t. MgStringCopy buf (query hm) = Inr t" by blast+
qed

lemma bad_request_replies:
  assumes "mem = (\<lambda>_. True)" "io_ok (send c)" "t = url_error \<or> t = query_error"
  shows "\<exists>io. BadRequest mem c t = Inr (c\<lparr>send := io, is_resp := False\<rparr>) \<and> io_ok io \<and> io_data io = io_data (send c) @ error_reply t"
  using assms plain_reply [OF assms(1,2), of t 404] plain_texts by (auto simp: BadRequest_def error_reply_def)

text \<open>The dispatch of a parsed request.\<close>

lemma http_callback_parsed:
  assumes hm: "parsed (received c) r hm" and small: "length (received c) < 2 ^ 30"
  shows "HttpCallback mem run MG_EV_HTTP_MSG hm (s, c) =
      (if \<not> fst (query_of r) then Some (res_bind (BadRequest mem c query_error) (\<lambda>c. Inr (s, c)))
       else case handleMap s (rq_path r) of
         None \<Rightarrow> Some (res_bind (BadRequest mem c url_error) (\<lambda>c. Inr (s, c)))
       | Some h \<Rightarrow> run h (s, c) \<lparr>raw = hm, url = rq_path r, resp_query = snd (query_of r), resp_body = sptr (body hm),
           resp_body_len = to_i32 (int (slen (body hm)))\<rparr>)"
proof -
  note q = query_of_parsed [OF hm small]
  have u: "MgStringCopy (received c) (uri hm) = Inr (rq_path r)" using hm reads_part_cut(4) by (auto simp: parsed_def)
  obtain ok ps where qo: "query_of r = (ok, ps)" by (cases "query_of r")
  show ?thesis
    using q(2) unfolding HttpCallback_def
    by (auto simp only: Let_def prod.sel u q(1) qo sum.case Option.bind.simps prod.case simp_thms if_True)
qed

lemma http_callback_answers:
  assumes mem: "mem = (\<lambda>_. True)" and run: "handlers_answer run answer" and r: "complete_request r"
    and c: "received c = request_text r @ rest" "length (received c) < 2 ^ 30" "io_ok (recv c)" "io_ok (send c)"
    and hm: "parsed (received c) r hm"
  shows "\<exists>io. HttpCallback mem run MG_EV_HTTP_MSG hm (s, c) = Some (Inr (s, c\<lparr>send := io, is_resp := False\<rparr>)) \<and> io_ok io \<and>
    io_data io = io_data (send c) @ served s answer r"
proof -
  note unfold = http_callback_parsed [OF hm c(2), of mem run s]
  note err = bad_request_replies [OF mem c(4)]
  show ?thesis
  proof (cases "fst (query_of r)")
    case False
    with err [of query_error] show ?thesis unfolding unfold by (auto simp: served_def)
  next
    case ok: True
    show ?thesis
    proof (cases "handleMap s (rq_path r)")
      case None
      with ok err [of url_error] show ?thesis unfolding unfold by (auto simp: served_def)
    next
      case (Some h)
      define resp where "resp = \<lparr>raw = hm, url = rq_path r, resp_query = snd (query_of r), resp_body = sptr (body hm),
        resp_body_len = to_i32 (int (slen (body hm)))\<rparr>"
      have "length (rq_body r) < 2 ^ 31" using c(1,2) by (simp add: request_text_def)
      then have "gives_request c resp r"
        using c(1) hm r by (auto simp: gives_request_def resp_def parsed_def complete_request_def int_range_def)
      with run r c(3,4) obtain io where "run h (s, c) resp = Some (Inr (s, c\<lparr>send := io, is_resp := False\<rparr>))" "io_ok io"
        "io_data io = io_data (send c) @ answer h r"
        unfolding handlers_answer_def by blast
      with ok Some show ?thesis unfolding unfold by (intro exI [of _ io]) (simp add: served_def resp_def)
    qed
  qed
qed

section \<open>Reading requests\<close>

lemma complete_message_len: "complete_request r \<Longrightarrow> message_len r = length (request_text r)"
proof -
  assume r: "complete_request r"
  then have b: "body_len r = length (rq_body r)" "length (head_text r) + length (rq_body r) \<le> MG_MAX_RECV_SIZE"
    by (simp_all add: complete_request_def request_text_def)
  then have "to_size (int (length (head_text r)) + int (body_len r)) = length (head_text r) + length (rq_body r)"
    by (simp flip: of_nat_add)
  with b show ?thesis by (simp add: message_len_def request_text_def)
qed

lemma not_chunked:
  assumes "parsed buf r hm" "complete_request r"
  shows "mg_is_chunked buf hm = Inr False"
proof -
  have "list_all header_ok (rq_headers r)" "lookup_header (rq_headers r) ''Transfer-Encoding'' = None"
    using assms(2) by (simp_all add: complete_request_def request_ok_def)
  with parsed_header [OF assms(1), of "''Transfer-Encoding''"] have "mg_http_get_header buf hm ''Transfer-Encoding'' = Inr None"
    by auto
  then show ?thesis by (simp add: mg_is_chunked_def)
qed

lemma chunk_ignored: "HttpCallback mem run MG_EV_HTTP_CHUNK hm sc = Some (Inr sc)"
  by (simp add: HttpCallback_def)

text \<open>One round of the loop, with a message and without.\<close>

lemma loop_message:
  assumes "io_buf (recv c) \<noteq> []" "0 < io_len (recv c)" "mg_http_parse (received c) = Inr (int h, hm)" "0 < h" "\<not> is_resp c"
    "mg_is_chunked (received c) hm = Inr False" "deliver_normal_chunks fn (s, c) h hm = Some (Inr ((s1, c1), hm1, False))"
    "slen (message hm1) \<le> io_len (recv c1)"
    "fn MG_EV_HTTP_MSG hm1 (s1, if is_accepted c1 then c1\<lparr>is_resp := True\<rparr> else c1) = Some (Inr (s2, c2))"
    "mg_iobuf_del (recv c2) 0 (slen (message hm1)) = Inr (k, io)"
  shows "http_cb_loop fn MG_EV_READ (s, c) = http_cb_loop fn MG_EV_READ (s2, c2\<lparr>recv := io\<rparr>)"
  using assms by (subst http_cb_loop.simps) (simp add: Let_def)

lemma loop_waits:
  assumes "mg_http_parse (received c) = Inr (int h, hm)" "0 < h" "\<not> is_resp c"
    "io_buf (recv c) \<noteq> []" "0 < io_len (recv c)"
    "mg_is_chunked (received c) hm = Inr False" "deliver_normal_chunks fn (s, c) h hm = Some (Inr ((s1, c1), hm1, False))"
    "io_len (recv c1) < slen (message hm1)"
  shows "http_cb_loop fn MG_EV_READ (s, c) = Some (Inr (s1, c1))"
  using assms by (subst http_cb_loop.simps) (simp add: Let_def)

text \<open>A whole request at the front of the buffer is answered and removed.\<close>

lemma loop_request:
  assumes mem: "mem = (\<lambda>_. True)" and run: "handlers_answer run answer" and r: "complete_request r"
    and c: "received c = request_text r @ rest" "length (received c) < 2 ^ 30" "io_ok (recv c)" "io_ok (send c)"
    and st: "\<not> is_resp c" "pfn_data c = word_of_nat p" "p \<le> length (rq_body r)"
  shows "\<exists>io io'. http_cb_loop (HttpCallback mem run) MG_EV_READ (s, c) =
      http_cb_loop (HttpCallback mem run) MG_EV_READ (s, c\<lparr>recv := io', send := io, is_resp := False, pfn_data := 0\<rparr>) \<and>
    io_ok io \<and> io_ok io' \<and> io_data io = io_data (send c) @ served s answer r \<and> io_data io' = rest"
proof -
  let ?fn = "HttpCallback mem run"
  have ok: "request_ok r" using r by (simp add: complete_request_def)
  have split: "received c = head_text r @ rq_body r @ rest" by (simp add: c(1) request_text_def)
  have "length (head_text r @ rq_body r @ rest) < 2 ^ 31" using c(2) split by simp
  from parse_request [OF ok this] obtain hm where hm: "mg_http_parse (received c) = Inr (int (length (head_text r)), hm)"
    "parsed (received c) r hm" unfolding split by blast
  have len: "io_len (recv c) = length (head_text r) + length (rq_body r) + length rest"
    using io_len_data [OF c(3)] c(1) by (simp add: received_def request_text_def)
  have hd: "0 < length (head_text r)" by (simp add: head_text_def)
  have b: "slen (body hm) = length (rq_body r)" "slen (message hm) = length (request_text r)"
    using hm(2) r complete_message_len [OF r] by (simp_all add: parsed_def complete_request_def)
  have small: "length (rq_body r) + length rest < 2 ^ 30" using c(1,2) by (simp add: request_text_def)
  have "\<exists>k. deliver_normal_chunks ?fn (s, c) (length (head_text r)) hm =
      Some (Inr ((s, c\<lparr>pfn_data := word_of_nat (if slen (body hm) \<le> length (rq_body r) + length rest then 0
        else length (rq_body r) + length rest)\<rparr>), hm\<lparr>chunk := k\<rparr>, False))"
    by (rule deliver_normal_reads [where fn = ?fn, OF chunk_ignored st(2)]) (use st(3) b(1) len small in simp_all)
  then obtain k where d: "deliver_normal_chunks ?fn (s, c) (length (head_text r)) hm =
      Some (Inr ((s, c\<lparr>pfn_data := 0\<rparr>), hm\<lparr>chunk := k\<rparr>, False))"
    using b(1) by auto
  define c1 where "c1 = (let c = c\<lparr>pfn_data := 0\<rparr> in if is_accepted c then c\<lparr>is_resp := True\<rparr> else c)"
  have c1: "received c1 = received c" "recv c1 = recv c" "send c1 = send c" by (simp_all add: c1_def received_def Let_def)
  have "parsed (received c1) r (hm\<lparr>chunk := k\<rparr>)" using hm(2) by (simp add: c1 parsed_def split: option.splits)
  with http_callback_answers [OF mem run r, of c1 rest "hm\<lparr>chunk := k\<rparr>" s] c c1
  obtain io where io: "?fn MG_EV_HTTP_MSG (hm\<lparr>chunk := k\<rparr>) (s, c1) = Some (Inr (s, c1\<lparr>send := io, is_resp := False\<rparr>))" "io_ok io"
    "io_data io = io_data (send c) @ served s answer r" by auto
  obtain io' where io': "mg_iobuf_del (recv c) 0 (length (request_text r)) = Inr (length (request_text r), io')" "io_ok io'"
    "io_data io' = rest"
    using mg_iobuf_del_ok [OF c(3), of 0 "length (request_text r)"] c(1,2) len
    by (auto simp: received_def request_text_def)
  have buf: "io_buf (recv c) \<noteq> []" "0 < io_len (recv c)" using c(3) len hd by (auto simp: io_ok_def)
  have e: "c1\<lparr>send := io, is_resp := False, recv := io'\<rparr> = c\<lparr>recv := io', send := io, is_resp := False, pfn_data := 0\<rparr>"
    by (simp add: c1_def Let_def)
  have "http_cb_loop ?fn MG_EV_READ (s, c) = http_cb_loop ?fn MG_EV_READ (s, c1\<lparr>send := io, is_resp := False, recv := io'\<rparr>)"
  proof (rule loop_message [OF buf hm(1) hd st(1) not_chunked [OF hm(2) r] d])
    show "slen (message (hm\<lparr>chunk := k\<rparr>)) \<le> io_len (recv (c\<lparr>pfn_data := 0\<rparr>))"
      using b(2) len by (simp add: request_text_def)
    show "?fn MG_EV_HTTP_MSG (hm\<lparr>chunk := k\<rparr>)
        (s, if is_accepted (c\<lparr>pfn_data := 0\<rparr>) then c\<lparr>pfn_data := 0\<rparr>\<lparr>is_resp := True\<rparr> else c\<lparr>pfn_data := 0\<rparr>) =
      Some (Inr (s, c1\<lparr>send := io, is_resp := False\<rparr>))"
      using io(1) by (simp add: c1_def Let_def)
    show "mg_iobuf_del (recv (c1\<lparr>send := io, is_resp := False\<rparr>)) 0 (slen (message (hm\<lparr>chunk := k\<rparr>))) =
      Inr (length (request_text r), io')"
      using io'(1) b(2) c1(2) by simp
  qed
  with e io io' show ?thesis by metis
qed

text \<open>Part of a request stays where it is.\<close>

lemma loop_part:
  assumes r: "complete_request r" and c: "received c = take n (request_text r)" "n < length (request_text r)" "io_ok (recv c)"
    and st: "\<not> is_resp c" "pfn_data c = word_of_nat p" "p \<le> n - length (head_text r)"
  shows "\<exists>p'. http_cb_loop (HttpCallback mem run) MG_EV_READ (s, c) = Some (Inr (s, c\<lparr>pfn_data := word_of_nat p'\<rparr>)) \<and>
    p' \<le> n - length (head_text r)"
proof -
  let ?fn = "HttpCallback mem run" and ?h = "length (head_text r)"
  have ok: "request_ok r" "length (request_text r) \<le> MG_MAX_RECV_SIZE" using r by (simp_all add: complete_request_def)
  have same: "c\<lparr>pfn_data := word_of_nat p\<rparr> = c" using st(2) by simp
  have len: "io_len (recv c) = n" using io_len_data [OF c(3)] c(1,2) by (simp add: received_def)
  show ?thesis
  proof (cases "n < ?h")
    case True
    then have "mg_http_parse (received c) = Inr (0, zero_message)"
      using parse_part [OF ok(1) _ True] ok(2) by (simp add: c(1) request_text_def)
    then have "http_cb_loop ?fn MG_EV_READ (s, c) = Some (Inr (s, c))"
      using st(1) by (subst http_cb_loop.simps) (simp add: Let_def)
    with st(3) same show ?thesis by (intro exI [of _ p]) simp
  next
    case False
    define m where "m = n - ?h"
    then have n: "n = ?h + m" "m < length (rq_body r)" using False c(2) by (simp_all add: request_text_def)
    have rc: "received c = head_text r @ take m (rq_body r)" using c(1) n(1) by (simp add: request_text_def)
    obtain hm where hm: "mg_http_parse (received c) = Inr (int ?h, hm)" "parsed (received c) r hm"
      using parse_request [OF ok(1), of "take m (rq_body r)"] ok(2) n(2) unfolding rc by (auto simp: request_text_def)
    have b: "slen (body hm) = length (rq_body r)" "slen (message hm) = length (request_text r)"
      using hm(2) r complete_message_len [OF r] by (simp_all add: parsed_def complete_request_def)
    have "\<exists>k. deliver_normal_chunks ?fn (s, c) ?h hm =
        Some (Inr ((s, c\<lparr>pfn_data := word_of_nat (if slen (body hm) \<le> m then 0 else m)\<rparr>), hm\<lparr>chunk := k\<rparr>, False))"
      by (rule deliver_normal_reads [where fn = ?fn, OF chunk_ignored st(2)])
        (use st(3) b(1) n len ok(2) in \<open>simp_all add: request_text_def\<close>)
    then obtain k where d: "deliver_normal_chunks ?fn (s, c) ?h hm =
        Some (Inr ((s, c\<lparr>pfn_data := word_of_nat m\<rparr>), hm\<lparr>chunk := k\<rparr>, False))"
      using b(1) n(2) by auto
    have hd: "0 < ?h" by (simp add: head_text_def)
    have "http_cb_loop ?fn MG_EV_READ (s, c) = Some (Inr (s, c\<lparr>pfn_data := word_of_nat m\<rparr>))"
    proof (rule loop_waits [OF hm(1) hd st(1) _ _ not_chunked [OF hm(2) r] d])
      show "io_buf (recv c) \<noteq> []" "0 < io_len (recv c)" using c(3) len n hd by (auto simp: io_ok_def)
      show "io_len (recv (c\<lparr>pfn_data := word_of_nat m\<rparr>)) < slen (message (hm\<lparr>chunk := k\<rparr>))" using len b(2) c(2) by simp
    qed
    then show ?thesis by (auto simp: m_def)
  qed
qed

lemma loop_empty: "received c = [] \<Longrightarrow> io_ok (recv c) \<Longrightarrow> http_cb_loop fn ev (s, c) = Some (Inr (s, c))"
  using io_len_data [of "recv c"] by (subst http_cb_loop.simps) (simp add: received_def Let_def)

section \<open>Streams of requests\<close>

definition stream_of :: "request list \<Rightarrow> string" where
  "stream_of rs = concat (map request_text rs)"

text \<open>Between two reads the buffer holds the first part of the request that comes next.\<close>

definition pending :: "mg_connection \<Rightarrow> request list \<Rightarrow> nat" where
  "pending c rs =
     (case rs of [] \<Rightarrow> 0 | r # _ \<Rightarrow> min (length (received c) - length (head_text r)) (length (rq_body r)))"

definition conn_ok :: "mg_connection \<Rightarrow> request list \<Rightarrow> bool" where
  "conn_ok c rs \<longleftrightarrow> io_ok (recv c) \<and> io_ok (send c) \<and> \<not> is_resp c \<and> (\<exists>p. pfn_data c = word_of_nat p \<and> p \<le> pending c rs)"

definition waiting :: "mg_connection \<Rightarrow> request list \<Rightarrow> bool" where
  "waiting c rs \<longleftrightarrow> conn_ok c rs \<and>
     (case rs of [] \<Rightarrow> received c = []
      | r # _ \<Rightarrow> \<exists>n < length (request_text r). received c = take n (request_text r))"

lemma loop_stream:
  assumes mem: "mem = (\<lambda>_. True)" and run: "handlers_answer run answer"
  shows "\<forall>r\<in>set rs. complete_request r \<Longrightarrow> conn_ok c rs \<Longrightarrow> length (received c) < 2 ^ 30 \<Longrightarrow>
    received c @ socket = stream_of rs \<Longrightarrow>
    \<exists>k c'. http_cb_loop (HttpCallback mem run) MG_EV_READ (s, c) = Some (Inr (s, c')) \<and> k \<le> length rs \<and>
      received c' @ socket = stream_of (drop k rs) \<and> waiting c' (drop k rs) \<and>
      io_data (send c') = io_data (send c) @ concat (map (served s answer) (take k rs))"
proof (induction rs arbitrary: c)
  case Nil
  then have "received c = []" by (simp add: stream_of_def)
  with Nil.prems show ?case
    by (intro exI [of _ 0] exI [of _ c]) (simp add: loop_empty conn_ok_def waiting_def stream_of_def)
next
  case (Cons r rs)
  let ?fn = "HttpCallback mem run"
  have r: "complete_request r" using Cons.prems(1) by simp
  obtain p where c: "io_ok (recv c)" "io_ok (send c)" "\<not> is_resp c" "pfn_data c = word_of_nat p" "p \<le> pending c (r # rs)"
    using Cons.prems(2) by (auto simp: conn_ok_def)
  have eq: "received c @ socket = request_text r @ stream_of rs" using Cons.prems(4) by (simp add: stream_of_def)
  show ?case
  proof (cases "length (request_text r) \<le> length (received c)")
    case True
    then obtain rest where rest: "received c = request_text r @ rest" "rest @ socket = stream_of rs"
      using eq by (metis append_eq_append_conv_if append_take_drop_id append_eq_conv_conj append.assoc same_append_eq)
    have "p \<le> length (rq_body r)" using c(5) by (simp add: pending_def)
    from loop_request [OF mem run r rest(1) Cons.prems(3) c(1-4) this, of s]
    obtain io io' where io: "http_cb_loop ?fn MG_EV_READ (s, c) =
        http_cb_loop ?fn MG_EV_READ (s, c\<lparr>recv := io', send := io, is_resp := False, pfn_data := 0\<rparr>)"
      "io_ok io" "io_ok io'" "io_data io = io_data (send c) @ served s answer r" "io_data io' = rest" by blast
    define c1 where "c1 = c\<lparr>recv := io', send := io, is_resp := False, pfn_data := 0\<rparr>"
    have c1: "received c1 = rest" "conn_ok c1 rs" "send c1 = io"
      using io(2,3,5) by (auto simp: c1_def received_def conn_ok_def intro!: exI [of _ 0])
    have "length (received c1) < 2 ^ 30" using Cons.prems(3) rest(1) c1(1) by simp
    with Cons.IH [OF _ c1(2)] Cons.prems(1) c1(1) rest(2) obtain k c' where
      k: "http_cb_loop ?fn MG_EV_READ (s, c1) = Some (Inr (s, c'))" "k \<le> length rs"
      "received c' @ socket = stream_of (drop k rs)" "waiting c' (drop k rs)"
      "io_data (send c') = io_data (send c1) @ concat (map (served s answer) (take k rs))" by auto
    then show ?thesis
      using io(1,4) c1(3) by (intro exI [of _ "Suc k"] exI [of _ c']) (simp add: c1_def)
  next
    case False
    define n where "n = length (received c)"
    have part: "received c = take n (request_text r)" "n < length (request_text r)"
      using False eq by (metis append_eq_append_conv_if n_def nat_le_linear take_all_iff take_append append_take_drop_id append_eq_conv_conj) (simp add: n_def False not_le [symmetric])
    have "p \<le> n - length (head_text r)" using c(5) by (simp add: pending_def n_def)
    from loop_part [OF r part c(1,3,4) this, of mem run s] obtain p' where
      p': "http_cb_loop ?fn MG_EV_READ (s, c) = Some (Inr (s, c\<lparr>pfn_data := word_of_nat p'\<rparr>))" "p' \<le> n - length (head_text r)"
      by blast
    have "n - length (head_text r) \<le> length (rq_body r)" using part(2) by (simp add: request_text_def)
    with p'(2) c(1-3) have "conn_ok (c\<lparr>pfn_data := word_of_nat p'\<rparr>) (r # rs)"
      by (auto simp: conn_ok_def pending_def received_def n_def intro!: exI [of _ p'])
    moreover have "received (c\<lparr>pfn_data := word_of_nat p'\<rparr>) = take n (request_text r)"
      using part(1) by (simp add: received_def)
    ultimately have "waiting (c\<lparr>pfn_data := word_of_nat p'\<rparr>) (r # rs)" using part(2) by (auto simp: waiting_def)
    with p'(1) Cons.prems(4) show ?thesis
      by (intro exI [of _ 0] exI [of _ "c\<lparr>pfn_data := word_of_nat p'\<rparr>"]) (simp add: received_def)
  qed
qed

text \<open>One read of the socket.\<close>

lemma read_conn_serves:
  assumes mem: "mem = (\<lambda>_. True)" and run: "handlers_answer run answer" and rs: "\<forall>r\<in>set rs. complete_request r"
    and c: "waiting c rs" "received c @ socket = stream_of rs" and k: "1 \<le> k" "k < 2 ^ 29"
  shows "\<exists>j c' socket'. read_conn mem (HttpCallback mem run) k socket (s, c) = Some (Inr ((s, c'), socket')) \<and> j \<le> length rs \<and>
    waiting c' (drop j rs) \<and> received c' @ socket' = stream_of (drop j rs) \<and> length socket' \<le> length socket - 1 \<and>
    io_data (send c') = io_data (send c) @ concat (map (served s answer) (take j rs))"
proof -
  let ?fn = "HttpCallback mem run"
  let ?io = "recv c"
  have ok: "io_ok ?io" "conn_ok c rs" using c(1) by (simp_all add: waiting_def conn_ok_def)
  have small: "length (received c) < MG_MAX_RECV_SIZE"
    using c(1) rs by (cases rs) (auto simp: waiting_def complete_request_def)
  have len: "io_len ?io = length (received c)" using io_len_data [OF ok(1)] by (simp add: received_def)
  define io where "io = (if length (io_buf ?io) \<le> io_len ?io then mg_iobuf_resize mem ?io (length (io_buf ?io) + MG_IO_SIZE) else ?io)"
  have io: "io_data io = received c" "io_ok io" "io_len io = length (received c)" "length (received c) < length (io_buf io)"
    using mg_iobuf_resize_grows [OF mem ok(1), of "length (io_buf ?io) + MG_IO_SIZE"] ok(1) len
    by (auto simp: io_def received_def io_ok_def)
  define got where "got = take (min k (length (io_buf io) - io_len io)) socket"
  have g: "socket = got @ drop (length got) socket" by (simp add: got_def min_def)
  have got_len: "length got \<le> length (io_buf io) - io_len io" "length got \<le> k" by (auto simp: got_def)
  define io1 where "io1 = io\<lparr>io_buf := take (io_len io) (io_buf io) @ got @ drop (io_len io + length got) (io_buf io),
    io_len := io_len io + length got\<rparr>"
  have io1: "io_data io1 = received c @ got" "io_ok io1"
    using io got_len(1) by (auto simp: io1_def io_data_def io_ok_def)
  define c1 where "c1 = c\<lparr>recv := io1\<rparr>"
  have c1: "received c1 = received c @ got" "send c1 = send c" using io1 by (simp_all add: c1_def received_def)
  have c1ok: "conn_ok c1 rs" using ok(2) io1(2) c1(1)
    by (cases rs) (auto simp: conn_ok_def pending_def c1_def intro: order_trans)
  have read: "read_conn mem ?fn k socket (s, c) =
      (if length got = 0 then Some (Inr ((s, c\<lparr>recv := io\<rparr>), socket))
       else obind (http_cb_loop ?fn MG_EV_READ (s, c1)) (\<lambda>sc. Some (Inr (sc, drop (length got) socket))))"
  proof -
    have nb: "\<not> (length (io_buf ?io) \<le> io_len ?io \<and> length (io_buf io) \<le> io_len io)" using io(3,4) by simp
    have lt: "\<not> MG_MAX_RECV_SIZE \<le> io_len ?io" using small len by simp
    have call: "mg_call ?fn MG_EV_READ zero_message sc = http_cb_loop ?fn MG_EV_READ sc" for sc
      by (simp add: mg_call_def HttpCallback_def http_cb_def)
    show ?thesis
      unfolding read_conn_def
      by (simp only: Let_def prod.sel io_def [symmetric] got_def [symmetric] nb lt if_False call io1_def [symmetric]
        c1_def [symmetric])
  qed
  show ?thesis
  proof (cases "got = []")
    case True
    then have "socket = []" using k(1) io(3,4) by (auto simp: got_def)
    have w: "waiting (c\<lparr>recv := io\<rparr>) rs"
      using c(1) io by (cases rs) (auto simp: waiting_def conn_ok_def pending_def received_def)
    show ?thesis using True read c(2) io(1) w \<open>socket = []\<close>
      by (intro exI [of _ 0] exI [of _ "c\<lparr>recv := io\<rparr>"] exI [of _ socket]) (simp add: received_def)
  next
    case False
    have "received c1 @ drop (length got) socket = stream_of rs" using c1(1) c(2) g by (metis append.assoc)
    moreover have "length (received c1) < 2 ^ 30" using small got_len(2) k(2) c1(1) by simp
    ultimately obtain j c' where j: "http_cb_loop ?fn MG_EV_READ (s, c1) = Some (Inr (s, c'))" "j \<le> length rs"
      "received c' @ drop (length got) socket = stream_of (drop j rs)" "waiting c' (drop j rs)"
      "io_data (send c') = io_data (send c1) @ concat (map (served s answer) (take j rs))"
      using loop_stream [OF mem run rs c1ok] by blast
    have "length (drop (length got) socket) \<le> length socket - 1" using False by (cases got) simp_all
    with j read False c1(2) show ?thesis
      by (intro exI [of _ j] exI [of _ c'] exI [of _ "drop (length got) socket"]) simp
  qed
qed

fun read_all :: "(nat \<Rightarrow> bool) \<Rightarrow> 's handler \<Rightarrow> nat list \<Rightarrow> string \<Rightarrow> 's \<times> mg_connection \<Rightarrow> (('s \<times> mg_connection) \<times> string) res option" where
  "read_all mem fn [] socket sc = Some (Inr (sc, socket))"
| "read_all mem fn (k # ks) socket sc =
     obind (read_conn mem fn k socket sc) (\<lambda>(sc, socket). read_all mem fn ks socket sc)"

lemma read_all_serves:
  assumes mem: "mem = (\<lambda>_. True)" and run: "handlers_answer run answer"
  shows "\<forall>r\<in>set rs. complete_request r \<Longrightarrow> waiting c rs \<Longrightarrow> received c @ socket = stream_of rs \<Longrightarrow>
    \<forall>k\<in>set ks. 1 \<le> k \<and> k < 2 ^ 29 \<Longrightarrow>
    \<exists>j c' socket'. read_all mem (HttpCallback mem run) ks socket (s, c) = Some (Inr ((s, c'), socket')) \<and> j \<le> length rs \<and>
      waiting c' (drop j rs) \<and> received c' @ socket' = stream_of (drop j rs) \<and> length socket' \<le> length socket - length ks \<and>
      io_data (send c') = io_data (send c) @ concat (map (served s answer) (take j rs))"
proof (induction ks arbitrary: c socket rs)
  case Nil
  then show ?case by (intro exI [of _ 0] exI [of _ c] exI [of _ socket]) simp
next
  case (Cons k ks)
  have k: "1 \<le> k" "k < 2 ^ 29" using Cons.prems(4) by simp_all
  from read_conn_serves [OF mem run Cons.prems(1,2,3) k] obtain j c1 socket1 where
    1: "read_conn mem (HttpCallback mem run) k socket (s, c) = Some (Inr ((s, c1), socket1))" "j \<le> length rs"
      "waiting c1 (drop j rs)" "received c1 @ socket1 = stream_of (drop j rs)" "length socket1 \<le> length socket - 1"
      "io_data (send c1) = io_data (send c) @ concat (map (served s answer) (take j rs))" by blast
  have "\<forall>r\<in>set (drop j rs). complete_request r" using Cons.prems(1) by (auto dest: in_set_dropD)
  from Cons.IH [OF this 1(3,4)] Cons.prems(4) obtain i c' socket' where
    2: "read_all mem (HttpCallback mem run) ks socket1 (s, c1) = Some (Inr ((s, c'), socket'))" "i \<le> length (drop j rs)"
      "waiting c' (drop i (drop j rs))" "received c' @ socket' = stream_of (drop i (drop j rs))"
      "length socket' \<le> length socket1 - length ks"
      "io_data (send c') = io_data (send c1) @ concat (map (served s answer) (take i (drop j rs)))" by auto
  have "concat (map f (take j rs)) @ concat (map f (take i (drop j rs))) = concat (map f (take (j + i) rs))" for f :: "request \<Rightarrow> string"
    by (simp add: take_add)
  moreover have "j + i \<le> length rs" "length socket' \<le> length socket - length (k # ks)" using 1(2,5) 2(2,5) by simp_all
  ultimately show ?case using 1 2
    by (intro exI [of _ "j + i"] exI [of _ c'] exI [of _ socket']) (simp add: add.commute)
qed

lemma waiting_stream: "waiting c rs \<Longrightarrow> received c = stream_of rs \<Longrightarrow> rs = []"
proof (cases rs)
  case (Cons r rs')
  assume "waiting c rs" "received c = stream_of rs"
  with Cons obtain n where "n < length (request_text r)" "take n (request_text r) = request_text r @ stream_of rs'"
    by (auto simp: waiting_def stream_of_def)
  from arg_cong [OF this(2), of length] this(1) show ?thesis by simp
qed simp

definition fresh_connection :: "mg_connection \<Rightarrow> bool" where
  "fresh_connection c \<longleftrightarrow> io_ok (recv c) \<and> io_ok (send c) \<and> received c = [] \<and> \<not> is_resp c \<and> pfn_data c = 0"

lemma requests_served:
  assumes "mem = (\<lambda>_. True)" "handlers_answer run answer" "\<forall>r\<in>set rs. complete_request r" "fresh_connection c"
    "\<forall>k\<in>set ks. 1 \<le> k \<and> k < 2 ^ 29" "length (stream_of rs) \<le> length ks"
  shows "\<exists>c'. read_all mem (HttpCallback mem run) ks (stream_of rs) (s, c) = Some (Inr ((s, c'), [])) \<and> received c' = [] \<and>
    io_data (send c') = io_data (send c) @ concat (map (served s answer) rs)"
proof -
  have conn: "conn_ok c rs" using assms(4) by (auto simp: fresh_connection_def conn_ok_def intro!: exI [of _ 0])
  have ne: "request_text r \<noteq> []" for r by (simp add: request_text_def head_text_def)
  have "waiting c rs" using conn assms(4) ne by (cases rs) (auto simp: waiting_def fresh_connection_def intro!: exI [of _ 0])
  moreover have "received c @ stream_of rs = stream_of rs" using assms(4) by (simp add: fresh_connection_def)
  ultimately obtain j c' socket' where j: "read_all mem (HttpCallback mem run) ks (stream_of rs) (s, c) = Some (Inr ((s, c'), socket'))"
    "waiting c' (drop j rs)" "received c' @ socket' = stream_of (drop j rs)" "length socket' \<le> length (stream_of rs) - length ks"
    "io_data (send c') = io_data (send c) @ concat (map (served s answer) (take j rs))"
    using read_all_serves [OF assms(1,2,3) _ _ assms(5)] by blast
  have s: "socket' = []" using j(4) assms(6) by simp
  with waiting_stream [OF j(2)] j(3) have d: "drop j rs = []" by simp
  then have "take j rs = rs" by simp
  with j s d show ?thesis by (intro exI [of _ c']) (simp add: stream_of_def)
qed

text \<open>C5: 
  Requests sent one after the other on a connection are all answered, in their order, each by the handler of its path (or
  with an error), however the stream is cut into reads: after at most as many reads as it has bytes nothing is left.
\<close>

theorem requests_answered_in_order:
  assumes "mem = (\<lambda>_. True)" "handlers_answer run answer" "\<forall>r\<in>set rs. complete_request r" "fresh_connection c"
    "\<forall>k\<in>set ks. 1 \<le> k \<and> k < 2 ^ 29" "length (stream_of rs) \<le> length ks"
  shows "\<exists>c'. read_all mem (HttpCallback mem run) ks (stream_of rs) (s, c) = Some (Inr ((s, c'), [])) \<and> received c' = [] \<and>
    io_data (send c') = io_data (send c) @ concat (map (served s answer) rs)"
  using assms by (rule requests_served)

definition ok_handler :: "unit runner" where
  "ok_handler h sc resp = Some (res_bind (SuccessRequest (\<lambda>_. True) (snd sc) ''ok'') (\<lambda>c. Inr (fst sc, c)))"

lemma ok_handler_answers: "handlers_answer ok_handler (\<lambda>h r. reply_head 200 [] (pad_num 10 10 2) @ ''ok'')"
  unfolding handlers_answer_def
proof (intro allI impI)
  fix h s resp r and c :: mg_connection assume ok: "io_ok (send c)"
  have t: "NUL \<notin> set ''ok''" "CHR ''%'' \<notin> set ''ok''" "length ''ok'' < 10 ^ 10" "(200::int) = 404 \<or> (200::int) = 200" by simp_all
  have l: "length ''ok'' = 2" by simp
  from plain_reply [OF refl ok t] obtain io where
    "mg_http_reply (\<lambda>_. True) c 200 [] (''ok'' @ [NUL]) [] = Inr (c\<lparr>send := io, is_resp := False\<rparr>)" "io_ok io"
    "io_data io = io_data (send c) @ reply_head 200 [] (pad_num 10 10 2) @ ''ok''"
    unfolding l by blast
  then show "\<exists>io. ok_handler h (s, c) resp = Some (Inr (s, c\<lparr>send := io, is_resp := False\<rparr>)) \<and> io_ok io \<and>
      io_data io = io_data (send c) @ reply_head 200 [] (pad_num 10 10 2) @ ''ok''"
    by (intro exI [of _ io]) (simp add: ok_handler_def SuccessRequest_def)
qed

definition new_connection :: mg_connection where
  "new_connection = \<lparr>recv = \<lparr>io_buf = [], io_len = 0, io_align = MG_IO_SIZE\<rparr>, send = \<lparr>io_buf = [], io_len = 0, io_align = MG_IO_SIZE\<rparr>,
     is_accepted = True, is_resp = False, is_closing = False, pfn_data = 0\<rparr>"

lemma sample_complete: "complete_request sample_request" "length (request_text sample_request) = 32"
proof -
  have "lookup_header (rq_headers sample_request) nm = None" if "length nm \<noteq> 4" for nm
    using that by (auto simp: sample_request_def same_nocase_def dest: arg_cong [of _ _ length])
  moreover have "\<not> same_nocase ''GET'' ''PUT'' \<and> \<not> same_nocase ''GET'' ''POST''"
    by (simp add: same_nocase_def mg_lower_def char_nat_def)
  ultimately show "complete_request sample_request"
    using sample_request_ok by (simp add: complete_request_def body_len_def request_text_def) (simp add: sample_request_def)
  show "length (request_text sample_request) = 32" by (simp add: request_text_def sample_request_ok(2)) (simp add: sample_request_def)
qed

lemma requests_answered_in_order_witness:
  "\<exists>c'. read_all (\<lambda>_. True) (HttpCallback (\<lambda>_. True) ok_handler) (replicate 64 1) (stream_of [sample_request, sample_request])
      (\<lparr>handleMap = [''/a'' \<mapsto> ()]\<rparr>, new_connection) = Some (Inr ((\<lparr>handleMap = [''/a'' \<mapsto> ()]\<rparr>, c'), [])) \<and> received c' = []"
proof -
  have "fresh_connection new_connection"
    by (simp add: fresh_connection_def new_connection_def io_ok_def received_def io_data_def)
  moreover have "length (stream_of [sample_request, sample_request]) \<le> length (replicate 64 (1::nat))"
    by (simp add: stream_of_def sample_complete(2))
  ultimately show ?thesis
    using requests_answered_in_order [OF refl ok_handler_answers, of "[sample_request, sample_request]" new_connection "replicate 64 1"
        "\<lparr>handleMap = [''/a'' \<mapsto> ()]\<rparr>"] sample_complete(1)
    by fastforce
qed

end
