(* ===== verification/HttpFaults.thy ===== *)
theory HttpFaults
  imports HttpServed
begin

text \<open>
  What the server makes of hostile and unlucky input, and the parameters of queries.
\<close>

section \<open>A negative length\<close>

text \<open>A request whose \<open>Content-Length\<close> is minus the length of its head.\<close>

definition endless_request :: "request \<Rightarrow> bool" where
  "endless_request r \<longleftrightarrow> request_ok r \<and> lookup_header (rq_headers r) ''Transfer-Encoding'' = None \<and>
     lookup_header (rq_headers r) ''Content-Length'' = Some (CHR ''-'' # print_num 10 (length (head_text r)))"

lemma endless_lengths:
  assumes "endless_request r" "length (head_text r) < 2 ^ 30"
  shows "body_len r = 2 ^ 64 - length (head_text r)" "message_len r = 0"
proof -
  let ?n = "length (head_text r)"
  have n: "5 \<le> ?n" using assms(1) request_line_skips(11) [of r] by (simp add: endless_request_def)
  have "mg_to64 (CHR ''-'' # print_num 10 ?n) = - int ?n"
    by (rule mg_to64_negative) (use assms(2) in simp)
  moreover have "to_size (- int ?n) = 2 ^ 64 - ?n"
  proof -
    have "int ?n mod 2 ^ 64 = int ?n" using assms(2) by simp
    moreover have "int ?n \<noteq> 0" using n by linarith
    ultimately have "(- int ?n) mod 2 ^ 64 = 2 ^ 64 - int ?n" by (simp only: zmod_zminus1_eq_if if_False)
    then show ?thesis using assms(2) by (simp add: to_size_def nat_diff_distrib)
  qed
  moreover have "2 ^ 64 - ?n \<noteq> size_max" using n assms(2) by simp
  ultimately show b: "body_len r = 2 ^ 64 - ?n"
    using assms by (simp add: body_len_def endless_request_def Let_def)
  have "int ?n + int (2 ^ 64 - ?n) = 2 ^ 64" using assms(2) by (simp add: of_nat_diff)
  then show "message_len r = 0"
    using assms by (simp add: message_len_def endless_request_def b to_size_def)
qed

text \<open>Each round finds the same request at the front of the buffer: the reply grows, and nothing is removed.\<close>

definition stuck :: "request \<Rightarrow> 'h http_server \<Rightarrow> 'h http_server \<times> mg_connection \<Rightarrow> bool" where
  "stuck r s sc \<longleftrightarrow> fst sc = s \<and> io_ok (recv (snd sc)) \<and> io_ok (send (snd sc)) \<and> \<not> is_resp (snd sc) \<and>
     (\<exists>rest p. received (snd sc) = head_text r @ rest \<and> length (received (snd sc)) < 2 ^ 30 \<and> p \<le> length rest \<and>
        pfn_data (snd sc) = word_of_nat p)"

lemma stuck_round:
  assumes r: "endless_request r" and h: "handleMap s (rq_path r) = None" and st: "stuck r s (s, c)" and mem: "mem = (\<lambda>_. True)"
  obtains hm c1 hm1 c2 k io where
    "io_buf (recv c) \<noteq> []" "0 < io_len (recv c)"
    "mg_http_parse (received c) = Inr (int (length (head_text r)), hm)" "0 < length (head_text r)" "\<not> is_resp c"
    "mg_is_chunked (received c) hm = Inr False"
    "deliver_normal_chunks (HttpCallback mem run) (s, c) (length (head_text r)) hm = Some (Inr ((s, c1), hm1, False))"
    "slen (message hm1) = 0"
    "HttpCallback mem run MG_EV_HTTP_MSG hm1 (s, if is_accepted c1 then c1\<lparr>is_resp := True\<rparr> else c1) = Some (Inr (s, c2))"
    "mg_iobuf_del (recv c2) 0 0 = Inr (k, io)" "stuck r s (s, c2\<lparr>recv := io\<rparr>)"
proof -
  let ?fn = "HttpCallback mem run" and ?h = "length (head_text r)"
  obtain rest p where c: "io_ok (recv c)" "io_ok (send c)" "\<not> is_resp c" "received c = head_text r @ rest"
    "length (received c) < 2 ^ 30" "p \<le> length rest" "pfn_data c = word_of_nat p"
    using st by (auto simp: stuck_def)
  have ok: "request_ok r" using r by (simp add: endless_request_def)
  have hl: "?h < 2 ^ 30" using c(4,5) by simp
  have hd: "0 < ?h" by (simp add: head_text_def)
  have len: "io_len (recv c) = ?h + length rest" using io_len_data [OF c(1)] c(4) by (simp add: received_def)
  have "length (head_text r @ rest) < 2 ^ 31" using c(4,5) by simp
  from parse_request [OF ok this] obtain hm where hm: "mg_http_parse (received c) = Inr (int ?h, hm)" "parsed (received c) r hm"
    unfolding c(4) by blast
  have b: "slen (body hm) = 2 ^ 64 - ?h" "slen (message hm) = 0"
    using hm(2) endless_lengths [OF r hl] by (simp_all add: parsed_def)
  have hok: "list_all header_ok (rq_headers r)" using ok by (simp add: request_ok_def)
  have ch: "mg_is_chunked (received c) hm = Inr False"
    using parsed_header [OF hm(2) hok, of "''Transfer-Encoding''"] r by (auto simp: endless_request_def mg_is_chunked_def)
  have "\<exists>k. deliver_normal_chunks ?fn (s, c) ?h hm =
      Some (Inr ((s, c\<lparr>pfn_data := word_of_nat (if slen (body hm) \<le> length rest then 0 else length rest)\<rparr>), hm\<lparr>chunk := k\<rparr>, False))"
    by (rule deliver_normal_reads [where fn = ?fn, OF chunk_ignored c(7)]) (use c(4,5,6) b(1) len in simp_all)
  moreover have "\<not> slen (body hm) \<le> length rest" using b(1) c(4,5) by simp
  ultimately obtain q where d: "deliver_normal_chunks ?fn (s, c) ?h hm =
      Some (Inr ((s, c\<lparr>pfn_data := word_of_nat (length rest)\<rparr>), hm\<lparr>chunk := q\<rparr>, False))" by auto
  define c1 where "c1 = c\<lparr>pfn_data := word_of_nat (length rest)\<rparr>"
  define c1' where "c1' = (if is_accepted c1 then c1\<lparr>is_resp := True\<rparr> else c1)"
  have c1: "received c1' = received c" "recv c1' = recv c" "send c1' = send c" "pfn_data c1' = word_of_nat (length rest)"
    by (simp_all add: c1_def c1'_def received_def)
  have p1: "parsed (received c1') r (hm\<lparr>chunk := q\<rparr>)" using hm(2) by (simp add: c1 parsed_def split: option.splits)
  have ok1: "io_ok (send c1')" using c(2) c1(3) by simp
  have l1: "length (received c1') < 2 ^ 30" using c(5) c1(1) by simp
  note unfold = http_callback_parsed [OF p1 l1, of mem run s]
  note bad = bad_request_replies [OF mem ok1]
  have "\<exists>io. ?fn MG_EV_HTTP_MSG (hm\<lparr>chunk := q\<rparr>) (s, c1') = Some (Inr (s, c1'\<lparr>send := io, is_resp := False\<rparr>)) \<and> io_ok io"
  proof (cases "fst (query_of r)")
    case True
    with bad [of url_error] h show ?thesis unfolding unfold by auto
  next
    case False
    with bad [of query_error] show ?thesis unfolding unfold by auto
  qed
  then obtain io where io: "?fn MG_EV_HTTP_MSG (hm\<lparr>chunk := q\<rparr>) (s, c1') = Some (Inr (s, c1'\<lparr>send := io, is_resp := False\<rparr>))" "io_ok io"
    by blast
  obtain io' where io': "mg_iobuf_del (recv c) 0 0 = Inr (0, io')" "io_data io' = received c" "io_ok io'"
    using mg_iobuf_del_ok [OF c(1), of 0 0] len c(4,5) by (auto simp: received_def)
  have stuck: "stuck r s (s, c1'\<lparr>send := io, is_resp := False, recv := io'\<rparr>)"
    unfolding stuck_def using io(2) io' c(4,5) c1 by (auto simp: received_def)
  show thesis
  proof (rule that [OF _ _ hm(1) hd c(3) ch])
    show "io_buf (recv c) \<noteq> []" "0 < io_len (recv c)" using c(1) len hd by (auto simp: io_ok_def)
    show "deliver_normal_chunks ?fn (s, c) ?h hm = Some (Inr ((s, c1), hm\<lparr>chunk := q\<rparr>, False))" using d by (simp add: c1_def)
    show "slen (message (hm\<lparr>chunk := q\<rparr>)) = 0" using b(2) by simp
    show "?fn MG_EV_HTTP_MSG (hm\<lparr>chunk := q\<rparr>) (s, if is_accepted c1 then c1\<lparr>is_resp := True\<rparr> else c1) =
        Some (Inr (s, c1'\<lparr>send := io, is_resp := False\<rparr>))" using io(1) by (simp add: c1'_def)
    show "mg_iobuf_del (recv (c1'\<lparr>send := io, is_resp := False\<rparr>)) 0 0 = Inr (0, io')" using io'(1) c1(2) by simp
    show "stuck r s (s, c1'\<lparr>send := io, is_resp := False\<rparr>\<lparr>recv := io'\<rparr>)" using stuck .
  qed
qed

lemma stuck_never_returns:
  assumes r: "endless_request r" and h: "handleMap s (rq_path r) = None" and mem: "mem = (\<lambda>_. True)" and st: "stuck r s (s, c)"
  shows "http_cb_loop (HttpCallback mem run) MG_EV_READ (s, c) = None"
proof (rule ccontr)
  let ?fn = "HttpCallback mem run"
  assume "http_cb_loop ?fn MG_EV_READ (s, c) \<noteq> None"
  then obtain res where res: "http_cb_loop ?fn MG_EV_READ (s, c) = Some res" by blast
  have "\<not> (?fn = ?fn \<and> MG_EV_READ = MG_EV_READ \<and> stuck r s (s, c))"
  proof (induct rule: http_cb_loop.raw_induct [where P = "\<lambda>fn ev sc (_ :: ('a http_server \<times> mg_connection) res). \<not> (fn = ?fn \<and> ev = MG_EV_READ \<and> stuck r s sc)", OF _ res])
    case (1 f fn ev sc y)
    show ?case
    proof
      assume a: "fn = ?fn \<and> ev = MG_EV_READ \<and> stuck r s sc"
      then obtain c where sc: "sc = (s, c)" "stuck r s (s, c)" by (cases sc) (auto simp: stuck_def)
      from stuck_round [OF r h sc(2) mem, of run] obtain hm c1 hm1 c2 k io where m:
        "io_buf (recv c) \<noteq> []" "0 < io_len (recv c)"
        "mg_http_parse (received c) = Inr (int (length (head_text r)), hm)" "0 < length (head_text r)" "\<not> is_resp c"
        "mg_is_chunked (received c) hm = Inr False"
        "deliver_normal_chunks ?fn (s, c) (length (head_text r)) hm = Some (Inr ((s, c1), hm1, False))"
        "slen (message hm1) = 0"
        "?fn MG_EV_HTTP_MSG hm1 (s, if is_accepted c1 then c1\<lparr>is_resp := True\<rparr> else c1) = Some (Inr (s, c2))"
        "mg_iobuf_del (recv c2) 0 0 = Inr (k, io)" "stuck r s (s, c2\<lparr>recv := io\<rparr>)" .
      have "f ?fn MG_EV_READ (s, c2\<lparr>recv := io\<rparr>) = Some y"
        using "1"(2) a sc(1) m(1-10) by (simp add: Let_def)
      from "1"(1) [OF this] m(11) show False by simp
    qed
  qed
  with st show False by simp
qed

section \<open>A chunk of almost all of memory\<close>

abbreviation huge_chunk :: string where
  "huge_chunk \<equiv> ''FFFFFFFFFFFFFFFE''"

lemma huge_chunk_size: "mg_unhexn huge_chunk = word_of_nat (2 ^ 64 - 2)"
proof -
  have "ucast (mg_unhex_nimble CHR ''F'') = (15 :: 64 word)" "ucast (mg_unhex_nimble CHR ''E'') = (14 :: 64 word)"
    by (simp_all add: mg_unhex_nimble_def char_nat_def less_eq_char_def)
  then show ?thesis by (simp add: mg_unhexn_def)
qed

text \<open>The length of the chunk and of its line overflows \<open>size_t\<close>: the chunk counts as received.\<close>

lemma getchunk_overflows:
  assumes "18 \<le> len"
  shows "getchunk (huge_chunk @ CRLF @ rest) len = Inr (Some (18, 2 ^ 64 - 2))"
proof -
  have l: "length (huge_chunk @ CRLF) = 18" by simp
  have "take len (huge_chunk @ CRLF) = huge_chunk @ CRLF" using assms by (intro take_all) (simp only: l)
  then have "take len ((huge_chunk @ CRLF) @ rest) = (huge_chunk @ CRLF) @ take (len - 18) rest"
    by (simp only: take_append l)
  then have "take len (huge_chunk @ CRLF @ rest) = huge_chunk @ CRLF @ take (len - 18) rest"
    by (simp only: append_assoc)
  then have "takeWhile (\<lambda>c. c \<noteq> CR \<and> c \<noteq> newline) (take len (huge_chunk @ CRLF @ rest)) = huge_chunk" by simp
  moreover have "unat (word_of_nat (2 ^ 64 - 2) :: 64 word) = 2 ^ 64 - 2" by (simp add: unat_of_nat)
  moreover have "take 16 (huge_chunk @ CRLF @ rest) = huge_chunk" by simp
  ultimately show ?thesis
    using assms huge_chunk_size by (simp add: getchunk_def Let_def to_size_def arr_read_def)
qed

lemma lookup_header_in: "lookup_header hs nm = Some v \<Longrightarrow> \<exists>k. (k, v) \<in> set hs"
  by (induction hs nm rule: lookup_header.induct) (auto split: if_splits)

lemma is_chunked:
  assumes "parsed buf r hm" "request_ok r" "length buf < 2 ^ 31"
    and te: "lookup_header (rq_headers r) ''Transfer-Encoding'' = Some v" "same_nocase v ''chunked''"
  shows "mg_is_chunked buf hm = Inr True"
proof -
  have hok: "list_all header_ok (rq_headers r)" using assms(2) by (simp add: request_ok_def)
  obtain k where "(k, v) \<in> set (rq_headers r)" using lookup_header_in [OF te(1)] by blast
  then have "NUL \<notin> set v" using hok field_ok_plain [of v NUL] by (auto simp: list_all_iff)
  moreover obtain q where q: "mg_http_get_header buf hm ''Transfer-Encoding'' = Inr (Some q)" "reads_part buf q v"
    using parsed_header [OF assms(1) hok, of "''Transfer-Encoding''"] te(1) by auto
  ultimately obtain x where "mg_vcasecmp buf q ''chunked'' = Inr x" "x = 0 \<longleftrightarrow> same_nocase v ''chunked''"
    using mg_vcasecmp_decides [of q buf "''chunked''"] reads_part_cut [OF q(2)] reads_part_small [OF q(2) assms(3)] by auto
  with q(1) te(2) show ?thesis by (simp add: mg_is_chunked_def)
qed

lemma huge_chunk_overruns:
  assumes r: "request_ok r" "lookup_header (rq_headers r) ''Transfer-Encoding'' = Some v" "same_nocase v ''chunked''"
    and c: "received c = head_text r @ huge_chunk @ CRLF @ rest" "length (received c) < 2 ^ 30" "io_ok (recv c)"
      "length (io_buf (recv c)) < 2 ^ 63" "\<not> is_resp c" "pfn_data c = 0"
  shows "http_cb_loop fn MG_EV_READ (s, c) = Some (Inl UB_Bounds)"
proof -
  let ?h = "length (head_text r)"
  have "length (head_text r @ huge_chunk @ CRLF @ rest) < 2 ^ 31" using c(1,2) by simp
  from parse_request [OF r(1) this] obtain hm where hm: "mg_http_parse (received c) = Inr (int ?h, hm)" "parsed (received c) r hm"
    unfolding c(1) by blast
  have ch: "mg_is_chunked (received c) hm = Inr True" using is_chunked [OF hm(2) r(1) _ r(2,3)] c(2) by simp
  have hd: "0 < ?h" by (simp add: head_text_def)
  have len: "io_len (recv c) = ?h + (18 + length rest)" using io_len_data [OF c(3)] c(1) by (simp add: received_def)
  have buf: "io_buf (recv c) \<noteq> []" "0 < io_len (recv c)" using c(3) len hd by (auto simp: io_ok_def)
  have "drop (?h + 0) (received c) = huge_chunk @ CRLF @ rest" by (simp add: c(1))
  moreover have "getchunk (huge_chunk @ CRLF @ rest) (18 + length rest - 0) = Inr (Some (18, 2 ^ 64 - 2))"
    by (rule getchunk_overflows) simp
  moreover have "mem_move (io_buf (recv c)) (?h + 0) (?h + 0 + 18) (2 ^ 64 - 2) = Inl UB_Bounds"
    using c(4) by (simp add: mem_move_def mem_copy_def)
  ultimately have "chunk_loop fn (s, c) ?h hm ?h (18 + length rest) 0 0 0 = Some (Inl UB_Bounds)"
    by (subst chunk_loop.simps) (simp only: prod.sel sum.case option.case prod.case Let_def)
  then have "deliver_chunked_chunks fn (s, c) ?h hm = Some (Inl UB_Bounds)"
    using c(6) len by (simp add: deliver_chunked_chunks_def)
  then show ?thesis
    using buf hm(1) hd c(5) ch by (subst http_cb_loop.simps) (simp add: Let_def)
qed

section \<open>Replies are formats\<close>

lemma reply_fails:
  assumes "mg_vxprintf fmt ap = Inl e"
  shows "mg_http_reply mem c 200 [] fmt ap = Inl e"
proof -
  have code: "mg_lld (scast (word_of_int 200 :: 32 word)) True False = Inr (print_num 10 200)"
    by (auto simp: mg_lld_def lld_text_print)
  have "NUL \<notin> set (mg_http_status_code_str 200)" by (simp add: mg_http_status_code_str_def)
  from reply_format_prints [OF this _ code, of "[]"] assms show ?thesis
    by (simp add: mg_http_reply_def mg_printf_def iobuf_printf_def)
qed

text \<open>C24: 
  The text of a reply is used as a format: with a conversion in it an argument is read that was never passed, and with a
  percent sign at its end the format is read beyond its terminator. Without percent signs it is the body of the reply.
\<close>

theorem reply_is_a_format:
  assumes "mem = (\<lambda>_. True)" "io_ok (send c)" "CHR ''%'' \<notin> set t" "NUL \<notin> set t" "length t < 10 ^ 10"
  shows "SuccessRequest mem c (t @ ''%s'' @ u) = Inl UB_Args \<and> SuccessRequest mem c (t @ ''%'') = Inl UB_Bounds \<and>
    (\<exists>c'. SuccessRequest mem c t = Inr c' \<and> \<not> is_resp c' \<and>
       io_data (send c') = io_data (send c) @ reply_head 200 [] (pad_num 10 10 (length t)) @ t)"
proof (intro conjI)
  have "fmt_convert (CHR ''s'' # r) [] = Inl UB_Args" for r
    by (cases r) (simp_all add: fmt_convert_def fmt_prec_def is_digit_def char_nat_def fmt_conversion_def)
  then have "mg_vxprintf (t @ ''%s'' @ u @ [NUL]) [] = Inl UB_Args"
    using assms(3,4) by (simp add: vxprintf_plain mg_vxprintf.simps)
  then show "SuccessRequest mem c (t @ ''%s'' @ u) = Inl UB_Args" by (simp add: SuccessRequest_def reply_fails)
  have "fmt_convert [NUL] [] = Inr ([CHR ''%'', NUL], [], [])"
    by (simp add: fmt_convert_def fmt_prec_def is_digit_def char_nat_def fmt_conversion_def)
  then have "mg_vxprintf (t @ [CHR ''%'', NUL]) [] = Inl UB_Bounds"
    using assms(3,4) by (simp add: vxprintf_plain mg_vxprintf.simps)
  then show "SuccessRequest mem c (t @ ''%'') = Inl UB_Bounds" by (simp add: SuccessRequest_def reply_fails)
  show "\<exists>c'. SuccessRequest mem c t = Inr c' \<and> \<not> is_resp c' \<and>
       io_data (send c') = io_data (send c) @ reply_head 200 [] (pad_num 10 10 (length t)) @ t"
    using plain_reply [OF assms(1,2,4,3,5), of 200] by (auto simp: SuccessRequest_def)
qed

lemma reply_is_a_format_witness:
  "SuccessRequest (\<lambda>_. True) new_connection ''100%'' = Inl UB_Bounds \<and> SuccessRequest (\<lambda>_. True) new_connection ''10%s'' = Inl UB_Args"
proof -
  have "io_ok (send new_connection)" by (simp add: new_connection_def io_ok_def)
  then show ?thesis
    using reply_is_a_format [OF refl, of new_connection "''100''" "[]"] reply_is_a_format [OF refl, of new_connection "''10''" "[]"] by simp
qed

section \<open>Requests that stop the server\<close>

text \<open>C22: 
  A request whose \<open>Content-Length\<close> is minus the length of its head, for a path without a handler, is answered again and
  again: the read of the connection, and with it the server, never returns.
\<close>

theorem negative_length_never_returns:
  assumes "request_ok r" "lookup_header (rq_headers r) ''Transfer-Encoding'' = None"
    "lookup_header (rq_headers r) ''Content-Length'' = Some (CHR ''-'' # print_num 10 (length (head_text r)))"
    "handleMap s (rq_path r) = None" "received c = head_text r @ rest" "length (received c) < 2 ^ 30"
    "io_ok (recv c)" "io_ok (send c)" "\<not> is_resp c" "pfn_data c = 0"
  shows "http_cb (HttpCallback (\<lambda>_. True) run) MG_EV_READ (s, c) = None"
proof -
  have "endless_request r" using assms(1-3) by (simp add: endless_request_def)
  moreover have "stuck r s (s, c)"
    using assms(5-10) by (auto simp: stuck_def intro!: exI [of _ rest] exI [of _ 0])
  ultimately show ?thesis using stuck_never_returns [OF _ assms(4) refl] by (simp add: http_cb_def)
qed

definition endless_sample :: request where
  "endless_sample = \<lparr>rq_method = ''GET'', rq_path = ''/'', rq_query = None, rq_proto = ''HTTP/1.1'',
     rq_headers = [(''Content-Length'', ''-39'')], rq_body = []\<rparr>"

lemma negative_length_never_returns_witness:
  "http_cb (HttpCallback (\<lambda>_. True) (\<lambda>_ _ _. None)) MG_EV_READ (\<lparr>handleMap = Map.empty\<rparr>,
     new_connection\<lparr>recv := \<lparr>io_buf = head_text endless_sample, io_len = 39, io_align = MG_IO_SIZE\<rparr>\<rparr>) = None"
proof -
  have l: "length (head_text endless_sample) = 39"
    by (simp add: endless_sample_def head_text_def request_line_def header_line_def target_def)
  have n: "print_num 10 39 = ''39''" by code_simp
  have "request_ok endless_sample"
    by (simp add: request_ok_def endless_sample_def target_def token_ok_def char_nat_def)
  moreover have "lookup_header (rq_headers endless_sample) ''Transfer-Encoding'' = None"
    by (auto simp: endless_sample_def same_nocase_def)
  moreover have "lookup_header (rq_headers endless_sample) ''Content-Length'' = Some (CHR ''-'' # print_num 10 (length (head_text endless_sample)))"
    unfolding l n by (simp add: endless_sample_def)
  ultimately show ?thesis
    by (rule negative_length_never_returns [where rest = "[]"])
      (simp_all add: new_connection_def received_def io_data_def io_ok_def l)
qed

text \<open>C23: 
  In a message with chunks, a chunk that announces \<open>2 ^ 64 - 2\<close> bytes counts as received, because the sum of the lengths
  overflows, and its bytes are moved far beyond the buffer.
\<close>

theorem huge_chunk_overruns_buffer:
  assumes "request_ok r" "lookup_header (rq_headers r) ''Transfer-Encoding'' = Some v" "same_nocase v ''chunked''"
    "received c = head_text r @ ''FFFFFFFFFFFFFFFE'' @ CRLF @ rest" "length (received c) < 2 ^ 30" "io_ok (recv c)"
    "length (io_buf (recv c)) < 2 ^ 63" "\<not> is_resp c" "pfn_data c = 0"
  shows "http_cb fn MG_EV_READ (s, c) = Some (Inl UB_Bounds)"
  using huge_chunk_overruns [OF assms] by (simp add: http_cb_def)

definition chunked_sample :: request where
  "chunked_sample = \<lparr>rq_method = ''PUT'', rq_path = ''/'', rq_query = None, rq_proto = ''HTTP/1.1'',
     rq_headers = [(''Transfer-Encoding'', ''chunked'')], rq_body = []\<rparr>"

lemma huge_chunk_overruns_buffer_witness:
  "http_cb (\<lambda>_ _ sc. Some (Inr sc)) MG_EV_READ ((),
     new_connection\<lparr>recv := \<lparr>io_buf = head_text chunked_sample @ ''FFFFFFFFFFFFFFFE'' @ CRLF, io_len = 64, io_align = MG_IO_SIZE\<rparr>\<rparr>) =
   Some (Inl UB_Bounds)"
proof -
  have l: "length (head_text chunked_sample) = 46"
    by (simp add: chunked_sample_def head_text_def request_line_def header_line_def target_def)
  have "request_ok chunked_sample"
    by (simp add: request_ok_def chunked_sample_def target_def token_ok_def char_nat_def)
  moreover have "lookup_header (rq_headers chunked_sample) ''Transfer-Encoding'' = Some ''chunked''"
    by (simp add: chunked_sample_def)
  ultimately show ?thesis
    by (rule huge_chunk_overruns_buffer [where rest = "[]", OF _ _ same_nocase_refl])
      (simp_all add: new_connection_def received_def io_data_def io_ok_def l)
qed

end
