(* ===== verification/Arm64Codec.thy ===== *)
theory Arm64Codec
  imports Prelude
begin

text \<open>
  The bit macros of \<open>third/dobby/source/include/utility_macro.h\<close> and the encoders and decoders of
  PC-relative operands of \<open>InstructionRelocation/arm64/inst_decode_encode_kit.h\<close>. An
  instruction is a \<open>32 word\<close>; an \<open>int64_t\<close>, a \<open>long\<close> and an address are a \<open>64 word\<close>.
\<close>

section \<open>The macros\<close>

definition submask :: "nat \<Rightarrow> 64 word" where
  "submask x = push_bit (x + 1) 1 - 1"

definition bits :: "'a::len word \<Rightarrow> nat \<Rightarrow> nat \<Rightarrow> 64 word" where
  "bits obj st fn = ucast (drop_bit st obj) AND submask (fn - st)"

text \<open>The same macro applied to an \<open>int32_t\<close>: the shift is arithmetic and the conversion to \<open>long\<close>
  extends the sign.\<close>

definition bits_i32 :: "32 word \<Rightarrow> nat \<Rightarrow> nat \<Rightarrow> 64 word" where
  "bits_i32 obj st fn = scast (signed_drop_bit st obj) AND submask (fn - st)"

definition bit_of :: "'a::len word \<Rightarrow> nat \<Rightarrow> 'a word" where
  "bit_of obj st = drop_bit st obj AND 1"

definition set_bit_to :: "32 word \<Rightarrow> nat \<Rightarrow> 32 word \<Rightarrow> 32 word" where
  "set_bit_to obj st b = (NOT (push_bit st 1) AND obj) OR push_bit st b"

definition set_bits :: "32 word \<Rightarrow> nat \<Rightarrow> nat \<Rightarrow> 32 word \<Rightarrow> 32 word" where
  "set_bits obj st fn v = ucast (NOT (push_bit st (submask (fn - st))) AND ucast obj) OR push_bit st v"

definition LeftShift :: "'a::len word \<Rightarrow> nat \<Rightarrow> nat \<Rightarrow> 'a word" where
  "LeftShift a b c = push_bit c (a AND (push_bit b 1 - 1))"

definition ALIGN_FLOOR :: "64 word \<Rightarrow> 64 word \<Rightarrow> 64 word" where
  "ALIGN_FLOOR address unit = address AND NOT (unit - 1)"

definition ALIGN_CEIL :: "64 word \<Rightarrow> 64 word \<Rightarrow> 64 word" where
  "ALIGN_CEIL address unit = (address + unit - 1) AND NOT (unit - 1)"

section \<open>Operands\<close>

definition SignExtend :: "64 word \<Rightarrow> nat \<Rightarrow> 64 word" where
  "SignExtend x m =
     (let sign_bit = bit_of x (m - 1);
          sign_mask = 0 - sign_bit
      in x OR push_bit m (drop_bit m sign_mask))"

definition decode_imm14_offset :: "32 word \<Rightarrow> 64 word" where
  "decode_imm14_offset instr =
     (let imm14 = bits instr 5 18; offset = push_bit 2 imm14 in SignExtend offset (2 + 14))"

definition encode_imm14_offset :: "32 word \<Rightarrow> 64 word \<Rightarrow> 32 word" where
  "encode_imm14_offset instr offset =
     (let imm14 = ucast (bits (signed_drop_bit 2 offset) 0 13) in set_bits instr 5 18 imm14)"

definition decode_imm19_offset :: "32 word \<Rightarrow> 64 word" where
  "decode_imm19_offset instr =
     (let imm19 = bits instr 5 23; offset = push_bit 2 imm19 in SignExtend offset (2 + 19))"

definition encode_imm19_offset :: "32 word \<Rightarrow> 64 word \<Rightarrow> 32 word" where
  "encode_imm19_offset instr offset =
     (let imm19 = ucast (bits (signed_drop_bit 2 offset) 0 18) in set_bits instr 5 23 imm19)"

definition decode_imm26_offset :: "32 word \<Rightarrow> 64 word" where
  "decode_imm26_offset instr =
     (let imm26 = bits instr 0 25; offset = push_bit 2 imm26 in SignExtend offset (2 + 26))"

definition encode_imm26_offset :: "32 word \<Rightarrow> 64 word \<Rightarrow> 32 word" where
  "encode_imm26_offset instr offset =
     (let imm26 = ucast (bits (signed_drop_bit 2 offset) 0 25) in set_bits instr 0 25 imm26)"

text \<open>The bit fields of the \<open>struct\<close> in the ADR decoder, laid out from the least significant bit.\<close>

record adr_fields =
  f_Rd :: "32 word"
  f_immhi :: "32 word"
  f_dummy_0 :: "32 word"
  f_immlo :: "32 word"
  f_op :: "32 word"

definition to_adr_fields :: "32 word \<Rightarrow> adr_fields" where
  "to_adr_fields w =
     \<lparr>f_Rd = take_bit 5 w, f_immhi = take_bit 19 (drop_bit 5 w), f_dummy_0 = take_bit 5 (drop_bit 24 w),
      f_immlo = take_bit 2 (drop_bit 29 w), f_op = take_bit 1 (drop_bit 31 w)\<rparr>"

definition of_adr_fields :: "adr_fields \<Rightarrow> 32 word" where
  "of_adr_fields r =
     f_Rd r OR push_bit 5 (f_immhi r) OR push_bit 24 (f_dummy_0 r) OR push_bit 29 (f_immlo r) OR
     push_bit 31 (f_op r)"

definition decode_immhi_immlo_offset :: "32 word \<Rightarrow> 64 word" where
  "decode_immhi_immlo_offset instr =
     (let f = to_adr_fields instr;
          imm = ucast (f_immlo f + push_bit 2 (f_immhi f))
      in SignExtend imm (2 + 19))"

definition encode_immhi_immlo_offset :: "32 word \<Rightarrow> 64 word \<Rightarrow> 32 word" where
  "encode_immhi_immlo_offset instr offset =
     (let f = to_adr_fields instr in
      of_adr_fields (f\<lparr>f_immlo := take_bit 2 (ucast (bits offset 0 2)),
                       f_immhi := take_bit 19 (ucast (bits offset 2 (2 + 19)))\<rparr>))"

definition decode_immhi_immlo_zero12_offset :: "32 word \<Rightarrow> 64 word" where
  "decode_immhi_immlo_zero12_offset instr = push_bit 12 (decode_immhi_immlo_offset instr)"

definition encode_immhi_immlo_zero12_offset :: "32 word \<Rightarrow> 64 word \<Rightarrow> 32 word" where
  "encode_immhi_immlo_zero12_offset instr offset =
     encode_immhi_immlo_offset instr (signed_drop_bit 12 offset)"

definition decode_rt :: "32 word \<Rightarrow> 32 word" where
  "decode_rt instr = ucast (bits instr 0 4)"

definition decode_rd :: "32 word \<Rightarrow> 32 word" where
  "decode_rd instr = ucast (bits instr 0 4)"

section \<open>The macros bit by bit\<close>

lemma bit_submask [simp]: "bit (submask x) i \<longleftrightarrow> i < 64 \<and> i \<le> x"
proof -
  have "submask x = mask (x + 1)" by (simp add: submask_def mask_eq_exp_minus_1 push_bit_eq_mult)
  then show ?thesis by (auto simp: bit_mask_iff)
qed

lemma bits_32: "bits (obj :: 32 word) st fn = ucast (take_bit (Suc (fn - st)) (drop_bit st obj))"
  by (rule bit_word_eqI) (auto simp: bits_def bit_simps)

lemma bits_64: "bits (obj :: 64 word) st fn = take_bit (Suc (fn - st)) (drop_bit st obj)"
  by (rule bit_word_eqI) (auto simp: bits_def bit_simps)

lemma bits_i32_eq: "fn < 32 \<Longrightarrow> st \<le> fn \<Longrightarrow> bits_i32 obj st fn = bits obj st fn"
  by (rule bit_word_eqI) (auto simp: bits_def bits_i32_def bit_simps)

lemma bit_of_eq: "bit_of obj st = of_bool (bit obj st)"
  by (rule bit_word_eqI) (auto simp: bit_of_def bit_simps)

lemma LeftShift_eq: "LeftShift (a :: 'a::len word) b c = push_bit c (take_bit b a)"
  by (simp add: LeftShift_def take_bit_eq_mask mask_eq_exp_minus_1 push_bit_eq_mult ac_simps)

lemma bit_set_bits:
  "st \<le> fn \<Longrightarrow> i < 32 \<Longrightarrow>
   bit (set_bits obj st fn v) i \<longleftrightarrow> (if st \<le> i \<and> i \<le> fn then bit v (i - st) else bit obj i \<or> (st \<le> i \<and> bit v (i - st)))"
  by (auto simp: set_bits_def bit_simps)

lemma bit_SignExtend:
  "0 < m \<Longrightarrow> i < 64 \<Longrightarrow> bit (SignExtend x m) i \<longleftrightarrow> bit x i \<or> (m \<le> i \<and> bit x (m - 1))"
  by (auto simp: SignExtend_def bit_of_eq bit_simps Let_def)

section \<open>What the decoders compute\<close>

text \<open>The operand of the architecture: a field of the instruction, its sign extended.\<close>

lemma decode_imm14: "decode_imm14_offset w = push_bit 2 (scast (ucast (drop_bit 5 w) :: 14 word))"
proof (rule bit_word_eqI)
  show "bit (decode_imm14_offset w) n = bit (push_bit 2 (scast (ucast (drop_bit 5 w) :: 14 word)) :: 64 word) n"
    if "n < LENGTH(64)" for n
    using that by (cases "n = 15")
      (auto simp: decode_imm14_offset_def Let_def bit_SignExtend bits_32 bit_simps min_def)
qed

lemma decode_imm19: "decode_imm19_offset w = push_bit 2 (scast (ucast (drop_bit 5 w) :: 19 word))"
proof (rule bit_word_eqI)
  show "bit (decode_imm19_offset w) n = bit (push_bit 2 (scast (ucast (drop_bit 5 w) :: 19 word)) :: 64 word) n"
    if "n < LENGTH(64)" for n
    using that by (cases "n = 20")
      (auto simp: decode_imm19_offset_def Let_def bit_SignExtend bits_32 bit_simps min_def)
qed

lemma decode_imm26: "decode_imm26_offset w = push_bit 2 (scast (ucast w :: 26 word))"
proof (rule bit_word_eqI)
  show "bit (decode_imm26_offset w) n = bit (push_bit 2 (scast (ucast w :: 26 word)) :: 64 word) n"
    if "n < LENGTH(64)" for n
    using that by (cases "n = 27")
      (auto simp: decode_imm26_offset_def Let_def bit_SignExtend bits_32 bit_simps min_def)
qed

lemma adr_imm_plus:
  "f_immlo (to_adr_fields w) + push_bit 2 (f_immhi (to_adr_fields w)) =
   take_bit 2 (drop_bit 29 w) OR push_bit 2 (take_bit 19 (drop_bit 5 w))"
proof -
  have "take_bit 2 (drop_bit 29 w) AND push_bit 2 (take_bit 19 (drop_bit 5 w)) = 0"
    by (rule bit_word_eqI) (auto simp: bit_simps)
  then show ?thesis by (simp add: to_adr_fields_def disjunctive_add_eq_or)
qed

lemma decode_adr:
  "decode_immhi_immlo_offset w =
   scast (ucast (take_bit 2 (drop_bit 29 w) OR push_bit 2 (take_bit 19 (drop_bit 5 w))) :: 21 word)"
proof (rule bit_word_eqI)
  show "bit (decode_immhi_immlo_offset w) n =
    bit (scast (ucast (take_bit 2 (drop_bit 29 w) OR push_bit 2 (take_bit 19 (drop_bit 5 w))) :: 21 word) :: 64 word) n"
    if "n < LENGTH(64)" for n
    using that unfolding decode_immhi_immlo_offset_def Let_def adr_imm_plus
    by (cases "n = 20") (auto simp: bit_SignExtend bit_simps min_def)
qed

lemma Suc_Suc_minus: "\<not> n \<le> Suc 0 \<Longrightarrow> Suc (Suc (n - 2)) = n"
  by simp

text \<open>An operand written by an encoder is read back, and the rest of the instruction stays.\<close>

lemma encode_imm14_bits:
  "i < 32 \<Longrightarrow> bit (encode_imm14_offset w off) i = (if 5 \<le> i \<and> i \<le> 18 then bit off (i - 5 + 2) else bit w i)"
  by (auto simp: encode_imm14_offset_def Let_def bit_set_bits bits_64 bit_simps min_def)

lemma encode_imm19_bits:
  "i < 32 \<Longrightarrow> bit (encode_imm19_offset w off) i = (if 5 \<le> i \<and> i \<le> 23 then bit off (i - 5 + 2) else bit w i)"
  by (auto simp: encode_imm19_offset_def Let_def bit_set_bits bits_64 bit_simps min_def)

lemma encode_imm26_bits:
  "i < 32 \<Longrightarrow> bit (encode_imm26_offset w off) i = (if i \<le> 25 then bit off (i + 2) else bit w i)"
  by (auto simp: encode_imm26_offset_def Let_def bit_set_bits bits_64 bit_simps min_def)

lemma encode_adr_bits:
  "i < 32 \<Longrightarrow> bit (encode_immhi_immlo_offset w off) i =
     (if 29 \<le> i \<and> i \<le> 30 then bit off (i - 29) else if 5 \<le> i \<and> i \<le> 23 then bit off (i - 5 + 2) else bit w i)"
  by (cases "i = 31") (auto simp: encode_immhi_immlo_offset_def of_adr_fields_def to_adr_fields_def Let_def
      bits_64 bit_simps min_def simp flip: bit_iff_odd_drop_bit)

lemma encode_imm14_decode:
  "decode_imm14_offset (encode_imm14_offset w off) = push_bit 2 (scast (ucast (drop_bit 2 off) :: 14 word))"
  unfolding decode_imm14
  by (rule arg_cong [where f = "push_bit 2"], rule arg_cong [where f = scast], rule bit_word_eqI)
    (auto simp: encode_imm14_bits bit_simps)

lemma encode_imm19_decode:
  "decode_imm19_offset (encode_imm19_offset w off) = push_bit 2 (scast (ucast (drop_bit 2 off) :: 19 word))"
  unfolding decode_imm19
  by (rule arg_cong [where f = "push_bit 2"], rule arg_cong [where f = scast], rule bit_word_eqI)
    (auto simp: encode_imm19_bits bit_simps)

lemma encode_imm26_decode:
  "decode_imm26_offset (encode_imm26_offset w off) = push_bit 2 (scast (ucast (drop_bit 2 off) :: 26 word))"
  unfolding decode_imm26
  by (rule arg_cong [where f = "push_bit 2"], rule arg_cong [where f = scast], rule bit_word_eqI)
    (auto simp: encode_imm26_bits bit_simps)

lemma encode_adr_decode:
  "decode_immhi_immlo_offset (encode_immhi_immlo_offset w off) = scast (ucast off :: 21 word)"
  unfolding decode_adr
  by (rule arg_cong [where f = scast], rule bit_word_eqI)
    (auto simp: encode_adr_bits bit_simps Suc_Suc_minus)

lemma ucast_drop_push:
  fixes k :: "'a::len word"
  assumes "LENGTH('a) \<le> 62"
  shows "ucast (drop_bit 2 (push_bit 2 (scast k) :: 64 word)) = k"
  by (rule bit_word_eqI) (use assms in \<open>auto simp: bit_simps min_absorb2\<close>)

lemma ucast_scast_small:
  fixes k :: "21 word"
  shows "ucast (scast k :: 64 word) = k"
  by (rule bit_word_eqI) (auto simp: bit_simps min_absorb2)

section \<open>Properties\<close>

text \<open>C30: every operand an instruction can hold, written by the encoder of its kind, is read back by
  the decoder (branch offsets of 14, 19 and 26 bits times four, ADR offsets of 21 bits, ADRP
  offsets of 21 bits times 4096), and encoding an operand keeps all other bits of the
  instruction.\<close>

theorem operand_roundtrip:
  fixes k14 :: "14 word" and k19 :: "19 word" and k26 :: "26 word" and k21 :: "21 word"
  shows "decode_imm14_offset (encode_imm14_offset w (push_bit 2 (scast k14))) = push_bit 2 (scast k14) \<and>
    decode_imm19_offset (encode_imm19_offset w (push_bit 2 (scast k19))) = push_bit 2 (scast k19) \<and>
    decode_imm26_offset (encode_imm26_offset w (push_bit 2 (scast k26))) = push_bit 2 (scast k26) \<and>
    decode_immhi_immlo_offset (encode_immhi_immlo_offset w (scast k21)) = scast k21 \<and>
    decode_immhi_immlo_zero12_offset (encode_immhi_immlo_zero12_offset w (push_bit 12 (scast k21))) =
      push_bit 12 (scast k21) \<and>
    encode_imm14_offset w off AND NOT (push_bit 5 (mask 14)) = w AND NOT (push_bit 5 (mask 14)) \<and>
    encode_imm19_offset w off AND NOT (push_bit 5 (mask 19)) = w AND NOT (push_bit 5 (mask 19)) \<and>
    encode_imm26_offset w off AND NOT (mask 26) = w AND NOT (mask 26) \<and>
    encode_immhi_immlo_offset w off AND NOT (push_bit 5 (mask 19) OR push_bit 29 (mask 2)) =
      w AND NOT (push_bit 5 (mask 19) OR push_bit 29 (mask 2))"
proof (intro conjI)
  have "signed_drop_bit 12 (push_bit 12 (scast k21) :: 64 word) = (scast k21 :: 64 word)"
    by (rule bit_word_eqI) (auto simp: bit_simps min_def)
  then show "decode_immhi_immlo_zero12_offset (encode_immhi_immlo_zero12_offset w (push_bit 12 (scast k21))) =
      push_bit 12 (scast k21)"
    by (simp add: decode_immhi_immlo_zero12_offset_def encode_immhi_immlo_zero12_offset_def
        encode_adr_decode ucast_scast_small)
qed (simp_all add: encode_imm14_decode encode_imm19_decode encode_imm26_decode encode_adr_decode
    ucast_drop_push ucast_scast_small,
    (rule bit_word_eqI, auto simp: encode_imm14_bits encode_imm19_bits encode_imm26_bits encode_adr_bits bit_simps)+)

end
