(* ===== verification/Arm64Isa.thy ===== *)
theory Arm64Isa
  imports Prelude
begin

text \<open>
  The specification the ARM64 code generator of \<open>third/dobby\<close> is verified against: the state and
  the meaning of the A64 instructions the generator emits or relocates, after the Arm
  architecture reference manual (fields by position, offsets sign-extended). Every other
  instruction is one the relocation copies; its effect on the state is the parameter \<open>other\<close>, and it
  is followed by the next instruction.
\<close>

section \<open>State\<close>

record arm =
  regs :: "nat \<Rightarrow> 64 word"
  pc :: "64 word"
  nzcv :: "bool \<times> bool \<times> bool \<times> bool"
  mem :: "64 word \<Rightarrow> 8 word"

definition rX :: "nat \<Rightarrow> arm \<Rightarrow> 64 word" where
  "rX n st = (if n = 31 then 0 else regs st n)"

definition wX :: "nat \<Rightarrow> 64 word \<Rightarrow> arm \<Rightarrow> arm" where
  "wX n v st = (if n = 31 then st else st\<lparr>regs := (regs st)(n := v)\<rparr>)"

text \<open>Little-endian words as bytes.\<close>

definition le_bytes :: "nat \<Rightarrow> 'a::len word \<Rightarrow> 8 word list" where
  "le_bytes n w = map (\<lambda>i. ucast (drop_bit (8 * i) w)) [0..<n]"

fun le_word :: "8 word list \<Rightarrow> 'a::len word" where
  "le_word [] = 0"
| "le_word (b # bs) = ucast b OR push_bit 8 (le_word bs)"

definition load :: "nat \<Rightarrow> 64 word \<Rightarrow> arm \<Rightarrow> 8 word list" where
  "load n a st = map (\<lambda>i. mem st (a + word_of_nat i)) [0..<n]"

definition holds_bytes :: "8 word list \<Rightarrow> 64 word \<Rightarrow> arm \<Rightarrow> bool" where
  "holds_bytes bs a st \<longleftrightarrow> load (length bs) a st = bs"

section \<open>Instructions\<close>

datatype instr =
    B_imm "64 word"
  | BL_imm "64 word"
  | B_cond "4 word" "64 word"
  | CBZ bool nat "64 word"
  | CBNZ bool nat "64 word"
  | TBZ nat nat "64 word"
  | TBNZ nat nat "64 word"
  | BR_reg nat
  | BLR_reg nat
  | ADR_imm nat "64 word"
  | ADRP_imm nat "64 word"
  | LDR_lit_W nat "64 word"
  | LDR_lit_X nat "64 word"
  | LDRSW_lit nat "64 word"
  | PRFM_lit "64 word"
  | LDR_lit_V "2 word" nat "64 word"
  | LDR_imm_X nat nat "64 word"
  | MOVZ_imm nat "64 word" nat
  | MOVK_imm nat "64 word" nat
  | ADD_imm nat nat "64 word"
  | Other "32 word"

definition fld :: "nat \<Rightarrow> nat \<Rightarrow> 32 word \<Rightarrow> 32 word" where
  "fld lo n w = take_bit n (drop_bit lo w)"

definition reg_at :: "nat \<Rightarrow> 32 word \<Rightarrow> nat" where
  "reg_at lo w = unat (fld lo 5 w)"

definition off19 :: "32 word \<Rightarrow> 64 word" where
  "off19 w = push_bit 2 (scast (ucast (fld 5 19 w) :: 19 word))"

definition off14 :: "32 word \<Rightarrow> 64 word" where
  "off14 w = push_bit 2 (scast (ucast (fld 5 14 w) :: 14 word))"

definition off26 :: "32 word \<Rightarrow> 64 word" where
  "off26 w = push_bit 2 (scast (ucast (fld 0 26 w) :: 26 word))"

definition off21 :: "32 word \<Rightarrow> 64 word" where
  "off21 w = scast (ucast (fld 29 2 w OR push_bit 2 (fld 5 19 w)) :: 21 word)"

definition literal :: "32 word \<Rightarrow> instr" where
  "literal w =
     (if fld 26 1 w = 1 then LDR_lit_V (ucast (fld 30 2 w)) (reg_at 0 w) (off19 w)
      else if fld 30 2 w = 0 then LDR_lit_W (reg_at 0 w) (off19 w)
      else if fld 30 2 w = 1 then LDR_lit_X (reg_at 0 w) (off19 w)
      else if fld 30 2 w = 2 then LDRSW_lit (reg_at 0 w) (off19 w)
      else PRFM_lit (off19 w))"

definition decode_pcrel :: "32 word \<Rightarrow> instr option" where
  "decode_pcrel w =
     (if fld 26 5 w = 5 then Some (if fld 31 1 w = 0 then B_imm (off26 w) else BL_imm (off26 w))
      else if fld 25 7 w = 42 \<and> fld 24 1 w = 0 then Some (B_cond (ucast (fld 0 4 w)) (off19 w))
      else if fld 25 6 w = 26 then
        Some (if fld 24 1 w = 0 then CBZ (fld 31 1 w = 1) (reg_at 0 w) (off19 w)
              else CBNZ (fld 31 1 w = 1) (reg_at 0 w) (off19 w))
      else if fld 25 6 w = 27 then
        (let b = unat (fld 19 5 w OR push_bit 5 (fld 31 1 w)) in
         Some (if fld 24 1 w = 0 then TBZ b (reg_at 0 w) (off14 w) else TBNZ b (reg_at 0 w) (off14 w)))
      else if fld 24 5 w = 16 then
        Some (if fld 31 1 w = 0 then ADR_imm (reg_at 0 w) (off21 w)
              else ADRP_imm (reg_at 0 w) (push_bit 12 (off21 w)))
      else if fld 27 3 w = 3 \<and> fld 24 2 w = 0 then Some (literal w)
      else None)"

definition decode_rest :: "32 word \<Rightarrow> instr" where
  "decode_rest w =
     (if fld 25 7 w = 107 \<and> fld 21 4 w = 0 \<and> fld 16 5 w = 31 \<and> fld 10 6 w = 0 \<and> fld 0 5 w = 0 then BR_reg (reg_at 5 w)
      else if fld 25 7 w = 107 \<and> fld 21 4 w = 1 \<and> fld 16 5 w = 31 \<and> fld 10 6 w = 0 \<and> fld 0 5 w = 0 then BLR_reg (reg_at 5 w)
      else if fld 22 10 w = 997 \<and> reg_at 5 w \<noteq> 31 then LDR_imm_X (reg_at 0 w) (reg_at 5 w) (push_bit 3 (ucast (fld 10 12 w)))
      else if fld 23 9 w = 421 then
        MOVZ_imm (reg_at 0 w) (ucast (fld 5 16 w)) (16 * unat (fld 21 2 w))
      else if fld 23 9 w = 485 then
        MOVK_imm (reg_at 0 w) (ucast (fld 5 16 w)) (16 * unat (fld 21 2 w))
      else if fld 22 10 w = 580 \<and> reg_at 0 w \<noteq> 31 \<and> reg_at 5 w \<noteq> 31 then ADD_imm (reg_at 0 w) (reg_at 5 w) (ucast (fld 10 12 w))
      else Other w)"

definition decode :: "32 word \<Rightarrow> instr" where
  "decode w = (case decode_pcrel w of Some i \<Rightarrow> i | None \<Rightarrow> decode_rest w)"

section \<open>Execution\<close>

text \<open>Bit 0 of a condition negates it, except that 15 means always, as 14 does.\<close>

definition cond_holds :: "4 word \<Rightarrow> arm \<Rightarrow> bool" where
  "cond_holds c st =
     (case nzcv st of (n, z, cf, v) \<Rightarrow>
        let k = unat (drop_bit 1 c);
            r = (if k = 0 then z else if k = 1 then cf else if k = 2 then n else if k = 3 then v
                 else if k = 4 then cf \<and> \<not> z else if k = 5 then n = v
                 else if k = 6 then n = v \<and> \<not> z else True)
        in if bit c 0 \<and> c \<noteq> 15 then \<not> r else r)"

definition reg_operand :: "bool \<Rightarrow> nat \<Rightarrow> arm \<Rightarrow> 64 word" where
  "reg_operand sf n st = (if sf then rX n st else take_bit 32 (rX n st))"

text \<open>One instruction, executed as if it stood at \<open>a\<close> and were followed by the instruction at
  \<open>next\<close>: operands relative to the program counter are relative to \<open>a\<close>; falling through, and
  the link of a call, go to \<open>next\<close>. The stack pointer and the vector registers are not modelled: loads and
  additions whose base is register 31 are left to \<open>other\<close>, and a literal load of a vector register
  changes nothing of the state.\<close>

definition exec :: "(32 word \<Rightarrow> arm \<Rightarrow> arm) \<Rightarrow> instr \<Rightarrow> 64 word \<Rightarrow> 64 word \<Rightarrow> arm \<Rightarrow> arm" where
  "exec other i a next st =
     (case i of
        B_imm off \<Rightarrow> st\<lparr>pc := a + off\<rparr>
      | BL_imm off \<Rightarrow> (wX 30 next st)\<lparr>pc := a + off\<rparr>
      | B_cond c off \<Rightarrow> st\<lparr>pc := if cond_holds c st then a + off else next\<rparr>
      | CBZ sf n off \<Rightarrow> st\<lparr>pc := if reg_operand sf n st = 0 then a + off else next\<rparr>
      | CBNZ sf n off \<Rightarrow> st\<lparr>pc := if reg_operand sf n st \<noteq> 0 then a + off else next\<rparr>
      | TBZ b n off \<Rightarrow> st\<lparr>pc := if \<not> bit (rX n st) b then a + off else next\<rparr>
      | TBNZ b n off \<Rightarrow> st\<lparr>pc := if bit (rX n st) b then a + off else next\<rparr>
      | BR_reg n \<Rightarrow> st\<lparr>pc := rX n st\<rparr>
      | BLR_reg n \<Rightarrow> (wX 30 next st)\<lparr>pc := rX n st\<rparr>
      | ADR_imm d off \<Rightarrow> (wX d (a + off) st)\<lparr>pc := next\<rparr>
      | ADRP_imm d off \<Rightarrow> (wX d (push_bit 12 (drop_bit 12 a) + off) st)\<lparr>pc := next\<rparr>
      | LDR_lit_W t off \<Rightarrow> (wX t (le_word (load 4 (a + off) st)) st)\<lparr>pc := next\<rparr>
      | LDR_lit_X t off \<Rightarrow> (wX t (le_word (load 8 (a + off) st)) st)\<lparr>pc := next\<rparr>
      | LDRSW_lit t off \<Rightarrow> (wX t (scast (le_word (load 4 (a + off) st) :: 32 word)) st)\<lparr>pc := next\<rparr>
      | PRFM_lit off \<Rightarrow> st\<lparr>pc := next\<rparr>
      | LDR_lit_V _ _ _ \<Rightarrow> st\<lparr>pc := next\<rparr>
      | LDR_imm_X t n off \<Rightarrow> (wX t (le_word (load 8 (rX n st + off) st)) st)\<lparr>pc := next\<rparr>
      | MOVZ_imm d v sh \<Rightarrow> (wX d (push_bit sh v) st)\<lparr>pc := next\<rparr>
      | MOVK_imm d v sh \<Rightarrow>
          (wX d ((rX d st AND NOT (push_bit sh (mask 16))) OR push_bit sh v) st)\<lparr>pc := next\<rparr>
      | ADD_imm d n v \<Rightarrow> (wX d (rX n st + v) st)\<lparr>pc := next\<rparr>
      | Other w \<Rightarrow> (other w st)\<lparr>pc := next\<rparr>)"

text \<open>A step of the machine: fetch, decode, execute.\<close>

definition fetch :: "arm \<Rightarrow> 32 word" where
  "fetch st = le_word (load 4 (pc st) st)"

definition arm_step :: "(32 word \<Rightarrow> arm \<Rightarrow> arm) \<Rightarrow> arm \<Rightarrow> arm" where
  "arm_step other st = exec other (decode (fetch st)) (pc st) (pc st + 4) st"

section \<open>Fields\<close>

lemma bit_fld [bit_simps]: "bit (fld lo n w) i \<longleftrightarrow> i < n \<and> bit w (lo + i)"
  by (auto simp: fld_def bit_simps dest: bit_imp_le_length)

lemma fld_or [simp]: "fld lo n (a OR b) = fld lo n a OR fld lo n b"
  by (rule bit_word_eqI) (auto simp: bit_simps)

lemma fld_and: "fld lo n (a AND b) = fld lo n a AND fld lo n b"
  by (rule bit_word_eqI) (auto simp: bit_simps)

lemma fld_push_eq: "lo + n \<le> 32 \<Longrightarrow> fld lo n (push_bit lo (take_bit n x)) = take_bit n x"
  by (rule bit_word_eqI) (auto simp: bit_simps)

lemma fld_push_above: "lo + n \<le> k \<Longrightarrow> fld lo n (push_bit k x) = 0"
  by (rule bit_word_eqI) (auto simp: bit_simps)

lemma fld_push_below: "k + m \<le> lo \<Longrightarrow> fld lo n (push_bit k (take_bit m x)) = 0"
  by (rule bit_word_eqI) (auto simp: bit_simps)

lemma fld_take_eq: "n \<le> m \<Longrightarrow> fld 0 n (take_bit m x) = take_bit n x"
  by (rule bit_word_eqI) (auto simp: bit_simps)

lemma fld_take_below: "m \<le> lo \<Longrightarrow> fld lo n (take_bit m x) = 0"
  by (rule bit_word_eqI) (auto simp: bit_simps)

lemmas fld_simps = fld_push_eq fld_push_above fld_push_below fld_take_eq fld_take_below

text \<open>A field has a value exactly when its bits are those of the value.\<close>

lemma fld_iff:
  assumes "lo + n \<le> 32" "take_bit n c = c"
  shows "fld lo n w = c \<longleftrightarrow> (\<forall>i<n. bit w (lo + i) \<longleftrightarrow> bit c i)"
proof
  assume "fld lo n w = c"
  then show "\<forall>i<n. bit w (lo + i) \<longleftrightarrow> bit c i" by (auto simp: bit_fld)
next
  assume b: "\<forall>i<n. bit w (lo + i) \<longleftrightarrow> bit c i"
  have c: "bit c i \<longleftrightarrow> i < n \<and> bit c i" for i
    using assms(2) by (metis bit_take_bit_iff)
  show "fld lo n w = c" by (rule bit_word_eqI) (use b c in \<open>auto simp: bit_fld\<close>)
qed

lemma all_less_numeral:
  "(\<forall>i<numeral k. P i) \<longleftrightarrow> P (pred_numeral k) \<and> (\<forall>i<pred_numeral k. P i)" for P :: "nat \<Rightarrow> bool"
  by (auto simp: numeral_eq_Suc less_Suc_eq)

lemma class_bits:
  "fld 26 5 w = 5 \<longleftrightarrow> bit w 26 \<and> \<not> bit w 27 \<and> bit w 28 \<and> \<not> bit w 29 \<and> \<not> bit w 30"
  "fld 25 7 w = 42 \<longleftrightarrow> \<not> bit w 25 \<and> bit w 26 \<and> \<not> bit w 27 \<and> bit w 28 \<and> \<not> bit w 29 \<and> bit w 30 \<and> \<not> bit w 31"
  "fld 25 6 w = 26 \<longleftrightarrow> \<not> bit w 25 \<and> bit w 26 \<and> \<not> bit w 27 \<and> bit w 28 \<and> bit w 29 \<and> \<not> bit w 30"
  "fld 25 6 w = 27 \<longleftrightarrow> bit w 25 \<and> bit w 26 \<and> \<not> bit w 27 \<and> bit w 28 \<and> bit w 29 \<and> \<not> bit w 30"
  "fld 24 5 w = 16 \<longleftrightarrow> \<not> bit w 24 \<and> \<not> bit w 25 \<and> \<not> bit w 26 \<and> \<not> bit w 27 \<and> bit w 28"
  "fld 27 3 w = 3 \<longleftrightarrow> bit w 27 \<and> bit w 28 \<and> \<not> bit w 29"
  "fld 24 2 w = 0 \<longleftrightarrow> \<not> bit w 24 \<and> \<not> bit w 25"
  "fld 24 1 w = 0 \<longleftrightarrow> \<not> bit w 24" "fld 31 1 w = 0 \<longleftrightarrow> \<not> bit w 31"
  "fld 24 1 w = 1 \<longleftrightarrow> bit w 24" "fld 31 1 w = 1 \<longleftrightarrow> bit w 31"
  "fld 26 1 w = 1 \<longleftrightarrow> bit w 26"
  "fld 30 2 w = 0 \<longleftrightarrow> \<not> bit w 30 \<and> \<not> bit w 31" "fld 30 2 w = 1 \<longleftrightarrow> bit w 30 \<and> \<not> bit w 31"
  "fld 30 2 w = 2 \<longleftrightarrow> \<not> bit w 30 \<and> bit w 31"
  by (auto simp: fld_iff all_less_numeral)

section \<open>Bytes\<close>

lemma length_le_bytes [simp]: "length (le_bytes n w) = n"
  by (simp add: le_bytes_def)

lemma length_load [simp]: "length (load n a st) = n"
  by (simp add: load_def)

lemma bit_le_word:
  fixes bs :: "8 word list"
  shows "bit (le_word bs :: 'a::len word) i \<longleftrightarrow> i < LENGTH('a) \<and> i div 8 < length bs \<and> bit (bs ! (i div 8)) (i mod 8)"
proof (induction bs arbitrary: i)
  case (Cons b bs)
  show ?case
  proof (cases "i < 8")
    case True
    then show ?thesis by (auto simp: bit_simps dest: bit_imp_le_length)
  next
    case False
    then have "i div 8 = Suc ((i - 8) div 8)" "(i - 8) mod 8 = i mod 8"
      by (simp_all add: le_div_geq le_mod_geq)
    with False Cons [of "i - 8"] show ?thesis
      by (auto simp: bit_simps dest: bit_imp_le_length)
  qed
qed simp

lemma le_word_bytes:
  fixes w :: "'a::len word"
  assumes "LENGTH('a) \<le> 8 * n"
  shows "le_word (le_bytes n w) = w"
proof (rule bit_word_eqI)
  fix i assume i: "i < LENGTH('a)"
  then have "i div 8 < n" using assms by (simp add: less_mult_imp_div_less mult.commute)
  with i show "bit (le_word (le_bytes n w) :: 'a word) i = bit w i"
    by (simp add: bit_le_word le_bytes_def bit_simps)
qed

end
