(* ===== verification/Arm64Asm.thy ===== *)
theory Arm64Asm
  imports Arm64Codec Arm64Isa
begin

text \<open>
  The ARM64 assembler of \<open>third/dobby\<close>: the operation codes of \<open>core/arch/arm64/constants-arm64.h\<close>,
  the registers of \<open>registers-arm64.h\<close>, operands, and the instruction encoders and macro instructions
  of \<open>core/assembler/assembler-arm64.h\<close>, with their decoding by the architecture. \<open>UNREACHABLE\<close> and
  \<open>UNIMPLEMENTED\<close> abort: they are the outcome \<open>Inl Assert_Failed\<close>.
\<close>

named_theorems opcodes

section \<open>Operation codes\<close>

definition UnconditionalBranchFixed :: "32 word" where [opcodes]: "UnconditionalBranchFixed = 0x14000000"
definition UnconditionalBranchFixedMask :: "32 word" where [opcodes]: "UnconditionalBranchFixedMask = 0x7C000000"
definition UnconditionalBranchMask :: "32 word" where [opcodes]: "UnconditionalBranchMask = 0xFC000000"
definition op_B :: "32 word" where [opcodes]: "op_B = UnconditionalBranchFixed OR 0x00000000"
definition op_BL :: "32 word" where [opcodes]: "op_BL = UnconditionalBranchFixed OR 0x80000000"

definition UnconditionalBranchToRegisterFixed :: "32 word" where
  [opcodes]: "UnconditionalBranchToRegisterFixed = 0xD6000000"
definition op_BR :: "32 word" where [opcodes]: "op_BR = UnconditionalBranchToRegisterFixed OR 0x001F0000"
definition op_BLR :: "32 word" where [opcodes]: "op_BLR = UnconditionalBranchToRegisterFixed OR 0x003F0000"

definition ExceptionFixed :: "32 word" where [opcodes]: "ExceptionFixed = 0xD4000000"
definition op_BRK :: "32 word" where [opcodes]: "op_BRK = ExceptionFixed OR 0x00200000"

definition LoadRegLiteralFixed :: "32 word" where [opcodes]: "LoadRegLiteralFixed = 0x18000000"
definition LoadRegLiteralFixedMask :: "32 word" where [opcodes]: "LoadRegLiteralFixedMask = 0x3B000000"
definition LoadRegLiteralSub :: "32 word \<Rightarrow> 32 word \<Rightarrow> 32 word" where
  "LoadRegLiteralSub opc v = LoadRegLiteralFixed OR LeftShift opc 2 30 OR LeftShift v 1 26"

definition LoadStoreOpSub :: "32 word \<Rightarrow> 32 word \<Rightarrow> 32 word \<Rightarrow> 32 word" where
  "LoadStoreOpSub sz v opc = LeftShift sz 2 30 OR LeftShift v 1 26 OR LeftShift opc 2 22"

definition LOAD_STORE_OP_LIST :: "(string \<times> 32 word \<times> 32 word \<times> 32 word) list" where
  "LOAD_STORE_OP_LIST =
     [(''STRB_w'', 0, 0, 0), (''LDRB_w'', 0, 0, 1), (''LDRSB_x'', 0, 0, 2), (''LDRSB_w'', 0, 0, 3),
      (''STR_b'', 0, 1, 0), (''LDR_b'', 0, 1, 1), (''STR_q'', 0, 1, 2), (''LDR_q'', 0, 1, 3),
      (''STRH_w'', 1, 0, 0), (''LDRH_w'', 1, 0, 1), (''LDRSH_x'', 1, 0, 2), (''LDRSH_w'', 1, 0, 3),
      (''STR_h'', 1, 1, 0), (''LDR_h'', 1, 1, 1), (''STR_w'', 2, 0, 0), (''LDR_w'', 2, 0, 1),
      (''LDRSW'', 2, 0, 2), (''STR_s'', 2, 1, 0), (''LDR_s'', 2, 1, 1), (''STR_x'', 3, 0, 0),
      (''LDR_x'', 3, 0, 1), (''PRFM'', 3, 0, 2), (''STR_d'', 3, 1, 0), (''LDR_d'', 3, 1, 1)]"

definition op_STR_x :: "32 word" where "op_STR_x = LoadStoreOpSub 3 0 0"
definition op_LDR_x :: "32 word" where "op_LDR_x = LoadStoreOpSub 3 0 1"

definition LoadStoreUnsignedOffsetFixed :: "32 word" where [opcodes]: "LoadStoreUnsignedOffsetFixed = 0x39000000"

definition LoadStorePairOpSub :: "32 word \<Rightarrow> 32 word \<Rightarrow> 32 word \<Rightarrow> 32 word" where
  "LoadStorePairOpSub opc v l = LeftShift opc 2 30 OR LeftShift v 1 26 OR LeftShift l 1 22"
definition op_STP_x :: "32 word" where "op_STP_x = LoadStorePairOpSub 2 0 0"
definition op_LDP_x :: "32 word" where "op_LDP_x = LoadStorePairOpSub 2 0 1"
definition op_STP_q :: "32 word" where "op_STP_q = LoadStorePairOpSub 2 1 0"
definition op_LDP_q :: "32 word" where "op_LDP_q = LoadStorePairOpSub 2 1 1"
definition LoadStorePairOffsetFixed :: "32 word" where [opcodes]: "LoadStorePairOffsetFixed = 0x29000000"
definition LoadStorePairPostIndexFixed :: "32 word" where [opcodes]: "LoadStorePairPostIndexFixed = 0x28800000"
definition LoadStorePairPreIndexFixed :: "32 word" where [opcodes]: "LoadStorePairPreIndexFixed = 0x29800000"

definition MoveWideImmediateFixed :: "32 word" where [opcodes]: "MoveWideImmediateFixed = 0x12800000"
definition op_MOVN :: "32 word" where [opcodes]: "op_MOVN = 0x00000000"
definition op_MOVZ :: "32 word" where [opcodes]: "op_MOVZ = 0x40000000"
definition op_MOVK :: "32 word" where [opcodes]: "op_MOVK = 0x60000000"

definition AddSubImmediateFixed :: "32 word" where [opcodes]: "AddSubImmediateFixed = 0x11000000"
definition AddSubImmediateOpSub :: "32 word \<Rightarrow> 32 word \<Rightarrow> 32 word \<Rightarrow> 32 word" where
  "AddSubImmediateOpSub sf op s = AddSubImmediateFixed OR LeftShift sf 1 31 OR LeftShift op 1 30 OR LeftShift s 1 29"

definition op_ORR :: "32 word" where [opcodes]: "op_ORR = 0x20000000"
definition LogicalShiftedFixed :: "32 word" where [opcodes]: "LogicalShiftedFixed = 0x0A000000"

definition PCRelAddressingFixed :: "32 word" where [opcodes]: "PCRelAddressingFixed = 0x10000000"
definition PCRelAddressingFixedMask :: "32 word" where [opcodes]: "PCRelAddressingFixedMask = 0x1F000000"
definition PCRelAddressingMask :: "32 word" where [opcodes]: "PCRelAddressingMask = 0x9F000000"
definition op_ADR :: "32 word" where [opcodes]: "op_ADR = PCRelAddressingFixed OR 0x00000000"
definition op_ADRP :: "32 word" where [opcodes]: "op_ADRP = PCRelAddressingFixed OR 0x80000000"

definition CompareBranchFixed :: "32 word" where [opcodes]: "CompareBranchFixed = 0x34000000"
definition CompareBranchFixedMask :: "32 word" where [opcodes]: "CompareBranchFixedMask = 0x7E000000"
definition ConditionalBranchFixed :: "32 word" where [opcodes]: "ConditionalBranchFixed = 0x54000000"
definition ConditionalBranchFixedMask :: "32 word" where [opcodes]: "ConditionalBranchFixedMask = 0xFE000000"
definition TestBranchFixed :: "32 word" where [opcodes]: "TestBranchFixed = 0x36000000"
definition TestBranchFixedMask :: "32 word" where [opcodes]: "TestBranchFixedMask = 0x7E000000"

section \<open>Registers and operands\<close>

datatype RegisterType =
    kRegister_32
  | kRegister_64
  | kRegister
  | kVRegister
  | kSIMD_FP_Register_8
  | kSIMD_FP_Register_16
  | kSIMD_FP_Register_32
  | kSIMD_FP_Register_64
  | kSIMD_FP_Register_128
  | kInvalid

fun reg_type_value :: "RegisterType \<Rightarrow> nat" where
  "reg_type_value kRegister_32 = 0"
| "reg_type_value kRegister_64 = 1"
| "reg_type_value kRegister = 2"
| "reg_type_value kVRegister = 3"
| "reg_type_value kSIMD_FP_Register_8 = 4"
| "reg_type_value kSIMD_FP_Register_16 = 5"
| "reg_type_value kSIMD_FP_Register_32 = 6"
| "reg_type_value kSIMD_FP_Register_64 = 7"
| "reg_type_value kSIMD_FP_Register_128 = 8"
| "reg_type_value kInvalid = 9"

text \<open>The enumerators are compared by their values.\<close>

lemma reg_type_value_inject: "reg_type_value a = reg_type_value b \<Longrightarrow> a = b"
  by (cases a; cases b) simp_all

instantiation RegisterType :: linorder
begin

definition less_eq_RegisterType :: "RegisterType \<Rightarrow> RegisterType \<Rightarrow> bool" where
  "less_eq_RegisterType a b \<longleftrightarrow> reg_type_value a \<le> reg_type_value b"

definition less_RegisterType :: "RegisterType \<Rightarrow> RegisterType \<Rightarrow> bool" where
  "less_RegisterType a b \<longleftrightarrow> reg_type_value a < reg_type_value b"

instance
  by standard (auto simp: less_eq_RegisterType_def less_RegisterType_def reg_type_value_inject)

end

record CPURegister =
  reg_code :: "32 word"
  reg_size :: nat
  reg_type :: RegisterType

definition reg_X :: "32 word \<Rightarrow> CPURegister" where
  "reg_X c = \<lparr>reg_code = c, reg_size = 64, reg_type = kRegister_64\<rparr>"

definition reg_W :: "32 word \<Rightarrow> CPURegister" where
  "reg_W c = \<lparr>reg_code = c, reg_size = 32, reg_type = kRegister_32\<rparr>"

definition reg_Q :: "32 word \<Rightarrow> CPURegister" where
  "reg_Q c = \<lparr>reg_code = c, reg_size = 128, reg_type = kSIMD_FP_Register_128\<rparr>"

definition InvalidRegister :: CPURegister where
  "InvalidRegister = \<lparr>reg_code = 0, reg_size = 0, reg_type = kInvalid\<rparr>"

text \<open>The register tables: the general and the vector registers by width and number.\<close>

definition GENERAL_REGISTER_CODE_LIST :: "32 word list" where
  "GENERAL_REGISTER_CODE_LIST =
     [0, 1, 2, 3, 4, 5, 6, 7, 8, 9, 10, 11, 12, 13, 14, 15, 16, 17, 18, 19, 20, 21, 22, 23, 24, 25, 26, 27, 28, 29, 30, 31]"

definition DEFINE_REGISTERS :: "32 word \<Rightarrow> CPURegister list" where
  "DEFINE_REGISTERS n =
     [\<lparr>reg_code = n, reg_size = 32, reg_type = kRegister_32\<rparr>,
      \<lparr>reg_code = n, reg_size = 64, reg_type = kRegister_64\<rparr>]"

definition DEFINE_VREGISTERS :: "32 word \<Rightarrow> CPURegister list" where
  "DEFINE_VREGISTERS n =
     [\<lparr>reg_code = n, reg_size = 8, reg_type = kSIMD_FP_Register_8\<rparr>,
      \<lparr>reg_code = n, reg_size = 16, reg_type = kSIMD_FP_Register_16\<rparr>,
      \<lparr>reg_code = n, reg_size = 32, reg_type = kSIMD_FP_Register_32\<rparr>,
      \<lparr>reg_code = n, reg_size = 64, reg_type = kSIMD_FP_Register_64\<rparr>,
      \<lparr>reg_code = n, reg_size = 128, reg_type = kSIMD_FP_Register_128\<rparr>]"

definition reg_Is :: "CPURegister \<Rightarrow> CPURegister \<Rightarrow> bool" where
  "reg_Is a b \<longleftrightarrow> reg_code b = reg_code a"

definition Is64Bits :: "CPURegister \<Rightarrow> bool" where
  "Is64Bits r \<longleftrightarrow> reg_size r = 64"

definition IsRegister :: "CPURegister \<Rightarrow> bool" where
  "IsRegister r \<longleftrightarrow> reg_type r < kRegister"

definition IsVRegister :: "CPURegister \<Rightarrow> bool" where
  "IsVRegister r \<longleftrightarrow> reg_type r > kVRegister"

definition xzr :: CPURegister where "xzr = reg_X 31"
definition wzr :: CPURegister where "wzr = reg_W 31"
definition SP_reg :: CPURegister where "SP_reg = reg_X 31"
definition TMP_REG_0 :: CPURegister where "TMP_REG_0 = reg_X 17"

datatype Shift = NO_SHIFT | LSL | LSR | ASR | ROR | MSL

fun shift_value :: "Shift \<Rightarrow> 32 word" where
  "shift_value NO_SHIFT = - 1"
| "shift_value LSL = 0"
| "shift_value LSR = 1"
| "shift_value ASR = 2"
| "shift_value ROR = 3"
| "shift_value MSL = 4"

datatype Extend = NO_EXTEND | UXTB | UXTH | UXTW | UXTX | SXTB | SXTH | SXTW | SXTX

datatype AddrMode = Offset | PreIndex | PostIndex

record Operand =
  opd_immediate :: "64 word"
  opd_reg :: CPURegister
  opd_shift :: Shift
  opd_extend :: Extend
  opd_shift_imm :: "32 word"

definition Operand_imm :: "64 word \<Rightarrow> Operand" where
  "Operand_imm imm =
     \<lparr>opd_immediate = imm, opd_reg = InvalidRegister, opd_shift = NO_SHIFT, opd_extend = NO_EXTEND, opd_shift_imm = 0\<rparr>"

definition Operand_shift :: "CPURegister \<Rightarrow> Shift \<Rightarrow> 32 word \<Rightarrow> Operand" where
  "Operand_shift r sh n =
     \<lparr>opd_immediate = 0, opd_reg = r, opd_shift = sh, opd_extend = NO_EXTEND, opd_shift_imm = n\<rparr>"

definition Operand_extend :: "CPURegister \<Rightarrow> Extend \<Rightarrow> 32 word \<Rightarrow> Operand" where
  "Operand_extend r ex n =
     \<lparr>opd_immediate = 0, opd_reg = r, opd_shift = NO_SHIFT, opd_extend = ex, opd_shift_imm = n\<rparr>"

definition IsImmediate :: "Operand \<Rightarrow> bool" where
  "IsImmediate x \<longleftrightarrow> reg_Is (opd_reg x) InvalidRegister"

definition IsShiftedRegister :: "Operand \<Rightarrow> bool" where
  "IsShiftedRegister x \<longleftrightarrow> opd_shift x \<noteq> NO_SHIFT"

definition IsExtendedRegister :: "Operand \<Rightarrow> bool" where
  "IsExtendedRegister x \<longleftrightarrow> opd_extend x \<noteq> NO_EXTEND"

text \<open>A register is asked for only of a register operand, its shift and extension only where they are set
  (\<open>DCHECK\<close>).\<close>

definition operand_reg :: "Operand \<Rightarrow> CPURegister res" where
  "operand_reg x = (if IsShiftedRegister x \<or> IsExtendedRegister x then Inr (opd_reg x) else Inl Assert_Failed)"

definition operand_shift :: "Operand \<Rightarrow> Shift res" where
  "operand_shift x = (if IsShiftedRegister x then Inr (opd_shift x) else Inl Assert_Failed)"

definition operand_extend :: "Operand \<Rightarrow> Extend res" where
  "operand_extend x = (if IsExtendedRegister x then Inr (opd_extend x) else Inl Assert_Failed)"

record MemOperand =
  m_base :: CPURegister
  m_regoffset :: CPURegister
  m_offset :: "64 word"
  m_shift :: Shift
  m_extend :: Extend
  m_shift_extend_imm :: "32 word"
  m_addrmode :: AddrMode

definition MemOperand_imm :: "CPURegister \<Rightarrow> 64 word \<Rightarrow> AddrMode \<Rightarrow> MemOperand" where
  "MemOperand_imm b off m =
     \<lparr>m_base = b, m_regoffset = InvalidRegister, m_offset = off, m_shift = NO_SHIFT, m_extend = NO_EXTEND,
      m_shift_extend_imm = 0, m_addrmode = m\<rparr>"

definition MemOperand_extend :: "CPURegister \<Rightarrow> CPURegister \<Rightarrow> Extend \<Rightarrow> 32 word \<Rightarrow> MemOperand" where
  "MemOperand_extend b r ex n =
     \<lparr>m_base = b, m_regoffset = r, m_offset = 0, m_shift = NO_SHIFT, m_extend = ex, m_shift_extend_imm = n,
      m_addrmode = Offset\<rparr>"

definition MemOperand_shift :: "CPURegister \<Rightarrow> CPURegister \<Rightarrow> Shift \<Rightarrow> 32 word \<Rightarrow> MemOperand" where
  "MemOperand_shift b r sh n =
     \<lparr>m_base = b, m_regoffset = r, m_offset = 0, m_shift = sh, m_extend = NO_EXTEND, m_shift_extend_imm = n,
      m_addrmode = Offset\<rparr>"

text \<open>The constructor from an operand sets the other fields only for a register operand; \<open>garbage\<close> is what they
  held before.\<close>

definition MemOperand_operand :: "MemOperand \<Rightarrow> CPURegister \<Rightarrow> Operand \<Rightarrow> AddrMode \<Rightarrow> MemOperand" where
  "MemOperand_operand garbage b offset m =
     (let r = garbage\<lparr>m_base := b, m_regoffset := InvalidRegister, m_addrmode := m\<rparr> in
      if IsShiftedRegister offset then
        r\<lparr>m_regoffset := opd_reg offset, m_shift := opd_shift offset, m_shift_extend_imm := opd_shift_imm offset,
          m_extend := NO_EXTEND, m_offset := 0\<rparr>
      else if IsExtendedRegister offset then
        r\<lparr>m_regoffset := opd_reg offset, m_extend := opd_extend offset, m_shift_extend_imm := opd_shift_imm offset,
          m_shift := NO_SHIFT, m_offset := 0\<rparr>
      else r)"

definition IsImmediateOffset :: "MemOperand \<Rightarrow> bool" where
  "IsImmediateOffset m \<longleftrightarrow> m_addrmode m = Offset"

definition IsRegisterOffset :: "MemOperand \<Rightarrow> bool" where
  "IsRegisterOffset m \<longleftrightarrow> m_addrmode m = Offset"

definition IsPostIndex :: "MemOperand \<Rightarrow> bool" where
  "IsPostIndex m \<longleftrightarrow> m_addrmode m = PostIndex"

definition IsPreIndex :: "MemOperand \<Rightarrow> bool" where
  "IsPreIndex m \<longleftrightarrow> m_addrmode m = PreIndex"

section \<open>Encoding\<close>

definition Rd :: "CPURegister \<Rightarrow> 32 word" where "Rd r = push_bit 0 (reg_code r)"
definition Rt :: "CPURegister \<Rightarrow> 32 word" where "Rt r = push_bit 0 (reg_code r)"
definition Rt2 :: "CPURegister \<Rightarrow> 32 word" where "Rt2 r = push_bit 10 (reg_code r)"
definition Rn :: "CPURegister \<Rightarrow> 32 word" where "Rn r = push_bit 5 (reg_code r)"
definition Rm :: "CPURegister \<Rightarrow> 32 word" where "Rm r = push_bit 16 (reg_code r)"

definition enc_sf :: "CPURegister \<Rightarrow> 32 word" where
  "enc_sf r = (if Is64Bits r then LeftShift 1 1 31 else 0)"

definition enc_V :: "CPURegister \<Rightarrow> 32 word" where
  "enc_V r = (if IsVRegister r then LeftShift 1 1 26 else 0)"

definition enc_L :: "bool \<Rightarrow> 32 word" where
  "enc_L load_or_store = (if load_or_store then LeftShift 1 1 22 else 0)"

definition enc_shift :: "Shift \<Rightarrow> 32 word" where
  "enc_shift sh = LeftShift (shift_value sh) 2 22"

definition EncodeLogicalImmediate :: "CPURegister \<Rightarrow> CPURegister \<Rightarrow> Operand \<Rightarrow> 32 word" where
  "EncodeLogicalImmediate rd rn operand =
     (let imm = opd_immediate operand;
          immr = ucast (bits imm 0 5);
          imms = ucast (bits imm 6 11)
      in enc_sf rd OR LeftShift immr 6 16 OR LeftShift imms 6 10 OR Rd rd OR Rn rn)"

definition EncodeLogicalShift :: "CPURegister \<Rightarrow> CPURegister \<Rightarrow> Operand \<Rightarrow> 32 word" where
  "EncodeLogicalShift rd rn operand =
     enc_sf rd OR enc_shift (opd_shift operand) OR Rm (opd_reg operand) OR
     LeftShift (opd_shift_imm operand) 6 10 OR Rn rn OR Rd rd"

definition enc_LoadStorePair :: "32 word \<Rightarrow> CPURegister \<Rightarrow> CPURegister \<Rightarrow> MemOperand \<Rightarrow> 32 word" where
  "enc_LoadStorePair op rt rt2 addr =
     (let opc = bits_i32 op 30 31;
          scale = (if IsRegister rt then 2 + unat (bit_of opc 1)
                   else if IsVRegister rt then 2 + unat opc else 2);
          imm7 = ucast (signed_drop_bit scale (m_offset addr))
      in LeftShift imm7 7 15)"

definition enc_scale :: "32 word \<Rightarrow> nat" where
  "enc_scale op =
     (if op AND LoadStoreUnsignedOffsetFixed = LoadStoreUnsignedOffsetFixed
      then unat (bits_i32 op 30 31) else 0)"

text \<open>The instruction word of each operation of \<open>Assembler\<close>.\<close>

definition word_nop :: "32 word" where "word_nop = 0xD503201F"

definition word_brk :: "32 word \<Rightarrow> 32 word" where
  "word_brk code = op_BRK OR LeftShift code 16 5"

definition word_ret :: "32 word" where "word_ret = 0xD65F03C0"

definition word_adrp :: "CPURegister \<Rightarrow> 64 word \<Rightarrow> 32 word" where
  "word_adrp rd imm =
     (let immlo = ucast (LeftShift (bits (signed_drop_bit 12 imm) 0 1) 2 29);
          immhi = ucast (LeftShift (bits (signed_drop_bit 12 imm) 2 20) 19 5)
      in op_ADRP OR Rd rd OR immlo OR immhi)"

definition AddSubImmediate :: "CPURegister \<Rightarrow> CPURegister \<Rightarrow> Operand \<Rightarrow> 32 word \<Rightarrow> 32 word res" where
  "AddSubImmediate rd rn operand op =
     (if IsImmediate operand
      then Inr (op OR Rd rd OR Rn rn OR ucast (LeftShift (opd_immediate operand) 12 10))
      else Inl Assert_Failed)"

definition word_add :: "CPURegister \<Rightarrow> CPURegister \<Rightarrow> 64 word \<Rightarrow> 32 word res" where
  "word_add rd rn imm =
     (if Is64Bits rd \<and> Is64Bits rn then AddSubImmediate rd rn (Operand_imm imm) (AddSubImmediateOpSub 1 0 0)
      else AddSubImmediate rd rn (Operand_imm imm) (AddSubImmediateOpSub 0 0 0))"

definition word_sub :: "CPURegister \<Rightarrow> CPURegister \<Rightarrow> 64 word \<Rightarrow> 32 word res" where
  "word_sub rd rn imm =
     (if Is64Bits rd \<and> Is64Bits rn then AddSubImmediate rd rn (Operand_imm imm) (AddSubImmediateOpSub 1 1 0)
      else AddSubImmediate rd rn (Operand_imm imm) (AddSubImmediateOpSub 0 1 0))"

definition word_b :: "64 word \<Rightarrow> 32 word" where
  "word_b imm = op_B OR ucast (bits (signed_drop_bit 2 imm) 0 25)"

definition word_br :: "CPURegister \<Rightarrow> 32 word" where "word_br rn = op_BR OR Rn rn"

definition word_blr :: "CPURegister \<Rightarrow> 32 word" where "word_blr rn = op_BLR OR Rn rn"

definition EmitLoadRegLiteral :: "32 word \<Rightarrow> CPURegister \<Rightarrow> 64 word \<Rightarrow> 32 word" where
  "EmitLoadRegLiteral op rt imm = op OR ucast (LeftShift imm 26 5) OR Rt rt"

definition word_ldr_literal :: "CPURegister \<Rightarrow> 64 word \<Rightarrow> 32 word res" where
  "word_ldr_literal rt imm =
     (case reg_type rt of
        kRegister_32 \<Rightarrow> Inr (EmitLoadRegLiteral (LoadRegLiteralSub 0 0) rt imm)
      | kRegister_64 \<Rightarrow> Inr (EmitLoadRegLiteral (LoadRegLiteralSub 1 0) rt imm)
      | kSIMD_FP_Register_32 \<Rightarrow> Inr (EmitLoadRegLiteral (LoadRegLiteralSub 0 1) rt imm)
      | kSIMD_FP_Register_64 \<Rightarrow> Inr (EmitLoadRegLiteral (LoadRegLiteralSub 1 1) rt imm)
      | kSIMD_FP_Register_128 \<Rightarrow> Inr (EmitLoadRegLiteral (LoadRegLiteralSub 2 1) rt imm)
      | _ \<Rightarrow> Inl Assert_Failed)"

definition LoadStore :: "32 word \<Rightarrow> CPURegister \<Rightarrow> MemOperand \<Rightarrow> 32 word res" where
  "LoadStore op rt addr =
     (if IsImmediateOffset addr then
        let imm12 = signed_drop_bit (enc_scale (LoadStoreUnsignedOffsetFixed OR op)) (m_offset addr) in
        Inr (LoadStoreUnsignedOffsetFixed OR op OR ucast (LeftShift imm12 12 10) OR Rn (m_base addr) OR Rt rt)
      else Inl Assert_Failed)"

definition word_ldr :: "CPURegister \<Rightarrow> MemOperand \<Rightarrow> 32 word res" where
  "word_ldr rt src = LoadStore op_LDR_x rt src"

definition word_str :: "CPURegister \<Rightarrow> MemOperand \<Rightarrow> 32 word res" where
  "word_str rt src = LoadStore op_STR_x rt src"

definition LoadStorePair :: "32 word \<Rightarrow> CPURegister \<Rightarrow> CPURegister \<Rightarrow> MemOperand \<Rightarrow> 32 word" where
  "LoadStorePair op rt rt2 addr =
     (let combine_fields_op = enc_LoadStorePair op rt rt2 addr OR Rt2 rt2 OR Rn (m_base addr) OR Rt rt;
          addrmodeop = (if IsImmediateOffset addr then LoadStorePairOffsetFixed
                        else if IsPreIndex addr then LoadStorePairPreIndexFixed
                        else LoadStorePairPostIndexFixed)
      in op OR addrmodeop OR combine_fields_op)"

definition word_ldp :: "CPURegister \<Rightarrow> CPURegister \<Rightarrow> MemOperand \<Rightarrow> 32 word res" where
  "word_ldp rt rt2 src =
     (if reg_type rt = kSIMD_FP_Register_128 then Inr (LoadStorePair op_LDP_q rt rt2 src)
      else if reg_type rt = kRegister_64 then Inr (LoadStorePair op_LDP_x rt rt2 src)
      else Inl Assert_Failed)"

definition word_stp :: "CPURegister \<Rightarrow> CPURegister \<Rightarrow> MemOperand \<Rightarrow> 32 word res" where
  "word_stp rt rt2 dst =
     (if reg_type rt = kSIMD_FP_Register_128 then Inr (LoadStorePair op_STP_q rt rt2 dst)
      else if reg_type rt = kRegister_64 then Inr (LoadStorePair op_STP_x rt rt2 dst)
      else Inl Assert_Failed)"

definition Logical :: "CPURegister \<Rightarrow> CPURegister \<Rightarrow> Operand \<Rightarrow> 32 word \<Rightarrow> 32 word" where
  "Logical rd rn operand op =
     (if IsImmediate operand then op OR EncodeLogicalImmediate rd rn operand
      else op OR LogicalShiftedFixed OR EncodeLogicalShift rd rn operand)"

definition word_orr :: "CPURegister \<Rightarrow> CPURegister \<Rightarrow> Operand \<Rightarrow> 32 word" where
  "word_orr rd rn operand = Logical rd rn operand op_ORR"

definition word_mov :: "CPURegister \<Rightarrow> CPURegister \<Rightarrow> 32 word res" where
  "word_mov rd rn =
     (if reg_Is rd SP_reg \<or> reg_Is rn SP_reg then word_add rd rn 0
      else if Is64Bits rd then Inr (word_orr rd xzr (Operand_shift rn LSL 0))
      else Inr (word_orr rd wzr (Operand_shift rn LSL 0)))"

definition MoveWide :: "CPURegister \<Rightarrow> 64 word \<Rightarrow> int \<Rightarrow> 32 word \<Rightarrow> 32 word" where
  "MoveWide rd imm sh op =
     (let hw = (if 0 < sh then sh div 16 else 0);
          imm16 = ucast (LeftShift imm 16 5)
      in MoveWideImmediateFixed OR op OR enc_sf rd OR LeftShift (word_of_int hw) 2 21 OR imm16 OR Rd rd)"

definition word_movk :: "CPURegister \<Rightarrow> 64 word \<Rightarrow> int \<Rightarrow> 32 word" where
  "word_movk rd imm sh = MoveWide rd imm sh op_MOVK"

definition word_movn :: "CPURegister \<Rightarrow> 64 word \<Rightarrow> int \<Rightarrow> 32 word" where
  "word_movn rd imm sh = MoveWide rd imm sh op_MOVN"

definition word_movz :: "CPURegister \<Rightarrow> 64 word \<Rightarrow> int \<Rightarrow> 32 word" where
  "word_movz rd imm sh = MoveWide rd imm sh op_MOVZ"

definition Low16Bits :: "32 word \<Rightarrow> 16 word" where "Low16Bits v = ucast (v AND 0xffff)"
definition High16Bits :: "32 word \<Rightarrow> 16 word" where "High16Bits v = ucast (drop_bit 16 v)"
definition Low32Bits :: "64 word \<Rightarrow> 32 word" where "Low32Bits v = ucast v"
definition High32Bits :: "64 word \<Rightarrow> 32 word" where "High32Bits v = ucast (drop_bit 32 v)"

definition words_Mov :: "CPURegister \<Rightarrow> 64 word \<Rightarrow> 32 word list" where
  "words_Mov rd imm =
     (let w0 = Low32Bits imm; w1 = High32Bits imm;
          h0 = Low16Bits w0; h1 = High16Bits w0; h2 = Low16Bits w1; h3 = High16Bits w1
      in [word_movz rd (ucast h0) 0, word_movk rd (ucast h1) 16, word_movk rd (ucast h2) 32,
          word_movk rd (ucast h3) 48])"

definition words_AdrpAdd :: "CPURegister \<Rightarrow> 64 word \<Rightarrow> 64 word \<Rightarrow> 32 word list res" where
  "words_AdrpAdd rd frm to =
     (let from_PAGE = ALIGN_FLOOR frm 0x1000; to_PAGE = ALIGN_FLOOR to 0x1000; to_PAGEOFF = to mod 0x1000 in
      res_bind (word_add rd rd to_PAGEOFF) (\<lambda>a. Inr [word_adrp rd (to_PAGE - from_PAGE), a]))"

section \<open>The encoders against the architecture\<close>

lemma fld_numeral [simp]:
  "fld lo n (numeral k) = take_bit n (drop_bit lo (numeral k))" "fld lo n 0 = 0"
  "fld lo n 1 = take_bit n (drop_bit lo 1)"
  by (simp_all add: fld_def)

lemmas encoders = word_br_def word_blr_def word_ldr_def word_ldr_literal_def word_movz_def word_movk_def
  word_add_def word_adrp_def word_b_def Rd_def Rt_def Rn_def Rm_def reg_X_def reg_W_def LeftShift_eq opcodes
  MoveWide_def enc_sf_def Is64Bits_def EmitLoadRegLiteral_def LoadRegLiteralSub_def LoadStore_def
  op_LDR_x_def LoadStoreOpSub_def AddSubImmediate_def AddSubImmediateOpSub_def TMP_REG_0_def

lemma ucast_push_take [simp]:
  "(ucast (push_bit k (take_bit m (x :: 64 word))) :: 32 word) = push_bit k (take_bit m (ucast x))"
  by (rule bit_word_eqI) (auto simp: bit_simps)

lemma decode_br: "decode (word_br (reg_X (take_bit 5 n))) = BR_reg (unat (take_bit 5 n))"
  by (simp add: encoders decode_def decode_pcrel_def decode_rest_def fld_simps reg_at_def)

lemma decode_blr: "decode (word_blr (reg_X (take_bit 5 n))) = BLR_reg (unat (take_bit 5 n))"
  by (simp add: encoders decode_def decode_pcrel_def decode_rest_def fld_simps reg_at_def)

lemma take_16_ucast [simp]:
  "(ucast (take_bit 16 (ucast (ucast (h :: 16 word) :: 64 word) :: 32 word)) :: 64 word) = ucast h"
  "(ucast (take_bit m (ucast (take_bit m k) :: 32 word)) :: 64 word) = take_bit m (take_bit 32 (k :: 64 word))"
  by (rule bit_word_eqI, auto simp: bit_simps dest: bit_imp_le_length)+

lemma decode_movz:
  "decode (word_movz (reg_X (take_bit 5 n)) (ucast (h :: 16 word)) 0) = MOVZ_imm (unat (take_bit 5 n)) (ucast h) 0"
  by (simp add: encoders decode_def decode_pcrel_def decode_rest_def fld_simps reg_at_def)

lemma decode_movk:
  assumes "i \<in> {1, 2, 3}"
  shows "decode (word_movk (reg_X (take_bit 5 n)) (ucast (h :: 16 word)) (16 * i)) =
    MOVK_imm (unat (take_bit 5 n)) (ucast h) (16 * nat i)"
  using assms
  by (auto simp: encoders decode_def decode_pcrel_def decode_rest_def fld_simps reg_at_def)

lemma decode_ldr_imm:
  assumes "unat (take_bit 5 n) \<noteq> 31"
  shows "\<exists>w. word_ldr rt (MemOperand_imm (reg_X (take_bit 5 n)) (push_bit 3 (take_bit 12 k)) Offset) = Inr w \<and>
    (reg_code rt = take_bit 5 t \<longrightarrow>
     decode w = LDR_imm_X (unat (take_bit 5 t)) (unat (take_bit 5 n)) (push_bit 3 (take_bit 12 k)))"
proof -
  have "enc_scale (LoadStoreUnsignedOffsetFixed OR op_LDR_x) = 3"
    by (simp add: enc_scale_def encoders bits_i32_def submask_def)
  moreover have "signed_drop_bit 3 (push_bit 3 (take_bit 12 k)) = take_bit 12 k"
    by (rule bit_word_eqI) (auto simp: bit_simps min_def)
  ultimately show ?thesis using assms
    by (simp add: encoders decode_def decode_pcrel_def decode_rest_def fld_simps reg_at_def
        MemOperand_imm_def IsImmediateOffset_def)
qed

lemma fld_encode_imm19_other:
  "lo + n \<le> 5 \<or> (24 \<le> lo \<and> lo + n \<le> 32) \<Longrightarrow> fld lo n (encode_imm19_offset w off) = fld lo n w"
  by (rule bit_word_eqI) (auto simp: bit_simps encode_imm19_bits)

lemma fld_encode_imm19: "fld 5 19 (encode_imm19_offset w off) = take_bit 19 (ucast (drop_bit 2 off))"
  by (rule bit_word_eqI) (auto simp: bit_simps encode_imm19_bits)

lemma off19_encode: "off19 (encode_imm19_offset w off) = push_bit 2 (scast (ucast (drop_bit 2 off) :: 19 word))"
proof -
  have "(ucast (take_bit 19 (ucast (drop_bit 2 off) :: 32 word)) :: 19 word) = ucast (drop_bit 2 off)"
    by (rule bit_word_eqI) (auto simp: bit_simps)
  then show ?thesis by (simp add: off19_def fld_encode_imm19)
qed

lemma word_ldr_literal_tmp: "word_ldr_literal TMP_REG_0 0 = Inr 0x58000011"
  by (simp add: encoders)

lemma decode_ldr_literal:
  "decode (encode_imm19_offset 0x58000011 off) =
   LDR_lit_X 17 (push_bit 2 (scast (ucast (drop_bit 2 off) :: 19 word)))"
  by (simp add: decode_def decode_pcrel_def literal_def fld_encode_imm19_other off19_encode reg_at_def)

text \<open>An offset that a 19-bit field can hold is the one that comes back.\<close>

lemma imm19_in_range:
  fixes off :: "64 word"
  assumes "- (2 ^ 20) \<le> sint off" "sint off < 2 ^ 20" "4 dvd sint off"
  shows "push_bit 2 (scast (ucast (drop_bit 2 off) :: 19 word)) = off"
proof -
  define k where "k = sint off div 4"
  have off: "off = word_of_int (4 * k)" using assms(3) by (simp add: k_def)
  have k: "- (2 ^ 18) \<le> k" "k < 2 ^ 18" using assms(1,2) by (auto simp: k_def)
  have "off = word_of_int (push_bit 2 k)" by (simp add: off push_bit_eq_mult mult.commute)
  then have bo: "bit off i \<longleftrightarrow> i < 64 \<and> 2 \<le> i \<and> bit k (i - 2)" for i
    by (simp only: bit_word_of_int_iff bit_push_bit_iff_int) auto
  have hi: "bit k j \<longleftrightarrow> bit k 18" if "18 \<le> j" for j
  proof -
    have "signed_take_bit 18 k = k" using k by (simp add: signed_take_bit_int_eq_self)
    then have "bit k j = bit (signed_take_bit 18 k) j" by simp
    then show ?thesis using that by (simp add: bit_signed_take_bit_iff min_def split: if_splits)
  qed
  show ?thesis
  proof (rule bit_word_eqI)
    show "bit (push_bit 2 (scast (ucast (drop_bit 2 off) :: 19 word)) :: 64 word) i = bit off i"
      if "i < LENGTH(64)" for i
      using that hi [of "i - 2"] by (auto simp: bo bit_simps min_def)
  qed
qed

end
