(* ===== verification/Arm64Labels.thy ===== *)
theory Arm64Labels
  imports Arm64Asm
begin

text \<open>
  The code buffer of \<open>third/dobby/source/MemoryAllocator/CodeBuffer\<close> and the data labels of
  \<open>AssemblerPseudoLabel.h\<close>, with their binding in \<open>assembler.cc\<close> and \<open>assembler-arm64.cc\<close>. An
  assembler is the buffer, the labels in the order they were appended, and the realized address; a
  label is named by its index in that list. Buffer sizes and offsets are \<open>nat\<close>: a buffer is smaller
  than \<open>2 ^ 31\<close> bytes. The lemmas say what \<open>RelocBind\<close> leaves: the code words with the loads
  patched, then the data of the labels.
\<close>

section \<open>Code buffer and labels\<close>

definition kLabelImm19 :: int where "kLabelImm19 = 0"

record ref_label_inst =
  ref_type :: int
  ref_vmaddr :: "64 word"
  ref_offset :: nat

record reloc_label =
  l_pos :: "64 word"
  l_relocated_pos :: nat
  l_refs :: "ref_label_inst list"
  l_data :: "8 word list"
  l_data_size :: nat

definition new_RelocLabel :: "64 word \<Rightarrow> reloc_label" where
  "new_RelocLabel value =
     \<lparr>l_pos = 0, l_relocated_pos = 0, l_refs = [], l_data = le_bytes 8 value, l_data_size = 8\<rparr>"

definition link_to :: "int \<Rightarrow> 64 word \<Rightarrow> nat \<Rightarrow> reloc_label \<Rightarrow> reloc_label" where
  "link_to ty inst_vmaddr off l =
     l\<lparr>l_refs := l_refs l @ [\<lparr>ref_type = ty, ref_vmaddr = inst_vmaddr, ref_offset = off\<rparr>]\<rparr>"

definition bind_to :: "nat \<Rightarrow> reloc_label \<Rightarrow> reloc_label" where
  "bind_to addr l = l\<lparr>l_relocated_pos := addr\<rparr>"

definition has_confused_instructions :: "reloc_label \<Rightarrow> bool" where
  "has_confused_instructions l \<longleftrightarrow> l_refs l \<noteq> []"

record assembler =
  a_buffer :: "8 word list"
  a_labels :: "reloc_label list"
  a_realized :: "64 word"

definition new_assembler :: "64 word \<Rightarrow> assembler" where
  "new_assembler address = \<lparr>a_buffer = [], a_labels = [], a_realized = address\<rparr>"

definition GetBufferSize :: "assembler \<Rightarrow> nat" where
  "GetBufferSize a = length (a_buffer a)"

definition EmitBuffer :: "8 word list \<Rightarrow> nat \<Rightarrow> assembler \<Rightarrow> assembler" where
  "EmitBuffer buffer buffer_size a = a\<lparr>a_buffer := a_buffer a @ take buffer_size buffer\<rparr>"

definition Emit :: "32 word \<Rightarrow> assembler \<Rightarrow> assembler" where
  "Emit value a = EmitBuffer (le_bytes 4 value) 4 a"

fun emit_all :: "32 word list \<Rightarrow> assembler \<Rightarrow> assembler" where
  "emit_all [] a = a"
| "emit_all (w # ws) a = emit_all ws (Emit w a)"

definition emit_res :: "32 word res \<Rightarrow> assembler \<Rightarrow> assembler res" where
  "emit_res r a = res_bind r (\<lambda>w. Inr (Emit w a))"

definition LoadInst :: "nat \<Rightarrow> 8 word list \<Rightarrow> 32 word res" where
  "LoadInst off buf =
     (if off + 4 \<le> length buf then Inr (le_word (take 4 (drop off buf))) else Inl UB_Bounds)"

definition RewriteInst :: "nat \<Rightarrow> 32 word \<Rightarrow> 8 word list \<Rightarrow> 8 word list res" where
  "RewriteInst off inst buf =
     (if off + 4 \<le> length buf then Inr (take off buf @ le_bytes 4 inst @ drop (off + 4) buf)
      else Inl UB_Bounds)"

fun link_confused_instructions :: "ref_label_inst list \<Rightarrow> nat \<Rightarrow> 8 word list \<Rightarrow> 8 word list res" where
  "link_confused_instructions [] pos buf = Inr buf"
| "link_confused_instructions (r # rs) pos buf =
     (let fixup_offset = word_of_int (int pos - int (ref_offset r)) in
      res_bind (LoadInst (ref_offset r) buf) (\<lambda>inst.
      let new_inst = (if ref_type r = kLabelImm19 then encode_imm19_offset inst fixup_offset else 0) in
      res_bind (RewriteInst (ref_offset r) new_inst buf) (link_confused_instructions rs pos)))"

definition PseudoBind :: "nat \<Rightarrow> assembler \<Rightarrow> assembler res" where
  "PseudoBind i a =
     (let bound_offset = GetBufferSize a;
          l = bind_to bound_offset (a_labels a ! i);
          b = a\<lparr>a_labels := (a_labels a)[i := l]\<rparr>
      in if has_confused_instructions l
         then res_bind (link_confused_instructions (l_refs l) (l_relocated_pos l) (a_buffer b))
                (\<lambda>buf. Inr (b\<lparr>a_buffer := buf\<rparr>))
         else Inr b)"

fun bind_labels :: "nat list \<Rightarrow> assembler \<Rightarrow> assembler res" where
  "bind_labels [] a = Inr a"
| "bind_labels (i # is) a =
     res_bind (PseudoBind i a) (\<lambda>b.
     bind_labels is (EmitBuffer (l_data (a_labels b ! i)) (l_data_size (a_labels b ! i)) b))"

definition RelocBind :: "assembler \<Rightarrow> assembler res" where
  "RelocBind a = bind_labels [0..<length (a_labels a)] a"

definition AppendRelocLabel :: "reloc_label \<Rightarrow> assembler \<Rightarrow> assembler" where
  "AppendRelocLabel l a = a\<lparr>a_labels := a_labels a @ [l]\<rparr>"

text \<open>\<open>Ldr\<close> of a register from the label at index \<open>i\<close>.\<close>

definition Ldr :: "CPURegister \<Rightarrow> nat \<Rightarrow> assembler \<Rightarrow> assembler res" where
  "Ldr rt i a =
     (let l = a_labels a ! i in
      if l_relocated_pos l \<noteq> 0 then
        emit_res (word_ldr_literal rt (word_of_int (int (l_relocated_pos l) - int (GetBufferSize a)))) a
      else
        let b = a\<lparr>a_labels := (a_labels a)[i := link_to kLabelImm19 0 (GetBufferSize a) l]\<rparr> in
        emit_res (word_ldr_literal rt 0) b)"

text \<open>The literal branch of \<open>CodeGen\<close>: the label of the target, the load, the branch, and the binding
  of all labels.\<close>

definition LiteralLdrBranch :: "64 word \<Rightarrow> assembler \<Rightarrow> assembler res" where
  "LiteralLdrBranch address a =
     (let b = AppendRelocLabel (new_RelocLabel address) a in
      res_bind (Ldr TMP_REG_0 (length (a_labels a)) b) (\<lambda>c.
      RelocBind (Emit (word_br TMP_REG_0) c)))"

section \<open>What binding leaves\<close>

definition code_bytes :: "32 word list \<Rightarrow> 8 word list" where
  "code_bytes ws = concat (map (le_bytes 4) ws)"

definition data_bytes :: "64 word list \<Rightarrow> 8 word list" where
  "data_bytes vs = concat (map (le_bytes 8) vs)"

lemma code_bytes_simps [simp]:
  "code_bytes [] = []" "code_bytes (w # ws) = le_bytes 4 w @ code_bytes ws"
  "code_bytes (ws @ us) = code_bytes ws @ code_bytes us"
  by (simp_all add: code_bytes_def)

lemma length_code_bytes [simp]: "length (code_bytes ws) = 4 * length ws"
  by (induction ws) simp_all

lemma data_bytes_simps [simp]:
  "data_bytes [] = []" "data_bytes (v # vs) = le_bytes 8 v @ data_bytes vs"
  "data_bytes (vs @ us) = data_bytes vs @ data_bytes us"
  by (simp_all add: data_bytes_def)

lemma length_data_bytes [simp]: "length (data_bytes vs) = 8 * length vs"
  by (induction vs) simp_all

lemma emit_all_append: "emit_all (ws @ us) a = emit_all us (emit_all ws a)"
  by (induction ws arbitrary: a) simp_all

lemma emit_all_eq: "emit_all ws a = a\<lparr>a_buffer := a_buffer a @ code_bytes ws\<rparr>"
  by (induction ws arbitrary: a) (simp_all add: Emit_def EmitBuffer_def)

lemma code_bytes_split:
  assumes "p < length ws"
  shows "take (4 * p) (code_bytes ws) = code_bytes (take p ws)"
    and "take 4 (drop (4 * p) (code_bytes ws)) = le_bytes 4 (ws ! p)"
    and "drop (4 * p + 4) (code_bytes ws) = code_bytes (drop (Suc p) ws)"
proof -
  have "code_bytes ws = code_bytes (take p ws) @ le_bytes 4 (ws ! p) @ code_bytes (drop (Suc p) ws)"
    using assms id_take_nth_drop [of p ws] code_bytes_simps(2,3) by metis
  moreover have "length (code_bytes (take p ws)) = 4 * p" using assms by simp
  ultimately show "take (4 * p) (code_bytes ws) = code_bytes (take p ws)"
    and "take 4 (drop (4 * p) (code_bytes ws)) = le_bytes 4 (ws ! p)"
    and "drop (4 * p + 4) (code_bytes ws) = code_bytes (drop (Suc p) ws)"
    by (simp_all del: length_code_bytes)
qed

lemma LoadInst_code:
  "p < length ws \<Longrightarrow> LoadInst (4 * p) (code_bytes ws @ rest) = Inr (ws ! p)"
  by (simp add: LoadInst_def code_bytes_split le_word_bytes)

lemma RewriteInst_code:
  assumes "p < length ws"
  shows "RewriteInst (4 * p) w (code_bytes ws @ rest) = Inr (code_bytes (ws[p := w]) @ rest)"
proof -
  have "ws[p := w] = take p ws @ w # drop (Suc p) ws" using assms by (simp add: upd_conv_take_nth_drop)
  then show ?thesis using assms by (simp add: RewriteInst_def code_bytes_split)
qed

text \<open>A label used by one load, at word \<open>p\<close>, that holds the address \<open>v\<close>.\<close>

definition label_is :: "reloc_label \<Rightarrow> nat \<times> 64 word \<Rightarrow> bool" where
  "label_is l pv \<longleftrightarrow> (\<exists>vm. l_refs l = [\<lparr>ref_type = kLabelImm19, ref_vmaddr = vm, ref_offset = 4 * fst pv\<rparr>]) \<and>
     l_data l = le_bytes 8 (snd pv) \<and> l_data_size l = 8"

definition fixup :: "nat \<Rightarrow> nat \<Rightarrow> 32 word \<Rightarrow> 32 word" where
  "fixup pos p w = encode_imm19_offset w (word_of_int (int pos - int (4 * p)))"

lemma fixup_fixup [simp]: "fixup q p (fixup r p w) = fixup q p w"
  by (rule bit_word_eqI) (auto simp: fixup_def encode_imm19_bits)

lemma PseudoBind_label:
  assumes "label_is (a_labels a ! i) (p, v)" "a_buffer a = code_bytes ws @ rest" "p < length ws"
    "i < length (a_labels a)"
  shows "PseudoBind i a =
    Inr (a\<lparr>a_buffer := code_bytes (ws[p := fixup (4 * length ws + length rest) p (ws ! p)]) @ rest,
           a_labels := (a_labels a)[i := bind_to (4 * length ws + length rest) (a_labels a ! i)]\<rparr>)"
  using assms
  by (auto simp: PseudoBind_def Let_def bind_to_def has_confused_instructions_def GetBufferSize_def label_is_def
      LoadInst_code RewriteInst_code fixup_def)

fun patched :: "nat \<Rightarrow> (nat \<times> 64 word) list \<Rightarrow> 32 word list \<Rightarrow> 32 word list" where
  "patched pos [] ws = ws"
| "patched pos ((p, v) # pvs) ws = patched (pos + 8) pvs (ws[p := fixup pos p (ws ! p)])"

lemma length_patched [simp]: "length (patched pos pvs ws) = length ws"
  by (induction pos pvs ws rule: patched.induct) simp_all

lemma patched_other: "q \<notin> fst ` set pvs \<Longrightarrow> patched pos pvs ws ! q = ws ! q"
  by (induction pos pvs ws rule: patched.induct) auto

lemma patched_at:
  assumes "distinct (map fst pvs)" "j < length pvs" "fst (pvs ! j) < length ws"
  shows "patched pos pvs ws ! fst (pvs ! j) = fixup (pos + 8 * j) (fst (pvs ! j)) (ws ! fst (pvs ! j))"
  using assms
proof (induction pos pvs ws arbitrary: j rule: patched.induct)
  case (2 pos p v pvs ws)
  show ?case
  proof (cases j)
    case 0
    with 2 show ?thesis by (simp add: patched_other)
  next
    case (Suc k)
    with 2 have "fst (pvs ! k) \<noteq> p" by (metis distinct.simps(2) image_eqI list.simps(9) fst_conv nth_mem set_map length_Cons nth_Cons_Suc Suc_less_eq)
    with 2 Suc show ?thesis by (simp add: algebra_simps)
  qed
qed simp

lemma label_is_bind_to [simp]: "label_is (bind_to q l) pv = label_is l pv"
  by (simp add: label_is_def bind_to_def)

lemma assembler_upd_comm: "a\<lparr>a_labels := ls, a_buffer := b\<rparr> = a\<lparr>a_buffer := b, a_labels := ls\<rparr>"
  by (cases a) simp

lemma bind_labels_spec:
  assumes "i + length pvs = length (a_labels a)" "a_buffer a = code_bytes ws @ rest"
    "list_all2 label_is (drop i (a_labels a)) pvs" "list_all (\<lambda>pv. fst pv < length ws) pvs"
  shows "\<exists>ls. bind_labels [i..<length (a_labels a)] a =
      Inr (a\<lparr>a_buffer := code_bytes (patched (4 * length ws + length rest) pvs ws) @ rest @ data_bytes (map snd pvs),
             a_labels := take i (a_labels a) @ ls\<rparr>) \<and> list_all2 label_is ls pvs"
  using assms
proof (induction pvs arbitrary: i a ws rest)
  case Nil
  then show ?case by (intro exI [of _ "[]"]) simp
next
  case (Cons pv pvs)
  obtain p v where pv: "pv = (p, v)" by (cases pv)
  have i: "i < length (a_labels a)" using Cons(2) by simp
  let ?l = "a_labels a ! i" and ?pos = "4 * length ws + length rest"
  have d: "drop i (a_labels a) = ?l # drop (Suc i) (a_labels a)" using i by (simp add: Cons_nth_drop_Suc)
  have l: "label_is ?l (p, v)" and rest: "list_all2 label_is (drop (Suc i) (a_labels a)) pvs"
    using Cons(4) by (simp_all add: d pv)
  have p: "p < length ws" using Cons(5) pv by simp
  let ?b = "a\<lparr>a_buffer := code_bytes (ws[p := fixup ?pos p (ws ! p)]) @ rest @ le_bytes 8 v,
              a_labels := (a_labels a)[i := bind_to ?pos ?l]\<rparr>"
  have step: "bind_labels [i..<length (a_labels a)] a = bind_labels [Suc i..<length (a_labels a)] ?b"
    using i l PseudoBind_label [OF l Cons(3) p i]
    by (simp add: upt_conv_Cons EmitBuffer_def) (simp add: bind_to_def label_is_def assembler_upd_comm)
  have "\<exists>ls. bind_labels [Suc i..<length (a_labels ?b)] ?b =
      Inr (?b\<lparr>a_buffer := code_bytes (patched (4 * length (ws[p := fixup ?pos p (ws ! p)]) + length (rest @ le_bytes 8 v)) pvs
                (ws[p := fixup ?pos p (ws ! p)])) @ (rest @ le_bytes 8 v) @ data_bytes (map snd pvs),
             a_labels := take (Suc i) (a_labels ?b) @ ls\<rparr>) \<and> list_all2 label_is ls pvs"
    by (rule Cons.IH) (use Cons rest in \<open>simp_all add: pv\<close>)
  then obtain ls where ls: "bind_labels [Suc i..<length (a_labels a)] ?b =
      Inr (?b\<lparr>a_buffer := code_bytes (patched (?pos + 8) pvs (ws[p := fixup ?pos p (ws ! p)])) @ rest @ le_bytes 8 v @ data_bytes (map snd pvs),
             a_labels := take (Suc i) ((a_labels a)[i := bind_to ?pos ?l]) @ ls\<rparr>)" "list_all2 label_is ls pvs"
    by (auto simp: add.assoc)
  have t: "take (Suc i) ((a_labels a)[i := bind_to ?pos ?l]) = take i (a_labels a) @ [bind_to ?pos ?l]"
    using i by (simp add: take_Suc_conv_app_nth)
  show ?case
    by (rule exI [of _ "bind_to ?pos ?l # ls"]) (use step ls l t in \<open>simp add: pv\<close>)
qed

lemma RelocBind_spec:
  assumes "a_buffer a = code_bytes ws @ rest" "list_all2 label_is (a_labels a) pvs"
    "list_all (\<lambda>pv. fst pv < length ws) pvs"
  shows "\<exists>ls. RelocBind a =
      Inr (a\<lparr>a_buffer := code_bytes (patched (4 * length ws + length rest) pvs ws) @ rest @ data_bytes (map snd pvs),
             a_labels := ls\<rparr>) \<and> list_all2 label_is ls pvs"
  using bind_labels_spec [of 0 pvs a ws rest] assms list_all2_lengthD [OF assms(2)]
  by (simp add: RelocBind_def)

end
