(* ===== verification/MemoryAlloc.thy ===== *)
theory MemoryAlloc
  imports Arm64Codec
begin

text \<open>
  The code and data memory of the hook engine: \<open>PlatformUnifiedInterface/MemoryAllocator.h\<close>,
  \<open>MemoryAllocator/MemoryAllocator.cc\<close> and \<open>MemoryAllocator/NearMemoryAllocator.cc\<close> of
  \<open>third/dobby/source\<close>, with \<open>OSMemory\<close> of \<open>platform-posix.cc\<close>. Addresses and sizes are \<open>64 word\<close>s
  and \<open>uint32_t\<close> sizes \<open>32 word\<close>s. \<open>mmap\<close> and \<open>mprotect\<close> are the kernel's: a call is recorded in the
  state, and the address \<open>mmap\<close> returns is a parameter. The memory layout read from
  \<open>/proc/self/maps\<close> is a parameter too. A failed \<open>CHECK\<close> is \<open>Inl Assert_Failed\<close>.
\<close>

section \<open>Ranges, blocks and arenas\<close>

record mem_range =
  r_start :: "64 word"
  r_end :: "64 word"
  r_size :: "64 word"

definition MemRange :: "64 word \<Rightarrow> 64 word \<Rightarrow> mem_range" where
  "MemRange start sz = \<lparr>r_start = start, r_end = start + sz, r_size = sz\<rparr>"

record mem_block = mem_range +
  mb_addr :: "64 word"

definition MemBlock :: "64 word \<Rightarrow> 64 word \<Rightarrow> mem_block" where
  "MemBlock addr sz = mem_range.extend (MemRange addr sz) \<lparr>mb_addr = addr\<rparr>"

definition block_reset :: "64 word \<Rightarrow> 64 word \<Rightarrow> mem_block \<Rightarrow> mem_block" where
  "block_reset addr sz b = b\<lparr>r_start := addr, r_size := sz, r_end := addr + sz, mb_addr := addr\<rparr>"

record arena = mem_range +
  ar_addr :: "64 word"
  ar_cursor :: "64 word"

definition MemoryArena :: "64 word \<Rightarrow> 64 word \<Rightarrow> arena" where
  "MemoryArena addr sz = mem_range.extend (MemRange addr sz) \<lparr>ar_addr = addr, ar_cursor = addr\<rparr>"

definition allocMemBlock :: "64 word \<Rightarrow> arena \<Rightarrow> mem_block option \<times> arena" where
  "allocMemBlock sz a =
     (if r_end a - ar_cursor a < sz then (None, a)
      else (Some (MemBlock (ar_cursor a) sz), a\<lparr>ar_cursor := ar_cursor a + sz\<rparr>))"

section \<open>The operating system\<close>

datatype MemoryPermission = kNoAccess | kRead | kReadWrite | kReadWriteExecute | kReadExecute

datatype os_call =
    Call_mmap "64 word option" "64 word" MemoryPermission
  | Call_mprotect "64 word" "64 word" MemoryPermission

record allocator =
  code_arenas :: "arena list"
  data_arenas :: "arena list"
  os_calls :: "(os_call \<times> 64 word option) list"

text \<open>What the kernel answers to a call after the calls so far.\<close>

type_synonym kernel = "(os_call \<times> 64 word option) list \<Rightarrow> os_call \<Rightarrow> 64 word option"

text \<open>\<open>OSMemory::Allocate\<close>: \<open>MAP_FIXED\<close> is set exactly when an address is given; the result is the null
  pointer when the call fails.\<close>

definition OSMemory_Allocate ::
  "kernel \<Rightarrow> 64 word \<Rightarrow> MemoryPermission \<Rightarrow> 64 word \<Rightarrow> allocator \<Rightarrow> 64 word \<times> allocator" where
  "OSMemory_Allocate mmap sz access fixed_address m =
     (let c = Call_mmap (if fixed_address \<noteq> 0 then Some fixed_address else None) sz access;
          r = mmap (os_calls m) c
      in (case r of None \<Rightarrow> 0 | Some a \<Rightarrow> a, m\<lparr>os_calls := os_calls m @ [(c, r)]\<rparr>))"

definition OSMemory_SetPermission :: "64 word \<Rightarrow> 64 word \<Rightarrow> MemoryPermission \<Rightarrow> allocator \<Rightarrow> allocator" where
  "OSMemory_SetPermission address sz access m =
     m\<lparr>os_calls := os_calls m @ [(Call_mprotect address sz access, None)]\<rparr>"

section \<open>The default allocator\<close>

text \<open>The loop over the arenas: the block of the first arena that has room.\<close>

fun alloc_first :: "64 word \<Rightarrow> arena list \<Rightarrow> mem_block option \<times> arena list" where
  "alloc_first sz [] = (None, [])"
| "alloc_first sz (a # as) =
     (case allocMemBlock sz a of
        (Some b, a') \<Rightarrow> (Some b, a' # as)
      | (None, _) \<Rightarrow> (let (r, as') = alloc_first sz as in (r, a # as')))"

definition allocateCodeMemoryArena ::
  "kernel \<Rightarrow> 64 word \<Rightarrow> 32 word \<Rightarrow> allocator \<Rightarrow> (arena \<times> allocator) res" where
  "allocateCodeMemoryArena mmap page sz m =
     (if ucast sz mod page = 0 then
        let (addr, m1) = OSMemory_Allocate mmap (ucast sz) kNoAccess 0 m;
            m2 = OSMemory_SetPermission addr (ucast sz) kReadExecute m1;
            a = MemoryArena addr (ucast sz)
        in Inr (a, m2\<lparr>code_arenas := code_arenas m2 @ [a]\<rparr>)
      else Inl Assert_Failed)"

definition allocateExecBlock ::
  "kernel \<Rightarrow> 64 word \<Rightarrow> 32 word \<Rightarrow> allocator \<Rightarrow> (mem_block \<times> allocator) res" where
  "allocateExecBlock mmap page sz m =
     (case alloc_first (ucast sz) (code_arenas m) of
        (Some b, as) \<Rightarrow> Inr (b, m\<lparr>code_arenas := as\<rparr>)
      | (None, _) \<Rightarrow>
          let arena_size = ucast (ALIGN_CEIL (ucast sz) page) in
          res_bind (allocateCodeMemoryArena mmap page arena_size m) (\<lambda>(a, m1).
          case allocMemBlock (ucast sz) a of
            (Some b, a') \<Rightarrow> Inr (b, m1\<lparr>code_arenas := (code_arenas m1)[length (code_arenas m1) - 1 := a']\<rparr>)
          | (None, _) \<Rightarrow> Inl Assert_Failed))"

definition allocateExecMemory ::
  "kernel \<Rightarrow> 64 word \<Rightarrow> 32 word \<Rightarrow> allocator \<Rightarrow> (64 word \<times> allocator) res" where
  "allocateExecMemory mmap page sz m =
     res_bind (allocateExecBlock mmap page sz m) (\<lambda>(b, m1). Inr (mb_addr b, m1))"

definition allocateDataMemoryArena ::
  "kernel \<Rightarrow> 64 word \<Rightarrow> 32 word \<Rightarrow> allocator \<Rightarrow> arena \<times> allocator" where
  "allocateDataMemoryArena mmap page sz m =
     (let buffer_size = ucast (ucast (ALIGN_CEIL (ucast sz) page) :: 32 word);
          (addr, m1) = OSMemory_Allocate mmap buffer_size kNoAccess 0 m;
          m2 = OSMemory_SetPermission addr buffer_size kReadWrite m1;
          a = MemoryArena addr buffer_size
      in (a, m2\<lparr>data_arenas := data_arenas m2 @ [a]\<rparr>))"

definition allocateDataBlock ::
  "kernel \<Rightarrow> 64 word \<Rightarrow> 32 word \<Rightarrow> allocator \<Rightarrow> (mem_block \<times> allocator) res" where
  "allocateDataBlock mmap page sz m =
     (case alloc_first (ucast sz) (data_arenas m) of
        (Some b, as) \<Rightarrow> Inr (b, m\<lparr>data_arenas := as\<rparr>)
      | (None, _) \<Rightarrow>
          res_bind (allocateCodeMemoryArena mmap page sz m) (\<lambda>(a, m1).
          case allocMemBlock (ucast sz) a of
            (Some b, a') \<Rightarrow> Inr (b, m1\<lparr>code_arenas := (code_arenas m1)[length (code_arenas m1) - 1 := a']\<rparr>)
          | (None, _) \<Rightarrow> Inl Assert_Failed))"

definition allocateDataMemory ::
  "kernel \<Rightarrow> 64 word \<Rightarrow> 32 word \<Rightarrow> allocator \<Rightarrow> (64 word \<times> allocator) res" where
  "allocateDataMemory mmap page sz m =
     res_bind (allocateDataBlock mmap page sz m) (\<lambda>(b, m1). Inr (mb_addr b, m1))"

section \<open>The near allocator\<close>

text \<open>The part of an arena's free memory inside the search range, if it is large enough; zero means
  none.\<close>

definition near_in_arena :: "64 word \<Rightarrow> 64 word \<Rightarrow> arena \<Rightarrow> 32 word \<Rightarrow> 64 word" where
  "near_in_arena min_valid_addr max_valid_addr a sz =
     (let unused_mem_start = ar_cursor a; unused_mem_end = ar_addr a + r_size a in
      if unused_mem_end < min_valid_addr \<or> unused_mem_start > max_valid_addr then 0
      else
        let unused_mem_start = max unused_mem_start min_valid_addr;
            unused_mem_end = min unused_mem_end max_valid_addr in
        if unused_mem_start \<ge> unused_mem_end then 0
        else if unused_mem_end - unused_mem_start < ucast sz then 0
        else unused_mem_start)"

text \<open>The two loops: over the code arenas, which stops at the first hit, and over the data arenas,
  which does not. The result is the index of the arena the loop ends on and the last address.\<close>

fun near_code_loop :: "64 word \<Rightarrow> 64 word \<Rightarrow> 32 word \<Rightarrow> nat \<Rightarrow> arena list \<Rightarrow> nat \<times> 64 word" where
  "near_code_loop lo hi sz i [] = (i - 1, 0)"
| "near_code_loop lo hi sz i (a # as) =
     (let u = near_in_arena lo hi a sz in
      if u = 0 then near_code_loop lo hi sz (i + 1) as else (i, u))"

fun near_data_loop :: "64 word \<Rightarrow> 64 word \<Rightarrow> 32 word \<Rightarrow> nat \<Rightarrow> 64 word \<Rightarrow> arena list \<Rightarrow> nat \<times> 64 word" where
  "near_data_loop lo hi sz i u [] = (i - 1, u)"
| "near_data_loop lo hi sz i u (a # as) =
     near_data_loop lo hi sz (i + 1) (near_in_arena lo hi a sz) as"

text \<open>The placeholder in front of the block, then the block.\<close>

definition alloc_at :: "64 word \<Rightarrow> 32 word \<Rightarrow> arena \<Rightarrow> mem_block option \<times> arena" where
  "alloc_at unused_mem sz a =
     (let placeholder_block_size = unused_mem - ar_cursor a
      in allocMemBlock (ucast sz) (snd (allocMemBlock placeholder_block_size a)))"

definition allocateNearBlockFromDefaultAllocator ::
  "32 word \<Rightarrow> 64 word \<Rightarrow> 64 word \<Rightarrow> bool \<Rightarrow> allocator \<Rightarrow> mem_block option \<times> allocator" where
  "allocateNearBlockFromDefaultAllocator sz pos search_range executable m =
     (let min_valid_addr = pos - search_range; max_valid_addr = pos + search_range in
      if executable then
        let (i, unused_mem) = near_code_loop min_valid_addr max_valid_addr sz 0 (code_arenas m) in
        if unused_mem = 0 then (None, m)
        else
          let (b, a) = alloc_at unused_mem sz (code_arenas m ! i)
          in (b, m\<lparr>code_arenas := (code_arenas m)[i := a]\<rparr>)
      else
        let (i, unused_mem) = near_data_loop min_valid_addr max_valid_addr sz 0 0 (data_arenas m) in
        if unused_mem = 0 then (None, m)
        else
          let (b, a) = alloc_at unused_mem sz (data_arenas m ! i)
          in (b, m\<lparr>data_arenas := (data_arenas m)[i := a]\<rparr>))"

definition near_between_regions :: "64 word \<Rightarrow> 64 word \<Rightarrow> mem_range \<Rightarrow> mem_range \<Rightarrow> 32 word \<Rightarrow> 64 word" where
  "near_between_regions min_valid_addr max_valid_addr region next_region sz =
     (let unused_mem_start = r_start region + r_size region; unused_mem_end = r_start next_region in
      if unused_mem_end < min_valid_addr \<or> unused_mem_start > max_valid_addr then 0
      else
        let unused_mem_start = max (ALIGN_FLOOR unused_mem_start 4) min_valid_addr;
            unused_mem_end = min unused_mem_end max_valid_addr in
        if unused_mem_start \<ge> unused_mem_end then 0
        else if unused_mem_end - unused_mem_start < ucast sz then 0
        else unused_mem_start)"

fun near_region_loop :: "64 word \<Rightarrow> 64 word \<Rightarrow> 32 word \<Rightarrow> mem_range list \<Rightarrow> 64 word" where
  "near_region_loop lo hi sz (r # s # rs) =
     (let u = near_between_regions lo hi r s sz in
      if u = 0 then near_region_loop lo hi sz (s # rs) else u)"
| "near_region_loop lo hi sz _ = 0"

definition allocateNearBlockFromUnusedRegion ::
  "kernel \<Rightarrow> 64 word \<Rightarrow> mem_range list \<Rightarrow> 32 word \<Rightarrow> 64 word \<Rightarrow> 64 word \<Rightarrow> bool \<Rightarrow>
   allocator \<Rightarrow> mem_block option \<times> allocator" where
  "allocateNearBlockFromUnusedRegion mmap page regions sz pos search_range executable m =
     (let min_valid_addr = pos - search_range; max_valid_addr = pos + search_range;
          unused_mem = near_region_loop min_valid_addr max_valid_addr sz regions in
      if unused_mem = 0 then (None, m)
      else
        let first_page_addr = ALIGN_FLOOR unused_mem page;
            end_page_addr = ALIGN_FLOOR (unused_mem + ucast sz) page;
            arena_size = end_page_addr - first_page_addr + page;
            (addr, m1) = OSMemory_Allocate mmap arena_size kNoAccess first_page_addr m in
        if addr = 0 then (None, m1)
        else
          let m2 = OSMemory_SetPermission first_page_addr arena_size
                     (if executable then kReadExecute else kReadWrite) m1;
              (b, a) = alloc_at unused_mem sz (MemoryArena first_page_addr arena_size)
          in (b, if executable then m2\<lparr>code_arenas := code_arenas m2 @ [a]\<rparr>
                 else m2\<lparr>data_arenas := data_arenas m2 @ [a]\<rparr>))"

definition allocateNearBlock ::
  "kernel \<Rightarrow> 64 word \<Rightarrow> mem_range list \<Rightarrow> 32 word \<Rightarrow> 64 word \<Rightarrow> 64 word \<Rightarrow> bool \<Rightarrow>
   allocator \<Rightarrow> mem_block option \<times> allocator" where
  "allocateNearBlock mmap page regions sz pos search_range executable m =
     (case allocateNearBlockFromDefaultAllocator sz pos search_range executable m of
        (Some b, m1) \<Rightarrow> (Some b, m1)
      | (None, m1) \<Rightarrow> allocateNearBlockFromUnusedRegion mmap page regions sz pos search_range executable m1)"

definition allocateNearExecMemory ::
  "kernel \<Rightarrow> 64 word \<Rightarrow> mem_range list \<Rightarrow> 32 word \<Rightarrow> 64 word \<Rightarrow> 64 word \<Rightarrow>
   allocator \<Rightarrow> 64 word \<times> allocator" where
  "allocateNearExecMemory mmap page regions sz pos search_range m =
     (case allocateNearBlock mmap page regions sz pos search_range True m of
        (Some b, m1) \<Rightarrow> (mb_addr b, m1) | (None, m1) \<Rightarrow> (0, m1))"

definition allocateNearDataMemory ::
  "kernel \<Rightarrow> 64 word \<Rightarrow> mem_range list \<Rightarrow> 32 word \<Rightarrow> 64 word \<Rightarrow> 64 word \<Rightarrow>
   allocator \<Rightarrow> 64 word \<times> allocator" where
  "allocateNearDataMemory mmap page regions sz pos search_range m =
     (case allocateNearBlock mmap page regions sz pos search_range False m of
        (Some b, m1) \<Rightarrow> (mb_addr b, m1) | (None, m1) \<Rightarrow> (0, m1))"

section \<open>Blocks do not overlap\<close>

definition span :: "mem_block \<Rightarrow> nat set" where
  "span b = {unat (mb_addr b)..<unat (mb_addr b) + unat (r_size b)}"

definition free_area :: "arena \<Rightarrow> nat set" where
  "free_area a = {unat (ar_cursor a)..<unat (r_end a)}"

definition arena_ok :: "arena \<Rightarrow> bool" where
  "arena_ok a \<longleftrightarrow> r_end a = ar_addr a + r_size a \<and> unat (ar_addr a) + unat (r_size a) < 2 ^ 64 \<and>
     ar_addr a \<le> ar_cursor a \<and> ar_cursor a \<le> r_end a"

definition apart :: "nat set list \<Rightarrow> bool" where
  "apart As \<longleftrightarrow> sorted_wrt (\<lambda>A B. A \<inter> B = {}) As"

lemma apart_nth: "apart As \<longleftrightarrow> (\<forall>i j. i < length As \<longrightarrow> j < length As \<longrightarrow> i \<noteq> j \<longrightarrow> As ! i \<inter> As ! j = {})"
proof
  assume a: "apart As"
  then have lt: "As ! i \<inter> As ! j = {}" if "i < j" "j < length As" for i j
    using that by (simp add: apart_def sorted_wrt_iff_nth_less)
  show "\<forall>i j. i < length As \<longrightarrow> j < length As \<longrightarrow> i \<noteq> j \<longrightarrow> As ! i \<inter> As ! j = {}"
  proof (intro allI impI)
    fix i j assume "i < length As" "j < length As" "i \<noteq> j"
    then show "As ! i \<inter> As ! j = {}" using lt [of i j] lt [of j i] by (cases "i < j") auto
  qed
qed (simp add: apart_def sorted_wrt_iff_nth_less)

lemma apart_update:
  assumes "apart As" "i < length As" "B \<subseteq> As ! i"
  shows "apart (As[i := B])"
  unfolding apart_nth
proof (intro allI impI)
  fix j k assume jk: "j < length (As[i := B])" "k < length (As[i := B])" "j \<noteq> k"
  then have "As ! j \<inter> As ! k = {}" using assms(1) by (simp add: apart_nth)
  with jk assms(2,3) show "As[i := B] ! j \<inter> As[i := B] ! k = {}"
    by (auto simp: nth_list_update)
qed

lemma alloc_block:
  assumes "arena_ok a" "allocMemBlock sz a = (Some b, a')"
  shows "arena_ok a' \<and> mb_addr b = ar_cursor a \<and> r_size b = sz \<and> span b \<subseteq> free_area a \<and>
    free_area a' \<subseteq> free_area a \<and> span b \<inter> free_area a' = {} \<and> r_end a' = r_end a \<and>
    unat (ar_cursor a') = unat (ar_cursor a) + unat sz"
proof -
  have c: "ar_cursor a \<le> r_end a" using assms(1) unfolding arena_ok_def by blast
  have sz: "sz \<le> r_end a - ar_cursor a" and b: "b = MemBlock (ar_cursor a) sz"
    and a': "a' = a\<lparr>ar_cursor := ar_cursor a + sz\<rparr>"
    using assms(2) by (auto simp: allocMemBlock_def split: if_splits)
  have "unat (r_end a - ar_cursor a) = unat (r_end a) - unat (ar_cursor a)" using c by (simp add: unat_sub)
  with sz c have le: "unat (ar_cursor a) + unat sz \<le> unat (r_end a)"
    by (simp add: word_le_nat_alt)
  moreover have "unat (r_end a) < 2 ^ 64" by (rule order_less_le_trans [OF unsigned_less]) simp
  ultimately have u: "unat (ar_cursor a + sz) = unat (ar_cursor a) + unat sz"
    by (subst unat_add_lem [THEN iffD1]) simp_all
  have "ar_addr a \<le> ar_cursor a" using assms(1) by (simp add: arena_ok_def)
  with u le assms(1) have "arena_ok a'" by (simp add: arena_ok_def a' word_le_nat_alt)
  with u le show ?thesis
    by (auto simp: b a' MemBlock_def MemRange_def mem_range.defs span_def free_area_def)
qed

lemma alloc_at_block:
  assumes "arena_ok a" "alloc_at u sz a = (Some b, a')" "ar_cursor a \<le> u" "u \<le> r_end a"
  shows "arena_ok a' \<and> mb_addr b = u \<and> r_size b = ucast sz \<and> span b \<subseteq> free_area a \<and>
    free_area a' \<subseteq> free_area a \<and> span b \<inter> free_area a' = {} \<and> r_end a' = r_end a"
proof -
  have "\<not> r_end a - ar_cursor a < u - ar_cursor a"
    using assms(3,4) by (simp add: word_less_nat_alt word_le_nat_alt unat_sub)
  then obtain p a1 where p: "allocMemBlock (u - ar_cursor a) a = (Some p, a1)"
    by (auto simp: allocMemBlock_def)
  have b: "allocMemBlock (ucast sz) a1 = (Some b, a')" using assms(2) p by (simp add: alloc_at_def)
  note 1 = alloc_block [OF assms(1) p]
  note 2 = alloc_block [OF _ b]
  have "unat (ar_cursor a1) = unat u"
    using 1 assms(3) by (simp add: unat_sub word_le_nat_alt)
  then have "ar_cursor a1 = u" by (simp add: word_unat_eq_iff)
  with 1 2 show ?thesis by auto
qed

definition arenas :: "allocator \<Rightarrow> arena list" where
  "arenas m = code_arenas m @ data_arenas m"

text \<open>The addresses of the mappings the allocator has asked for.\<close>

definition mapped :: "(os_call \<times> 64 word option) list \<Rightarrow> nat set" where
  "mapped h = (\<Union>(c, r) \<in> set h. case (c, r) of
     (Call_mmap _ sz _, Some a) \<Rightarrow> {unat a..<unat a + unat sz} | _ \<Rightarrow> {})"

text \<open>What the allocator relies on of \<open>mmap\<close> without \<open>MAP_FIXED\<close>: a new mapping lies apart from the
  earlier ones and below the end of the address space. The call can fail; the code does not look at that.\<close>

definition kernel_ok :: "kernel \<Rightarrow> bool" where
  "kernel_ok mmap \<longleftrightarrow> (\<forall>h sz p a. mmap h (Call_mmap None sz p) = Some a \<longrightarrow> unat a + unat sz < 2 ^ 64 \<and>
     {unat a..<unat a + unat sz} \<inter> mapped h = {})"

fun mmap_failed :: "os_call \<times> 64 word option \<Rightarrow> bool" where
  "mmap_failed (Call_mmap _ _ _, None) \<longleftrightarrow> True"
| "mmap_failed _ \<longleftrightarrow> False"

definition no_failure :: "allocator \<Rightarrow> bool" where
  "no_failure m \<longleftrightarrow> \<not> list_ex mmap_failed (os_calls m)"

text \<open>Every arena is well formed, the free areas lie apart from each other and from all blocks handed
  out, and everything lies in mappings of the allocator.\<close>

definition alloc_inv :: "allocator \<Rightarrow> mem_block list \<Rightarrow> bool" where
  "alloc_inv m bs \<longleftrightarrow> list_all arena_ok (arenas m) \<and> apart (map free_area (arenas m)) \<and> apart (map span bs) \<and>
     (\<forall>b \<in> set bs. \<forall>a \<in> set (arenas m). span b \<inter> free_area a = {}) \<and>
     (\<forall>a \<in> set (arenas m). free_area a \<subseteq> mapped (os_calls m)) \<and> (\<forall>b \<in> set bs. span b \<subseteq> mapped (os_calls m))"

lemma alloc_inv_update:
  assumes "alloc_inv m bs" "i < length (arenas m)" "arenas m' = (arenas m)[i := a']" "os_calls m' = os_calls m"
    "arena_ok a'" "span b \<subseteq> free_area (arenas m ! i)" "free_area a' \<subseteq> free_area (arenas m ! i)"
    "span b \<inter> free_area a' = {}"
  shows "alloc_inv m' (b # bs)"
proof -
  let ?a = "arenas m ! i"
  have a: "?a \<in> set (arenas m)" using assms(2) by simp
  have "apart (map free_area (arenas m'))"
    using assms(1,2,7) by (simp add: assms(3) map_update alloc_inv_def apart_update)
  moreover have "list_all arena_ok (arenas m')"
    using assms(1,5) by (auto simp: alloc_inv_def assms(3) list_all_iff dest!: set_update_subset_insert [THEN subsetD])
  moreover have "span b \<inter> free_area x = {}" if "x \<in> set (arenas m')" for x
  proof -
    from that obtain j where j: "j < length (arenas m)" "x = (arenas m)[i := a'] ! j"
      by (auto simp: assms(3) in_set_conv_nth)
    show ?thesis
    proof (cases "j = i")
      case True
      with j assms(2,8) show ?thesis by simp
    next
      case False
      with j have "x = arenas m ! j" by simp
      with False j assms(1,2) have "free_area ?a \<inter> free_area x = {}"
        by (simp add: alloc_inv_def apart_nth)
      with assms(6) show ?thesis by blast
    qed
  qed
  moreover have "free_area x \<subseteq> mapped (os_calls m')" if "x \<in> set (arenas m')" for x
    using set_updateD [OF that [unfolded assms(3)]] assms(1,7) a unfolding alloc_inv_def assms(4) by blast
  moreover have "span c \<inter> free_area x = {}" if "c \<in> set bs" "x \<in> set (arenas m')" for c x
    using set_updateD [OF that(2) [unfolded assms(3)]] that(1) assms(1,7) a unfolding alloc_inv_def by blast
  moreover have "span b \<inter> span c = {}" if "c \<in> set bs" for c
    using that assms(1,6) a by (auto simp: alloc_inv_def)
  moreover have "span b \<subseteq> mapped (os_calls m)"
    using assms(1,6) a unfolding alloc_inv_def by blast
  ultimately show ?thesis
    using assms(1) by (auto simp: alloc_inv_def assms(4) apart_def)
qed

section \<open>Every request keeps the invariant\<close>

lemma alloc_first_spec:
  "alloc_first sz as = (Some b, as') \<Longrightarrow>
   \<exists>i a'. i < length as \<and> allocMemBlock sz (as ! i) = (Some b, a') \<and> as' = as[i := a']"
proof (induction as arbitrary: as')
  case (Cons a as)
  show ?case
  proof (cases "allocMemBlock sz a")
    case (Pair r a1)
    show ?thesis
    proof (cases r)
      case None
      obtain q as1 where q: "alloc_first sz as = (q, as1)" by (cases "alloc_first sz as")
      with Cons.prems Pair None have "q = Some b" "as' = a # as1" by simp_all
      with q Cons.IH obtain i a' where "i < length as" "allocMemBlock sz (as ! i) = (Some b, a')" "as1 = as[i := a']"
        by blast
      with \<open>as' = a # as1\<close> show ?thesis by (intro exI [of _ "Suc i"] exI [of _ a']) simp
    next
      case (Some c)
      with Pair Cons.prems show ?thesis by (intro exI [of _ 0] exI [of _ a1]) simp
    qed
  qed
qed simp

lemma kernel_okD:
  "kernel_ok mmap \<Longrightarrow> mmap h (Call_mmap None sz p) = Some a \<Longrightarrow>
   unat a + unat sz < 2 ^ 64 \<and> {unat a..<unat a + unat sz} \<inter> mapped h = {}"
  by (simp add: kernel_ok_def)

lemma alloc_inv_new_arena:
  assumes "alloc_inv m bs" "kernel_ok mmap" "mmap (os_calls m) (Call_mmap None sz p) = Some addr"
    "code_arenas m1 = code_arenas m @ [MemoryArena addr sz]" "data_arenas m1 = data_arenas m"
    "os_calls m1 = os_calls m @ [(Call_mmap None sz p, Some addr), (Call_mprotect addr sz q, None)]"
  shows "alloc_inv m1 bs"
proof -
  let ?a = "MemoryArena addr sz"
  have f: "unat addr + unat sz < 2 ^ 64" "{unat addr..<unat addr + unat sz} \<inter> mapped (os_calls m) = {}"
    using kernel_okD [OF assms(2,3)] by blast+
  then have e: "unat (addr + sz) = unat addr + unat sz" by (subst unat_add_lem [THEN iffD1]) simp_all
  then have a: "free_area ?a = {unat addr..<unat addr + unat sz}" and ok: "arena_ok ?a"
    using f(1) by (simp_all add: free_area_def MemoryArena_def MemRange_def mem_range.defs arena_ok_def word_le_nat_alt)
  have M: "mapped (os_calls m1) = mapped (os_calls m) \<union> free_area ?a"
    by (auto simp: mapped_def assms(6) a)
  have "free_area x \<inter> free_area ?a = {}" if "x \<in> set (arenas m)" for x
    using assms(1) that f(2) unfolding alloc_inv_def a by blast
  moreover have "span b \<inter> free_area ?a = {}" if "b \<in> set bs" for b
    using assms(1) that f(2) unfolding alloc_inv_def a by blast
  ultimately show ?thesis
    using assms(1) ok unfolding alloc_inv_def M arenas_def assms(4,5)
    by (auto simp: apart_def sorted_wrt_append)
qed

lemma exec_block_inv:
  assumes "alloc_inv m bs" "kernel_ok mmap" "allocateExecBlock mmap page sz m = Inr (b, m')" "no_failure m'"
  shows "alloc_inv m' (b # bs) \<and> r_size b = ucast sz"
proof (cases "alloc_first (ucast sz) (code_arenas m)")
  case (Pair r as)
  show ?thesis
  proof (cases r)
    case (Some c)
    with Pair assms(3) have f: "alloc_first (ucast sz) (code_arenas m) = (Some b, as)" "m' = m\<lparr>code_arenas := as\<rparr>"
      by (simp_all add: allocateExecBlock_def)
    from alloc_first_spec [OF f(1)] obtain i a' where
      i: "i < length (code_arenas m)" "allocMemBlock (ucast sz) (code_arenas m ! i) = (Some b, a')"
         "as = (code_arenas m)[i := a']" by blast
    have n: "arenas m ! i = code_arenas m ! i" "i < length (arenas m)"
      using i(1) by (simp_all add: arenas_def nth_append)
    then have "arena_ok (code_arenas m ! i)" using assms(1) by (auto simp: alloc_inv_def list_all_length)
    note ab = alloc_block [OF this i(2)]
    have "alloc_inv m' (b # bs)"
      by (rule alloc_inv_update [OF assms(1), of i _ a'])
        (use i n ab in \<open>simp_all add: f(2) arenas_def list_update_append\<close>)
    with ab show ?thesis by simp
  next
    case None
    define n :: "64 word" where "n = ucast (ucast (ALIGN_CEIL (ucast sz) page) :: 32 word)"
    obtain addr where addr: "mmap (os_calls m) (Call_mmap None n kNoAccess) = Some addr"
    proof (cases "mmap (os_calls m) (Call_mmap None n kNoAccess)")
      case n: None
      from Pair None assms(3) have "(Call_mmap None n kNoAccess, None) \<in> set (os_calls m')"
        by (auto simp: allocateExecBlock_def allocateCodeMemoryArena_def OSMemory_Allocate_def
            OSMemory_SetPermission_def Let_def n [unfolded n_def] n_def split: if_splits option.splits prod.splits)
      with assms(4) show ?thesis by (force simp: no_failure_def list_ex_iff)
    qed
    let ?a = "MemoryArena addr n"
    define m1 where "m1 = m\<lparr>os_calls := os_calls m @ [(Call_mmap None n kNoAccess, Some addr), (Call_mprotect addr n kReadExecute, None)],
                   code_arenas := code_arenas m @ [?a]\<rparr>"
    from Pair None assms(3) obtain a' where a': "allocMemBlock (ucast sz) ?a = (Some b, a')"
      "m' = m1\<lparr>code_arenas := (code_arenas m1)[length (code_arenas m1) - 1 := a']\<rparr>"
      by (auto simp: allocateExecBlock_def allocateCodeMemoryArena_def OSMemory_Allocate_def OSMemory_SetPermission_def
          Let_def addr [unfolded n_def] n_def m1_def split: if_splits option.splits prod.splits)
    have inv1: "alloc_inv m1 bs"
      by (rule alloc_inv_new_arena [OF assms(1,2) addr]) (simp_all add: m1_def)
    let ?i = "length (code_arenas m)"
    have at: "arenas m1 ! ?i = ?a" "?i < length (arenas m1)" by (simp_all add: arenas_def m1_def nth_append)
    then have "arena_ok ?a" using inv1 by (auto simp: alloc_inv_def list_all_length)
    note ab = alloc_block [OF this a'(1)]
    have "alloc_inv m' (b # bs)"
      by (rule alloc_inv_update [OF inv1, of ?i _ a'])
        (use at ab in \<open>simp_all add: a'(2) arenas_def m1_def list_update_append\<close>)
    with ab show ?thesis by simp
  qed
qed

lemma near_if:
  "(if c then 0 else if s \<ge> e then 0 else if e - s < k then 0 else s) = u \<Longrightarrow> u \<noteq> (0 :: 64 word) \<Longrightarrow>
   u = s \<and> u < e \<and> \<not> e - u < k"
  by (auto split: if_splits)

lemma unat_ucast_64: "unat (ucast (x :: 32 word) :: 64 word) = unat x"
  by (simp add: unsigned_ucast_eq take_bit_nat_eq_self order_less_le_trans [OF unsigned_less])

lemma room_for:
  fixes u e :: "64 word" and sz :: "32 word"
  shows "u < e \<Longrightarrow> \<not> e - u < ucast sz \<Longrightarrow> unat u + unat sz \<le> unat e"
  by (auto simp: word_less_nat_alt unat_sub word_le_nat_alt unat_ucast_64)

lemma near_in_arena_spec:
  assumes "near_in_arena lo hi a sz = u" "u \<noteq> 0" "arena_ok a"
  shows "ar_cursor a \<le> u \<and> u \<le> r_end a \<and> lo \<le> u \<and> unat u + unat sz \<le> unat (r_end a) \<and>
    unat u + unat sz \<le> unat hi"
proof -
  let ?e = "min (r_end a) hi"
  have e: "r_end a = ar_addr a + r_size a" using assms(3) unfolding arena_ok_def by blast
  have u: "u = max (ar_cursor a) lo" "u < ?e" "\<not> ?e - u < ucast sz"
    using near_if [OF assms(1) [unfolded near_in_arena_def Let_def, folded e] assms(2)] by blast+
  have "unat u + unat sz \<le> unat ?e" by (rule room_for [OF u(2,3)])
  moreover have "unat ?e \<le> unat (r_end a)" "unat ?e \<le> unat hi"
    by (simp_all flip: word_le_nat_alt)
  moreover have "ar_cursor a \<le> u" "lo \<le> u" using u(1) by simp_all
  ultimately show ?thesis by (simp add: word_le_nat_alt)
qed

lemma near_code_loop_spec:
  "near_code_loop lo hi sz i as = (j, u) \<Longrightarrow> u \<noteq> 0 \<Longrightarrow>
   i \<le> j \<and> j - i < length as \<and> near_in_arena lo hi (as ! (j - i)) sz = u"
  by (induction lo hi sz i as rule: near_code_loop.induct)
    (auto simp: Let_def Suc_diff_le split: if_splits)

lemma near_data_loop_spec:
  "near_data_loop lo hi sz i v as = (j, u) \<Longrightarrow> as \<noteq> [] \<Longrightarrow>
   j = i + length as - 1 \<and> u = near_in_arena lo hi (last as) sz"
proof (induction lo hi sz i v as rule: near_data_loop.induct)
  case (2 lo hi sz i v a as)
  then show ?case by (cases as) auto
qed simp

lemma alloc_at_near:
  assumes "near_in_arena lo hi a sz = u" "u \<noteq> 0" "arena_ok a"
  shows "\<exists>b a'. alloc_at u sz a = (Some b, a')"
proof -
  have n: "ar_cursor a \<le> u" "u \<le> r_end a" "unat u + unat sz \<le> unat (r_end a)"
    using near_in_arena_spec [OF assms] by auto
  then have "\<not> r_end a - ar_cursor a < u - ar_cursor a"
    by (simp add: word_less_nat_alt word_le_nat_alt unat_sub)
  then have "snd (allocMemBlock (u - ar_cursor a) a) = a\<lparr>ar_cursor := u\<rparr>"
    by (simp add: allocMemBlock_def)
  moreover have "\<not> r_end a - u < ucast sz"
    using n by (simp add: word_less_nat_alt unat_sub unat_ucast_64)
  ultimately show ?thesis by (simp add: alloc_at_def) (simp add: allocMemBlock_def)
qed

text \<open>A block of the default arenas near a position lies inside the search range.\<close>

lemma near_default_block:
  assumes "alloc_inv m bs" "allocateNearBlockFromDefaultAllocator sz pos search_range ex m = (Some b, m')"
  shows "alloc_inv m' (b # bs) \<and> r_size b = ucast sz \<and> pos - search_range \<le> mb_addr b \<and>
    unat (mb_addr b) + unat sz \<le> unat (pos + search_range)"
proof -
  let ?lo = "pos - search_range" and ?hi = "pos + search_range"
  define k where "k = (if ex then 0 else length (code_arenas m))"
  obtain i u a' where i: "i + k < length (arenas m)" "u \<noteq> 0"
    "near_in_arena ?lo ?hi (arenas m ! (i + k)) sz = u" "alloc_at u sz (arenas m ! (i + k)) = (Some b, a')"
    "arenas m' = (arenas m)[i + k := a']" "os_calls m' = os_calls m"
  proof (cases ex)
    case True
    obtain i u where iu: "near_code_loop ?lo ?hi sz 0 (code_arenas m) = (i, u)" by fastforce
    with True assms(2) have u: "u \<noteq> 0" by (auto simp: allocateNearBlockFromDefaultAllocator_def Let_def)
    obtain b1 a1 where a1: "alloc_at u sz (code_arenas m ! i) = (b1, a1)" by fastforce
    have "b1 = Some b" "m' = m\<lparr>code_arenas := (code_arenas m)[i := a1]\<rparr>"
      using True assms(2) iu u a1 by (simp_all add: allocateNearBlockFromDefaultAllocator_def Let_def)
    with near_code_loop_spec [OF iu u] a1 u True show ?thesis
      by (intro that [of i u a1]) (simp_all add: k_def arenas_def nth_append list_update_append)
  next
    case False
    obtain i u where iu: "near_data_loop ?lo ?hi sz 0 0 (data_arenas m) = (i, u)" by fastforce
    with False assms(2) have u: "u \<noteq> 0" by (auto simp: allocateNearBlockFromDefaultAllocator_def Let_def)
    have ne: "data_arenas m \<noteq> []" using iu u by (cases "data_arenas m") auto
    obtain b1 a1 where a1: "alloc_at u sz (data_arenas m ! i) = (b1, a1)" by fastforce
    have "b1 = Some b" "m' = m\<lparr>data_arenas := (data_arenas m)[i := a1]\<rparr>"
      using False assms(2) iu u a1 by (simp_all add: allocateNearBlockFromDefaultAllocator_def Let_def)
    with near_data_loop_spec [OF iu ne] a1 u ne False show ?thesis
      by (intro that [of i u a1]) (simp_all add: k_def arenas_def nth_append list_update_append last_conv_nth)
  qed
  have ok: "arena_ok (arenas m ! (i + k))" using assms(1) i(1) by (auto simp: alloc_inv_def list_all_length)
  note n = near_in_arena_spec [OF i(3,2) ok]
  note ab = alloc_at_block [OF ok i(4)]
  have "alloc_inv m' (b # bs)"
    by (rule alloc_inv_update [OF assms(1) i(1) i(5,6)]) (use ab n in auto)
  with ab n show ?thesis by simp
qed

section \<open>Sources of blocks\<close>

text \<open>An allocator answers a request with a block, or not at all; its invariant relates its state to
  the blocks handed out.\<close>

fun serve :: "('r \<Rightarrow> 's \<Rightarrow> ('b \<times> 's) option) \<Rightarrow> 'r list \<Rightarrow> 's \<Rightarrow> 'b list \<Rightarrow> 'b list \<times> 's" where
  "serve alloc [] s bs = (bs, s)"
| "serve alloc (r # rs) s bs =
     (case alloc r s of None \<Rightarrow> serve alloc rs s bs | Some (b, s') \<Rightarrow> serve alloc rs s' (b # bs))"

locale block_source =
  fixes alloc :: "'r \<Rightarrow> 's \<Rightarrow> ('b \<times> 's) option"
    and inv :: "'s \<Rightarrow> 'b list \<Rightarrow> bool"
    and sound :: "'s \<Rightarrow> bool"
    and area :: "'b \<Rightarrow> nat set"
  assumes alloc_keeps: "inv s bs \<Longrightarrow> alloc r s = Some (b, s') \<Longrightarrow> sound s' \<Longrightarrow> inv s' (b # bs)"
    and sound_before: "alloc r s = Some (b, s') \<Longrightarrow> sound s' \<Longrightarrow> sound s"
    and inv_apart: "inv s bs \<Longrightarrow> apart (map area bs)"
begin

lemma serve_sound: "serve alloc rs s bs = (bs', s') \<Longrightarrow> sound s' \<Longrightarrow> sound s"
proof (induction rs arbitrary: s bs)
  case (Cons r rs)
  then show ?case by (cases "alloc r s") (auto dest: sound_before)
qed simp

lemma serve_inv: "inv s bs \<Longrightarrow> serve alloc rs s bs = (bs', s') \<Longrightarrow> sound s' \<Longrightarrow> inv s' bs'"
proof (induction rs arbitrary: s bs)
  case (Cons r rs)
  show ?case
  proof (cases "alloc r s")
    case (Some p)
    obtain b t where "p = (b, t)" by (cases p)
    with Cons.prems Some have t: "serve alloc rs t (b # bs) = (bs', s')" by simp
    then have "sound t" using Cons.prems(3) by (rule serve_sound)
    then have "inv t (b # bs)" using alloc_keeps Cons.prems(1) Some \<open>p = (b, t)\<close> by blast
    then show ?thesis using Cons.IH t Cons.prems(3) by blast
  qed (use Cons in simp)
qed simp

lemma served_apart: "inv s bs \<Longrightarrow> serve alloc rs s bs = (bs', s') \<Longrightarrow> sound s' \<Longrightarrow> apart (map area bs')"
  by (rule inv_apart) (rule serve_inv)

end

datatype request = Exec "32 word" | Near "32 word" "64 word" "64 word" bool

definition answer :: "kernel \<Rightarrow> 64 word \<Rightarrow> request \<Rightarrow> allocator \<Rightarrow> (mem_block \<times> allocator) option" where
  "answer mmap page r m =
     (case r of
        Exec sz \<Rightarrow> (case allocateExecBlock mmap page sz m of Inl _ \<Rightarrow> None | Inr p \<Rightarrow> Some p)
      | Near sz pos search_range ex \<Rightarrow>
          (case allocateNearBlockFromDefaultAllocator sz pos search_range ex m of
             (None, _) \<Rightarrow> None | (Some b, m1) \<Rightarrow> Some (b, m1)))"

lemma answer_inv:
  assumes "kernel_ok mmap" "alloc_inv m bs" "answer mmap page r m = Some (b, m')" "no_failure m'"
  shows "alloc_inv m' (b # bs)"
proof (cases r)
  case (Exec sz)
  with assms show ?thesis
    using exec_block_inv [OF assms(2,1) _ assms(4)] by (auto simp: answer_def split: sum.splits)
next
  case (Near sz pos search_range ex)
  with assms show ?thesis
    using near_default_block [OF assms(2)] by (auto simp: answer_def split: option.splits prod.splits)
qed

lemma answer_calls: "answer mmap page r m = Some (b, m') \<Longrightarrow> \<exists>h. os_calls m' = os_calls m @ h"
  by (cases r)
    (auto simp: answer_def allocateExecBlock_def allocateCodeMemoryArena_def OSMemory_Allocate_def
      OSMemory_SetPermission_def allocateNearBlockFromDefaultAllocator_def Let_def
      split: sum.splits if_splits option.splits prod.splits)

interpretation blocks: block_source "answer mmap page" "\<lambda>m bs. kernel_ok mmap \<and> alloc_inv m bs" no_failure span
  for mmap page
proof
  show "kernel_ok mmap \<and> alloc_inv m' (b # bs)"
    if "kernel_ok mmap \<and> alloc_inv m bs" "answer mmap page r m = Some (b, m')" "no_failure m'" for m bs r b m'
    using that answer_inv by blast
  show "no_failure m" if "answer mmap page r m = Some (b, m')" "no_failure m'" for m r b m'
    using that answer_calls by (fastforce simp: no_failure_def)
qed (simp add: alloc_inv_def)

definition empty_allocator :: allocator where
  "empty_allocator = \<lparr>code_arenas = [], data_arenas = [], os_calls = []\<rparr>"

lemma empty_inv: "alloc_inv empty_allocator []"
  by (simp add: alloc_inv_def empty_allocator_def arenas_def apart_def)

section \<open>Properties\<close>


text \<open>A kernel that maps one page, and no more.\<close>

definition one_page :: kernel where
  "one_page h c = (if h = [] \<and> c = Call_mmap None 0x1000 kNoAccess then Some 0x10000 else None)"

lemma one_page_ok: "kernel_ok one_page"
  by (auto simp: kernel_ok_def one_page_def mapped_def split: if_splits)

lemmas alloc_eval = answer_def allocateExecBlock_def allocateCodeMemoryArena_def OSMemory_Allocate_def
  OSMemory_SetPermission_def ALIGN_CEIL_def empty_allocator_def one_page_def Let_def MemoryArena_def
  allocMemBlock_def MemRange_def mem_range.defs MemBlock_def

definition two_blocks :: "mem_block list \<times> allocator" where
  "two_blocks = serve (answer one_page 0x1000) [Exec 16, Exec 40] empty_allocator []"

lemma two_blocks_eq:
  "map mb_addr (fst two_blocks) = [0x10010, 0x10000]" "no_failure (snd two_blocks)"
  by (simp_all add: two_blocks_def alloc_eval no_failure_def)


text \<open>Pages.\<close>

lemma unat_page: "k < 64 \<Longrightarrow> unat (2 ^ k :: 64 word) = 2 ^ k"
proof -
  assume k: "k < 64"
  have "unat (word_of_nat (2 ^ k) :: 64 word) = take_bit LENGTH(64) (2 ^ k)"
    by (simp only: unsigned_of_nat of_nat_id)
  also have "take_bit LENGTH(64) (2 ^ k) = (2 ^ k :: nat)" using k by (intro take_bit_nat_eq_self) (simp only: power_strict_increasing_iff, simp)
  finally show ?thesis by (simp only: of_nat_power of_nat_numeral)
qed

lemma unat_ALIGN_FLOOR: "k < 64 \<Longrightarrow> unat (ALIGN_FLOOR x (2 ^ k)) = unat x div 2 ^ k * 2 ^ k"
proof -
  have "2 ^ k - 1 = (mask k :: 64 word)" by (simp add: mask_eq_exp_minus_1)
  then have "ALIGN_FLOOR x (2 ^ k) = push_bit k (drop_bit k x)"
    unfolding ALIGN_FLOOR_def by (intro bit_word_eqI) (auto simp: bit_simps)
  moreover have "unat (drop_bit k x) = unat x div 2 ^ k" by (simp add: unat_drop_bit_word)
  moreover have "unat x div 2 ^ k * 2 ^ k < 2 ^ 64"
    by (rule le_less_trans [OF div_times_less_eq_dividend]) (rule order_less_le_trans [OF unsigned_less], simp)
  ultimately show "unat (ALIGN_FLOOR x (2 ^ k)) = unat x div 2 ^ k * 2 ^ k" if "k < 64"
    using that by (simp add: push_bit_eq_mult unat_word_ariths unat_page)
qed

lemma near_region_loop_spec:
  "near_region_loop lo hi sz rs = u \<Longrightarrow> u \<noteq> 0 \<Longrightarrow> lo \<le> u \<and> unat u + unat sz \<le> unat hi"
proof (induction lo hi sz rs rule: near_region_loop.induct)
  case (1 lo hi sz r s rs)
  show ?case
  proof (cases "near_between_regions lo hi r s sz = 0")
    case True
    with 1 show ?thesis by simp
  next
    case False
    with 1 have eq: "near_between_regions lo hi r s sz = u" by (simp add: Let_def)
    let ?e = "min (r_start s) hi"
    have u: "u = max (ALIGN_FLOOR (r_start r + r_size r) 4) lo" "u < ?e" "\<not> ?e - u < ucast sz"
      using near_if [OF eq [unfolded near_between_regions_def Let_def] 1(3)] by blast+
    have "unat u + unat sz \<le> unat ?e" by (rule room_for [OF u(2,3)])
    moreover have "unat ?e \<le> unat hi" by (simp flip: word_le_nat_alt)
    moreover have "lo \<le> u" using u(1) by simp
    ultimately show ?thesis by simp
  qed
qed simp_all

lemma unused_region_found:
  assumes "allocateNearBlockFromUnusedRegion mmap (2 ^ k) regions sz pos search_range ex m = (Some b, m')"
    "k < 63" "unat (pos + search_range) + 2 ^ k < 2 ^ 64"
  shows "mb_addr b = near_region_loop (pos - search_range) (pos + search_range) sz regions \<and> mb_addr b \<noteq> 0 \<and>
    pos - search_range \<le> mb_addr b \<and> unat (mb_addr b) + unat sz \<le> unat (pos + search_range) \<and> r_size b = ucast sz"
proof -
  let ?page = "2 ^ k :: 64 word"
  define u where "u = near_region_loop (pos - search_range) (pos + search_range) sz regions"
  define fp where "fp = ALIGN_FLOOR u ?page"
  define ep where "ep = ALIGN_FLOOR (u + ucast sz) ?page"
  define a where "a = MemoryArena fp (ep - fp + ?page)"
  have u0: "u \<noteq> 0" and b: "fst (alloc_at u sz a) = Some b"
    using assms(1) by (auto simp: allocateNearBlockFromUnusedRegion_def Let_def u_def fp_def ep_def a_def
        split: if_splits prod.splits)
  obtain a' where b': "alloc_at u sz a = (Some b, a')" using b by (cases "alloc_at u sz a") simp
  have u: "pos - search_range \<le> u" "unat u + unat sz \<le> unat (pos + search_range)"
    using near_region_loop_spec [OF u_def [symmetric] u0] by auto
  have lt: "unat u + unat sz + 2 ^ k < 2 ^ 64" using u(2) assms(3) by simp
  have us: "unat (u + ucast sz) = unat u + unat sz"
    using lt by (subst unat_add_lem [THEN iffD1]) (simp_all add: unat_ucast_64)
  have page: "unat ?page = 2 ^ k" using assms(2) by (simp add: unat_page)
  have fp: "unat fp = unat u div 2 ^ k * 2 ^ k" using assms(2) by (simp add: fp_def unat_ALIGN_FLOOR)
  have ep: "unat ep = (unat u + unat sz) div 2 ^ k * 2 ^ k" using assms(2) by (simp add: ep_def unat_ALIGN_FLOOR us)
  have le: "unat fp \<le> unat u" "unat fp \<le> unat ep" "unat ep \<le> unat u + unat sz" "unat u + unat sz < unat ep + 2 ^ k"
    unfolding fp ep using dividend_less_div_times [of "2 ^ k" "unat u + unat sz"]
    by (simp_all add: div_le_mono)
  have sz: "unat (ep - fp + ?page) = unat ep - unat fp + 2 ^ k"
    using le lt by (subst unat_add_lem [THEN iffD1]) (simp_all add: unat_sub word_le_nat_alt page)
  have e: "unat (ep + ?page) = unat ep + 2 ^ k"
    using le lt by (subst unat_add_lem [THEN iffD1]) (simp_all add: page)
  have ok: "arena_ok a"
    using le lt by (simp add: arena_ok_def a_def MemoryArena_def MemRange_def mem_range.defs sz word_le_nat_alt e)
  have "ar_cursor a = fp" "r_end a = ep + ?page"
    by (simp_all add: a_def MemoryArena_def MemRange_def mem_range.defs)
  with alloc_at_block [OF ok b'] le e have "mb_addr b = u" "r_size b = ucast sz"
    by (simp_all add: word_le_nat_alt)
  with u u0 show ?thesis by (simp add: u_def)
qed

lemma unused_region_block:
  assumes "allocateNearBlockFromUnusedRegion mmap (2 ^ k) regions sz pos search_range ex m = (Some b, m')"
    "k < 63" "unat (pos + search_range) + 2 ^ k < 2 ^ 64"
  shows "pos - search_range \<le> mb_addr b \<and> unat (mb_addr b) + unat sz \<le> unat (pos + search_range) \<and>
    r_size b = ucast sz"
  using unused_region_found [OF assms] by blast

text \<open>C19: a block allocated near a position, from an arena or from unused address space, has the
  requested size and lies within the search range on both sides of the position, when that range
  does not wrap around.\<close>

theorem near_block_in_range:
  assumes "allocateNearBlock mmap (2 ^ k) regions sz pos search_range ex m = (Some b, m')" "alloc_inv m bs"
    "k < 63" "unat search_range \<le> unat pos" "unat pos + unat search_range + 2 ^ k < 2 ^ 64"
  shows "unat pos - unat search_range \<le> unat (mb_addr b) \<and>
    unat (mb_addr b) + unat sz \<le> unat pos + unat search_range \<and> r_size b = ucast sz"
proof -
  have lo: "unat (pos - search_range) = unat pos - unat search_range"
    using assms(4) by (simp add: unat_sub word_le_nat_alt)
  have hi: "unat (pos + search_range) = unat pos + unat search_range"
    using assms(5) by (subst unat_add_lem [THEN iffD1]) simp_all
  have "pos - search_range \<le> mb_addr b \<and> unat (mb_addr b) + unat sz \<le> unat (pos + search_range) \<and> r_size b = ucast sz"
  proof (cases "allocateNearBlockFromDefaultAllocator sz pos search_range ex m")
    case (Pair r m1)
    show ?thesis
    proof (cases r)
      case None
      with Pair assms(1)
      have "allocateNearBlockFromUnusedRegion mmap (2 ^ k) regions sz pos search_range ex m1 = (Some b, m')"
        by (simp add: allocateNearBlock_def)
      then show ?thesis using assms(3,5) by (intro unused_region_block) (simp_all add: hi)
    next
      case (Some c)
      with Pair assms(1) have "allocateNearBlockFromDefaultAllocator sz pos search_range ex m = (Some b, m')"
        by (simp add: allocateNearBlock_def)
      from near_default_block [OF assms(2) this] show ?thesis by simp
    qed
  qed
  then show ?thesis by (simp add: word_le_nat_alt lo hi)
qed

text \<open>A kernel that maps every fixed request.\<close>

definition map_fixed :: kernel where
  "map_fixed h c = (case c of Call_mmap (Some a) _ _ \<Rightarrow> Some a | _ \<Rightarrow> None)"

definition gap_regions :: "mem_range list" where
  "gap_regions = [MemRange 0x1000 0x1000, MemRange 0x3000 0x1000]"

lemmas near_eval = allocateNearBlock_def allocateNearBlockFromUnusedRegion_def near_between_regions_def
  allocateNearBlockFromDefaultAllocator_def gap_regions_def map_fixed_def ALIGN_FLOOR_def alloc_at_def

theorem near_block_in_range_witness:
  "case allocateNearBlock map_fixed 0x1000 gap_regions 0x800 0x2400 0x1000 True empty_allocator of
     (Some b, m) \<Rightarrow> unat (mb_addr b) + 0x800 \<le> 0x3400 | _ \<Rightarrow> False"
proof -
  define b where "b = MemBlock 0x2000 0x800"
  have "\<exists>m. allocateNearBlock map_fixed 0x1000 gap_regions 0x800 0x2400 0x1000 True empty_allocator = (Some b, m)"
    by (simp add: near_eval alloc_eval b_def)
  then obtain m where m: "allocateNearBlock map_fixed (2 ^ 12) gap_regions 0x800 0x2400 0x1000 True empty_allocator = (Some b, m)"
    by auto
  from near_block_in_range [OF m empty_inv] m show ?thesis by simp
qed

text \<open>Data blocks come from executable memory: when no data arena has room, a size that is not a
  multiple of the page size aborts, and any other size is served from a new code arena whose pages
  are made readable and executable, not writable; no data arena is ever created.\<close>

theorem data_block_is_executable:
  assumes "alloc_first (ucast sz) (data_arenas m) = (None, as)"
  shows "allocateDataBlock mmap page sz m =
    (if ucast sz mod page = 0 then
       let addr = (case mmap (os_calls m) (Call_mmap None (ucast sz) kNoAccess) of None \<Rightarrow> 0 | Some a \<Rightarrow> a)
       in Inr (MemBlock addr (ucast sz),
            m\<lparr>code_arenas := code_arenas m @ [(MemoryArena addr (ucast sz))\<lparr>ar_cursor := addr + ucast sz\<rparr>],
              os_calls := os_calls m @
                [(Call_mmap None (ucast sz) kNoAccess, mmap (os_calls m) (Call_mmap None (ucast sz) kNoAccess)),
                 (Call_mprotect addr (ucast sz) kReadExecute, None)]\<rparr>)
     else Inl Assert_Failed)"
  using assms
  by (cases m) (simp add: allocateDataBlock_def allocateCodeMemoryArena_def OSMemory_Allocate_def
      OSMemory_SetPermission_def Let_def allocMemBlock_def MemoryArena_def MemRange_def mem_range.defs)

theorem data_block_is_executable_witness:
  "allocateDataBlock map_fixed 0x1000 8 empty_allocator = Inl Assert_Failed"
proof -
  have "alloc_first (ucast (8 :: 32 word)) (data_arenas empty_allocator) = (None, [])"
    by (simp add: empty_allocator_def)
  from data_block_is_executable [OF this] show ?thesis by simp
qed

text \<open>A block of unused address space that ends on a page boundary is mapped one page too long:
  the fixed mapping covers the page behind the block, which the search never looked at and which can
  belong to the next mapping of the process.\<close>

theorem near_mapping_one_page_too_long:
  assumes "near_region_loop (pos - search_range) (pos + search_range) sz regions = u" "u \<noteq> 0"
    "ALIGN_FLOOR u page = u" "ALIGN_FLOOR (u + ucast sz) page = u + ucast sz"
  shows "\<exists>r h. os_calls (snd (allocateNearBlockFromUnusedRegion mmap page regions sz pos search_range ex m)) =
    os_calls m @ (Call_mmap (Some u) (ucast sz + page) kNoAccess, r) # h"
  using assms
  by (auto simp: allocateNearBlockFromUnusedRegion_def OSMemory_Allocate_def OSMemory_SetPermission_def Let_def
      split: if_splits option.splits prod.splits)

theorem near_mapping_one_page_too_long_witness:
  "\<exists>r h. os_calls (snd (allocateNearBlockFromUnusedRegion map_fixed 0x1000 gap_regions 0x1000 0x2400 0x1000 True
      empty_allocator)) = (Call_mmap (Some 0x2000) 0x2000 kNoAccess, r) # h"
proof -
  have "near_region_loop (0x2400 - 0x1000) (0x2400 + 0x1000) 0x1000 gap_regions = 0x2000"
    by (simp add: gap_regions_def near_between_regions_def MemRange_def ALIGN_FLOOR_def Let_def)
  from near_mapping_one_page_too_long [OF this, of "0x1000" map_fixed True empty_allocator] show ?thesis
    by (simp add: ALIGN_FLOOR_def) (simp add: empty_allocator_def)
qed

text \<open>The search of the data arenas does not stop at a hit: only the last arena counts.\<close>

lemma near_data_last_arena_only:
  assumes "data_arenas m \<noteq> []" "near_in_arena (pos - search_range) (pos + search_range) (last (data_arenas m)) sz = 0"
  shows "allocateNearBlockFromDefaultAllocator sz pos search_range False m = (None, m)"
proof -
  obtain i u where "near_data_loop (pos - search_range) (pos + search_range) sz 0 0 (data_arenas m) = (i, u)"
    by fastforce
  with near_data_loop_spec [OF this assms(1)] assms(2) show ?thesis
    by (simp add: allocateNearBlockFromDefaultAllocator_def Let_def)
qed

end
