(* ===== verification/Arm64Relocate.thy ===== *)
theory Arm64Relocate
  imports Arm64Labels MemoryAlloc
begin

text \<open>
  The relocation of ARM64 code, \<open>third/dobby/source/InstructionRelocation/arm64/InstructionRelocationARM64.cc\<close>:
  the instructions of a code block are rewritten so that they can run at another address. The
  instruction classes, the rewriting of one instruction per class, and the loop over the block with
  the branch behind it. The code the file compiles out (\<open>#if 0\<close>: labels for branches into the block)
  is left out, as are the log lines.
\<close>

section \<open>Instruction classes\<close>

definition inst_is_b_bl :: "32 word \<Rightarrow> bool" where
  "inst_is_b_bl instr \<longleftrightarrow> instr AND UnconditionalBranchFixedMask = UnconditionalBranchFixed"

definition inst_is_ldr_literal :: "32 word \<Rightarrow> bool" where
  "inst_is_ldr_literal instr \<longleftrightarrow> instr AND LoadRegLiteralFixedMask = LoadRegLiteralFixed"

definition inst_is_adr :: "32 word \<Rightarrow> bool" where
  "inst_is_adr instr \<longleftrightarrow> instr AND PCRelAddressingFixedMask = PCRelAddressingFixed \<and>
     instr AND PCRelAddressingMask = op_ADR"

definition inst_is_adrp :: "32 word \<Rightarrow> bool" where
  "inst_is_adrp instr \<longleftrightarrow> instr AND PCRelAddressingFixedMask = PCRelAddressingFixed \<and>
     instr AND PCRelAddressingMask = op_ADRP"

definition inst_is_b_cond :: "32 word \<Rightarrow> bool" where
  "inst_is_b_cond instr \<longleftrightarrow> instr AND ConditionalBranchFixedMask = ConditionalBranchFixed"

definition inst_is_compare_b :: "32 word \<Rightarrow> bool" where
  "inst_is_compare_b instr \<longleftrightarrow> instr AND CompareBranchFixedMask = CompareBranchFixed"

definition inst_is_test_b :: "32 word \<Rightarrow> bool" where
  "inst_is_test_b instr \<longleftrightarrow> instr AND TestBranchFixedMask = TestBranchFixed"

section \<open>One instruction\<close>

text \<open>\<open>src\<close> is \<open>relo_cur_src_vmaddr\<close>, the address the instruction comes from.\<close>

definition label_and_ldr :: "64 word \<Rightarrow> 32 word list \<Rightarrow> assembler \<Rightarrow> assembler res" where
  "label_and_ldr dst_vmaddr before a =
     (let b = AppendRelocLabel (new_RelocLabel dst_vmaddr) a
      in Ldr TMP_REG_0 (length (a_labels a)) (emit_all before b))"

definition relo_b_bl :: "64 word \<Rightarrow> 32 word \<Rightarrow> assembler \<Rightarrow> assembler res" where
  "relo_b_bl src inst a =
     (let offset = decode_imm26_offset inst;
          dst_vmaddr = src + offset
      in res_bind (label_and_ldr dst_vmaddr [] a) (\<lambda>b.
         Inr (Emit (if inst AND UnconditionalBranchMask = op_BL then word_blr TMP_REG_0
                    else word_br TMP_REG_0) b)))"

definition relo_ldr_literal :: "64 word \<Rightarrow> 32 word \<Rightarrow> assembler \<Rightarrow> assembler res" where
  "relo_ldr_literal src inst a =
     (let offset = decode_imm19_offset inst;
          dst_vmaddr = src + offset;
          rt = decode_rt inst;
          opc = bits_i32 inst 30 31;
          b = emit_all (words_Mov TMP_REG_0 dst_vmaddr) a
      in if opc = 0 then emit_res (word_ldr (reg_W rt) (MemOperand_imm TMP_REG_0 0 Offset)) b
         else if opc = 1 then emit_res (word_ldr (reg_X rt) (MemOperand_imm TMP_REG_0 0 Offset)) b
         else Inl Assert_Failed)"

definition relo_adr :: "64 word \<Rightarrow> 32 word \<Rightarrow> assembler \<Rightarrow> assembler res" where
  "relo_adr src inst a =
     (let offset = decode_immhi_immlo_offset inst;
          dst_vmaddr = src + offset;
          rd = decode_rd inst
      in Inr (emit_all (words_Mov (reg_X rd) dst_vmaddr) a))"

definition arm64_trunc_page :: "64 word \<Rightarrow> 64 word" where
  "arm64_trunc_page x = x AND NOT (0x1000 - 1)"

definition relo_adrp :: "64 word \<Rightarrow> 32 word \<Rightarrow> assembler \<Rightarrow> assembler res" where
  "relo_adrp src inst a =
     (let offset = decode_immhi_immlo_zero12_offset inst;
          dst_vmaddr = arm64_trunc_page (src + offset);
          rd = decode_rd inst
      in Inr (emit_all (words_Mov (reg_X rd) dst_vmaddr) a))"

text \<open>A conditional branch becomes its negation, over a load and a branch to the target.\<close>

definition branch_over :: "64 word \<Rightarrow> 32 word \<Rightarrow> assembler \<Rightarrow> assembler res" where
  "branch_over dst_vmaddr branch_instr a =
     res_bind (label_and_ldr dst_vmaddr [branch_instr] a) (\<lambda>b. Inr (Emit (word_br TMP_REG_0) b))"

definition negate_b_cond :: "32 word \<Rightarrow> 32 word" where
  "negate_b_cond inst =
     (let cond = ucast (bits_i32 inst 0 3) XOR 1; branch_instr = set_bits inst 0 3 cond
      in set_bits branch_instr 5 23 (drop_bit 2 (4 * 3)))"

definition relo_b_cond :: "64 word \<Rightarrow> 32 word \<Rightarrow> assembler \<Rightarrow> assembler res" where
  "relo_b_cond src inst a = branch_over (src + decode_imm19_offset inst) (negate_b_cond inst) a"

definition negate_compare_b :: "32 word \<Rightarrow> 32 word" where
  "negate_compare_b inst =
     (let op = bit_of inst 24 XOR 1; branch_instr = set_bit_to inst 24 op
      in set_bits branch_instr 5 23 (drop_bit 2 (4 * 3)))"

definition relo_compare_b :: "64 word \<Rightarrow> 32 word \<Rightarrow> assembler \<Rightarrow> assembler res" where
  "relo_compare_b src inst a = branch_over (src + decode_imm19_offset inst) (negate_compare_b inst) a"

definition negate_test_b :: "32 word \<Rightarrow> 32 word" where
  "negate_test_b inst =
     (let op = bit_of inst 24 XOR 1; branch_instr = set_bit_to inst 24 op
      in set_bits branch_instr 5 18 (drop_bit 2 (4 * 3)))"

definition relo_test_b :: "64 word \<Rightarrow> 32 word \<Rightarrow> assembler \<Rightarrow> assembler res" where
  "relo_test_b src inst a = branch_over (src + decode_imm14_offset inst) (negate_test_b inst) a"

definition relocate_inst :: "64 word \<Rightarrow> 32 word \<Rightarrow> assembler \<Rightarrow> assembler res" where
  "relocate_inst src inst a =
     (if inst_is_b_bl inst then relo_b_bl src inst a
      else if inst_is_ldr_literal inst then relo_ldr_literal src inst a
      else if inst_is_adr inst then relo_adr src inst a
      else if inst_is_adrp inst then relo_adrp src inst a
      else if inst_is_b_cond inst then relo_b_cond src inst a
      else if inst_is_compare_b inst then relo_compare_b src inst a
      else if inst_is_test_b inst then relo_test_b src inst a
      else Inr (Emit inst a))"

section \<open>The loop\<close>

text \<open>\<open>rc_buffer\<close> is the readable memory behind the \<open>buffer\<close> pointer, \<open>rc_cursor\<close> the distance of
  \<open>buffer_cursor\<close> from \<open>buffer\<close>.\<close>

record relo_ctx =
  rc_buffer :: "8 word list"
  rc_cursor :: nat
  rc_size :: nat
  rc_src :: "64 word"
  rc_origin :: mem_block
  rc_map :: "nat \<Rightarrow> nat option"

definition relo_cur_src_vmaddr :: "relo_ctx \<Rightarrow> 64 word" where
  "relo_cur_src_vmaddr ctx = rc_src ctx + word_of_nat (rc_cursor ctx)"

function relo_loop :: "relo_ctx \<Rightarrow> assembler \<Rightarrow> (relo_ctx \<times> assembler) res" where
  "relo_loop ctx a =
     (if rc_cursor ctx < rc_size ctx then
        let ctx1 = ctx\<lparr>rc_map := (rc_map ctx)(rc_cursor ctx \<mapsto> GetBufferSize a)\<rparr> in
        res_bind (LoadInst (rc_cursor ctx) (rc_buffer ctx)) (\<lambda>inst.
        res_bind (relocate_inst (relo_cur_src_vmaddr ctx) inst a) (\<lambda>b.
        relo_loop (ctx1\<lparr>rc_cursor := rc_cursor ctx + 4\<rparr>) b))
      else Inr (ctx, a))"
  by pat_completeness auto
termination by (relation "measure (\<lambda>(ctx, _). rc_size ctx - rc_cursor ctx)") auto

declare relo_loop.simps [simp del]

definition relo_assemble :: "relo_ctx \<Rightarrow> bool \<Rightarrow> (relo_ctx \<times> assembler) res" where
  "relo_assemble ctx branch =
     res_bind (relo_loop ctx (new_assembler 0)) (\<lambda>(ctx1, a).
     let origin = block_reset (mb_addr (rc_origin ctx1)) (word_of_nat (rc_cursor ctx1)) (rc_origin ctx1) in
     res_bind (if branch then LiteralLdrBranch (mb_addr origin + r_size origin) a else Inr a) (\<lambda>b.
     res_bind (RelocBind b) (\<lambda>c. Inr (ctx1\<lparr>rc_origin := origin\<rparr>, c))))"

section \<open>The classes against the architecture\<close>

lemma and_mask_iff:
  assumes "lo + n \<le> 32" "take_bit n c = c"
  shows "(w :: 32 word) AND push_bit lo (mask n) = push_bit lo c \<longleftrightarrow> fld lo n w = c"
proof
  have "w AND push_bit lo (mask n) = push_bit lo (fld lo n w)"
    by (rule bit_word_eqI) (auto simp: bit_simps)
  moreover have "fld lo n (push_bit lo c) = c"
    using fld_push_eq [OF assms(1), of c] assms(2) by simp
  moreover have "fld lo n (push_bit lo (fld lo n w)) = fld lo n w"
    using fld_push_eq [OF assms(1), of "drop_bit lo w"] by (simp add: fld_def)
  ultimately show "w AND push_bit lo (mask n) = push_bit lo c \<Longrightarrow> fld lo n w = c"
    and "fld lo n w = c \<Longrightarrow> w AND push_bit lo (mask n) = push_bit lo c"
    by metis+
qed

lemma and_mask2_iff:
  assumes "lo + n \<le> lo2" "lo2 + n2 \<le> 32" "take_bit n c = c" "take_bit n2 c2 = c2"
  shows "(w :: 32 word) AND (push_bit lo (mask n) OR push_bit lo2 (mask n2)) = push_bit lo c OR push_bit lo2 c2 \<longleftrightarrow>
    fld lo n w = c \<and> fld lo2 n2 w = c2"
proof
  assume a: "w AND (push_bit lo (mask n) OR push_bit lo2 (mask n2)) = push_bit lo c OR push_bit lo2 c2"
  have 1: "fld lo n (push_bit lo c OR push_bit lo2 c2) = c"
    using assms fld_push_eq [of lo n c] fld_push_above [of lo n lo2 c2] by simp
  have 2: "fld lo2 n2 (push_bit lo c OR push_bit lo2 c2) = c2"
    using assms fld_push_eq [of lo2 n2 c2] fld_push_below [of lo n lo2 n2 c] by simp
  have 3: "fld lo n (w AND (push_bit lo (mask n) OR push_bit lo2 (mask n2))) = fld lo n w"
    using assms(1,2) by (intro bit_word_eqI) (auto simp: bit_simps)
  have 4: "fld lo2 n2 (w AND (push_bit lo (mask n) OR push_bit lo2 (mask n2))) = fld lo2 n2 w"
    using assms(1,2) by (intro bit_word_eqI) (auto simp: bit_simps)
  show "fld lo n w = c \<and> fld lo2 n2 w = c2" using 1 2 3 4 a by metis
next
  assume "fld lo n w = c \<and> fld lo2 n2 w = c2"
  then show "w AND (push_bit lo (mask n) OR push_bit lo2 (mask n2)) = push_bit lo c OR push_bit lo2 c2"
    using assms(1,2) by (intro bit_word_eqI) (auto simp: bit_simps)
qed

lemma mask_values:
  "0x7C000000 = push_bit 26 (mask 5 :: 32 word)" "0xFC000000 = push_bit 26 (mask 6 :: 32 word)"
  "0xFE000000 = push_bit 25 (mask 7 :: 32 word)" "0x7E000000 = push_bit 25 (mask 6 :: 32 word)"
  "0x1F000000 = push_bit 24 (mask 5 :: 32 word)"
  "0x9F000000 = push_bit 24 (mask 5) OR push_bit 31 (mask 1 :: 32 word)"
  "0x3B000000 = push_bit 24 (mask 2) OR push_bit 27 (mask 3 :: 32 word)"
  by (simp_all add: mask_numeral)

lemma inst_classes:
  "inst_is_b_bl w \<longleftrightarrow> fld 26 5 w = 5"
  "inst_is_ldr_literal w \<longleftrightarrow> fld 24 2 w = 0 \<and> fld 27 3 w = 3"
  "inst_is_adr w \<longleftrightarrow> fld 24 5 w = 16 \<and> fld 31 1 w = 0"
  "inst_is_adrp w \<longleftrightarrow> fld 24 5 w = 16 \<and> fld 31 1 w = 1"
  "inst_is_b_cond w \<longleftrightarrow> fld 25 7 w = 42"
  "inst_is_compare_b w \<longleftrightarrow> fld 25 6 w = 26"
  "inst_is_test_b w \<longleftrightarrow> fld 25 6 w = 27"
  "w AND UnconditionalBranchMask = op_BL \<longleftrightarrow> fld 26 6 w = 37"
  unfolding inst_is_b_bl_def inst_is_ldr_literal_def inst_is_adr_def inst_is_adrp_def inst_is_b_cond_def
    inst_is_compare_b_def inst_is_test_b_def opcodes mask_values
  using and_mask_iff [of 26 5 5 w] and_mask_iff [of 26 6 37 w] and_mask_iff [of 24 5 16 w] and_mask_iff [of 25 7 42 w]
    and_mask_iff [of 25 6 26 w] and_mask_iff [of 25 6 27 w] and_mask2_iff [of 24 2 27 3 0 3 w]
    and_mask2_iff [of 24 5 31 1 16 0 w] and_mask2_iff [of 24 5 31 1 16 1 w]
  by (auto)

section \<open>The pieces of the relocated code\<close>

text \<open>What one instruction turns into: its words, and the label of the load among them, as the index of
  that word and the address it loads.\<close>

type_synonym piece = "32 word list \<times> (nat \<times> 64 word) list"

definition ldr_tmp :: "32 word" where
  "ldr_tmp = 0x58000011"

definition piece_of :: "64 word \<Rightarrow> 32 word \<Rightarrow> piece res" where
  "piece_of src inst =
     (if inst_is_b_bl inst then
        Inr ([ldr_tmp, if inst AND UnconditionalBranchMask = op_BL then word_blr TMP_REG_0 else word_br TMP_REG_0],
             [(0, src + decode_imm26_offset inst)])
      else if inst_is_ldr_literal inst then
        res_bind (if bits_i32 inst 30 31 = 0 then word_ldr (reg_W (decode_rt inst)) (MemOperand_imm TMP_REG_0 0 Offset)
                  else if bits_i32 inst 30 31 = 1 then word_ldr (reg_X (decode_rt inst)) (MemOperand_imm TMP_REG_0 0 Offset)
                  else Inl Assert_Failed)
          (\<lambda>w. Inr (words_Mov TMP_REG_0 (src + decode_imm19_offset inst) @ [w], []))
      else if inst_is_adr inst then
        Inr (words_Mov (reg_X (decode_rd inst)) (src + decode_immhi_immlo_offset inst), [])
      else if inst_is_adrp inst then
        Inr (words_Mov (reg_X (decode_rd inst)) (arm64_trunc_page (src + decode_immhi_immlo_zero12_offset inst)), [])
      else if inst_is_b_cond inst then
        Inr ([negate_b_cond inst, ldr_tmp, word_br TMP_REG_0], [(1, src + decode_imm19_offset inst)])
      else if inst_is_compare_b inst then
        Inr ([negate_compare_b inst, ldr_tmp, word_br TMP_REG_0], [(1, src + decode_imm19_offset inst)])
      else if inst_is_test_b inst then
        Inr ([negate_test_b inst, ldr_tmp, word_br TMP_REG_0], [(1, src + decode_imm14_offset inst)])
      else Inr ([inst], []))"

text \<open>The state of the assembler after pieces with the words \<open>ws\<close> and the labels \<open>ls\<close> (indices from
  the start of the code).\<close>

definition asm_is :: "32 word list \<Rightarrow> (nat \<times> 64 word) list \<Rightarrow> assembler \<Rightarrow> bool" where
  "asm_is ws ls a \<longleftrightarrow> a_buffer a = code_bytes ws \<and> list_all2 label_is (a_labels a) ls"

definition shift_labels :: "nat \<Rightarrow> (nat \<times> 64 word) list \<Rightarrow> (nat \<times> 64 word) list" where
  "shift_labels n = map (\<lambda>(p, v). (n + p, v))"

lemma asm_is_emit: "asm_is ws ls a \<Longrightarrow> asm_is (ws @ us) ls (emit_all us a)"
  by (simp add: asm_is_def emit_all_eq)

lemma asm_is_Emit: "asm_is ws ls a \<Longrightarrow> asm_is (ws @ [u]) ls (Emit u a)"
  using asm_is_emit [of ws ls a "[u]"] by simp

lemma label_and_ldr_is:
  assumes "asm_is ws ls a"
  shows "\<exists>b. label_and_ldr dst before a = Inr b \<and>
    asm_is (ws @ before @ [ldr_tmp]) (ls @ [(length ws + length before, dst)]) b"
proof -
  have len: "length (a_labels a) = length ls" using assms by (auto simp: asm_is_def dest: list_all2_lengthD)
  have l: "label_is (link_to kLabelImm19 0 (4 * (length ws + length before)) (new_RelocLabel dst))
      (length ws + length before, dst)"
    by (simp add: label_is_def link_to_def new_RelocLabel_def)
  have "4 * length ws + 4 * length before = 4 * (length ws + length before)" by simp
  then show ?thesis
    using assms l len
    by (simp add: label_and_ldr_def Ldr_def AppendRelocLabel_def emit_all_eq nth_append emit_res_def
        word_ldr_literal_tmp Emit_def EmitBuffer_def asm_is_def new_RelocLabel_def GetBufferSize_def
        list_update_append ldr_tmp_def list_all2_appendI Let_def)
qed

lemma relocate_inst_piece:
  assumes "asm_is ws ls a"
  shows "case piece_of src inst of
      Inl e \<Rightarrow> relocate_inst src inst a = Inl e
    | Inr (us, ks) \<Rightarrow> \<exists>b. relocate_inst src inst a = Inr b \<and> asm_is (ws @ us) (ls @ shift_labels (length ws) ks) b"
proof -
  have over: "\<exists>b. branch_over dst w a = Inr b \<and>
      asm_is (ws @ [w, ldr_tmp, word_br TMP_REG_0]) (ls @ [(length ws + 1, dst)]) b" for dst w
    using label_and_ldr_is [OF assms, of dst "[w]"] asm_is_Emit [where u = "word_br TMP_REG_0"]
    by (fastforce simp: branch_over_def)
  have two: "\<exists>b. res_bind (label_and_ldr dst [] a) (\<lambda>b. Inr (Emit w b)) = Inr b \<and>
      asm_is (ws @ [ldr_tmp, w]) (ls @ [(length ws, dst)]) b" for dst w
    using label_and_ldr_is [OF assms, of dst "[]"] asm_is_Emit [where u = w] by fastforce
  have mov: "asm_is (ws @ us) ls (emit_all us a)" for us by (rule asm_is_emit [OF assms])
  have lit: "case res_bind r (\<lambda>w. Inr (us @ [w], [])) of
      Inl e \<Rightarrow> emit_res r (emit_all us a) = Inl e
    | Inr (vs, ks) \<Rightarrow> \<exists>b. emit_res r (emit_all us a) = Inr b \<and> asm_is (ws @ vs) (ls @ shift_labels (length ws) ks) b"
    for r us
    using asm_is_Emit [OF mov] by (cases r) (simp_all add: emit_res_def shift_labels_def)
  consider "inst_is_b_bl inst"
    | "\<not> inst_is_b_bl inst" "inst_is_ldr_literal inst"
    | "\<not> inst_is_b_bl inst" "\<not> inst_is_ldr_literal inst" by blast
  then show ?thesis
  proof cases
    case 1
    with two show ?thesis
      by (simp add: piece_of_def relocate_inst_def relo_b_bl_def Let_def shift_labels_def)
  next
    case 2
    let ?m = "MemOperand_imm TMP_REG_0 0 Offset"
    define r where "r = (if bits_i32 inst 30 31 = 0 then word_ldr (reg_W (decode_rt inst)) ?m
      else if bits_i32 inst 30 31 = 1 then word_ldr (reg_X (decode_rt inst)) ?m else Inl Assert_Failed)"
    have r1: "relocate_inst src inst a = emit_res r (emit_all (words_Mov TMP_REG_0 (src + decode_imm19_offset inst)) a)"
      using 2 by (simp add: relocate_inst_def relo_ldr_literal_def Let_def r_def emit_res_def)
    have r2: "piece_of src inst = res_bind r (\<lambda>w. Inr (words_Mov TMP_REG_0 (src + decode_imm19_offset inst) @ [w], []))"
      using 2 by (simp add: piece_of_def r_def)
    show ?thesis unfolding r1 r2 by (rule lit)
  next
    case 3
    with over mov mov [of "[inst]"] show ?thesis
      by (simp add: piece_of_def relocate_inst_def shift_labels_def relo_b_cond_def relo_compare_b_def
          relo_test_b_def relo_adr_def relo_adrp_def Let_def)
  qed
qed

end
