(* ===== verification/Arm64Sim.thy ===== *)
theory Arm64Sim
  imports Arm64Relocate
begin

text \<open>
  The relocated code run on the machine of \<open>Arm64Isa\<close>: what the loop of
  \<open>InstructionRelocationARM64.cc\<close> leaves in the buffer, and that each relocated piece, loaded at any
  address, does what its instruction does at the original address, up to the scratch register
  \<open>x17\<close>.
\<close>

section \<open>The buffer after the loop\<close>

fun placed :: "nat \<Rightarrow> piece list \<Rightarrow> (nat \<times> 64 word) list" where
  "placed n [] = []"
| "placed n ((us, ks) # ps) = shift_labels n ks @ placed (n + length us) ps"

definition code_of :: "piece list \<Rightarrow> 32 word list" where
  "code_of ps = concat (map fst ps)"

text \<open>The word at which piece \<open>k\<close> starts.\<close>

definition start :: "piece list \<Rightarrow> nat \<Rightarrow> nat" where
  "start ps k = length (code_of (take k ps))"

definition inst_at :: "8 word list \<Rightarrow> nat \<Rightarrow> 32 word" where
  "inst_at buf off = le_word (take 4 (drop off buf))"

lemma code_of_simps [simp]:
  "code_of [] = []" "code_of (p # ps) = fst p @ code_of ps" "code_of (ps @ qs) = code_of ps @ code_of qs"
  by (simp_all add: code_of_def)

lemma placed_append: "placed n (ps @ qs) = placed n ps @ placed (n + length (code_of ps)) qs"
  by (induction n ps rule: placed.induct) (simp_all add: add.assoc)

lemma start_Cons [simp]: "start ps 0 = 0" "start ((us, ks) # ps) (Suc k) = length us + start ps k"
  by (simp_all add: start_def)

text \<open>The pieces of the instructions from \<open>off\<close> on, up to \<open>size\<close>.\<close>

definition pieces_from :: "64 word \<Rightarrow> 8 word list \<Rightarrow> nat \<Rightarrow> piece list \<Rightarrow> bool" where
  "pieces_from src buf off ps \<longleftrightarrow>
     (\<forall>k<length ps. off + 4 * k + 4 \<le> length buf \<and>
        piece_of (src + word_of_nat (off + 4 * k)) (inst_at buf (off + 4 * k)) = Inr (ps ! k))"

lemma pieces_from_Cons:
  "pieces_from src buf off (p # ps) \<longleftrightarrow>
     off + 4 \<le> length buf \<and> piece_of (src + word_of_nat off) (inst_at buf off) = Inr p \<and>
     pieces_from src buf (off + 4) ps"
  by (auto simp: pieces_from_def less_Suc_eq_0_disj algebra_simps)

definition map_of_pieces :: "nat \<Rightarrow> nat \<Rightarrow> piece list \<Rightarrow> nat \<Rightarrow> nat option" where
  "map_of_pieces off base ps x =
     (if off \<le> x \<and> x < off + 4 * length ps \<and> 4 dvd x - off
      then Some (4 * (base + start ps ((x - off) div 4))) else None)"

lemma map_of_pieces_Nil: "m ++ map_of_pieces off base [] = m"
proof -
  have "map_of_pieces off base [] = Map.empty" by (rule ext) (simp add: map_of_pieces_def)
  then show ?thesis by simp
qed

lemma map_of_pieces_Cons:
  "(m(off \<mapsto> 4 * base)) ++ map_of_pieces (off + 4) (base + length us) ps =
   m ++ map_of_pieces off base ((us, ks) # ps)"
proof
  fix x
  consider "x < off" | "x = off" | "off < x" "x < off + 4" | "off + 4 \<le> x" by linarith
  then show "((m(off \<mapsto> 4 * base)) ++ map_of_pieces (off + 4) (base + length us) ps) x =
      (m ++ map_of_pieces off base ((us, ks) # ps)) x"
  proof cases
    case 3
    then have "\<not> 4 dvd x - off" by (auto dest: dvd_imp_le)
    with 3 show ?thesis by (simp add: map_of_pieces_def map_add_def)
  next
    case 4
    then obtain d where d: "x = off + 4 + d" using le_Suc_ex by blast
    have "4 dvd 4 + d \<longleftrightarrow> 4 dvd d" by presburger
    moreover have "(4 + d) div 4 = Suc (d div 4)" by simp
    ultimately show ?thesis by (simp add: d map_of_pieces_def map_add_def add.assoc)
  qed (simp_all add: map_of_pieces_def map_add_def)
qed

lemma words_left: "0 < m \<Longrightarrow> Suc ((m - 4 + 3) div 4) = (m + 3) div (4 :: nat)"
  by presburger

lemma relo_loop_pieces:
  assumes "relo_loop ctx a = Inr (ctx', a')" "asm_is ws ls a"
  shows "\<exists>ps. pieces_from (rc_src ctx) (rc_buffer ctx) (rc_cursor ctx) ps \<and>
    length ps = (rc_size ctx - rc_cursor ctx + 3) div 4 \<and>
    asm_is (ws @ code_of ps) (ls @ placed (length ws) ps) a' \<and>
    ctx' = ctx\<lparr>rc_cursor := rc_cursor ctx + 4 * length ps,
               rc_map := rc_map ctx ++ map_of_pieces (rc_cursor ctx) (length ws) ps\<rparr>"
  using assms
proof (induction ctx a arbitrary: ws ls rule: relo_loop.induct)
  case (1 ctx a)
  show ?case
  proof (cases "rc_cursor ctx < rc_size ctx")
    case False
    with 1(2,3) show ?thesis
      by (intro exI [of _ "[]"])
        (auto simp: relo_loop.simps [of ctx a] pieces_from_def map_of_pieces_Nil)
  next
    case True
    let ?c1 = "ctx\<lparr>rc_map := (rc_map ctx)(rc_cursor ctx \<mapsto> GetBufferSize a), rc_cursor := rc_cursor ctx + 4\<rparr>"
    obtain inst b where ld: "LoadInst (rc_cursor ctx) (rc_buffer ctx) = Inr inst"
      and rel: "relocate_inst (relo_cur_src_vmaddr ctx) inst a = Inr b"
      and loop: "relo_loop ?c1 b = Inr (ctx', a')"
      using 1(2) True by (auto simp: relo_loop.simps [of ctx a])
    have inst: "inst = inst_at (rc_buffer ctx) (rc_cursor ctx)" and len: "rc_cursor ctx + 4 \<le> length (rc_buffer ctx)"
      using ld by (auto simp: LoadInst_def inst_at_def split: if_splits)
    obtain us ks where p: "piece_of (relo_cur_src_vmaddr ctx) inst = Inr (us, ks)"
      and b: "asm_is (ws @ us) (ls @ shift_labels (length ws) ks) b"
      using relocate_inst_piece [OF 1(3), of "relo_cur_src_vmaddr ctx" inst] rel
      by (auto split: sum.splits)
    have size: "GetBufferSize a = 4 * length ws" using 1(3) by (simp add: asm_is_def GetBufferSize_def)
    from 1(1) [OF True refl loop b] obtain ps
      where ps: "pieces_from (rc_src ?c1) (rc_buffer ?c1) (rc_cursor ?c1) ps"
        "length ps = (rc_size ?c1 - rc_cursor ?c1 + 3) div 4"
        "asm_is ((ws @ us) @ code_of ps) ((ls @ shift_labels (length ws) ks) @ placed (length (ws @ us)) ps) a'"
        "ctx' = ?c1\<lparr>rc_cursor := rc_cursor ?c1 + 4 * length ps,
               rc_map := rc_map ?c1 ++ map_of_pieces (rc_cursor ?c1) (length (ws @ us)) ps\<rparr>"
      by blast
    have n: "Suc (length ps) = (rc_size ctx - rc_cursor ctx + 3) div 4"
      using ps(2) True words_left [of "rc_size ctx - rc_cursor ctx"] by simp
    show ?thesis
    proof (intro exI [of _ "(us, ks) # ps"] conjI)
      show "pieces_from (rc_src ctx) (rc_buffer ctx) (rc_cursor ctx) ((us, ks) # ps)"
        using ps(1) p len by (simp add: pieces_from_Cons inst relo_cur_src_vmaddr_def)
      show "length ((us, ks) # ps) = (rc_size ctx - rc_cursor ctx + 3) div 4" using n by simp
      show "asm_is (ws @ code_of ((us, ks) # ps)) (ls @ placed (length ws) ((us, ks) # ps)) a'"
        using ps(3) by simp
      show "ctx' = ctx\<lparr>rc_cursor := rc_cursor ctx + 4 * length ((us, ks) # ps),
          rc_map := rc_map ctx ++ map_of_pieces (rc_cursor ctx) (length ws) ((us, ks) # ps)\<rparr>"
        using ps(4) map_of_pieces_Cons [of "rc_map ctx" "rc_cursor ctx" "length ws" us ps ks]
        by (simp add: size)
    qed
  qed
qed

section \<open>The assembled code\<close>

text \<open>The pieces with the branch behind them.\<close>

definition branch_piece :: "64 word \<Rightarrow> piece" where
  "branch_piece target = ([ldr_tmp, word_br TMP_REG_0], [(0, target)])"

definition all_pieces :: "piece list \<Rightarrow> bool \<Rightarrow> 64 word \<Rightarrow> piece list" where
  "all_pieces ps branch target = ps @ (if branch then [branch_piece target] else [])"

text \<open>Every label is used by one load, which is a word of the code.\<close>

lemma piece_labels:
  assumes "piece_of src inst = Inr (us, ks)"
  shows "distinct (map fst ks)" "p \<in> fst ` set ks \<Longrightarrow> p < length us \<and> us ! p = ldr_tmp"
  using assms by (auto simp: piece_of_def split: if_splits)

definition good_piece :: "piece \<Rightarrow> bool" where
  "good_piece p \<longleftrightarrow> distinct (map fst (snd p)) \<and> (\<forall>i\<in>fst ` set (snd p). i < length (fst p) \<and> fst p ! i = ldr_tmp)"

lemma good_piece_of: "piece_of src inst = Inr p \<Longrightarrow> good_piece p"
  by (cases p) (auto simp: good_piece_def piece_labels(1) dest: piece_labels(2) [OF _ imageI])

lemma good_branch_piece: "good_piece (branch_piece target)"
  by (simp add: good_piece_def branch_piece_def)

lemma shift_labels_fst: "map fst (shift_labels n ks) = map (\<lambda>i. n + i) (map fst ks)"
  by (induction ks) (auto simp: shift_labels_def)

lemma placed_good:
  assumes "\<forall>p\<in>set ps. good_piece p"
  shows "distinct (map fst (placed n ps)) \<and>
    (\<forall>i\<in>fst ` set (placed n ps). n \<le> i \<and> i < n + length (code_of ps) \<and> code_of ps ! (i - n) = ldr_tmp)"
  using assms
proof (induction n ps rule: placed.induct)
  case (2 n us ks ps)
  let ?l = "shift_labels n ks" and ?r = "placed (n + length us) ps"
  have k: "\<forall>i\<in>fst ` set ?l. n \<le> i \<and> i < n + length us \<and> us ! (i - n) = ldr_tmp" "distinct (map fst ?l)"
    using 2(2) unfolding good_piece_def
    by (auto simp: shift_labels_def comp_def split_def distinct_map inj_on_def)
  have r: "distinct (map fst ?r)" "\<forall>i\<in>fst ` set ?r. n + length us \<le> i \<and>
      i < n + length us + length (code_of ps) \<and> code_of ps ! (i - (n + length us)) = ldr_tmp"
    using 2 by simp_all
  have d: "fst ` set ?l \<inter> fst ` set ?r = {}" using k(1) r(2) by fastforce
  have i: "n \<le> i \<and> i < n + length (us @ code_of ps) \<and> (us @ code_of ps) ! (i - n) = ldr_tmp"
    if "i \<in> fst ` set ?l \<union> fst ` set ?r" for i
    using that
  proof
    assume "i \<in> fst ` set ?l"
    with k(1) have "n \<le> i" "i < n + length us" "us ! (i - n) = ldr_tmp" by blast+
    then show ?thesis by (simp add: nth_append less_diff_conv2)
  next
    assume "i \<in> fst ` set ?r"
    with r(2) have "n + length us \<le> i" "i < n + length us + length (code_of ps)"
      "code_of ps ! (i - (n + length us)) = ldr_tmp" by blast+
    then show ?thesis by (simp add: nth_append less_diff_conv2)
  qed
  show ?case using d k(2) r(1) i by (simp add: image_Un)
qed simp

text \<open>The buffer: the code with its loads patched, and behind it the addresses they load, \<open>gap\<close> bytes
  behind the code.\<close>

definition layout :: "piece list \<Rightarrow> nat \<Rightarrow> 8 word list \<Rightarrow> bool" where
  "layout ps gap bs \<longleftrightarrow>
     (\<exists>ws pad. let pvs = placed 0 ps; n = length (code_of ps) in
        bs = code_bytes ws @ pad @ data_bytes (map snd pvs) \<and> length ws = n \<and> length pad = gap \<and>
        (\<forall>q<n. q \<notin> fst ` set pvs \<longrightarrow> ws ! q = code_of ps ! q) \<and>
        (\<forall>j<length pvs. ws ! fst (pvs ! j) = fixup (4 * n + gap + 8 * j) (fst (pvs ! j)) ldr_tmp))"

lemma RelocBind_layout:
  assumes a: "a_buffer a = code_bytes ws @ pad" and l: "list_all2 label_is (a_labels a) (placed 0 ps)"
    and g: "\<forall>p\<in>set ps. good_piece p"
    and ws: "length ws = length (code_of ps)" "\<forall>q<length ws. q \<notin> fst ` set (placed 0 ps) \<longrightarrow> ws ! q = code_of ps ! q"
      "\<forall>pv\<in>set (placed 0 ps). ws ! fst pv = ldr_tmp \<or> (\<exists>r. ws ! fst pv = fixup r (fst pv) ldr_tmp)"
  shows "\<exists>b. RelocBind a = Inr b \<and> layout ps (length pad) (a_buffer b) \<and>
    (\<exists>us. a_buffer b = code_bytes us @ pad @ data_bytes (map snd (placed 0 ps)) \<and> length us = length ws \<and>
      (\<forall>q<length us. q \<notin> fst ` set (placed 0 ps) \<longrightarrow> us ! q = code_of ps ! q) \<and>
      (\<forall>pv\<in>set (placed 0 ps). \<exists>r. us ! fst pv = fixup r (fst pv) ldr_tmp)) \<and>
    list_all2 label_is (a_labels b) (placed 0 ps)"
proof -
  let ?pvs = "placed 0 ps"
  let ?us = "patched (4 * length ws + length pad) ?pvs ws"
  have lt: "list_all (\<lambda>pv. fst pv < length ws) ?pvs"
    using placed_good [OF g, of 0] ws(1) by (auto simp: list_all_iff)
  obtain ls where r: "RelocBind a = Inr (a\<lparr>a_buffer := code_bytes ?us @ pad @ data_bytes (map snd ?pvs), a_labels := ls\<rparr>)"
    "list_all2 label_is ls ?pvs"
    using RelocBind_spec [OF a l lt] by blast
  have other: "\<forall>q<length ?us. q \<notin> fst ` set ?pvs \<longrightarrow> ?us ! q = code_of ps ! q"
    using ws(2) by (simp add: patched_other)
  have at: "?us ! fst (?pvs ! j) = fixup (4 * length ws + length pad + 8 * j) (fst (?pvs ! j)) ldr_tmp"
    if j: "j < length ?pvs" for j
  proof -
    have p: "fst (?pvs ! j) < length ws" using lt j by (simp add: list_all_length)
    have "ws ! fst (?pvs ! j) = ldr_tmp \<or> (\<exists>r. ws ! fst (?pvs ! j) = fixup r (fst (?pvs ! j)) ldr_tmp)"
      using ws(3) j by simp
    then show ?thesis using patched_at [OF conjunct1 [OF placed_good [OF g]] j p] by auto
  qed
  have "\<forall>pv\<in>set ?pvs. \<exists>r. ?us ! fst pv = fixup r (fst pv) ldr_tmp"
    using at by (metis in_set_conv_nth)
  moreover have "layout ps (length pad) (code_bytes ?us @ pad @ data_bytes (map snd ?pvs))"
    unfolding layout_def Let_def
    by (rule exI [of _ ?us], rule exI [of _ pad]) (use other at ws(1) in simp)
  ultimately show ?thesis using r other by auto
qed

definition gap_of :: "piece list \<Rightarrow> bool \<Rightarrow> nat" where
  "gap_of ps branch = (if branch then 8 * length (placed 0 ps) else 0)"

lemma asm_is_branch:
  assumes "asm_is (code_of ps) (placed 0 ps) a" "\<forall>p\<in>set ps. good_piece p"
  shows "\<exists>b. LiteralLdrBranch target a = RelocBind b \<and>
    asm_is (code_of (all_pieces ps True target)) (placed 0 (all_pieces ps True target)) b"
proof -
  obtain b where b: "label_and_ldr target [] a = Inr b"
    "asm_is (code_of ps @ [ldr_tmp]) (placed 0 ps @ [(length (code_of ps), target)]) b"
    using label_and_ldr_is [OF assms(1), of target "[]"] by auto
  have "LiteralLdrBranch target a = RelocBind (Emit (word_br TMP_REG_0) b)"
    using b(1) by (simp add: LiteralLdrBranch_def label_and_ldr_def Let_def)
  moreover have "asm_is (code_of (all_pieces ps True target)) (placed 0 (all_pieces ps True target)) (Emit (word_br TMP_REG_0) b)"
    using asm_is_Emit [OF b(2), of "word_br TMP_REG_0"]
    by (simp add: all_pieces_def branch_piece_def placed_append shift_labels_def)
  ultimately show ?thesis by blast
qed

lemma relo_assemble_layout:
  assumes "relo_assemble ctx branch = Inr (ctx', a)"
  defines "target \<equiv> mb_addr (rc_origin ctx) + word_of_nat (rc_cursor ctx')"
  shows "\<exists>ps. pieces_from (rc_src ctx) (rc_buffer ctx) (rc_cursor ctx) ps \<and>
    length ps = (rc_size ctx - rc_cursor ctx + 3) div 4 \<and>
    layout (all_pieces ps branch target) (gap_of (all_pieces ps branch target) branch) (a_buffer a) \<and>
    ctx' = ctx\<lparr>rc_cursor := rc_cursor ctx + 4 * length ps,
               rc_map := rc_map ctx ++ map_of_pieces (rc_cursor ctx) 0 ps,
               rc_origin := block_reset (mb_addr (rc_origin ctx)) (word_of_nat (rc_cursor ctx')) (rc_origin ctx)\<rparr>"
proof -
  obtain ctx1 a1 where loop: "relo_loop ctx (new_assembler 0) = Inr (ctx1, a1)"
    using assms(1) by (auto simp: relo_assemble_def)
  have "asm_is [] [] (new_assembler 0)" by (simp add: asm_is_def new_assembler_def)
  from relo_loop_pieces [OF loop this] obtain ps
    where ps: "pieces_from (rc_src ctx) (rc_buffer ctx) (rc_cursor ctx) ps"
      "length ps = (rc_size ctx - rc_cursor ctx + 3) div 4" "asm_is (code_of ps) (placed 0 ps) a1"
      "ctx1 = ctx\<lparr>rc_cursor := rc_cursor ctx + 4 * length ps,
               rc_map := rc_map ctx ++ map_of_pieces (rc_cursor ctx) 0 ps\<rparr>"
    by auto
  let ?o = "block_reset (mb_addr (rc_origin ctx)) (word_of_nat (rc_cursor ctx1)) (rc_origin ctx)"
  have o: "rc_origin ctx1 = rc_origin ctx" by (simp add: ps(4))
  have "res_bind (if branch then LiteralLdrBranch (mb_addr ?o + r_size ?o) a1 else Inr a1)
      (\<lambda>b. res_bind (RelocBind b) (\<lambda>c. Inr (ctx1\<lparr>rc_origin := ?o\<rparr>, c))) = Inr (ctx', a)"
    using assms(1) unfolding relo_assemble_def loop res_bind_simps prod.case Let_def o .
  then have res: "res_bind (if branch then LiteralLdrBranch (mb_addr ?o + r_size ?o) a1 else Inr a1) RelocBind = Inr a"
    "ctx' = ctx1\<lparr>rc_origin := ?o\<rparr>"
    unfolding res_bind_Inr_iff by blast+
  have t: "mb_addr ?o + r_size ?o = target" by (simp add: target_def res(2) block_reset_def)
  have g: "\<forall>p\<in>set ps. good_piece p"
    using ps(1) good_piece_of unfolding pieces_from_def by (metis in_set_conv_nth)
  have c: "ctx' = ctx\<lparr>rc_cursor := rc_cursor ctx + 4 * length ps,
               rc_map := rc_map ctx ++ map_of_pieces (rc_cursor ctx) 0 ps,
               rc_origin := block_reset (mb_addr (rc_origin ctx)) (word_of_nat (rc_cursor ctx')) (rc_origin ctx)\<rparr>"
    using res(2) ps(4) by simp
  let ?qs = "all_pieces ps branch target"
  have gq: "\<forall>p\<in>set ?qs. good_piece p" using g by (auto simp: all_pieces_def good_branch_piece)
  have first: "\<exists>b1. RelocBind b = Inr b1 \<and> layout qs 0 (a_buffer b1) \<and>
      (\<exists>us. a_buffer b1 = code_bytes us @ data_bytes (map snd (placed 0 qs)) \<and> length us = length (code_of qs) \<and>
        (\<forall>q<length us. q \<notin> fst ` set (placed 0 qs) \<longrightarrow> us ! q = code_of qs ! q) \<and>
        (\<forall>pv\<in>set (placed 0 qs). \<exists>r. us ! fst pv = fixup r (fst pv) ldr_tmp)) \<and>
      list_all2 label_is (a_labels b1) (placed 0 qs)"
    if "asm_is (code_of qs) (placed 0 qs) b" "\<forall>p\<in>set qs. good_piece p" for qs b
    using RelocBind_layout [of b "code_of qs" "[]" qs] that placed_good [OF that(2), of 0]
    by (auto simp: asm_is_def)
  have "layout ?qs (gap_of ?qs branch) (a_buffer a)"
  proof (cases branch)
    case False
    with res(1) first [OF ps(3) g] show ?thesis by (auto simp: all_pieces_def gap_of_def)
  next
    case True
    obtain b where b: "LiteralLdrBranch target a1 = RelocBind b" "asm_is (code_of ?qs) (placed 0 ?qs) b"
      using asm_is_branch [OF ps(3) g, of target] True by auto
    from first [OF b(2) gq] obtain b1 us where b1: "RelocBind b = Inr b1"
      "a_buffer b1 = code_bytes us @ data_bytes (map snd (placed 0 ?qs))" "length us = length (code_of ?qs)"
      "\<forall>q<length us. q \<notin> fst ` set (placed 0 ?qs) \<longrightarrow> us ! q = code_of ?qs ! q"
      "\<forall>pv\<in>set (placed 0 ?qs). \<exists>r. us ! fst pv = fixup r (fst pv) ldr_tmp"
      "list_all2 label_is (a_labels b1) (placed 0 ?qs)" by blast
    have "RelocBind b1 = Inr a" using res(1) True b(1) b1(1) t by simp
    with RelocBind_layout [OF b1(2,6) gq b1(3,4)] b1(5) show ?thesis
      by (auto simp: gap_of_def True)
  qed
  with ps(1,2) c show ?thesis by blast
qed

section \<open>Operands and negated branches\<close>

lemma operands:
  "decode_imm14_offset w = off14 w" "decode_imm19_offset w = off19 w" "decode_imm26_offset w = off26 w"
  "decode_immhi_immlo_offset w = off21 w" "decode_immhi_immlo_zero12_offset w = push_bit 12 (off21 w)"
proof -
  have 14: "(ucast (drop_bit 5 w) :: 14 word) = ucast (fld 5 14 w)" by (rule bit_word_eqI) (auto simp: bit_simps)
  have 19: "(ucast (drop_bit 5 w) :: 19 word) = ucast (fld 5 19 w)" by (rule bit_word_eqI) (auto simp: bit_simps)
  have 26: "(ucast w :: 26 word) = ucast (fld 0 26 w)" by (rule bit_word_eqI) (auto simp: bit_simps)
  show 21: "decode_immhi_immlo_offset w = off21 w" by (simp add: decode_adr off21_def fld_def)
  show "decode_imm14_offset w = off14 w" "decode_imm19_offset w = off19 w" "decode_imm26_offset w = off26 w"
    "decode_immhi_immlo_zero12_offset w = push_bit 12 (off21 w)"
    by (simp_all add: decode_imm14 decode_imm19 decode_imm26 off14_def off19_def off26_def 14 19 26
        decode_immhi_immlo_zero12_offset_def 21)
qed

lemma decode_reg: "decode_rt w = fld 0 5 w" "decode_rd w = fld 0 5 w"
  by (rule bit_word_eqI, auto simp: decode_rt_def decode_rd_def bits_32 bit_simps)+

lemma opc_bits: "bits_i32 w 30 31 = ucast (fld 30 2 w)"
  by (simp add: bits_i32_eq bits_32 fld_def numeral_2_eq_2)

lemma imm_three: "drop_bit 2 (4 * 3) = (mask 2 :: 32 word)"
  by (simp add: mask_numeral)

lemma bit_set_bit_to:
  "i < 32 \<Longrightarrow> st < 32 \<Longrightarrow> bit (set_bit_to obj st (of_bool b)) i \<longleftrightarrow> (if i = st then b else bit obj i)"
  by (auto simp: set_bit_to_def bit_simps)

lemma xor_one_of_bool: "(of_bool b :: 32 word) XOR 1 = of_bool (\<not> b)"
  by simp

lemma bit_negate_compare:
  "i < 32 \<Longrightarrow> bit (negate_compare_b w) i \<longleftrightarrow>
     (if i = 24 then \<not> bit w 24 else if 5 \<le> i \<and> i \<le> 23 then i < 7 else bit w i)"
  unfolding negate_compare_b_def Let_def bit_of_eq xor_one_of_bool imm_three
  by (auto simp: bit_set_bits bit_set_bit_to bit_simps)

lemma bit_negate_test:
  "i < 32 \<Longrightarrow> bit (negate_test_b w) i \<longleftrightarrow>
     (if i = 24 then \<not> bit w 24 else if 5 \<le> i \<and> i \<le> 18 then i < 7 else bit w i)"
  unfolding negate_test_b_def Let_def bit_of_eq xor_one_of_bool imm_three
  by (auto simp: bit_set_bits bit_set_bit_to bit_simps)

lemma bit_negate_cond:
  "i < 32 \<Longrightarrow> bit (negate_b_cond w) i \<longleftrightarrow>
     (if i = 0 then \<not> bit w 0 else if 5 \<le> i \<and> i \<le> 23 then i < 7 else bit w i)"
  unfolding negate_b_cond_def Let_def imm_three
  by (auto simp: bit_set_bits bits_i32_eq bits_32 bit_simps)

lemma fld_negate:
  assumes "lo + n \<le> 32"
  shows "lo + n \<le> 5 \<and> 0 < lo \<or> 24 \<le> lo \<Longrightarrow> fld lo n (negate_b_cond w) = fld lo n w"
    and "lo + n \<le> 5 \<or> 25 \<le> lo \<Longrightarrow> fld lo n (negate_compare_b w) = fld lo n w"
    and "lo + n \<le> 5 \<or> 25 \<le> lo \<or> 19 \<le> lo \<and> lo + n \<le> 24 \<Longrightarrow> fld lo n (negate_test_b w) = fld lo n w"
  using assms
  by - (rule bit_word_eqI, auto simp: bit_fld bit_negate_cond bit_negate_compare bit_negate_test)+

lemma off19_twelve:
  assumes "\<And>i. 5 \<le> i \<Longrightarrow> i \<le> 23 \<Longrightarrow> bit w i \<longleftrightarrow> i < 7"
  shows "off19 w = 12"
proof -
  have "fld 5 19 w = 3" by (simp add: fld_iff all_less_numeral assms)
  then show ?thesis by (simp add: off19_def)
qed

lemma off14_twelve:
  assumes "\<And>i. 5 \<le> i \<Longrightarrow> i \<le> 18 \<Longrightarrow> bit w i \<longleftrightarrow> i < 7"
  shows "off14 w = 12"
proof -
  have "fld 5 14 w = 3" by (simp add: fld_iff all_less_numeral assms)
  then show ?thesis by (simp add: off14_def)
qed

lemma decode_b_cond:
  assumes "fld 25 7 w = 42" "fld 24 1 w = 0"
  shows "decode w = B_cond (ucast (fld 0 4 w)) (off19 w)"
    and "decode (negate_b_cond w) = B_cond (ucast (fld 0 4 w) XOR 1) 12"
proof -
  have n: "fld 26 5 w \<noteq> 5" using assms unfolding class_bits by simp
  then show "decode w = B_cond (ucast (fld 0 4 w)) (off19 w)"
    using assms by (simp add: decode_def decode_pcrel_def)
  have c: "ucast (fld 0 4 (negate_b_cond w)) = (ucast (fld 0 4 w) XOR 1 :: 4 word)"
    by (rule bit_word_eqI) (auto simp: bit_simps bit_negate_cond)
  have "off19 (negate_b_cond w) = 12" by (rule off19_twelve) (simp add: bit_negate_cond)
  then show "decode (negate_b_cond w) = B_cond (ucast (fld 0 4 w) XOR 1) 12"
    using assms n by (simp add: decode_def decode_pcrel_def fld_negate c)
qed

lemma cond_negated:
  assumes "c < 14"
  shows "cond_holds (c XOR 1) st \<longleftrightarrow> \<not> cond_holds (c :: 4 word) st"
proof -
  have "c \<noteq> 15" using assms by auto
  moreover have "c XOR 1 \<noteq> 15"
  proof
    assume "c XOR 1 = 15"
    then have "(c XOR 1) XOR 1 = 14" by simp
    then have "c = 14" by (simp add: xor.assoc)
    with assms show False by simp
  qed
  moreover have "drop_bit 1 (c XOR 1) = drop_bit 1 c" by (rule bit_word_eqI) (auto simp: bit_simps)
  moreover have "bit (c XOR 1) 0 \<longleftrightarrow> \<not> bit c 0" by (simp add: bit_simps)
  ultimately show ?thesis
    unfolding cond_holds_def Let_def by (cases "nzcv st"; cases "bit c 0") (simp_all only: prod.case simp_thms if_True if_False)
qed

lemma decode_compare:
  assumes "fld 25 6 w = 26"
  shows "decode w = (if fld 24 1 w = 0 then CBZ (fld 31 1 w = 1) (reg_at 0 w) (off19 w)
      else CBNZ (fld 31 1 w = 1) (reg_at 0 w) (off19 w))"
    and "decode (negate_compare_b w) = (if fld 24 1 w = 0 then CBNZ (fld 31 1 w = 1) (reg_at 0 w) 12
      else CBZ (fld 31 1 w = 1) (reg_at 0 w) 12)"
proof -
  have n: "fld 26 5 w \<noteq> 5" "fld 25 7 w \<noteq> 42" using assms unfolding class_bits by auto
  then show "decode w = (if fld 24 1 w = 0 then CBZ (fld 31 1 w = 1) (reg_at 0 w) (off19 w)
      else CBNZ (fld 31 1 w = 1) (reg_at 0 w) (off19 w))"
    using assms by (simp add: decode_def decode_pcrel_def)
  have "off19 (negate_compare_b w) = 12" by (rule off19_twelve) (simp add: bit_negate_compare)
  moreover have "fld 24 1 (negate_compare_b w) = 0 \<longleftrightarrow> fld 24 1 w \<noteq> 0" unfolding class_bits by (simp add: bit_negate_compare)
  ultimately show "decode (negate_compare_b w) = (if fld 24 1 w = 0 then CBNZ (fld 31 1 w = 1) (reg_at 0 w) 12
      else CBZ (fld 31 1 w = 1) (reg_at 0 w) 12)"
    using assms n by (simp add: decode_def decode_pcrel_def fld_negate reg_at_def)
qed

definition test_bit :: "32 word \<Rightarrow> nat" where
  "test_bit w = unat (fld 19 5 w OR push_bit 5 (fld 31 1 w))"

lemma decode_test:
  assumes "fld 25 6 w = 27"
  shows "decode w = (if fld 24 1 w = 0 then TBZ (test_bit w) (reg_at 0 w) (off14 w)
      else TBNZ (test_bit w) (reg_at 0 w) (off14 w))"
    and "decode (negate_test_b w) = (if fld 24 1 w = 0 then TBNZ (test_bit w) (reg_at 0 w) 12
      else TBZ (test_bit w) (reg_at 0 w) 12)"
proof -
  have n: "fld 26 5 w \<noteq> 5" "fld 25 7 w \<noteq> 42" using assms unfolding class_bits by auto
  then show "decode w = (if fld 24 1 w = 0 then TBZ (test_bit w) (reg_at 0 w) (off14 w)
      else TBNZ (test_bit w) (reg_at 0 w) (off14 w))"
    using assms by (simp add: decode_def decode_pcrel_def test_bit_def)
  have "off14 (negate_test_b w) = 12" by (rule off14_twelve) (simp add: bit_negate_test)
  moreover have "fld 24 1 (negate_test_b w) = 0 \<longleftrightarrow> fld 24 1 w \<noteq> 0" unfolding class_bits by (simp add: bit_negate_test)
  ultimately show "decode (negate_test_b w) = (if fld 24 1 w = 0 then TBNZ (test_bit w) (reg_at 0 w) 12
      else TBZ (test_bit w) (reg_at 0 w) 12)"
    using assms n by (simp add: decode_def decode_pcrel_def fld_negate reg_at_def test_bit_def)
qed

section \<open>The pieces in memory\<close>

definition word_at :: "64 word \<Rightarrow> arm \<Rightarrow> 32 word" where
  "word_at A st = le_word (load 4 A st)"

text \<open>A piece lies at \<open>A\<close>: its words, where each load finds the address of its label.\<close>

definition piece_at :: "piece \<Rightarrow> 64 word \<Rightarrow> arm \<Rightarrow> bool" where
  "piece_at p A st \<longleftrightarrow>
     (\<forall>i<length (fst p). i \<notin> fst ` set (snd p) \<longrightarrow> word_at (A + word_of_nat (4 * i)) st = fst p ! i) \<and>
     (\<forall>(i, v)\<in>set (snd p). \<exists>off. decode (word_at (A + word_of_nat (4 * i)) st) = LDR_lit_X 17 off \<and>
        le_word (load 8 (A + word_of_nat (4 * i) + off) st) = v)"

lemma data_bytes_at:
  assumes "j < length vs"
  shows "take 8 (drop (8 * j) (data_bytes vs)) = le_bytes 8 (vs ! j)"
proof -
  have "data_bytes vs = data_bytes (take j vs) @ le_bytes 8 (vs ! j) @ data_bytes (drop (Suc j) vs)"
    using assms id_take_nth_drop [of j vs] data_bytes_simps(2,3) by metis
  moreover have "length (data_bytes (take j vs)) = 8 * j" using assms by simp
  ultimately show ?thesis by (simp del: length_data_bytes)
qed

lemma load_holds:
  assumes "holds_bytes bs dst st" "off + n \<le> length bs"
  shows "load n (dst + word_of_nat off) st = take n (drop off bs)"
proof (rule nth_equalityI)
  show "length (load n (dst + word_of_nat off) st) = length (take n (drop off bs))" using assms(2) by simp
  fix i assume "i < length (load n (dst + word_of_nat off) st)"
  then have i: "i < n" by simp
  have "load (length bs) dst st ! (off + i) = bs ! (off + i)" using assms(1) by (simp add: holds_bytes_def)
  then show "load n (dst + word_of_nat off) st ! i = take n (drop off bs) ! i"
    using i assms(2) by (simp add: load_def add.assoc)
qed

lemma start_split:
  assumes "k < length ps" "ps ! k = (us, ks)"
  obtains xs ys where "ps = xs @ (us, ks) # ys" "start ps k = length (code_of xs)"
  using assms id_take_nth_drop [OF assms(1)] by (metis start_def)

lemma placed_piece:
  assumes g: "\<forall>p\<in>set ps. good_piece p" and k: "k < length ps" "ps ! k = (us, ks)"
  shows "i < length us \<Longrightarrow> start ps k + i < length (code_of ps) \<and> code_of ps ! (start ps k + i) = us ! i"
    and "i < length us \<Longrightarrow> start ps k + i \<in> fst ` set (placed 0 ps) \<Longrightarrow> i \<in> fst ` set ks"
    and "(i, v) \<in> set ks \<Longrightarrow> (start ps k + i, v) \<in> set (placed 0 ps) \<and> i < length us"
proof -
  obtain xs ys where ps: "ps = xs @ (us, ks) # ys" and s: "start ps k = length (code_of xs)"
    using start_split [OF k] .
  have pl: "placed 0 ps = placed 0 xs @ shift_labels (start ps k) ks @ placed (start ps k + length us) ys"
    unfolding s by (simp add: ps placed_append)
  show "i < length us \<Longrightarrow> start ps k + i < length (code_of ps) \<and> code_of ps ! (start ps k + i) = us ! i"
    unfolding s by (simp add: ps nth_append)
  have "good_piece (us, ks)" using g ps by simp
  then show "(i, v) \<in> set ks \<Longrightarrow> (start ps k + i, v) \<in> set (placed 0 ps) \<and> i < length us"
    unfolding pl by (force simp: good_piece_def shift_labels_def)
  assume i: "i < length us" "start ps k + i \<in> fst ` set (placed 0 ps)"
  have "start ps k + i \<notin> fst ` set (placed 0 xs)"
    using placed_good [of xs 0] g ps s by fastforce
  moreover have "start ps k + i \<notin> fst ` set (placed (start ps k + length us) ys)"
    using placed_good [of ys "start ps k + length us"] g ps i(1) by fastforce
  ultimately have "start ps k + i \<in> fst ` set (shift_labels (start ps k) ks)"
    using i(2) unfolding pl by auto
  then show "i \<in> fst ` set ks" by (force simp: shift_labels_def)
qed

lemma add_add_minus: "a + b + (c - b) = (a + c :: 64 word)"
  by simp

lemma decode_fixup:
  assumes "pos < 2 ^ 20" "4 dvd pos" "4 * p < 2 ^ 20"
  shows "decode (fixup pos p ldr_tmp) = LDR_lit_X 17 (word_of_nat pos - word_of_nat (4 * p))"
proof -
  let ?d = "int pos - int (4 * p)"
  have w: "sint (word_of_int ?d :: 64 word) = ?d"
    using assms by (subst sint_sbintrunc') (simp add: signed_take_bit_int_eq_self)
  have d: "- (2 ^ 20) \<le> ?d" "?d < 2 ^ 20" using assms by simp_all
  have d4: "4 dvd ?d" using assms(2) by presburger
  have "push_bit 2 (scast (ucast (drop_bit 2 (word_of_int ?d :: 64 word)) :: 19 word)) = (word_of_int ?d :: 64 word)"
    by (rule imm19_in_range [of "word_of_int ?d", unfolded w]) (rule d d4)+
  then show ?thesis by (simp add: fixup_def ldr_tmp_def decode_ldr_literal)
qed

lemma layout_piece:
  assumes l: "layout ps gap bs" and gap: "4 dvd gap" and len: "length bs \<le> 2 ^ 20"
    and g: "\<forall>p\<in>set ps. good_piece p" and h: "holds_bytes bs dst st" and k: "k < length ps"
  shows "piece_at (ps ! k) (dst + word_of_nat (4 * start ps k)) st"
proof -
  obtain us ks where p: "ps ! k = (us, ks)" by (cases "ps ! k")
  let ?pvs = "placed 0 ps" and ?n = "length (code_of ps)" and ?s = "start ps k"
  obtain ws pad where bs: "bs = code_bytes ws @ pad @ data_bytes (map snd ?pvs)" and
    ws: "length ws = ?n" "length pad = gap" "\<forall>q<?n. q \<notin> fst ` set ?pvs \<longrightarrow> ws ! q = code_of ps ! q" and
    at: "\<forall>j<length ?pvs. ws ! fst (?pvs ! j) = fixup (4 * ?n + gap + 8 * j) (fst (?pvs ! j)) ldr_tmp"
    using l unfolding layout_def Let_def by blast
  have word: "word_at (dst + word_of_nat (4 * q)) st = ws ! q" if "q < ?n" for q
  proof -
    have "load 4 (dst + word_of_nat (4 * q)) st = take 4 (drop (4 * q) bs)"
      by (rule load_holds [OF h]) (use that ws(1) in \<open>simp add: bs\<close>)
    with that ws(1) show ?thesis by (simp add: word_at_def bs code_bytes_split le_word_bytes)
  qed
  have sum: "dst + word_of_nat (4 * ?s) + word_of_nat (4 * i) = dst + word_of_nat (4 * (?s + i))" for i
    by (simp add: add.assoc distrib_left)
  have 1: "word_at (dst + word_of_nat (4 * ?s) + word_of_nat (4 * i)) st = us ! i"
    if "i < length us" "i \<notin> fst ` set ks" for i
    unfolding sum using word [of "?s + i"] placed_piece(1,2) [OF g k p that(1)] that(2) ws(3) by metis
  have 2: "\<exists>off. decode (word_at (dst + word_of_nat (4 * ?s) + word_of_nat (4 * i)) st) = LDR_lit_X 17 off \<and>
      le_word (load 8 (dst + word_of_nat (4 * ?s) + word_of_nat (4 * i) + off) st) = v"
    if iv: "(i, v) \<in> set ks" for i v
  proof -
    have m: "(?s + i, v) \<in> set ?pvs" "i < length us" using placed_piece(3) [OF g k p iv] by simp_all
    then obtain j where j: "j < length ?pvs" "?pvs ! j = (?s + i, v)" by (metis in_set_conv_nth)
    let ?pos = "4 * ?n + gap + 8 * j"
    have n: "?s + i < ?n" using placed_piece(1) [OF g k p m(2)] by simp
    have fits: "?pos + 8 \<le> length bs" using j(1) ws by (simp add: bs)
    have w: "word_at (dst + word_of_nat (4 * (?s + i))) st = fixup ?pos (?s + i) ldr_tmp"
      using word [OF n] at j by force
    have d: "decode (fixup ?pos (?s + i) ldr_tmp) = LDR_lit_X 17 (word_of_nat ?pos - word_of_nat (4 * (?s + i)))"
      by (rule decode_fixup) (use fits len gap n in auto)
    have "load 8 (dst + word_of_nat ?pos) st = take 8 (drop ?pos bs)" by (rule load_holds [OF h fits])
    also have "\<dots> = le_bytes 8 v"
      using data_bytes_at [of j "map snd ?pvs"] j ws by (simp add: bs)
    finally have "le_word (load 8 (dst + word_of_nat ?pos) st) = v" by (simp add: le_word_bytes)
    then show ?thesis unfolding sum w d by (intro exI conjI) (rule refl, simp only: add_add_minus)
  qed
  show ?thesis using 1 2 by (auto simp: piece_at_def p)
qed

end
