(* ===== verification/Arm64Run.thy ===== *)
theory Arm64Run
  imports Arm64Sim
begin

text \<open>
  The relocated pieces run on the machine: each does, from its place, what its instruction does
  at the original address. A piece may change the scratch register \<open>x17\<close>.
\<close>

section \<open>Steps of the machine\<close>

lemma step_at:
  assumes "decode (word_at (pc st) st) = i"
  shows "arm_step other st = exec other i (pc st) (pc st + 4) st"
  using assms by (simp add: arm_step_def fetch_def word_at_def)

lemma pc_wX [simp]: "pc (wX n v st) = pc st" "mem (wX n v st) = mem st" "nzcv (wX n v st) = nzcv st"
  by (simp_all add: wX_def)

lemma word_at_cong: "mem st = mem st' \<Longrightarrow> word_at A st = word_at A st'"
  by (simp add: word_at_def load_def)

lemma load_cong: "mem st = mem st' \<Longrightarrow> load n A st = load n A st'"
  by (simp add: load_def)

lemma piece_at_cong: "mem st = mem st' \<Longrightarrow> piece_at p A st = piece_at p A st'"
  unfolding piece_at_def using word_at_cong [of st st'] load_cong [of st st'] by simp

text \<open>The value of \<open>Mov\<close>, sixteen bits at a time.\<close>

lemma mov_value:
  fixes v :: "64 word"
  defines "h0 \<equiv> Low16Bits (Low32Bits v)" and "h1 \<equiv> High16Bits (Low32Bits v)"
    and "h2 \<equiv> Low16Bits (High32Bits v)" and "h3 \<equiv> High16Bits (High32Bits v)"
  shows "(((((ucast h0 AND NOT (push_bit 16 (mask 16))) OR push_bit 16 (ucast h1))
      AND NOT (push_bit 32 (mask 16))) OR push_bit 32 (ucast h2))
      AND NOT (push_bit 48 (mask 16))) OR push_bit 48 (ucast h3) = v"
proof (rule bit_word_eqI)
  have l: "bit (Low16Bits w) i \<longleftrightarrow> i < 16 \<and> bit w i" for w i
  proof -
    have m: "(0xffff :: 32 word) = mask 16" by (simp add: mask_numeral)
    show ?thesis unfolding Low16Bits_def m by (auto simp: bit_simps)
  qed
  have h: "bit (High16Bits w) i \<longleftrightarrow> i < 16 \<and> bit w (16 + i)" for w i
    by (auto simp: High16Bits_def bit_simps)
  fix n assume n: "n < LENGTH(64)"
  consider "n < 16" | "16 \<le> n" "n < 32" | "32 \<le> n" "n < 48" | "48 \<le> n" by linarith
  then show "bit ((((((ucast h0 AND NOT (push_bit 16 (mask 16))) OR push_bit 16 (ucast h1))
      AND NOT (push_bit 32 (mask 16))) OR push_bit 32 (ucast h2))
      AND NOT (push_bit 48 (mask 16))) OR push_bit 48 (ucast h3) :: 64 word) n = bit v n"
    by cases (use n in \<open>simp_all add: h0_def h1_def h2_def h3_def l h Low32Bits_def High32Bits_def bit_simps less_diff_conv2\<close>)
qed

abbreviation run :: "(32 word \<Rightarrow> arm \<Rightarrow> arm) \<Rightarrow> nat \<Rightarrow> arm \<Rightarrow> arm" where
  "run other n \<equiv> arm_step other ^^ n"

lemma run_Suc: "run other (Suc n) st = run other n (arm_step other st)"
  by (simp only: funpow_Suc_right comp_apply)

lemma rX_wX: "rX d (wX d v st) = (if d = 31 then 0 else v)"
  by (simp add: rX_def wX_def)

lemma rX_pc [simp]: "rX d (st\<lparr>pc := a\<rparr>) = rX d st"
  by (simp add: rX_def)

lemma wX_wX: "wX d v (wX d u st) = wX d v st"
  by (simp add: wX_def)

lemma wX_pc: "wX d v (st\<lparr>pc := a\<rparr>) = (wX d v st)\<lparr>pc := a\<rparr>"
  by (simp add: wX_def)

lemma movz_step:
  assumes "word_at (pc st) st = word_movz (reg_X (take_bit 5 n)) (ucast (h :: 16 word)) 0"
  shows "arm_step other st = (wX (unat (take_bit 5 n)) (ucast h) st)\<lparr>pc := pc st + 4\<rparr>"
  using step_at [OF arg_cong [OF assms, of decode, unfolded decode_movz]]
  by (simp add: exec_def)

lemma movk_step:
  assumes "word_at (pc st) st = word_movk (reg_X (take_bit 5 n)) (ucast (h :: 16 word)) (16 * i)" "i \<in> {1, 2, 3}"
  defines "d \<equiv> unat (take_bit 5 n)"
  shows "arm_step other st =
    (wX d ((rX d st AND NOT (push_bit (16 * nat i) (mask 16))) OR push_bit (16 * nat i) (ucast h)) st)\<lparr>pc := pc st + 4\<rparr>"
  using step_at [OF arg_cong [OF assms(1), of decode, unfolded decode_movk [OF assms(2)]]]
  by (simp add: exec_def d_def)

lemma run_mov:
  assumes at: "\<forall>i<4. word_at (pc st + word_of_nat (4 * i)) st = words_Mov (reg_X (take_bit 5 n)) v ! i"
  shows "run other 4 st = (wX (unat (take_bit 5 n)) v st)\<lparr>pc := pc st + 16\<rparr>"
proof -
  let ?r = "reg_X (take_bit 5 n)" and ?d = "unat (take_bit 5 n)"
  let ?h0 = "Low16Bits (Low32Bits v)" and ?h1 = "High16Bits (Low32Bits v)"
  let ?h2 = "Low16Bits (High32Bits v)" and ?h3 = "High16Bits (High32Bits v)"
  have w: "word_at (pc st) st = word_movz ?r (ucast ?h0) 0" "word_at (pc st + 4) st = word_movk ?r (ucast ?h1) (16 * 1)"
    "word_at (pc st + 8) st = word_movk ?r (ucast ?h2) (16 * 2)" "word_at (pc st + 12) st = word_movk ?r (ucast ?h3) (16 * 3)"
    using at [rule_format, of 0] at [rule_format, of 1] at [rule_format, of 2] at [rule_format, of 3]
    by (simp_all add: words_Mov_def Let_def)
  define s1 where "s1 = (wX ?d (ucast ?h0) st)\<lparr>pc := pc st + 4\<rparr>"
  have 1: "arm_step other st = s1" unfolding s1_def by (rule movz_step [OF w(1)])
  define v2 where "v2 = ((ucast ?h0 AND NOT (push_bit 16 (mask 16))) OR push_bit 16 (ucast ?h1) :: 64 word)"
  define s2 where "s2 = (wX ?d v2 st)\<lparr>pc := pc st + 8\<rparr>"
  have "word_at (pc s1) s1 = word_movk ?r (ucast ?h1) (16 * 1)"
    using w(2) word_at_cong [of s1 st] by (simp add: s1_def)
  from movk_step [OF this] have 2: "arm_step other s1 = s2"
    by (cases "?d = 31") (simp_all add: s1_def s2_def v2_def rX_wX wX_wX wX_pc, simp_all add: wX_def)
  define v3 where "v3 = ((v2 AND NOT (push_bit 32 (mask 16))) OR push_bit 32 (ucast ?h2) :: 64 word)"
  define s3 where "s3 = (wX ?d v3 st)\<lparr>pc := pc st + 12\<rparr>"
  have "word_at (pc s2) s2 = word_movk ?r (ucast ?h2) (16 * 2)"
    using w(3) word_at_cong [of s2 st] by (simp add: s2_def)
  from movk_step [OF this] have 3: "arm_step other s2 = s3"
    by (cases "?d = 31") (simp_all add: s2_def s3_def v3_def rX_wX wX_wX wX_pc, simp_all add: wX_def)
  have v: "(v3 AND NOT (push_bit 48 (mask 16))) OR push_bit 48 (ucast ?h3) = v"
    unfolding v3_def v2_def by (rule mov_value)
  have "word_at (pc s3) s3 = word_movk ?r (ucast ?h3) (16 * 3)"
    using w(4) word_at_cong [of s3 st] by (simp add: s3_def)
  from movk_step [OF this] have 4: "arm_step other s3 = (wX ?d v st)\<lparr>pc := pc st + 16\<rparr>"
    using v by (cases "?d = 31") (simp_all add: s3_def rX_wX wX_wX wX_pc, simp_all add: wX_def)
  show ?thesis using 1 2 3 4 by (simp add: numeral_eq_Suc run_Suc)
qed

section \<open>What an instruction and its piece do\<close>

definition agree :: "nat set \<Rightarrow> arm \<Rightarrow> arm \<Rightarrow> bool" where
  "agree R s t \<longleftrightarrow> pc s = pc t \<and> nzcv s = nzcv t \<and> mem s = mem t \<and> (\<forall>r. r \<notin> R \<longrightarrow> regs s r = regs t r)"

text \<open>The registers a piece may change that its instruction does not.\<close>

definition scratch :: "32 word \<Rightarrow> nat set" where
  "scratch w =
     (if inst_is_b_bl w \<or> inst_is_b_cond w \<or> inst_is_compare_b w \<or> inst_is_test_b w \<or>
         inst_is_ldr_literal w \<and> reg_at 0 w \<noteq> 17 then {17} else {})"

text \<open>The instructions whose piece is right: a conditional branch has a condition that can be negated, and a literal
  load loads a 64-bit general register.\<close>

definition supported :: "32 word \<Rightarrow> bool" where
  "supported w \<longleftrightarrow>
     (case decode w of
        B_cond c _ \<Rightarrow> c < 14
      | LDR_lit_W _ _ \<Rightarrow> False
      | LDR_lit_V _ _ _ \<Rightarrow> False
      | Other _ \<Rightarrow> fld 25 7 w \<noteq> 42
      | _ \<Rightarrow> True)"

lemma agree_refl [simp]: "agree R s s"
  by (simp add: agree_def)

lemma agree_tmp: "agree {17} ((wX 17 v st)\<lparr>pc := a\<rparr>) (st\<lparr>pc := a\<rparr>)"
  by (simp add: agree_def wX_def)

lemma trunc_page_add: "arm64_trunc_page (x + push_bit 12 k) = push_bit 12 (drop_bit 12 x) + push_bit 12 k"
proof -
  have x: "x = push_bit 12 (drop_bit 12 x) + take_bit 12 x"
    by (simp only: bits_ident)
  let ?H = "push_bit 12 (drop_bit 12 x + k)" and ?L = "take_bit 12 x"
  have "x + push_bit 12 k = ?H + ?L" by (subst (1) x) (simp add: push_bit_add)
  moreover have "?H AND ?L = 0" by (rule bit_word_eqI) (auto simp: bit_simps)
  ultimately have "x + push_bit 12 k = ?H OR ?L" by (simp add: disjunctive_add_eq_or)
  moreover have "(?H OR ?L) AND NOT (mask 12) = ?H" by (rule bit_word_eqI) (auto simp: bit_simps)
  moreover have "(0x1000 - 1 :: 64 word) = mask 12" by (simp add: mask_numeral)
  ultimately show ?thesis by (simp add: arm64_trunc_page_def push_bit_add)
qed

lemma decode_tmp_branch: "decode (word_br TMP_REG_0) = BR_reg 17" "decode (word_blr TMP_REG_0) = BLR_reg 17"
  using decode_br [of 17] decode_blr [of 17] by (simp_all add: TMP_REG_0_def)

text \<open>The load of a label.\<close>

lemma load_label_step:
  assumes "decode (word_at (pc st) st) = LDR_lit_X 17 off" "le_word (load 8 (pc st + off) st) = v"
  shows "arm_step other st = (wX 17 v st)\<lparr>pc := pc st + 4\<rparr>"
  using step_at [OF assms(1)] assms(2) by (simp add: exec_def)

lemma run_branch:
  assumes p: "piece_at ([ldr_tmp, w], [(0, v)]) (pc st) st"
  shows "w = word_br TMP_REG_0 \<Longrightarrow> run other 2 st = (wX 17 v st)\<lparr>pc := v\<rparr>"
    and "w = word_blr TMP_REG_0 \<Longrightarrow> run other 2 st = (wX 30 (pc st + 8) (wX 17 v st))\<lparr>pc := v\<rparr>"
proof -
  obtain off where off: "decode (word_at (pc st) st) = LDR_lit_X 17 off" "le_word (load 8 (pc st + off) st) = v"
    using p by (auto simp: piece_at_def)
  define s1 where "s1 = (wX 17 v st)\<lparr>pc := pc st + 4\<rparr>"
  have 1: "arm_step other st = s1" unfolding s1_def by (rule load_label_step [OF off])
  have w: "word_at (pc s1) s1 = w"
    using p word_at_cong [of s1 st] by (auto simp: piece_at_def s1_def all_less_numeral less_Suc_eq)
  have v: "rX 17 s1 = v" by (simp add: s1_def rX_wX)
  have 2: "run other 2 st = arm_step other s1" by (simp add: numeral_2_eq_2 run_Suc 1)
  show "w = word_br TMP_REG_0 \<Longrightarrow> run other 2 st = (wX 17 v st)\<lparr>pc := v\<rparr>"
    using step_at [of s1 "BR_reg 17"] w v by (simp add: 2 decode_tmp_branch exec_def) (simp add: s1_def)
  show "w = word_blr TMP_REG_0 \<Longrightarrow> run other 2 st = (wX 30 (pc st + 8) (wX 17 v st))\<lparr>pc := v\<rparr>"
    using step_at [of s1 "BLR_reg 17"] w v
    by (simp add: 2 decode_tmp_branch exec_def) (simp add: s1_def wX_pc add.assoc)
qed

lemma run_over:
  assumes p: "piece_at ([w, ldr_tmp, word_br TMP_REG_0], [(1, v)]) (pc st) st"
    and e: "exec other (decode w) (pc st) (pc st + 4) st = st\<lparr>pc := if c then pc st + 12 else pc st + 4\<rparr>"
  shows "\<exists>n>0. agree {17} (run other n st) (st\<lparr>pc := if c then pc st + 12 else v\<rparr>)"
proof -
  have "word_at (pc st) st = w" using p by (auto simp: piece_at_def)
  then have 1: "arm_step other st = st\<lparr>pc := if c then pc st + 12 else pc st + 4\<rparr>"
    using step_at [of st "decode w"] e by simp
  show ?thesis
  proof (cases c)
    case True
    with 1 show ?thesis by (intro exI [of _ 1]) simp
  next
    case False
    define s1 where "s1 = st\<lparr>pc := pc st + 4\<rparr>"
    have s1: "arm_step other st = s1" using 1 False by (simp add: s1_def)
    obtain off where "decode (word_at (pc st + 4) st) = LDR_lit_X 17 off" "le_word (load 8 (pc st + 4 + off) st) = v"
      and br: "word_at (pc st + 8) st = word_br TMP_REG_0"
      using p by (auto simp: piece_at_def all_less_numeral less_Suc_eq)
    then have "piece_at ([ldr_tmp, word_br TMP_REG_0], [(0, v)]) (pc s1) s1"
      using word_at_cong [of s1 st] load_cong [of s1 st]
      by (auto simp: piece_at_def s1_def all_less_numeral less_Suc_eq add.assoc)
    from run_branch(1) [OF this refl] have "run other 3 st = (wX 17 v s1)\<lparr>pc := v\<rparr>"
      by (simp add: numeral_3_eq_3 numeral_2_eq_2 run_Suc s1)
    then have "agree {17} (run other 3 st) (st\<lparr>pc := v\<rparr>)"
      by (simp add: s1_def wX_pc agree_tmp)
    with False show ?thesis by (intro exI [of _ 3]) simp
  qed
qed

section \<open>One piece per class\<close>

lemma decode_rest_position:
  "decode_pcrel w = None \<Longrightarrow> exec other (decode w) a next st = exec other (decode w) b next st"
  by (simp add: decode_def decode_rest_def exec_def)

lemma sim_b_bl:
  assumes c: "inst_is_b_bl w" and p: "piece_of src w = Inr p" and at: "piece_at p (pc st) st"
  shows "\<exists>n>0. agree {17} (run other n st) (exec other (decode w) src (pc st + 4 * word_of_nat (length (fst p))) st)"
proof -
  have f: "fld 26 5 w = 5" using c by (simp add: inst_classes)
  have d: "decode w = (if fld 31 1 w = 0 then B_imm (off26 w) else BL_imm (off26 w))"
    using f by (simp add: decode_def decode_pcrel_def)
  have bl: "fld 26 6 w = 37 \<longleftrightarrow> fld 31 1 w \<noteq> 0"
    using f unfolding class_bits by (simp add: fld_iff all_less_numeral)
  have "p = ([ldr_tmp, if fld 31 1 w \<noteq> 0 then word_blr TMP_REG_0 else word_br TMP_REG_0], [(0, src + off26 w)])"
    using p c by (simp add: piece_of_def inst_classes(8) bl operands)
  with at run_branch [of _ "src + off26 w" st other] show ?thesis
    by (intro exI [of _ 2]) (auto simp: d exec_def agree_def wX_def)
qed

lemma sim_mov:
  assumes at: "piece_at (words_Mov (reg_X (fld 0 5 w)) v, []) (pc st) st"
  shows "run other 4 st = (wX (reg_at 0 w) v st)\<lparr>pc := pc st + 16\<rparr>"
proof -
  have "length (words_Mov (reg_X (fld 0 5 w)) v) = 4" by (simp add: words_Mov_def Let_def)
  then have "\<forall>i<4. word_at (pc st + word_of_nat (4 * i)) st = words_Mov (reg_X (take_bit 5 w)) v ! i"
    using at by (simp add: piece_at_def fld_def)
  from run_mov [OF this] show ?thesis by (simp add: reg_at_def fld_def)
qed

lemma sim_adr:
  assumes c: "fld 24 5 w = 16" and p: "piece_of src w = Inr p" and at: "piece_at p (pc st) st"
  shows "\<exists>n>0. agree {} (run other n st) (exec other (decode w) src (pc st + 4 * word_of_nat (length (fst p))) st)"
proof -
  define v where "v = (if fld 31 1 w = 0 then src + off21 w
    else push_bit 12 (drop_bit 12 src) + push_bit 12 (off21 w))"
  have n: "fld 26 5 w \<noteq> 5" "fld 25 7 w \<noteq> 42" "fld 25 6 w \<noteq> 26" "fld 25 6 w \<noteq> 27"
    using c unfolding class_bits by auto
  have l: "\<not> (fld 24 2 w = 0 \<and> fld 27 3 w = 3)" using c unfolding class_bits by auto
  have o: "fld 31 1 w \<noteq> 0 \<Longrightarrow> fld 31 1 w = 1" unfolding class_bits by simp
  have "p = (words_Mov (reg_X (fld 0 5 w)) v, [])"
    using p c n l o by (auto simp: piece_of_def inst_classes operands decode_reg trunc_page_add v_def split: if_splits)
  with at sim_mov have "run other 4 st = (wX (reg_at 0 w) v st)\<lparr>pc := pc st + 16\<rparr>" by simp
  moreover have "exec other (decode w) src nx st = (wX (reg_at 0 w) v st)\<lparr>pc := nx\<rparr>" for nx
    using c n by (simp add: decode_def decode_pcrel_def exec_def v_def)
  moreover have "length (fst p) = 4" using \<open>p = _\<close> by (simp add: words_Mov_def Let_def)
  ultimately show ?thesis by (intro exI [of _ 4]) simp
qed

lemma literal_class:
  assumes "inst_is_ldr_literal w"
  shows "decode w = literal w" "\<not> inst_is_b_bl w" "\<not> inst_is_adr w" "\<not> inst_is_adrp w" "\<not> inst_is_b_cond w"
    "\<not> inst_is_compare_b w" "\<not> inst_is_test_b w"
proof -
  have f: "fld 24 2 w = 0" "fld 27 3 w = 3" using assms by (simp_all add: inst_classes)
  have n: "fld 26 5 w \<noteq> 5" "fld 25 7 w \<noteq> 42" "fld 25 6 w \<noteq> 26" "fld 25 6 w \<noteq> 27" "fld 24 5 w \<noteq> 16"
    using f unfolding class_bits by auto
  then show "\<not> inst_is_b_bl w" "\<not> inst_is_adr w" "\<not> inst_is_adrp w" "\<not> inst_is_b_cond w"
    "\<not> inst_is_compare_b w" "\<not> inst_is_test_b w" by (simp_all add: inst_classes)
  show "decode w = literal w" using f n by (simp add: decode_def decode_pcrel_def)
qed

text \<open>The piece of a literal load loads eight bytes into the general register, whatever the load is.\<close>

lemma run_ldr_literal:
  assumes c: "inst_is_ldr_literal w" and p: "piece_of src w = Inr p" and at: "piece_at p (pc st) st"
  shows "fld 30 2 w = 0 \<or> fld 30 2 w = 1" "length (fst p) = 5"
    "run other 5 st = (wX (reg_at 0 w) (le_word (load 8 (src + off19 w) st)) (wX 17 (src + off19 w) st))\<lparr>pc := pc st + 20\<rparr>"
proof -
  let ?v = "src + off19 w" and ?m = "MemOperand_imm TMP_REG_0 0 Offset"
  have u: "ucast (fld 30 2 w) = (1 :: 64 word) \<longleftrightarrow> fld 30 2 w = 1" "ucast (fld 30 2 w) = (0 :: 64 word) \<longleftrightarrow> fld 30 2 w = 0"
    by (simp_all add: word_unat_eq_iff unat_ucast_64)
  show opc: "fld 30 2 w = 0 \<or> fld 30 2 w = 1"
    using p c literal_class(2) [OF c] by (auto simp: piece_of_def opc_bits u split: if_splits)
  obtain i where i: "word_ldr (reg_X (fld 0 5 w)) ?m = Inr i" "decode i = LDR_imm_X (reg_at 0 w) 17 0"
    using decode_ldr_imm [of 17 "reg_X (fld 0 5 w)" 0 w] by (auto simp: reg_X_def fld_def TMP_REG_0_def reg_at_def)
  have iw: "word_ldr (reg_W r) ?m = word_ldr (reg_X r) ?m" for r
    by (simp add: word_ldr_def LoadStore_def Rt_def reg_W_def reg_X_def)
  have pp: "p = (words_Mov TMP_REG_0 ?v @ [i], [])"
    using p c literal_class(2) [OF c] opc i iw by (auto simp: piece_of_def opc_bits u operands decode_reg)
  have len: "length (words_Mov TMP_REG_0 ?v) = 4" by (simp add: words_Mov_def Let_def)
  then show "length (fst p) = 5" by (simp add: pp)
  have "\<forall>k<4. word_at (pc st + word_of_nat (4 * k)) st = words_Mov (reg_X (take_bit 5 17)) ?v ! k"
    using at len by (simp add: piece_at_def pp nth_append TMP_REG_0_def)
  from run_mov [OF this] have 4: "run other 4 st = (wX 17 ?v st)\<lparr>pc := pc st + 16\<rparr>" by simp
  let ?s = "(wX 17 ?v st)\<lparr>pc := pc st + 16\<rparr>" and ?x = "le_word (load 8 ?v st) :: 64 word"
  have "word_at (pc ?s) ?s = i"
    using at len word_at_cong [of ?s st] by (auto simp: piece_at_def pp nth_append dest: spec [of _ 4])
  then have "arm_step other ?s = exec other (LDR_imm_X (reg_at 0 w) 17 0) (pc ?s) (pc ?s + 4) ?s"
    by (intro step_at) (simp only: i)
  also have "\<dots> = (wX (reg_at 0 w) ?x (wX 17 ?v st))\<lparr>pc := pc st + 20\<rparr>"
    using load_cong [of ?s st] by (simp add: exec_def rX_wX wX_pc add.assoc)
  finally show "run other 5 st = (wX (reg_at 0 w) ?x (wX 17 ?v st))\<lparr>pc := pc st + 20\<rparr>"
    using 4 by (simp add: numeral_eq_Suc)
qed

lemma sim_ldr_literal:
  assumes c: "inst_is_ldr_literal w" "supported w" and p: "piece_of src w = Inr p" and at: "piece_at p (pc st) st"
  shows "\<exists>n>0. agree (if reg_at 0 w \<noteq> 17 then {17} else {}) (run other n st)
    (exec other (decode w) src (pc st + 4 * word_of_nat (length (fst p))) st)"
proof -
  note d = literal_class(1) [OF c(1)] and r = run_ldr_literal(1,2) [OF c(1) p at] run_ldr_literal(3) [OF c(1) p at, of other]
  have V: "fld 26 1 w \<noteq> 1" "fld 30 2 w \<noteq> 0" using c(2) by (auto simp: supported_def d literal_def split: if_splits)
  with r(1) have "exec other (decode w) src nx st = (wX (reg_at 0 w) (le_word (load 8 (src + off19 w) st)) st)\<lparr>pc := nx\<rparr>" for nx
    by (simp add: d literal_def exec_def)
  with r show ?thesis by (intro exI [of _ 5]) (auto simp: agree_def wX_def)
qed

lemma sim_over:
  assumes p: "piece_at ([w', ldr_tmp, word_br TMP_REG_0], [(1, src + off)]) (pc st) st"
    and e: "exec other (decode w) src nx st = st\<lparr>pc := if c then src + off else nx\<rparr>"
    and n: "exec other (decode w') (pc st) (pc st + 4) st = st\<lparr>pc := if \<not> c then pc st + 12 else pc st + 4\<rparr>"
    and nx: "nx = pc st + 12"
  shows "\<exists>n>0. agree {17} (run other n st) (exec other (decode w) src nx st)"
  using run_over [OF p n] unfolding nx e [unfolded nx] by (auto split: if_splits)

lemma sim_b_cond:
  assumes c: "inst_is_b_cond w" "supported w" and p: "piece_of src w = Inr p" and at: "piece_at p (pc st) st"
  shows "\<exists>n>0. agree {17} (run other n st) (exec other (decode w) src (pc st + 4 * word_of_nat (length (fst p))) st)"
proof -
  have f: "fld 25 7 w = 42" using c(1) by (simp add: inst_classes)
  have n: "fld 26 5 w \<noteq> 5" "\<not> (fld 24 2 w = 0 \<and> fld 27 3 w = 3)" "fld 24 5 w \<noteq> 16" "fld 25 6 w \<noteq> 26" "fld 25 6 w \<noteq> 27"
    using f unfolding class_bits by auto
  have z: "fld 24 1 w = 0"
  proof (rule ccontr)
    assume "fld 24 1 w \<noteq> 0"
    then have "decode_pcrel w = None" using f n by (auto simp: decode_pcrel_def)
    moreover have "decode_rest w = Other w"
    proof -
      have "fld 25 7 w \<noteq> 107" using f by simp
      moreover have "fld 22 10 w \<noteq> 997" "fld 23 9 w \<noteq> 421" "fld 23 9 w \<noteq> 485" "fld 22 10 w \<noteq> 580"
        using f unfolding class_bits by (auto simp: fld_iff all_less_numeral)
      ultimately show ?thesis by (simp add: decode_rest_def)
    qed
    ultimately show False using c(2) f by (simp add: supported_def decode_def)
  qed
  note d = decode_b_cond [OF f z]
  have c14: "ucast (fld 0 4 w) < (14 :: 4 word)" using c(2) by (simp add: supported_def d)
  have pp: "p = ([negate_b_cond w, ldr_tmp, word_br TMP_REG_0], [(1, src + off19 w)])"
    using p c(1) n by (auto simp: piece_of_def inst_classes operands)
  show ?thesis
    by (rule sim_over [OF at [unfolded pp], where c = "cond_holds (ucast (fld 0 4 w)) st"])
      (simp_all add: d exec_def pp cond_negated [OF c14])
qed

lemma sim_compare_b:
  assumes c: "inst_is_compare_b w" and p: "piece_of src w = Inr p" and at: "piece_at p (pc st) st"
  shows "\<exists>n>0. agree {17} (run other n st) (exec other (decode w) src (pc st + 4 * word_of_nat (length (fst p))) st)"
proof -
  have f: "fld 25 6 w = 26" using c by (simp add: inst_classes)
  have n: "fld 26 5 w \<noteq> 5" "\<not> (fld 24 2 w = 0 \<and> fld 27 3 w = 3)" "fld 24 5 w \<noteq> 16" "fld 25 7 w \<noteq> 42"
    using f unfolding class_bits by auto
  note d = decode_compare [OF f]
  have pp: "p = ([negate_compare_b w, ldr_tmp, word_br TMP_REG_0], [(1, src + off19 w)])"
    using p c n by (auto simp: piece_of_def inst_classes operands)
  let ?z = "reg_operand (fld 31 1 w = 1) (reg_at 0 w) st = 0"
  show ?thesis
    by (rule sim_over [OF at [unfolded pp], where c = "if fld 24 1 w = 0 then ?z else \<not> ?z"])
      (simp_all add: d exec_def pp)
qed

lemma sim_test_b:
  assumes c: "inst_is_test_b w" and p: "piece_of src w = Inr p" and at: "piece_at p (pc st) st"
  shows "\<exists>n>0. agree {17} (run other n st) (exec other (decode w) src (pc st + 4 * word_of_nat (length (fst p))) st)"
proof -
  have f: "fld 25 6 w = 27" using c by (simp add: inst_classes)
  have n: "fld 26 5 w \<noteq> 5" "\<not> (fld 24 2 w = 0 \<and> fld 27 3 w = 3)" "fld 24 5 w \<noteq> 16" "fld 25 7 w \<noteq> 42" "fld 25 6 w \<noteq> 26"
    using f unfolding class_bits by auto
  note d = decode_test [OF f]
  have pp: "p = ([negate_test_b w, ldr_tmp, word_br TMP_REG_0], [(1, src + off14 w)])"
    using p c n by (auto simp: piece_of_def inst_classes operands)
  let ?z = "bit (rX (reg_at 0 w) st) (test_bit w)"
  show ?thesis
    by (rule sim_over [OF at [unfolded pp], where c = "if fld 24 1 w = 0 then \<not> ?z else ?z"])
      (simp_all add: d exec_def pp)
qed

lemma sim_copied:
  assumes c: "\<not> inst_is_b_bl w" "\<not> inst_is_ldr_literal w" "\<not> inst_is_adr w" "\<not> inst_is_adrp w" "\<not> inst_is_b_cond w"
      "\<not> inst_is_compare_b w" "\<not> inst_is_test_b w"
    and p: "piece_of src w = Inr p" and at: "piece_at p (pc st) st"
  shows "\<exists>n>0. agree {} (run other n st) (exec other (decode w) src (pc st + 4 * word_of_nat (length (fst p))) st)"
proof -
  have pp: "p = ([w], [])" using p c by (simp add: piece_of_def)
  have o: "fld 31 1 w \<noteq> 0 \<Longrightarrow> fld 31 1 w = 1" unfolding class_bits by simp
  have "decode_pcrel w = None" using c o by (auto simp: decode_pcrel_def inst_classes)
  from decode_rest_position [OF this] have e: "exec other (decode w) src nx st = exec other (decode w) (pc st) nx st" for nx .
  have "word_at (pc st) st = w" using at by (auto simp: piece_at_def pp)
  then have "arm_step other st = exec other (decode w) (pc st) (pc st + 4) st" by (intro step_at) simp
  then show ?thesis by (intro exI [of _ 1]) (simp add: pp e)
qed

lemma piece_simulates:
  assumes s: "supported w" and p: "piece_of src w = Inr p" and at: "piece_at p (pc st) st"
  shows "\<exists>n>0. agree (scratch w) (run other n st)
    (exec other (decode w) src (pc st + 4 * word_of_nat (length (fst p))) st)"
proof -
  have ex: "\<not> inst_is_b_bl w" "\<not> inst_is_b_cond w" "\<not> inst_is_compare_b w" "\<not> inst_is_test_b w"
    if "inst_is_ldr_literal w \<or> fld 24 5 w = 16"
    using that unfolding inst_classes class_bits by auto
  have l: "\<not> inst_is_ldr_literal w" if "fld 24 5 w = 16"
    using that unfolding inst_classes class_bits by auto
  show ?thesis
  proof (cases "inst_is_ldr_literal w \<or> fld 24 5 w = 16")
    case True
    show ?thesis
    proof (cases "inst_is_ldr_literal w")
      case True
      with sim_ldr_literal [OF True s p at, of other] ex show ?thesis by (simp add: scratch_def)
    next
      case False
      with True have "fld 24 5 w = 16" by simp
      with sim_adr [OF this p at, of other] ex l show ?thesis by (simp add: scratch_def)
    qed
  next
    case False
    then have n: "\<not> inst_is_ldr_literal w" "\<not> inst_is_adr w" "\<not> inst_is_adrp w" by (simp_all add: inst_classes(3,4))
    consider "inst_is_b_bl w" | "inst_is_b_cond w" | "inst_is_compare_b w" | "inst_is_test_b w"
      | "\<not> inst_is_b_bl w" "\<not> inst_is_b_cond w" "\<not> inst_is_compare_b w" "\<not> inst_is_test_b w" by blast
    then show ?thesis
    proof cases
      case 1 with sim_b_bl [OF 1 p at, of other] show ?thesis by (simp add: scratch_def)
    next
      case 2 with sim_b_cond [OF 2 s p at, of other] show ?thesis by (simp add: scratch_def)
    next
      case 3 with sim_compare_b [OF 3 p at, of other] show ?thesis by (simp add: scratch_def)
    next
      case 4 with sim_test_b [OF 4 p at, of other] show ?thesis by (simp add: scratch_def)
    next
      case 5
      with sim_copied [OF 5(1) n 5(2-4) p at, of other] n show ?thesis by (simp add: scratch_def)
    qed
  qed
qed

section \<open>The relocated block\<close>

text \<open>The machine stands, with the relocated code loaded at \<open>dst\<close>, at the place of the instruction at
  offset \<open>x\<close> of the original block.\<close>

definition at_relocated :: "relo_ctx \<Rightarrow> assembler \<Rightarrow> 64 word \<Rightarrow> nat \<Rightarrow> arm \<Rightarrow> bool" where
  "at_relocated ctx a dst x st \<longleftrightarrow>
     holds_bytes (a_buffer a) dst st \<and> (\<exists>off. rc_map ctx x = Some off \<and> pc st = dst + word_of_nat off)"

text \<open>Where the piece of instruction \<open>k\<close> ends: at the next piece, or behind the last.\<close>

lemma relocated_pieces:
  assumes r: "relo_assemble ctx branch = Inr (ctx', a)" and z: "rc_cursor ctx = 0"
    and len: "length (a_buffer a) \<le> 2 ^ 20"
  defines "n \<equiv> (rc_size ctx + 3) div 4"
  defines "target \<equiv> mb_addr (rc_origin ctx) + word_of_nat (4 * n)"
  shows "\<exists>ps. length ps = n \<and>
    (\<forall>k<n. piece_of (rc_src ctx + word_of_nat (4 * k)) (inst_at (rc_buffer ctx) (4 * k)) = Inr (ps ! k) \<and>
       rc_map ctx' (4 * k) = Some (4 * start ps k) \<and>
       start ps (Suc k) = start ps k + length (fst (ps ! k)) \<and>
       (\<forall>dst st. holds_bytes (a_buffer a) dst st \<longrightarrow> piece_at (ps ! k) (dst + word_of_nat (4 * start ps k)) st)) \<and>
    (branch \<longrightarrow> (\<forall>dst st. holds_bytes (a_buffer a) dst st \<longrightarrow>
       piece_at (branch_piece target) (dst + word_of_nat (4 * start ps n)) st))"
proof -
  from relo_assemble_layout [OF r] obtain ps where ps: "pieces_from (rc_src ctx) (rc_buffer ctx) 0 ps"
    "length ps = n"
    and l: "layout (all_pieces ps branch (mb_addr (rc_origin ctx) + word_of_nat (rc_cursor ctx')))
      (gap_of (all_pieces ps branch (mb_addr (rc_origin ctx) + word_of_nat (rc_cursor ctx'))) branch) (a_buffer a)"
    and c: "ctx' = ctx\<lparr>rc_cursor := 4 * length ps, rc_map := rc_map ctx ++ map_of_pieces 0 0 ps,
               rc_origin := block_reset (mb_addr (rc_origin ctx)) (word_of_nat (rc_cursor ctx')) (rc_origin ctx)\<rparr>"
    by (auto simp: z n_def)
  have cur: "rc_cursor ctx' = 4 * n" using arg_cong [OF c, of rc_cursor] ps(2) by simp
  let ?qs = "all_pieces ps branch target"
  have l: "layout ?qs (gap_of ?qs branch) (a_buffer a)" using l unfolding cur target_def by simp
  have "\<forall>p\<in>set ps. good_piece p"
    using ps(1) good_piece_of unfolding pieces_from_def by (metis in_set_conv_nth)
  then have g: "\<forall>p\<in>set ?qs. good_piece p" by (auto simp: all_pieces_def good_branch_piece)
  have gap: "4 dvd gap_of ?qs branch" by (simp add: gap_of_def)
  have nth: "?qs ! k = ps ! k" "start ?qs k = start ps k" if "k < n" for k
    using that ps(2) by (simp_all add: all_pieces_def nth_append start_def)
  have at: "piece_at (ps ! k) (dst + word_of_nat (4 * start ps k)) st"
    if "k < n" "holds_bytes (a_buffer a) dst st" for k dst st
    using layout_piece [OF l gap len g that(2), of k] that(1) nth [OF that(1)] ps(2) by (simp add: all_pieces_def)
  have last: "piece_at (branch_piece target) (dst + word_of_nat (4 * start ps n)) st"
    if "branch" "holds_bytes (a_buffer a) dst st" for dst st
    using layout_piece [OF l gap len g that(2), of n] that(1) ps(2)
    by (simp add: all_pieces_def nth_append start_def)
  have m: "rc_map ctx' (4 * k) = Some (4 * start ps k)" if "k < n" for k
    using that ps(2) by (subst c) (simp add: map_of_pieces_def map_add_def)
  have s: "start ps (Suc k) = start ps k + length (fst (ps ! k))" if "k < n" for k
    using that ps(2) by (simp add: start_def take_Suc_conv_app_nth)
  show ?thesis
    by (rule exI [of _ ps]) (use ps at last m s in \<open>auto simp: pieces_from_def\<close>)
qed

lemma instruction_piece:
  assumes "relo_assemble ctx branch = Inr (ctx', a)" "rc_cursor ctx = 0" "length (a_buffer a) \<le> 2 ^ 20"
    and "4 * k < rc_size ctx" "at_relocated ctx' a dst (4 * k) st"
  shows "\<exists>p. piece_of (rc_src ctx + word_of_nat (4 * k)) (inst_at (rc_buffer ctx) (4 * k)) = Inr p \<and> piece_at p (pc st) st \<and>
    (\<exists>next. pc st + 4 * word_of_nat (length (fst p)) = dst + word_of_nat next \<and>
      (4 * Suc k < rc_size ctx \<longrightarrow> rc_map ctx' (4 * Suc k) = Some next))"
proof -
  from relocated_pieces [OF assms(1-3)] obtain ps where ps:
    "\<forall>j<(rc_size ctx + 3) div 4. piece_of (rc_src ctx + word_of_nat (4 * j)) (inst_at (rc_buffer ctx) (4 * j)) = Inr (ps ! j) \<and>
       rc_map ctx' (4 * j) = Some (4 * start ps j) \<and>
       start ps (Suc j) = start ps j + length (fst (ps ! j)) \<and>
       (\<forall>dst st. holds_bytes (a_buffer a) dst st \<longrightarrow> piece_at (ps ! j) (dst + word_of_nat (4 * start ps j)) st)"
    by auto
  have k: "k < (rc_size ctx + 3) div 4" using assms(4) by simp
  have pc: "pc st = dst + word_of_nat (4 * start ps k)" and "piece_at (ps ! k) (pc st) st"
    using assms(5) ps k by (auto simp: at_relocated_def)
  moreover have "pc st + 4 * word_of_nat (length (fst (ps ! k))) = dst + word_of_nat (4 * start ps (Suc k))"
    using ps k by (simp add: pc algebra_simps)
  moreover have "rc_map ctx' (4 * Suc k) = Some (4 * start ps (Suc k))" if "4 * Suc k < rc_size ctx"
  proof -
    have "Suc k < (rc_size ctx + 3) div 4" using that by simp
    then show ?thesis using ps by blast
  qed
  ultimately show ?thesis using ps k by blast
qed

section \<open>Properties\<close>

text \<open>C3: an instruction relocated by \<open>relo_relocate\<close> does at its new place what it did at the old
  one. With the relocated code loaded at any address, from the place the offset map gives for
  instruction \<open>k\<close>, the machine reaches after at least one step the state the instruction itself
  leaves: the same flags, memory and registers except possibly \<open>x17\<close>, at the branch target, or at
  the place of the next instruction. It holds for every branch, compare-and-branch,
  test-and-branch, ADR, ADRP and 64-bit literal load, and for every instruction copied; not for
  \<open>B.AL\<close>, \<open>B.NV\<close> and the literal loads of 32-bit and of vector registers.\<close>

theorem relocated_instruction_simulates:
  assumes "relo_assemble ctx branch = Inr (ctx', a)" "rc_cursor ctx = 0" "length (a_buffer a) \<le> 2 ^ 20"
    and "4 * k < rc_size ctx" "supported (inst_at (rc_buffer ctx) (4 * k))" "at_relocated ctx' a dst (4 * k) st"
  shows "\<exists>n>0. \<exists>next. agree (scratch (inst_at (rc_buffer ctx) (4 * k))) (run other n st)
      (exec other (decode (inst_at (rc_buffer ctx) (4 * k))) (rc_src ctx + word_of_nat (4 * k)) (dst + word_of_nat next) st) \<and>
    (4 * Suc k < rc_size ctx \<longrightarrow> rc_map ctx' (4 * Suc k) = Some next)"
proof -
  obtain p nx where p: "piece_of (rc_src ctx + word_of_nat (4 * k)) (inst_at (rc_buffer ctx) (4 * k)) = Inr p" "piece_at p (pc st) st"
    and nx: "pc st + 4 * word_of_nat (length (fst p)) = dst + word_of_nat nx"
      "4 * Suc k < rc_size ctx \<longrightarrow> rc_map ctx' (4 * Suc k) = Some nx"
    using instruction_piece [OF assms(1-4,6)] by blast
  from piece_simulates [OF assms(5) p, of other] nx(2) show ?thesis unfolding nx(1) by blast
qed

text \<open>C38: a conditional branch with the condition \<open>AL\<close> is lost: its relocated code always continues with
  the next instruction, although the instruction always branches. The condition is negated by
  its lowest bit, and \<open>NV\<close> means always, too.\<close>

theorem always_branch_dropped:
  assumes "relo_assemble ctx branch = Inr (ctx', a)" "rc_cursor ctx = 0" "length (a_buffer a) \<le> 2 ^ 20"
    and "4 * k < rc_size ctx" "decode (inst_at (rc_buffer ctx) (4 * k)) = B_cond 14 off"
    and "at_relocated ctx' a dst (4 * k) st"
  shows "\<exists>next. arm_step other st = st\<lparr>pc := dst + word_of_nat next\<rparr> \<and>
    (4 * Suc k < rc_size ctx \<longrightarrow> rc_map ctx' (4 * Suc k) = Some next) \<and>
    exec other (decode (inst_at (rc_buffer ctx) (4 * k))) (rc_src ctx + word_of_nat (4 * k)) (dst + word_of_nat next) st =
      st\<lparr>pc := rc_src ctx + word_of_nat (4 * k) + off\<rparr>"
proof -
  let ?w = "inst_at (rc_buffer ctx) (4 * k)"
  obtain p where p: "piece_of (rc_src ctx + word_of_nat (4 * k)) ?w = Inr p" "piece_at p (pc st) st"
    and nx: "\<exists>next. pc st + 4 * word_of_nat (length (fst p)) = dst + word_of_nat next \<and>
      (4 * Suc k < rc_size ctx \<longrightarrow> rc_map ctx' (4 * Suc k) = Some next)"
    using instruction_piece [OF assms(1-4,6)] by blast
  have f: "fld 25 7 ?w = 42" "fld 24 1 ?w = 0"
    using assms(5) by (auto simp: decode_def decode_pcrel_def decode_rest_def literal_def Let_def split: if_splits)
  have c: "inst_is_b_cond ?w" using f by (simp add: inst_classes)
  have "\<not> inst_is_b_bl ?w" "\<not> inst_is_ldr_literal ?w" "\<not> inst_is_adr ?w" "\<not> inst_is_adrp ?w"
    using f(1) unfolding inst_classes class_bits by auto
  then have pp: "p = ([negate_b_cond ?w, ldr_tmp, word_br TMP_REG_0], [(1, rc_src ctx + word_of_nat (4 * k) + off19 ?w)])"
    using p(1) c by (simp add: piece_of_def operands)
  note d = decode_b_cond [OF f]
  have cond: "ucast (fld 0 4 ?w) = (14 :: 4 word)" using assms(5) d(1) by simp
  have "word_at (pc st) st = negate_b_cond ?w" using p(2) by (auto simp: pp piece_at_def)
  from step_at [OF arg_cong [OF this, of decode], of other]
  have "arm_step other st = st\<lparr>pc := pc st + 4 * word_of_nat (length (fst p))\<rparr>"
    by (simp add: d(2) cond exec_def cond_holds_def pp split: prod.splits)
  with nx show ?thesis using assms(5) by (auto simp: exec_def cond_holds_def split: prod.splits)
qed

text \<open>A literal load of a 32-bit or a vector register is relocated as a load of the 64-bit general
  register with the same number: after the five instructions of the piece the general register
  holds eight bytes of the literal, where the instruction sets it to four bytes, zero-extended, or
  leaves it alone.\<close>

theorem literal_load_widened:
  assumes "relo_assemble ctx branch = Inr (ctx', a)" "rc_cursor ctx = 0" "length (a_buffer a) \<le> 2 ^ 20"
    and "4 * k < rc_size ctx" "at_relocated ctx' a dst (4 * k) st"
    and "decode (inst_at (rc_buffer ctx) (4 * k)) = LDR_lit_W t off \<or>
      decode (inst_at (rc_buffer ctx) (4 * k)) = LDR_lit_V opc t off" "t \<noteq> 31"
  shows "regs (run other 5 st) t = le_word (load 8 (rc_src ctx + word_of_nat (4 * k) + off) st) \<and>
    regs (exec other (LDR_lit_W t off) (rc_src ctx + word_of_nat (4 * k)) next st) t =
      le_word (load 4 (rc_src ctx + word_of_nat (4 * k) + off) st) \<and>
    regs (exec other (LDR_lit_V opc t off) (rc_src ctx + word_of_nat (4 * k)) next st) = regs st"
proof -
  let ?w = "inst_at (rc_buffer ctx) (4 * k)"
  obtain p where p: "piece_of (rc_src ctx + word_of_nat (4 * k)) ?w = Inr p" "piece_at p (pc st) st"
    using instruction_piece [OF assms(1-5)] by blast
  have c: "inst_is_ldr_literal ?w" and t: "t = reg_at 0 ?w" "off = off19 ?w"
    using assms(6) by (auto simp: inst_classes decode_def decode_pcrel_def decode_rest_def literal_def Let_def split: if_splits)
  from run_ldr_literal(3) [OF c p, of other] assms(7) show ?thesis by (simp add: t exec_def wX_def)
qed

text \<open>A block run in order at its original place, from \<open>src\<close>.\<close>

fun block_run :: "(32 word \<Rightarrow> arm \<Rightarrow> arm) \<Rightarrow> 64 word \<Rightarrow> 8 word list \<Rightarrow> nat \<Rightarrow> arm \<Rightarrow> arm" where
  "block_run other src buf 0 st = st\<lparr>pc := src\<rparr>"
| "block_run other src buf (Suc n) st =
     exec other (decode (inst_at buf (4 * n))) (src + word_of_nat (4 * n)) (src + word_of_nat (4 * Suc n))
       (block_run other src buf n st)"

text \<open>An instruction of a prologue: it falls through to the instruction behind it, wherever that is, and
  neither reads the scratch register nor tells where it runs.\<close>

definition falls_through :: "(32 word \<Rightarrow> arm \<Rightarrow> arm) \<Rightarrow> 32 word \<Rightarrow> 64 word \<Rightarrow> arm \<Rightarrow> bool" where
  "falls_through other w src st \<longleftrightarrow>
     (\<forall>x nx. exec other (decode w) src nx (st\<lparr>pc := x\<rparr>) = (exec other (decode w) src 0 st)\<lparr>pc := nx\<rparr>)"

definition ignores_tmp :: "(32 word \<Rightarrow> arm \<Rightarrow> arm) \<Rightarrow> 32 word \<Rightarrow> bool" where
  "ignores_tmp other w \<longleftrightarrow>
     (\<forall>src nx s t. agree {17} s t \<longrightarrow> agree {17} (exec other (decode w) src nx s) (exec other (decode w) src nx t))"

lemma agree_pc: "agree R s t \<Longrightarrow> agree R (s\<lparr>pc := a\<rparr>) (t\<lparr>pc := a\<rparr>)"
  by (simp add: agree_def)

lemma agree_trans: "agree R s t \<Longrightarrow> agree R t u \<Longrightarrow> agree R s u"
  by (simp add: agree_def)

lemma agree_mono: "agree R s t \<Longrightarrow> R \<subseteq> R' \<Longrightarrow> agree R' s t"
  by (auto simp: agree_def)

lemma holds_cong: "mem s = mem t \<Longrightarrow> holds_bytes bs a s = holds_bytes bs a t"
  by (simp add: holds_bytes_def load_def)

lemma scratch_tmp: "scratch w \<subseteq> {17}"
  by (simp add: scratch_def)

text \<open>C4: the relocated block with its branch replaces the overwritten block. When the instructions
  of the block, run in order from \<open>src\<close>, fall through, do not read \<open>x17\<close> and leave the relocated
  code alone, the relocated code, entered at its start in the same state, comes to the instruction
  behind the original block (at the address of the block plus its size) in the state the
  original block leaves, except possibly \<open>x17\<close>.\<close>

theorem relocated_block_returns:
  fixes other :: "32 word \<Rightarrow> arm \<Rightarrow> arm" and st :: arm
  assumes r: "relo_assemble ctx True = Inr (ctx', a)" "rc_cursor ctx = 0" "length (a_buffer a) \<le> 2 ^ 20"
  defines "n \<equiv> (rc_size ctx + 3) div 4"
  defines "orig \<equiv> \<lambda>k. block_run other (rc_src ctx) (rc_buffer ctx) k st"
  assumes ok: "\<forall>k<n. supported (inst_at (rc_buffer ctx) (4 * k)) \<and> ignores_tmp other (inst_at (rc_buffer ctx) (4 * k)) \<and>
      falls_through other (inst_at (rc_buffer ctx) (4 * k)) (rc_src ctx + word_of_nat (4 * k)) (orig k)"
    and h: "\<forall>k\<le>n. holds_bytes (a_buffer a) dst (orig k)"
  shows "\<exists>m. agree {17} (run other m (st\<lparr>pc := dst\<rparr>))
    ((orig n)\<lparr>pc := mb_addr (rc_origin ctx) + word_of_nat (4 * n)\<rparr>)"
proof -
  from relocated_pieces [OF r] obtain ps where ps:
    "\<And>k. k < n \<Longrightarrow> piece_of (rc_src ctx + word_of_nat (4 * k)) (inst_at (rc_buffer ctx) (4 * k)) = Inr (ps ! k)"
    "\<And>k. k < n \<Longrightarrow> start ps (Suc k) = start ps k + length (fst (ps ! k))"
    "\<And>k dst st. k < n \<Longrightarrow> holds_bytes (a_buffer a) dst st \<Longrightarrow> piece_at (ps ! k) (dst + word_of_nat (4 * start ps k)) st"
    and last: "\<And>dst st. holds_bytes (a_buffer a) dst st \<Longrightarrow>
       piece_at (branch_piece (mb_addr (rc_origin ctx) + word_of_nat (4 * n))) (dst + word_of_nat (4 * start ps n)) st"
    unfolding n_def by auto
  have mem: "holds_bytes (a_buffer a) dst s" if "k \<le> n" "agree {17} s ((orig k)\<lparr>pc := p\<rparr>)" for k s p
    using h that holds_cong [of s "orig k"] by (simp add: agree_def)
  have "\<exists>m. agree {17} (run other m (st\<lparr>pc := dst\<rparr>)) ((orig k)\<lparr>pc := dst + word_of_nat (4 * start ps k)\<rparr>)"
    if "k \<le> n" for k
    using that
  proof (induction k)
    case 0
    show ?case by (rule exI [of _ 0]) (simp add: orig_def agree_def)
  next
    case (Suc k)
    let ?w = "inst_at (rc_buffer ctx) (4 * k)" and ?src = "rc_src ctx + word_of_nat (4 * k)"
    let ?A = "dst + word_of_nat (4 * start ps k)" and ?B = "dst + word_of_nat (4 * start ps (Suc k))"
    obtain m where m: "agree {17} (run other m (st\<lparr>pc := dst\<rparr>)) ((orig k)\<lparr>pc := ?A\<rparr>)" using Suc by auto
    define t where "t = run other m (st\<lparr>pc := dst\<rparr>)"
    have k: "k < n" using Suc by simp
    have sup: "supported ?w" using ok k by blast
    have ign: "ignores_tmp other ?w" using ok k by blast
    have "falls_through other ?w ?src (orig k)" using ok k by blast
    then have ft: "exec other (decode ?w) ?src nx ((orig k)\<lparr>pc := x\<rparr>) = (exec other (decode ?w) ?src 0 (orig k))\<lparr>pc := nx\<rparr>" for nx x
      unfolding falls_through_def by (elim allE)
    have pc: "pc t = ?A" using m by (simp add: t_def agree_def)
    have at: "piece_at (ps ! k) (pc t) t"
      unfolding pc using ps(3) [OF k mem [OF _ m]] k by (simp add: t_def)
    have B: "pc t + 4 * word_of_nat (length (fst (ps ! k))) = ?B" by (simp add: pc ps(2) [OF k] algebra_simps)
    obtain i where i: "agree {17} (run other i t) (exec other (decode ?w) ?src ?B t)"
      using piece_simulates [OF sup ps(1) [OF k] at, of other] agree_mono [OF _ scratch_tmp] unfolding B by blast
    have "agree {17} (exec other (decode ?w) ?src ?B t) (exec other (decode ?w) ?src ?B ((orig k)\<lparr>pc := ?A\<rparr>))"
      using ign m unfolding ignores_tmp_def t_def by blast
    also have "exec other (decode ?w) ?src ?B ((orig k)\<lparr>pc := ?A\<rparr>) = (orig (Suc k))\<lparr>pc := ?B\<rparr>"
    proof -
      have "orig (Suc k) = (exec other (decode ?w) ?src 0 (orig k))\<lparr>pc := rc_src ctx + word_of_nat (4 * Suc k)\<rparr>"
        using ft [of "rc_src ctx + word_of_nat (4 * Suc k)" "pc (orig k)"] by (simp add: orig_def)
      then show ?thesis unfolding ft by simp
    qed
    finally have "agree {17} (run other i t) ((orig (Suc k))\<lparr>pc := ?B\<rparr>)" using agree_trans [OF i] by blast
    moreover have "run other i t = run other (i + m) (st\<lparr>pc := dst\<rparr>)" by (simp add: t_def funpow_add)
    ultimately show ?case by metis
  qed
  then obtain m where m: "agree {17} (run other m (st\<lparr>pc := dst\<rparr>)) ((orig n)\<lparr>pc := dst + word_of_nat (4 * start ps n)\<rparr>)"
    by auto
  define t where "t = run other m (st\<lparr>pc := dst\<rparr>)"
  let ?T = "mb_addr (rc_origin ctx) + word_of_nat (4 * n)"
  have pc: "pc t = dst + word_of_nat (4 * start ps n)" using m by (simp add: t_def agree_def)
  have "piece_at ([ldr_tmp, word_br TMP_REG_0], [(0, ?T)]) (pc t) t"
    unfolding pc using last [OF mem [OF _ m]] by (simp add: branch_piece_def t_def)
  from run_branch(1) [OF this refl, of other]
  have "run other (2 + m) (st\<lparr>pc := dst\<rparr>) = (wX 17 ?T t)\<lparr>pc := ?T\<rparr>"
    unfolding t_def funpow_add comp_apply .
  moreover have "agree {17} ((wX 17 ?T t)\<lparr>pc := ?T\<rparr>) ((orig n)\<lparr>pc := ?T\<rparr>)"
    using m by (simp add: t_def agree_def wX_def)
  ultimately show ?thesis by metis
qed

section \<open>Witnesses\<close>

text \<open>A block of two instructions, \<open>nop\<close> and \<open>adr x0, #16\<close>, relocated with the branch behind it.\<close>

definition sample_block :: relo_ctx where
  "sample_block =
     \<lparr>rc_buffer = [0x1F, 0x20, 0x03, 0xD5, 0x80, 0, 0, 0x10], rc_cursor = 0, rc_size = 8, rc_src = 0x1000,
      rc_origin = MemBlock 0x1000 8, rc_map = Map.empty\<rparr>"

lemma sample_block_assembles:
  "case relo_assemble sample_block True of Inl _ \<Rightarrow> False | Inr (_, a) \<Rightarrow> length (a_buffer a) = 44"
  by code_simp

definition loaded_state :: "8 word list \<Rightarrow> 64 word \<Rightarrow> arm" where
  "loaded_state bs dst =
     \<lparr>regs = \<lambda>_. 0, pc = dst, nzcv = (False, False, False, False),
      mem = \<lambda>x. if unat (x - dst) < length bs then bs ! unat (x - dst) else 0\<rparr>"

lemma loaded_state_holds:
  assumes "length bs \<le> 2 ^ 20"
  shows "holds_bytes bs dst (loaded_state bs dst)"
  unfolding holds_bytes_def
proof (rule nth_equalityI)
  show "length (load (length bs) dst (loaded_state bs dst)) = length bs" by simp
  fix i assume "i < length (load (length bs) dst (loaded_state bs dst))"
  then have i: "i < length bs" by simp
  then have "unat (word_of_nat i :: 64 word) = i" using assms by (simp add: unsigned_of_nat take_bit_nat_eq_self)
  with i show "load (length bs) dst (loaded_state bs dst) ! i = bs ! i"
    by (simp add: load_def loaded_state_def)
qed

lemma loaded_at:
  assumes "length (a_buffer a) \<le> 2 ^ 20" "rc_map ctx x = Some off"
  shows "at_relocated ctx a dst x ((loaded_state (a_buffer a) dst)\<lparr>pc := dst + word_of_nat off\<rparr>)"
  using assms loaded_state_holds [OF assms(1), of dst]
    holds_cong [of "(loaded_state (a_buffer a) dst)\<lparr>pc := dst + word_of_nat off\<rparr>" "loaded_state (a_buffer a) dst"]
  by (simp add: at_relocated_def)

lemma sample_insts:
  "decode (inst_at (rc_buffer sample_block) 0) = Other 0xD503201F"
  "decode (inst_at (rc_buffer sample_block) 4) = ADR_imm 0 16"
  by code_simp+

lemma sample_supported: "k < 2 \<Longrightarrow> supported (inst_at (rc_buffer sample_block) (4 * k))"
  using sample_insts by (auto simp: supported_def less_2_cases_iff) code_simp

lemma relocated_instruction_simulates_witness:
  "\<exists>ctx' a. relo_assemble sample_block True = Inr (ctx', a) \<and>
     (\<exists>n>0. \<exists>next. agree (scratch (inst_at (rc_buffer sample_block) (4 * 1)))
        (run (\<lambda>_ s. s) n ((loaded_state (a_buffer a) 0x5000)\<lparr>pc := 0x5004\<rparr>))
        (exec (\<lambda>_ s. s) (decode (inst_at (rc_buffer sample_block) (4 * 1))) (rc_src sample_block + word_of_nat (4 * 1))
          (0x5000 + word_of_nat next) ((loaded_state (a_buffer a) 0x5000)\<lparr>pc := 0x5004\<rparr>)))"
proof -
  have "case relo_assemble sample_block True of Inl _ \<Rightarrow> False | Inr (c, a) \<Rightarrow> length (a_buffer a) = 44 \<and> rc_map c 4 = Some 4"
    by code_simp
  then obtain ctx' a where r: "relo_assemble sample_block True = Inr (ctx', a)" "length (a_buffer a) = 44"
    "rc_map ctx' 4 = Some 4" by (auto split: sum.splits)
  let ?st = "(loaded_state (a_buffer a) 0x5000)\<lparr>pc := 0x5004\<rparr>"
  have at: "at_relocated ctx' a 0x5000 (4 * 1) ?st"
    using loaded_at [of a ctx' "4 * 1" 4 "0x5000"] r(2,3) by simp
  have "\<exists>n>0. \<exists>next. agree (scratch (inst_at (rc_buffer sample_block) (4 * 1))) (run (\<lambda>_ s. s) n ?st)
      (exec (\<lambda>_ s. s) (decode (inst_at (rc_buffer sample_block) (4 * 1))) (rc_src sample_block + word_of_nat (4 * 1)) (0x5000 + word_of_nat next) ?st) \<and>
    (4 * Suc 1 < rc_size sample_block \<longrightarrow> rc_map ctx' (4 * Suc 1) = Some next)"
    by (rule relocated_instruction_simulates [OF r(1) _ _ _ sample_supported at])
      (simp_all add: r(2), simp_all add: sample_block_def)
  with r(1) show ?thesis by blast
qed

lemma relocated_block_returns_witness:
  "\<exists>ctx' a. relo_assemble sample_block True = Inr (ctx', a) \<and>
     (\<exists>m. agree {17} (run (\<lambda>_ s. s) m ((loaded_state (a_buffer a) 0x5000)\<lparr>pc := 0x5000\<rparr>))
       ((block_run (\<lambda>_ s. s) 0x1000 (rc_buffer sample_block) 2 (loaded_state (a_buffer a) 0x5000))\<lparr>pc := 0x1008\<rparr>))"
proof -
  obtain ctx' a where r: "relo_assemble sample_block True = Inr (ctx', a)" "length (a_buffer a) = 44"
    using sample_block_assembles by (auto split: sum.splits)
  let ?st = "loaded_state (a_buffer a) 0x5000" and ?o = "\<lambda>_ s. s :: arm"
  have n: "(rc_size sample_block + 3) div 4 = 2" "rc_cursor sample_block = 0" "rc_src sample_block = 0x1000"
    "mb_addr (rc_origin sample_block) = 0x1000"
    by (simp_all add: sample_block_def MemBlock_def mem_range.extend_def)
  have ig: "ignores_tmp ?o (inst_at (rc_buffer sample_block) (4 * k)) \<and>
      falls_through ?o (inst_at (rc_buffer sample_block) (4 * k)) src s" if "k < 2" for k src s
    using that sample_insts
    by (auto simp: ignores_tmp_def falls_through_def less_2_cases_iff exec_def agree_def wX_def)
  have mem: "mem (block_run ?o 0x1000 (rc_buffer sample_block) k ?st) = mem ?st" if "k \<le> 2" for k
  proof -
    have "k = 0 \<or> k = 1 \<or> k = 2" using that by auto
    then show ?thesis using sample_insts by (auto simp: numeral_2_eq_2 exec_def)
  qed
  have "\<exists>m. agree {17} (run ?o m (?st\<lparr>pc := 0x5000\<rparr>))
      ((block_run ?o (rc_src sample_block) (rc_buffer sample_block) ((rc_size sample_block + 3) div 4) ?st)
        \<lparr>pc := mb_addr (rc_origin sample_block) + word_of_nat (4 * ((rc_size sample_block + 3) div 4))\<rparr>)"
  proof (rule relocated_block_returns [OF r(1)])
    show "rc_cursor sample_block = 0" "length (a_buffer a) \<le> 2 ^ 20" using n r(2) by simp_all
    show "\<forall>k<(rc_size sample_block + 3) div 4. supported (inst_at (rc_buffer sample_block) (4 * k)) \<and>
        ignores_tmp ?o (inst_at (rc_buffer sample_block) (4 * k)) \<and>
        falls_through ?o (inst_at (rc_buffer sample_block) (4 * k)) (rc_src sample_block + word_of_nat (4 * k))
          (block_run ?o (rc_src sample_block) (rc_buffer sample_block) k ?st)"
      unfolding n(1) using ig sample_supported by blast
    have "holds_bytes (a_buffer a) 0x5000 ?st" using loaded_state_holds r(2) by simp
    then show "\<forall>k\<le>(rc_size sample_block + 3) div 4. holds_bytes (a_buffer a) 0x5000
        (block_run ?o (rc_src sample_block) (rc_buffer sample_block) k ?st)"
      unfolding n(1,3) using mem holds_cong by blast
  qed
  then show ?thesis using r(1) unfolding n by auto
qed

text \<open>\<open>b.al .+8\<close> and \<open>ldr w0, .+8\<close>.\<close>

definition faulty_block :: relo_ctx where
  "faulty_block =
     \<lparr>rc_buffer = [0x4E, 0, 0, 0x54, 0x40, 0, 0, 0x18], rc_cursor = 0, rc_size = 8, rc_src = 0x1000,
      rc_origin = MemBlock 0x1000 8, rc_map = Map.empty\<rparr>"

lemma faulty_insts:
  "decode (inst_at (rc_buffer faulty_block) 0) = B_cond 14 8"
  "decode (inst_at (rc_buffer faulty_block) 4) = LDR_lit_W 0 8"
  by code_simp+

lemma faulty_assembles:
  "case relo_assemble faulty_block False of Inl _ \<Rightarrow> False
   | Inr (c, a) \<Rightarrow> length (a_buffer a) = 40 \<and> rc_map c 0 = Some 0 \<and> rc_map c 4 = Some 12"
  by code_simp

lemma always_branch_dropped_witness:
  "\<exists>ctx' a. relo_assemble faulty_block False = Inr (ctx', a) \<and>
     (let st = (loaded_state (a_buffer a) 0x5000)\<lparr>pc := 0x5000\<rparr> in
      \<exists>next. arm_step (\<lambda>_ s. s) st = st\<lparr>pc := 0x5000 + word_of_nat next\<rparr> \<and> rc_map ctx' 4 = Some next \<and>
        exec (\<lambda>_ s. s) (B_cond 14 8) 0x1000 (0x5000 + word_of_nat next) st = st\<lparr>pc := 0x1008\<rparr>)"
proof -
  obtain ctx' a where r: "relo_assemble faulty_block False = Inr (ctx', a)" "length (a_buffer a) \<le> 2 ^ 20"
    "rc_map ctx' 0 = Some 0" using faulty_assembles by (auto split: sum.splits)
  let ?st = "(loaded_state (a_buffer a) 0x5000)\<lparr>pc := 0x5000\<rparr>"
  have z: "rc_cursor faulty_block = 0" "4 * 0 < rc_size faulty_block" by (simp_all add: faulty_block_def)
  have i: "decode (inst_at (rc_buffer faulty_block) (4 * 0)) = B_cond 14 8" using faulty_insts by simp
  have at: "at_relocated ctx' a 0x5000 (4 * 0) ?st" using loaded_at [OF r(2), of ctx' 0 0 "0x5000"] r(3) by simp
  show ?thesis
    using always_branch_dropped [OF r(1) z(1) r(2) z(2) i at, of "\<lambda>_ s. s"] r(1) faulty_insts
    by (auto simp: faulty_block_def Let_def)
qed

lemma literal_load_widened_witness:
  "\<exists>ctx' a. relo_assemble faulty_block False = Inr (ctx', a) \<and>
     (let st = (loaded_state (a_buffer a) 0x5000)\<lparr>pc := 0x500C\<rparr> in
      regs (run (\<lambda>_ s. s) 5 st) 0 = le_word (load 8 0x100C st) \<and>
      regs (exec (\<lambda>_ s. s) (LDR_lit_W 0 8) 0x1004 0 st) 0 = le_word (load 4 0x100C st))"
proof -
  obtain ctx' a where r: "relo_assemble faulty_block False = Inr (ctx', a)" "length (a_buffer a) \<le> 2 ^ 20"
    "rc_map ctx' 4 = Some 12" using faulty_assembles by (auto split: sum.splits)
  let ?st = "(loaded_state (a_buffer a) 0x5000)\<lparr>pc := 0x500C\<rparr>"
  have z: "rc_cursor faulty_block = 0" "4 * 1 < rc_size faulty_block" by (simp_all add: faulty_block_def)
  have i: "decode (inst_at (rc_buffer faulty_block) (4 * 1)) = LDR_lit_W 0 8 \<or>
      decode (inst_at (rc_buffer faulty_block) (4 * 1)) = LDR_lit_V 0 0 8" using faulty_insts by simp
  have at: "at_relocated ctx' a 0x5000 (4 * 1) ?st" using loaded_at [OF r(2), of ctx' 4 12 "0x5000"] r(3) by simp
  show ?thesis
    using literal_load_widened [OF r(1) z(1) r(2) z(2) at i, of "\<lambda>_ s. s" 0] r(1)
    by (auto simp: faulty_block_def Let_def)
qed

end
