(* ===== verification/HookEngine.thy ===== *)
theory HookEngine
  imports Arm64Run
begin

text \<open>
  The hook engine of \<open>third/dobby\<close> on ARM64 Android, above the allocator, the assembler and the
  relocation: \<open>DobbyCodePatch\<close> (\<open>code-patch-tool-posix.cc\<close>), \<open>AssemblyCodeBuilder.cc\<close>, the
  trampolines (\<open>trampoline_arm64.cc\<close>, \<open>near_trampoline_arm64.cc\<close>), \<open>InterceptRouting.cpp\<close>,
  \<open>Interceptor.cpp\<close>, \<open>DobbyHook\<close> (\<open>FunctionInlineHook.cc\<close>) and \<open>DobbyDestroy\<close> (\<open>dobby.cpp\<close>). The state is the
  memory of the process, the allocator and the entries. \<open>mmap\<close>, the answers of \<open>mprotect\<close>, the page
  size, the memory map and the content of uninitialised memory are parameters; permissions do not
  guard the writes.
\<close>

section \<open>State\<close>

datatype InterceptEntryType = kFunctionInlineHook | kInstructionInstrument

record InterceptEntry =
  ie_id :: "32 word"
  ie_type :: InterceptEntryType
  ie_patched_addr :: "64 word"
  ie_patched_size :: "32 word"
  ie_relocated_addr :: "64 word"
  ie_relocated_size :: "32 word"
  ie_origin_insns :: "8 word list"
  ie_origin_insn_size :: "32 word"

record hook_engine =
  e_mem :: "64 word \<Rightarrow> 8 word"
  e_alloc :: allocator
  e_entries :: "InterceptEntry list"

definition mem_read :: "nat \<Rightarrow> 64 word \<Rightarrow> (64 word \<Rightarrow> 8 word) \<Rightarrow> 8 word list" where
  "mem_read n a m = map (\<lambda>i. m (a + word_of_nat i)) [0..<n]"

definition mem_write :: "8 word list \<Rightarrow> 64 word \<Rightarrow> (64 word \<Rightarrow> 8 word) \<Rightarrow> 64 word \<Rightarrow> 8 word" where
  "mem_write bs a m = (\<lambda>x. if unat (x - a) < length bs then bs ! unat (x - a) else m x)"

section \<open>Patching\<close>

text \<open>The system calls of a patch: the page of the first byte and the page behind the last one, made writable and
  set back.\<close>

definition patch_calls :: "64 word \<Rightarrow> 64 word \<Rightarrow> 64 word \<Rightarrow> MemoryPermission \<Rightarrow> (os_call \<times> 64 word option) list" where
  "patch_calls page patch_page patch_end_page perm =
     (Call_mprotect patch_page page perm, None) #
     (if patch_page \<noteq> patch_end_page then [(Call_mprotect patch_end_page page perm, None)] else [])"

definition DobbyCodePatch :: "64 word \<Rightarrow> 64 word \<Rightarrow> 8 word list \<Rightarrow> 32 word \<Rightarrow> hook_engine \<Rightarrow> hook_engine res" where
  "DobbyCodePatch page address buffer buffer_size e =
     (if length buffer < unat buffer_size then Inl UB_Bounds
      else
        let patch_page = ALIGN_FLOOR address page;
            patch_end_page = ALIGN_FLOOR (address + ucast buffer_size) page;
            m = e_alloc e in
        Inr (e\<lparr>e_mem := mem_write (take (unat buffer_size) buffer) address (e_mem e),
               e_alloc := m\<lparr>os_calls := os_calls m @ patch_calls page patch_page patch_end_page kReadWriteExecute @
                              patch_calls page patch_page patch_end_page kReadExecute\<rparr>\<rparr>))"

definition FinalizeFromTurboAssembler ::
  "kernel \<Rightarrow> 64 word \<Rightarrow> assembler \<Rightarrow> hook_engine \<Rightarrow> (mem_block \<times> hook_engine) res" where
  "FinalizeFromTurboAssembler mmap page a e =
     (let buffer_size = word_of_nat (GetBufferSize a) in
      res_bind (if a_realized a = 0
                then res_bind (allocateExecBlock mmap page buffer_size (e_alloc e)) (\<lambda>(b, m).
                     Inr (mb_addr b, e\<lparr>e_alloc := m\<rparr>))
                else Inr (a_realized a, e)) (\<lambda>(realized_addr, e1).
      res_bind (DobbyCodePatch page realized_addr (a_buffer a) buffer_size e1) (\<lambda>e2.
      Inr (MemBlock realized_addr (word_of_nat (GetBufferSize a)), e2))))"

section \<open>Relocation\<close>

definition relo_relocate ::
  "kernel \<Rightarrow> 64 word \<Rightarrow> relo_ctx \<Rightarrow> bool \<Rightarrow> hook_engine \<Rightarrow> (relo_ctx \<times> mem_block \<times> hook_engine) res" where
  "relo_relocate mmap page ctx branch e =
     res_bind (relo_assemble ctx branch) (\<lambda>(ctx1, a).
     res_bind (FinalizeFromTurboAssembler mmap page a e) (\<lambda>(code, e1). Inr (ctx1, code, e1)))"

text \<open>The origin and the relocated block are passed by reference: both come back.\<close>

definition GenRelocateCode ::
  "kernel \<Rightarrow> 64 word \<Rightarrow> 64 word \<Rightarrow> mem_block \<Rightarrow> mem_block \<Rightarrow> bool \<Rightarrow> hook_engine \<Rightarrow> (mem_block \<times> mem_block \<times> hook_engine) res" where
  "GenRelocateCode mmap page buffer origin relocated branch e =
     (let ctx = \<lparr>rc_buffer = mem_read (unat (r_size origin) + 3) buffer (e_mem e), rc_cursor = 0,
                 rc_size = unat (r_size origin), rc_src = mb_addr origin, rc_origin = origin, rc_map = Map.empty\<rparr> in
      res_bind (relo_relocate mmap page ctx branch e) (\<lambda>(ctx1, code, e1).
      Inr (rc_origin ctx1, block_reset (mb_addr code) (r_size code) relocated, e1)))"

definition GenRelocateCodeAndBranch ::
  "kernel \<Rightarrow> 64 word \<Rightarrow> 64 word \<Rightarrow> mem_block \<Rightarrow> mem_block \<Rightarrow> hook_engine \<Rightarrow> (mem_block \<times> mem_block \<times> hook_engine) res" where
  "GenRelocateCodeAndBranch mmap page buffer origin relocated e =
     GenRelocateCode mmap page buffer origin relocated True e"

section \<open>Trampolines\<close>

definition llabs :: "64 word \<Rightarrow> 64 word" where
  "llabs d = (if sint d < 0 then - d else d)"

definition adrp_range :: "64 word" where
  "adrp_range = push_bit (2 + 19 + 12 - 1) 1"

definition GenerateNormalTrampolineBuffer :: "64 word \<Rightarrow> 64 word \<Rightarrow> 8 word list res" where
  "GenerateNormalTrampolineBuffer frm to =
     (let a = new_assembler frm; distance = llabs (frm - to) in
      res_bind (if distance < adrp_range
                then res_bind (words_AdrpAdd TMP_REG_0 frm to) (\<lambda>ws. Inr (Emit (word_br TMP_REG_0) (emit_all ws a)))
                else LiteralLdrBranch to a) (\<lambda>b. Inr (a_buffer b)))"

definition ARM64_B_XXX_RANGE :: "64 word" where
  "ARM64_B_XXX_RANGE = push_bit 2 (push_bit 25 1)"

definition GenerateFastForwardTrampoline ::
  "kernel \<Rightarrow> 64 word \<Rightarrow> mem_range list \<Rightarrow> 64 word \<Rightarrow> 64 word \<Rightarrow> hook_engine \<Rightarrow> (mem_block option \<times> hook_engine) res" where
  "GenerateFastForwardTrampoline mmap page regions src dst e =
     (let (tramp_mem, m1) = allocateNearExecMemory mmap page regions (3 * 4) src ARM64_B_XXX_RANGE (e_alloc e);
          e1 = e\<lparr>e_alloc := m1\<rparr>; a = new_assembler 0 in
      if tramp_mem = 0 then Inr (None, e1)
      else if llabs (tramp_mem - dst) < adrp_range then
        res_bind (words_AdrpAdd TMP_REG_0 tramp_mem dst) (\<lambda>ws.
        let b = Emit (word_br TMP_REG_0) (emit_all ws a) in
        res_bind (FinalizeFromTurboAssembler mmap page (b\<lparr>a_realized := tramp_mem\<rparr>) e1) (\<lambda>(code, e2).
        Inr (Some code, e2)))
      else
        let b = Emit (word_br TMP_REG_0) (emit_all (words_Mov TMP_REG_0 dst) a);
            (tramp_mem, m2) = allocateNearExecMemory mmap page regions (word_of_nat (GetBufferSize b)) src
              ARM64_B_XXX_RANGE (e_alloc e1);
            e2 = e1\<lparr>e_alloc := m2\<rparr> in
        if tramp_mem = 0 then Inr (None, e2)
        else
          res_bind (FinalizeFromTurboAssembler mmap page (b\<lparr>a_realized := tramp_mem\<rparr>) e2) (\<lambda>(code, e3).
          Inr (Some code, e3)))"

definition GenerateNearTrampolineBuffer ::
  "kernel \<Rightarrow> 64 word \<Rightarrow> mem_range list \<Rightarrow> 64 word \<Rightarrow> 64 word \<Rightarrow> hook_engine \<Rightarrow> (8 word list option \<times> hook_engine) res" where
  "GenerateNearTrampolineBuffer mmap page regions src dst e =
     (let a = new_assembler src in
      if llabs (dst - src) < ARM64_B_XXX_RANGE then Inr (Some (a_buffer (Emit (word_b (dst - src)) a)), e)
      else
        res_bind (GenerateFastForwardTrampoline mmap page regions src dst e) (\<lambda>(code, e1).
        case code of
          None \<Rightarrow> Inr (None, e1)
        | Some b \<Rightarrow> Inr (Some (a_buffer (Emit (word_b (mb_addr b - src)) a)), e1)))"

section \<open>Routing\<close>

text \<open>\<open>near\<close> is whether the near branch plugin is enabled; its failure falls back to the normal trampoline.\<close>

definition GenerateTrampolineBuffer ::
  "kernel \<Rightarrow> 64 word \<Rightarrow> mem_range list \<Rightarrow> bool \<Rightarrow> 64 word \<Rightarrow> 64 word \<Rightarrow> hook_engine \<Rightarrow> (8 word list \<times> hook_engine) res" where
  "GenerateTrampolineBuffer mmap page regions near src dst e =
     res_bind (if near then GenerateNearTrampolineBuffer mmap page regions src dst e else Inr (None, e)) (\<lambda>(t, e1).
     case t of
       Some buffer \<Rightarrow> Inr (buffer, e1)
     | None \<Rightarrow> res_bind (GenerateNormalTrampolineBuffer src dst) (\<lambda>buffer. Inr (buffer, e1)))"

definition GenerateRelocatedCode ::
  "kernel \<Rightarrow> 64 word \<Rightarrow> 8 word list \<Rightarrow> InterceptEntry \<Rightarrow> hook_engine \<Rightarrow> (bool \<times> InterceptEntry \<times> hook_engine) res" where
  "GenerateRelocatedCode mmap page trampoline entry e =
     (let tramp_size = (word_of_nat (length trampoline) :: 32 word);
          origin = MemBlock (ie_patched_addr entry) (ucast tramp_size) in
      res_bind (GenRelocateCodeAndBranch mmap page (ie_patched_addr entry) origin (MemBlock 0 0) e)
        (\<lambda>(origin, relocated, e1).
      if r_size relocated = 0 then Inr (False, entry, e1)
      else if length (ie_origin_insns entry) < unat (r_size origin) then Inl UB_Bounds
      else
        let saved = mem_read (unat (r_size origin)) (mb_addr origin) (e_mem e1) in
        Inr (True, entry\<lparr>ie_relocated_addr := mb_addr relocated,
                         ie_origin_insns := saved @ drop (unat (r_size origin)) (ie_origin_insns entry)\<rparr>, e1)))"

definition Active :: "64 word \<Rightarrow> 8 word list \<Rightarrow> InterceptEntry \<Rightarrow> hook_engine \<Rightarrow> hook_engine res" where
  "Active page trampoline entry e =
     DobbyCodePatch page (ie_patched_addr entry) trampoline (word_of_nat (length trampoline)) e"

definition BuildRouting ::
  "kernel \<Rightarrow> 64 word \<Rightarrow> mem_range list \<Rightarrow> bool \<Rightarrow> 64 word \<Rightarrow> InterceptEntry \<Rightarrow> hook_engine \<Rightarrow> (8 word list \<times> hook_engine) res" where
  "BuildRouting mmap page regions near replace_func entry e =
     GenerateTrampolineBuffer mmap page regions near (ie_patched_addr entry) replace_func e"

definition DispatchRouting ::
  "kernel \<Rightarrow> 64 word \<Rightarrow> mem_range list \<Rightarrow> bool \<Rightarrow> 64 word \<Rightarrow> InterceptEntry \<Rightarrow> hook_engine \<Rightarrow>
   (8 word list \<times> InterceptEntry \<times> hook_engine) res" where
  "DispatchRouting mmap page regions near replace_func entry e =
     res_bind (BuildRouting mmap page regions near replace_func entry e) (\<lambda>(trampoline, e1).
     res_bind (GenerateRelocatedCode mmap page trampoline entry e1) (\<lambda>(_, entry1, e2).
     Inr (trampoline, entry1, e2)))"

section \<open>The interceptor\<close>

fun find_entry :: "64 word \<Rightarrow> InterceptEntry list \<Rightarrow> InterceptEntry option" where
  "find_entry addr [] = None"
| "find_entry addr (en # es) = (if ie_patched_addr en = addr then Some en else find_entry addr es)"

definition add_entry :: "InterceptEntry \<Rightarrow> hook_engine \<Rightarrow> hook_engine" where
  "add_entry en e = e\<lparr>e_entries := e_entries e @ [en]\<rparr>"

fun remove_entry :: "64 word \<Rightarrow> InterceptEntry list \<Rightarrow> InterceptEntry list" where
  "remove_entry addr [] = []"
| "remove_entry addr (en # es) = (if ie_patched_addr en = addr then es else en # remove_entry addr es)"

definition entry_count :: "hook_engine \<Rightarrow> nat" where
  "entry_count e = length (e_entries e)"

text \<open>\<open>fresh\<close> is what the memory of a new entry held: the constructor sets three fields.\<close>

definition new_InterceptEntry :: "InterceptEntry \<Rightarrow> InterceptEntryType \<Rightarrow> 64 word \<Rightarrow> hook_engine \<Rightarrow> InterceptEntry" where
  "new_InterceptEntry fresh type address e =
     fresh\<lparr>ie_type := type, ie_patched_addr := address, ie_id := word_of_nat (entry_count e)\<rparr>"

definition RS_FAILED :: int where "RS_FAILED = -1"
definition RS_SUCCESS :: int where "RS_SUCCESS = 0"

text \<open>The result, what \<open>*origin_func\<close> is set to when the pointer is not null, and the new state. \<open>allowed\<close> is
  whether \<open>mprotect\<close> succeeds.\<close>

definition DobbyHook ::
  "kernel \<Rightarrow> 64 word \<Rightarrow> mem_range list \<Rightarrow> bool \<Rightarrow> bool \<Rightarrow> InterceptEntry \<Rightarrow> 64 word \<Rightarrow> 64 word \<Rightarrow> bool \<Rightarrow> hook_engine \<Rightarrow>
   (int \<times> 64 word option \<times> hook_engine) res" where
  "DobbyHook mmap page regions near allowed fresh address replace_func want_origin e =
     (if address = 0 then Inr (RS_FAILED, None, e)
      else
        let e1 = e\<lparr>e_alloc := OSMemory_SetPermission (ALIGN_FLOOR address page) page kReadExecute (e_alloc e)\<rparr> in
        if \<not> allowed then Inr (RS_FAILED, None, e1)
        else if find_entry address (e_entries e1) \<noteq> None then Inr (RS_FAILED, None, e1)
        else
          let entry = new_InterceptEntry fresh kFunctionInlineHook address e1 in
          res_bind (DispatchRouting mmap page regions near replace_func entry e1) (\<lambda>(trampoline, entry1, e2).
          res_bind (Active page trampoline entry1 e2) (\<lambda>e3.
          Inr (RS_SUCCESS, if want_origin then Some (ie_relocated_addr entry1) else None, add_entry entry1 e3))))"

definition DobbyDestroy :: "64 word \<Rightarrow> 64 word \<Rightarrow> hook_engine \<Rightarrow> (int \<times> hook_engine) res" where
  "DobbyDestroy page address e =
     (case find_entry address (e_entries e) of
        None \<Rightarrow> Inr (RS_FAILED, e)
      | Some entry \<Rightarrow>
          res_bind (DobbyCodePatch page address (ie_origin_insns entry) (ie_origin_insn_size entry) e) (\<lambda>e1.
          Inr (RS_SUCCESS, e1\<lparr>e_entries := remove_entry address (e_entries e1)\<rparr>)))"

section \<open>Memory\<close>

lemma holds_read: "holds_bytes bs a st \<longleftrightarrow> mem_read (length bs) a (mem st) = bs"
  by (simp add: holds_bytes_def load_def mem_read_def)

lemma length_mem_read [simp]: "length (mem_read n a m) = n"
  by (simp add: mem_read_def)

lemma mem_read_write:
  assumes "length bs \<le> 2 ^ 32"
  shows "mem_read (length bs) a (mem_write bs a m) = bs"
proof (rule nth_equalityI)
  fix i assume "i < length (mem_read (length bs) a (mem_write bs a m))"
  then have i: "i < length bs" by simp
  then have "unat (word_of_nat i :: 64 word) = i" using assms by (simp add: unsigned_of_nat take_bit_nat_eq_self)
  with i show "mem_read (length bs) a (mem_write bs a m) ! i = bs ! i"
    by (simp add: mem_read_def mem_write_def)
qed simp

lemma mem_read_prefix: "n \<le> k \<Longrightarrow> take n (mem_read k a m) = mem_read n a m"
  by (simp add: mem_read_def take_map)

text \<open>The \<open>k\<close> bytes from \<open>b\<close> lie outside the \<open>n\<close> bytes from \<open>a\<close>.\<close>

definition outside :: "64 word \<Rightarrow> nat \<Rightarrow> 64 word \<Rightarrow> nat \<Rightarrow> bool" where
  "outside a n b k \<longleftrightarrow> (\<forall>i<k. n \<le> unat (b + word_of_nat i - a))"

lemma mem_read_outside:
  assumes "outside a (length bs) b k"
  shows "mem_read k b (mem_write bs a m) = mem_read k b m"
  using assms by (auto simp: mem_read_def mem_write_def outside_def dest: leD)

section \<open>The normal trampoline\<close>

lemma ALIGN_FLOOR_page: "ALIGN_FLOOR x 0x1000 = push_bit 12 (drop_bit 12 x)"
proof -
  have "(0x1000 - 1 :: 64 word) = mask 12" by (simp add: mask_numeral)
  moreover have "x AND NOT (mask 12) = push_bit 12 (drop_bit 12 x)" by (rule bit_word_eqI) (auto simp: bit_simps)
  ultimately show ?thesis by (simp add: ALIGN_FLOOR_def)
qed

lemma imm21_in_range:
  assumes "off = word_of_int (4096 * k)" "- (2 ^ 20) \<le> k" "k < 2 ^ 20"
  shows "push_bit 12 (scast (ucast (drop_bit 12 off) :: 21 word)) = (off :: 64 word)"
proof -
  have "off = word_of_int (push_bit 12 k)" by (simp add: assms(1) push_bit_eq_mult mult.commute)
  then have bo: "bit off i \<longleftrightarrow> i < 64 \<and> 12 \<le> i \<and> bit k (i - 12)" for i
    by (simp only: bit_word_of_int_iff bit_push_bit_iff_int) auto
  have hi: "bit k j \<longleftrightarrow> bit k 20" if "20 \<le> j" for j
  proof -
    have "signed_take_bit 20 k = k" using assms(2,3) by (simp add: signed_take_bit_int_eq_self)
    then have "bit k j = bit (signed_take_bit 20 k) j" by simp
    then show ?thesis using that by (simp add: bit_signed_take_bit_iff min_def)
  qed
  show ?thesis
  proof (rule bit_word_eqI)
    show "bit (push_bit 12 (scast (ucast (drop_bit 12 off) :: 21 word)) :: 64 word) i = bit off i"
      if "i < LENGTH(64)" for i
      using that hi [of "i - 12"] by (auto simp: bo bit_simps min_def)
  qed
qed

lemma decode_adrp:
  "decode (word_adrp TMP_REG_0 imm) = ADRP_imm 17 (push_bit 12 (scast (ucast (drop_bit 12 imm) :: 21 word)))"
proof -
  let ?w = "word_adrp TMP_REG_0 imm"
  have lo: "bit ?w i \<longleftrightarrow> (if i = 29 then bit imm 12 else if i = 30 then bit imm 13 else if 5 \<le> i \<and> i \<le> 23 then bit imm (9 + i)
      else i \<in> {0, 4, 28, 31})" if "i < 32" for i
  proof -
    have "bit (17 :: 32 word) i \<longleftrightarrow> i \<in> {0, 4}" "bit (0x90000000 :: 32 word) i \<longleftrightarrow> i \<in> {28, 31}"
      using that by (auto simp: bit_numeral_rec bit_1_iff numeral_eq_Suc less_Suc_eq)
    then show ?thesis using that
      by (auto simp: word_adrp_def Let_def op_ADRP_def PCRelAddressingFixed_def Rd_def TMP_REG_0_def reg_X_def
          LeftShift_eq bits_64 bit_simps min_def)
  qed
  have o: "off21 ?w = scast (ucast (drop_bit 12 imm) :: 21 word)"
  proof -
    have "(ucast (fld 29 2 ?w OR push_bit 2 (fld 5 19 ?w)) :: 21 word) = ucast (drop_bit 12 imm)"
      by (rule bit_word_eqI) (auto simp: bit_simps lo)
    then show ?thesis by (simp add: off21_def)
  qed
  have f: "fld 24 5 ?w = 16" "fld 31 1 ?w = 1" "fld 26 5 ?w \<noteq> 5" "fld 25 7 ?w \<noteq> 42" "fld 25 6 ?w \<noteq> 26" "fld 25 6 ?w \<noteq> 27"
    unfolding class_bits by (simp_all add: lo)
  have "fld 0 5 ?w = 17" by (simp add: fld_iff all_less_numeral lo)
  then show ?thesis using f by (simp add: decode_def decode_pcrel_def o reg_at_def)
qed

lemma decode_add:
  assumes "word_add TMP_REG_0 TMP_REG_0 (take_bit 12 imm) = Inr w"
  shows "decode w = ADD_imm 17 17 (take_bit 12 imm)"
proof -
  have "w = AddSubImmediateOpSub 1 0 0 OR 17 OR push_bit 5 17 OR ucast (push_bit 10 (take_bit 12 imm))"
    using assms by (simp add: word_add_def AddSubImmediate_def Is64Bits_def TMP_REG_0_def reg_X_def IsImmediate_def
        Operand_imm_def reg_Is_def Rd_def Rn_def LeftShift_eq)
  moreover have "(ucast (take_bit 12 (ucast imm :: 32 word)) :: 64 word) = take_bit 12 imm"
    by (rule bit_word_eqI) (auto simp: bit_simps)
  ultimately show ?thesis
    by (simp add: AddSubImmediateOpSub_def opcodes LeftShift_eq decode_def decode_pcrel_def decode_rest_def fld_simps reg_at_def)
qed

lemma llabs_bound:
  assumes "llabs w < adrp_range"
  shows "- (2 ^ 32) < sint w \<and> sint w < 2 ^ 32"
proof -
  define v where "v = llabs w"
  have u: "uint v < 2 ^ 32" using assms by (simp add: v_def adrp_range_def word_less_def)
  have small: "sint (word_of_int x :: 64 word) = x" if "- (2 ^ 32) < x" "x < 2 ^ 32" for x
    using that by (subst sint_sbintrunc') (simp add: signed_take_bit_int_eq_self)
  have "0 \<le> uint v" by simp
  with u have v: "sint (word_of_int (uint v) :: 64 word) = uint v" "sint (word_of_int (- uint v) :: 64 word) = - uint v"
    by (intro small; linarith)+
  have "w = word_of_int (uint v) \<or> w = word_of_int (- uint v)"
    by (simp add: v_def llabs_def)
  then have "sint w = uint v \<or> sint w = - uint v" using v by auto
  with u \<open>0 \<le> uint v\<close> show ?thesis by linarith
qed

lemma page_distance:
  fixes frm to :: "64 word"
  assumes "llabs (frm - to) < adrp_range" "ALIGN_FLOOR to 0x1000 - ALIGN_FLOOR frm 0x1000 \<noteq> 2 ^ 32"
  shows "\<exists>k. ALIGN_FLOOR to 0x1000 - ALIGN_FLOOR frm 0x1000 = word_of_int (4096 * k) \<and> - (2 ^ 20) \<le> k \<and> k < 2 ^ 20"
proof -
  let ?D = "ALIGN_FLOOR to 0x1000 - ALIGN_FLOOR frm 0x1000"
  let ?tf = "take_bit 12 frm" and ?tt = "take_bit 12 to"
  define e where "e = - sint (frm - to) + uint ?tf - uint ?tt"
  have split: "x = push_bit 12 (drop_bit 12 x) + take_bit 12 x" for x :: "64 word" by (simp only: bits_ident)
  have D: "?D = push_bit 12 (drop_bit 12 to - drop_bit 12 frm)"
    by (simp only: ALIGN_FLOOR_page) (simp add: push_bit_eq_mult left_diff_distrib)
  have "?D = - (frm - to) + ?tf - ?tt"
    unfolding ALIGN_FLOOR_page using split [of frm] split [of to] by (simp add: algebra_simps) 
  also have "\<dots> = word_of_int e"
    unfolding e_def by simp
  finally have De: "?D = word_of_int e" .
  have "take_bit 12 e = 0"
  proof (rule bit_eqI)
    fix i :: nat
    have "bit (take_bit 12 e) i \<longleftrightarrow> i < 12 \<and> bit ?D i" by (auto simp: De bit_simps)
    also have "\<dots> \<longleftrightarrow> False" by (auto simp: D bit_simps)
    finally show "bit (take_bit 12 e) i = bit 0 i" by simp
  qed
  then have "e mod 4096 = 0" by (simp add: take_bit_eq_mod)
  then obtain k where k: "e = 4096 * k" by blast
  have "uint ?tf < 4096" "uint ?tt < 4096" "0 \<le> uint ?tf" "0 \<le> uint ?tt"
    using take_bit_int_less_exp [of 12 "uint frm"] take_bit_int_less_exp [of 12 "uint to"]
    by (simp_all only: unsigned_take_bit_eq) simp_all
  with llabs_bound [OF assms(1)] have "- (2 ^ 32) - 4096 < e" "e < 2 ^ 32 + 4096"
    unfolding e_def by linarith+
  then have "- (2 ^ 20) \<le> k" "k \<le> 2 ^ 20" by (simp_all add: k)
  moreover have "k \<noteq> 2 ^ 20" using assms(2) De k by auto
  ultimately show ?thesis using De k by (intro exI [of _ k]) simp
qed

lemma code_word_at:
  assumes "holds_bytes (code_bytes ws @ rest) dst st" "q < length ws"
  shows "word_at (dst + word_of_nat (4 * q)) st = ws ! q"
proof -
  have "load 4 (dst + word_of_nat (4 * q)) st = take 4 (drop (4 * q) (code_bytes ws @ rest))"
    by (rule load_holds [OF assms(1)]) (use assms(2) in simp)
  with assms(2) show ?thesis by (simp add: word_at_def code_bytes_split le_word_bytes)
qed

lemma tmp_add: "\<exists>w. word_add TMP_REG_0 TMP_REG_0 imm = Inr w"
  by (simp add: word_add_def AddSubImmediate_def IsImmediate_def Operand_imm_def reg_Is_def)

text \<open>The three words that load \<open>to\<close> from \<open>frm\<close>, and branch.\<close>

definition adrp_words :: "64 word \<Rightarrow> 64 word \<Rightarrow> 32 word list" where
  "adrp_words frm to =
     (case words_AdrpAdd TMP_REG_0 frm to of Inl _ \<Rightarrow> [] | Inr ws \<Rightarrow> ws @ [word_br TMP_REG_0])"

lemma adrp_words_eq:
  "\<exists>w. words_AdrpAdd TMP_REG_0 frm to = Inr [word_adrp TMP_REG_0 (ALIGN_FLOOR to 0x1000 - ALIGN_FLOOR frm 0x1000), w] \<and>
     adrp_words frm to = [word_adrp TMP_REG_0 (ALIGN_FLOOR to 0x1000 - ALIGN_FLOOR frm 0x1000), w, word_br TMP_REG_0] \<and>
     decode w = ADD_imm 17 17 (take_bit 12 to)"
proof -
  have m: "to mod 0x1000 = take_bit 12 to" by (simp add: take_bit_eq_mod)
  obtain w where w: "word_add TMP_REG_0 TMP_REG_0 (take_bit 12 to) = Inr w" using tmp_add by blast
  have "words_AdrpAdd TMP_REG_0 frm to = Inr [word_adrp TMP_REG_0 (ALIGN_FLOOR to 0x1000 - ALIGN_FLOOR frm 0x1000), w]"
    using w unfolding words_AdrpAdd_def Let_def m by simp
  with decode_add [OF w] show ?thesis by (intro exI [of _ w]) (simp add: adrp_words_def)
qed

lemma run_adrp_words_gen:
  assumes h: "holds_bytes (code_bytes (adrp_words frm to)) frm st" and pc: "pc st = frm"
  defines "D \<equiv> ALIGN_FLOOR to 0x1000 - ALIGN_FLOOR frm 0x1000"
  defines "to' \<equiv> push_bit 12 (drop_bit 12 frm) + push_bit 12 (scast (ucast (drop_bit 12 D) :: 21 word)) + take_bit 12 to"
  shows "run other 3 st = (wX 17 to' st)\<lparr>pc := to'\<rparr>"
proof -
  obtain w where w: "adrp_words frm to = [word_adrp TMP_REG_0 D, w, word_br TMP_REG_0]"
    "decode w = ADD_imm 17 17 (take_bit 12 to)" using adrp_words_eq unfolding D_def by blast
  have at: "word_at frm st = word_adrp TMP_REG_0 D" "word_at (frm + 4) st = w" "word_at (frm + 8) st = word_br TMP_REG_0"
    using code_word_at [where rest = "[]" and ws = "adrp_words frm to", of frm st 0]
      code_word_at [where rest = "[]" and ws = "adrp_words frm to", of frm st 1]
      code_word_at [where rest = "[]" and ws = "adrp_words frm to", of frm st 2] h
    by (simp_all add: w)
  let ?P = "push_bit 12 (drop_bit 12 frm) + push_bit 12 (scast (ucast (drop_bit 12 D) :: 21 word)) :: 64 word"
  define s1 where "s1 = (wX 17 ?P st)\<lparr>pc := frm + 4\<rparr>"
  define s2 where "s2 = (wX 17 to' st)\<lparr>pc := frm + 8\<rparr>"
  have "decode (word_at (pc st) st) = ADRP_imm 17 (push_bit 12 (scast (ucast (drop_bit 12 D) :: 21 word)))"
    unfolding pc at by (rule decode_adrp)
  from step_at [OF this] have 1: "arm_step other st = s1" by (simp add: exec_def s1_def pc)
  have "word_at (pc s1) s1 = w" using at(2) word_at_cong [of s1 st] by (simp add: s1_def)
  from step_at [OF arg_cong [OF this, of decode, unfolded w(2)]] have 2: "arm_step other s1 = s2"
    by (simp add: exec_def s1_def s2_def rX_wX wX_wX wX_pc add.assoc to'_def)
  have "word_at (pc s2) s2 = word_br TMP_REG_0" using at(3) word_at_cong [of s2 st] by (simp add: s2_def)
  from step_at [OF arg_cong [OF this, of decode, unfolded decode_tmp_branch]]
  have 3: "arm_step other s2 = (wX 17 to' st)\<lparr>pc := to'\<rparr>" by (simp add: exec_def s2_def rX_wX)
  show ?thesis by (simp add: numeral_3_eq_3 run_Suc 1 2 3)
qed

lemma run_adrp_words:
  assumes h: "holds_bytes (code_bytes (adrp_words frm to)) frm st" and pc: "pc st = frm"
    and k: "ALIGN_FLOOR to 0x1000 - ALIGN_FLOOR frm 0x1000 = word_of_int (4096 * k)" "- (2 ^ 20) \<le> k" "k < 2 ^ 20"
  shows "run other 3 st = (wX 17 to st)\<lparr>pc := to\<rparr>"
proof -
  have "push_bit 12 (drop_bit 12 frm) + (ALIGN_FLOOR to 0x1000 - ALIGN_FLOOR frm 0x1000) + take_bit 12 to = to"
    by (simp add: ALIGN_FLOOR_page bits_ident)
  with run_adrp_words_gen [OF h pc, of other] show ?thesis unfolding imm21_in_range [OF k] by simp
qed

lemma literal_branch_bytes:
  "\<exists>b. LiteralLdrBranch to (new_assembler frm) = Inr b \<and> layout [branch_piece to] 0 (a_buffer b) \<and> length (a_buffer b) = 16"
proof -
  have "asm_is (code_of []) (placed 0 []) (new_assembler frm)" by (simp add: asm_is_def new_assembler_def)
  from asm_is_branch [OF this, of to] obtain b where b: "LiteralLdrBranch to (new_assembler frm) = RelocBind b"
    "asm_is (code_of [branch_piece to]) (placed 0 [branch_piece to]) b" by (auto simp: all_pieces_def)
  from RelocBind_layout [of b "code_of [branch_piece to]" "[]" "[branch_piece to]"] b(2)
    placed_good [of "[branch_piece to]" 0] good_branch_piece
  obtain c where c: "RelocBind b = Inr c" "layout [branch_piece to] (length ([] :: 8 word list)) (a_buffer c)"
    by (auto simp: asm_is_def)
  from c(2) have "length (a_buffer c) = 16"
    by (auto simp: layout_def branch_piece_def Let_def shift_labels_def)
  with b(1) c show ?thesis by auto
qed

lemma normal_trampoline_bytes:
  "\<exists>buf. GenerateNormalTrampolineBuffer frm to = Inr buf \<and>
     (if llabs (frm - to) < adrp_range then buf = code_bytes (adrp_words frm to) \<and> length buf = 12
      else layout [branch_piece to] 0 buf \<and> length buf = 16)"
proof (cases "llabs (frm - to) < adrp_range")
  case True
  with adrp_words_eq [of frm to] show ?thesis
    by (auto simp: GenerateNormalTrampolineBuffer_def Let_def emit_all_eq Emit_def EmitBuffer_def new_assembler_def)
next
  case False
  with literal_branch_bytes [of to frm] show ?thesis by (auto simp: GenerateNormalTrampolineBuffer_def Let_def)
qed

lemma normal_trampoline_runs:
  assumes g: "GenerateNormalTrampolineBuffer frm to = Inr buf" and h: "holds_bytes buf frm st" and pc: "pc st = frm"
    and reach: "llabs (frm - to) < adrp_range \<longrightarrow> ALIGN_FLOOR to 0x1000 - ALIGN_FLOOR frm 0x1000 \<noteq> 2 ^ 32"
  shows "\<exists>n>0. run other n st = (wX 17 to st)\<lparr>pc := to\<rparr>"
proof (cases "llabs (frm - to) < adrp_range")
  case True
  with g normal_trampoline_bytes [of frm to] h have "holds_bytes (code_bytes (adrp_words frm to)) frm st" by auto
  moreover obtain k where "ALIGN_FLOOR to 0x1000 - ALIGN_FLOOR frm 0x1000 = word_of_int (4096 * k)" "- (2 ^ 20) \<le> k" "k < 2 ^ 20"
    using page_distance [OF True] reach True by blast
  ultimately show ?thesis using run_adrp_words [OF _ pc] by (intro exI [of _ 3] conjI) (simp, blast)
next
  case False
  with g normal_trampoline_bytes [of frm to] have l: "layout [branch_piece to] 0 buf" "length buf = 16" by auto
  have "piece_at ([branch_piece to] ! 0) (frm + word_of_nat (4 * start [branch_piece to] 0)) st"
    by (rule layout_piece [OF l(1) _ _ _ h]) (simp_all add: l(2) good_branch_piece)
  then have "piece_at ([ldr_tmp, word_br TMP_REG_0], [(0, to)]) (pc st) st"
    by (simp add: pc branch_piece_def start_def)
  from run_branch(1) [OF this refl] show ?thesis by (intro exI [of _ 2]) simp
qed

section \<open>What a hook leaves\<close>

lemma piece_size: "piece_of src inst = Inr (us, ks) \<Longrightarrow> length us \<le> 5 \<and> length ks \<le> 1"
  by (auto simp: piece_of_def words_Mov_def Let_def split: if_splits)

lemma placed_size:
  assumes "\<forall>p\<in>set ps. length (fst p) \<le> 5 \<and> length (snd p) \<le> 1"
  shows "length (code_of ps) \<le> 5 * length ps \<and> length (placed n ps) \<le> length ps"
  using assms by (induction n ps rule: placed.induct) (auto simp: shift_labels_def)

lemma layout_length: "layout ps gap bs \<Longrightarrow> length bs = 4 * length (code_of ps) + gap + 8 * length (placed 0 ps)"
  by (auto simp: layout_def Let_def)

lemma relo_assemble_length:
  assumes "relo_assemble ctx branch = Inr (ctx', a)" "rc_cursor ctx = 0"
  shows "length (a_buffer a) \<le> 36 * ((rc_size ctx + 3) div 4) + 36"
proof -
  obtain ps t where ps: "pieces_from (rc_src ctx) (rc_buffer ctx) 0 ps" "length ps = (rc_size ctx + 3) div 4"
    and l: "layout (all_pieces ps branch t) (gap_of (all_pieces ps branch t) branch) (a_buffer a)"
    using relo_assemble_layout [OF assms(1)] assms(2) by auto
  let ?qs = "all_pieces ps branch t"
  have "\<forall>p\<in>set ps. length (fst p) \<le> 5 \<and> length (snd p) \<le> 1"
  proof
    fix p assume "p \<in> set ps"
    then obtain k where "k < length ps" "p = ps ! k" by (metis in_set_conv_nth)
    then have "\<exists>s i. piece_of s i = Inr (fst p, snd p)" using ps(1) by (auto simp: pieces_from_def)
    then show "length (fst p) \<le> 5 \<and> length (snd p) \<le> 1" using piece_size by blast
  qed
  then have "\<forall>p\<in>set ?qs. length (fst p) \<le> 5 \<and> length (snd p) \<le> 1"
    by (auto simp: all_pieces_def branch_piece_def)
  from placed_size [OF this, of 0] have s: "length (code_of ?qs) \<le> 5 * length ?qs" "length (placed 0 ?qs) \<le> length ?qs" by auto
  have g: "gap_of ?qs branch \<le> 8 * length ?qs" using s(2) by (cases branch) (simp_all add: gap_of_def)
  have "length ?qs \<le> length ps + 1" by (simp add: all_pieces_def)
  with s g layout_length [OF l] ps(2) show ?thesis by linarith
qed

text \<open>The context in which the block under a trampoline of \<open>n\<close> bytes is relocated.\<close>

definition hook_ctx :: "hook_engine \<Rightarrow> 64 word \<Rightarrow> nat \<Rightarrow> relo_ctx" where
  "hook_ctx e address n =
     \<lparr>rc_buffer = mem_read (n + 3) address (e_mem e), rc_cursor = 0, rc_size = n, rc_src = address,
      rc_origin = MemBlock address (word_of_nat n), rc_map = Map.empty\<rparr>"

lemma finalize_new:
  assumes "FinalizeFromTurboAssembler mmap page a e = Inr (code, e')" "a_realized a = 0" "length (a_buffer a) < 2 ^ 32"
  shows "\<exists>b m. allocateExecBlock mmap page (word_of_nat (length (a_buffer a))) (e_alloc e) = Inr (b, m) \<and>
    code = MemBlock (mb_addr b) (word_of_nat (length (a_buffer a))) \<and>
    e_mem e' = mem_write (a_buffer a) (mb_addr b) (e_mem e) \<and> e_entries e' = e_entries e"
proof -
  have u: "unat (word_of_nat (length (a_buffer a)) :: 32 word) = length (a_buffer a)"
    using assms(3) by (simp add: unsigned_of_nat take_bit_nat_eq_self)
  show ?thesis using assms(1,2) u
    by (auto simp: FinalizeFromTurboAssembler_def DobbyCodePatch_def GetBufferSize_def Let_def split: if_splits)
qed

lemma relo_assemble_realized: "relo_assemble ctx branch = Inr (ctx', a) \<Longrightarrow> a_realized a = 0"
proof -
  have re: "RelocBind b = Inr c \<Longrightarrow> a_realized c = a_realized b" for b c
  proof -
    have "bind_labels is b = Inr c \<Longrightarrow> a_realized c = a_realized b" for "is" b c
      by (induction "is" arbitrary: b)
        (auto simp: PseudoBind_def Let_def EmitBuffer_def split: if_splits)
    then show "RelocBind b = Inr c \<Longrightarrow> a_realized c = a_realized b" by (simp add: RelocBind_def)
  qed
  have ldr: "Ldr r i b = Inr c \<Longrightarrow> a_realized c = a_realized b" for r i b c
    by (auto simp: Ldr_def emit_res_def Emit_def EmitBuffer_def Let_def split: if_splits)
  have all: "a_realized (emit_all ws b) = a_realized b" for ws b by (simp add: emit_all_eq)
  have lab: "label_and_ldr d ws b = Inr c \<Longrightarrow> a_realized c = a_realized b" for d ws b c
    using ldr by (fastforce simp: label_and_ldr_def Let_def all AppendRelocLabel_def)
  have one: "relocate_inst s i b = Inr c \<Longrightarrow> a_realized c = a_realized b" for s i b c
    by (auto simp: relocate_inst_def relo_b_bl_def relo_ldr_literal_def relo_adr_def relo_adrp_def relo_b_cond_def
        relo_compare_b_def relo_test_b_def branch_over_def emit_res_def Emit_def EmitBuffer_def Let_def all
        dest!: lab split: if_splits)
  have loop: "relo_loop c1 b = Inr (c2, c) \<Longrightarrow> a_realized c = a_realized b" for c1 b c2 c
  proof (induction c1 b rule: relo_loop.induct)
    case (1 ctx a)
    note IH = 1(1) and r = 1(2)
    show ?case
    proof (cases "rc_cursor ctx < rc_size ctx")
      case True
      with r obtain inst d where d: "relocate_inst (relo_cur_src_vmaddr ctx) inst a = Inr d"
        and l: "relo_loop (ctx\<lparr>rc_map := (rc_map ctx)(rc_cursor ctx \<mapsto> GetBufferSize a), rc_cursor := rc_cursor ctx + 4\<rparr>) d = Inr (c2, c)"
        by (auto simp: relo_loop.simps [of ctx a])
      show ?thesis using IH [OF True refl l] one [OF d] by simp
    qed (use r in \<open>simp add: relo_loop.simps [of ctx a]\<close>)
  qed
  have br: "LiteralLdrBranch t b = Inr c \<Longrightarrow> a_realized c = a_realized b" for t b c
    by (auto simp: LiteralLdrBranch_def Let_def AppendRelocLabel_def Emit_def EmitBuffer_def dest!: re ldr)
  show "relo_assemble ctx branch = Inr (ctx', a) \<Longrightarrow> a_realized a = 0"
    by (auto simp: relo_assemble_def Let_def new_assembler_def dest!: re br loop split: if_splits)
qed

text \<open>A hook that succeeds, without the near plugin: the trampoline, the relocated block and the memory, in terms of
  the pieces.\<close>

lemma hook_success:
  assumes h: "DobbyHook mmap page regions False allowed fresh address replace want e = Inr (RS_SUCCESS, orig, e')"
  shows "\<exists>tramp ctx' a b m. GenerateNormalTrampolineBuffer address replace = Inr tramp \<and>
    relo_assemble (hook_ctx e address (length tramp)) True = Inr (ctx', a) \<and>
    allocateExecBlock mmap page (word_of_nat (length (a_buffer a)))
      (OSMemory_SetPermission (ALIGN_FLOOR address page) page kReadExecute (e_alloc e)) = Inr (b, m) \<and>
    length (a_buffer a) \<le> 2 ^ 20 \<and> address \<noteq> 0 \<and> find_entry address (e_entries e) = None \<and>
    e_mem e' = mem_write tramp address (mem_write (a_buffer a) (mb_addr b) (e_mem e)) \<and>
    (want \<longrightarrow> orig = Some (mb_addr b)) \<and>
    (\<exists>en. e_entries e' = e_entries e @ [en] \<and> ie_patched_addr en = address \<and> ie_relocated_addr en = mb_addr b \<and>
      ie_origin_insn_size en = ie_origin_insn_size fresh \<and>
      take (4 * ((length tramp + 3) div 4)) (ie_origin_insns en) =
        mem_read (4 * ((length tramp + 3) div 4)) address (mem_write (a_buffer a) (mb_addr b) (e_mem e)))"
proof -
  define e1 where "e1 = e\<lparr>e_alloc := OSMemory_SetPermission (ALIGN_FLOOR address page) page kReadExecute (e_alloc e)\<rparr>"
  define en where "en = new_InterceptEntry fresh kFunctionInlineHook address e1"
  have z: "address \<noteq> 0" using h by (auto simp: DobbyHook_def RS_FAILED_def RS_SUCCESS_def)
  have al: "allowed" using h z by (auto simp: DobbyHook_def RS_FAILED_def RS_SUCCESS_def Let_def split: if_splits)
  have fi: "find_entry address (e_entries e) = None"
    using h z al by (auto simp: DobbyHook_def RS_FAILED_def RS_SUCCESS_def Let_def split: if_splits)
  have "DobbyHook mmap page regions False allowed fresh address replace want e =
    res_bind (DispatchRouting mmap page regions False replace en e1) (\<lambda>(trampoline, entry1, e2).
    res_bind (Active page trampoline entry1 e2) (\<lambda>e3.
    Inr (RS_SUCCESS, if want then Some (ie_relocated_addr entry1) else None, add_entry entry1 e3)))"
    by (simp add: DobbyHook_def Let_def z al fi e1_def en_def)
  from h [unfolded this] obtain tramp en1 e2 e3
    where d: "DispatchRouting mmap page regions False replace en e1 = Inr (tramp, en1, e2)"
    and act: "Active page tramp en1 e2 = Inr e3"
    and orig: "orig = (if want then Some (ie_relocated_addr en1) else None)" "e' = add_entry en1 e3"
    unfolding res_bind_Inr_iff by (auto simp del: if_split)
  have pa: "ie_patched_addr en = address" "ie_origin_insn_size en = ie_origin_insn_size fresh"
    by (simp_all add: en_def new_InterceptEntry_def)
  have g: "GenerateNormalTrampolineBuffer address replace = Inr tramp"
    and rel: "\<exists>ok. GenerateRelocatedCode mmap page tramp en e1 = Inr (ok, en1, e2)"
    using d by (auto simp: DispatchRouting_def BuildRouting_def GenerateTrampolineBuffer_def pa split: prod.splits)
  have tl: "length tramp \<le> 16" using normal_trampoline_bytes [of address replace] g by (auto split: if_splits)
  have u: "unat (word_of_nat (length tramp) :: 32 word) = length tramp"
    using tl by (simp add: unsigned_of_nat take_bit_nat_eq_self)
  have u2: "ucast (word_of_nat (length tramp) :: 32 word) = (word_of_nat (length tramp) :: 64 word)"
    "unat (word_of_nat (length tramp) :: 64 word) = length tramp"
    using tl u by (simp_all add: word_unat_eq_iff unat_ucast_64 unsigned_of_nat take_bit_nat_eq_self)
  have me: "e_mem e1 = e_mem e" "e_entries e1 = e_entries e" by (simp_all add: e1_def)
  let ?ctx = "hook_ctx e address (length tramp)" and ?n = "4 * ((length tramp + 3) div 4)"
  have ctx: "\<lparr>rc_buffer = mem_read (unat (r_size (MemBlock address (ucast (word_of_nat (length tramp) :: 32 word)))) + 3) address (e_mem e1),
      rc_cursor = 0, rc_size = unat (r_size (MemBlock address (ucast (word_of_nat (length tramp) :: 32 word)))),
      rc_src = mb_addr (MemBlock address (ucast (word_of_nat (length tramp) :: 32 word))),
      rc_origin = MemBlock address (ucast (word_of_nat (length tramp) :: 32 word)), rc_map = Map.empty\<rparr> = ?ctx"
    unfolding u2(1) by (simp add: hook_ctx_def MemBlock_def MemRange_def mem_range.defs u2(2) me)
  from rel obtain origin relocated where
    gen: "GenRelocateCodeAndBranch mmap page address (MemBlock address (ucast (word_of_nat (length tramp) :: 32 word))) (MemBlock 0 0) e1 =
        Inr (origin, relocated, e2)"
    and en1: "r_size relocated = 0 \<longrightarrow> en1 = en"
      "r_size relocated \<noteq> 0 \<longrightarrow> unat (r_size origin) \<le> length (ie_origin_insns en) \<and>
        en1 = en\<lparr>ie_relocated_addr := mb_addr relocated,
                 ie_origin_insns := mem_read (unat (r_size origin)) (mb_addr origin) (e_mem e2) @ drop (unat (r_size origin)) (ie_origin_insns en)\<rparr>"
    unfolding GenerateRelocatedCode_def Let_def pa res_bind_Inr_iff by (auto simp: not_less split: if_splits)
  from gen obtain ctx' a code where asm: "relo_assemble ?ctx True = Inr (ctx', a)"
    and fin: "FinalizeFromTurboAssembler mmap page a e1 = Inr (code, e2)"
    and out: "origin = rc_origin ctx'" "relocated = block_reset (mb_addr code) (r_size code) (MemBlock 0 0)"
    unfolding GenRelocateCodeAndBranch_def GenRelocateCode_def Let_def ctx relo_relocate_def res_bind_Inr_iff by auto
  have len: "length (a_buffer a) \<le> 2 ^ 20"
    using relo_assemble_length [OF asm] tl by (simp add: hook_ctx_def)
  from relo_assemble_layout [OF asm] obtain ps t where ps: "length ps = (length tramp + 3) div 4"
    "layout (all_pieces ps True t) (gap_of (all_pieces ps True t) True) (a_buffer a)"
    and c: "ctx' = ?ctx\<lparr>rc_cursor := 4 * length ps, rc_map := rc_map ?ctx ++ map_of_pieces 0 0 ps,
               rc_origin := block_reset (mb_addr (rc_origin ?ctx)) (word_of_nat (rc_cursor ctx')) (rc_origin ?ctx)\<rparr>"
    by (auto simp: hook_ctx_def)
  have cur: "rc_cursor ctx' = ?n" using arg_cong [OF c, of rc_cursor] ps(1) by simp
  have oa: "mb_addr origin = address" "r_size origin = word_of_nat ?n"
    using arg_cong [OF c, of rc_origin] unfolding out cur
    by (simp_all add: hook_ctx_def block_reset_def MemBlock_def mem_range.defs)
  have "?n < 2 ^ 64" using tl by simp
  then have "unat (word_of_nat ?n :: 64 word) = ?n" by (simp only: unsigned_of_nat) (simp add: take_bit_nat_eq_self)
  then have og: "mb_addr origin = address" "unat (r_size origin) = ?n" using oa by simp_all
  have pos: "0 < length (a_buffer a)"
    using layout_length [OF ps(2)] by (simp add: all_pieces_def branch_piece_def)
  obtain b m where blk: "allocateExecBlock mmap page (word_of_nat (length (a_buffer a))) (e_alloc e1) = Inr (b, m)"
    "code = MemBlock (mb_addr b) (word_of_nat (length (a_buffer a)))"
    "e_mem e2 = mem_write (a_buffer a) (mb_addr b) (e_mem e1)" "e_entries e2 = e_entries e1"
    using finalize_new [OF fin relo_assemble_realized [OF asm]] len by auto
  have rl: "mb_addr relocated = mb_addr b" "r_size relocated \<noteq> 0"
    using pos len by (simp_all add: out blk(2) block_reset_def MemBlock_def MemRange_def mem_range.defs
        word_unat_eq_iff unsigned_of_nat take_bit_nat_eq_self)
  note en = en1(2) [rule_format, OF rl(2)]
  have act': "e3 = e2\<lparr>e_mem := mem_write tramp address (e_mem e2), e_alloc := e_alloc e3\<rparr>"
    using act en u by (auto simp: Active_def DobbyCodePatch_def Let_def pa split: if_splits)
  have "ie_patched_addr en1 = address \<and> ie_relocated_addr en1 = mb_addr b \<and> ie_origin_insn_size en1 = ie_origin_insn_size fresh \<and>
      take ?n (ie_origin_insns en1) = mem_read ?n address (mem_write (a_buffer a) (mb_addr b) (e_mem e))"
    using en by (simp add: pa rl og blk(3) me)
  moreover have "e_entries e' = e_entries e @ [en1]"
    using orig(2) arg_cong [OF act', of e_entries] by (simp add: add_entry_def blk(4) me)
  moreover have "e_mem e' = mem_write tramp address (mem_write (a_buffer a) (mb_addr b) (e_mem e))"
    using orig(2) arg_cong [OF act', of e_mem] by (simp add: add_entry_def blk(3) me)
  moreover have "want \<longrightarrow> orig = Some (mb_addr b)" using orig(1) en rl by auto
  moreover have "e_alloc e1 = OSMemory_SetPermission (ALIGN_FLOOR address page) page kReadExecute (e_alloc e)"
    by (simp add: e1_def)
  ultimately show ?thesis using g asm blk(1) len z fi by metis
qed

section \<open>Properties\<close>

text \<open>The trampoline is three words, or four where the target is far.\<close>

definition tramp_words :: "64 word \<Rightarrow> 64 word \<Rightarrow> nat" where
  "tramp_words address replace = (if llabs (address - replace) < adrp_range then 3 else 4)"

lemma tramp_length: "GenerateNormalTrampolineBuffer address replace = Inr tramp \<Longrightarrow> length tramp = 4 * tramp_words address replace"
  using normal_trampoline_bytes [of address replace] by (auto simp: tramp_words_def split: if_splits)

text \<open>C1: a hooked function runs its replacement. After \<open>DobbyHook\<close> has succeeded, the machine that enters the
  function comes to the replacement with nothing changed but \<open>x17\<close>, through ADRP, ADD and BR or, for a
  far target, through a literal load and BR; unless the pages of the two functions are exactly
  \<open>2 ^ 32\<close> apart while the functions are closer.\<close>

theorem hook_redirects:
  assumes h: "DobbyHook mmap page regions False allowed fresh address replace want e = Inr (RS_SUCCESS, orig, e')"
    and reach: "llabs (address - replace) < adrp_range \<longrightarrow> ALIGN_FLOOR replace 0x1000 - ALIGN_FLOOR address 0x1000 \<noteq> 2 ^ 32"
    and st: "mem st = e_mem e'" "pc st = address"
  shows "\<exists>n>0. run other n st = (wX 17 replace st)\<lparr>pc := replace\<rparr>"
proof -
  obtain tramp m where g: "GenerateNormalTrampolineBuffer address replace = Inr tramp" "e_mem e' = mem_write tramp address m"
    using hook_success [OF h] by blast
  have "length tramp \<le> 2 ^ 32" using tramp_length [OF g(1)] by (simp add: tramp_words_def split: if_splits)
  then have "holds_bytes tramp address st" by (simp add: holds_read st g(2) mem_read_write)
  from normal_trampoline_runs [OF g(1) this st(2) reach] show ?thesis .
qed

text \<open>C2: the pointer \<open>DobbyHook\<close> hands out runs the original function. When the overwritten instructions fall
  through, do not read \<open>x17\<close> and are of a kind the relocation handles, when they leave the relocated
  code alone and the relocated code does not overlap the trampoline, then entering it comes, in the
  state the overwritten instructions leave (except \<open>x17\<close>), to the first instruction of the function
  behind the trampoline.\<close>

theorem hooked_original_runs:
  fixes other :: "32 word \<Rightarrow> arm \<Rightarrow> arm" and st :: arm and address replace :: "64 word" and e :: hook_engine
  assumes h: "DobbyHook mmap page regions False allowed fresh address replace True e = Inr (RS_SUCCESS, Some r, e')"
  defines "n \<equiv> tramp_words address replace"
  defines "buf \<equiv> mem_read (4 * n + 3) address (e_mem e)"
  defines "start_of \<equiv> \<lambda>k. block_run other address buf k st"
  assumes ok: "\<forall>k<n. supported (inst_at buf (4 * k)) \<and> ignores_tmp other (inst_at buf (4 * k)) \<and>
      falls_through other (inst_at buf (4 * k)) (address + word_of_nat (4 * k)) (start_of k)"
    and far: "outside address (4 * n) r 180"
    and intact: "\<forall>k\<le>n. mem_read 180 r (mem (start_of k)) = mem_read 180 r (e_mem e')"
  shows "\<exists>m. agree {17} (run other m (st\<lparr>pc := r\<rparr>)) ((start_of n)\<lparr>pc := address + word_of_nat (4 * n)\<rparr>)"
proof -
  obtain tramp ctx' a and b :: mem_block where g: "GenerateNormalTrampolineBuffer address replace = Inr tramp"
    and asm: "relo_assemble (hook_ctx e address (length tramp)) True = Inr (ctx', a)"
    and len: "length (a_buffer a) \<le> 2 ^ 20"
    and m: "e_mem e' = mem_write tramp address (mem_write (a_buffer a) (mb_addr b) (e_mem e))" and so: "True \<longrightarrow> Some r = Some (mb_addr b)"
    using hook_success [OF h] by blast
  have r: "r = mb_addr b" using so by simp
  have tl: "length tramp = 4 * n" using tramp_length [OF g] by (simp add: n_def)
  have n: "n \<le> 4" "(4 * n + 3) div 4 = n" by (simp_all add: n_def tramp_words_def)
  have small: "length (a_buffer a) \<le> 180" using relo_assemble_length [OF asm] n by (simp add: hook_ctx_def tl)
  have written: "mem_read (length (a_buffer a)) r (mem_write (a_buffer a) r (e_mem e)) = a_buffer a"
    using small by (intro mem_read_write) simp
  have "mem_read 180 r (e_mem e') = mem_read 180 r (mem_write (a_buffer a) r (e_mem e))"
    unfolding m r [symmetric] using far by (intro mem_read_outside) (simp add: tl)
  then have "mem_read 180 r (mem (start_of k)) = mem_read 180 r (mem_write (a_buffer a) r (e_mem e))" if "k \<le> n" for k
    using intact that by simp
  then have "mem_read (length (a_buffer a)) r (mem (start_of k)) = a_buffer a" if "k \<le> n" for k
    using that mem_read_prefix [OF small] written by metis
  then have hold: "\<forall>k\<le>n. holds_bytes (a_buffer a) r (start_of k)" by (simp add: holds_read)
  have c: "rc_cursor (hook_ctx e address (length tramp)) = 0" "rc_src (hook_ctx e address (length tramp)) = address"
    "rc_buffer (hook_ctx e address (length tramp)) = buf" "(rc_size (hook_ctx e address (length tramp)) + 3) div 4 = n"
    "mb_addr (rc_origin (hook_ctx e address (length tramp))) = address"
    by (simp_all add: hook_ctx_def tl buf_def n(2) MemBlock_def mem_range.defs)
  have "\<exists>m. agree {17} (run other m (st\<lparr>pc := r\<rparr>))
      ((block_run other (rc_src (hook_ctx e address (length tramp))) (rc_buffer (hook_ctx e address (length tramp)))
          ((rc_size (hook_ctx e address (length tramp)) + 3) div 4) st)
        \<lparr>pc := mb_addr (rc_origin (hook_ctx e address (length tramp))) +
           word_of_nat (4 * ((rc_size (hook_ctx e address (length tramp)) + 3) div 4))\<rparr>)"
    by (rule relocated_block_returns [OF asm c(1) len])
      (use ok hold in \<open>simp_all only: c start_of_def\<close>)
  then show ?thesis unfolding c start_of_def .
qed

section \<open>The entries\<close>

lemma finalize_entries: "FinalizeFromTurboAssembler mmap page a e = Inr (b, e') \<Longrightarrow> e_entries e' = e_entries e"
  by (auto simp: FinalizeFromTurboAssembler_def DobbyCodePatch_def Let_def split: if_splits)

lemma trampoline_entries:
  "GenerateTrampolineBuffer mmap page regions near src dst e = Inr (t, e') \<Longrightarrow> e_entries e' = e_entries e"
proof -
  have f: "GenerateFastForwardTrampoline mmap page regions src dst e = Inr (c, e1) \<Longrightarrow> e_entries e1 = e_entries e" for c e1
    by (auto simp: GenerateFastForwardTrampoline_def Let_def dest!: finalize_entries split: if_splits prod.splits)
  have n: "GenerateNearTrampolineBuffer mmap page regions src dst e = Inr (c, e1) \<Longrightarrow> e_entries e1 = e_entries e" for c e1
    by (auto simp: GenerateNearTrampolineBuffer_def Let_def dest!: f split: if_splits option.splits)
  show "GenerateTrampolineBuffer mmap page regions near src dst e = Inr (t, e') \<Longrightarrow> e_entries e' = e_entries e"
    by (auto simp: GenerateTrampolineBuffer_def dest!: n split: if_splits option.splits)
qed

lemma relocated_entries:
  assumes "GenerateRelocatedCode mmap page t en e = Inr (ok, en', e')"
  shows "e_entries e' = e_entries e \<and> ie_patched_addr en' = ie_patched_addr en"
  using assms
  by (auto simp: GenerateRelocatedCode_def GenRelocateCodeAndBranch_def GenRelocateCode_def relo_relocate_def Let_def
      dest!: finalize_entries split: if_splits)

lemma dispatch_entries:
  assumes "DispatchRouting mmap page regions near replace en e = Inr (t, en', e')"
  shows "e_entries e' = e_entries e \<and> ie_patched_addr en' = ie_patched_addr en"
  using assms by (auto simp: DispatchRouting_def BuildRouting_def dest!: trampoline_entries relocated_entries)

lemma hook_entries:
  assumes "DobbyHook mmap page regions near allowed fresh address replace want e = Inr (res, orig, e')"
  shows "(res = RS_FAILED \<and> e_entries e' = e_entries e) \<or>
    (res = RS_SUCCESS \<and> find_entry address (e_entries e) = None \<and> address \<noteq> 0 \<and>
     (\<exists>en. ie_patched_addr en = address \<and> e_entries e' = e_entries e @ [en]))"
  using assms
  by (fastforce simp: DobbyHook_def Let_def Active_def DobbyCodePatch_def add_entry_def new_InterceptEntry_def
      dest!: dispatch_entries split: if_splits)

lemma find_entry_None: "find_entry a es = None \<longleftrightarrow> a \<notin> set (map ie_patched_addr es)"
  by (induction es) auto

lemma find_entry_Some: "find_entry a es = Some en \<Longrightarrow> en \<in> set es \<and> ie_patched_addr en = a"
  by (induction es) (auto split: if_splits)

lemma remove_entry_addrs:
  "map ie_patched_addr (remove_entry a es) = remove1 a (map ie_patched_addr es)"
  by (induction es) auto

text \<open>The calls of the engine's interface, in any order and with any parameters; a call that ends in an error or
  undefined behaviour has no successor.\<close>

inductive hook_step :: "hook_engine \<Rightarrow> hook_engine \<Rightarrow> bool" where
  step_hook: "DobbyHook mmap page regions near allowed fresh address replace want e = Inr (res, orig, e') \<Longrightarrow> hook_step e e'"
| step_destroy: "DobbyDestroy page address e = Inr (res, e') \<Longrightarrow> hook_step e e'"

definition hooked :: "hook_engine \<Rightarrow> 64 word set" where
  "hooked e = set (map ie_patched_addr (e_entries e))"

text \<open>C16: no function is hooked twice: after any sequence of \<open>DobbyHook\<close> and \<open>DobbyDestroy\<close> calls from
  an engine without hooks, the entries have different, non-null addresses. So \<open>DobbyHook\<close> of a hooked
  address fails and changes no entry, and \<open>DobbyDestroy\<close> of an address removes its only entry.\<close>

theorem entries_distinct:
  assumes "hook_step\<^sup>*\<^sup>* e0 e" "e_entries e0 = []"
  shows "distinct (map ie_patched_addr (e_entries e)) \<and> 0 \<notin> hooked e \<and>
    (address \<in> hooked e \<longrightarrow> DobbyHook mmap page regions near allowed fresh address replace want e = Inr (res, orig, e') \<longrightarrow>
       res = RS_FAILED \<and> e_entries e' = e_entries e) \<and>
    (DobbyDestroy page address e = Inr (res', e'') \<longrightarrow>
       hooked e'' = hooked e - {address} \<and> (res' = RS_SUCCESS \<longleftrightarrow> address \<in> hooked e))"
proof -
  have keeps: "distinct (map ie_patched_addr (e_entries y)) \<and> 0 \<notin> hooked y"
    if "hook_step x y" "distinct (map ie_patched_addr (e_entries x)) \<and> 0 \<notin> hooked x" for x y
    using that
  proof (induction rule: hook_step.induct)
    case (step_hook mmap page regions near allowed fresh address replace want e res orig e')
    from hook_entries [OF step_hook(1)] step_hook(2) show ?case
      by (auto simp: find_entry_None hooked_def)
  next
    case (step_destroy page address e res e')
    then have "e_entries e' = e_entries e \<or> e_entries e' = remove_entry address (e_entries e)"
      by (auto simp: DobbyDestroy_def DobbyCodePatch_def Let_def split: option.splits if_splits)
    with step_destroy(2) show ?case
      by (auto simp: remove_entry_addrs hooked_def simp flip: set_map dest: notin_set_remove1)
  qed
  have inv: "distinct (map ie_patched_addr (e_entries e)) \<and> 0 \<notin> hooked e"
    using assms
  proof (induction rule: rtranclp_induct)
    case (step y z)
    then show ?case using keeps by blast
  qed (simp add: hooked_def)
  have hook: "res = RS_FAILED \<and> e_entries e' = e_entries e"
    if "address \<in> hooked e" "DobbyHook mmap page regions near allowed fresh address replace want e = Inr (res, orig, e')"
    using hook_entries [OF that(2)] that(1) by (auto simp: find_entry_None hooked_def)
  have destroy: "hooked e'' = hooked e - {address} \<and> (res' = RS_SUCCESS \<longleftrightarrow> address \<in> hooked e)"
    if d: "DobbyDestroy page address e = Inr (res', e'')"
  proof (cases "find_entry address (e_entries e)")
    case None
    with d have "res' = RS_FAILED" "e'' = e" by (simp_all add: DobbyDestroy_def)
    with None show ?thesis by (simp add: find_entry_None hooked_def RS_FAILED_def RS_SUCCESS_def)
  next
    case (Some en)
    with d have "res' = RS_SUCCESS" "e_entries e'' = remove_entry address (e_entries e)"
      by (auto simp: DobbyDestroy_def DobbyCodePatch_def Let_def split: if_splits)
    moreover have "address \<in> hooked e" using find_entry_Some [OF Some] by (auto simp: hooked_def)
    moreover have "set (remove1 address (map ie_patched_addr (e_entries e))) = set (map ie_patched_addr (e_entries e)) - {address}"
      using inv by (intro set_remove1_eq) simp
    ultimately show ?thesis by (simp add: hooked_def remove_entry_addrs del: set_map)
  qed
  show ?thesis using inv hook destroy by blast
qed

lemma mem_write_back: "length bs = n \<Longrightarrow> mem_write (mem_read n a m) a (mem_write bs a m) = m"
  by (rule ext) (simp add: mem_write_def mem_read_def)

lemma find_new_entry: "find_entry (ie_patched_addr en) es = None \<Longrightarrow> find_entry (ie_patched_addr en) (es @ [en]) = Some en"
  by (induction es) (auto split: if_splits)

lemma remove_new_entry: "find_entry (ie_patched_addr en) es = None \<Longrightarrow> remove_entry (ie_patched_addr en) (es @ [en]) = es"
  by (induction es) (auto split: if_splits)

text \<open>C29: what unhooking restores depends on uninitialised memory. No code sets \<open>origin_insn_size\<close>, so
  \<open>DobbyDestroy\<close> copies back as many bytes as that field of a fresh entry happens to hold. With the size of the
  overwritten instructions there, the memory outside the relocated block is as before the hook; with
  zero, the trampoline stays in place, although the entry is gone and the call reports success.\<close>

theorem destroy_depends_on_garbage:
  assumes h: "DobbyHook mmap page regions False allowed fresh address replace want e = Inr (RS_SUCCESS, orig, e')"
    and d: "DobbyDestroy page address e' = Inr (res, e'')"
  defines "sz \<equiv> ie_origin_insn_size fresh" and "n \<equiv> tramp_words address replace"
  shows "res = RS_SUCCESS \<and> e_entries e'' = e_entries e \<and>
    (sz = word_of_nat (4 * n) \<longrightarrow> (\<exists>r. \<forall>x. 180 \<le> unat (x - r) \<longrightarrow> e_mem e'' x = e_mem e x)) \<and>
    (sz = 0 \<longrightarrow> GenerateNormalTrampolineBuffer address replace = Inr (mem_read (4 * n) address (e_mem e'')))"
proof -
  obtain tramp ctx' a en and b :: mem_block where g: "GenerateNormalTrampolineBuffer address replace = Inr tramp"
    and asm: "relo_assemble (hook_ctx e address (length tramp)) True = Inr (ctx', a)"
    and fi: "find_entry address (e_entries e) = None"
    and m: "e_mem e' = mem_write tramp address (mem_write (a_buffer a) (mb_addr b) (e_mem e))"
    and en: "e_entries e' = e_entries e @ [en]" "ie_patched_addr en = address" "ie_origin_insn_size en = sz"
      "take (4 * ((length tramp + 3) div 4)) (ie_origin_insns en) =
        mem_read (4 * ((length tramp + 3) div 4)) address (mem_write (a_buffer a) (mb_addr b) (e_mem e))"
    using hook_success [OF h] unfolding sz_def by blast
  have tl: "length tramp = 4 * n" using tramp_length [OF g] by (simp add: n_def)
  have n: "n \<le> 4" "(4 * n + 3) div 4 = n" by (simp_all add: n_def tramp_words_def)
  have f: "find_entry address (e_entries e') = Some en" using find_new_entry [of en "e_entries e"] fi en by simp
  have rm: "remove_entry address (e_entries e') = e_entries e" using remove_new_entry [of en "e_entries e"] fi en by simp
  have d': "res = RS_SUCCESS" "e_entries e'' = e_entries e"
    "e_mem e'' = mem_write (take (unat sz) (ie_origin_insns en)) address (e_mem e')"
    using d f rm en(3) by (auto simp: DobbyDestroy_def DobbyCodePatch_def Let_def split: if_splits)
  have small: "length (a_buffer a) \<le> 180" using relo_assemble_length [OF asm] n by (simp add: hook_ctx_def tl)
  have 1: "\<exists>r. \<forall>x. 180 \<le> unat (x - r) \<longrightarrow> e_mem e'' x = e_mem e x" if "sz = word_of_nat (4 * n)"
  proof -
    have "unat sz = 4 * n" using that n(1) by (simp only: unsigned_of_nat) (simp add: take_bit_nat_eq_self)
    then have "e_mem e'' = mem_write (a_buffer a) (mb_addr b) (e_mem e)"
      unfolding d'(3) m using en(4) n(2) tl by (simp add: mem_write_back)
    then show ?thesis using small by (intro exI [of _ "mb_addr b"]) (simp add: mem_write_def)
  qed
  have 2: "GenerateNormalTrampolineBuffer address replace = Inr (mem_read (4 * n) address (e_mem e''))" if "sz = 0"
  proof -
    have "e_mem e'' = e_mem e'" using that by (simp add: d'(3) mem_write_def)
    moreover have "length tramp \<le> 2 ^ 32" using tl n(1) by simp
    ultimately show ?thesis using g mem_read_write [of tramp address] by (simp add: m tl)
  qed
  show ?thesis using d' 1 2 by blast
qed

text \<open>The shortcut with ADRP misses its target where the pages are \<open>2 ^ 32\<close> apart. The distance of the
  addresses is compared with the reach of ADRP, but ADRP adds the distance of the pages: when it is
  exactly \<open>2 ^ 32\<close> while the distance of the addresses is below, the trampoline branches to an address
  \<open>2 ^ 33\<close> below the replacement.\<close>

theorem trampoline_page_overflow:
  assumes g: "GenerateNormalTrampolineBuffer frm to = Inr buf"
    and reach: "llabs (frm - to) < adrp_range" "ALIGN_FLOOR to 0x1000 - ALIGN_FLOOR frm 0x1000 = 2 ^ 32"
    and st: "holds_bytes buf frm st" "pc st = frm"
  shows "run other 3 st = (wX 17 (to - 2 ^ 33) st)\<lparr>pc := to - 2 ^ 33\<rparr>"
proof -
  have h: "holds_bytes (code_bytes (adrp_words frm to)) frm st"
    using g normal_trampoline_bytes [of frm to] st(1) reach(1) by auto
  have "push_bit 12 (scast (ucast (drop_bit 12 (2 ^ 32 :: 64 word)) :: 21 word)) = (- (2 ^ 32) :: 64 word)"
    by simp
  moreover have "push_bit 12 (drop_bit 12 frm) + 2 ^ 32 = push_bit 12 (drop_bit 12 to)"
    using reach(2) by (simp add: ALIGN_FLOOR_page algebra_simps)
  then have "push_bit 12 (drop_bit 12 frm) + - (2 ^ 32) + take_bit 12 to = to - 2 ^ 33"
    using bits_ident [of 12 to] by (simp add: algebra_simps)
  ultimately show ?thesis using run_adrp_words_gen [OF h st(2), of other] unfolding reach(2) by (simp only:)
qed

text \<open>A patch changes the permission of a page it does not touch. When the patch ends on a page boundary,
  the page behind it, of which no byte is written, is set to read and execute: data there can no longer be
  written.\<close>

theorem patch_reprotects_next_page:
  assumes p: "DobbyCodePatch page address buffer sz e = Inr e'"
    and a: "page = 2 ^ k" "k < 32" "0 < sz" "address + ucast sz = next" "ALIGN_FLOOR next page = next"
      "ALIGN_FLOOR address page \<noteq> next" "unat sz \<le> unat page"
  shows "(Call_mprotect next page kReadExecute, None) \<in> set (os_calls (e_alloc e')) \<and>
    (\<forall>i<unat page. e_mem e' (next + word_of_nat i) = e_mem e (next + word_of_nat i))"
proof -
  have s: "unat sz \<le> length buffer"
    and e': "e_mem e' = mem_write (take (unat sz) buffer) address (e_mem e)"
    "os_calls (e_alloc e') = os_calls (e_alloc e) @ patch_calls page (ALIGN_FLOOR address page) next kReadWriteExecute @
      patch_calls page (ALIGN_FLOOR address page) next kReadExecute"
    using p a(4,5) by (auto simp: DobbyCodePatch_def Let_def not_less split: if_splits)
  have "(2 :: nat) ^ k < 2 ^ 32" using a(2) by (rule power_strict_increasing) simp
  then have pg: "unat page < 2 ^ 32" using a(1,2) by (simp add: unat_page)
  have "e_mem e' (next + word_of_nat i) = e_mem e (next + word_of_nat i)" if "i < unat page" for i
  proof -
    have "next + word_of_nat i - address = word_of_nat (unat sz + i)"
      using a(4) by (auto simp: algebra_simps)
    moreover have "unat sz + i < 2 ^ 64" using that pg a(7) by simp
    then have "unat (word_of_nat (unat sz + i) :: 64 word) = unat sz + i"
      by (simp only: unsigned_of_nat) (simp add: take_bit_nat_eq_self)
    ultimately have "unat (next + word_of_nat i - address) = unat sz + i" by (simp only:)
    then show ?thesis by (simp add: e'(1) mem_write_def)
  qed
  moreover have "(Call_mprotect next page kReadExecute, None) \<in> set (patch_calls page (ALIGN_FLOOR address page) next kReadExecute)"
    using a(6) by (simp add: patch_calls_def)
  ultimately show ?thesis by (simp add: e'(2))
qed

section \<open>The near trampoline\<close>

lemma imm26_in_range:
  assumes "- (2 ^ 32) < sint off" "sint off < 2 ^ 27" "- (2 ^ 27) < sint off" "take_bit 2 off = 0"
  shows "push_bit 2 (scast (ucast (drop_bit 2 off) :: 26 word)) = (off :: 64 word)"
proof -
  have low: "\<not> bit off i" if "i < 2" for i
    using that assms(4) by (metis bit_0_eq bit_take_bit_iff bot_apply bot_bool_def)
  have hi: "bit off j \<longleftrightarrow> bit off 27" if "27 \<le> j" "j < 64" for j
  proof -
    have "signed_take_bit 27 (sint off) = sint off" using assms(2,3) by (simp add: signed_take_bit_int_eq_self)
    then have "bit (sint off) j = bit (signed_take_bit 27 (sint off)) j" by simp
    then have "bit (sint off) j = bit (sint off) 27" using that by (simp add: bit_signed_take_bit_iff min_def)
    then show ?thesis using that by (simp add: bit_sint_iff bit_simps split: if_splits)
  qed
  show ?thesis
  proof (rule bit_word_eqI)
    show "bit (push_bit 2 (scast (ucast (drop_bit 2 off) :: 26 word)) :: 64 word) i = bit off i"
      if i: "i < LENGTH(64)" for i
    proof (cases "i < 2")
      case True
      then show ?thesis using low by (simp add: bit_simps)
    next
      case False
      then have "Suc (Suc (i - 2)) = i" by simp
      with False i hi [of i] show ?thesis by (auto simp: bit_simps min_def)
    qed
  qed
qed

lemma decode_word_b: "decode (word_b imm) = B_imm (push_bit 2 (scast (ucast (drop_bit 2 imm) :: 26 word)))"
proof -
  let ?w = "word_b imm"
  have b: "bit ?w i \<longleftrightarrow> (if i < 26 then bit imm (i + 2) else i = 26 \<or> i = 28)" if "i < 32" for i
  proof -
    have "bit (0x14000000 :: 32 word) i \<longleftrightarrow> i \<in> {26, 28}"
      using that by (auto simp: bit_numeral_rec bit_1_iff numeral_eq_Suc less_Suc_eq)
    then show ?thesis using that
      by (auto simp: word_b_def op_B_def UnconditionalBranchFixed_def bits_64 bit_simps min_def)
  qed
  have "(ucast (fld 0 26 ?w) :: 26 word) = ucast (drop_bit 2 imm)"
    by (rule bit_word_eqI) (auto simp: bit_simps b)
  then have "off26 ?w = push_bit 2 (scast (ucast (drop_bit 2 imm) :: 26 word))" by (simp add: off26_def)
  moreover have "fld 26 5 ?w = 5" "fld 31 1 ?w = 0" unfolding class_bits by (simp_all add: b)
  ultimately show ?thesis by (simp add: decode_def decode_pcrel_def)
qed

lemma llabs_near:
  assumes "llabs w < ARM64_B_XXX_RANGE"
  shows "- (2 ^ 27) < sint w \<and> sint w < 2 ^ 27"
proof -
  have "llabs w < adrp_range" using assms by (simp add: ARM64_B_XXX_RANGE_def adrp_range_def word_less_def)
  note big = llabs_bound [OF this]
  have s: "sint (- w) = - sint w" if "sint w < 0"
  proof -
    have "- w = word_of_int (- sint w)" by simp
    then have "sint (- w) = sint (word_of_int (- sint w) :: 64 word)" by simp
    also have "\<dots> = - sint w"
      by (subst sint_sbintrunc') (use big in \<open>simp add: signed_take_bit_int_eq_self\<close>)
    finally show ?thesis .
  qed
  have u: "sint v < 2 ^ 27" if "v < ARM64_B_XXX_RANGE" "0 \<le> sint v" for v :: "64 word"
  proof -
    have l: "uint v < 2 ^ 27" using that(1) by (simp add: ARM64_B_XXX_RANGE_def word_less_def)
    have "0 \<le> uint v" by simp
    with l have "sint v = uint v" by (subst sint_uint, intro signed_take_bit_int_eq_self) (rule order_trans [of _ 0], simp_all)
    with l show ?thesis by simp
  qed
  show ?thesis
  proof (cases "sint w < 0")
    case True
    then have "sint (- w) < 2 ^ 27" using u [of "- w"] s assms by (simp add: llabs_def)
    with s True show ?thesis by simp
  next
    case False
    then show ?thesis using u [of w] assms by (simp add: llabs_def)
  qed
qed

lemma b_word_runs:
  assumes "holds_bytes (a_buffer (Emit (word_b (dst - src)) (new_assembler src))) src st" "pc st = src"
    "llabs (dst - src) < ARM64_B_XXX_RANGE" "take_bit 2 (dst - src) = 0"
  shows "arm_step other st = st\<lparr>pc := dst\<rparr>"
proof -
  have "holds_bytes (code_bytes [word_b (dst - src)] @ []) src st"
    using assms(1) by (simp add: Emit_def EmitBuffer_def new_assembler_def)
  from code_word_at [OF this, of 0] have "word_at (pc st) st = word_b (dst - src)" by (simp add: assms(2))
  from step_at [OF arg_cong [OF this, of decode, unfolded decode_word_b]]
  show ?thesis using imm26_in_range [of "dst - src"] llabs_near [OF assms(3)] assms(2,4) by (simp add: exec_def)
qed

text \<open>The near trampoline is a single branch instruction, and for a replacement less than 128 MB away it goes
  straight there: one step of the machine reaches the replacement with no register changed, and the engine
  is left as it was.\<close>

theorem near_trampoline_runs:
  assumes g: "GenerateNearTrampolineBuffer mmap page regions src dst e = Inr (Some buf, e')"
    and near: "llabs (dst - src) < ARM64_B_XXX_RANGE" "take_bit 2 (dst - src) = 0"
    and st: "holds_bytes buf src st" "pc st = src"
  shows "length buf = 4 \<and> arm_step other st = st\<lparr>pc := dst\<rparr> \<and> e' = e"
proof -
  have b: "buf = a_buffer (Emit (word_b (dst - src)) (new_assembler src))" "e' = e"
    using g near(1) by (simp_all add: GenerateNearTrampolineBuffer_def Let_def)
  then have "length buf = 4" by (simp add: Emit_def EmitBuffer_def new_assembler_def)
  with b b_word_runs [OF st(1) [unfolded b(1)] st(2) near] show ?thesis by simp
qed

section \<open>Witnesses\<close>

text \<open>An engine whose memory is \<open>nop\<close> everywhere, and a kernel that maps every request at \<open>0x20000\<close>.\<close>

definition nop_byte :: "64 word \<Rightarrow> 8 word" where
  "nop_byte x = [0x1F, 0x20, 0x03, 0xD5] ! unat (x AND 3)"

definition nop_engine :: hook_engine where
  "nop_engine = \<lparr>e_mem = nop_byte, e_alloc = \<lparr>code_arenas = [], data_arenas = [], os_calls = []\<rparr>, e_entries = []\<rparr>"

definition map_20000 :: kernel where
  "map_20000 h c = (case c of Call_mmap _ _ _ \<Rightarrow> Some 0x20000 | _ \<Rightarrow> None)"

definition zero_entry :: InterceptEntry where
  "zero_entry = \<lparr>ie_id = 0, ie_type = kFunctionInlineHook, ie_patched_addr = 0, ie_patched_size = 0, ie_relocated_addr = 0,
     ie_relocated_size = 0, ie_origin_insns = replicate 256 0, ie_origin_insn_size = 0\<rparr>"

lemma relo_assemble_origin:
  assumes "relo_assemble ctx branch = Inr (ctx', a)" "rc_cursor ctx = 0"
  defines "n \<equiv> 4 * ((rc_size ctx + 3) div 4)"
  shows "rc_origin ctx' = block_reset (mb_addr (rc_origin ctx)) (word_of_nat n) (rc_origin ctx)"
proof -
  obtain ps where ps: "length ps = (rc_size ctx + 3) div 4"
    and c: "ctx' = ctx\<lparr>rc_cursor := rc_cursor ctx + 4 * length ps, rc_map := rc_map ctx ++ map_of_pieces (rc_cursor ctx) 0 ps,
               rc_origin := block_reset (mb_addr (rc_origin ctx)) (word_of_nat (rc_cursor ctx')) (rc_origin ctx)\<rparr>"
    using relo_assemble_layout [OF assms(1)] assms(2) by auto
  have "rc_cursor ctx' = n" using arg_cong [OF c, of rc_cursor] ps assms(2) by (simp add: n_def)
  with arg_cong [OF c, of rc_origin] show ?thesis by simp
qed

text \<open>When the pieces of a hook succeed, the hook does.\<close>

lemma hook_succeeds:
  assumes a: "address \<noteq> 0" "find_entry address (e_entries e) = None" "length (ie_origin_insns fresh) = 256"
    and asm: "relo_assemble (hook_ctx e address (4 * tramp_words address replace)) True = Inr (ctx', a)"
    and blk: "allocateExecBlock mmap page (word_of_nat (length (a_buffer a)))
      (OSMemory_SetPermission (ALIGN_FLOOR address page) page kReadExecute (e_alloc e)) = Inr (b, m)"
  shows "\<exists>e'. DobbyHook mmap page regions False True fresh address replace True e = Inr (RS_SUCCESS, Some (mb_addr b), e')"
proof -
  let ?n = "tramp_words address replace"
  define e1 where "e1 = e\<lparr>e_alloc := OSMemory_SetPermission (ALIGN_FLOOR address page) page kReadExecute (e_alloc e)\<rparr>"
  define en where "en = new_InterceptEntry fresh kFunctionInlineHook address e1"
  have pa: "ie_patched_addr en = address" "ie_origin_insns en = ie_origin_insns fresh"
    by (simp_all add: en_def new_InterceptEntry_def)
  obtain tramp where g: "GenerateNormalTrampolineBuffer address replace = Inr tramp"
    using normal_trampoline_bytes [of address replace] by blast
  have tl: "length tramp = 4 * ?n" by (rule tramp_length [OF g])
  have n: "?n \<le> 4" "(4 * ?n + 3) div 4 = ?n" by (simp_all add: tramp_words_def)
  have u: "ucast (word_of_nat (length tramp) :: 32 word) = (word_of_nat (length tramp) :: 64 word)"
    "unat (word_of_nat (length tramp) :: 64 word) = length tramp" "unat (word_of_nat (length tramp) :: 32 word) = length tramp"
    using tl n(1) by (simp_all add: word_unat_eq_iff unat_ucast_64 unsigned_of_nat take_bit_nat_eq_self del: of_nat_mult)
  have len: "length (a_buffer a) < 2 ^ 32" "0 < length (a_buffer a)"
  proof -
    show "length (a_buffer a) < 2 ^ 32" using relo_assemble_length [OF asm] n by (simp add: hook_ctx_def)
    from relo_assemble_layout [OF asm] obtain ps t
      where "layout (all_pieces ps True t) (gap_of (all_pieces ps True t) True) (a_buffer a)" by auto
    from layout_length [OF this] show "0 < length (a_buffer a)" by (simp add: all_pieces_def branch_piece_def)
  qed
  have ua: "unat (word_of_nat (length (a_buffer a)) :: 32 word) = length (a_buffer a)"
    using len(1) by (simp add: unsigned_of_nat take_bit_nat_eq_self)
  obtain e2 where fin: "FinalizeFromTurboAssembler map page a e1 = Inr (MemBlock (mb_addr b) (word_of_nat (length (a_buffer a))), e2)"
    if "map = mmap" for map
    using blk relo_assemble_realized [OF asm] ua
    by (auto simp: FinalizeFromTurboAssembler_def e1_def GetBufferSize_def DobbyCodePatch_def Let_def)
  have ctx: "\<lparr>rc_buffer = mem_read (unat (r_size (MemBlock address (ucast (word_of_nat (length tramp) :: 32 word)))) + 3) address (e_mem e1),
      rc_cursor = 0, rc_size = unat (r_size (MemBlock address (ucast (word_of_nat (length tramp) :: 32 word)))),
      rc_src = mb_addr (MemBlock address (ucast (word_of_nat (length tramp) :: 32 word))),
      rc_origin = MemBlock address (ucast (word_of_nat (length tramp) :: 32 word)), rc_map = Map.empty\<rparr> = hook_ctx e address (4 * ?n)"
    unfolding u(1) tl [symmetric] by (simp add: hook_ctx_def MemBlock_def MemRange_def mem_range.defs u(2) e1_def)
  have gen: "GenRelocateCodeAndBranch mmap page address (MemBlock address (ucast (word_of_nat (length tramp) :: 32 word))) (MemBlock 0 0) e1 =
      Inr (rc_origin ctx', block_reset (mb_addr b) (word_of_nat (length (a_buffer a))) (MemBlock 0 0), e2)"
    unfolding GenRelocateCodeAndBranch_def GenRelocateCode_def Let_def ctx relo_relocate_def
    by (simp add: asm fin [OF refl]) (simp add: MemBlock_def MemRange_def mem_range.defs)
  let ?o = "rc_origin ctx'"
  have os: "r_size ?o = word_of_nat (4 * ?n)" "mb_addr ?o = address"
    using relo_assemble_origin [OF asm] n(2) by (simp_all add: hook_ctx_def block_reset_def MemBlock_def mem_range.defs)
  have "unat (r_size ?o) = 4 * ?n" using os(1) u(2) tl by simp
  then have room: "\<not> length (ie_origin_insns en) < unat (r_size ?o)" using a(3) n(1) by (simp add: pa(2))
  have "r_size (block_reset (mb_addr b) (word_of_nat (length (a_buffer a))) (MemBlock 0 0)) \<noteq> 0"
    using len by (simp add: block_reset_def word_unat_eq_iff unsigned_of_nat take_bit_nat_eq_self)
  with room gen obtain en1 where rel: "GenerateRelocatedCode mmap page tramp en e1 = Inr (True, en1, e2)"
    "ie_relocated_addr en1 = mb_addr b" "ie_patched_addr en1 = address"
    by (simp add: GenerateRelocatedCode_def pa(1)) (simp add: block_reset_def pa)
  obtain e3 where act: "Active page tramp en1 e2 = Inr e3"
    by (simp add: Active_def DobbyCodePatch_def u(3) Let_def)
  have d: "DispatchRouting mmap page regions False replace en e1 = Inr (tramp, en1, e2)"
    using rel(1) g by (simp add: DispatchRouting_def BuildRouting_def GenerateTrampolineBuffer_def pa(1))
  have "DobbyHook mmap page regions False True fresh address replace True e = Inr (RS_SUCCESS, Some (mb_addr b), add_entry en1 e3)"
    using d act a(1,2) rel(2) by (simp add: DobbyHook_def Let_def e1_def [symmetric] en_def [symmetric]) (simp add: e1_def)
  then show ?thesis by blast
qed

definition nop_ctx :: relo_ctx where
  "nop_ctx =
     \<lparr>rc_buffer = [31, 32, 3, 0xD5, 31, 32, 3, 0xD5, 31, 32, 3, 0xD5, 31, 32, 3], rc_cursor = 0, rc_size = 12,
      rc_src = 0x8000, rc_origin = MemBlock 0x8000 12, rc_map = Map.empty\<rparr>"

lemma nop_bytes: "mem_read 15 0x8000 nop_byte = [31,32,3,0xD5,31,32,3,0xD5,31,32,3,0xD5,31,32,3]"
  by code_simp

lemma sample_words: "tramp_words 0x8000 0x9000 = 3" by code_simp

lemma sample_ctx: "hook_ctx nop_engine 0x8000 (4 * tramp_words 0x8000 0x9000) = nop_ctx"
  by (simp add: hook_ctx_def sample_words nop_bytes nop_engine_def nop_ctx_def)

lemma nop_assembles:
  "case relo_assemble nop_ctx True of Inl _ \<Rightarrow> False | Inr (_, a) \<Rightarrow> length (a_buffer a) = 36"
  by code_simp

lemma nop_block: "case allocateExecBlock map_20000 0x1000 36 (OSMemory_SetPermission (ALIGN_FLOOR 0x8000 0x1000) 0x1000 kReadExecute (e_alloc nop_engine)) of
   Inl _ \<Rightarrow> False | Inr (b, _) \<Rightarrow> mb_addr b = 0x20000" by code_simp

lemma sample_hook:
  "\<exists>e'. DobbyHook map_20000 0x1000 [] False True zero_entry 0x8000 0x9000 True nop_engine = Inr (RS_SUCCESS, Some 0x20000, e')"
proof -
  obtain ctx' a where r: "relo_assemble nop_ctx True = Inr (ctx', a)" "length (a_buffer a) = 36"
    using nop_assembles by (auto split: sum.splits)
  obtain m and b :: mem_block where b: "allocateExecBlock map_20000 0x1000 36 (OSMemory_SetPermission (ALIGN_FLOOR 0x8000 0x1000) 0x1000 kReadExecute
      (e_alloc nop_engine)) = Inr (b, m)" "mb_addr b = 0x20000"
    using nop_block by (auto split: sum.splits)
  show ?thesis
    using hook_succeeds [of "0x8000" nop_engine zero_entry "0x9000" ctx' a map_20000 "0x1000" b m "[]"] r b
    by (simp add: sample_ctx) (simp add: nop_engine_def zero_entry_def)
qed

lemma hook_redirects_witness:
  "\<exists>orig e'. DobbyHook map_20000 0x1000 [] False True zero_entry 0x8000 0x9000 True nop_engine = Inr (RS_SUCCESS, orig, e') \<and>
     (let st = \<lparr>regs = \<lambda>_. 0, pc = 0x8000, nzcv = (False, False, False, False), mem = e_mem e'\<rparr> in
      \<exists>n>0. run (\<lambda>_ s. s) n st = (wX 17 0x9000 st)\<lparr>pc := 0x9000\<rparr>)"
proof -
  obtain e' where h: "DobbyHook map_20000 0x1000 [] False True zero_entry 0x8000 0x9000 True nop_engine = Inr (RS_SUCCESS, Some 0x20000, e')"
    using sample_hook by blast
  have "ALIGN_FLOOR 0x9000 0x1000 - ALIGN_FLOOR 0x8000 0x1000 \<noteq> (2 ^ 32 :: 64 word)" by code_simp
  with hook_redirects [OF h, of "\<lparr>regs = \<lambda>_. 0, pc = 0x8000, nzcv = (False, False, False, False), mem = e_mem e'\<rparr>" "\<lambda>_ s. s"] h
  show ?thesis by (simp add: Let_def)
qed

lemma nop_insts:
  assumes "k < 3"
  shows "inst_at (mem_read 15 0x8000 nop_byte) (4 * k) = 0xD503201F"
    "decode (inst_at (mem_read 15 0x8000 nop_byte) (4 * k)) = Other 0xD503201F"
    "supported (inst_at (mem_read 15 0x8000 nop_byte) (4 * k))"
proof -
  show 1: "inst_at (mem_read 15 0x8000 nop_byte) (4 * k) = 0xD503201F"
    using assms unfolding nop_bytes by (auto simp: numeral_3_eq_3 less_Suc_eq) code_simp+
  have "decode 0xD503201F = Other 0xD503201F" "fld 25 7 0xD503201F \<noteq> 42" by code_simp+
  with 1 show "decode (inst_at (mem_read 15 0x8000 nop_byte) (4 * k)) = Other 0xD503201F"
    "supported (inst_at (mem_read 15 0x8000 nop_byte) (4 * k))" by (simp_all add: supported_def)
qed

lemma hooked_original_runs_witness:
  "\<exists>e'. DobbyHook map_20000 0x1000 [] False True zero_entry 0x8000 0x9000 True nop_engine = Inr (RS_SUCCESS, Some 0x20000, e') \<and>
     (let st = \<lparr>regs = \<lambda>_. 0, pc = 0, nzcv = (False, False, False, False), mem = e_mem e'\<rparr> in
      \<exists>m. agree {17} (run (\<lambda>_ s. s) m (st\<lparr>pc := 0x20000\<rparr>))
        ((block_run (\<lambda>_ s. s) 0x8000 (mem_read 15 0x8000 nop_byte) 3 st)\<lparr>pc := 0x800C\<rparr>))"
proof -
  let ?o = "\<lambda>_ s. s :: arm" and ?buf = "mem_read 15 0x8000 nop_byte"
  obtain e' where h: "DobbyHook map_20000 0x1000 [] False True zero_entry 0x8000 0x9000 True nop_engine = Inr (RS_SUCCESS, Some 0x20000, e')"
    using sample_hook by blast
  let ?st = "\<lparr>regs = \<lambda>_. 0, pc = 0, nzcv = (False, False, False, False), mem = e_mem e'\<rparr>"
  have n: "tramp_words 0x8000 0x9000 = 3" "e_mem nop_engine = nop_byte" by (simp_all add: sample_words nop_engine_def)
  have ig: "supported (inst_at ?buf (4 * k)) \<and> ignores_tmp ?o (inst_at ?buf (4 * k)) \<and>
      falls_through ?o (inst_at ?buf (4 * k)) src s" if "k < 3" for k src s
    using nop_insts [OF that]
    by (auto simp: ignores_tmp_def falls_through_def exec_def agree_def wX_def)
  have mem: "mem (block_run ?o 0x8000 ?buf k ?st) = e_mem e'" if "k \<le> 3" for k
    using that
  proof (induction k)
    case (Suc k)
    then show ?case using nop_insts(2) [of k] by (simp add: exec_def)
  qed simp
  have "outside 0x8000 12 0x20000 180"
    unfolding outside_def
  proof (intro allI impI)
    fix i :: nat assume "i < 180"
    moreover have "0x20000 + word_of_nat i - 0x8000 = (word_of_nat (0x18000 + i) :: 64 word)" by simp
    ultimately show "12 \<le> unat (0x20000 + word_of_nat i - 0x8000 :: 64 word)"
      by (simp only: unsigned_of_nat) (simp add: take_bit_nat_eq_self)
  qed
  with hooked_original_runs [OF h, of ?o ?st] h ig mem show ?thesis
    unfolding n by (simp add: Let_def)
qed

lemma entries_distinct_witness:
  "distinct (map ie_patched_addr (e_entries nop_engine)) \<and> hooked nop_engine = {} \<and>
    (DobbyDestroy 0x1000 0x8000 nop_engine = Inr (RS_FAILED, nop_engine))"
  using entries_distinct [of nop_engine nop_engine, where address = "0x8000" and page = "0x1000" and res' = RS_FAILED and e'' = nop_engine]
  by (simp add: nop_engine_def hooked_def DobbyDestroy_def)

lemma destroy_depends_on_garbage_witness:
  "\<exists>e' e''. DobbyHook map_20000 0x1000 [] False True zero_entry 0x8000 0x9000 True nop_engine = Inr (RS_SUCCESS, Some 0x20000, e') \<and>
     DobbyDestroy 0x1000 0x8000 e' = Inr (RS_SUCCESS, e'') \<and> e_entries e'' = [] \<and>
     GenerateNormalTrampolineBuffer 0x8000 0x9000 = Inr (mem_read 12 0x8000 (e_mem e''))"
proof -
  obtain e' where h: "DobbyHook map_20000 0x1000 [] False True zero_entry 0x8000 0x9000 True nop_engine = Inr (RS_SUCCESS, Some 0x20000, e')"
    using sample_hook by blast
  then obtain en where "e_entries e' = [en]" "ie_patched_addr en = 0x8000" "ie_origin_insn_size en = 0"
    using hook_success [OF h] by (auto simp: nop_engine_def zero_entry_def)
  then obtain e'' where d: "DobbyDestroy 0x1000 0x8000 e' = Inr (RS_SUCCESS, e'')"
    by (simp add: DobbyDestroy_def DobbyCodePatch_def Let_def)
  show ?thesis using destroy_depends_on_garbage [OF h d] h d
    by (simp add: sample_words) (simp add: nop_engine_def zero_entry_def)
qed

lemma near_trampoline_runs_witness:
  "\<exists>buf. GenerateNearTrampolineBuffer map_20000 0x1000 [] 0x1000 0x2000 nop_engine = Inr (Some buf, nop_engine) \<and>
     arm_step (\<lambda>_ s. s) (loaded_state buf 0x1000) = (loaded_state buf 0x1000)\<lparr>pc := 0x2000\<rparr>"
proof -
  have near: "llabs (0x2000 - 0x1000) < ARM64_B_XXX_RANGE" "take_bit 2 (0x2000 - 0x1000 :: 64 word) = 0" by code_simp+
  then obtain buf where g: "GenerateNearTrampolineBuffer map_20000 0x1000 [] 0x1000 0x2000 nop_engine = Inr (Some buf, nop_engine)"
    "length buf = 4"
    by (simp add: GenerateNearTrampolineBuffer_def Let_def) (simp add: Emit_def EmitBuffer_def new_assembler_def)
  have "holds_bytes buf 0x1000 (loaded_state buf 0x1000)" "pc (loaded_state buf 0x1000) = 0x1000"
    by (simp add: loaded_state_holds g(2)) (simp add: loaded_state_def)
  from near_trampoline_runs [OF g(1) near this, of "\<lambda>_ s. s"] g(1) show ?thesis by blast
qed

lemma trampoline_page_overflow_witness:
  "\<exists>buf. GenerateNormalTrampolineBuffer 0x1FFC 0x100001FF8 = Inr buf \<and>
     ALIGN_FLOOR 0x100001FF8 0x1000 - ALIGN_FLOOR 0x1FFC 0x1000 = (2 ^ 32 :: 64 word) \<and>
     pc (run (\<lambda>_ s. s) 3 (loaded_state buf 0x1FFC)) = 0x100001FF8 - 2 ^ 33"
proof -
  have reach: "llabs (0x1FFC - 0x100001FF8) < adrp_range" "ALIGN_FLOOR 0x100001FF8 0x1000 - ALIGN_FLOOR 0x1FFC 0x1000 = (2 ^ 32 :: 64 word)"
    by code_simp+
  then obtain buf where g: "GenerateNormalTrampolineBuffer 0x1FFC 0x100001FF8 = Inr buf" "length buf = 12"
    using normal_trampoline_bytes [of "0x1FFC" "0x100001FF8"] by auto
  have "holds_bytes buf 0x1FFC (loaded_state buf 0x1FFC)" "pc (loaded_state buf 0x1FFC) = 0x1FFC"
    by (simp add: loaded_state_holds g(2)) (simp add: loaded_state_def)
  from trampoline_page_overflow [OF g(1) reach this, of "\<lambda>_ s. s"] g(1) reach(2) show ?thesis by simp
qed

lemma patch_reprotects_next_page_witness:
  "\<exists>e'. DobbyCodePatch 0x1000 0x1FF0 (replicate 16 7) 16 nop_engine = Inr e' \<and>
     (Call_mprotect 0x2000 0x1000 kReadExecute, None) \<in> set (os_calls (e_alloc e'))"
proof -
  obtain e' where p: "DobbyCodePatch 0x1000 0x1FF0 (replicate 16 7) 16 nop_engine = Inr e'"
    by (simp add: DobbyCodePatch_def Let_def)
  have "ALIGN_FLOOR 0x2000 0x1000 = (0x2000 :: 64 word)" "ALIGN_FLOOR 0x1FF0 0x1000 \<noteq> (0x2000 :: 64 word)" by code_simp+
  with patch_reprotects_next_page [OF p, of 12 "0x2000"] p show ?thesis by simp
qed

end
