(* ===== verification/Spec2Isabelle.thy ===== *)
theory Spec2Isabelle
  imports StringUtils HexUtils Base64 Md5 Randomizer Channel WaitGroup ThreadPool FileTree ProcFiles Packages
    CommandLine RandomText JsonWriter HttpFaults HookEngine
begin

text \<open>
  A verification development of the native code of xp_helper (\<open>app/src/main/cpp\<close>; all paths below are
  relative to its directory \<open>third\<close>). The application hooks functions of running Android processes: the native
  part is an inline hook engine (\<open>dobby\<close>) with a library of helpers: Go style channels, a thread pool and a
  wait group (\<open>utils/copper.hpp\<close>, \<open>utils/thread_poool.h\<close>, \<open>utils/wait_group.h\<close>), string, hexadecimal and
  process functions (\<open>utils\<close>), MD5 and Base64. The helpers do not call each other; the hook engine is a tower in
  which each part uses the ones before it.

  \<^bold>\<open>Common parts.\<close>
  \<^item> \<open>Prelude\<close>: the error values (\<open>error\<close>, \<open>res\<close>, \<open>res_bind\<close>: exceptions, failed assertions and undefined
    behaviour are \<open>Inl\<close>), checked arrays and the list and word lemmas the theories share. A loop that may not end
    is a \<open>partial_function\<close> in the option type, so \<open>None\<close> is not returning.
  \<^item> \<open>CxxString\<close>: what the code uses of \<open>std::string\<close> (\<open>find\<close>, \<open>substr\<close>, \<open>npos\<close>, conversions to \<open>int\<close>).

  \<^bold>\<open>The hook engine\<close> (ARM64 on Android).
  \<^item> \<open>Arm64Codec\<close>: \<open>inst_decode_encode_kit.h\<close>, the operand fields of the instructions that depend on the
    program counter; encoders and decoders are inverse.
  \<^item> \<open>Arm64Asm\<close>: registers, operands and the words the emitter writes (\<open>assembler-arm64.h\<close>, \<open>constants-arm64.h\<close>,
    \<open>registers-arm64.h\<close>). \<open>Arm64Labels\<close>: the code buffer, the labels of 64-bit literals and their binding
    (\<open>AssemblerPseudoLabel.h\<close>, \<open>assembler.cc\<close>, \<open>codegen-arm64.cc\<close>).
  \<^item> \<open>MemoryAlloc\<close>: arenas, blocks and near blocks (\<open>MemoryAllocator.cc\<close>, \<open>NearMemoryAllocator.cc\<close>,
    \<open>platform-posix.cc\<close>); the kernel is a function from the calls so far to an answer. Blocks never overlap (a
    locale states what an allocator keeps, interpreted on both allocators), near blocks are near.
  \<^item> \<open>Arm64Relocate\<close>: \<open>InstructionRelocationARM64.cc\<close>, the relocation of the instructions a trampoline overwrites.
  \<^item> \<open>Arm64Isa\<close>: the abstract specification of the relocation: a machine with 31 registers, flags and memory, a
    decoder for the classes of instructions the relocation distinguishes and their effect, after the ARM
    architecture manual; every other instruction is a parameter. \<open>Arm64Sim\<close> describes the bytes the assembler
    leaves (pieces of words with their literals), \<open>Arm64Run\<close> proves that running them simulates the original
    instructions, and where it does not (conditional branches with AL, literal loads that are not 64 bits wide).
  \<^item> \<open>HookEngine\<close>: patching, trampolines, the interceptor, \<open>DobbyHook\<close> and \<open>DobbyDestroy\<close>; the redirection, the
    correctness of the pointer to the original function, and the invariant of the entries.

  \<^bold>\<open>Concurrency.\<close> Each of these is a state with one operation per critical section (or per atomic access) and an
  inductive step relation over them; the properties hold in all reachable states of all interleavings.
  \<^item> \<open>Channel\<close>: channels and selects of \<open>copper.hpp\<close>; \<open>Randomizer\<close>: the order in which a select tries its
    operations (xoshiro generator, the tables of \<open>switch_indices\<close>, the shuffle).
  \<^item> \<open>ThreadPool\<close>, \<open>WaitGroup\<close>.

  \<^bold>\<open>Data.\<close>
  \<^item> \<open>Md5\<close>: \<open>md5.cpp\<close> refines the algorithm of RFC 1321, incrementally and for files.
  \<^item> \<open>Base64\<close>: \<open>base64.cpp\<close> with both alphabets, padding and line breaks.
  \<^item> \<open>StringUtils\<close>, \<open>HexUtils\<close>: \<open>utils.cpp\<close>.

  \<^bold>\<open>Files.\<close> \<open>FileSystem\<close> states what POSIX says of directories, links, paths and descriptors; \<open>FileTree\<close> has the
  functions of \<open>linux_helper.cpp\<close> that remove, create and traverse trees of files, with what they do when the
  kernel refuses a call. \<open>Stdio\<close> states what the C library says of streams and of \<open>sscanf\<close>; over it \<open>ProcFiles\<close> has
  the functions of \<open>linux_helper.cpp\<close> and \<open>meminfo.cpp\<close> that read the files under \<open>/proc\<close> (memory maps, mounts, memory,
  the names of processes) and copy files, and \<open>Packages\<close> the look-ups of \<open>utils.cpp\<close> in the list of packages.

  \<^bold>\<open>Texts.\<close> \<open>CommandLine\<close>: the options of \<open>argparse.hpp\<close>. \<open>RandomText\<close>: the random and formatted texts of \<open>utils.cpp\<close>;
  the random generator and the text a format means are parameters.

  \<^bold>\<open>JSON.\<close> The part of jsoncpp that \<open>json_helper.cpp\<close> uses. \<open>JsonValue\<close>: the variants of \<open>Json::Value\<close> and the ordered map
  under arrays and objects (the laws of its order are a locale, interpreted on the order of names and on indices).
  \<open>JsonReader\<close>: \<open>Json::Reader\<close>, from tokens to values, with its errors and the recovery from them; it always returns, and
  what it returns is well-formed. \<open>JsonText\<close>: the abstract specification, a grammar of JSON texts with their values, and
  the proof that the reader implements it. \<open>JsonWriter\<close>: \<open>Json::FastWriter\<close>; what it writes is a text of the grammar, so
  reading back gives the value. Doubles and their conversions by the C library are parameters. The recursion of
  \<open>readValue\<close> is bounded by the code's own limit of a thousand nodes; no fuel is added.

  \<^bold>\<open>HTTP.\<close> The server of \<open>http_server.cpp\<close> over the parts of mongoose it runs. \<open>HttpText\<close>: slices of a buffer, their
  comparison, numbers and percent coding. \<open>HttpMessage\<close>: \<open>mg_http_parse\<close>; \<open>HttpRequest\<close>: the abstract requests, the text
  they are sent as, and the proof that the parser reads it. \<open>HttpPrint\<close>: the growing buffers (\<open>mg_iobuf\<close>) and the formatted
  output (\<open>mg_vxprintf\<close>). \<open>HttpConn\<close>: a connection, \<open>mg_http_reply\<close>, the delivery of whole and of chunked messages, the loop of
  \<open>http_cb\<close> and the reads of a connection; \<open>HttpReply\<close>: the text of a reply. \<open>HttpServer\<close>: \<open>HttpServer::HttpCallback\<close> with its
  handlers and queries; \<open>HttpQuery\<close>: which queries are read (over a locale of codecs, interpreted on the percent coding).
  \<open>HttpServed\<close>: a stream of requests, in pieces of any size, is answered request by request; \<open>HttpFaults\<close>: the
  requests and replies that are not handled as intended. The handlers, the answers of \<open>calloc\<close> and the bytes of the socket are
  parameters; events other than reading and closing are ignored by \<open>http_cb\<close>. A buffer holds at most
  \<open>MG_MAX_RECV_SIZE\<close> bytes. Plain \<open>char\<close> is unsigned as on ARM; arguments of a format that are doubles or functions have
  no value (\<open>UB_Args\<close>).

  \<^bold>\<open>Bounds and fuel.\<close> Machine integers are words of their width, so the wrap-around is the code's. The relocation
  properties assume that the generated code is at most \<open>2 ^ 20\<close> bytes, the reach of a literal load; for a hook it
  is at most 180 bytes (\<open>relo_assemble_length\<close>), so \<open>DobbyHook\<close> needs no such hypothesis. Loops over buffers
  are structural or have a measure. The one bound on a recursion is that of \<open>remove_dir\<close>: each level holds an open
  directory, so the descriptors the process has left are the bound, and without one left the call fails as the code does.

  \<^bold>\<open>Not modelled.\<close> The back ends of other processors and systems, instrumentation with closures, and the symbol
  resolvers of dobby; the rest of jsoncpp (its other reader, its styled writers, comments and offsets of
  values); the rest of mongoose (sockets, TLS, DNS, MQTT, WebSocket, files, timers); the vendored libraries that only other code uses (nlohmann json, tinyxml2, libhv, the SELinux and SQLite
  headers); JNI, logging, the crash handler and other code that only calls the system; the Java side. The
  instruction cache, the permissions of the pages written, and threads that run a function while it is patched are
  outside the model of the hook engine.
\<close>

end
